(* ===== verification/Machine.thy ===== *)
theory Machine
  imports Main "HOL-Library.Word" "HOL-Library.Monad_Syntax"
begin

text \<open>
  The ground every component stands on: the C integer types of
  \<^verbatim>\<open>student-distrib/types.h\<close> as words of their width, the byte-addressed memory, the
  processor flags and the I/O ports that \<^verbatim>\<open>student-distrib/lib.h\<close> wraps in inline assembly,
  and the generic facts about byte ranges and NUL-terminated strings that the other
  theories share.
\<close>

unbundle bit_operations_syntax

section \<open>Integer types and the machine state\<close>

type_synonym u8 = "8 word"
type_synonym u16 = "16 word"
type_synonym u32 = "32 word"

text \<open>
  An \<^verbatim>\<open>int32_t\<close> is a \<^typ>\<open>u32\<close> read by \<^term>\<open>sint\<close>; -1, the error return of every
  system call, is the word of all ones.
\<close>

abbreviation minus_one :: u32 where "minus_one \<equiv> 0xFFFFFFFF"

text \<open>The bytes of a string literal, without its NUL.\<close>

abbreviation lit :: "string \<Rightarrow> u8 list" where "lit cs \<equiv> map of_char cs"

text \<open>Collections: the definitions that evaluate a model, and the facts on byte ranges.\<close>

named_theorems mem_simps
named_theorems frame_simps

datatype io_event = Out u16 u8 | In u16 u8

text \<open>
  \<open>mem\<close> is the virtual address space the kernel runs in. \<open>io\<close> is the history of the port
  accesses, oldest first; \<open>inq p\<close> the bytes the device behind port \<open>p\<close> will hand out, in
  order. \<open>eflags\<close> is the flags register, of which the kernel uses the interrupt flag.
\<close>

record machine =
  mem :: "u32 \<Rightarrow> u8"
  io :: "io_event list"
  inq :: "u16 \<Rightarrow> u8 list"
  eflags :: u32

text \<open>The port wrappers of \<^verbatim>\<open>lib.h\<close>. A port nobody drives reads as all ones.\<close>

definition outb :: "u8 \<Rightarrow> u16 \<Rightarrow> 'a machine_scheme \<Rightarrow> 'a machine_scheme" where
  "outb data port s = s\<lparr>io := io s @ [Out port data]\<rparr>"

definition inb :: "u16 \<Rightarrow> 'a machine_scheme \<Rightarrow> u32 \<times> 'a machine_scheme" where
  "inb port s =
     (case inq s port of
        [] \<Rightarrow> (0xFF, s\<lparr>io := io s @ [In port 0xFF]\<rparr>)
      | v # vs \<Rightarrow> (ucast v, s\<lparr>io := io s @ [In port v], inq := (inq s)(port := vs)\<rparr>))"

text \<open>A port of 16 or 32 bits is that many consecutive ports of 8 bits, the lowest byte at its number.\<close>

definition outw :: "u16 \<Rightarrow> u16 \<Rightarrow> 'a machine_scheme \<Rightarrow> 'a machine_scheme" where
  "outw data port s = outb (ucast (drop_bit 8 data)) (port + 1) (outb (ucast data) port s)"

definition outl :: "u32 \<Rightarrow> u16 \<Rightarrow> 'a machine_scheme \<Rightarrow> 'a machine_scheme" where
  "outl data port s = outw (ucast (drop_bit 16 data)) (port + 2) (outw (ucast data) port s)"

definition inw :: "u16 \<Rightarrow> 'a machine_scheme \<Rightarrow> u32 \<times> 'a machine_scheme" where
  "inw port s = (let (lo, s) = inb port s; (hi, s) = inb (port + 1) s in (lo OR push_bit 8 hi, s))"

definition inl :: "u16 \<Rightarrow> 'a machine_scheme \<Rightarrow> u32 \<times> 'a machine_scheme" where
  "inl port s = (let (lo, s) = inw port s; (hi, s) = inw (port + 2) s in (lo OR push_bit 16 hi, s))"

definition IF_FLAG :: u32 where "IF_FLAG = 0x200"

definition cli :: "'a machine_scheme \<Rightarrow> 'a machine_scheme" where
  "cli s = s\<lparr>eflags := eflags s AND NOT IF_FLAG\<rparr>"

definition sti :: "'a machine_scheme \<Rightarrow> 'a machine_scheme" where
  "sti s = s\<lparr>eflags := eflags s OR IF_FLAG\<rparr>"

definition cli_and_save :: "'a machine_scheme \<Rightarrow> u32 \<times> 'a machine_scheme" where
  "cli_and_save s = (eflags s, cli s)"

definition restore_flags :: "u32 \<Rightarrow> 'a machine_scheme \<Rightarrow> 'a machine_scheme" where
  "restore_flags fl s = s\<lparr>eflags := fl\<rparr>"

definition interrupts_on :: "'a machine_scheme \<Rightarrow> bool" where
  "interrupts_on s \<longleftrightarrow> eflags s AND IF_FLAG \<noteq> 0"

lemma iflag_cases [simp]:
  "interrupts_on (sti s)" "\<not> interrupts_on (cli s)"
  by (simp_all add: interrupts_on_def sti_def cli_def IF_FLAG_def bit.conj_disj_distrib2 and.assoc)

text \<open>A critical section opened with \<^verbatim>\<open>cli_and_save\<close> and closed with \<^verbatim>\<open>restore_flags\<close>
  leaves the flags as it found them.\<close>

lemma restore_after_save [simp]:
  "restore_flags (fst (cli_and_save s)) (snd (cli_and_save s)) = s"
  by (simp add: cli_and_save_def restore_flags_def cli_def)

lemma outb_frame [simp, frame_simps]:
  "mem (outb d p s) = mem s" "eflags (outb d p s) = eflags s" "inq (outb d p s) = inq s"
  "machine.more (outb d p s) = machine.more s" "io (outb d p s) = io s @ [Out p d]"
  by (simp_all add: outb_def)

lemma inb_frame [simp, frame_simps]:
  "mem (snd (inb p s)) = mem s" "eflags (snd (inb p s)) = eflags s"
  "machine.more (snd (inb p s)) = machine.more s"
  by (simp_all add: inb_def split: list.splits)

lemma wide_ports_frame [simp, frame_simps]:
  "io (outw w p s) = io s @ [Out p (ucast w), Out (p + 1) (ucast (drop_bit 8 w))]"
  "mem (outw w p s) = mem s" "eflags (outw w p s) = eflags s" "machine.more (outw w p s) = machine.more s"
  "mem (outl v p s) = mem s" "eflags (outl v p s) = eflags s" "machine.more (outl v p s) = machine.more s"
  "mem (snd (inw p s)) = mem s" "eflags (snd (inw p s)) = eflags s" "machine.more (snd (inw p s)) = machine.more s"
  "mem (snd (inl p s)) = mem s" "eflags (snd (inl p s)) = eflags s" "machine.more (snd (inl p s)) = machine.more s"
  by (simp_all add: outw_def outl_def inw_def inl_def case_prod_unfold Let_def)

lemma flags_frame [simp, frame_simps]:
  "mem (cli s) = mem s" "io (cli s) = io s" "inq (cli s) = inq s"
  "mem (sti s) = mem s" "io (sti s) = io s" "inq (sti s) = inq s"
  "machine.more (cli s) = machine.more s" "machine.more (sti s) = machine.more s"
  "mem (restore_flags f s) = mem s" "io (restore_flags f s) = io s"
  "inq (restore_flags f s) = inq s" "eflags (restore_flags f s) = f"
  "machine.more (restore_flags f s) = machine.more s"
  by (simp_all add: cli_def sti_def restore_flags_def)

section \<open>Counters\<close>

lemma u32_bound: "unat (x :: u32) < 2 ^ 32"
  using unsigned_less [of x, where ?'a = nat] by simp

lemma unat_inc: "i < n \<Longrightarrow> unat (i + 1 :: u32) = Suc (unat i)"
  using u32_bound [of n] by (simp add: unat_word_ariths word_less_nat_alt)

lemma unat_add_nat: "unat (a :: u32) + n < 2 ^ 32 \<Longrightarrow> unat (a + of_nat n) = unat a + n"
  by (simp add: unat_word_ariths unat_of_nat)

lemma unat_add1: "unat (a :: u32) + 1 < 2 ^ 32 \<Longrightarrow> unat (a + 1) = unat a + 1"
  using unat_add_nat [of a 1] by simp

lemma inc_measure: "i < n \<Longrightarrow> unat n - unat (i + 1 :: u32) < unat n - unat i"
  by (simp add: unat_inc word_less_nat_alt)

lemma unat_dec: "x \<noteq> 0 \<Longrightarrow> unat (x - 1 :: u32) = unat x - 1"
  by (simp add: unat_minus_one)

lemma dec_measure: "x \<noteq> 0 \<Longrightarrow> unat (x - 1 :: u32) < unat x"
  by (simp add: unat_dec unat_gt_0)

lemma sint_bounds: "- (2 ^ 31) \<le> sint (x :: u32)" "sint (x :: u32) < 2 ^ 31"
  using sint_ge [of x] sint_lt [of x] by simp_all

lemma sint_inc: "sint (x :: u32) < 2 ^ 31 - 1 \<Longrightarrow> sint (x + 1) = sint x + 1"
  using sint_bounds [of x] by (simp add: sint_word_ariths signed_take_bit_int_eq_self)

lemma sint_dec: "- (2 ^ 31) < sint (x :: u32) \<Longrightarrow> sint (x - 1) = sint x - 1"
  using sint_bounds [of x] by (simp add: sint_word_ariths signed_take_bit_int_eq_self)

lemma less_measure: "i <s (n :: u32) \<Longrightarrow> nat (sint n - sint (i + 1)) < nat (sint n - sint i)"
  using sint_bounds [of i] sint_bounds [of n] by (simp add: word_sless_alt sint_inc)

lemma sint_of_nat: "n < 2 ^ 31 \<Longrightarrow> sint (of_nat n :: u32) = int n"
  by (simp add: signed_of_nat signed_take_bit_int_eq_self)

text \<open>A non-negative \<^verbatim>\<open>int32_t\<close> reads the same signed and unsigned.\<close>

lemma sint_unat: "unat (x :: u32) < 2 ^ 31 \<Longrightarrow> sint x = int (unat x)"
  using sint_of_nat [of "unat x"] by simp

lemma sless_0_iff: "(x :: u32) <s 0 \<longleftrightarrow> 2 ^ 31 \<le> unat x"
proof
  assume "x <s 0"
  then show "2 ^ 31 \<le> unat x" using sint_unat [of x] by (force simp: word_sless_alt)
next
  assume big: "2 ^ 31 \<le> unat x"
  show "x <s 0"
  proof (rule ccontr)
    assume "\<not> x <s 0"
    then have "0 \<le> sint x" by (simp add: word_sless_alt)
    then have "uint x = sint x" using sint_bounds [of x] by (simp add: uint_sint take_bit_int_eq_self)
    with sint_bounds [of x] big show False by (simp add: unat_eq_nat_uint)
  qed
qed

section \<open>Byte ranges\<close>

text \<open>\<open>rng a n\<close> is the set of the \<open>n\<close> addresses from \<open>a\<close> on (wrapping at 4 GB).\<close>

definition rng :: "u32 \<Rightarrow> nat \<Rightarrow> u32 set" where
  "rng a n = (\<lambda>i. a + of_nat i) ` {..<n}"

fun store_bytes :: "(u32 \<Rightarrow> u8) \<Rightarrow> u32 \<Rightarrow> u8 list \<Rightarrow> (u32 \<Rightarrow> u8)" where
  "store_bytes m a [] = m"
| "store_bytes m a (x # xs) = store_bytes (m(a := x)) (a + 1) xs"

fun bytes_at :: "(u32 \<Rightarrow> u8) \<Rightarrow> u32 \<Rightarrow> nat \<Rightarrow> u8 list" where
  "bytes_at m a 0 = []"
| "bytes_at m a (Suc n) = m a # bytes_at m (a + 1) n"

text \<open>\<open>cstr m a xs\<close>: the memory holds the C string \<open>xs\<close> at \<open>a\<close>, its NUL included.\<close>

fun cstr :: "(u32 \<Rightarrow> u8) \<Rightarrow> u32 \<Rightarrow> u8 list \<Rightarrow> bool" where
  "cstr m a [] \<longleftrightarrow> m a = 0"
| "cstr m a (x # xs) \<longleftrightarrow> m a = x \<and> x \<noteq> 0 \<and> cstr m (a + 1) xs"

text \<open>Little-endian words, as the processor lays them out.\<close>

definition load32 :: "(u32 \<Rightarrow> u8) \<Rightarrow> u32 \<Rightarrow> u32" where
  "load32 m a = ucast (m a) OR push_bit 8 (ucast (m (a + 1)))
     OR push_bit 16 (ucast (m (a + 2))) OR push_bit 24 (ucast (m (a + 3)))"

definition store32 :: "(u32 \<Rightarrow> u8) \<Rightarrow> u32 \<Rightarrow> u32 \<Rightarrow> (u32 \<Rightarrow> u8)" where
  "store32 m a v = store_bytes m a
     [ucast v, ucast (drop_bit 8 v), ucast (drop_bit 16 v), ucast (drop_bit 24 v)]"

lemma rng_0 [simp]: "rng a 0 = {}"
  by (simp add: rng_def)

lemma rng_Suc: "rng a (Suc n) = insert a (rng (a + 1) n)"
proof -
  have "rng a (Suc n) = (\<lambda>i. a + of_nat i) ` insert 0 (Suc ` {..<n})"
    by (simp add: rng_def lessThan_Suc_eq_insert_0)
  then show ?thesis
    by (simp add: rng_def image_image add.assoc)
qed

lemma rng_1 [simp]: "rng a (Suc 0) = {a}"
  by (simp add: rng_Suc)

lemma mem_rng_iff: "n \<le> 2 ^ 32 \<Longrightarrow> b \<in> rng a n \<longleftrightarrow> unat (b - a) < n"
proof
  assume "b \<in> rng a n" and n: "n \<le> 2 ^ 32"
  then obtain i where i: "i < n" "b = a + of_nat i" by (auto simp: rng_def)
  with n show "unat (b - a) < n" by (simp add: unat_of_nat)
next
  assume "unat (b - a) < n"
  moreover have "b = a + of_nat (unat (b - a))" by simp
  ultimately show "b \<in> rng a n" unfolding rng_def by blast
qed

lemma self_in_rng [simp]: "0 < n \<Longrightarrow> a \<in> rng a n"
  unfolding rng_def by (rule image_eqI [of _ _ 0]) auto

lemma rng_mono: "n \<le> k \<Longrightarrow> rng a n \<subseteq> rng a k"
  by (auto simp: rng_def)

lemma rng_shift: "i + k \<le> n \<Longrightarrow> rng (a + of_nat i) k \<subseteq> rng a n"
proof
  fix b assume "i + k \<le> n" "b \<in> rng (a + of_nat i) k"
  then obtain j where "j < k" "b = a + of_nat i + of_nat j" by (auto simp: rng_def)
  then have "b = a + of_nat (i + j)" "i + j < n"
    using \<open>i + k \<le> n\<close> by simp_all
  then show "b \<in> rng a n" unfolding rng_def by blast
qed

text \<open>Two ranges that do not wrap and follow each other are disjoint: the way a concrete
  layout discharges a disjointness hypothesis.\<close>

lemma rng_disjointI:
  assumes "unat a + n \<le> unat b" "unat b + k \<le> 2 ^ 32"
  shows "rng a n \<inter> rng b k = {}" "rng b k \<inter> rng a n = {}"
proof -
  have "a + of_nat i \<noteq> b + of_nat j" if "i < n" "j < k" for i j
  proof
    assume "a + of_nat i = b + of_nat j"
    then have "unat (a + of_nat i) = unat (b + of_nat j)" by simp
    moreover have "unat (a + of_nat i) = unat a + i" "unat (b + of_nat j) = unat b + j"
      using that assms by (simp_all add: unat_add_nat)
    ultimately show False using that assms by simp
  qed
  then have "rng a n \<inter> rng b k = {}"
    unfolding rng_def by fastforce
  then show "rng a n \<inter> rng b k = {}" "rng b k \<inter> rng a n = {}"
    by blast+
qed

text \<open>Two pieces of one range.\<close>

lemma rng_apart:
  assumes "i + n \<le> j" "j + k \<le> 2 ^ 32"
  shows "rng (a + of_nat i) n \<inter> rng (a + of_nat j) k = {}"
proof -
  have "a + of_nat i + of_nat x \<noteq> a + of_nat j + of_nat y" if "x < n" "y < k" for x y
  proof
    assume "a + of_nat i + of_nat x = a + of_nat j + of_nat y"
    then have "(of_nat (i + x) :: u32) = of_nat (j + y)" by (simp add: add.assoc)
    then have "unat (of_nat (i + x) :: u32) = unat (of_nat (j + y) :: u32)" by simp
    with that assms show False by (simp only: unat_of_nat) simp
  qed
  then show ?thesis unfolding rng_def by fastforce
qed

lemma store_bytes_other [simp]:
  "b \<notin> rng a (length xs) \<Longrightarrow> store_bytes m a xs b = m b"
  by (induction xs arbitrary: m a) (auto simp: rng_Suc)

lemma store_bytes_append:
  "store_bytes m a (xs @ ys) = store_bytes (store_bytes m a xs) (a + of_nat (length xs)) ys"
  by (induction xs arbitrary: m a) (auto simp: add.assoc)

lemma store_bytes_snoc:
  "(store_bytes m a xs)(a + of_nat (length xs) := x) = store_bytes m a (xs @ [x])"
  by (simp add: store_bytes_append)

lemma unat_minus_one_word: "unat (- 1 :: u32) = 2 ^ 32 - 1"
  by (simp add: unsigned_minus_1_eq_mask mask_eq_exp_minus_1)

lemma not_in_rng_Suc: "n < 2 ^ 32 \<Longrightarrow> a \<notin> rng (a + 1) n"
  by (simp add: mem_rng_iff unat_minus_one_word)

lemma store_bytes_nth:
  "length xs \<le> 2 ^ 32 \<Longrightarrow> i < length xs \<Longrightarrow> store_bytes m a xs (a + of_nat i) = xs ! i"
proof (induction xs arbitrary: m a i)
  case (Cons x xs)
  show ?case
  proof (cases i)
    case 0
    with Cons.prems show ?thesis by (simp add: not_in_rng_Suc)
  next
    case (Suc j)
    with Cons.prems have "store_bytes (m(a := x)) (a + 1) xs (a + 1 + of_nat j) = xs ! j"
      by (intro Cons.IH) auto
    with Suc show ?thesis by (simp add: add.assoc)
  qed
qed simp

lemma length_bytes_at [simp]: "length (bytes_at m a n) = n"
  by (induction n arbitrary: a) auto

lemma bytes_at_nth [simp]: "i < n \<Longrightarrow> bytes_at m a n ! i = m (a + of_nat i)"
proof (induction n arbitrary: a i)
  case (Suc n)
  then show ?case by (cases i) (auto simp: add.assoc)
qed simp

lemma bytes_at_cong: "(\<And>b. b \<in> rng a n \<Longrightarrow> m b = m' b) \<Longrightarrow> bytes_at m a n = bytes_at m' a n"
  by (induction n arbitrary: a) (auto simp: rng_Suc)

lemma bytes_at_store_same:
  "length xs \<le> 2 ^ 32 \<Longrightarrow> n = length xs \<Longrightarrow> bytes_at (store_bytes m a xs) a n = xs"
  by (rule nth_equalityI) (auto simp: store_bytes_nth)

lemma bytes_at_store_other:
  "rng a n \<inter> rng b (length xs) = {} \<Longrightarrow> bytes_at (store_bytes m b xs) a n = bytes_at m a n"
  by (rule bytes_at_cong) (auto simp: disjoint_iff)

lemma bytes_at_add: "bytes_at m a (n + k) = bytes_at m a n @ bytes_at m (a + of_nat n) k"
  by (induction n arbitrary: a) (auto simp: add.assoc)

lemma take_bytes_at: "k \<le> n \<Longrightarrow> take k (bytes_at m a n) = bytes_at m a k"
  by (rule nth_equalityI) auto

section \<open>C strings\<close>

lemma cstr_nonzero: "cstr m a xs \<Longrightarrow> 0 \<notin> set xs"
  by (induction xs arbitrary: a) auto

lemma cstr_bytes: "cstr m a xs \<Longrightarrow> bytes_at m a (length xs) = xs"
  by (induction xs arbitrary: a) auto

lemma cstr_end: "cstr m a xs \<Longrightarrow> m (a + of_nat (length xs)) = 0"
  by (induction xs arbitrary: a) (auto simp flip: add.assoc)

lemma cstr_iff:
  "cstr m a xs \<longleftrightarrow> bytes_at m a (length xs) = xs \<and> 0 \<notin> set xs \<and> m (a + of_nat (length xs)) = 0"
  by (induction xs arbitrary: a) (auto simp: add.assoc)

lemma cstr_unique: "cstr m a xs \<Longrightarrow> cstr m a ys \<Longrightarrow> xs = ys"
proof (induction xs arbitrary: a ys)
  case Nil
  then show ?case by (cases ys) auto
next
  case (Cons x xs)
  then show ?case by (cases ys) auto
qed

lemma cstr_cong:
  assumes "\<And>b. b \<in> rng a (Suc (length xs)) \<Longrightarrow> m b = m' b"
  shows "cstr m a xs = cstr m' a xs"
proof -
  have "bytes_at m a (Suc (length xs)) = bytes_at m' a (Suc (length xs))"
    using assms by (rule bytes_at_cong)
  moreover have "cstr n a xs \<longleftrightarrow> bytes_at n a (Suc (length xs)) = xs @ [0] \<and> 0 \<notin> set xs" for n
    using bytes_at_add [of n a "length xs" 1] by (auto simp: cstr_iff)
  ultimately show ?thesis by simp
qed

lemma cstr_store_other:
  "rng a (Suc (length xs)) \<inter> rng b (length ys) = {} \<Longrightarrow>
   cstr (store_bytes m b ys) a xs = cstr m a xs"
  by (rule cstr_cong) (auto simp: disjoint_iff)

lemma cstr_store_same:
  assumes "0 \<notin> set xs" "length xs < 2 ^ 32"
  shows "cstr (store_bytes m a (xs @ [0])) a xs"
proof -
  have "bytes_at (store_bytes m a (xs @ [0])) a (length (xs @ [0])) = xs @ [0]"
    using assms by (intro bytes_at_store_same) auto
  then have "bytes_at (store_bytes m a (xs @ [0])) a (length xs)
      @ [store_bytes m a (xs @ [0]) (a + of_nat (length xs))] = xs @ [0]"
    using bytes_at_add [of "store_bytes m a (xs @ [0])" a "length xs" 1] by simp
  with assms show ?thesis by (simp add: cstr_iff)
qed

lemma cstr_suffix: "cstr m a (xs @ ys) \<Longrightarrow> cstr m (a + of_nat (length xs)) ys"
  by (induction xs arbitrary: a) (auto simp flip: add.assoc)

text \<open>Appending to a string in place.\<close>

lemma cstr_append_store:
  assumes "bytes_at m a (length xs) = xs" "0 \<notin> set xs" "0 \<notin> set ys" "length xs + length ys < 2 ^ 32"
  shows "cstr (store_bytes m (a + of_nat (length xs)) (ys @ [0])) a (xs @ ys)"
proof -
  let ?p = "a + of_nat (length xs)"
  let ?m = "store_bytes m ?p (ys @ [0])"
  have "rng a (length xs) \<inter> rng ?p (length (ys @ [0])) = {}"
    using rng_apart [of 0 "length xs" "length xs" "length (ys @ [0])" a] assms(4) by simp
  then have x: "bytes_at ?m a (length xs) = xs" using assms(1) by (simp only: bytes_at_store_other)
  have "bytes_at ?m ?p (length (ys @ [0])) = ys @ [0]"
    using assms(4) by (intro bytes_at_store_same) auto
  then have "bytes_at ?m a (length xs + length (ys @ [0])) = xs @ ys @ [0]"
    unfolding bytes_at_add x by simp
  then have "bytes_at ?m a (length (xs @ ys)) @ [?m (a + of_nat (length (xs @ ys)))] = (xs @ ys) @ [0]"
    using bytes_at_add [of ?m a "length (xs @ ys)" 1] by (simp add: add.assoc)
  then show ?thesis using assms(2,3) by (auto simp: cstr_iff)
qed

section \<open>Little-endian words\<close>

lemma load32_cong: "(\<And>b. b \<in> rng a 4 \<Longrightarrow> m b = m' b) \<Longrightarrow> load32 m a = load32 m' a"
  by (simp add: load32_def numeral_eq_Suc rng_Suc add.assoc)

lemma load32_store_other:
  "rng a 4 \<inter> rng b (length xs) = {} \<Longrightarrow> load32 (store_bytes m b xs) a = load32 m a"
  by (rule load32_cong) (auto simp: disjoint_iff)

lemma load32_store32: "load32 (store32 m a v) a = v"
proof -
  have "bytes_at (store32 m a v) a 4 =
      [ucast v, ucast (drop_bit 8 v), ucast (drop_bit 16 v), ucast (drop_bit 24 v)]"
    unfolding store32_def by (rule bytes_at_store_same) auto
  then have eqs: "store32 m a v a = ucast v" "store32 m a v (a + 1) = ucast (drop_bit 8 v)"
    "store32 m a v (a + 2) = ucast (drop_bit 16 v)" "store32 m a v (a + 3) = ucast (drop_bit 24 v)"
    by (simp_all add: numeral_eq_Suc add.assoc)
  have "bit (load32 (store32 m a v) a) n = bit v n" if "n < 32" for n
  proof -
    consider "n < 8" | "8 \<le> n" "n < 16" | "16 \<le> n" "n < 24" | "24 \<le> n" by linarith
    then show ?thesis
      by cases (use that in \<open>auto simp: load32_def eqs bit_simps\<close>)
  qed
  then show ?thesis by (auto intro: bit_word_eqI)
qed

end
