(* ===== verification/Clib.thy ===== *)
theory Clib
  imports Machine
begin

text \<open>
  The string and memory functions of \<^verbatim>\<open>student-distrib/lib.c\<close>, on the byte-addressed
  memory. Each \<^verbatim>\<open>while\<close> whose exit depends on the contents of the memory is a
  \<^theory_text>\<open>partial_function\<close>: \<^const>\<open>None\<close> is a call that never returns. The inline assembly of
  \<open>memset\<close>, \<open>memcpy\<close> and \<open>memmove\<close> is translated register by register, and proved
  equal to its bytewise reference.
\<close>

section \<open>strlen, strcpy, strncpy, strncmp\<close>

partial_function (option) strlen_loop :: "(u32 \<Rightarrow> u8) \<Rightarrow> u32 \<Rightarrow> u32 \<Rightarrow> u32 option" where
  "strlen_loop m s len = (if m (s + len) \<noteq> 0 then strlen_loop m s (len + 1) else Some len)"

definition strlen :: "(u32 \<Rightarrow> u8) \<Rightarrow> u32 \<Rightarrow> u32 option" where
  "strlen m s = strlen_loop m s 0"

partial_function (option) strcpy_loop ::
  "(u32 \<Rightarrow> u8) \<Rightarrow> u32 \<Rightarrow> u32 \<Rightarrow> u32 \<Rightarrow> (u32 \<Rightarrow> u8) option" where
  "strcpy_loop m dest src i =
     (if m (src + i) \<noteq> 0 then strcpy_loop (m(dest + i := m (src + i))) dest src (i + 1)
      else Some (m(dest + i := 0)))"

definition strcpy :: "(u32 \<Rightarrow> u8) \<Rightarrow> u32 \<Rightarrow> u32 \<Rightarrow> (u32 \<Rightarrow> u8) option" where
  "strcpy m dest src = strcpy_loop m dest src 0"

function strncpy_copy :: "(u32 \<Rightarrow> u8) \<Rightarrow> u32 \<Rightarrow> u32 \<Rightarrow> u32 \<Rightarrow> u32 \<Rightarrow> (u32 \<Rightarrow> u8) \<times> u32" where
  "strncpy_copy m dest src n i =
     (if m (src + i) \<noteq> 0 \<and> i < n
      then strncpy_copy (m(dest + i := m (src + i))) dest src n (i + 1)
      else (m, i))"
  by pat_completeness auto
termination
  by (relation "measure (\<lambda>(m, dest, src, n, i). unat n - unat i)") (auto simp: inc_measure)

function strncpy_pad :: "(u32 \<Rightarrow> u8) \<Rightarrow> u32 \<Rightarrow> u32 \<Rightarrow> u32 \<Rightarrow> (u32 \<Rightarrow> u8)" where
  "strncpy_pad m dest n i =
     (if i < n then strncpy_pad (m(dest + i := 0)) dest n (i + 1) else m)"
  by pat_completeness auto
termination
  by (relation "measure (\<lambda>(m, dest, n, i). unat n - unat i)") (auto simp: inc_measure)

definition strncpy :: "(u32 \<Rightarrow> u8) \<Rightarrow> u32 \<Rightarrow> u32 \<Rightarrow> u32 \<Rightarrow> (u32 \<Rightarrow> u8)" where
  "strncpy m dest src n =
     (case strncpy_copy m dest src n 0 of (m', i) \<Rightarrow> strncpy_pad m' dest n i)"

text \<open>\<^verbatim>\<open>int8_t\<close> is a signed \<^verbatim>\<open>char\<close>: the difference is taken after sign extension.\<close>

function strncmp_loop :: "(u32 \<Rightarrow> u8) \<Rightarrow> u32 \<Rightarrow> u32 \<Rightarrow> u32 \<Rightarrow> u32 \<Rightarrow> u32" where
  "strncmp_loop m s1 s2 n i =
     (if i < n then
        if m (s1 + i) \<noteq> m (s2 + i) \<or> m (s1 + i) = 0
        then scast (m (s1 + i)) - scast (m (s2 + i))
        else strncmp_loop m s1 s2 n (i + 1)
      else 0)"
  by pat_completeness auto
termination
  by (relation "measure (\<lambda>(m, s1, s2, n, i). unat n - unat i)") (auto simp: inc_measure)

definition strncmp :: "(u32 \<Rightarrow> u8) \<Rightarrow> u32 \<Rightarrow> u32 \<Rightarrow> u32 \<Rightarrow> u32" where
  "strncmp m s1 s2 n = strncmp_loop m s1 s2 n 0"

declare strncpy_copy.simps [simp del] strncpy_pad.simps [simp del] strncmp_loop.simps [simp del]

section \<open>strrev and itoa\<close>

text \<open>The indices of \<open>strrev\<close> are \<^verbatim>\<open>int32_t\<close>: the comparison is signed.\<close>

lemma strrev_measure:
  "beg <s (endi :: u32) \<Longrightarrow> nat (sint (endi - 1) - sint (beg + 1)) < nat (sint endi - sint beg)"
  using sint_bounds [of beg] sint_bounds [of endi]
  by (simp add: word_sless_alt sint_inc sint_dec)

function strrev_loop :: "(u32 \<Rightarrow> u8) \<Rightarrow> u32 \<Rightarrow> u32 \<Rightarrow> u32 \<Rightarrow> (u32 \<Rightarrow> u8)" where
  "strrev_loop m s beg endi =
     (if beg <s endi then
        strrev_loop (m(s + endi := m (s + beg), s + beg := m (s + endi))) s (beg + 1) (endi - 1)
      else m)"
  by pat_completeness auto
termination
  by (relation "measure (\<lambda>(m, s, beg, endi). nat (sint endi - sint beg))")
    (simp_all only: wf_measure in_measure prod.case strrev_measure)

declare strrev_loop.simps [simp del]

definition strrev :: "(u32 \<Rightarrow> u8) \<Rightarrow> u32 \<Rightarrow> (u32 \<Rightarrow> u8) option" where
  "strrev m s = do { len \<leftarrow> strlen m s; Some (strrev_loop m s 0 (len - 1)) }"

text \<open>The table of digits, with the NUL that ends the literal.\<close>

definition itoa_lookup :: "u8 list" where
  "itoa_lookup = map of_char ''0123456789ABCDEFGHIJKLMNOPQRSTUVWXYZ'' @ [0]"

text \<open>A division by zero raises exception 0, whose handler never returns, and a digit past
  the table is outside the array: both are \<^const>\<open>None\<close>.\<close>

partial_function (option) itoa_loop ::
  "(u32 \<Rightarrow> u8) \<Rightarrow> u32 \<Rightarrow> u32 \<Rightarrow> u32 \<Rightarrow> ((u32 \<Rightarrow> u8) \<times> u32) option" where
  "itoa_loop m newbuf newval radix =
     (if newval > 0 then
        if radix = 0 then None
        else let i = newval mod radix in
          if unat i < length itoa_lookup
          then itoa_loop (m(newbuf := itoa_lookup ! unat i)) (newbuf + 1) (newval div radix) radix
          else None
      else Some (m, newbuf))"

definition itoa :: "(u32 \<Rightarrow> u8) \<Rightarrow> u32 \<Rightarrow> u32 \<Rightarrow> u32 \<Rightarrow> (u32 \<Rightarrow> u8) option" where
  "itoa m val buf radix =
     (if val = 0 then Some (m(buf := of_char CHR ''0'', buf + 1 := 0))
      else do {
        (m', newbuf) \<leftarrow> itoa_loop m buf val radix;
        strrev (m'(newbuf := 0)) buf })"

section \<open>memset, memcpy, memmove\<close>

text \<open>
  The inline assembly, register by register: \<open>edi\<close>, \<open>esi\<close> and \<open>ecx\<close> are the
  destination, the source and the count; \<^verbatim>\<open>rep stosb/stosw/stosl\<close> store the low 1, 2, 4
  bytes of \<open>eax\<close> and advance (the direction flag is cleared by \<^verbatim>\<open>cld\<close>).
\<close>

function rep_stosl :: "(u32 \<Rightarrow> u8) \<Rightarrow> u32 \<Rightarrow> u32 \<Rightarrow> u32 \<Rightarrow> (u32 \<Rightarrow> u8) \<times> u32" where
  "rep_stosl m eax edi ecx =
     (if ecx = 0 then (m, edi) else rep_stosl (store32 m edi eax) eax (edi + 4) (ecx - 1))"
  by pat_completeness auto
termination
  by (relation "measure (\<lambda>(m, eax, edi, ecx). unat ecx)") (auto simp: dec_measure)

function rep_stosw :: "(u32 \<Rightarrow> u8) \<Rightarrow> u32 \<Rightarrow> u32 \<Rightarrow> u32 \<Rightarrow> (u32 \<Rightarrow> u8)" where
  "rep_stosw m eax edi ecx =
     (if ecx = 0 then m
      else rep_stosw (store_bytes m edi [ucast eax, ucast (drop_bit 8 eax)]) eax (edi + 2) (ecx - 1))"
  by pat_completeness auto
termination
  by (relation "measure (\<lambda>(m, eax, edi, ecx). unat ecx)") (auto simp: dec_measure)

text \<open>The byte loops of \<open>memset\<close>: \<^verbatim>\<open>.memset_top\<close> up to a 4-byte boundary, and
  \<^verbatim>\<open>.memset_bottom\<close> for the last \<open>edx\<close> bytes.\<close>

function memset_top :: "(u32 \<Rightarrow> u8) \<Rightarrow> u8 \<Rightarrow> u32 \<Rightarrow> u32 \<Rightarrow> (u32 \<Rightarrow> u8) \<times> u32 \<times> u32" where
  "memset_top m al edi ecx =
     (if ecx = 0 \<or> edi AND 3 = 0 then (m, edi, ecx)
      else memset_top (m(edi := al)) al (edi + 1) (ecx - 1))"
  by pat_completeness auto
termination
  by (relation "measure (\<lambda>(m, al, edi, ecx). unat ecx)") (auto simp: dec_measure)

function memset_bottom :: "(u32 \<Rightarrow> u8) \<Rightarrow> u8 \<Rightarrow> u32 \<Rightarrow> u32 \<Rightarrow> (u32 \<Rightarrow> u8)" where
  "memset_bottom m al edi edx =
     (if edx = 0 then m else memset_bottom (m(edi := al)) al (edi + 1) (edx - 1))"
  by pat_completeness auto
termination
  by (relation "measure (\<lambda>(m, al, edi, edx). unat edx)") (auto simp: dec_measure)

definition memset :: "(u32 \<Rightarrow> u8) \<Rightarrow> u32 \<Rightarrow> u32 \<Rightarrow> u32 \<Rightarrow> (u32 \<Rightarrow> u8)" where
  "memset m s c n =
     (let c = c AND 0xFF;
          eax = push_bit 24 c OR push_bit 16 c OR push_bit 8 c OR c;
          (m1, edi, ecx) = memset_top m (ucast eax) s n
      in if ecx = 0 then m1
         else case rep_stosl m1 eax edi (drop_bit 2 ecx) of
           (m2, edi2) \<Rightarrow> memset_bottom m2 (ucast eax) edi2 (ecx AND 3))"

definition memset_word :: "(u32 \<Rightarrow> u8) \<Rightarrow> u32 \<Rightarrow> u32 \<Rightarrow> u32 \<Rightarrow> (u32 \<Rightarrow> u8)" where
  "memset_word m s c n = rep_stosw m c s n"

definition memset_dword :: "(u32 \<Rightarrow> u8) \<Rightarrow> u32 \<Rightarrow> u32 \<Rightarrow> u32 \<Rightarrow> (u32 \<Rightarrow> u8)" where
  "memset_dword m s c n = fst (rep_stosl m c s n)"

function rep_movsl :: "(u32 \<Rightarrow> u8) \<Rightarrow> u32 \<Rightarrow> u32 \<Rightarrow> u32 \<Rightarrow> (u32 \<Rightarrow> u8) \<times> u32 \<times> u32" where
  "rep_movsl m edi esi ecx =
     (if ecx = 0 then (m, edi, esi)
      else rep_movsl (store32 m edi (load32 m esi)) (edi + 4) (esi + 4) (ecx - 1))"
  by pat_completeness auto
termination
  by (relation "measure (\<lambda>(m, edi, esi, ecx). unat ecx)") (auto simp: dec_measure)

function memcpy_top ::
  "(u32 \<Rightarrow> u8) \<Rightarrow> u32 \<Rightarrow> u32 \<Rightarrow> u32 \<Rightarrow> (u32 \<Rightarrow> u8) \<times> u32 \<times> u32 \<times> u32" where
  "memcpy_top m edi esi ecx =
     (if ecx = 0 \<or> edi AND 3 = 0 then (m, edi, esi, ecx)
      else memcpy_top (m(edi := m esi)) (edi + 1) (esi + 1) (ecx - 1))"
  by pat_completeness auto
termination
  by (relation "measure (\<lambda>(m, edi, esi, ecx). unat ecx)") (auto simp: dec_measure)

text \<open>\<^verbatim>\<open>rep movsb\<close> with the direction flag clear; it is also the loop of
  \<^verbatim>\<open>.memcpy_bottom\<close>, one byte at a time upwards.\<close>

function copy_up :: "(u32 \<Rightarrow> u8) \<Rightarrow> u32 \<Rightarrow> u32 \<Rightarrow> u32 \<Rightarrow> (u32 \<Rightarrow> u8)" where
  "copy_up m edi esi ecx =
     (if ecx = 0 then m else copy_up (m(edi := m esi)) (edi + 1) (esi + 1) (ecx - 1))"
  by pat_completeness auto
termination
  by (relation "measure (\<lambda>(m, edi, esi, ecx). unat ecx)") (auto simp: dec_measure)

text \<open>The same with the direction flag set: downwards.\<close>

function copy_down :: "(u32 \<Rightarrow> u8) \<Rightarrow> u32 \<Rightarrow> u32 \<Rightarrow> u32 \<Rightarrow> (u32 \<Rightarrow> u8)" where
  "copy_down m edi esi ecx =
     (if ecx = 0 then m else copy_down (m(edi := m esi)) (edi - 1) (esi - 1) (ecx - 1))"
  by pat_completeness auto
termination
  by (relation "measure (\<lambda>(m, edi, esi, ecx). unat ecx)") (auto simp: dec_measure)

definition memcpy :: "(u32 \<Rightarrow> u8) \<Rightarrow> u32 \<Rightarrow> u32 \<Rightarrow> u32 \<Rightarrow> (u32 \<Rightarrow> u8)" where
  "memcpy m dest src n =
     (let (m1, edi, esi, ecx) = memcpy_top m dest src n
      in if ecx = 0 then m1
         else case rep_movsl m1 edi esi (drop_bit 2 ecx) of
           (m2, edi2, esi2) \<Rightarrow> copy_up m2 edi2 esi2 (ecx AND 3))"

definition memmove :: "(u32 \<Rightarrow> u8) \<Rightarrow> u32 \<Rightarrow> u32 \<Rightarrow> u32 \<Rightarrow> (u32 \<Rightarrow> u8)" where
  "memmove m dest src n =
     (if dest \<le> src then copy_up m dest src n
      else copy_down m (dest + n - 1) (src + n - 1) n)"

declare rep_stosl.simps [simp del] rep_stosw.simps [simp del] memset_top.simps [simp del]
  memset_bottom.simps [simp del] rep_movsl.simps [simp del] memcpy_top.simps [simp del]
  copy_up.simps [simp del] copy_down.simps [simp del]

section \<open>strtok\<close>

text \<open>
  \<open>delim\<close> is the delimiter literal without its NUL (every call passes \<^verbatim>\<open>" "\<close>). The
  static \<^verbatim>\<open>last\<close> is passed and returned; the result is the token's address, 0 for NULL.
  \<open>strtok_skip\<close> is the loop at \<^verbatim>\<open>cont\<close>, with the character that ended it and the
  advanced pointer; \<open>strtok_scan\<close> is the loop that ends the token.
\<close>

partial_function (option) strtok_skip ::
  "(u32 \<Rightarrow> u8) \<Rightarrow> u8 list \<Rightarrow> u32 \<Rightarrow> (u8 \<times> u32) option" where
  "strtok_skip m delim s =
     (let c = m s in if c \<in> set delim then strtok_skip m delim (s + 1) else Some (c, s + 1))"

partial_function (option) strtok_scan ::
  "(u32 \<Rightarrow> u8) \<Rightarrow> u8 list \<Rightarrow> u32 \<Rightarrow> ((u32 \<Rightarrow> u8) \<times> u32) option" where
  "strtok_scan m delim s =
     (let c = m s in
      if c \<in> set (delim @ [0])
      then Some (if c = 0 then (m, 0) else (m(s := 0), s + 1))
      else strtok_scan m delim (s + 1))"

definition strtok ::
  "(u32 \<Rightarrow> u8) \<Rightarrow> u32 \<Rightarrow> u32 \<Rightarrow> u8 list \<Rightarrow> ((u32 \<Rightarrow> u8) \<times> u32 \<times> u32) option" where
  "strtok m last_ptr s delim =
     (let s = (if s = 0 then last_ptr else s) in
      if s = 0 then Some (m, last_ptr, 0)
      else do {
        (c, s) \<leftarrow> strtok_skip m delim s;
        if c = 0 then Some (m, 0, 0)
        else do {
          (m', l) \<leftarrow> strtok_scan m delim s;
          Some (m', l, s - 1) } })"

section \<open>What the string functions compute\<close>

lemma strlen_loop_cstr:
  "cstr m (s + len) xs \<Longrightarrow> strlen_loop m s len = Some (len + of_nat (length xs))"
proof (induction xs arbitrary: len)
  case Nil
  then show ?case by (subst strlen_loop.simps) simp
next
  case (Cons x xs)
  then have "strlen_loop m s (len + 1) = Some (len + 1 + of_nat (length xs))"
    by (intro Cons.IH) (simp add: add.assoc)
  with Cons.prems show ?case by (subst strlen_loop.simps) simp
qed

lemma strlen_cstr: "cstr m s xs \<Longrightarrow> strlen m s = Some (of_nat (length xs))"
  using strlen_loop_cstr [of m s 0 xs] by (simp add: strlen_def)

lemma strlen_zero: "m s = 0 \<Longrightarrow> strlen m s = Some 0"
  using strlen_cstr [of m s "[]"] by simp

lemma strlen_loop_Some:
  assumes "strlen_loop m s len = Some n"
  shows "m (s + n) = 0"
  by (rule strlen_loop.raw_induct [where P = "\<lambda>m s len n. m (s + n) = 0", OF _ assms])
    (auto split: if_splits)

text \<open>\<open>strlen\<close> returns exactly when there is a NUL to find.\<close>

lemma strlen_loop_steps:
  "(\<forall>i < k. m (s + len + of_nat i) \<noteq> 0) \<Longrightarrow> m (s + len + of_nat k) = 0 \<Longrightarrow>
   strlen_loop m s len = Some (len + of_nat k)"
proof (induction k arbitrary: len)
  case 0
  then show ?case by (subst strlen_loop.simps) simp
next
  case (Suc k)
  have step: "m (s + len) \<noteq> 0" using Suc.prems(1)[rule_format, of 0] by simp
  have "strlen_loop m s (len + 1) = Some (len + 1 + of_nat k)"
  proof (rule Suc.IH)
    show "\<forall>i<k. m (s + (len + 1) + of_nat i) \<noteq> 0"
      using Suc.prems(1) by (metis Suc_mono add.assoc of_nat_Suc)
    show "m (s + (len + 1) + of_nat k) = 0"
      using Suc.prems(2) by (simp add: add.assoc)
  qed
  with step show ?case by (subst strlen_loop.simps) (simp add: add.assoc)
qed

lemma strlen_returns_iff: "strlen m s \<noteq> None \<longleftrightarrow> (\<exists>a. m a = 0)"
proof
  assume "strlen m s \<noteq> None"
  then show "\<exists>a. m a = 0"
    using strlen_loop_Some unfolding strlen_def by blast
next
  assume "\<exists>a. m a = 0"
  then obtain a where "m a = 0" ..
  then have "\<exists>k. m (s + of_nat k) = 0"
    by (intro exI [of _ "unat (a - s)"]) simp
  then have "m (s + of_nat (LEAST k. m (s + of_nat k) = 0)) = 0"
    "\<forall>i < (LEAST k. m (s + of_nat k) = 0). m (s + of_nat i) \<noteq> 0"
    by (auto intro: LeastI_ex dest: not_less_Least)
  then show "strlen m s \<noteq> None"
    using strlen_loop_steps [of _ m s 0] by (simp add: strlen_def)
qed

lemma strcpy_loop_cstr:
  "cstr m (src + i) xs \<Longrightarrow>
   rng (dest + i) (Suc (length xs)) \<inter> rng (src + i) (Suc (length xs)) = {} \<Longrightarrow>
   strcpy_loop m dest src i = Some (store_bytes m (dest + i) (xs @ [0]))"
proof (induction xs arbitrary: i m)
  case Nil
  then show ?case by (subst strcpy_loop.simps) simp
next
  case (Cons x xs)
  let ?m = "m(dest + i := x)"
  have dis: "rng (dest + (i + 1)) (Suc (length xs)) \<inter> rng (src + (i + 1)) (Suc (length xs)) = {}"
    and out: "dest + i \<notin> rng (src + (i + 1)) (Suc (length xs))"
    using Cons.prems(2) by (auto simp: rng_Suc [of _ "Suc (length xs)"] add.assoc)
  have "cstr ?m (src + (i + 1)) xs"
    using Cons.prems(1) out by (subst cstr_cong [of _ _ _ m]) (auto simp: add.assoc)
  then have "strcpy_loop ?m dest src (i + 1) = Some (store_bytes ?m (dest + (i + 1)) (xs @ [0]))"
    using dis by (rule Cons.IH)
  with Cons.prems(1) show ?case
    by (subst strcpy_loop.simps) (simp add: add.assoc)
qed

lemma strcpy_cstr:
  "cstr m src xs \<Longrightarrow> rng dest (Suc (length xs)) \<inter> rng src (Suc (length xs)) = {} \<Longrightarrow>
   strcpy m dest src = Some (store_bytes m dest (xs @ [0]))"
  using strcpy_loop_cstr [of m src 0 xs dest] by (simp add: strcpy_def)

text \<open>The bytes of an array up to its first NUL.\<close>

definition upto_nul :: "u8 list \<Rightarrow> u8 list" where
  "upto_nul xs = takeWhile (\<lambda>x. x \<noteq> 0) xs"

lemma scast_inj8: "(scast (x :: u8) :: u32) = scast y \<longleftrightarrow> x = y"
proof
  assume eq: "(scast x :: u32) = scast y"
  have "bit x n = bit y n" if "n < 8" for n
  proof -
    have "bit (scast x :: u32) n = bit (scast y :: u32) n" using eq by simp
    with that show ?thesis by (cases "n = 7") (auto simp: bit_signed_iff min_def)
  qed
  then show "x = y" by (auto intro: bit_word_eqI)
qed simp

lemma scast_eq_0: "(scast (x :: u8) :: u32) = 0 \<longleftrightarrow> x = 0"
  using scast_inj8 [of x 0] by simp

lemma strncmp_loop_eq:
  "i \<le> n \<Longrightarrow> strncmp_loop m s1 s2 n i = 0 \<longleftrightarrow>
   upto_nul (bytes_at m (s1 + i) (unat (n - i))) = upto_nul (bytes_at m (s2 + i) (unat (n - i)))"
proof (induction m s1 s2 n i rule: strncmp_loop.induct)
  case (1 m s1 s2 n i)
  show ?case
  proof (cases "i < n")
    case True
    then have le: "i + 1 \<le> n" and "n - i \<noteq> 0" by (auto simp: inc_le)
    then have Suc: "unat (n - i) = Suc (unat (n - (i + 1)))"
      using unat_dec [of "n - i"] by (simp add: diff_diff_eq unat_gt_0 flip: Suc_pred')
    show ?thesis
      using "1.IH" [OF True _ le] True
      by (subst strncmp_loop.simps) (auto simp: Suc upto_nul_def scast_inj8 scast_eq_0 add.assoc)
  next
    case False
    with "1.prems" show ?thesis by (subst strncmp_loop.simps) (auto simp: upto_nul_def)
  qed
qed

lemma strncmp_eq_0:
  "strncmp m s1 s2 n = 0 \<longleftrightarrow>
   upto_nul (bytes_at m s1 (unat n)) = upto_nul (bytes_at m s2 (unat n))"
  using strncmp_loop_eq [of 0 n m s1 s2] by (simp add: strncmp_def)


text \<open>The first bytes in which two strings differ, none behind their NUL.\<close>

fun first_diff :: "u8 list \<Rightarrow> u8 list \<Rightarrow> (u8 \<times> u8) option" where
  "first_diff (x # xs) (y # ys) = (if x \<noteq> y then Some (x, y) else if x = 0 then None else first_diff xs ys)"
| "first_diff _ _ = None"

lemma strncmp_loop_diff:
  "i \<le> n \<Longrightarrow> strncmp_loop m s1 s2 n i =
   (case first_diff (bytes_at m (s1 + i) (unat (n - i))) (bytes_at m (s2 + i) (unat (n - i))) of
      None \<Rightarrow> 0 | Some (x, y) \<Rightarrow> scast x - scast y)"
proof (induction m s1 s2 n i rule: strncmp_loop.induct)
  case (1 m s1 s2 n i)
  show ?case
  proof (cases "i < n")
    case True
    then have le: "i + 1 \<le> n" and "n - i \<noteq> 0" by (auto simp: inc_le)
    then have Suc: "unat (n - i) = Suc (unat (n - (i + 1)))"
      using unat_dec [of "n - i"] by (simp add: diff_diff_eq unat_gt_0 flip: Suc_pred')
    show ?thesis
      using "1.IH" [OF True _ le] True by (subst strncmp_loop.simps) (auto simp: Suc add.assoc)
  next
    case False
    with "1.prems" show ?thesis by (subst strncmp_loop.simps) auto
  qed
qed

lemma strncmp_diff:
  "strncmp m s1 s2 n =
   (case first_diff (bytes_at m s1 (unat n)) (bytes_at m s2 (unat n)) of None \<Rightarrow> 0 | Some (x, y) \<Rightarrow> scast x - scast y)"
  using strncmp_loop_diff [of 0 n m s1 s2] by (simp add: strncmp_def)

text \<open>\<open>strrev\<close> on the bytes of the string: the swaps of the two indices.\<close>

lemma store_bytes_update:
  "i < length xs \<Longrightarrow> length xs \<le> 2 ^ 32 \<Longrightarrow>
   (store_bytes m a xs)(a + of_nat i := x) = store_bytes m a (xs[i := x])"
proof (rule ext)
  fix b
  assume i: "i < length xs" and n: "length xs \<le> 2 ^ 32"
  show "((store_bytes m a xs)(a + of_nat i := x)) b = store_bytes m a (xs[i := x]) b"
  proof (cases "b \<in> rng a (length xs)")
    case True
    then obtain j where j: "j < length xs" "b = a + of_nat j" by (auto simp: rng_def)
    have "(of_nat j :: u32) = of_nat i \<longleftrightarrow> j = i"
      using i j(1) n by (simp add: word_of_nat_eq_iff take_bit_nat_eq_self)
    then show ?thesis
      using i j n by (auto simp: store_bytes_nth nth_list_update)
  next
    case False
    moreover have "b \<noteq> a + of_nat i" using False i by (auto simp: rng_def)
    ultimately show ?thesis by simp
  qed
qed

lemma store_bytes_self: "store_bytes m a (bytes_at m a n) = m"
  by (induction n arbitrary: a) auto

lemma strrev_loop_list:
  "length (pre @ mid @ suf) < 2 ^ 31 \<Longrightarrow>
   strrev_loop (store_bytes m s (pre @ mid @ suf)) s (of_nat (length pre))
     (of_nat (length pre + length mid) - 1) = store_bytes m s (pre @ rev mid @ suf)"
proof (induction "length mid" arbitrary: mid pre suf rule: less_induct)
  case less
  let ?n = "length pre + length mid"
  have sint_end: "sint (of_nat ?n - 1 :: u32) = int ?n - 1"
    using less.prems sint_dec [of "of_nat ?n"] by (simp add: sint_of_nat del: of_nat_add)
  have sint_beg: "sint (of_nat (length pre) :: u32) = int (length pre)"
    using less.prems by (simp add: sint_of_nat)
  show ?case
  proof (cases "length mid < 2")
    case True
    then have "rev mid = mid" by (cases mid; cases "tl mid") auto
    moreover have "\<not> (of_nat (length pre) :: u32) <s of_nat ?n - 1"
      unfolding word_sless_alt sint_end sint_beg using True by simp
    ultimately show ?thesis by (subst strrev_loop.simps) (simp del: of_nat_add)
  next
    case False
    then obtain x y mid' where mid: "mid = x # mid' @ [y]"
      by (cases mid; cases "tl mid" rule: rev_cases) auto
    let ?i = "length pre" and ?j = "length pre + length mid' + 1"
    have lt: "(of_nat ?i :: u32) <s of_nat ?n - 1"
      unfolding word_sless_alt sint_end sint_beg using mid by simp
    have ej: "(of_nat ?n - 1 :: u32) = of_nat ?j" by (simp add: mid)
    let ?L = "pre @ mid @ suf"
    let ?M = "store_bytes m s ?L"
    have rd: "?M (s + of_nat ?i) = x" "?M (s + of_nat ?j) = y"
      using less.prems by (simp_all add: store_bytes_nth mid nth_append del: of_nat_add of_nat_Suc of_nat_1)
    have "?M(s + of_nat ?j := x, s + of_nat ?i := y)
        = store_bytes m s (?L[?j := x, ?i := y])"
      using less.prems by (simp add: store_bytes_update mid del: of_nat_add of_nat_Suc of_nat_1)
    also have "?L[?j := x, ?i := y] = (pre @ [y]) @ mid' @ ([x] @ suf)"
      by (simp add: mid list_update_append)
    finally have step: "?M(s + of_nat ?j := x, s + of_nat ?i := y)
        = store_bytes m s ((pre @ [y]) @ mid' @ ([x] @ suf))" .
    have "strrev_loop (store_bytes m s ((pre @ [y]) @ mid' @ ([x] @ suf))) s
        (of_nat (length (pre @ [y]))) (of_nat (length (pre @ [y]) + length mid') - 1)
      = store_bytes m s ((pre @ [y]) @ rev mid' @ ([x] @ suf))"
      using less.prems by (intro less.hyps) (auto simp: mid)
    moreover have "(of_nat ?i + 1 :: u32) = of_nat (length (pre @ [y]))"
      "(of_nat ?n - 1 - 1 :: u32) = of_nat (length (pre @ [y]) + length mid') - 1"
      by (simp_all add: mid)
    ultimately show ?thesis
      using lt by (subst strrev_loop.simps)
        (simp only: if_True rd ej step, simp add: mid ej del: of_nat_add of_nat_Suc of_nat_1)
  qed
qed

lemma strrev_cstr:
  assumes "cstr m s xs" "length xs < 2 ^ 31"
  shows "strrev m s = Some (store_bytes m s (rev xs))"
  using strrev_loop_list [of "[]" xs "[]" m s] assms store_bytes_self [of m s "length xs"]
  by (simp add: strrev_def strlen_cstr cstr_bytes)

section \<open>Number conversion\<close>

text \<open>The digits of \<open>n\<close> in base \<open>r\<close>, most significant first, and their value.\<close>

fun digits :: "nat \<Rightarrow> nat \<Rightarrow> nat list" where
  "digits r n = (if r < 2 \<or> n < r then [n] else digits r (n div r) @ [n mod r])"

declare digits.simps [simp del]

definition of_digits :: "nat \<Rightarrow> nat list \<Rightarrow> nat" where
  "of_digits r ds = foldl (\<lambda>v d. v * r + d) 0 ds"

lemma of_digits_digits: "2 \<le> r \<Longrightarrow> of_digits r (digits r n) = n"
proof (induction r n rule: digits.induct)
  case (1 r n)
  then show ?case
    by (cases "n < r") (auto simp: digits.simps [of r n] of_digits_def)
qed

lemma digits_less: "2 \<le> r \<Longrightarrow> d \<in> set (digits r n) \<Longrightarrow> d < r"
proof (induction r n rule: digits.induct)
  case (1 r n)
  then show ?case
    by (cases "n < r") (auto simp: digits.simps [of r n])
qed

lemma digits_nonempty [simp]: "digits r n \<noteq> []"
  by (simp add: digits.simps)

lemma length_digits: "n < 2 ^ k \<Longrightarrow> 0 < k \<Longrightarrow> length (digits r n) \<le> k"
proof (induction r n arbitrary: k rule: digits.induct)
  case (1 r n)
  show ?case
  proof (cases "r < 2 \<or> n < r")
    case True
    with 1 show ?thesis by (simp add: digits.simps)
  next
    case False
    then have r: "2 \<le> r" "r \<le> n" by auto
    from "1.prems" r have "1 < k" by (cases k; cases "k - 1") auto
    then obtain j where j: "k = Suc j" "0 < j" by (cases k) auto
    have "n div r \<le> n div 2" using r by (simp add: div_le_mono2)
    moreover have "n div 2 < 2 ^ j" using "1.prems"(1) j by (simp add: less_mult_imp_div_less mult.commute)
    ultimately have "n div r < 2 ^ j" by linarith
    then have "length (digits r (n div r)) \<le> j"
      using False j by (intro "1.IH") auto
    with False j show ?thesis by (simp add: digits.simps [of r n])
  qed
qed

text \<open>No leading zero.\<close>

lemma hd_digits: "2 \<le> r \<Longrightarrow> 0 < n \<Longrightarrow> hd (digits r n) \<noteq> 0"
proof (induction r n rule: digits.induct)
  case (1 r n)
  then show ?case
    by (cases "n < r") (auto simp: digits.simps [of r n] div_greater_zero_iff)
qed

text \<open>The digits as ASCII characters: 0 to 9, then A to Z. The table of \<open>itoa\<close> holds them.\<close>

definition digit_char :: "nat \<Rightarrow> u8" where
  "digit_char d = (if d < 10 then of_char CHR ''0'' + of_nat d else of_char CHR ''A'' + of_nat (d - 10))"

lemma length_itoa_lookup [simp]: "length itoa_lookup = 37"
  by (simp add: itoa_lookup_def)

lemma itoa_lookup_digits: "map digit_char [0..<36] = butlast itoa_lookup"
  by (simp add: digit_char_def itoa_lookup_def upt_conv_Cons del: upt_Suc)

lemma itoa_lookup_nth: "d < 36 \<Longrightarrow> itoa_lookup ! d = digit_char d"
proof -
  assume d: "d < 36"
  then have "itoa_lookup ! d = butlast itoa_lookup ! d" by (simp add: nth_butlast)
  with d show ?thesis by (simp add: itoa_lookup_digits [symmetric])
qed

text \<open>Reading a character back, by its ASCII code.\<close>

definition char_digit :: "u8 \<Rightarrow> nat" where
  "char_digit c =
     (if of_char CHR ''0'' \<le> c \<and> c \<le> of_char CHR ''9'' then unat c - 48
      else if of_char CHR ''A'' \<le> c \<and> c \<le> of_char CHR ''Z'' then unat c - 55 else 36)"

lemma char_digit_char [simp]: "d < 36 \<Longrightarrow> char_digit (digit_char d) = d"
proof -
  have "map char_digit (map digit_char [0..<36]) = [0..<36]"
    by (simp add: char_digit_def digit_char_def upt_conv_Cons del: upt_Suc)
  then have "map (\<lambda>d. char_digit (digit_char d)) [0..<36] = [0..<36]" by (simp add: comp_def)
  moreover assume "d < 36"
  ultimately show ?thesis by (simp add: list_eq_iff_nth_eq)
qed

lemma digit_char_nonzero: "d < 36 \<Longrightarrow> digit_char d \<noteq> 0"
proof -
  assume d: "d < 36"
  show "digit_char d \<noteq> 0"
  proof
    assume "digit_char d = 0"
    with char_digit_char [OF d] have "char_digit 0 = d" by simp
    with d show False by (simp add: char_digit_def)
  qed
qed

lemma itoa_loop_digits:
  assumes "2 \<le> unat radix" "unat radix \<le> 36"
  shows "v \<noteq> 0 \<Longrightarrow> itoa_loop m buf v radix =
     Some (store_bytes m buf (map digit_char (rev (digits (unat radix) (unat v)))),
           buf + of_nat (length (digits (unat radix) (unat v))))"
proof (induction "unat v" arbitrary: v m buf rule: less_induct)
  case less
  let ?r = "unat radix"
  let ?i = "unat (v mod radix)"
  have i: "?i = unat v mod ?r" by (simp add: unat_mod_distrib)
  have i36: "?i < 36" using assms i by (metis mod_less_divisor less_le_trans not_numeral_le_zero not_gr_zero)
  have r0: "radix \<noteq> 0" using assms by auto
  have unfold: "itoa_loop m buf v radix =
      itoa_loop (m(buf := digit_char ?i)) (buf + 1) (v div radix) radix"
    using less.prems r0 i36
    by (subst itoa_loop.simps) (simp add: itoa_lookup_nth word_gt_0)
  show ?case
  proof (cases "v div radix = 0")
    case True
    then have "unat v div ?r = 0" by (metis unat_0 unat_div_distrib)
    with assms have "unat v < ?r" by (simp add: div_eq_0_iff)
    with assms i True show ?thesis
      unfolding unfold by (subst itoa_loop.simps) (simp add: digits.simps)
  next
    case False
    have dv: "unat (v div radix) = unat v div ?r" by (simp add: unat_div_distrib)
    with False have ge: "\<not> unat v < ?r" by (metis div_less unat_eq_zero)
    have "unat (v div radix) < unat v"
      using dv assms ge by (metis Suc_1 div_less_dividend gr_zeroI less.prems not_less_eq_eq order_less_le_trans unat_eq_zero lessI)
    then show ?thesis
      using less.hyps [OF _ False, of "m(buf := digit_char ?i)" "buf + 1"] assms ge i
      unfolding unfold by (simp add: digits.simps [of ?r "unat v"] dv add.assoc)
  qed
qed

lemma store_bytes_fun_upd:
  "b \<notin> rng a (length xs) \<Longrightarrow> (store_bytes m a xs)(b := y) = store_bytes (m(b := y)) a xs"
  by (induction xs arbitrary: m a) (auto simp: rng_Suc fun_upd_twist)

lemma store_bytes_twice:
  "length ys \<le> length xs \<Longrightarrow> length xs \<le> 2 ^ 32 \<Longrightarrow>
   store_bytes (store_bytes m a xs) a ys = store_bytes m a (ys @ drop (length ys) xs)"
proof (induction ys arbitrary: m a xs)
  case (Cons y ys)
  then obtain x xs' where xs: "xs = x # xs'" by (cases xs) auto
  have "(store_bytes (m(a := x)) (a + 1) xs')(a := y) = store_bytes (m(a := y)) (a + 1) xs'"
    using Cons.prems xs by (subst store_bytes_fun_upd) (auto simp: not_in_rng_Suc)
  moreover have "store_bytes (store_bytes (m(a := y)) (a + 1) xs') (a + 1) ys
      = store_bytes (m(a := y)) (a + 1) (ys @ drop (length ys) xs')"
    using Cons.prems xs by (intro Cons.IH) auto
  ultimately show ?case using xs by simp
qed simp

text \<open>\<open>itoa\<close> writes the digits of the value and a NUL, whatever was in the buffer.\<close>

lemma itoa_digits:
  assumes "2 \<le> unat radix" "unat radix \<le> 36"
  shows "itoa m v buf radix =
    Some (store_bytes m buf (map digit_char (digits (unat radix) (unat v)) @ [0]))"
proof (cases "v = 0")
  case True
  then show ?thesis
    using assms by (simp add: itoa_def digits.simps digit_char_def itoa_lookup_def)
next
  case False
  let ?ds = "digits (unat radix) (unat v)"
  let ?L = "map digit_char (rev ?ds)"
  have len: "length ?ds \<le> 32"
    using length_digits [of "unat v" 32] u32_bound [of v] by simp
  have nz: "0 \<notin> set ?L"
    using digits_less [OF assms(1)] digit_char_nonzero assms(2) by (auto simp: set_map) (metis less_le_trans)
  have st: "(store_bytes m buf ?L)(buf + of_nat (length ?ds) := 0) = store_bytes m buf (?L @ [0])"
    using store_bytes_snoc [of m buf ?L 0] by simp
  have "cstr (store_bytes m buf (?L @ [0])) buf ?L"
    using nz len by (intro cstr_store_same) auto
  then have "strrev (store_bytes m buf (?L @ [0])) buf =
      Some (store_bytes (store_bytes m buf (?L @ [0])) buf (rev ?L))"
    using len by (intro strrev_cstr) auto
  also have "store_bytes (store_bytes m buf (?L @ [0])) buf (rev ?L)
      = store_bytes m buf (rev ?L @ [0])"
    using len by (subst store_bytes_twice) auto
  finally show ?thesis
    using False by (simp add: itoa_def itoa_loop_digits [OF assms] st rev_map)
qed

section \<open>The assembly loops and their bytewise reference\<close>

lemma unat_Suc_dec: "x \<noteq> 0 \<Longrightarrow> unat (x :: u32) = Suc (unat (x - 1))"
  by (simp add: unat_dec unat_gt_0)

definition word_bytes :: "u32 \<Rightarrow> u8 list" where
  "word_bytes v = [ucast v, ucast (drop_bit 8 v), ucast (drop_bit 16 v), ucast (drop_bit 24 v)]"

lemma length_word_bytes [simp]: "length (word_bytes v) = 4"
  by (simp add: word_bytes_def)

lemma store32_bytes: "store32 m a v = store_bytes m a (word_bytes v)"
  by (simp add: store32_def word_bytes_def)

lemma no_high8: "8 \<le> n \<Longrightarrow> \<not> bit (x :: u8) n"
  by (auto dest: bit_imp_le_length)

lemma word_bytes_load32: "word_bytes (load32 m a) = bytes_at m a 4"
proof -
  have b: "(ucast (drop_bit k (load32 m a)) :: u8) = m (a + of_nat j)"
    if "(k, j) \<in> {(0, 0), (8, 1), (16, 2), (24, 3)}" for k j
    using that by (auto intro!: bit_word_eqI simp: load32_def bit_simps no_high8)
  show ?thesis
    using b [of 0 0] b [of 8 1] b [of 16 2] b [of 24 3]
    by (simp add: word_bytes_def numeral_eq_Suc add.assoc)
qed

lemma rep_stosl_eq:
  "rep_stosl m eax edi ecx =
    (store_bytes m edi (concat (replicate (unat ecx) (word_bytes eax))), edi + 4 * ecx)"
proof (induction m eax edi ecx rule: rep_stosl.induct)
  case (1 m eax edi ecx)
  show ?case
  proof (cases "ecx = 0")
    case False
    then show ?thesis
      by (subst rep_stosl.simps, subst "1.IH")
        (auto simp: unat_Suc_dec store32_bytes store_bytes_append algebra_simps)
  qed (subst rep_stosl.simps, simp)
qed

lemma rep_stosw_eq:
  "rep_stosw m eax edi ecx =
    store_bytes m edi (concat (replicate (unat ecx) [ucast eax, ucast (drop_bit 8 eax)]))"
proof (induction m eax edi ecx rule: rep_stosw.induct)
  case (1 m eax edi ecx)
  show ?case
  proof (cases "ecx = 0")
    case False
    then show ?thesis
      by (subst rep_stosw.simps, subst "1.IH") (auto simp: unat_Suc_dec add.assoc)
  qed (subst rep_stosw.simps, simp)
qed

lemma memset_bottom_eq: "memset_bottom m al edi edx = store_bytes m edi (replicate (unat edx) al)"
proof (induction m al edi edx rule: memset_bottom.induct)
  case (1 m al edi edx)
  show ?case
  proof (cases "edx = 0")
    case False
    then show ?thesis
      by (subst memset_bottom.simps, subst "1.IH") (auto simp: unat_Suc_dec)
  qed (subst memset_bottom.simps, simp)
qed

lemma memset_top_eq:
  "memset_top m al edi ecx = (m', edi', ecx') \<Longrightarrow>
   \<exists>k. unat ecx = k + unat ecx' \<and> edi' = edi + of_nat k \<and> m' = store_bytes m edi (replicate k al)"
proof (induction m al edi ecx rule: memset_top.induct)
  case (1 m al edi ecx)
  show ?case
  proof (cases "ecx = 0 \<or> edi AND 3 = 0")
    case True
    with "1.prems" show ?thesis by (subst (asm) memset_top.simps) auto
  next
    case False
    with "1.prems" have "memset_top (m(edi := al)) al (edi + 1) (ecx - 1) = (m', edi', ecx')"
      by (subst (asm) memset_top.simps) simp
    from "1.IH" [OF False this] obtain k where
      "unat (ecx - 1) = k + unat ecx'" "edi' = edi + 1 + of_nat k"
      "m' = store_bytes (m(edi := al)) (edi + 1) (replicate k al)" by blast
    with False show ?thesis by (intro exI [of _ "Suc k"]) (simp add: unat_Suc_dec)
  qed
qed

text \<open>A count splits into whole double words and the rest.\<close>

lemma split_count: "unat (x :: u32) = 4 * unat (drop_bit 2 x) + unat (x AND 3)"
proof -
  have "unat (x AND 3) = unat x mod 4"
    using take_bit_eq_mask [of 2 "unat x"] by (simp add: unsigned_and_eq mask_eq_exp_minus_1 take_bit_eq_mod)
  moreover have "unat (drop_bit 2 x) = unat x div 4"
    by (simp add: unsigned_drop_bit_eq drop_bit_eq_div unat_div_distrib)
  ultimately show ?thesis by simp
qed

lemma concat_replicate_same: "concat (replicate n (replicate k x)) = replicate (n * k) x"
  by (induction n) (auto simp: replicate_add)

lemma word_bytes_spread:
  assumes "\<And>n. 8 \<le> n \<Longrightarrow> \<not> bit w n"
  shows "word_bytes (push_bit 24 w OR push_bit 16 w OR push_bit 8 w OR w) = replicate 4 (ucast w)"
proof -
  have "(ucast (drop_bit k (push_bit 24 w OR push_bit 16 w OR push_bit 8 w OR w)) :: u8) = ucast w"
    if "k \<in> {0, 8, 16, 24}" for k
    using that assms by (auto intro!: bit_word_eqI simp: bit_simps)
  from this [of 0] this [of 8] this [of 16] this [of 24] show ?thesis
    by (simp add: word_bytes_def numeral_eq_Suc)
qed

lemma memset_fills:
  "memset m s c n = store_bytes m s (replicate (unat n) (ucast c))"
proof -
  define eax where "eax = push_bit 24 (c AND 0xFF) OR push_bit 16 (c AND 0xFF) OR push_bit 8 (c AND 0xFF) OR (c AND 0xFF)"
  have "(0xFF :: u32) = mask 8" by (simp add: mask_eq_exp_minus_1)
  then have low: "\<not> bit (c AND 0xFF) n" if "8 \<le> n" for n
    using that by (simp only: bit_and_iff bit_mask_iff) simp
  have "(ucast (c AND 0xFF) :: u8) = ucast c"
    unfolding \<open>0xFF = mask 8\<close> by (rule bit_word_eqI) (simp add: bit_simps)
  with word_bytes_spread [OF low] have bytes: "word_bytes eax = replicate 4 (ucast c)"
    by (simp add: eax_def)
  then have al: "ucast eax = (ucast c :: u8)" by (simp add: word_bytes_def numeral_eq_Suc)
  obtain m1 edi ecx where top: "memset_top m (ucast c) s n = (m1, edi, ecx)"
    by (cases "memset_top m (ucast c) s n") auto
  then obtain k where k: "unat n = k + unat ecx" "edi = s + of_nat k"
    "m1 = store_bytes m s (replicate k (ucast c))"
    using memset_top_eq by blast
  show ?thesis
  proof (cases "ecx = 0")
    case True
    then show ?thesis using k top unfolding memset_def Let_def eax_def [symmetric] by (simp add: al)
  next
    case False
    let ?q = "unat (drop_bit 2 ecx)" and ?r = "unat (ecx AND 3)"
    have "edi + 4 * drop_bit 2 ecx = edi + of_nat (?q * 4)" by simp
    then show ?thesis
      using k top False unfolding memset_def Let_def eax_def [symmetric]
      by (simp add: al rep_stosl_eq memset_bottom_eq bytes concat_replicate_same
          split_count [of ecx] replicate_add store_bytes_append mult.commute)
  qed
qed

lemma memset_word_fills:
  "memset_word m s c n =
    store_bytes m s (concat (replicate (unat n) [ucast c, ucast (drop_bit 8 c)]))"
  by (simp add: memset_word_def rep_stosw_eq)

lemma memset_dword_fills:
  "memset_dword m s c n = store_bytes m s (concat (replicate (unat n) (word_bytes c)))"
  by (simp add: memset_dword_def rep_stosl_eq)

text \<open>The reference: one byte after the other, upwards.\<close>

fun bcopy :: "(u32 \<Rightarrow> u8) \<Rightarrow> u32 \<Rightarrow> u32 \<Rightarrow> nat \<Rightarrow> (u32 \<Rightarrow> u8)" where
  "bcopy m d s 0 = m"
| "bcopy m d s (Suc k) = bcopy (m(d := m s)) (d + 1) (s + 1) k"

lemma bcopy_add:
  "bcopy m d s (j + k) = bcopy (bcopy m d s j) (d + of_nat j) (s + of_nat j) k"
  by (induction j arbitrary: m d s) (auto simp: add.assoc)

lemma bytes_at_fun_upd: "b \<notin> rng a n \<Longrightarrow> bytes_at (m(b := x)) a n = bytes_at m a n"
  by (rule bytes_at_cong) auto

lemma bcopy_disjoint:
  "rng d k \<inter> rng s k = {} \<Longrightarrow> bcopy m d s k = store_bytes m d (bytes_at m s k)"
proof (induction k arbitrary: m d s)
  case (Suc k)
  then have "d \<notin> rng (s + 1) k" and dis: "rng (d + 1) k \<inter> rng (s + 1) k = {}"
    by (auto simp: rng_Suc)
  have "bcopy (m(d := m s)) (d + 1) (s + 1) k =
      store_bytes (m(d := m s)) (d + 1) (bytes_at (m(d := m s)) (s + 1) k)"
    by (rule Suc.IH [OF dis])
  also have "\<dots> = store_bytes m d (bytes_at m s (Suc k))"
    using \<open>d \<notin> rng (s + 1) k\<close> by (simp add: bytes_at_fun_upd)
  finally show ?case by simp
qed simp

lemma bcopy_upwards:
  "unat d \<le> unat s \<Longrightarrow> unat s + k \<le> 2 ^ 32 \<Longrightarrow>
   bcopy m d s k = store_bytes m d (bytes_at m s k)"
proof (induction k arbitrary: m d s)
  case (Suc k)
  show ?case
  proof (cases "k = 0")
    case False
    have s1: "unat (s + 1) = unat s + 1"
      by (rule unat_add1) (use Suc.prems False in linarith)
    have d1: "unat (d + 1) = unat d + 1"
      by (rule unat_add1) (use Suc.prems False in linarith)
    have "rng d 1 \<inter> rng (s + 1) k = {}"
      by (rule rng_disjointI(1)) (use Suc.prems in \<open>simp_all add: s1\<close>)
    then have "d \<notin> rng (s + 1) k" by simp
    moreover have "bcopy (m(d := m s)) (d + 1) (s + 1) k =
        store_bytes (m(d := m s)) (d + 1) (bytes_at (m(d := m s)) (s + 1) k)"
      by (rule Suc.IH) (use Suc.prems in \<open>simp_all add: s1 d1\<close>)
    ultimately show ?thesis by (simp add: bytes_at_fun_upd)
  qed simp
qed simp

lemma copy_up_bcopy: "copy_up m d s n = bcopy m d s (unat n)"
proof (induction m d s n rule: copy_up.induct)
  case (1 m d s n)
  show ?case
  proof (cases "n = 0")
    case False
    then show ?thesis by (subst copy_up.simps, subst "1.IH") (auto simp: unat_Suc_dec)
  qed (subst copy_up.simps, simp)
qed

lemma memcpy_top_bcopy:
  "memcpy_top m d s n = (m', d', s', n') \<Longrightarrow>
   \<exists>k. unat n = k + unat n' \<and> d' = d + of_nat k \<and> s' = s + of_nat k \<and> m' = bcopy m d s k"
proof (induction m d s n rule: memcpy_top.induct)
  case (1 m d s n)
  show ?case
  proof (cases "n = 0 \<or> d AND 3 = 0")
    case True
    with "1.prems" show ?thesis by (subst (asm) memcpy_top.simps) auto
  next
    case False
    with "1.prems" have "memcpy_top (m(d := m s)) (d + 1) (s + 1) (n - 1) = (m', d', s', n')"
      by (subst (asm) memcpy_top.simps) simp
    from "1.IH" [OF False this] obtain k where
      "unat (n - 1) = k + unat n'" "d' = d + 1 + of_nat k" "s' = s + 1 + of_nat k"
      "m' = bcopy (m(d := m s)) (d + 1) (s + 1) k" by blast
    with False show ?thesis by (intro exI [of _ "Suc k"]) (simp add: unat_Suc_dec)
  qed
qed

lemma movsl_bcopy:
  "rng d 4 \<inter> rng s 4 = {} \<Longrightarrow> store32 m d (load32 m s) = bcopy m d s 4"
  by (simp add: store32_bytes word_bytes_load32 bcopy_disjoint)

lemma rep_movsl_bcopy:
  "rng d (4 * unat n) \<inter> rng s (4 * unat n) = {} \<Longrightarrow>
   rep_movsl m d s n = (bcopy m d s (4 * unat n), d + 4 * n, s + 4 * n)"
proof (induction m d s n rule: rep_movsl.induct)
  case (1 m d s n)
  show ?case
  proof (cases "n = 0")
    case False
    have len: "4 * unat n = 4 + 4 * unat (n - 1)" using False by (simp add: unat_Suc_dec)
    have sub: "rng a 4 \<subseteq> rng a (4 * unat n)" "rng (a + 4) (4 * unat (n - 1)) \<subseteq> rng a (4 * unat n)" for a
      using rng_mono [of 4 "4 * unat n" a] rng_shift [of 4 "4 * unat (n - 1)" "4 * unat n" a]
      by (simp_all add: len)
    have d4: "rng d 4 \<inter> rng s 4 = {}"
      and dr: "rng (d + 4) (4 * unat (n - 1)) \<inter> rng (s + 4) (4 * unat (n - 1)) = {}"
      using "1.prems" sub(1) [of d] sub(1) [of s] sub(2) [of d] sub(2) [of s] by blast+
    have "rep_movsl m d s n = rep_movsl (bcopy m d s 4) (d + 4) (s + 4) (n - 1)"
      using False by (subst rep_movsl.simps) (simp add: movsl_bcopy [OF d4])
    also have "\<dots> = (bcopy (bcopy m d s 4) (d + 4) (s + 4) (4 * unat (n - 1)),
        d + 4 + 4 * (n - 1), s + 4 + 4 * (n - 1))"
      using "1.IH" [OF False dr] by (simp add: movsl_bcopy [OF d4])
    finally show ?thesis
      using bcopy_add [of m d s 4 "4 * unat (n - 1)"] by (simp add: algebra_simps flip: len)
  qed (subst rep_movsl.simps, simp)
qed

lemma memcpy_copies:
  assumes dis: "rng dest (unat n) \<inter> rng src (unat n) = {}"
  shows "memcpy m dest src n = store_bytes m dest (bytes_at m src (unat n))"
proof -
  obtain m1 d s c where top: "memcpy_top m dest src n = (m1, d, s, c)"
    by (cases "memcpy_top m dest src n") auto
  then obtain k where k: "unat n = k + unat c" "d = dest + of_nat k" "s = src + of_nat k"
    "m1 = bcopy m dest src k"
    using memcpy_top_bcopy by blast
  let ?q = "unat (drop_bit 2 c)" and ?r = "unat (c AND 3)"
  have c: "unat c = 4 * ?q + ?r" by (rule split_count)
  have "rng d (4 * ?q) \<inter> rng s (4 * ?q) = {}"
    using dis rng_shift [of k "4 * ?q" "unat n" dest] rng_shift [of k "4 * ?q" "unat n" src] k c
    by auto
  then have mv: "rep_movsl m1 d s (drop_bit 2 c) =
      (bcopy m1 d s (4 * ?q), d + 4 * drop_bit 2 c, s + 4 * drop_bit 2 c)"
    by (rule rep_movsl_bcopy)
  have w: "a + 4 * drop_bit 2 c = a + of_nat (4 * ?q)" for a by simp
  have "memcpy m dest src n = bcopy m dest src (unat n)"
  proof (cases "c = 0")
    case True
    with top k show ?thesis by (simp add: memcpy_def)
  next
    case False
    then have "memcpy m dest src n =
        bcopy (bcopy m1 d s (4 * ?q)) (d + of_nat (4 * ?q)) (s + of_nat (4 * ?q)) ?r"
      unfolding memcpy_def top Let_def using False by (simp only: prod.case if_False mv w copy_up_bcopy)
    also have "\<dots> = bcopy m1 d s (unat c)"
      by (simp only: c bcopy_add)
    also have "\<dots> = bcopy m dest src (unat n)"
      by (simp only: k bcopy_add)
    finally show ?thesis .
  qed
  with dis show ?thesis by (simp add: bcopy_disjoint)
qed

lemma copy_down_eq:
  "unat src < unat dest \<Longrightarrow> unat dest + n \<le> 2 ^ 32 \<Longrightarrow>
   copy_down m (dest + of_nat n - 1) (src + of_nat n - 1) (of_nat n) =
   store_bytes m dest (bytes_at m src n)"
proof (induction n arbitrary: m)
  case 0
  then show ?case by (subst copy_down.simps) simp
next
  case (Suc n)
  let ?m = "m(dest + of_nat n := m (src + of_nat n))"
  have n32: "Suc n < 2 ^ 32" using Suc.prems by simp
  have nz: "(of_nat (Suc n) :: u32) \<noteq> 0"
    using n32 by (simp add: word_of_nat_eq_0_iff nat_dvd_not_less del: of_nat_Suc)
  have un: "unat (dest + of_nat n) = unat dest + n"
    by (rule unat_add_nat) (use Suc.prems in linarith)
  have "rng src n \<inter> rng (dest + of_nat n) 1 = {}"
    by (rule rng_disjointI(1)) (use Suc.prems in \<open>simp_all add: un\<close>)
  then have o1: "dest + of_nat n \<notin> rng src n" by simp
  have "rng dest n \<inter> rng (dest + of_nat n) 1 = {}"
    by (rule rng_disjointI(1)) (use Suc.prems in \<open>simp_all add: un\<close>)
  then have o2: "dest + of_nat n \<notin> rng dest n" by simp
  have "copy_down m (dest + of_nat (Suc n) - 1) (src + of_nat (Suc n) - 1) (of_nat (Suc n)) =
      copy_down ?m (dest + of_nat n - 1) (src + of_nat n - 1) (of_nat n)"
    using nz by (subst copy_down.simps) simp
  also have "\<dots> = store_bytes ?m dest (bytes_at ?m src n)"
    by (rule Suc.IH) (use Suc.prems in linarith)+
  also have "\<dots> = store_bytes ?m dest (bytes_at m src n)"
    using o1 by (simp add: bytes_at_fun_upd)
  also have "\<dots> = (store_bytes m dest (bytes_at m src n))(dest + of_nat n := m (src + of_nat n))"
    using o2 by (subst store_bytes_fun_upd) auto
  also have "\<dots> = store_bytes m dest (bytes_at m src (Suc n))"
    using store_bytes_snoc [of m dest "bytes_at m src n"] bytes_at_add [of m src n 1] by simp
  finally show ?case .
qed

text \<open>\<open>memmove\<close> moves the source as it was, whichever way the two blocks overlap.\<close>

lemma memmove_moves:
  assumes "unat dest + unat n \<le> 2 ^ 32" "unat src + unat n \<le> 2 ^ 32"
  shows "memmove m dest src n = store_bytes m dest (bytes_at m src (unat n))"
proof (cases "dest \<le> src")
  case True
  with assms show ?thesis
    by (simp add: memmove_def copy_up_bcopy bcopy_upwards word_le_nat_alt)
next
  case False
  with assms copy_down_eq [of src dest "unat n" m] show ?thesis
    by (simp add: memmove_def word_le_nat_alt)
qed

section \<open>strncpy and strtok\<close>

lemma strncpy_pad_eq:
  "i \<le> n \<Longrightarrow> strncpy_pad m dest n i = store_bytes m (dest + i) (replicate (unat n - unat i) 0)"
proof (induction m dest n i rule: strncpy_pad.induct)
  case (1 m dest n i)
  show ?case
  proof (cases "i < n")
    case True
    then have "i + 1 \<le> n" "unat n - unat i = Suc (unat n - unat (i + 1))"
      by (auto simp: unat_inc word_le_nat_alt word_less_nat_alt)
    with True show ?thesis
      by (subst strncpy_pad.simps, subst "1.IH") (simp_all add: add.assoc)
  next
    case False
    with "1.prems" show ?thesis by (subst strncpy_pad.simps) simp
  qed
qed

lemma strncpy_copy_eq:
  assumes "i \<le> n" "cstr m (src + i) xs" "rng (dest + i) (unat n - unat i) \<inter> rng (src + i) (Suc (length xs)) = {}"
  shows "strncpy_copy m dest src n i =
    (store_bytes m (dest + i) (take (unat n - unat i) xs), i + of_nat (min (length xs) (unat n - unat i)))"
  using assms
proof (induction xs arbitrary: m i)
  case Nil
  then show ?case by (subst strncpy_copy.simps) simp
next
  case (Cons x xs)
  show ?case
  proof (cases "i < n")
    case True
    let ?k = "unat n - unat (i + 1)"
    have k: "unat n - unat i = Suc ?k" and le: "i + 1 \<le> n"
      using True by (auto simp: unat_inc word_le_nat_alt word_less_nat_alt)
    have d: "dest + i \<notin> rng (src + i + 1) (Suc (length xs))"
      and dis: "rng (dest + (i + 1)) ?k \<inter> rng (src + (i + 1)) (Suc (length xs)) = {}"
      using Cons.prems(3) unfolding k by (auto simp: rng_Suc add.assoc)
    have "cstr (m(dest + i := x)) (src + (i + 1)) xs"
      using Cons.prems(2) d by (subst cstr_cong [of _ _ _ m]) (auto simp: add.assoc)
    from Cons.IH [OF le this dis] have "strncpy_copy m dest src n i =
        (store_bytes (m(dest + i := x)) (dest + (i + 1)) (take ?k xs),
         i + 1 + of_nat (min (length xs) ?k))"
      using True Cons.prems(2) by (subst strncpy_copy.simps) (simp only: cstr.simps if_True simp_thms not_False_eq_True)
    then show ?thesis by (simp add: k add.assoc)
  next
    case False
    with Cons.prems have "i = n" by simp
    then show ?thesis by (subst strncpy_copy.simps) simp
  qed
qed

text \<open>\<open>strncpy\<close> writes exactly \<open>n\<close> bytes: the string cut at \<open>n\<close>, padded with NULs.\<close>

lemma strncpy_cstr:
  assumes "cstr m src xs" "rng dest (unat n) \<inter> rng src (Suc (length xs)) = {}"
  shows "strncpy m dest src n =
    store_bytes m dest (take (unat n) xs @ replicate (unat n - length xs) 0)"
proof -
  let ?k = "min (length xs) (unat n)"
  have "unat (of_nat ?k :: u32) = ?k" using u32_bound [of n] by (simp add: unat_of_nat)
  then have "(of_nat ?k :: u32) \<le> n" "unat n - unat (of_nat ?k :: u32) = unat n - length xs"
    by (auto simp: word_le_nat_alt)
  with assms strncpy_copy_eq [of 0 n m src xs dest] show ?thesis
    by (simp add: strncpy_def strncpy_pad_eq store_bytes_append)
qed

text \<open>The delimiters in front are skipped; the scan stops at the first delimiter, which it
  overwrites, or at the end of the string.\<close>

lemma strtok_skip_cstr:
  assumes "0 \<notin> set delim"
  shows "cstr m s xs \<Longrightarrow> strtok_skip m delim s = Some
    (case dropWhile (\<lambda>c. c \<in> set delim) xs of [] \<Rightarrow> 0 | c # _ \<Rightarrow> c,
     s + of_nat (length (takeWhile (\<lambda>c. c \<in> set delim) xs)) + 1)"
proof (induction xs arbitrary: s)
  case Nil
  with assms show ?case by (subst strtok_skip.simps) simp
next
  case (Cons x xs)
  then show ?case by (subst strtok_skip.simps) (auto simp: Let_def algebra_simps)
qed

lemma strtok_scan_cstr:
  "cstr m s xs \<Longrightarrow> strtok_scan m delim s = Some
    (let w = takeWhile (\<lambda>c. c \<notin> set delim) xs; e = s + of_nat (length w)
     in if length w = length xs then (m, 0) else (m(e := 0), e + 1))"
proof (induction xs arbitrary: s)
  case Nil
  then show ?case by (subst strtok_scan.simps) (simp add: Let_def)
next
  case (Cons x xs)
  then show ?case by (subst strtok_scan.simps) (auto simp: Let_def algebra_simps)
qed

definition strtok_word :: "u8 list \<Rightarrow> u8 list \<Rightarrow> u8 list" where
  "strtok_word delim xs = takeWhile (\<lambda>c. c \<notin> set delim) (dropWhile (\<lambda>c. c \<in> set delim) xs)"

definition strtok_rest :: "u8 list \<Rightarrow> u8 list \<Rightarrow> u8 list" where
  "strtok_rest delim xs = dropWhile (\<lambda>c. c \<notin> set delim) (dropWhile (\<lambda>c. c \<in> set delim) xs)"

text \<open>One call on a string: the first word becomes a string of its own where it stands, and
  the static pointer moves behind it, or becomes NULL when the word was the last.\<close>

lemma strtok_first_word:
  assumes "0 \<notin> set delim" "cstr m s xs" "s \<noteq> 0" "strtok_word delim xs \<noteq> []" "length xs < 2 ^ 31"
  shows "\<exists>m' l. strtok m last_ptr s delim =
      Some (m', l, s + of_nat (length (takeWhile (\<lambda>c. c \<in> set delim) xs)))
    \<and> cstr m' (s + of_nat (length (takeWhile (\<lambda>c. c \<in> set delim) xs))) (strtok_word delim xs)
    \<and> (case strtok_rest delim xs of [] \<Rightarrow> l = 0 \<and> m' = m | c # r \<Rightarrow> cstr m' l r)"
proof -
  define pre where "pre = takeWhile (\<lambda>c. c \<in> set delim) xs"
  define tl1 where "tl1 = dropWhile (\<lambda>c. c \<in> set delim) xs"
  define t where "t = s + of_nat (length pre)"
  let ?w = "strtok_word delim xs"
  have xs: "xs = pre @ tl1" by (simp add: pre_def tl1_def)
  have w: "?w = takeWhile (\<lambda>c. c \<notin> set delim) tl1" by (simp add: strtok_word_def tl1_def)
  have rest: "strtok_rest delim xs = dropWhile (\<lambda>c. c \<notin> set delim) tl1"
    by (simp add: strtok_rest_def tl1_def)
  have ct: "cstr m t tl1" using assms(2) unfolding xs t_def by (rule cstr_suffix)
  obtain c r where tl1: "tl1 = c # r" using assms(4) w by (cases tl1) auto
  have cn: "c \<noteq> 0" "c \<notin> set delim" using ct tl1 assms(4) w by (auto split: if_splits)
  let ?v = "takeWhile (\<lambda>c. c \<notin> set delim) r"
  have wc: "?w = c # ?v" using w tl1 cn by simp
  have cr: "cstr m (t + 1) r" using ct tl1 by simp
  have skip: "strtok_skip m delim s = Some (c, t + 1)"
    using strtok_skip_cstr [OF assms(1,2)] tl1 unfolding t_def pre_def tl1_def by simp
  let ?e = "t + 1 + of_nat (length ?v)"
  have scan: "strtok_scan m delim (t + 1) =
      Some (if length ?v = length r then (m, 0) else (m(?e := 0), ?e + 1))"
    using strtok_scan_cstr [OF cr] by (simp add: Let_def)
  show ?thesis
  proof (cases "length ?v = length r")
    case True
    then have "?v = r" using takeWhile_eq_take [of "\<lambda>c. c \<notin> set delim" r] by simp
    then have "dropWhile (\<lambda>c. c \<notin> set delim) r = []"
      by (metis append_self_conv takeWhile_dropWhile_id)
    then have "strtok_rest delim xs = []" using rest tl1 cn by simp
    moreover from \<open>?v = r\<close> have "?w = tl1" using wc tl1 by simp
    ultimately show ?thesis
      using ct tl1 skip scan True assms(3) cn
      by (simp add: strtok_def pre_def [symmetric] t_def [symmetric])
  next
    case False
    then obtain y ys where ys: "dropWhile (\<lambda>c. c \<notin> set delim) r = y # ys"
      by (metis append_Nil2 neq_Nil_conv takeWhile_dropWhile_id)
    have r: "r = ?v @ y # ys" using takeWhile_dropWhile_id [of "\<lambda>c. c \<notin> set delim" r] ys by simp
    have lens: "length ?w + Suc (length ys) < 2 ^ 31"
      using assms(5) xs tl1 wc r by (metis (no_types, lifting) add_Suc_right add_Suc length_Cons length_append le_add2 order_le_less_trans)
    have cw: "cstr m t (?w @ y # ys)" using ct tl1 wc r by simp
    let ?m = "m(?e := 0)"
    have e: "?e = t + of_nat (length ?w)" using wc by simp
    have "cstr ?m t ?w"
      unfolding cstr_iff
    proof (intro conjI)
      have "?e \<notin> rng t (length ?w)" unfolding e using lens by (simp add: mem_rng_iff unat_of_nat)
      then show "bytes_at ?m t (length ?w) = ?w"
        using cstr_bytes [OF cw] bytes_at_add [of m t "length ?w" "Suc (length ys)"]
        by (simp add: bytes_at_fun_upd)
      show "0 \<notin> set ?w" using cstr_nonzero [OF cw] by auto
      show "?m (t + of_nat (length ?w)) = 0" using e by simp
    qed
    moreover have "cstr ?m (?e + 1) ys"
    proof -
      have "cstr m (?e + 1) ys" unfolding e using cstr_suffix [OF cw] by simp
      moreover have "?e \<notin> rng (?e + 1) (Suc (length ys))" using lens by (intro not_in_rng_Suc) simp
      ultimately show ?thesis by (subst cstr_cong [of _ _ _ m]) auto
    qed
    moreover have "strtok_rest delim xs = y # ys" using rest tl1 cn ys by simp
    ultimately show ?thesis
      using skip scan False assms(3) cn
      by (simp add: strtok_def pre_def [symmetric] t_def [symmetric])
  qed
qed

text \<open>No word left: NULL, and the pointer is reset.\<close>

lemma strtok_no_word:
  assumes "0 \<notin> set delim" "cstr m s xs" "s \<noteq> 0" "strtok_word delim xs = []"
  shows "strtok m last_ptr s delim = Some (m, 0, 0)"
proof -
  have "dropWhile (\<lambda>c. c \<in> set delim) xs = []"
    using assms(4) hd_dropWhile [of "\<lambda>c. c \<in> set delim" xs]
    by (cases "dropWhile (\<lambda>c. c \<in> set delim) xs") (auto simp: strtok_word_def split: if_splits)
  with strtok_skip_cstr [OF assms(1,2)] assms(3) show ?thesis by (simp add: strtok_def)
qed

section \<open>The routines of the library\<close>

text \<open>\<open>memcpy\<close> copies \<open>n\<close> bytes between ranges that do not overlap, for every alignment of
  the destination and every length: the three loops (to a word boundary, by words, the rest)
  leave no byte out.\<close>

theorem memcpy_correct:
  assumes "rng dest (unat n) \<inter> rng src (unat n) = {}"
  shows "memcpy m dest src n = store_bytes m dest (bytes_at m src (unat n))"
  using assms by (rule memcpy_copies)

theorem memcpy_correct_witness:
  "memcpy (\<lambda>a. ucast a) 0x1001 0x2003 9 =
    store_bytes (\<lambda>a. ucast a) 0x1001 (bytes_at (\<lambda>a. ucast a) 0x2003 (unat (9 :: u32)))"
  by (rule memcpy_correct, rule rng_disjointI) simp_all

text \<open>C32. \<open>memmove\<close> moves \<open>n\<close> bytes as if through a copy, also when the ranges overlap, either
  way round.\<close>

theorem memmove_correct:
  assumes "unat dest + unat n \<le> 2 ^ 32" "unat src + unat n \<le> 2 ^ 32"
  shows "memmove m dest src n = store_bytes m dest (bytes_at m src (unat n))"
  using assms by (rule memmove_moves)

theorem memmove_correct_witness:
  "memmove (\<lambda>a. ucast a) 0xB8000 0xB80A0 3840 =
    store_bytes (\<lambda>a. ucast a) 0xB8000 (bytes_at (\<lambda>a. ucast a) 0xB80A0 (unat (3840 :: u32)))"
  by (rule memmove_correct) simp_all

text \<open>C33. \<open>itoa\<close> and positional notation are inverse: in every radix from 2 to 36 it writes a string of
  at most 32 characters and a NUL; each character is an ASCII digit or capital letter below the radix, read
  back by their codes they give the value, and there is no leading zero.\<close>

theorem itoa_round_trip:
  assumes "2 \<le> unat radix" "unat radix \<le> 36"
  shows "\<exists>cs. itoa m v buf radix = Some (store_bytes m buf (cs @ [0])) \<and>
    of_digits (unat radix) (map char_digit cs) = unat v \<and> (\<forall>c \<in> set cs. char_digit c < unat radix) \<and>
    (v \<noteq> 0 \<longrightarrow> hd cs \<noteq> of_char CHR ''0'') \<and> length cs \<le> 32"
proof -
  let ?ds = "digits (unat radix) (unat v)"
  have less: "\<forall>d \<in> set ?ds. d < unat radix" using digits_less [OF assms(1)] by blast
  then have back_and_forth: "map char_digit (map digit_char ?ds) = ?ds"
    using assms(2) by (auto intro!: map_idI simp: order_less_le_trans)
  have "hd (map digit_char ?ds) \<noteq> of_char CHR ''0''" if "v \<noteq> 0"
  proof -
    have "hd ?ds < 36" using less assms(2) hd_in_set [of ?ds] by (meson digits_nonempty order_less_le_trans)
    then have "char_digit (hd (map digit_char ?ds)) = hd ?ds" by (simp add: hd_map)
    moreover have "char_digit (of_char CHR ''0'') = 0" by (simp add: char_digit_def)
    ultimately show ?thesis using hd_digits [OF assms(1)] that by (metis unat_gt_0)
  qed
  moreover have "\<forall>c \<in> set (map digit_char ?ds). char_digit c < unat radix" using less assms(2) by auto
  moreover have "length ?ds \<le> 32" using u32_bound by (intro length_digits) auto
  ultimately show ?thesis
    using itoa_digits [OF assms] of_digits_digits [OF assms(1)] back_and_forth
    by (intro exI [of _ "map digit_char ?ds"]) simp
qed

theorem itoa_round_trip_witness:
  "\<exists>cs. itoa (\<lambda>_. 0) 0xBEEF 0x7000 16 = Some (store_bytes (\<lambda>_. 0) 0x7000 (cs @ [0])) \<and>
    of_digits 16 (map char_digit cs) = 0xBEEF"
  using itoa_round_trip [of 16 "\<lambda>_. 0" "0xBEEF" "0x7000"] by auto

text \<open>\<open>strncmp\<close> returns 0 exactly for strings that agree up to their NUL or to \<open>n\<close> bytes.\<close>

theorem strncmp_zero_iff:
  "strncmp m s1 s2 n = 0 \<longleftrightarrow> upto_nul (bytes_at m s1 (unat n)) = upto_nul (bytes_at m s2 (unat n))"
  by (rule strncmp_eq_0)

text \<open>\<open>strlen\<close> comes to an end exactly when there is a NUL anywhere to stop at, and then
  returns the length of the string.\<close>

theorem strlen_terminates_iff:
  "(strlen m s \<noteq> None \<longleftrightarrow> (\<exists>a. m a = 0)) \<and> (\<forall>xs. cstr m s xs \<longrightarrow> strlen m s = Some (of_nat (length xs)))"
  using strlen_returns_iff strlen_cstr by blast

end
