(* ===== verification/Console.thy ===== *)
theory Console
  imports Clib "HOL-Library.Signed_Division"
begin

text \<open>
  The text console of \<^verbatim>\<open>student-distrib/lib.c\<close>: the 80 x 25 text screen in video memory
  at \<^verbatim>\<open>0xB8000\<close>, the write position \<open>screen_x\<close>, \<open>screen_y\<close>, the hardware cursor, and
  the output functions \<open>putc\<close>, \<open>puts\<close>, \<open>printf\<close>, \<open>clear\<close> and \<open>blue_screen\<close>. They are
  proved to implement an abstract terminal (\<open>tty\<close>): a list of cells and a position.
\<close>

section \<open>State and operations\<close>

text \<open>
  \<open>strtok_last\<close> is the static \<^verbatim>\<open>last\<close> of \<open>strtok\<close>. \<open>conv_buf_at\<close> is the address the
  compiler gives to the local \<open>conv_buf\<close> of \<open>printf\<close>. The coordinates are \<^verbatim>\<open>int\<close>s that
  stay between -1 and 80 (\<open>con_ok\<close> below), so no operation on them overflows.
\<close>

record console = machine +
  screen_x :: int
  screen_y :: int
  strtok_last :: u32
  conv_buf_at :: u32

definition VIDEO :: u32 where "VIDEO = 0xB8000"
definition NUM_COLS :: int where "NUM_COLS = 80"
definition NUM_ROWS :: int where "NUM_ROWS = 25"
definition ATTRIB :: u8 where "ATTRIB = 0x7"
definition BLUE_SCREEN_BACKGROUND_ATTRIB :: u8 where "BLUE_SCREEN_BACKGROUND_ATTRIB = 0x11"
definition VGA_PORT :: u16 where "VGA_PORT = 0x3D4"

abbreviation SPACE :: u8 where "SPACE \<equiv> 0x20"

definition set_cursor :: "u16 \<Rightarrow> u16 \<Rightarrow> 'a machine_scheme \<Rightarrow> 'a machine_scheme" where
  "set_cursor x y s =
     (let position = y * word_of_int NUM_COLS + x in
      outb (ucast ((drop_bit 8 position) AND 0xFF)) (VGA_PORT + 1)
       (outb 0x0E VGA_PORT
         (outb (ucast (position AND 0xFF)) (VGA_PORT + 1)
           (outb 0x0F VGA_PORT s))))"

definition clear :: "'a console_scheme \<Rightarrow> 'a console_scheme" where
  "clear s =
     (let s = s\<lparr>mem := memset_word (mem s) VIDEO (push_bit 8 (ucast ATTRIB) OR ucast SPACE)
                        (word_of_int (NUM_ROWS * NUM_COLS))\<rparr>;
          s = s\<lparr>screen_x := 0, screen_y := 0\<rparr>
      in set_cursor (word_of_int (screen_x s)) (word_of_int (screen_y s)) s)"

definition blue_screen :: "'a console_scheme \<Rightarrow> 'a console_scheme" where
  "blue_screen s =
     (let s = s\<lparr>mem := memset_word (mem s) VIDEO
                        (push_bit 8 (ucast BLUE_SCREEN_BACKGROUND_ATTRIB) OR ucast SPACE)
                        (word_of_int (NUM_ROWS * NUM_COLS))\<rparr>;
          s = s\<lparr>screen_x := 0, screen_y := 0\<rparr>
      in set_cursor (word_of_int (screen_x s)) (word_of_int (screen_y s)) s)"

text \<open>The address of the cell at the write position, and the two bytes stored there.\<close>

definition cell_addr :: "int \<Rightarrow> int \<Rightarrow> u32" where
  "cell_addr x y = VIDEO + word_of_int ((NUM_COLS * y + x) * 2)"

definition put_cell :: "u8 \<Rightarrow> 'a console_scheme \<Rightarrow> 'a console_scheme" where
  "put_cell c s =
     (let a = cell_addr (screen_x s) (screen_y s) in
      s\<lparr>mem := (mem s)(a := c, a + 1 := ATTRIB)\<rparr>)"

definition scroll :: "'a console_scheme \<Rightarrow> 'a console_scheme" where
  "scroll s =
     (if screen_y s \<ge> NUM_ROWS then
        let m1 = memmove (mem s) VIDEO (VIDEO + word_of_int (NUM_COLS * 2))
                   (word_of_int ((NUM_ROWS - 1) * NUM_COLS * 2));
            m2 = memset_word m1 (VIDEO + word_of_int ((NUM_ROWS - 1) * NUM_COLS * 2))
                   (push_bit 8 (ucast ATTRIB) OR ucast SPACE) (word_of_int NUM_COLS)
        in s\<lparr>mem := m2, screen_y := NUM_ROWS - 1\<rparr>
      else s)"

text \<open>\<^verbatim>\<open>%\<close> of C truncates towards zero: \<open>smod\<close>.\<close>

definition putc :: "u8 \<Rightarrow> 'a console_scheme \<Rightarrow> 'a console_scheme" where
  "putc c s =
     (if c = of_char CHR 0x0A \<or> c = of_char CHR 0x0D then
        let s = scroll (s\<lparr>screen_y := screen_y s + 1, screen_x := 0\<rparr>)
        in set_cursor (word_of_int (screen_x s)) (word_of_int (screen_y s)) s
      else if c = of_char CHR 0x08 then
        if screen_y s = 0 \<and> screen_x s = 0 then s
        else
          let s = s\<lparr>screen_x := screen_x s - 1\<rparr>;
              s = (if screen_x s < 0
                   then s\<lparr>screen_x := NUM_COLS - 1,
                          screen_y := (if screen_y s \<noteq> 0 then screen_y s - 1 else 0)\<rparr>
                   else s);
              s = scroll (put_cell SPACE s)
          in set_cursor (word_of_int (screen_x s)) (word_of_int (screen_y s)) s
      else
        let s = put_cell c s;
            s = s\<lparr>screen_x := screen_x s + 1\<rparr>;
            s = s\<lparr>screen_y := (if screen_x s \<ge> NUM_COLS then screen_y s + 1 else screen_y s)\<rparr>;
            s = scroll (s\<lparr>screen_x := screen_x s smod NUM_COLS\<rparr>)
        in set_cursor (word_of_int (screen_x s)) (word_of_int (screen_y s)) s)"

text \<open>\<open>puts\<close> reads the string as it prints it: \<^const>\<open>None\<close> if it never meets a NUL.\<close>

partial_function (option) puts_loop ::
  "u32 \<Rightarrow> u32 \<Rightarrow> 'a console_scheme \<Rightarrow> (u32 \<times> 'a console_scheme) option" where
  "puts_loop p index s =
     (if mem s (p + index) \<noteq> 0
      then puts_loop p (index + 1) (putc (mem s (p + index)) s)
      else Some (index, s))"

definition puts :: "u32 \<Rightarrow> 'a console_scheme \<Rightarrow> (u32 \<times> 'a console_scheme) option" where
  "puts p s = puts_loop p 0 s"

section \<open>printf\<close>

text \<open>
  The format is the literal without its NUL, \<open>args\<close> the words on the stack above it.
  \<^const>\<open>None\<close> stands for reading past the arguments or past the end of the format (a
  format that ends in \<^verbatim>\<open>%\<close>), and for a string without an end.
\<close>

definition itoa_con :: "u32 \<Rightarrow> u32 \<Rightarrow> u32 \<Rightarrow> 'a console_scheme \<Rightarrow> 'a console_scheme option" where
  "itoa_con val buf radix s = do { m \<leftarrow> itoa (mem s) val buf radix; Some (s\<lparr>mem := m\<rparr>) }"

function fill_zeros :: "(u32 \<Rightarrow> u8) \<Rightarrow> u32 \<Rightarrow> u32 \<Rightarrow> (u32 \<Rightarrow> u8)" where
  "fill_zeros m conv_buf i =
     (if i <s 8 then fill_zeros (m(conv_buf + i := of_char CHR ''0'')) conv_buf (i + 1) else m)"
  by pat_completeness auto
termination
  by (relation "measure (\<lambda>(m, b, i). nat (8 - sint i))") (auto simp: word_sless_alt sint_inc)

declare fill_zeros.simps [simp del]

definition printf_x :: "bool \<Rightarrow> u32 \<Rightarrow> 'a console_scheme \<Rightarrow> 'a console_scheme option" where
  "printf_x alternate a s =
     (let conv_buf = conv_buf_at s in
      if \<not> alternate then do {
        s \<leftarrow> itoa_con a conv_buf 16 s;
        (_, s) \<leftarrow> puts conv_buf s;
        Some s }
      else do {
        s \<leftarrow> itoa_con a (conv_buf + 8) 16 s;
        starting_index \<leftarrow> strlen (mem s) (conv_buf + 8);
        let s = s\<lparr>mem := fill_zeros (mem s) conv_buf starting_index\<rparr>;
        (_, s) \<leftarrow> puts (conv_buf + starting_index) s;
        Some s })"

definition printf_u :: "u32 \<Rightarrow> 'a console_scheme \<Rightarrow> 'a console_scheme option" where
  "printf_u a s = do {
     s \<leftarrow> itoa_con a (conv_buf_at s) 10 s;
     (_, s) \<leftarrow> puts (conv_buf_at s) s;
     Some s }"

definition printf_d :: "u32 \<Rightarrow> 'a console_scheme \<Rightarrow> 'a console_scheme option" where
  "printf_d a s =
     (let conv_buf = conv_buf_at s in do {
      s \<leftarrow> (if a <s 0
            then itoa_con (- a) (conv_buf + 1) 10 (s\<lparr>mem := (mem s)(conv_buf := of_char CHR ''-'')\<rparr>)
            else itoa_con a conv_buf 10 s);
      (_, s) \<leftarrow> puts conv_buf s;
      Some s })"

text \<open>\<open>printf_conv\<close> is the inner switch, on the specifier \<open>c\<close>.\<close>

definition printf_conv ::
  "bool \<Rightarrow> u8 \<Rightarrow> u32 list \<Rightarrow> 'a console_scheme \<Rightarrow> (u32 list \<times> 'a console_scheme) option" where
  "printf_conv alternate c args s =
     (if c = of_char CHR ''%'' then Some (args, putc (of_char CHR ''%'') s)
      else if c \<in> of_char ` {CHR ''x'', CHR ''u'', CHR ''d'', CHR ''c'', CHR ''s''} then
        (case args of
           [] \<Rightarrow> None
         | a # args' \<Rightarrow> do {
             s \<leftarrow> (if c = of_char CHR ''x'' then printf_x alternate a s
                   else if c = of_char CHR ''u'' then printf_u a s
                   else if c = of_char CHR ''d'' then printf_d a s
                   else if c = of_char CHR ''c'' then Some (putc (ucast a) s)
                   else do { (_, s) \<leftarrow> puts a s; Some s });
             Some (args', s) })
      else Some (args, s))"

text \<open>The loop over the format; \<open>spec\<close> is the variable \<open>alternate\<close> while a specifier is
  being read (after the percent sign), \<^const>\<open>None\<close> outside of one.\<close>

fun printf_loop ::
  "bool option \<Rightarrow> u8 list \<Rightarrow> u32 list \<Rightarrow> 'a console_scheme \<Rightarrow> 'a console_scheme option" where
  "printf_loop None [] args s = Some s"
| "printf_loop (Some _) [] args s = None"
| "printf_loop None (c # fmt) args s =
     (if c = of_char CHR ''%'' then printf_loop (Some False) fmt args s
      else printf_loop None fmt args (putc c s))"
| "printf_loop (Some alternate) (c # fmt) args s =
     (if c = of_char CHR ''#'' then printf_loop (Some True) fmt args s
      else do {
        (args', s') \<leftarrow> printf_conv alternate c args s;
        printf_loop None fmt args' s' })"

definition printf ::
  "u8 list \<Rightarrow> u32 list \<Rightarrow> 'a console_scheme \<Rightarrow> (u32 \<times> 'a console_scheme) option" where
  "printf format args s = do {
     s \<leftarrow> printf_loop None format args s;
     Some (of_nat (length format), s) }"

text \<open>\<open>test_interrupts\<close> repeats one pass over the screen for ever; this is the pass.\<close>

fun test_interrupts_pass :: "nat list \<Rightarrow> 'a console_scheme \<Rightarrow> 'a console_scheme option" where
  "test_interrupts_pass [] s = Some s"
| "test_interrupts_pass (i # is) s =
     (let a = VIDEO + push_bit 1 (of_nat i);
          s = s\<lparr>mem := (mem s)(a := mem s a + 1)\<rparr>
      in do { (_, s) \<leftarrow> printf (map of_char ''1'') [] s; test_interrupts_pass is s })"

definition test_interrupts_body :: "'a console_scheme \<Rightarrow> 'a console_scheme option" where
  "test_interrupts_body s = test_interrupts_pass [0..<nat (NUM_ROWS * NUM_COLS)] s"

section \<open>The abstract terminal\<close>

text \<open>
  A screen is a list of 2000 cells (character, attribute) and a position; a character
  advances, a newline goes to the start of the next row, a backspace goes back one cell and
  blanks it, and leaving the last row scrolls.
\<close>

record tty =
  cells :: "(u8 \<times> u8) list"
  pos :: nat

abbreviation blank_cell :: "u8 \<times> u8" where "blank_cell \<equiv> (SPACE, ATTRIB)"

definition tty_scroll :: "tty \<Rightarrow> tty" where
  "tty_scroll t =
     (if pos t < 2000 then t
      else \<lparr>cells = drop 80 (cells t) @ replicate 80 blank_cell, pos = 1920\<rparr>)"

definition tty_putc :: "u8 \<Rightarrow> tty \<Rightarrow> tty" where
  "tty_putc c t =
     (if c = 0x0A \<or> c = 0x0D then tty_scroll (t\<lparr>pos := (pos t div 80 + 1) * 80\<rparr>)
      else if c = 0x08 then
        t\<lparr>cells := (if pos t = 0 then cells t else (cells t)[pos t - 1 := blank_cell]),
          pos := pos t - 1\<rparr>
      else tty_scroll (t\<lparr>cells := (cells t)[pos t := (c, ATTRIB)], pos := pos t + 1\<rparr>))"

text \<open>\<open>vbyte j\<close> is the address of byte \<open>j\<close> of the screen.\<close>

definition vbyte :: "nat \<Rightarrow> u32" where "vbyte j = VIDEO + of_nat j"

definition cell_at :: "(u32 \<Rightarrow> u8) \<Rightarrow> nat \<Rightarrow> u8 \<times> u8" where
  "cell_at m i = (m (vbyte (2 * i)), m (vbyte (2 * i + 1)))"

definition screen :: "(u32 \<Rightarrow> u8) \<Rightarrow> (u8 \<times> u8) list" where
  "screen m = map (cell_at m) [0..<2000]"

definition con_view :: "'a console_scheme \<Rightarrow> tty" where
  "con_view s = \<lparr>cells = screen (mem s), pos = nat (80 * screen_y s + screen_x s)\<rparr>"

definition con_ok :: "'a console_scheme \<Rightarrow> bool" where
  "con_ok s \<longleftrightarrow> 0 \<le> screen_x s \<and> screen_x s < 80 \<and> 0 \<le> screen_y s \<and> screen_y s < 25"

text \<open>The bytes of the screen.\<close>

definition screen_rng :: "u32 set" where "screen_rng = rng VIDEO 4000"

lemma vbyte_inj: "i < 2 ^ 31 \<Longrightarrow> j < 2 ^ 31 \<Longrightarrow> vbyte i = vbyte j \<longleftrightarrow> i = j"
  by (auto simp: vbyte_def unat_of_nat dest!: arg_cong [where f = unat])

lemma vbyte_eq_simps [simp]:
  "i < 2000 \<Longrightarrow> j < 2000 \<Longrightarrow> vbyte (2 * i) = vbyte (2 * j) \<longleftrightarrow> i = j"
  "i < 2000 \<Longrightarrow> j < 2000 \<Longrightarrow> vbyte (Suc (2 * i)) = vbyte (Suc (2 * j)) \<longleftrightarrow> i = j"
  "i < 2000 \<Longrightarrow> j < 2000 \<Longrightarrow> vbyte (2 * i) \<noteq> vbyte (Suc (2 * j))"
  "i < 2000 \<Longrightarrow> j < 2000 \<Longrightarrow> vbyte (Suc (2 * i)) \<noteq> vbyte (2 * j)"
  by (simp_all add: vbyte_inj; presburger)+

lemma vbyte_add: "vbyte i + of_nat j = vbyte (i + j)"
  by (simp add: vbyte_def add.assoc)

lemma vbyte_in_rng: "i < 2 ^ 31 \<Longrightarrow> k + n < 2 ^ 31 \<Longrightarrow> vbyte i \<in> rng (vbyte k) n \<longleftrightarrow> k \<le> i \<and> i < k + n"
proof
  assume "i < 2 ^ 31" "k + n < 2 ^ 31" "vbyte i \<in> rng (vbyte k) n"
  then obtain l where "l < n" "vbyte i = vbyte (k + l)"
    unfolding rng_def vbyte_add by auto
  with vbyte_inj [of i "k + l"] \<open>i < 2 ^ 31\<close> \<open>k + n < 2 ^ 31\<close> show "k \<le> i \<and> i < k + n" by auto
next
  assume "k \<le> i \<and> i < k + n"
  then show "vbyte i \<in> rng (vbyte k) n"
    unfolding rng_def vbyte_add by (intro image_eqI [of _ _ "i - k"]) auto
qed

lemma vbyte_in_screen: "i < 4000 \<Longrightarrow> vbyte i \<in> screen_rng"
  using vbyte_in_rng [of i 0 4000] by (simp add: screen_rng_def vbyte_def)

lemma length_screen [simp]: "length (screen m) = 2000"
  by (simp add: screen_def)

lemma screen_nth [simp]: "i < 2000 \<Longrightarrow> screen m ! i = cell_at m i"
  by (simp add: screen_def)

lemma screen_cong: "(\<And>b. b \<in> screen_rng \<Longrightarrow> m b = m' b) \<Longrightarrow> screen m = screen m'"
  by (rule nth_equalityI) (auto simp: cell_at_def vbyte_in_screen)

lemma screen_put:
  assumes "i < 2000"
  shows "screen (m(vbyte (2 * i) := c, vbyte (2 * i + 1) := a)) = (screen m)[i := (c, a)]"
proof (rule nth_equalityI)
  fix j assume "j < length (screen (m(vbyte (2 * i) := c, vbyte (2 * i + 1) := a)))"
  then have j: "j < 2000" by simp
  with assms show "screen (m(vbyte (2 * i) := c, vbyte (2 * i + 1) := a)) ! j
      = (screen m)[i := (c, a)] ! j"
    by (cases "i = j") (simp_all add: cell_at_def)
qed simp

lemma length_concat_pair: "length (concat (replicate n [a, b])) = 2 * n"
  by (induction n) auto

lemma concat_pair_nth:
  "k < 2 * n \<Longrightarrow> concat (replicate n [a, b]) ! k = (if even k then a else b)"
proof (induction n arbitrary: k)
  case (Suc n)
  consider "k = 0" | "k = 1" | j where "k = Suc (Suc j)" by (cases k; cases "k - 1") auto
  then show ?case by cases (use Suc in auto)
qed simp

lemma store_at_vbyte:
  assumes "k + length xs < 2 ^ 31" "j < 2 ^ 31"
  shows "store_bytes m (vbyte k) xs (vbyte j) =
    (if k \<le> j \<and> j < k + length xs then xs ! (j - k) else m (vbyte j))"
proof (cases "k \<le> j \<and> j < k + length xs")
  case True
  then have "vbyte j = vbyte k + of_nat (j - k)" unfolding vbyte_add by simp
  moreover have "store_bytes m (vbyte k) xs (vbyte k + of_nat (j - k)) = xs ! (j - k)"
    using True assms by (intro store_bytes_nth) auto
  ultimately show ?thesis using True by simp
next
  case False
  then have "vbyte j \<notin> rng (vbyte k) (length xs)"
    using assms by (simp add: vbyte_in_rng)
  with False show ?thesis by auto
qed

text \<open>\<^verbatim>\<open>memset_word\<close> on a stretch of cells, and the block move by one row.\<close>

lemma fill_cell:
  assumes "k + n \<le> 2000" "i < 2000"
  shows "cell_at (store_bytes m (vbyte (2 * k)) (concat (replicate n [c, a]))) i
    = (if k \<le> i \<and> i < k + n then (c, a) else cell_at m i)"
proof -
  have "(2 * k \<le> 2 * i \<and> 2 * i < 2 * k + 2 * n) = (k \<le> i \<and> i < k + n)"
    "(2 * k \<le> Suc (2 * i) \<and> Suc (2 * i) < 2 * k + 2 * n) = (k \<le> i \<and> i < k + n)"
    "even (2 * i - 2 * k)" "k \<le> i \<Longrightarrow> odd (Suc (2 * i) - 2 * k)"
    by presburger+
  with assms show ?thesis
    by (auto simp: cell_at_def store_at_vbyte length_concat_pair concat_pair_nth)
qed

lemma move_cell:
  assumes "i < 2000"
  shows "cell_at (store_bytes m (vbyte 0) (bytes_at m (vbyte 160) 3840)) i
    = cell_at m (if i < 1920 then i + 80 else i)"
proof -
  have "vbyte 160 + of_nat j = vbyte (j + 160)" for j unfolding vbyte_add by (simp add: add.commute)
  then have "store_bytes m (vbyte 0) (bytes_at m (vbyte 160) 3840) (vbyte j)
      = m (vbyte (if j < 3840 then j + 160 else j))" if "j < 4000" for j
    using that by (simp add: store_at_vbyte del: of_nat_add)
  with assms show ?thesis by (simp add: cell_at_def)
qed

section \<open>The hardware cursor\<close>

text \<open>The CRT controller: port 0x3D4 selects a register, 0x3D5 writes it; 0x0E and 0x0F are
  the high and low byte of the cursor position.\<close>

fun crtc_step :: "io_event \<Rightarrow> u8 \<times> u8 \<times> u8 \<Rightarrow> u8 \<times> u8 \<times> u8" where
  "crtc_step (Out p d) (reg, low, high) =
     (if p = VGA_PORT then (d, low, high)
      else if p = VGA_PORT + 1 then
        (reg, if reg = 0x0F then d else low, if reg = 0x0E then d else high)
      else (reg, low, high))"
| "crtc_step (In p d) r = r"

definition crtc_cursor :: "io_event list \<Rightarrow> nat" where
  "crtc_cursor evs = (case fold crtc_step evs (0, 0, 0) of (_, low, high) \<Rightarrow> 256 * unat high + unat low)"

definition cursor_ok :: "'a console_scheme \<Rightarrow> bool" where
  "cursor_ok s \<longleftrightarrow> crtc_cursor (io s) = pos (con_view s)"

lemma split_u16: "256 * unat (ucast (drop_bit 8 (x :: u16) AND 0xFF) :: u8) + unat (ucast (x AND 0xFF) :: u8) = unat x"
proof -
  have m: "(0xFF :: u16) = mask 8" by (simp add: mask_eq_exp_minus_1)
  have low: "(ucast (y AND 0xFF) :: u8) = ucast y" for y :: u16
    unfolding m by (rule bit_word_eqI) (simp add: bit_simps)
  have cut: "unat (ucast y :: u8) = unat y mod 256" for y :: u16
    by (simp add: unsigned_ucast_eq take_bit_eq_mod)
  have "unat x < 2 ^ 16" using unsigned_less [of x, where ?'a = nat] by simp
  then have "unat x div 256 < 256" by (simp add: less_mult_imp_div_less)
  moreover have "unat (drop_bit 8 x) = unat x div 256"
    by (simp add: unsigned_drop_bit_eq drop_bit_eq_div unat_div_distrib)
  ultimately show ?thesis by (simp add: low cut)
qed

lemma unat_word_of_int16: "0 \<le> i \<Longrightarrow> i < 2 ^ 16 \<Longrightarrow> unat (word_of_int i :: u16) = nat i"
  by (simp add: unat_eq_nat_uint uint_word_of_int)

lemma set_cursor_crtc:
  "crtc_cursor (io (set_cursor x y s)) = unat (y * word_of_int NUM_COLS + x)"
  using split_u16 [of "y * word_of_int NUM_COLS + x"]
  by (cases "fold crtc_step (io s) (0, 0, 0)")
    (simp add: set_cursor_def Let_def crtc_cursor_def VGA_PORT_def)

lemma set_cursor_frame [simp, frame_simps]:
  "mem (set_cursor x y s) = mem s" "inq (set_cursor x y s) = inq s"
  "eflags (set_cursor x y s) = eflags s" "machine.more (set_cursor x y s) = machine.more s"
  by (simp_all add: set_cursor_def Let_def)

lemma machine_more_frame:
  "machine.more (s :: 'a console_scheme) = machine.more t \<Longrightarrow>
    screen_x s = screen_x t \<and> screen_y s = screen_y t \<and> strtok_last s = strtok_last t \<and>
    conv_buf_at s = conv_buf_at t \<and> console.more s = console.more t"
  by (cases s; cases t) auto

lemma set_cursor_console [simp, frame_simps]:
  "screen_x (set_cursor x y s) = screen_x s" "screen_y (set_cursor x y s) = screen_y s"
  "strtok_last (set_cursor x y s) = strtok_last s" "conv_buf_at (set_cursor x y s) = conv_buf_at s"
  "console.more (set_cursor x y s) = console.more s"
  using machine_more_frame [of "set_cursor x y s" s] by simp_all

lemma set_cursor_view [simp]:
  "con_view (set_cursor x y s) = con_view s" "con_ok (set_cursor x y s) = con_ok s"
  by (simp_all add: con_view_def con_ok_def)

text \<open>Programmed from the coordinates, the cursor stands at the write position.\<close>

lemma set_cursor_ok:
  assumes "con_ok s"
  shows "cursor_ok (set_cursor (word_of_int (screen_x s)) (word_of_int (screen_y s)) s)"
proof -
  have "(word_of_int (screen_y s) * word_of_int NUM_COLS + word_of_int (screen_x s) :: u16)
      = word_of_int (80 * screen_y s + screen_x s)"
    by (simp add: NUM_COLS_def mult.commute)
  moreover have "80 * screen_y s + screen_x s < 2000" "0 \<le> 80 * screen_y s + screen_x s"
    using assms by (auto simp: con_ok_def)
  ultimately have "unat (word_of_int (screen_y s) * word_of_int NUM_COLS + word_of_int (screen_x s) :: u16)
      = nat (80 * screen_y s + screen_x s)"
    by (simp only: unat_word_of_int16 power_numeral) (rule unat_word_of_int16; simp)
  then show ?thesis
    by (simp only: cursor_ok_def set_cursor_crtc set_cursor_view) (simp add: con_view_def)
qed

section \<open>putc implements the abstract terminal\<close>

lemma low_bytes:
  "(0x720 :: u8) = SPACE" "(0x1120 :: u8) = SPACE"
  by simp_all

lemma ATTRIB_SPACE: "memset_word m p (push_bit 8 (ucast ATTRIB) OR 0x20) n =
    store_bytes m p (concat (replicate (unat n) [SPACE, ATTRIB]))"
  by (simp add: memset_word_fills ATTRIB_def low_bytes)

lemma BLUE_SPACE: "memset_word m p (push_bit 8 (ucast BLUE_SCREEN_BACKGROUND_ATTRIB) OR 0x20) n =
    store_bytes m p (concat (replicate (unat n) [SPACE, BLUE_SCREEN_BACKGROUND_ATTRIB]))"
  by (simp add: memset_word_fills BLUE_SCREEN_BACKGROUND_ATTRIB_def low_bytes)

lemma vbyte_0: "VIDEO = vbyte 0"
  by (simp add: vbyte_def)

lemma screen_fill:
  "screen (store_bytes m VIDEO (concat (replicate 2000 [c, a]))) = replicate 2000 (c, a)"
  by (rule nth_equalityI) (use fill_cell [of 0 2000 _ m c a] in \<open>simp_all add: vbyte_0\<close>)

lemma clear_view:
  "con_view (clear s) = \<lparr>cells = replicate 2000 blank_cell, pos = 0\<rparr>"
  "con_ok (clear s)" "cursor_ok (clear s)"
proof -
  show "con_view (clear s) = \<lparr>cells = replicate 2000 blank_cell, pos = 0\<rparr>"
    by (simp add: clear_def Let_def ATTRIB_SPACE con_view_def screen_fill NUM_COLS_def NUM_ROWS_def)
  show "con_ok (clear s)" by (simp add: clear_def Let_def con_ok_def)
  show "cursor_ok (clear s)"
    unfolding clear_def Let_def by (rule set_cursor_ok) (simp add: con_ok_def)
qed

lemma blue_screen_view:
  "con_view (blue_screen s) = \<lparr>cells = replicate 2000 (SPACE, BLUE_SCREEN_BACKGROUND_ATTRIB), pos = 0\<rparr>"
  "con_ok (blue_screen s)" "cursor_ok (blue_screen s)"
proof -
  show "con_view (blue_screen s) = \<lparr>cells = replicate 2000 (SPACE, BLUE_SCREEN_BACKGROUND_ATTRIB), pos = 0\<rparr>"
    by (simp add: blue_screen_def Let_def BLUE_SPACE con_view_def screen_fill NUM_COLS_def NUM_ROWS_def)
  show "con_ok (blue_screen s)" by (simp add: blue_screen_def Let_def con_ok_def)
  show "cursor_ok (blue_screen s)"
    unfolding blue_screen_def Let_def by (rule set_cursor_ok) (simp add: con_ok_def)
qed

text \<open>A position on the screen; \<open>y\<close> may be one row below it, before the scroll.\<close>

definition con_near :: "'a console_scheme \<Rightarrow> bool" where
  "con_near s \<longleftrightarrow> 0 \<le> screen_x s \<and> screen_x s < 80 \<and> 0 \<le> screen_y s \<and> screen_y s \<le> 25 \<and>
     (screen_y s = 25 \<longrightarrow> screen_x s = 0)"

lemma scroll_mem:
  "screen_y s \<ge> 25 \<Longrightarrow> mem (scroll s) =
    store_bytes (store_bytes (mem s) (vbyte 0) (bytes_at (mem s) (vbyte 160) 3840))
      (vbyte (2 * 1920)) (concat (replicate 80 [SPACE, ATTRIB]))"
  by (simp add: scroll_def Let_def NUM_ROWS_def NUM_COLS_def ATTRIB_SPACE memmove_moves VIDEO_def vbyte_def)

lemma scroll_view:
  assumes "con_near s"
  shows "con_view (scroll s) = tty_scroll (con_view s)" "con_ok (scroll s)"
proof -
  consider "screen_y s < 25" | "screen_y s = 25" "screen_x s = 0"
    using assms by (fastforce simp: con_near_def)
  then show "con_view (scroll s) = tty_scroll (con_view s)"
  proof cases
    case 1
    with assms show ?thesis
      by (auto simp: scroll_def NUM_ROWS_def tty_scroll_def con_view_def con_near_def nat_less_iff)
  next
    case 2
    have "screen (mem (scroll s)) = drop 80 (screen (mem s)) @ replicate 80 blank_cell"
      using 2 by (intro nth_equalityI) (auto simp: scroll_mem fill_cell [of 1920 80, simplified] move_cell [simplified] nth_append add.commute)
    with 2 show ?thesis
      by (simp add: con_view_def tty_scroll_def) (simp add: scroll_def Let_def NUM_ROWS_def)
  qed
  show "con_ok (scroll s)"
    using assms by (auto simp: con_ok_def con_near_def scroll_def Let_def NUM_ROWS_def)
qed

lemma cell_addr_vbyte:
  assumes "con_ok s"
  shows "cell_addr (screen_x s) (screen_y s) = vbyte (2 * pos (con_view s))"
proof -
  have "2 * pos (con_view s) = nat ((80 * screen_y s + screen_x s) * 2)"
    using assms by (simp add: con_view_def con_ok_def nat_mult_distrib mult.commute)
  then have "(of_nat (2 * pos (con_view s)) :: u32) = word_of_int ((80 * screen_y s + screen_x s) * 2)"
    using assms by (simp only: con_ok_def) (simp add: word_of_int_nat [symmetric] del: of_nat_mult)
  then show ?thesis by (simp add: cell_addr_def vbyte_def NUM_COLS_def)
qed

lemma con_pos: "con_ok s \<Longrightarrow> pos (con_view s) < 2000"
  by (auto simp: con_ok_def con_view_def nat_less_iff)

lemma put_cell_view:
  assumes "con_ok s"
  shows "con_view (put_cell c s) = (con_view s)\<lparr>cells := (cells (con_view s))[pos (con_view s) := (c, ATTRIB)]\<rparr>"
    "con_ok (put_cell c s)"
proof -
  have "mem (put_cell c s) = (mem s)(vbyte (2 * pos (con_view s)) := c, vbyte (2 * pos (con_view s) + 1) := ATTRIB)"
    using assms by (simp add: put_cell_def Let_def cell_addr_vbyte) (simp add: vbyte_def ac_simps)
  then show "con_view (put_cell c s) = (con_view s)\<lparr>cells := (cells (con_view s))[pos (con_view s) := (c, ATTRIB)]\<rparr>"
    using con_pos [OF assms] by (simp add: con_view_def screen_put [simplified]) (simp add: put_cell_def Let_def)
  show "con_ok (put_cell c s)" using assms by (simp add: con_ok_def put_cell_def Let_def)
qed

lemma put_cell_xy [simp]:
  "screen_x (put_cell c s) = screen_x s" "screen_y (put_cell c s) = screen_y s"
  by (simp_all add: put_cell_def Let_def)

lemma smod_small: "0 \<le> x \<Longrightarrow> x \<le> 80 \<Longrightarrow> (x :: int) smod 80 = (if x = 80 then 0 else x)"
  by (auto simp: signed_modulo_int_def sgn_if)

lemma tty_scroll_small: "pos t < 2000 \<Longrightarrow> tty_scroll t = t"
  by (simp add: tty_scroll_def)

text \<open>One character: the console shows what the abstract terminal shows, stays on the
  screen, and the hardware cursor follows the write position.\<close>

lemma putc_refines:
  assumes ok: "con_ok s" and cur: "cursor_ok s"
  shows "con_view (putc c s) = tty_putc c (con_view s) \<and> con_ok (putc c s) \<and> cursor_ok (putc c s)"
proof -
  have finish: "con_view (set_cursor (word_of_int (screen_x (scroll t))) (word_of_int (screen_y (scroll t))) (scroll t)) = v
      \<and> con_ok (set_cursor (word_of_int (screen_x (scroll t))) (word_of_int (screen_y (scroll t))) (scroll t))
      \<and> cursor_ok (set_cursor (word_of_int (screen_x (scroll t))) (word_of_int (screen_y (scroll t))) (scroll t))"
    if "con_near t" "tty_scroll (con_view t) = v" for t :: "'a console_scheme" and v
    using that scroll_view [OF that(1)] set_cursor_ok [of "scroll t"] by simp
  consider (newline) "c = 0x0A \<or> c = 0x0D" | (home) "c = 0x08" "pos (con_view s) = 0"
    | (bs) "c = 0x08" "pos (con_view s) \<noteq> 0" | (char) "c \<notin> {0x0A, 0x0D, 0x08}" by auto
  then show ?thesis
  proof cases
    case newline
    let ?t = "s\<lparr>screen_y := screen_y s + 1, screen_x := 0\<rparr>"
    have "nat (80 * screen_y s + screen_x s) div 80 = nat (screen_y s)"
      using ok by (auto simp: con_ok_def nat_add_distrib nat_mult_distrib nat_less_iff)
    then have "tty_scroll (con_view ?t) = tty_putc c (con_view s)"
      using newline ok by (auto simp: tty_putc_def con_view_def con_ok_def nat_add_distrib nat_mult_distrib mult.commute add.commute)
    moreover have "con_near ?t" using ok by (simp add: con_near_def con_ok_def)
    moreover have "putc c s = set_cursor (word_of_int (screen_x (scroll ?t))) (word_of_int (screen_y (scroll ?t))) (scroll ?t)"
      using newline by (auto simp: putc_def Let_def)
    ultimately show ?thesis using finish by presburger
  next
    case home
    then have "screen_y s = 0 \<and> screen_x s = 0" using ok by (auto simp: con_view_def con_ok_def)
    with home ok cur show ?thesis by (simp add: putc_def tty_putc_def)
  next
    case bs
    define t where "t = (if screen_x s \<le> 0 then s\<lparr>screen_x := 79, screen_y := screen_y s - 1\<rparr>
        else s\<lparr>screen_x := screen_x s - 1\<rparr>)"
    have nz: "\<not> (screen_y s = 0 \<and> screen_x s = 0)" using bs by (simp add: con_view_def)
    have y: "screen_y s > 0" if "screen_x s \<le> 0" using nz that ok by (auto simp: con_ok_def)
    have okt: "con_ok t" using ok y by (auto simp: t_def con_ok_def)
    have post: "pos (con_view t) = pos (con_view s) - 1" "cells (con_view t) = cells (con_view s)"
      using ok y by (auto simp: t_def con_view_def con_ok_def nat_diff_distrib)
    have viewp: "con_view (put_cell SPACE t) = tty_putc c (con_view s)"
      using bs put_cell_view(1) [OF okt] post by (simp add: tty_putc_def)
    have "con_near (put_cell SPACE t)"
      using put_cell_view(2) [OF okt] by (simp add: con_near_def con_ok_def)
    moreover have "tty_scroll (con_view (put_cell SPACE t)) = tty_putc c (con_view s)"
      using viewp con_pos [OF put_cell_view(2) [OF okt]] by (metis tty_scroll_small)
    moreover have "putc c s = set_cursor (word_of_int (screen_x (scroll (put_cell SPACE t))))
        (word_of_int (screen_y (scroll (put_cell SPACE t)))) (scroll (put_cell SPACE t))"
      using bs nz y ok by (auto simp: putc_def Let_def t_def NUM_COLS_def con_ok_def)
    ultimately show ?thesis using finish by presburger
  next
    case char
    define p where "p = put_cell c s"
    define t where "t = p\<lparr>screen_y := (if screen_x s + 1 \<ge> 80 then screen_y s + 1 else screen_y s),
        screen_x := (screen_x s + 1) smod 80\<rparr>"
    have near: "con_near t" using ok smod_small [of "screen_x s + 1"]
      by (auto simp: con_near_def con_ok_def t_def p_def)
    have "con_view t = (con_view p)\<lparr>pos := pos (con_view s) + 1\<rparr>"
      using ok smod_small [of "screen_x s + 1"]
      by (auto simp: con_view_def t_def con_ok_def nat_add_distrib)
    then have "tty_scroll (con_view t) = tty_putc c (con_view s)"
      using char put_cell_view(1) [OF ok] by (simp add: p_def tty_putc_def)
    moreover have "putc c s = set_cursor (word_of_int (screen_x (scroll t))) (word_of_int (screen_y (scroll t))) (scroll t)"
      using char by (simp add: putc_def Let_def t_def p_def NUM_COLS_def)
    ultimately show ?thesis using finish near by presburger
  qed
qed

section \<open>What output leaves alone\<close>

lemma scroll_frame [simp, frame_simps]:
  "inq (scroll s) = inq s" "eflags (scroll s) = eflags s" "strtok_last (scroll s) = strtok_last s"
  "conv_buf_at (scroll s) = conv_buf_at s" "console.more (scroll s) = console.more s"
  "io (scroll s) = io s"
  by (simp_all add: scroll_def Let_def)

lemma put_cell_frame [simp, frame_simps]:
  "inq (put_cell c s) = inq s" "eflags (put_cell c s) = eflags s"
  "strtok_last (put_cell c s) = strtok_last s" "conv_buf_at (put_cell c s) = conv_buf_at s"
  "console.more (put_cell c s) = console.more s" "io (put_cell c s) = io s"
  by (simp_all add: put_cell_def Let_def)

lemma putc_frame [simp, frame_simps]:
  "inq (putc c s) = inq s" "eflags (putc c s) = eflags s" "strtok_last (putc c s) = strtok_last s"
  "conv_buf_at (putc c s) = conv_buf_at s" "console.more (putc c s) = console.more s"
  by (simp_all add: putc_def Let_def)

lemma clear_frame [simp, frame_simps]:
  "inq (clear s) = inq s" "eflags (clear s) = eflags s" "strtok_last (clear s) = strtok_last s"
  "conv_buf_at (clear s) = conv_buf_at s" "console.more (clear s) = console.more s"
  by (simp_all add: clear_def Let_def)

lemma screen_sub: "i + n \<le> 4000 \<Longrightarrow> rng (vbyte i) n \<subseteq> screen_rng"
  using rng_shift [of i n 4000 VIDEO] by (simp add: screen_rng_def vbyte_def)

lemma clear_mem: "b \<notin> screen_rng \<Longrightarrow> mem (clear s) b = mem s b"
  by (simp add: clear_def Let_def ATTRIB_SPACE NUM_COLS_def NUM_ROWS_def length_concat_pair screen_rng_def)

lemma put_cell_mem:
  assumes "con_ok s" "b \<notin> screen_rng"
  shows "mem (put_cell c s) b = mem s b"
proof -
  have "cell_addr (screen_x s) (screen_y s) \<in> screen_rng" "cell_addr (screen_x s) (screen_y s) + 1 \<in> screen_rng"
    using vbyte_in_screen [of "2 * pos (con_view s)"] vbyte_in_screen [of "2 * pos (con_view s) + 1"]
      con_pos [OF assms(1)] vbyte_add [of "2 * pos (con_view s)" 1]
    by (simp_all add: cell_addr_vbyte [OF assms(1)])
  then show ?thesis using assms(2) by (auto simp: put_cell_def Let_def)
qed

lemma scroll_mem_frame: "b \<notin> screen_rng \<Longrightarrow> mem (scroll s) b = mem s b"
proof (cases "screen_y s \<ge> 25")
  case True
  assume "b \<notin> screen_rng"
  then have "b \<notin> rng (vbyte 0) 3840" "b \<notin> rng (vbyte 3840) 160"
    using screen_sub [of 0 3840] screen_sub [of 3840 160] by auto
  with True show ?thesis by (simp add: scroll_mem length_concat_pair)
qed (simp add: scroll_def NUM_ROWS_def)

lemma putc_mem:
  assumes "con_ok s" "b \<notin> screen_rng"
  shows "mem (putc c s) b = mem s b"
proof -
  have bs: "con_ok (if screen_x s - 1 < 0
      then s\<lparr>screen_x := NUM_COLS - 1, screen_y := (if screen_y s \<noteq> 0 then screen_y s - 1 else 0)\<rparr>
      else s\<lparr>screen_x := screen_x s - 1\<rparr>)"
    using assms(1) by (auto simp: con_ok_def NUM_COLS_def)
  show ?thesis
    using put_cell_mem [OF bs assms(2), of SPACE] put_cell_mem [OF assms, of c]
    by (auto simp: putc_def Let_def scroll_mem_frame [OF assms(2)] split: if_splits)
qed

section \<open>Sinks of bytes\<close>

text \<open>
  What a client of a character output relies on: each byte is one step of the abstract
  view, the invariant is kept, and the memory outside the device's own range is left
  alone, so a string that is being printed is not changed by printing it.
\<close>

locale byte_sink =
  fixes emit :: "u8 \<Rightarrow> 's \<Rightarrow> 's"
    and good :: "'s \<Rightarrow> bool"
    and view :: "'s \<Rightarrow> 'v"
    and step :: "u8 \<Rightarrow> 'v \<Rightarrow> 'v"
    and bytes :: "'s \<Rightarrow> u32 \<Rightarrow> u8"
    and own :: "u32 set"
  assumes emit_good: "good s \<Longrightarrow> good (emit c s)"
    and emit_view: "good s \<Longrightarrow> view (emit c s) = step c (view s)"
    and emit_bytes: "good s \<Longrightarrow> b \<notin> own \<Longrightarrow> bytes (emit c s) b = bytes s b"
begin

lemma fold_good: "good s \<Longrightarrow> good (fold emit cs s)"
  by (induction cs arbitrary: s) (auto simp: emit_good)

lemma fold_view: "good s \<Longrightarrow> view (fold emit cs s) = fold step cs (view s)"
  by (induction cs arbitrary: s) (auto simp: emit_good emit_view)

lemma fold_bytes: "good s \<Longrightarrow> b \<notin> own \<Longrightarrow> bytes (fold emit cs s) b = bytes s b"
  by (induction cs arbitrary: s) (auto simp: emit_good emit_bytes)

lemma emit_cstr:
  "good s \<Longrightarrow> rng a (Suc (length xs)) \<inter> own = {} \<Longrightarrow> cstr (bytes (emit c s)) a xs = cstr (bytes s) a xs"
  by (rule cstr_cong) (auto simp: emit_bytes disjoint_iff)

end

definition con_good :: "'a console_scheme \<Rightarrow> bool" where
  "con_good s \<longleftrightarrow> con_ok s \<and> cursor_ok s"

interpretation con: byte_sink putc con_good con_view tty_putc mem screen_rng
  by unfold_locales (auto simp: con_good_def putc_refines putc_mem)

section \<open>puts\<close>

lemma puts_loop_cstr:
  "con_good s \<Longrightarrow> cstr (mem s) (p + index) xs \<Longrightarrow> rng (p + index) (Suc (length xs)) \<inter> screen_rng = {} \<Longrightarrow>
   puts_loop p index s = Some (index + of_nat (length xs), fold putc xs s)"
proof (induction xs arbitrary: index s)
  case Nil
  then show ?case by (subst puts_loop.simps) simp
next
  case (Cons x xs)
  have dis: "rng (p + (index + 1)) (Suc (length xs)) \<inter> screen_rng = {}"
    using Cons.prems(3) by (auto simp: rng_Suc add.assoc)
  have "cstr (mem (putc x s)) (p + (index + 1)) xs"
    using Cons.prems dis by (subst con.emit_cstr) (auto simp: add.assoc)
  with Cons.prems dis have "puts_loop p (index + 1) (putc x s)
      = Some (index + 1 + of_nat (length xs), fold putc xs (putc x s))"
    by (intro Cons.IH) (auto intro: con.emit_good)
  with Cons.prems show ?case by (subst puts_loop.simps) simp
qed

lemma puts_cstr:
  "con_good s \<Longrightarrow> cstr (mem s) p xs \<Longrightarrow> rng p (Suc (length xs)) \<inter> screen_rng = {} \<Longrightarrow>
   puts p s = Some (of_nat (length xs), fold putc xs s)"
  using puts_loop_cstr [of s p 0 xs] by (simp add: puts_def)

lemma fold_putc_frame [simp, frame_simps]:
  "inq (fold putc cs s) = inq s" "eflags (fold putc cs s) = eflags s"
  "strtok_last (fold putc cs s) = strtok_last s" "conv_buf_at (fold putc cs s) = conv_buf_at s"
  "console.more (fold putc cs s) = console.more s"
  by (induction cs arbitrary: s) auto

section \<open>printf renders its format\<close>

text \<open>\<open>printed cs s t\<close>: going from \<open>s\<close> to \<open>t\<close> the characters \<open>cs\<close> were shown and nothing
  else happened, outside the screen and the conversion buffer.\<close>

definition conv_rng :: "'a console_scheme \<Rightarrow> u32 set" where
  "conv_rng s = rng (conv_buf_at s) 64"

definition con_layout :: "'a console_scheme \<Rightarrow> bool" where
  "con_layout s \<longleftrightarrow> conv_rng s \<inter> screen_rng = {}"

definition printed :: "u8 list \<Rightarrow> 'a console_scheme \<Rightarrow> 'a console_scheme \<Rightarrow> bool" where
  "printed cs s t \<longleftrightarrow> con_good t \<and> con_view t = fold tty_putc cs (con_view s) \<and>
     (\<forall>b. b \<notin> screen_rng \<longrightarrow> b \<notin> conv_rng s \<longrightarrow> mem t b = mem s b) \<and>
     inq t = inq s \<and> eflags t = eflags s \<and> strtok_last t = strtok_last s \<and>
     conv_buf_at t = conv_buf_at s \<and> console.more t = console.more s"

lemma printed_refl: "con_good s \<Longrightarrow> printed [] s s"
  by (simp add: printed_def)

lemma printed_trans: "printed xs s t \<Longrightarrow> printed ys t u \<Longrightarrow> printed (xs @ ys) s u"
  by (simp add: printed_def conv_rng_def)

lemma printed_layout: "printed xs s t \<Longrightarrow> con_layout t = con_layout s"
  by (simp add: printed_def con_layout_def conv_rng_def)

lemma printed_fold: "con_good s \<Longrightarrow> printed cs s (fold putc cs s)"
  by (simp add: printed_def con.fold_good con.fold_view con.fold_bytes)

lemma printed_conv_buf:
  assumes "con_good s" "con_layout s" "\<And>b. b \<notin> conv_rng s \<Longrightarrow> m b = mem s b"
  shows "printed [] s (s\<lparr>mem := m\<rparr>)"
proof -
  have "screen m = screen (mem s)"
    using assms by (intro screen_cong) (auto simp: con_layout_def)
  with assms show ?thesis
    by (simp add: printed_def con_good_def con_ok_def cursor_ok_def con_view_def)
qed

lemma printed_puts:
  assumes "con_good s" "cstr (mem s) p xs" "rng p (Suc (length xs)) \<inter> screen_rng = {}"
  shows "\<exists>n t. puts p s = Some (n, t) \<and> printed xs s t"
  using puts_cstr [OF assms] printed_fold [OF assms(1)] by auto

text \<open>A conversion that leaves a string inside the buffer, and then prints it.\<close>

lemma printed_conv:
  assumes ok: "con_good s" "con_layout s"
    and m: "\<And>b. b \<notin> conv_rng s \<Longrightarrow> m b = mem s b"
    and str: "cstr m (conv_buf_at s + of_nat k) xs" "k + length xs < 64"
  shows "\<exists>n t. puts (conv_buf_at s + of_nat k) (s\<lparr>mem := m\<rparr>) = Some (n, t) \<and> printed xs s t"
proof -
  let ?s = "s\<lparr>mem := m\<rparr>"
  have p: "printed [] s ?s" using ok m by (rule printed_conv_buf)
  have "rng (conv_buf_at s + of_nat k) (Suc (length xs)) \<subseteq> conv_rng s"
    unfolding conv_rng_def using str(2) by (intro rng_shift) simp
  then have "rng (conv_buf_at s + of_nat k) (Suc (length xs)) \<inter> screen_rng = {}"
    using ok(2) unfolding con_layout_def by blast
  with p str(1) have "\<exists>n t. puts (conv_buf_at s + of_nat k) ?s = Some (n, t) \<and> printed xs ?s t"
    by (intro printed_puts) (auto simp: printed_def)
  with p show ?thesis using printed_trans [of "[]" s ?s xs] by auto
qed

text \<open>The digits of a word in a base, as characters.\<close>

definition num_text :: "nat \<Rightarrow> u32 \<Rightarrow> u8 list" where
  "num_text radix a = map digit_char (digits radix (unat a))"

lemma num_text_facts:
  assumes "2 \<le> radix" "radix \<le> 36"
  shows "length (num_text radix a) \<le> 32" "0 \<notin> set (num_text radix a)"
proof -
  show "length (num_text radix a) \<le> 32"
    using length_digits [of "unat a" 32 radix] u32_bound [of a] by (simp add: num_text_def)
  have "digit_char d \<noteq> 0" if "d \<in> set (digits radix (unat a))" for d
    using digits_less [OF assms(1) that] assms(2) by (intro digit_char_nonzero) simp
  then show "0 \<notin> set (num_text radix a)" by (auto simp: num_text_def)
qed

lemma itoa_con_text:
  assumes "radix = 10 \<or> radix = 16"
  shows "itoa_con a buf radix s =
    Some (s\<lparr>mem := store_bytes (mem s) buf (num_text (unat radix) a @ [0])\<rparr>)"
  using assms by (auto simp: itoa_con_def itoa_digits num_text_def)

lemma store_outside: "b \<notin> rng a n \<Longrightarrow> length xs \<le> n \<Longrightarrow> store_bytes m a xs b = m b"
  by (rule store_bytes_other) (use rng_mono [of "length xs" n a] in blast)

lemma store_in_conv:
  assumes "k + length xs \<le> 64" "b \<notin> conv_rng s"
  shows "store_bytes m (conv_buf_at s + of_nat k) xs b = m b"
  by (rule store_bytes_other)
    (use assms rng_shift [of k "length xs" 64 "conv_buf_at s"] in \<open>auto simp: conv_rng_def\<close>)

lemma cstr_append:
  "cstr m a (xs @ ys) \<longleftrightarrow> bytes_at m a (length xs) = xs \<and> 0 \<notin> set xs \<and> cstr m (a + of_nat (length xs)) ys"
  by (induction xs arbitrary: a) (auto simp: add.assoc)

lemma fill_zeros_eq:
  "i \<le> 8 \<Longrightarrow> fill_zeros m b (of_nat i) = store_bytes m (b + of_nat i) (replicate (8 - i) (of_char CHR ''0''))"
proof (induction "8 - i" arbitrary: i m)
  case 0
  then show ?case by (subst fill_zeros.simps) (simp add: word_sless_alt)
next
  case (Suc k)
  then have i: "i < 8" "8 - i = Suc (8 - Suc i)" by auto
  have "sint (of_nat i :: u32) = int i" using i by (intro sint_of_nat) simp
  moreover have "fill_zeros (m(b + of_nat i := of_char CHR ''0'')) b (of_nat (Suc i))
      = store_bytes (m(b + of_nat i := of_char CHR ''0'')) (b + of_nat (Suc i))
          (replicate (8 - Suc i) (of_char CHR ''0''))"
    using Suc.hyps i by (intro Suc.hyps(1)) auto
  ultimately show ?case using i
    by (subst fill_zeros.simps) (simp add: word_sless_alt add.assoc add.commute [of 1])
qed

lemma printf_u_shows:
  assumes "con_good s" "con_layout s"
  shows "\<exists>t. printf_u a s = Some t \<and> printed (num_text 10 a) s t"
proof -
  let ?m = "store_bytes (mem s) (conv_buf_at s) (num_text 10 a @ [0])"
  have "cstr ?m (conv_buf_at s) (num_text 10 a)"
    using num_text_facts [of 10 a] by (intro cstr_store_same) auto
  then obtain n t where "puts (conv_buf_at s) (s\<lparr>mem := ?m\<rparr>) = Some (n, t)" "printed (num_text 10 a) s t"
    using printed_conv [OF assms, of ?m 0 "num_text 10 a"] num_text_facts [of 10 a]
      store_in_conv [of 0 "num_text 10 a @ [0]" _ s "mem s"] by auto
  then show ?thesis by (simp add: printf_u_def itoa_con_text)
qed

definition x_text :: "bool \<Rightarrow> u32 \<Rightarrow> u8 list" where
  "x_text alternate a =
     (if alternate then replicate (8 - length (num_text 16 a)) (of_char CHR ''0'') else []) @ num_text 16 a"

lemma length_hex: "length (num_text 16 a) \<le> 8"
proof -
  have "n < 16 ^ k \<Longrightarrow> 0 < k \<Longrightarrow> length (digits 16 n) \<le> k" for n k
  proof (induction k arbitrary: n)
    case (Suc k)
    then show ?case
    proof (cases "n < 16")
      case False
      then have "0 < k" using Suc.prems by (cases k) auto
      moreover have "n div 16 < 16 ^ k" using Suc.prems(1) by (simp add: less_mult_imp_div_less mult.commute)
      ultimately have "length (digits 16 (n div 16)) \<le> k" by (intro Suc.IH)
      with False show ?thesis by (simp add: digits.simps [of 16 n])
    qed (simp add: digits.simps)
  qed simp
  from this [of "unat a" 8] show ?thesis using u32_bound [of a] by (simp add: num_text_def)
qed

lemma printf_x_shows:
  assumes "con_good s" "con_layout s"
  shows "\<exists>t. printf_x alternate a s = Some t \<and> printed (x_text alternate a) s t"
proof (cases alternate)
  case False
  let ?m = "store_bytes (mem s) (conv_buf_at s) (num_text 16 a @ [0])"
  have "cstr ?m (conv_buf_at s) (num_text 16 a)"
    using num_text_facts [of 16 a] by (intro cstr_store_same) auto
  then obtain n t where "puts (conv_buf_at s) (s\<lparr>mem := ?m\<rparr>) = Some (n, t)" "printed (num_text 16 a) s t"
    using printed_conv [OF assms, of ?m 0 "num_text 16 a"] num_text_facts [of 16 a]
      store_in_conv [of 0 "num_text 16 a @ [0]" _ s "mem s"] by auto
  with False show ?thesis by (simp add: printf_x_def itoa_con_text x_text_def)
next
  case True
  let ?B = "conv_buf_at s" and ?ds = "num_text 16 a"
  let ?l = "length ?ds" and ?zs = "replicate (8 - length ?ds) (of_char CHR ''0'' :: u8)"
  define m1 where "m1 = store_bytes (mem s) (?B + 8) (?ds @ [0])"
  define m2 where "m2 = store_bytes m1 (?B + of_nat ?l) ?zs"
  have l8: "?l \<le> 8" by (rule length_hex)
  have c1: "cstr m1 (?B + 8) ?ds"
    using num_text_facts [of 16 a] unfolding m1_def by (intro cstr_store_same) auto
  have "rng (?B + of_nat ?l) (8 - ?l) \<inter> rng (?B + of_nat 8) (Suc ?l) = {}"
    using l8 by (intro rng_apart) auto
  then have c2: "cstr m2 (?B + 8) ?ds"
    using c1 unfolding m2_def by (subst cstr_store_other) (auto simp: Int_commute)
  have "bytes_at m2 (?B + of_nat ?l) (length ?zs) = ?zs"
    unfolding m2_def by (rule bytes_at_store_same) auto
  moreover have "?B + of_nat ?l + of_nat (8 - ?l) = ?B + of_nat 8"
    using l8 unfolding add.assoc of_nat_add [symmetric] by (subst le_add_diff_inverse) auto
  ultimately have c: "cstr m2 (?B + of_nat ?l) (?zs @ ?ds)"
    using c2 by (simp add: cstr_append add.assoc)
  have out: "m2 b = mem s b" if "b \<notin> conv_rng s" for b
    using that l8 store_in_conv [of ?l ?zs b s m1] store_in_conv [of 8 "?ds @ [0]" b s "mem s"]
    by (simp add: m1_def m2_def)
  obtain n t where "puts (?B + of_nat ?l) (s\<lparr>mem := m2\<rparr>) = Some (n, t)" "printed (?zs @ ?ds) s t"
    using printed_conv [OF assms out c] l8 by auto
  moreover have "strlen m1 (?B + 8) = Some (of_nat ?l)" using c1 by (rule strlen_cstr)
  moreover have "fill_zeros m1 ?B (of_nat ?l) = m2" using l8 by (simp add: fill_zeros_eq m2_def)
  ultimately show ?thesis
    using True by (simp add: printf_x_def itoa_con_text m1_def [symmetric] x_text_def)
qed

definition d_text :: "u32 \<Rightarrow> u8 list" where
  "d_text a = (if a <s 0 then of_char CHR ''-'' # num_text 10 (- a) else num_text 10 a)"

lemma printf_d_shows:
  assumes "con_good s" "con_layout s"
  shows "\<exists>t. printf_d a s = Some t \<and> printed (d_text a) s t"
proof -
  let ?B = "conv_buf_at s"
  have store: "(if a <s 0 then store_bytes ((mem s)(?B := of_char CHR ''-'')) (?B + 1) (num_text 10 (- a) @ [0])
      else store_bytes (mem s) ?B (num_text 10 a @ [0])) = store_bytes (mem s) ?B (d_text a @ [0])"
    by (simp add: d_text_def)
  have d: "0 \<notin> set (d_text a)" "length (d_text a) \<le> 33"
    using num_text_facts [of 10 a] num_text_facts [of 10 "- a"] by (auto simp: d_text_def)
  let ?m = "store_bytes (mem s) ?B (d_text a @ [0])"
  have "cstr ?m ?B (d_text a)" using d by (intro cstr_store_same) auto
  then obtain n t where "puts ?B (s\<lparr>mem := ?m\<rparr>) = Some (n, t)" "printed (d_text a) s t"
    using printed_conv [OF assms, of ?m 0 "d_text a"] d
      store_in_conv [of 0 "d_text a @ [0]" _ s "mem s"] by auto
  then show ?thesis
    using store by (auto simp: printf_d_def Let_def itoa_con_text split: if_splits)
qed

text \<open>
  The specification: the text a format and its arguments stand for, on the arguments as
  values. \<^const>\<open>None\<close> for a format that ends in a specifier, for too few arguments and for
  one of the wrong kind.
\<close>

datatype parg = PInt u32 | PStr "u8 list"

fun conv_text :: "bool \<Rightarrow> u8 \<Rightarrow> parg \<Rightarrow> u8 list option" where
  "conv_text alternate c (PInt a) =
     (if c = of_char CHR ''x'' then Some (x_text alternate a)
      else if c = of_char CHR ''u'' then Some (num_text 10 a)
      else if c = of_char CHR ''d'' then Some (d_text a)
      else if c = of_char CHR ''c'' then Some [ucast a]
      else None)"
| "conv_text alternate c (PStr xs) = (if c = of_char CHR ''s'' then Some xs else None)"

definition is_conv :: "u8 \<Rightarrow> bool" where
  "is_conv c \<longleftrightarrow> c \<in> of_char ` {CHR ''x'', CHR ''u'', CHR ''d'', CHR ''c'', CHR ''s''}"

fun render :: "bool option \<Rightarrow> u8 list \<Rightarrow> parg list \<Rightarrow> u8 list option" where
  "render None [] args = Some []"
| "render (Some _) [] args = None"
| "render None (c # fmt) args =
     (if c = of_char CHR ''%'' then render (Some False) fmt args
      else do { out \<leftarrow> render None fmt args; Some (c # out) })"
| "render (Some alternate) (c # fmt) args =
     (if c = of_char CHR ''#'' then render (Some True) fmt args
      else if c = of_char CHR ''%'' then do { out \<leftarrow> render None fmt args; Some (c # out) }
      else if is_conv c then
        (case args of
           [] \<Rightarrow> None
         | a # args' \<Rightarrow> do {
             txt \<leftarrow> conv_text alternate c a;
             out \<leftarrow> render None fmt args';
             Some (txt @ out) })
      else render None fmt args)"

text \<open>The words on the stack that stand for an argument: a string is a pointer to it, and it
  must not lie in the screen or in the conversion buffer.\<close>

fun arg_word :: "'a console_scheme \<Rightarrow> parg \<Rightarrow> u32 \<Rightarrow> bool" where
  "arg_word s (PInt v) a \<longleftrightarrow> a = v"
| "arg_word s (PStr xs) a \<longleftrightarrow> cstr (mem s) a xs \<and> rng a (Suc (length xs)) \<inter> (screen_rng \<union> conv_rng s) = {}"

lemma printed_arg_word:
  "printed cs s t \<Longrightarrow> arg_word s p a \<Longrightarrow> arg_word t p a"
proof (cases p)
  case (PStr xs)
  assume pr: "printed cs s t" and w: "arg_word s p a"
  have "cstr (mem t) a xs = cstr (mem s) a xs"
    using pr w PStr by (intro cstr_cong) (auto simp: printed_def disjoint_iff)
  with pr w PStr show ?thesis by (auto simp: printed_def conv_rng_def)
qed simp

lemma printed_args:
  "printed cs s t \<Longrightarrow> list_all2 (arg_word s) ps args \<Longrightarrow> list_all2 (arg_word t) ps args"
  by (erule list_all2_mono) (rule printed_arg_word)

lemma printed_good: "printed cs s t \<Longrightarrow> con_good t"
  by (simp add: printed_def)

lemma printed_putc: "con_good s \<Longrightarrow> printed [c] s (putc c s)"
  using printed_fold [of s "[c]"] by simp

lemma printf_conv_shows:
  assumes "con_good s" "con_layout s" "is_conv c" "arg_word s p a" "conv_text alternate c p = Some tx"
  shows "\<exists>t. printf_conv alternate c (a # args) s = Some (args, t) \<and> printed tx s t"
proof (cases p)
  case (PInt v)
  with assms printf_x_shows [OF assms(1,2), of alternate a] printf_u_shows [OF assms(1,2), of a]
    printf_d_shows [OF assms(1,2), of a] printed_putc [OF assms(1), of "ucast a"]
  show ?thesis by (auto simp: printf_conv_def split: if_splits)
next
  case (PStr xs)
  then have "\<exists>n t. puts a s = Some (n, t) \<and> printed xs s t"
    using assms by (intro printed_puts) auto
  with PStr assms(5) show ?thesis by (auto simp: printf_conv_def split: if_splits)
qed

lemma printf_loop_renders:
  "render sp fmt ps = Some out \<Longrightarrow> con_good s \<Longrightarrow> con_layout s \<Longrightarrow> list_all2 (arg_word s) ps args \<Longrightarrow>
   \<exists>t. printf_loop sp fmt args s = Some t \<and> printed out s t"
proof (induction sp fmt ps arbitrary: args s out rule: render.induct)
  case (1 ps)
  then show ?case by (auto intro: printed_refl)
next
  case (3 c fmt ps)
  show ?case
  proof (cases "c = of_char CHR ''%''")
    case True
    with 3 show ?thesis by simp
  next
    case False
    then obtain out' where out': "render None fmt ps = Some out'" "out = c # out'"
      using "3.prems"(1) by (auto split: Option.bind_splits)
    have p: "printed [c] s (putc c s)" using "3.prems"(2) by (rule printed_putc)
    have "con_layout (putc c s)" using "3.prems"(3) printed_layout [OF p] by simp
    from "3.IH"(2) [OF False out'(1) printed_good [OF p] this printed_args [OF p "3.prems"(4)]]
    obtain t where "printf_loop None fmt args (putc c s) = Some t" "printed out' (putc c s) t"
      by blast
    with p False out'(2) show ?thesis using printed_trans [OF p] by fastforce
  qed
next
  case (4 alternate c fmt ps)
  consider (alt) "c = of_char CHR ''#''" | (pct) "c = of_char CHR ''%''"
    | (conv) "is_conv c" "c \<noteq> of_char CHR ''#''" "c \<noteq> of_char CHR ''%''"
    | (skip) "\<not> is_conv c" "c \<noteq> of_char CHR ''#''" "c \<noteq> of_char CHR ''%''" by blast
  then show ?case
  proof cases
    case alt
    with 4 show ?thesis by simp
  next
    case pct
    then obtain out' where out': "render None fmt ps = Some out'" "out = c # out'"
      using "4.prems"(1) by (auto split: Option.bind_splits)
    have p: "printed [c] s (putc c s)" using "4.prems"(2) by (rule printed_putc)
    have "\<exists>t. printf_loop None fmt args (putc c s) = Some t \<and> printed out' (putc c s) t"
      using "4.prems" printed_good [OF p] printed_layout [OF p] printed_args [OF p]
      by (intro "4.IH"(2) out'(1)) (auto simp: pct)
    with pct out'(2) show ?thesis using printed_trans [OF p] by (fastforce simp: printf_conv_def)
  next
    case conv
    then obtain p ps' tx out' where r: "ps = p # ps'" "conv_text alternate c p = Some tx"
      "render None fmt ps' = Some out'" "out = tx @ out'"
      using "4.prems"(1) by (auto split: Option.bind_splits list.splits)
    then obtain a args' where args: "args = a # args'" "arg_word s p a" "list_all2 (arg_word s) ps' args'"
      using "4.prems"(4) by (auto simp: list_all2_Cons1)
    obtain t1 where t1: "printf_conv alternate c (a # args') s = Some (args', t1)" "printed tx s t1"
      using printf_conv_shows [OF "4.prems"(2,3) conv(1) args(2) r(2)] by blast
    have "\<exists>t. printf_loop None fmt args' t1 = Some t \<and> printed out' t1 t"
      using "4.prems" printed_good [OF t1(2)] printed_layout [OF t1(2)]
        printed_args [OF t1(2) args(3)]
      by (intro "4.IH"(3) [OF conv(2,3,1) r(1,2,3)]) auto
    with t1 conv args(1) r(4) show ?thesis using printed_trans [OF t1(2)] by fastforce
  next
    case skip
    then have "\<exists>t. printf_loop None fmt args s = Some t \<and> printed out s t"
      using "4.prems" by (intro "4.IH"(4)) auto
    with skip show ?thesis by (auto simp: printf_conv_def is_conv_def)
  qed
qed simp

lemma printf_renders:
  assumes "con_good s" "con_layout s" "list_all2 (arg_word s) ps args" "render None fmt ps = Some out"
  shows "\<exists>t. printf fmt args s = Some (of_nat (length fmt), t) \<and> printed out s t"
  using printf_loop_renders [OF assms(4,1-3)] by (auto simp: printf_def)

section \<open>What the output functions leave alone\<close>

lemma puts_loop_more: "puts_loop p i s = Some (r, t) \<Longrightarrow> console.more t = console.more s"
proof -
  assume "puts_loop p i s = Some (r, t)"
  then have "console.more (snd (r, t)) = console.more s"
    by (rule puts_loop.raw_induct [where P = "\<lambda>p i s rt. console.more (snd rt) = console.more s", rotated])
      (auto split: if_splits)
  then show ?thesis by simp
qed

lemma con_mem_more [simp]: "console.more (s\<lparr>mem := m\<rparr>) = console.more s"
  by (cases s) simp

lemma itoa_con_more: "itoa_con v b r s = Some t \<Longrightarrow> console.more t = console.more s"
  by (auto simp: itoa_con_def bind_eq_Some_conv)

lemma printf_conv_more:
  "printf_conv alternate c args s = Some (args', t) \<Longrightarrow> console.more t = console.more s"
  by (auto simp: printf_conv_def printf_x_def printf_u_def printf_d_def puts_def Let_def bind_eq_Some_conv
      split: if_splits list.splits dest!: puts_loop_more itoa_con_more)

lemma printf_loop_more: "printf_loop sp fmt args s = Some t \<Longrightarrow> console.more t = console.more s"
proof (induction sp fmt args s rule: printf_loop.induct)
  case (4 alternate c fmt args s)
  then show ?case
    by (auto simp: bind_eq_Some_conv split: if_splits) (metis printf_conv_more)
qed (auto split: if_splits)

lemma printf_more: "printf fmt args s = Some (r, t) \<Longrightarrow> console.more t = console.more s"
  by (auto simp: printf_def bind_eq_Some_conv dest: printf_loop_more)

section \<open>The console as a terminal\<close>

text \<open>A machine with an empty memory and a cleared screen.\<close>

definition blank_console :: console where
  "blank_console = clear \<lparr>mem = \<lambda>_. 0, io = [], inq = \<lambda>_. [], eflags = 0,
     screen_x = 0, screen_y = 0, strtok_last = 0, conv_buf_at = 0x700000\<rparr>"

lemma blank_console_good [simp]: "con_good blank_console" "con_layout blank_console"
proof -
  show "con_good blank_console" by (simp add: blank_console_def con_good_def clear_view)
  show "con_layout blank_console"
    unfolding blank_console_def con_layout_def conv_rng_def screen_rng_def clear_frame
    by (simp, rule rng_disjointI) (simp_all add: VIDEO_def)
qed

text \<open>C22. \<open>putc\<close> implements the abstract terminal: on a console whose cursor registers agree
  with its coordinates, every character, newline, carriage return and backspace has the effect
  of \<open>tty_putc\<close> on the 2000 cells and the position, scrolling included; the coordinates stay
  on the screen, and the hardware cursor follows.\<close>

theorem putc_implements_tty:
  assumes "con_good s"
  shows "con_view (putc c s) = tty_putc c (con_view s) \<and> con_good (putc c s)"
  using putc_refines assms by (auto simp: con_good_def)

theorem putc_implements_tty_witness:
  "con_view (putc 0x41 blank_console) =
    \<lparr>cells = (replicate 2000 blank_cell)[0 := (0x41, ATTRIB)], pos = 1\<rparr>"
proof -
  have "con_view (putc 0x41 blank_console) = tty_putc 0x41 (con_view blank_console)"
    using putc_implements_tty [of blank_console "0x41"] by simp
  then show ?thesis by (simp add: blank_console_def clear_view tty_putc_def tty_scroll_def)
qed

text \<open>C17. \<open>printf\<close> renders its format: for every format and every list of arguments that
  fits it (numbers, characters, strings outside the screen and the conversion buffer), it
  returns the length of the format and the terminal shows the text that the specification
  \<open>render\<close> gives, with decimal, unsigned, hexadecimal and zero-padded hexadecimal numbers.\<close>

theorem printf_renders_format:
  assumes "con_good s" "con_layout s" "list_all2 (arg_word s) ps args" "render None fmt ps = Some out"
  shows "\<exists>t. printf fmt args s = Some (of_nat (length fmt), t) \<and>
    con_view t = fold tty_putc out (con_view s) \<and> con_good t"
  using printf_renders [OF assms] by (auto simp: printed_def)

theorem printf_renders_format_witness:
  "\<exists>t. printf (lit ''pid %d = %#x'') [minus_one, 0xBEEF] blank_console = Some (12, t) \<and>
    con_view t = fold tty_putc (lit ''pid -1 = 0000BEEF'') (con_view blank_console)"
proof -
  have one: "num_text 10 1 = lit ''1''"
    unfolding num_text_def by (simp only: unat_1, subst digits.simps) (simp add: digit_char_def)
  have "unat (0xBEEF :: u32) = 0xBEEF" by simp
  moreover have "digits 16 0xBEEF = [0xB, 0xE, 0xE, 0xF]"
    by (subst digits.simps, simp, subst digits.simps, simp, subst digits.simps, simp, subst digits.simps, simp)
  ultimately have hex: "num_text 16 0xBEEF = lit ''BEEF''"
    unfolding num_text_def by (simp add: digit_char_def)
  have four: "replicate 4 (x :: u8) = [x, x, x, x]" for x by (simp add: numeral_eq_Suc)
  have neg: "- minus_one = (1 :: u32)" by simp
  have "render None (lit ''pid %d = %#x'') [PInt minus_one, PInt 0xBEEF] = Some (lit ''pid -1 = 0000BEEF'')"
    by (simp add: is_conv_def d_text_def x_text_def neg one hex sless_0_iff four del: replicate.simps)
  moreover have "list_all2 (arg_word blank_console) [PInt minus_one, PInt 0xBEEF] [minus_one, 0xBEEF]" by simp
  ultimately have "\<exists>t. printf (lit ''pid %d = %#x'') [minus_one, 0xBEEF] blank_console
      = Some (of_nat (length (lit ''pid %d = %#x'')), t) \<and>
    con_view t = fold tty_putc (lit ''pid -1 = 0000BEEF'') (con_view blank_console) \<and> con_good t"
    by (intro printf_renders_format [OF blank_console_good])
  moreover have "(of_nat (length (lit ''pid %d = %#x'')) :: u32) = 12" by simp
  ultimately show ?thesis by auto
qed

end
