(* ===== verification/Pic.thy ===== *)
theory Pic
  imports Console
begin

text \<open>
  The driver of the two 8259 interrupt controllers, \<^verbatim>\<open>student-distrib/i8259.c\<close>: the two
  shadow masks, the initialisation words, unmasking and masking of an IRQ line, and the
  end-of-interrupt commands.
\<close>

section \<open>State and operations\<close>

record pic = console +
  master_mask :: u8
  slave_mask :: u8

definition MASTER_8259_PORT :: u16 where "MASTER_8259_PORT = 0x20"
definition SLAVE_8259_PORT :: u16 where "SLAVE_8259_PORT = 0xA0"
definition MASTER_8259_DATA_PORT :: u16 where "MASTER_8259_DATA_PORT = 0x21"
definition SLAVE_8259_DATA_PORT :: u16 where "SLAVE_8259_DATA_PORT = 0xA1"
definition ICW1 :: u8 where "ICW1 = 0x11"
definition ICW2_MASTER :: u8 where "ICW2_MASTER = 0x20"
definition ICW2_SLAVE :: u8 where "ICW2_SLAVE = 0x28"
definition ICW3_MASTER :: u8 where "ICW3_MASTER = 0x04"
definition ICW3_SLAVE :: u8 where "ICW3_SLAVE = 0x02"
definition ICW4 :: u8 where "ICW4 = 0x01"
definition NUM_IRQ :: u32 where "NUM_IRQ = 0x0F"
definition PIC_IRQ_MASK :: u8 where "PIC_IRQ_MASK = 0xFF"
definition EOI :: u8 where "EOI = 0x60"

lemmas pic_ports = MASTER_8259_PORT_def SLAVE_8259_PORT_def MASTER_8259_DATA_PORT_def
  SLAVE_8259_DATA_PORT_def

definition i8259_init :: "'a machine_scheme \<Rightarrow> 'a machine_scheme" where
  "i8259_init s =
     (let s = outb PIC_IRQ_MASK MASTER_8259_DATA_PORT s;
          s = outb PIC_IRQ_MASK SLAVE_8259_DATA_PORT s;
          s = outb ICW1 MASTER_8259_PORT s;
          s = outb ICW2_MASTER MASTER_8259_DATA_PORT s;
          s = outb ICW3_MASTER MASTER_8259_DATA_PORT s;
          s = outb ICW4 MASTER_8259_DATA_PORT s;
          s = outb ICW1 SLAVE_8259_PORT s;
          s = outb ICW2_SLAVE SLAVE_8259_DATA_PORT s;
          s = outb ICW3_SLAVE SLAVE_8259_DATA_PORT s
      in outb ICW4 SLAVE_8259_DATA_PORT s)"

text \<open>\<^verbatim>\<open>0x1 << n\<close> cut to the 8 bits of a mask.\<close>

definition line_bit :: "u32 \<Rightarrow> u8" where
  "line_bit n = push_bit (unat n) 1"

definition enable_irq :: "u32 \<Rightarrow> 'a pic_scheme \<Rightarrow> 'a pic_scheme" where
  "enable_irq irq_num s =
     (if irq_num > NUM_IRQ then s
      else if irq_num > 7 then
        let irq_num = irq_num - 8;
            s = s\<lparr>slave_mask := slave_mask s AND NOT (line_bit irq_num)\<rparr>;
            s = outb (slave_mask s) SLAVE_8259_DATA_PORT s;
            s = s\<lparr>master_mask := master_mask s AND NOT (line_bit (ucast ICW3_SLAVE))\<rparr>
        in outb (master_mask s) MASTER_8259_DATA_PORT s
      else
        let s = s\<lparr>master_mask := master_mask s AND NOT (line_bit irq_num)\<rparr>
        in outb (master_mask s) MASTER_8259_DATA_PORT s)"

definition disable_irq :: "u32 \<Rightarrow> 'a pic_scheme \<Rightarrow> 'a pic_scheme" where
  "disable_irq irq_num s =
     (if irq_num > NUM_IRQ then s
      else if irq_num > 7 then
        let irq_num = irq_num - 8;
            s = s\<lparr>slave_mask := slave_mask s OR line_bit irq_num\<rparr>;
            s = outb (slave_mask s) SLAVE_8259_DATA_PORT s;
            s = s\<lparr>master_mask := master_mask s OR line_bit (ucast ICW3_SLAVE)\<rparr>
        in outb (master_mask s) MASTER_8259_DATA_PORT s
      else
        let s = s\<lparr>master_mask := master_mask s OR line_bit irq_num\<rparr>
        in outb (master_mask s) MASTER_8259_DATA_PORT s)"

definition send_eoi :: "u32 \<Rightarrow> 'a machine_scheme \<Rightarrow> 'a machine_scheme" where
  "send_eoi irq_num s =
     (if irq_num > NUM_IRQ then s
      else if irq_num > 7 then
        let irq_num = irq_num - 8;
            s = outb (EOI OR ucast irq_num) SLAVE_8259_PORT s
        in outb (EOI OR 2) MASTER_8259_PORT s
      else outb (EOI OR ucast irq_num) MASTER_8259_PORT s)"

section \<open>The controllers behind the ports\<close>

text \<open>
  An 8259 as its data sheet has it: a command with bit 4 set starts an initialisation,
  which clears the interrupt mask and takes the next three bytes on the data port; any
  other byte on the data port is the interrupt mask. The log holds the end-of-interrupt
  commands (bit 5) with the line they name.
\<close>

record chip =
  imr :: u8
  icws_left :: nat
  eois :: "u8 list"

fun chip_step :: "u16 \<Rightarrow> io_event \<Rightarrow> chip \<Rightarrow> chip" where
  "chip_step port (Out p d) c =
     (if p = port then
        (if bit d 4 then c\<lparr>imr := 0, icws_left := 3\<rparr>
         else if bit d 5 then c\<lparr>eois := eois c @ [d AND 7]\<rparr> else c)
      else if p = port + 1 then
        (if icws_left c > 0 then c\<lparr>icws_left := icws_left c - 1\<rparr> else c\<lparr>imr := d\<rparr>)
      else c)"
| "chip_step port (In p d) c = c"

definition chip_at :: "u16 \<Rightarrow> 'a machine_scheme \<Rightarrow> chip" where
  "chip_at port s = fold (chip_step port) (io s) \<lparr>imr = 0, icws_left = 0, eois = []\<rparr>"

abbreviation master :: "'a machine_scheme \<Rightarrow> chip" where "master \<equiv> chip_at MASTER_8259_PORT"
abbreviation slave :: "'a machine_scheme \<Rightarrow> chip" where "slave \<equiv> chip_at SLAVE_8259_PORT"

lemma chip_at_outb: "chip_at port (outb d p s) = chip_step port (Out p d) (chip_at port s)"
  by (simp add: chip_at_def)

lemma chip_at_cong: "io s = io t \<Longrightarrow> chip_at port s = chip_at port t"
  by (simp add: chip_at_def)

text \<open>The line an IRQ number stands for is let through: a slave line also needs the line
  of the master the slave hangs on (2).\<close>

definition irq_open :: "'a machine_scheme \<Rightarrow> nat \<Rightarrow> bool" where
  "irq_open s n \<longleftrightarrow>
     (if n < 8 then \<not> bit (imr (master s)) n
      else n < 16 \<and> \<not> bit (imr (slave s)) (n - 8) \<and> \<not> bit (imr (master s)) 2)"

text \<open>The shadow masks agree with the chips, which are out of their initialisation.\<close>

definition pic_synced :: "'a pic_scheme \<Rightarrow> bool" where
  "pic_synced s \<longleftrightarrow> icws_left (master s) = 0 \<and> icws_left (slave s) = 0 \<and>
     imr (master s) = master_mask s \<and> imr (slave s) = slave_mask s"

text \<open>Right after \<open>i8259_init\<close> both chips take interrupts on every line: the
  initialisation words clear the masks that were written before them.\<close>

lemma i8259_init_chips:
  "imr (master (i8259_init s)) = 0" "imr (slave (i8259_init s)) = 0"
  "icws_left (master (i8259_init s)) = 0" "icws_left (slave (i8259_init s)) = 0"
  by (simp_all add: i8259_init_def Let_def chip_at_outb pic_ports ICW1_def bit_numeral_rec)

section \<open>Masks and lines\<close>

lemma pic_frame_enable [simp, frame_simps]:
  "mem (enable_irq n s) = mem s" "inq (enable_irq n s) = inq s" "eflags (enable_irq n s) = eflags s"
  "screen_x (enable_irq n s) = screen_x s" "screen_y (enable_irq n s) = screen_y s"
  "strtok_last (enable_irq n s) = strtok_last s" "conv_buf_at (enable_irq n s) = conv_buf_at s"
  "pic.more (enable_irq n s) = pic.more s"
  by (simp_all add: enable_irq_def Let_def outb_def)

lemma pic_frame_disable [simp, frame_simps]:
  "mem (disable_irq n s) = mem s" "inq (disable_irq n s) = inq s" "eflags (disable_irq n s) = eflags s"
  "screen_x (disable_irq n s) = screen_x s" "screen_y (disable_irq n s) = screen_y s"
  "strtok_last (disable_irq n s) = strtok_last s" "conv_buf_at (disable_irq n s) = conv_buf_at s"
  "pic.more (disable_irq n s) = pic.more s"
  by (simp_all add: disable_irq_def Let_def outb_def)

lemma send_eoi_frame [simp, frame_simps]:
  "mem (send_eoi n s) = mem s" "inq (send_eoi n s) = inq s" "eflags (send_eoi n s) = eflags s"
  "machine.more (send_eoi n s) = machine.more s"
  by (simp_all add: send_eoi_def Let_def)

lemma bit_line_bit: "unat n < 8 \<Longrightarrow> bit (line_bit n) k \<longleftrightarrow> k = unat n"
  by (auto simp: line_bit_def bit_simps)

lemma chip_at_fields [simp]:
  "chip_at p (s\<lparr>master_mask := a\<rparr>) = chip_at p s" "chip_at p (s\<lparr>slave_mask := b\<rparr>) = chip_at p s"
  by (simp_all add: chip_at_def)

lemma masks_outb [simp]:
  "master_mask (outb d p s) = master_mask s" "slave_mask (outb d p s) = slave_mask s"
  by (simp_all add: outb_def)

text \<open>What the two operations leave in the chips, when no initialisation is under way.\<close>

lemma enable_irq_chips:
  assumes "icws_left (master s) = 0" "icws_left (slave s) = 0"
  shows "n \<le> 7 \<Longrightarrow> imr (master (enable_irq n s)) = master_mask s AND NOT (line_bit n) \<and>
      imr (slave (enable_irq n s)) = imr (slave s) \<and>
      master_mask (enable_irq n s) = master_mask s AND NOT (line_bit n) \<and>
      slave_mask (enable_irq n s) = slave_mask s"
    and "7 < n \<Longrightarrow> n \<le> 15 \<Longrightarrow> imr (master (enable_irq n s)) = master_mask s AND NOT (line_bit 2) \<and>
      imr (slave (enable_irq n s)) = slave_mask s AND NOT (line_bit (n - 8)) \<and>
      master_mask (enable_irq n s) = master_mask s AND NOT (line_bit 2) \<and>
      slave_mask (enable_irq n s) = slave_mask s AND NOT (line_bit (n - 8))"
    and "icws_left (master (enable_irq n s)) = 0" "icws_left (slave (enable_irq n s)) = 0"
  using assms
  by (auto simp: enable_irq_def Let_def chip_at_outb pic_ports NUM_IRQ_def ICW3_SLAVE_def not_less
      word_le_nat_alt word_less_nat_alt)

lemma disable_irq_chips:
  assumes "icws_left (master s) = 0" "icws_left (slave s) = 0"
  shows "n \<le> 7 \<Longrightarrow> imr (master (disable_irq n s)) = master_mask s OR line_bit n \<and>
      imr (slave (disable_irq n s)) = imr (slave s) \<and>
      master_mask (disable_irq n s) = master_mask s OR line_bit n \<and>
      slave_mask (disable_irq n s) = slave_mask s"
    and "7 < n \<Longrightarrow> n \<le> 15 \<Longrightarrow> imr (master (disable_irq n s)) = master_mask s OR line_bit 2 \<and>
      imr (slave (disable_irq n s)) = slave_mask s OR line_bit (n - 8) \<and>
      master_mask (disable_irq n s) = master_mask s OR line_bit 2 \<and>
      slave_mask (disable_irq n s) = slave_mask s OR line_bit (n - 8)"
    and "icws_left (master (disable_irq n s)) = 0" "icws_left (slave (disable_irq n s)) = 0"
  using assms
  by (auto simp: disable_irq_def Let_def chip_at_outb pic_ports NUM_IRQ_def ICW3_SLAVE_def not_less
      word_le_nat_alt word_less_nat_alt)

lemma out_of_range_irq: "15 < n \<Longrightarrow> enable_irq n s = s \<and> disable_irq n s = s"
  by (simp add: enable_irq_def disable_irq_def NUM_IRQ_def)

lemma irq_cases:
  obtains "n \<le> (7 :: u32)" | "7 < n" "n \<le> 15" | "15 < n"
  by fastforce

lemma pic_synced_enable: "pic_synced s \<Longrightarrow> pic_synced (enable_irq n s)"
  by (rule irq_cases [of n])
    (use enable_irq_chips [of s n] out_of_range_irq [of n s] in \<open>auto simp: pic_synced_def\<close>)

lemma pic_synced_disable: "pic_synced s \<Longrightarrow> pic_synced (disable_irq n s)"
  by (rule irq_cases [of n])
    (use disable_irq_chips [of s n] out_of_range_irq [of n s] in \<open>auto simp: pic_synced_def\<close>)

text \<open>A slave line is enabled by writing both chips, which puts them in step with the
  shadows whatever was in them.\<close>

lemma enable_slave_syncs:
  "icws_left (master s) = 0 \<Longrightarrow> icws_left (slave s) = 0 \<Longrightarrow> 7 < n \<Longrightarrow> n \<le> 15 \<Longrightarrow> pic_synced (enable_irq n s)"
  using enable_irq_chips [of s n] by (auto simp: pic_synced_def)

lemma unat_sub8: "7 < n \<Longrightarrow> unat (n - 8 :: u32) = unat n - 8"
  by (simp add: unat_sub word_le_nat_alt word_less_nat_alt)

lemma unat_eq_2: "2 = unat (n :: u32) \<longleftrightarrow> n = 2"
proof
  assume "2 = unat n"
  then have "(of_nat 2 :: u32) = of_nat (unat n)" by (rule arg_cong)
  then show "n = 2" by simp
qed simp

lemma enable_irq_opens:
  assumes "pic_synced s" "n \<le> 15"
  shows "irq_open (enable_irq n s) k \<longleftrightarrow> k = unat n \<and> (k < 8 \<or> k < 16) \<or> irq_open s k \<or>
     7 < n \<and> k = 2 \<or> (7 < n \<or> n = 2) \<and> 8 \<le> k \<and> k < 16 \<and> \<not> bit (slave_mask s) (k - 8)"
proof (cases "n \<le> 7")
  case True
  then have "unat n < 8" by (simp add: word_le_nat_alt)
  moreover have "(2 = unat n) = (n = 2)" by (rule unat_eq_2)
  ultimately show ?thesis
    using enable_irq_chips(1) [of s n] assms True
    by (auto simp: pic_synced_def irq_open_def bit_simps bit_line_bit)
next
  case False
  then have n: "7 < n" by simp
  have "unat (n - 8) < 8" "unat (n - 8) = unat n - 8" "8 \<le> unat n" "unat n < 16"
    using n assms(2) by (auto simp: unat_sub8 word_le_nat_alt word_less_nat_alt)
  then show ?thesis
    using enable_irq_chips(2) [of s n] assms n
    by (auto simp: pic_synced_def irq_open_def bit_simps bit_line_bit)
qed

lemma disable_irq_closes:
  assumes "pic_synced s" "n \<le> 15"
  shows "irq_open (disable_irq n s) k \<longleftrightarrow> irq_open s k \<and> k \<noteq> unat n \<and>
     (n = 2 \<longrightarrow> k < 8) \<and> (7 < n \<longrightarrow> k < 8 \<and> k \<noteq> 2)"
proof (cases "n \<le> 7")
  case True
  then have "unat n < 8" by (simp add: word_le_nat_alt)
  moreover have "(2 = unat n) = (n = 2)" by (rule unat_eq_2)
  ultimately show ?thesis
    using disable_irq_chips(1) [of s n] assms True
    by (auto simp: pic_synced_def irq_open_def bit_simps bit_line_bit)
next
  case False
  then have n: "7 < n" by simp
  have "unat (n - 8) < 8" "unat (n - 8) = unat n - 8" "8 \<le> unat n" "unat n < 16"
    using n assms(2) by (auto simp: unat_sub8 word_le_nat_alt word_less_nat_alt)
  then show ?thesis
    using disable_irq_chips(2) [of s n] assms n
    by (auto simp: pic_synced_def irq_open_def bit_simps bit_line_bit)
qed

text \<open>The end-of-interrupt byte names the line.\<close>

lemma eoi_byte:
  assumes "n \<le> (7 :: u32)"
  shows "\<not> bit (EOI OR ucast n) 4" "bit (EOI OR ucast n) 5" "(EOI OR ucast n) AND 7 = ucast n"
proof -
  have "unat n < 8" using assms by (simp add: word_le_nat_alt)
  then have "n \<in> of_nat ` {..<8}" by (intro image_eqI [of _ _ "unat n"]) simp_all
  then have "n = 0 \<or> n = 1 \<or> n = 2 \<or> n = 3 \<or> n = 4 \<or> n = 5 \<or> n = 6 \<or> n = 7"
    by (auto simp: lessThan_nat_numeral lessThan_Suc)
  then show "\<not> bit (EOI OR ucast n) 4" "bit (EOI OR ucast n) 5" "(EOI OR ucast n) AND 7 = ucast n"
    by (auto simp: EOI_def bit_numeral_rec)
qed

lemma send_eoi_acks:
  "n \<le> 7 \<Longrightarrow> eois (master (send_eoi n s)) = eois (master s) @ [ucast n] \<and>
     eois (slave (send_eoi n s)) = eois (slave s)"
  "7 < n \<Longrightarrow> n \<le> 15 \<Longrightarrow> eois (master (send_eoi n s)) = eois (master s) @ [2] \<and>
     eois (slave (send_eoi n s)) = eois (slave s) @ [ucast (n - 8)]"
  "15 < n \<Longrightarrow> send_eoi n s = s"
proof -
  show "eois (master (send_eoi n s)) = eois (master s) @ [ucast n] \<and>
     eois (slave (send_eoi n s)) = eois (slave s)" if "n \<le> 7"
    using eoi_byte [OF that] that
    by (auto simp: send_eoi_def Let_def chip_at_outb pic_ports NUM_IRQ_def not_less word_le_nat_alt word_less_nat_alt)
  show "eois (master (send_eoi n s)) = eois (master s) @ [2] \<and>
     eois (slave (send_eoi n s)) = eois (slave s) @ [ucast (n - 8)]" if "7 < n" "n \<le> 15"
  proof -
    have "n - 8 \<le> 7" using that by (simp add: unat_sub8 word_le_nat_alt)
    from eoi_byte [OF this] eoi_byte [of 2] that show ?thesis
      by (auto simp: send_eoi_def Let_def chip_at_outb pic_ports NUM_IRQ_def not_less word_le_nat_alt word_less_nat_alt)
  qed
  show "send_eoi n s = s" if "15 < n" using that by (simp add: send_eoi_def NUM_IRQ_def)
qed

section \<open>Which lines are open\<close>

definition reset_pic :: pic where
  "reset_pic = i8259_init \<lparr>mem = \<lambda>_. 0, io = [], inq = \<lambda>_. [], eflags = 0,
     screen_x = 0, screen_y = 0, strtok_last = 0, conv_buf_at = 0x700000, master_mask = 0xFF, slave_mask = 0xFF\<rparr>"

text \<open>Enabling lines 8 and 1 after the initialisation, as the kernel does, leaves exactly
  the keyboard, the cascade and the clock able to interrupt, although the initialisation words
  themselves clear the mask of both chips.\<close>

theorem boot_lines_open:
  assumes "master_mask s = 0xFF" "slave_mask s = 0xFF"
  shows "irq_open (enable_irq 8 (enable_irq 1 (enable_irq 8 (i8259_init s)))) k \<longleftrightarrow> k \<in> {1, 2, 8}"
proof -
  let ?a = "enable_irq 8 (i8259_init s)"
  have chips: "icws_left (master (i8259_init s)) = 0" "icws_left (slave (i8259_init s)) = 0"
    by (rule i8259_init_chips)+
  have masks: "master_mask (i8259_init s) = 0xFF" "slave_mask (i8259_init s) = 0xFF"
    using assms by (simp_all add: i8259_init_def Let_def)
  have ps: "pic_synced ?a" by (rule enable_slave_syncs [OF chips]) simp_all
  note c = enable_irq_chips(2) [OF chips, of 8, simplified]
  have m: "master_mask ?a = 0xFB" "slave_mask ?a = 0xFE"
    using c masks by (simp_all add: line_bit_def)
  have ps1: "pic_synced (enable_irq 1 ?a)" by (rule pic_synced_enable [OF ps])
  have b: "bit (0xFB :: u8) j \<longleftrightarrow> j < 8 \<and> j \<noteq> 2" "bit (0xFE :: u8) j \<longleftrightarrow> j < 8 \<and> j \<noteq> 0" for j
    by (cases "j < 8"; auto simp: less_Suc_eq numeral_eq_Suc bit_numeral_rec dest: bit_imp_le_length)+
  have oa: "irq_open ?a j \<longleftrightarrow> j = 2 \<or> j = 8" for j
  proof -
    have "imr (master ?a) = 0xFB" "imr (slave ?a) = 0xFE" using ps m by (simp_all add: pic_synced_def)
    then show ?thesis unfolding irq_open_def by (simp only: b) auto
  qed
  have s1: "slave_mask (enable_irq 1 ?a) = 0xFE"
    using enable_irq_chips(1) [of ?a 1] ps m by (simp add: pic_synced_def)
  show ?thesis
    unfolding enable_irq_opens [OF ps1, of 8, simplified] enable_irq_opens [OF ps, of 1, simplified] oa s1 m
    unfolding b by auto
qed

theorem boot_lines_open_witness: "irq_open (enable_irq 8 (enable_irq 1 (enable_irq 8 reset_pic))) 1"
  unfolding reset_pic_def by (subst boot_lines_open) simp_all

text \<open>Disabling a line of the slave also closes the cascade, and with it every other line
  of the slave; disabling a line of the master other than the cascade closes that line only.\<close>

theorem disable_irq_lines:
  assumes "pic_synced s" "n \<le> 15"
  shows "irq_open (disable_irq n s) k \<longleftrightarrow> irq_open s k \<and> k \<noteq> unat n \<and>
     (n = 2 \<longrightarrow> k < 8) \<and> (7 < n \<longrightarrow> k < 8 \<and> k \<noteq> 2)"
  using assms by (rule disable_irq_closes)

theorem disable_irq_lines_witness:
  "\<not> irq_open (disable_irq 8 (enable_irq 12 (enable_irq 8 reset_pic))) 12"
proof -
  have "pic_synced (enable_irq 12 (enable_irq 8 reset_pic))"
    unfolding reset_pic_def
    by (intro pic_synced_enable enable_slave_syncs i8259_init_chips) simp_all
  from disable_irq_lines [OF this, of 8 12] show ?thesis by simp
qed

end
