(* ===== verification/Rtc.thy ===== *)
theory Rtc
  imports Pic
begin

text \<open>
  The real-time clock driver, \<^verbatim>\<open>student-distrib/rtc.c\<close>: initialisation, the rate set by
  \<open>rtc_write\<close>, the wait of \<open>rtc_read\<close> for the next tick, and the interrupt handler.
\<close>

section \<open>State and operations\<close>

text \<open>
  \<open>arrivals\<close> is the environment of a busy wait: one entry per turn of the loop of
  \<open>rtc_read\<close>, true where the clock raises its interrupt in that turn.
\<close>

record rtc = pic +
  intflag :: u32
  rtc_call_count :: u32
  arrivals :: "bool list"

definition REG_A :: u8 where "REG_A = 0x8A"
definition REG_B :: u8 where "REG_B = 0x8B"
definition REG_C :: u8 where "REG_C = 0x8C"
definition REG_RTC_SEL :: u16 where "REG_RTC_SEL = 0x70"
definition REG_RTC_VAL :: u16 where "REG_RTC_VAL = 0x71"
definition MASK_RTC :: u8 where "MASK_RTC = 0x40"
definition MASK_RATE :: u8 where "MASK_RATE = 0xF0"

definition rtc_init :: "'a rtc_scheme \<Rightarrow> 'a rtc_scheme" where
  "rtc_init s =
     (let s = outb REG_A REG_RTC_SEL s;
          (v, s) = inb REG_RTC_VAL s; tempA = (ucast v :: u8);
          s = outb REG_A REG_RTC_SEL s;
          s = outb ((tempA AND MASK_RATE) OR drop_bit 4 MASK_RATE) REG_RTC_VAL s;
          s = outb REG_B REG_RTC_SEL s;
          (v, s) = inb REG_RTC_VAL s; tempB = (ucast v :: u8);
          s = outb REG_B REG_RTC_SEL s;
          s = outb (tempB OR MASK_RTC) REG_RTC_VAL s;
          s = enable_irq 8 s
      in s\<lparr>intflag := 0, rtc_call_count := 0\<rparr>)"

text \<open>
  The body of \<open>rtc_write\<close> after \<^verbatim>\<open>frequency\<close> is read. The eighth test is the assignment
  \<^verbatim>\<open>frequency = 256\<close>, which is taken whatever the value was; the ones behind it are as in
  the source.
\<close>

definition rtc_rate :: "u32 \<Rightarrow> u32" where
  "rtc_rate frequency =
     (if frequency = 2 then 0x0F
      else if frequency = 4 then 0x0E
      else if frequency = 8 then 0x0D
      else if frequency = 16 then 0x0C
      else if frequency = 32 then 0x0B
      else if frequency = 64 then 0x0A
      else if frequency = 128 then 0x02
      else let frequency = 256 in
        if frequency \<noteq> 0 then 0x01
        else if frequency = 512 then 0x07
        else if frequency = (1024 :: u32) then 0x06
        else minus_one)"

definition rtc_set :: "u32 \<Rightarrow> 'a machine_scheme \<Rightarrow> u32 \<times> 'a machine_scheme" where
  "rtc_set frequency s =
     (let (flag, s) = cli_and_save s;
          frequency = rtc_rate frequency;
          s = outb REG_A REG_RTC_SEL s;
          (v, s) = inb REG_RTC_VAL s; tempA = (ucast v :: u8);
          s = outb REG_A REG_RTC_SEL s;
          s = outb ((tempA AND 0xF0) OR ucast frequency) REG_RTC_VAL s;
          s = restore_flags flag s
      in (frequency, s))"

definition rtc_write :: "u32 \<Rightarrow> u32 \<Rightarrow> 'a machine_scheme \<Rightarrow> u32 \<times> 'a machine_scheme" where
  "rtc_write buf nbytes s = rtc_set (load32 (mem s) buf) s"

text \<open>\<open>rtc_open\<close> passes \<open>rtc_write\<close> the address of a local that holds 2.\<close>

definition rtc_open :: "'a rtc_scheme \<Rightarrow> u32 \<times> 'a rtc_scheme" where
  "rtc_open s =
     (let (fl, s) = cli_and_save s;
          s = rtc_init s;
          (_, s) = rtc_set 2 s;
          s = restore_flags fl s
      in (0, s))"

definition rtc_interrupt_handler :: "'a rtc_scheme \<Rightarrow> 'a rtc_scheme" where
  "rtc_interrupt_handler s =
     (let s = s\<lparr>intflag := 1\<rparr>;
          s = s\<lparr>rtc_call_count := rtc_call_count s + 1\<rparr>;
          s = outb REG_C REG_RTC_SEL s;
          (_, s) = inb REG_RTC_VAL s
      in send_eoi 8 s)"

text \<open>The assembly wrapper \<open>rtc_handler\<close> of \<^verbatim>\<open>interr.S\<close>: it acknowledges once more.\<close>

definition rtc_handler :: "'a rtc_scheme \<Rightarrow> 'a rtc_scheme" where
  "rtc_handler s = send_eoi 8 (rtc_interrupt_handler s)"

text \<open>\<^const>\<open>None\<close>: the environment ends and the loop is still spinning.\<close>

fun rtc_wait :: "bool list \<Rightarrow> 'a rtc_scheme \<Rightarrow> (u32 \<times> 'a rtc_scheme) option" where
  "rtc_wait [] s = (if intflag s = 1 then Some (0, s\<lparr>intflag := 0, arrivals := []\<rparr>) else None)"
| "rtc_wait (tick # ts) s =
     (if intflag s = 1 then Some (0, s\<lparr>intflag := 0, arrivals := tick # ts\<rparr>)
      else rtc_wait ts (if tick \<and> interrupts_on s then rtc_handler s else s))"

definition rtc_read :: "u32 \<Rightarrow> u32 \<Rightarrow> 'a rtc_scheme \<Rightarrow> (u32 \<times> 'a rtc_scheme) option" where
  "rtc_read buf nbytes s = rtc_wait (arrivals s) s"

definition rtc_read_helper ::
  "u32 \<Rightarrow> u32 \<Rightarrow> u32 \<Rightarrow> u32 \<Rightarrow> 'a rtc_scheme \<Rightarrow> (u32 \<times> 'a rtc_scheme) option" where
  "rtc_read_helper inode read_index buf nbytes s = rtc_read buf nbytes s"

definition rtc_close :: "'a rtc_scheme \<Rightarrow> u32 \<times> 'a rtc_scheme" where
  "rtc_close s = (0, s)"

section \<open>The clock behind the ports\<close>

text \<open>
  The clock's registers as the port accesses leave them: port 0x70 selects (bit 7 is the NMI
  switch), port 0x71 writes the selected register.
\<close>

fun rtc_step :: "io_event \<Rightarrow> u8 \<times> (u8 \<Rightarrow> u8) \<Rightarrow> u8 \<times> (u8 \<Rightarrow> u8)" where
  "rtc_step (Out p d) (sel, regs) =
     (if p = REG_RTC_SEL then (d AND 0x7F, regs)
      else if p = REG_RTC_VAL then (sel, regs(sel := d)) else (sel, regs))"
| "rtc_step (In p d) r = r"

definition rtc_reg :: "'a machine_scheme \<Rightarrow> u8 \<Rightarrow> u8" where
  "rtc_reg s r = snd (fold rtc_step (io s) (0, \<lambda>_. 0)) r"

text \<open>The ticks per second of a rate, as the clock's data sheet has them.\<close>

definition rate_hz :: "nat \<Rightarrow> nat" where
  "rate_hz r = (if r = 0 then 0 else if r = 1 then 256 else if r = 2 then 128 else 32768 div 2 ^ (r - 1))"

definition rtc_hz :: "'a machine_scheme \<Rightarrow> nat" where
  "rtc_hz s = rate_hz (unat (rtc_reg s 0x0A AND 0x0F))"

lemmas rtc_ports = REG_A_def REG_B_def REG_C_def REG_RTC_SEL_def REG_RTC_VAL_def MASK_RTC_def MASK_RATE_def

text \<open>The rates that are set are the ones asked for up to 256 Hz. Every other request, the
  supported 512 and 1024 Hz and the ones that are no power of two included, gets 256 Hz.\<close>

lemma rtc_rate_hz:
  "rate_hz (unat (rtc_rate f)) = (if f \<in> {2, 4, 8, 16, 32, 64, 128} then unat f else 256)"
  by (auto simp: rtc_rate_def rate_hz_def)

lemma rtc_rate_nibble: "unat (rtc_rate f) < 16"
  by (auto simp: rtc_rate_def)

lemma fold_rtc_outb:
  "rtc_reg (outb d REG_RTC_VAL (outb r REG_RTC_SEL s)) (r AND 0x7F) = d"
  by (cases "fold rtc_step (io s) (0, \<lambda>_. 0)") (simp add: rtc_reg_def rtc_ports)

lemma low_nibble:
  assumes "unat v < 16"
  shows "(((a :: u8) AND 0xF0) OR ucast (v :: u32)) AND 0x0F = ucast v" "unat (ucast v :: u8) = unat v"
proof -
  have v: "v = take_bit 4 v" using assms by (simp add: word_unat_eq_iff take_bit_eq_mod unat_mod_distrib)
  have m: "(0xF0 :: u8) = push_bit 4 (mask 4)" "(0x0F :: u8) = mask 4" by (simp_all add: mask_eq_exp_minus_1)
  show "((a AND 0xF0) OR ucast v) AND 0x0F = ucast v"
    unfolding m by (subst (1 2) v) (rule bit_word_eqI, auto simp: bit_simps)
  show "unat (ucast v :: u8) = unat v"
    using assms by (simp add: unsigned_ucast_eq take_bit_eq_mod)
qed

lemma rtc_set_hz:
  "rtc_hz (snd (rtc_set f s)) = (if f \<in> {2, 4, 8, 16, 32, 64, 128} then unat f else 256)"
proof -
  obtain t v where t: "rtc_set f s = (rtc_rate f, restore_flags (eflags s)
      (outb ((v AND 0xF0) OR ucast (rtc_rate f)) REG_RTC_VAL (outb REG_A REG_RTC_SEL t)))"
    by (cases "inb REG_RTC_VAL (outb REG_A REG_RTC_SEL (cli s))")
      (auto simp: rtc_set_def cli_and_save_def Let_def)
  have "rtc_reg (snd (rtc_set f s)) 0x0A = (v AND 0xF0) OR ucast (rtc_rate f)"
    using fold_rtc_outb [of _ REG_A t] by (simp add: t rtc_reg_def REG_A_def)
  then show ?thesis
    by (simp only: rtc_hz_def low_nibble [OF rtc_rate_nibble] rtc_rate_hz)
qed

section \<open>What the clock's operations leave alone\<close>

lemma rtc_set_frame [simp, frame_simps]:
  "mem (snd (rtc_set f s)) = mem s" "eflags (snd (rtc_set f s)) = eflags s"
  "machine.more (snd (rtc_set f s)) = machine.more s" "fst (rtc_set f s) = rtc_rate f"
  by (simp_all add: rtc_set_def cli_and_save_def Let_def inb_def split: prod.split list.split)

lemma rtc_init_frame [simp, frame_simps]:
  "mem (rtc_init s) = mem s" "eflags (rtc_init s) = eflags s"
  "screen_x (rtc_init s) = screen_x s" "screen_y (rtc_init s) = screen_y s"
  "strtok_last (rtc_init s) = strtok_last s" "conv_buf_at (rtc_init s) = conv_buf_at s"
  "intflag (rtc_init s) = 0" "rtc_call_count (rtc_init s) = 0" "rtc.more (rtc_init s) = rtc.more s"
  by (simp_all add: rtc_init_def Let_def inb_def outb_def enable_irq_def split: prod.split list.split)

lemma rtc_handler_frame [simp, frame_simps]:
  "mem (rtc_handler s) = mem s" "eflags (rtc_handler s) = eflags s"
  "screen_x (rtc_handler s) = screen_x s" "screen_y (rtc_handler s) = screen_y s"
  "strtok_last (rtc_handler s) = strtok_last s" "conv_buf_at (rtc_handler s) = conv_buf_at s"
  "intflag (rtc_handler s) = 1" "rtc_call_count (rtc_handler s) = rtc_call_count s + 1"
  "rtc.more (rtc_handler s) = rtc.more s"
  by (simp_all add: rtc_handler_def rtc_interrupt_handler_def Let_def inb_def outb_def send_eoi_def
      split: prod.split list.split)

text \<open>Every interrupt of the clock is acknowledged twice on both chips: by the C handler and
  by its assembly wrapper.\<close>

lemma inb_eois [simp]: "eois (chip_at p (snd (inb q s))) = eois (chip_at p s)"
  by (simp add: inb_def chip_at_def split: list.split)

lemma rtc_handler_eois:
  "eois (slave (rtc_handler s)) = eois (slave s) @ [0, 0]"
  "eois (master (rtc_handler s)) = eois (master s) @ [2, 2]"
proof -
  obtain v t where t: "inb REG_RTC_VAL (outb REG_C REG_RTC_SEL
      (s\<lparr>intflag := 1, rtc_call_count := rtc_call_count s + 1\<rparr>)) = (v, t)"
    by (cases "inb REG_RTC_VAL (outb REG_C REG_RTC_SEL
      (s\<lparr>intflag := 1, rtc_call_count := rtc_call_count s + 1\<rparr>))") auto
  have "eois (chip_at p t) = eois (chip_at p s)" if "p = MASTER_8259_PORT \<or> p = SLAVE_8259_PORT" for p
  proof -
    have "eois (chip_at p t) = eois (chip_at p (outb REG_C REG_RTC_SEL
        (s\<lparr>intflag := 1, rtc_call_count := rtc_call_count s + 1\<rparr>)))"
      using inb_eois [of p REG_RTC_VAL] t by (metis snd_conv)
    with that show ?thesis by (auto simp: chip_at_def pic_ports rtc_ports)
  qed
  moreover have "rtc_handler s = send_eoi 8 (send_eoi 8 t)"
    using t by (simp add: rtc_handler_def rtc_interrupt_handler_def)
  ultimately show "eois (slave (rtc_handler s)) = eois (slave s) @ [0, 0]"
    "eois (master (rtc_handler s)) = eois (master s) @ [2, 2]"
    by (simp_all add: send_eoi_acks(2))
qed

section \<open>The wait for a tick\<close>

lemma rtc_wait_flagged: "intflag s = 1 \<Longrightarrow> rtc_wait ts s = Some (0, s\<lparr>intflag := 0, arrivals := ts\<rparr>)"
  by (cases ts) auto

lemma rtc_wait_masked: "intflag s \<noteq> 1 \<Longrightarrow> \<not> interrupts_on s \<Longrightarrow> rtc_wait ts s = None"
  by (induction ts) auto

lemma rtc_wait_ticks:
  "intflag s \<noteq> 1 \<Longrightarrow> interrupts_on s \<Longrightarrow> rtc_wait ts s =
     (case dropWhile Not ts of [] \<Rightarrow> None
      | _ # rest \<Rightarrow> Some (0, (rtc_handler s)\<lparr>intflag := 0, arrivals := rest\<rparr>))"
  by (induction ts) (auto simp: rtc_wait_flagged)

section \<open>Rates and waiting\<close>


text \<open>\<open>rtc_write\<close> sets the rate that was asked for when that is a power of two up to 128,
  and 256 Hz for every other request, unsupported ones included, since its test for 256 is an
  assignment; the error return -1 is never taken.\<close>

theorem rtc_write_rate:
  "rtc_hz (snd (rtc_write buf n s)) =
     (let f = load32 (mem s) buf in if f \<in> {2, 4, 8, 16, 32, 64, 128} then unat f else 256) \<and>
   fst (rtc_write buf n s) \<noteq> minus_one"
proof
  show "rtc_hz (snd (rtc_write buf n s)) =
     (let f = load32 (mem s) buf in if f \<in> {2, 4, 8, 16, 32, 64, 128} then unat f else 256)"
    unfolding rtc_write_def Let_def by (rule rtc_set_hz)
  have "unat (fst (rtc_write buf n s)) < 16" by (simp add: rtc_write_def rtc_rate_nibble)
  then show "fst (rtc_write buf n s) \<noteq> minus_one" by auto
qed

text \<open>C40. \<open>rtc_read\<close> returns exactly when a tick was noted before the call or one arrives while interrupts are on.
  With a tick noted it returns at once, without waiting for the next one, and takes the note back; otherwise it
  serves the first tick that arrives and takes its note back, so that a second call waits again. With interrupts
  off and no tick noted it spins for ever.\<close>

theorem rtc_read_returns:
  "rtc_read buf n s =
    (if intflag s = 1 then Some (0, s\<lparr>intflag := 0\<rparr>)
     else if \<not> interrupts_on s then None
     else case dropWhile Not (arrivals s) of [] \<Rightarrow> None
       | tick # rest \<Rightarrow> Some (0, (rtc_handler s)\<lparr>intflag := 0, arrivals := rest\<rparr>))"
  by (simp add: rtc_read_def rtc_wait_flagged rtc_wait_masked rtc_wait_ticks split: list.split)

text \<open>One interrupt of the clock, through the wrapper and the handler, notes the tick, counts
  it, and acknowledges it twice on each chip: in the handler and again in its wrapper.\<close>

theorem rtc_interrupt_twice_acknowledged:
  "intflag (rtc_handler s) = 1 \<and> rtc_call_count (rtc_handler s) = rtc_call_count s + 1 \<and>
   eois (slave (rtc_handler s)) = eois (slave s) @ [0, 0] \<and>
   eois (master (rtc_handler s)) = eois (master s) @ [2, 2]"
  by (simp add: rtc_handler_eois)

end
