(* ===== verification/Keyboard.thy ===== *)
theory Keyboard
  imports Rtc
begin

text \<open>
  The keyboard driver, \<^verbatim>\<open>student-distrib/keyboard.c\<close>: the interrupt handler that turns
  scan codes into characters, \<open>getchar\<close>, and the line editor \<open>getline\<close> with its echo.
\<close>

section \<open>State and operations\<close>

record keyboard = rtc +
  ctrl_stat :: u8
  shift_stat :: u8
  alt_stat :: u8
  caps_stat :: u8
  pushed_key :: u16

definition KEYBOARD_DATA_PORT :: u16 where "KEYBOARD_DATA_PORT = 0x60"
definition NUM_CHAR_HANDLE :: u8 where "NUM_CHAR_HANDLE = 58"
definition BS :: u8 where "BS = 8"
definition ESC :: u8 where "ESC = 27"
definition TAB :: u8 where "TAB = 9"
definition CAP :: u8 where "CAP = 13"
definition SHI :: u8 where "SHI = 39"
definition IFT :: u8 where "IFT = 34"
definition CTRL_L :: u8 where "CTRL_L = 12"
definition CTRL :: u8 where "CTRL = 0x1D"
definition SHIFT_LEFT :: u8 where "SHIFT_LEFT = 0x2A"
definition SHIFT_RIGHT :: u8 where "SHIFT_RIGHT = 0x36"
definition ALT :: u8 where "ALT = 0x38"
definition CAPS :: u8 where "CAPS = 0x3A"
definition BACKSPACE :: u8 where "BACKSPACE = 0x0E"
definition KEY_L :: u8 where "KEY_L = 0x26"
definition KEY_ENTER :: u8 where "KEY_ENTER = 0x1C"
definition PR_CONVER :: u8 where "PR_CONVER = 0x80"
definition CAPS_CONVER :: u8 where "CAPS_CONVER = 0x20"
definition CHAR_MASK :: u8 where "CHAR_MASK = 0x7F"
definition ASCII_MAX :: u8 where "ASCII_MAX = 0x7E"
definition ASCII_MIN :: u8 where "ASCII_MIN = 0x20"

lemmas key_codes = CTRL_def SHIFT_LEFT_def SHIFT_RIGHT_def ALT_def CAPS_def BACKSPACE_def KEY_L_def
  KEY_ENTER_def PR_CONVER_def

definition chr_pair :: "char \<Rightarrow> char \<Rightarrow> u8 \<times> u8" where
  "chr_pair a b = (of_char a, of_char b)"

text \<open>The table, row by row as in the source: the plain and the shifted character.\<close>

definition scan2ascii :: "(u8 \<times> u8) list" where
  "scan2ascii =
    [(0, 0), (ESC, ESC), chr_pair CHR ''1'' CHR ''!'', chr_pair CHR ''2'' CHR ''@'',
     chr_pair CHR ''3'' CHR ''#'', chr_pair CHR ''4'' CHR ''$'', chr_pair CHR ''5'' CHR ''%'',
     chr_pair CHR ''6'' CHR ''^''] @
    [chr_pair CHR ''7'' CHR ''&'', chr_pair CHR ''8'' CHR ''*'', chr_pair CHR ''9'' CHR ''('',
     chr_pair CHR ''0'' CHR '')'', chr_pair CHR ''-'' CHR ''_'', chr_pair CHR ''='' CHR ''+'',
     (BS, BS), (TAB, TAB)] @
    [chr_pair CHR ''q'' CHR ''Q'', chr_pair CHR ''w'' CHR ''W'', chr_pair CHR ''e'' CHR ''E'',
     chr_pair CHR ''r'' CHR ''R'', chr_pair CHR ''t'' CHR ''T'', chr_pair CHR ''y'' CHR ''Y'',
     chr_pair CHR ''u'' CHR ''U'', chr_pair CHR ''i'' CHR ''I''] @
    [chr_pair CHR ''o'' CHR ''O'', chr_pair CHR ''p'' CHR ''P'', chr_pair CHR ''['' CHR ''{'',
     chr_pair CHR '']'' CHR ''}'', (CAP, CAP), (0, 0), chr_pair CHR ''a'' CHR ''A'',
     chr_pair CHR ''s'' CHR ''S''] @
    [chr_pair CHR ''d'' CHR ''D'', chr_pair CHR ''f'' CHR ''F'', chr_pair CHR ''g'' CHR ''G'',
     chr_pair CHR ''h'' CHR ''H'', chr_pair CHR ''j'' CHR ''J'', chr_pair CHR ''k'' CHR ''K'',
     chr_pair CHR ''l'' CHR ''L'', chr_pair CHR '';'' CHR '':''] @
    [(SHI, IFT), chr_pair (CHR 0x60) CHR ''~'', (0, 0), chr_pair CHR 0x5C CHR ''|'',
     chr_pair CHR ''z'' CHR ''Z'', chr_pair CHR ''x'' CHR ''X'', chr_pair CHR ''c'' CHR ''C'',
     chr_pair CHR ''v'' CHR ''V''] @
    [chr_pair CHR ''b'' CHR ''B'', chr_pair CHR ''n'' CHR ''N'', chr_pair CHR ''m'' CHR ''M'',
     chr_pair CHR '','' CHR ''<'', chr_pair CHR ''.'' CHR ''>'', chr_pair CHR ''/'' CHR ''?'',
     (0, 0), (0, 0)] @
    [(0, 0), chr_pair CHR '' '' CHR '' '']"

text \<open>\<^verbatim>\<open>scan2ascii[scancode][shift]\<close>; \<open>shift_stat\<close> is only ever 0 or 1.\<close>

definition ascii_of :: "u8 \<Rightarrow> u8 \<Rightarrow> u8" where
  "ascii_of scancode shift =
     (let row = scan2ascii ! unat scancode in if shift = 0 then fst row else snd row)"

text \<open>
  The default branch of the switch, for a key that is no modifier. \<^const>\<open>None\<close> is the early
  return; the \<^verbatim>\<open>break\<close> of control-L leaves the switch with the control character.
\<close>

definition apply_caps :: "u8 \<Rightarrow> u8 \<Rightarrow> u8" where
  "apply_caps caps keycode =
     (if caps \<noteq> 0 then
        if of_char CHR ''a'' \<le> keycode \<and> keycode \<le> of_char CHR ''z'' then keycode - CAPS_CONVER
        else if of_char CHR ''A'' \<le> keycode \<and> keycode \<le> of_char CHR ''Z'' then keycode + CAPS_CONVER
        else keycode
      else keycode)"

definition default_key :: "u8 \<Rightarrow> u8 \<Rightarrow> u8 \<Rightarrow> u8 \<Rightarrow> u8 \<Rightarrow> u8 option" where
  "default_key ctrl shift alt caps scancode =
     (if alt \<noteq> 0 \<and> scancode \<noteq> BACKSPACE then None
      else
        let keycode = (if alt \<noteq> 0 then 8 else 0) in
        if scancode < NUM_CHAR_HANDLE then
          let regular = apply_caps caps (ascii_of scancode shift) in
          if ctrl \<noteq> 0 then
            if scancode = BACKSPACE then Some regular
            else if scancode = KEY_ENTER then Some regular
            else if scancode = KEY_L then
              let keycode = ascii_of scancode 0 in
              if of_char CHR ''a'' \<le> keycode \<and> keycode \<le> of_char CHR ''z''
              then Some (keycode - of_char CHR ''a'' + 1)
              else Some regular
            else None
          else Some regular
        else Some keycode)"

definition key_switch :: "u8 \<Rightarrow> 'a keyboard_scheme \<Rightarrow> 'a keyboard_scheme" where
  "key_switch scancode s =
     (if scancode = CTRL then s\<lparr>ctrl_stat := 1\<rparr>
      else if scancode = CTRL + PR_CONVER then s\<lparr>ctrl_stat := 0\<rparr>
      else if scancode = SHIFT_LEFT \<or> scancode = SHIFT_RIGHT then s\<lparr>shift_stat := 1\<rparr>
      else if scancode = SHIFT_LEFT + PR_CONVER \<or> scancode = SHIFT_RIGHT + PR_CONVER
        then s\<lparr>shift_stat := 0\<rparr>
      else if scancode = ALT then s\<lparr>alt_stat := 1\<rparr>
      else if scancode = ALT + PR_CONVER then s\<lparr>alt_stat := 0\<rparr>
      else if scancode = CAPS then s\<lparr>caps_stat := (if caps_stat s \<noteq> 0 then 0 else 1)\<rparr>
      else if scancode = CAPS + PR_CONVER then s
      else
        case default_key (ctrl_stat s) (shift_stat s) (alt_stat s) (caps_stat s) scancode of
          None \<Rightarrow> s
        | Some keycode \<Rightarrow> if keycode \<noteq> 0 then s\<lparr>pushed_key := ucast keycode\<rparr> else s)"

definition handle_charpress :: "'a keyboard_scheme \<Rightarrow> 'a keyboard_scheme" where
  "handle_charpress s =
     (let (v, s) = inb KEYBOARD_DATA_PORT s; scancode = (ucast v :: u8)
      in key_switch scancode s)"

text \<open>The assembly wrapper \<open>key_handler\<close> of \<^verbatim>\<open>interr.S\<close>.\<close>

definition key_handler :: "'a keyboard_scheme \<Rightarrow> 'a keyboard_scheme" where
  "key_handler s = send_eoi 1 (handle_charpress s)"

definition handle_trap :: "'a console_scheme \<Rightarrow> 'a console_scheme option" where
  "handle_trap s = do { (_, s) \<leftarrow> printf (lit ''System trap was called.'' @ [0x0A]) [] s; Some s }"

text \<open>The switch touches nothing but the variables of the keyboard.\<close>

definition kbd_only :: "'a keyboard_scheme \<Rightarrow> 'a keyboard_scheme \<Rightarrow> bool" where
  "kbd_only s t \<longleftrightarrow> t = s\<lparr>ctrl_stat := ctrl_stat t, shift_stat := shift_stat t, alt_stat := alt_stat t,
     caps_stat := caps_stat t, pushed_key := pushed_key t\<rparr>"

lemma kbd_only_intros:
  "kbd_only s s" "kbd_only s (s\<lparr>ctrl_stat := a\<rparr>)" "kbd_only s (s\<lparr>shift_stat := a\<rparr>)"
  "kbd_only s (s\<lparr>alt_stat := a\<rparr>)" "kbd_only s (s\<lparr>caps_stat := a\<rparr>)" "kbd_only s (s\<lparr>pushed_key := k\<rparr>)"
  "kbd_only s x \<Longrightarrow> kbd_only s y \<Longrightarrow> kbd_only s (if b then x else y)"
  "kbd_only s z \<Longrightarrow> (\<And>c. kbd_only s (g c)) \<Longrightarrow> kbd_only s (case oc of None \<Rightarrow> z | Some c \<Rightarrow> g c)"
  by (simp_all add: kbd_only_def split: option.split)

lemma key_switch_only: "kbd_only s (key_switch c s)"
  unfolding key_switch_def by (intro kbd_only_intros)

lemma kbd_only_frame:
  assumes "kbd_only s t"
  shows "mem t = mem s" "eflags t = eflags s" "io t = io s" "inq t = inq s"
    "screen_x t = screen_x s" "screen_y t = screen_y s"
    "strtok_last t = strtok_last s" "conv_buf_at t = conv_buf_at s"
    "master_mask t = master_mask s" "slave_mask t = slave_mask s"
    "intflag t = intflag s" "rtc_call_count t = rtc_call_count s" "arrivals t = arrivals s"
    "keyboard.more t = keyboard.more s"
  by (subst assms [unfolded kbd_only_def], simp)+

lemmas key_switch_frame [simp, frame_simps] = kbd_only_frame [OF key_switch_only]

lemma inb_split:
  "inb p s = (ucast (if inq s p = [] then 0xFF else hd (inq s p)),
     s\<lparr>io := io s @ [In p (if inq s p = [] then 0xFF else hd (inq s p))], inq := (inq s)(p := tl (inq s p))\<rparr>)"
  by (cases "inq s p") (auto simp: inb_def fun_upd_idem)

lemma handle_charpress_frame [simp, frame_simps]:
  "mem (handle_charpress s) = mem s" "eflags (handle_charpress s) = eflags s"
  "screen_x (handle_charpress s) = screen_x s" "screen_y (handle_charpress s) = screen_y s"
  "strtok_last (handle_charpress s) = strtok_last s" "conv_buf_at (handle_charpress s) = conv_buf_at s"
  "master_mask (handle_charpress s) = master_mask s" "slave_mask (handle_charpress s) = slave_mask s"
  "intflag (handle_charpress s) = intflag s" "rtc_call_count (handle_charpress s) = rtc_call_count s"
  "arrivals (handle_charpress s) = arrivals s"
  "keyboard.more (handle_charpress s) = keyboard.more s"
  "inq (handle_charpress s) = (inq s)(KEYBOARD_DATA_PORT := tl (inq s KEYBOARD_DATA_PORT))"
  by (simp_all add: handle_charpress_def inb_split)

lemma key_handler_frame [simp, frame_simps]:
  "mem (key_handler s) = mem s" "eflags (key_handler s) = eflags s"
  "screen_x (key_handler s) = screen_x s" "screen_y (key_handler s) = screen_y s"
  "strtok_last (key_handler s) = strtok_last s" "conv_buf_at (key_handler s) = conv_buf_at s"
  "master_mask (key_handler s) = master_mask s" "slave_mask (key_handler s) = slave_mask s"
  "intflag (key_handler s) = intflag s" "rtc_call_count (key_handler s) = rtc_call_count s"
  "arrivals (key_handler s) = arrivals s" "keyboard.more (key_handler s) = keyboard.more s"
  "inq (key_handler s) = (inq s)(KEYBOARD_DATA_PORT := tl (inq s KEYBOARD_DATA_PORT))"
  "pushed_key (key_handler s) = pushed_key (handle_charpress s)"
  by (simp_all add: key_handler_def send_eoi_def NUM_IRQ_def outb_def)

section \<open>getchar and getline\<close>

text \<open>
  \<open>getchar\<close> spins until the handler has noted a key. The keys to come are the bytes the
  keyboard will deliver (\<^const>\<open>inq\<close> at its data port): each turn of the loop with
  interrupts on takes one. \<^const>\<open>None\<close> is the loop that never ends: no more keys, or
  interrupts off.
\<close>

definition kbd_weight :: "'a keyboard_scheme \<Rightarrow> nat" where
  "kbd_weight s = 2 * length (inq s KEYBOARD_DATA_PORT) + (if pushed_key s = 0 then 0 else 1)"

function getchar :: "'a keyboard_scheme \<Rightarrow> (u8 \<times> 'a keyboard_scheme) option" where
  "getchar s =
     (if pushed_key s = 0 then
        if interrupts_on s \<and> inq s KEYBOARD_DATA_PORT \<noteq> [] then getchar (key_handler s) else None
      else if pushed_key s < ucast PR_CONVER then Some (ucast (pushed_key s), s\<lparr>pushed_key := 0\<rparr>)
      else getchar (s\<lparr>pushed_key := 0\<rparr>))"
  by pat_completeness auto
termination
proof (relation "measure kbd_weight")
  fix s :: "'a keyboard_scheme"
  assume "pushed_key s = 0" "interrupts_on s \<and> inq s KEYBOARD_DATA_PORT \<noteq> []"
  then show "(key_handler s, s) \<in> measure kbd_weight"
    by (cases "inq s KEYBOARD_DATA_PORT") (auto simp: kbd_weight_def)
qed (auto simp: kbd_weight_def)

declare getchar.simps [simp del]

lemma getchar_less: "getchar s = Some (c, t) \<Longrightarrow> kbd_weight t < kbd_weight s"
proof (induction s rule: getchar.induct)
  case (1 s)
  show ?case
  proof (cases "pushed_key s = 0")
    case True
    with "1.prems" have on: "interrupts_on s \<and> inq s KEYBOARD_DATA_PORT \<noteq> []"
      "getchar (key_handler s) = Some (c, t)"
      by (auto simp: getchar.simps [of s] split: if_splits)
    from "1.IH"(1) [OF True on] have "kbd_weight t < kbd_weight (key_handler s)" .
    also have "\<dots> < kbd_weight s"
      using True on by (cases "inq s KEYBOARD_DATA_PORT") (auto simp: kbd_weight_def)
    finally show ?thesis .
  next
    case False
    show ?thesis
    proof (cases "pushed_key s < ucast PR_CONVER")
      case True
      with False "1.prems" show ?thesis by (auto simp: getchar.simps [of s] kbd_weight_def)
    next
      case F: False
      with False "1.prems" have "getchar (s\<lparr>pushed_key := 0\<rparr>) = Some (c, t)"
        by (simp add: getchar.simps [of s])
      from "1.IH"(2) [OF False F this] False show ?thesis by (simp add: kbd_weight_def)
    qed
  qed
qed

lemma console_more_kbd:
  assumes "console.more (s :: 'a keyboard_scheme) = console.more t"
  shows "ctrl_stat s = ctrl_stat t" "shift_stat s = shift_stat t" "alt_stat s = alt_stat t"
    "caps_stat s = caps_stat t" "pushed_key s = pushed_key t"
    "master_mask s = master_mask t" "slave_mask s = slave_mask t" "intflag s = intflag t"
    "rtc_call_count s = rtc_call_count t" "arrivals s = arrivals t" "keyboard.more s = keyboard.more t"
  using assms by (cases s; cases t; simp)+

lemmas putc_kbd [simp, frame_simps] = console_more_kbd [OF putc_frame(5)]
lemmas clear_kbd [simp, frame_simps] = console_more_kbd [OF clear_frame(5)]

lemma echo_weight [simp]:
  "kbd_weight (putc c s) = kbd_weight s" "kbd_weight (clear s) = kbd_weight s"
  "kbd_weight (s\<lparr>mem := m\<rparr>) = kbd_weight s"
  by (simp_all add: kbd_weight_def)

text \<open>\<open>lp\<close> walks over the buffer; the comparisons of pointers are unsigned, \<^verbatim>\<open>lp - buf\<close> and
  \<open>max\<close> are signed.\<close>

function getline_loop ::
  "u32 \<Rightarrow> u32 \<Rightarrow> u32 \<Rightarrow> 'a keyboard_scheme \<Rightarrow> (u32 \<times> 'a keyboard_scheme) option" where
  "getline_loop buf max_len lp s =
     (case getchar s of
        None \<Rightarrow> None
      | Some (key, s1) \<Rightarrow>
          let c = key AND CHAR_MASK in
          if c = 0x0A \<or> c = 0x0D then
            Some (lp - buf, putc 0x0A (s1\<lparr>mem := (mem s1)(lp := 0)\<rparr>))
          else if c = 0x08 \<or> c = 0x7F then
            if lp > buf then getline_loop buf max_len (lp - 1) (putc 0x08 s1)
            else getline_loop buf max_len lp s1
          else if c = CTRL_L then getline_loop buf max_len buf (clear s1)
          else if max_len \<le>s lp - buf then getline_loop buf max_len lp s1
          else if ASCII_MIN \<le> c \<and> c \<le> ASCII_MAX then
            getline_loop buf max_len (lp + 1) (putc c (s1\<lparr>mem := (mem s1)(lp := c)\<rparr>))
          else getline_loop buf max_len lp s1)"
  by pat_completeness auto
termination
  by (relation "measure (\<lambda>(buf, max_len, lp, s). kbd_weight s)") (auto dest: getchar_less)

declare getline_loop.simps [simp del]

definition getline :: "u32 \<Rightarrow> u32 \<Rightarrow> 'a keyboard_scheme \<Rightarrow> (u32 \<times> 'a keyboard_scheme) option" where
  "getline buf max_len s = getline_loop buf max_len buf s"

text \<open>One turn of the endless loop of \<open>terminal\<close>; \<open>buf\<close> is its local buffer of 128 bytes.\<close>

definition terminal_turn :: "u32 \<Rightarrow> 'a keyboard_scheme \<Rightarrow> (u32 \<times> 'a keyboard_scheme) option" where
  "terminal_turn buf s = getline buf 128 s"

section \<open>From scan codes to characters\<close>

text \<open>The keyboard as a transducer: its state, a scan code, the next state and the character
  (0 for none).\<close>

type_synonym kbd = "u8 \<times> u8 \<times> u8 \<times> u8"

definition kbd_of :: "'a keyboard_scheme \<Rightarrow> kbd" where
  "kbd_of s = (ctrl_stat s, shift_stat s, alt_stat s, caps_stat s)"

fun kbd_press :: "kbd \<Rightarrow> u8 \<Rightarrow> kbd \<times> u8" where
  "kbd_press (ctrl, shift, alt, caps) k =
     (if k = CTRL then ((1, shift, alt, caps), 0)
      else if k = CTRL + PR_CONVER then ((0, shift, alt, caps), 0)
      else if k = SHIFT_LEFT \<or> k = SHIFT_RIGHT then ((ctrl, 1, alt, caps), 0)
      else if k = SHIFT_LEFT + PR_CONVER \<or> k = SHIFT_RIGHT + PR_CONVER then ((ctrl, 0, alt, caps), 0)
      else if k = ALT then ((ctrl, shift, 1, caps), 0)
      else if k = ALT + PR_CONVER then ((ctrl, shift, 0, caps), 0)
      else if k = CAPS then ((ctrl, shift, alt, if caps \<noteq> 0 then 0 else 1), 0)
      else if k = CAPS + PR_CONVER then ((ctrl, shift, alt, caps), 0)
      else ((ctrl, shift, alt, caps),
            case default_key ctrl shift alt caps k of None \<Rightarrow> 0 | Some c \<Rightarrow> c))"

lemma key_switch_press:
  "kbd_of (key_switch k s) = fst (kbd_press (kbd_of s) k)"
  "pushed_key (key_switch k s) =
     (if snd (kbd_press (kbd_of s) k) = 0 then pushed_key s else ucast (snd (kbd_press (kbd_of s) k)))"
proof -
  have *: "kbd_of (key_switch k s) = fst (kbd_press (kbd_of s) k) \<and>
    pushed_key (key_switch k s) = (if snd (kbd_press (kbd_of s) k) = 0 then pushed_key s
      else ucast (snd (kbd_press (kbd_of s) k)))"
    unfolding key_switch_def kbd_of_def kbd_press.simps
    by (cases "default_key (ctrl_stat s) (shift_stat s) (alt_stat s) (caps_stat s) k")
      (simp_all split del: if_split add: if_distrib [of fst] if_distrib [of snd] cong: if_cong, simp_all)
  then show "kbd_of (key_switch k s) = fst (kbd_press (kbd_of s) k)"
    "pushed_key (key_switch k s) = (if snd (kbd_press (kbd_of s) k) = 0 then pushed_key s
      else ucast (snd (kbd_press (kbd_of s) k)))" by blast+
qed

lemma key_handler_press:
  assumes "inq s KEYBOARD_DATA_PORT = k # ks"
  shows "kbd_of (key_handler s) = fst (kbd_press (kbd_of s) k)"
    "pushed_key (key_handler s) =
      (if snd (kbd_press (kbd_of s) k) = 0 then pushed_key s else ucast (snd (kbd_press (kbd_of s) k)))"
proof -
  have id: "(ucast (ucast k :: u32) :: u8) = k" by (rule bit_word_eqI) (auto simp: bit_simps)
  define t where "t = s\<lparr>io := io s @ [In KEYBOARD_DATA_PORT k], inq := (inq s)(KEYBOARD_DATA_PORT := ks)\<rparr>"
  have t: "handle_charpress s = key_switch k t" "kbd_of t = kbd_of s" "pushed_key t = pushed_key s"
    using assms by (simp_all add: handle_charpress_def inb_split kbd_of_def t_def id)
  have "kbd_of (key_handler s) = kbd_of (handle_charpress s)"
    by (simp add: key_handler_def send_eoi_def NUM_IRQ_def outb_def kbd_of_def)
  with t show "kbd_of (key_handler s) = fst (kbd_press (kbd_of s) k)"
    "pushed_key (key_handler s) =
      (if snd (kbd_press (kbd_of s) k) = 0 then pushed_key s else ucast (snd (kbd_press (kbd_of s) k)))"
    by (simp_all add: key_switch_press)
qed

text \<open>The characters a sequence of scan codes stands for.\<close>

fun chars :: "kbd \<Rightarrow> u8 list \<Rightarrow> u8 list" where
  "chars st [] = []"
| "chars st (k # ks) =
     (case kbd_press st k of (st', c) \<Rightarrow> (if c \<noteq> 0 \<and> c < 0x80 then [c] else []) @ chars st' ks)"

text \<open>\<open>idle s t\<close>: between \<open>s\<close> and \<open>t\<close> only keys were taken.\<close>

definition idle :: "'a keyboard_scheme \<Rightarrow> 'a keyboard_scheme \<Rightarrow> bool" where
  "idle s t \<longleftrightarrow> mem t = mem s \<and> eflags t = eflags s \<and> con_view t = con_view s \<and>
     con_good t = con_good s \<and> strtok_last t = strtok_last s \<and> conv_buf_at t = conv_buf_at s \<and>
     keyboard.more t = keyboard.more s"

lemma idle_refl: "idle s s"
  and idle_trans: "idle s t \<Longrightarrow> idle t u \<Longrightarrow> idle s u"
  by (simp_all add: idle_def)

lemma idle_key_handler: "idle s (key_handler s)"
proof -
  have "crtc_cursor (io (key_handler s)) = crtc_cursor (io s)"
    by (cases "fold crtc_step (io s) (0, 0, 0)")
      (simp add: key_handler_def send_eoi_def NUM_IRQ_def handle_charpress_def inb_split crtc_cursor_def
        VGA_PORT_def pic_ports)
  then show ?thesis
    by (simp add: idle_def con_good_def con_ok_def cursor_ok_def con_view_def)
qed

lemma idle_pushed: "idle s (s\<lparr>pushed_key := k\<rparr>)"
  by (simp add: idle_def con_good_def con_ok_def cursor_ok_def con_view_def)

lemma ucast_u8_16: "(ucast (ucast (c :: u8) :: u16) :: u8) = c" "(ucast c :: u16) = 0 \<longleftrightarrow> c = 0"
  "(ucast c :: u16) < 0x80 \<longleftrightarrow> c < 0x80"
proof -
  show "(ucast (ucast c :: u16) :: u8) = c" by (rule bit_word_eqI) (auto simp: bit_simps)
  show "(ucast c :: u16) = 0 \<longleftrightarrow> c = 0"
    by (metis \<open>(ucast (ucast c :: u16) :: u8) = c\<close> ucast_0)
  have "unat (ucast c :: u16) = unat c"
    using unsigned_less [of c, where ?'a = nat] by (simp add: unsigned_ucast_eq take_bit_eq_mod)
  then show "(ucast c :: u16) < 0x80 \<longleftrightarrow> c < 0x80" by (simp add: word_less_nat_alt)
qed

text \<open>\<open>getchar\<close> hands out the characters one by one, and waits for ever when there is none.\<close>

lemma getchar_chars:
  assumes "interrupts_on s" "pushed_key s = 0"
  shows "case chars (kbd_of s) (inq s KEYBOARD_DATA_PORT) of
      [] \<Rightarrow> getchar s = None
    | c # cs \<Rightarrow> \<exists>t. getchar s = Some (c, t) \<and> c < 0x80 \<and> pushed_key t = 0 \<and> idle s t \<and>
        chars (kbd_of t) (inq t KEYBOARD_DATA_PORT) = cs"
  using assms
proof (induction "inq s KEYBOARD_DATA_PORT" arbitrary: s)
  case Nil
  then show ?case by (simp add: getchar.simps [of s])
next
  case (Cons k ks)
  obtain st' c where pr: "kbd_press (kbd_of s) k = (st', c)" by fastforce
  let ?t = "key_handler s"
  have step: "getchar s = getchar ?t"
    using Cons.prems Cons.hyps(2) by (subst getchar.simps) auto
  have kb: "kbd_of ?t = st'" "pushed_key ?t = (if c = 0 then 0 else ucast c)"
    using key_handler_press [of s k ks] Cons.hyps(2) Cons.prems pr by simp_all
  have q: "inq ?t KEYBOARD_DATA_PORT = ks" using Cons.hyps(2) by (metis key_handler_frame(13) fun_upd_same list.sel(3))
  have on: "interrupts_on ?t" using Cons.prems by (simp add: interrupts_on_def)
  have ch: "chars (kbd_of s) (k # ks) = (if c \<noteq> 0 \<and> c < 0x80 then [c] else []) @ chars st' ks"
    using pr by simp
  show ?case
  proof (cases "c \<noteq> 0 \<and> c < 0x80")
    case True
    let ?u = "?t\<lparr>pushed_key := 0\<rparr>"
    have "getchar ?t = Some (c, ?u)"
      using True kb by (subst getchar.simps) (simp add: PR_CONVER_def ucast_u8_16)
    moreover have "idle s ?u" using idle_trans [OF idle_key_handler idle_pushed] .
    moreover have "kbd_of ?u = st'" using kb by (simp add: kbd_of_def)
    ultimately show ?thesis
      using True q step ch unfolding Cons.hyps(2) [symmetric] by (auto simp: q)
  next
    case False
    define u where "u = ?t\<lparr>pushed_key := 0\<rparr>"
    have "getchar ?t = getchar u"
    proof (cases "c = 0")
      case True
      then have "u = ?t" using kb by (simp add: u_def)
      then show ?thesis by simp
    next
      case c: False
      with False kb show ?thesis
        unfolding u_def by (subst getchar.simps) (simp add: PR_CONVER_def ucast_u8_16)
    qed
    moreover have u: "kbd_of u = st'" "pushed_key u = 0" "interrupts_on u" "inq u KEYBOARD_DATA_PORT = ks"
      using kb on q by (simp_all add: u_def kbd_of_def interrupts_on_def)
    moreover have "idle s u" unfolding u_def by (rule idle_trans [OF idle_key_handler idle_pushed])
    ultimately show ?thesis
      using Cons.hyps(1) [OF u(4) [symmetric] u(3,2)] step ch False
      unfolding Cons.hyps(2) [symmetric]
      by (auto simp: u split: list.splits intro: idle_trans)
  qed
qed

section \<open>The line editor\<close>

text \<open>
  The specification of \<open>getline\<close>: characters edit a line and echo on the abstract terminal
  until a newline; the line, the screen and the characters left over are the result.
\<close>

definition printable :: "u8 \<Rightarrow> bool" where
  "printable c \<longleftrightarrow> ASCII_MIN \<le> c \<and> c \<le> ASCII_MAX"

definition blank_tty :: tty where
  "blank_tty = \<lparr>cells = replicate 2000 blank_cell, pos = 0\<rparr>"

fun edit_line :: "nat \<Rightarrow> u8 list \<Rightarrow> u8 list \<Rightarrow> tty \<Rightarrow> (u8 list \<times> tty \<times> u8 list) option" where
  "edit_line limit [] xs t = None"
| "edit_line limit (c # cs) xs t =
     (if c = 0x0A \<or> c = 0x0D then Some (xs, tty_putc 0x0A t, cs)
      else if c = 0x08 \<or> c = 0x7F then
        (if xs \<noteq> [] then edit_line limit cs (butlast xs) (tty_putc 0x08 t) else edit_line limit cs xs t)
      else if c = CTRL_L then edit_line limit cs [] blank_tty
      else if length xs < limit \<and> printable c then edit_line limit cs (xs @ [c]) (tty_putc c t)
      else edit_line limit cs xs t)"

text \<open>The line never grows over the limit and holds printable characters only.\<close>

lemma edit_line_text:
  "edit_line limit cs xs t = Some (ys, t', rest) \<Longrightarrow> length xs \<le> limit \<Longrightarrow> list_all printable xs \<Longrightarrow>
   length ys \<le> limit \<and> list_all printable ys"
proof (induction limit cs xs t rule: edit_line.induct)
  case (2 limit c cs xs t)
  have "list_all printable (butlast xs)"
    using "2.prems"(3) by (auto simp: list_all_iff dest: in_set_butlastD)
  with 2 show ?case by (auto split: if_splits)
qed simp

text \<open>It returns exactly when a newline was typed.\<close>

lemma edit_line_returns: "edit_line limit cs xs t = None \<longleftrightarrow> 0x0A \<notin> set cs \<and> 0x0D \<notin> set cs"
  by (induction limit cs xs t rule: edit_line.induct) auto

definition line_at :: "u32 \<Rightarrow> nat \<Rightarrow> u8 list \<Rightarrow> u32 \<Rightarrow> 'a keyboard_scheme \<Rightarrow> bool" where
  "line_at buf limit xs lp s \<longleftrightarrow> con_good s \<and> interrupts_on s \<and> pushed_key s = 0 \<and>
     lp = buf + of_nat (length xs) \<and> length xs \<le> limit \<and> bytes_at (mem s) buf (length xs) = xs"

text \<open>What \<open>getline\<close> leaves alone: everything but the screen, its buffer and the keyboard.\<close>

definition line_kept :: "u32 set \<Rightarrow> 'a keyboard_scheme \<Rightarrow> 'a keyboard_scheme \<Rightarrow> bool" where
  "line_kept A s t \<longleftrightarrow> (\<forall>b. b \<notin> screen_rng \<longrightarrow> b \<notin> A \<longrightarrow> mem t b = mem s b) \<and> eflags t = eflags s \<and>
     strtok_last t = strtok_last s \<and> conv_buf_at t = conv_buf_at s \<and> keyboard.more t = keyboard.more s"

lemma line_kept_trans: "line_kept A s t \<Longrightarrow> line_kept A t u \<Longrightarrow> line_kept A s u"
  by (simp add: line_kept_def)

lemma idle_line_kept: "idle s t \<Longrightarrow> line_kept A s t"
  by (simp add: idle_def line_kept_def)

lemma line_kept_putc: "con_good s \<Longrightarrow> line_kept A s (putc c s)"
  by (simp add: line_kept_def con.emit_bytes)

lemma line_kept_clear: "line_kept A s (clear s)"
  by (simp add: line_kept_def clear_mem)

lemma line_kept_store: "a \<in> A \<Longrightarrow> line_kept A s (s\<lparr>mem := (mem s)(a := v)\<rparr>)"
  by (auto simp: line_kept_def)

lemma con_store:
  "a \<notin> screen_rng \<Longrightarrow> con_view (s\<lparr>mem := (mem s)(a := v)\<rparr>) = con_view s"
  "a \<notin> screen_rng \<Longrightarrow> con_good (s\<lparr>mem := (mem s)(a := v)\<rparr>) = con_good s"
proof -
  assume "a \<notin> screen_rng"
  then have "screen ((mem s)(a := v)) = screen (mem s)" by (intro screen_cong) auto
  then show "con_view (s\<lparr>mem := (mem s)(a := v)\<rparr>) = con_view s"
    "con_good (s\<lparr>mem := (mem s)(a := v)\<rparr>) = con_good s"
    by (simp_all add: con_view_def con_good_def con_ok_def cursor_ok_def)
qed

lemma bytes_at_putc:
  "con_good s \<Longrightarrow> rng buf n \<inter> screen_rng = {} \<Longrightarrow> bytes_at (mem (putc c s)) buf n = bytes_at (mem s) buf n"
  by (rule bytes_at_cong) (auto simp: con.emit_bytes disjoint_iff)

lemma bytes_at_clear:
  "rng buf n \<inter> screen_rng = {} \<Longrightarrow> bytes_at (mem (clear s)) buf n = bytes_at (mem s) buf n"
  by (rule bytes_at_cong) (auto simp: clear_mem disjoint_iff)

text \<open>The parameters of a call: a buffer of \<open>limit + 1\<close> bytes that does not wrap.\<close>

definition line_buffer :: "u32 \<Rightarrow> nat \<Rightarrow> bool" where
  "line_buffer buf limit \<longleftrightarrow> limit < 2 ^ 31 \<and> unat buf + limit < 2 ^ 32 \<and>
     rng buf (Suc limit) \<inter> screen_rng = {}"

lemma at_in: "n \<le> limit \<Longrightarrow> buf + of_nat n \<in> rng buf (Suc limit)"
  unfolding rng_def by (rule image_eqI [of _ _ n]) auto

lemma at_apart: "line_buffer buf limit \<Longrightarrow> n \<le> limit \<Longrightarrow> buf + of_nat n \<notin> screen_rng"
  using at_in [of n limit buf] unfolding line_buffer_def by blast

lemma sub_apart: "line_buffer buf limit \<Longrightarrow> n \<le> Suc limit \<Longrightarrow> rng buf n \<inter> screen_rng = {}"
  using rng_mono [of n "Suc limit" buf] unfolding line_buffer_def by blast

lemma past_empty: "line_buffer buf limit \<Longrightarrow> n \<le> limit \<Longrightarrow> buf < buf + of_nat n \<longleftrightarrow> n \<noteq> 0"
  by (simp add: line_buffer_def word_less_nat_alt unat_add_nat)

lemma buffer_full:
  "line_buffer buf limit \<Longrightarrow> n \<le> limit \<Longrightarrow> of_nat limit \<le>s (of_nat n :: u32) \<longleftrightarrow> limit \<le> n"
  by (simp add: line_buffer_def word_sle_eq sint_of_nat)

lemma line_add:
  assumes "line_at buf limit xs (buf + of_nat (length xs)) s" "length xs < limit"
    and lb: "line_buffer buf limit"
  shows "line_at buf limit (xs @ [c]) (buf + of_nat (length xs) + 1)
      (putc c (s\<lparr>mem := (mem s)(buf + of_nat (length xs) := c)\<rparr>))"
proof -
  let ?s = "s\<lparr>mem := (mem s)(buf + of_nat (length xs) := c)\<rparr>"
  have out: "buf + of_nat (length xs) \<notin> screen_rng" using assms(2) by (intro at_apart [OF lb]) simp
  have g: "con_good ?s" using assms(1) con_store(2) [OF out, of s c] by (simp add: line_at_def)
  have "buf + of_nat (length xs) \<notin> rng buf (length xs)"
    using assms(2) lb by (simp add: mem_rng_iff unat_of_nat line_buffer_def)
  then have "bytes_at (mem ?s) buf (Suc (length xs)) = xs @ [c]"
    using assms(1) bytes_at_add [of "mem ?s" buf "length xs" 1]
    by (simp add: line_at_def bytes_at_fun_upd)
  moreover have "bytes_at (mem (putc c ?s)) buf (Suc (length xs)) = bytes_at (mem ?s) buf (Suc (length xs))"
    using assms(2) by (intro bytes_at_putc [OF g] sub_apart [OF lb]) simp
  ultimately show ?thesis
    using assms con.emit_good [OF g] by (simp add: line_at_def interrupts_on_def add.assoc add.commute)
qed

lemma line_drop:
  assumes "line_at buf limit xs (buf + of_nat (length xs)) s" "xs \<noteq> []"
    and lb: "line_buffer buf limit"
  shows "line_at buf limit (butlast xs) (buf + of_nat (length xs) - 1) (putc 0x08 s)"
proof -
  obtain ys y where xs: "xs = ys @ [y]" using assms(2) by (cases xs rule: rev_cases) auto
  have g: "con_good s" using assms(1) by (simp add: line_at_def)
  have "bytes_at (mem s) buf (length ys) = ys"
    using assms(1) take_bytes_at [of "length ys" "Suc (length ys)" "mem s" buf] xs
    by (simp add: line_at_def)
  moreover have "rng buf (length ys) \<inter> screen_rng = {}"
    using assms(1) xs by (intro sub_apart [OF lb]) (simp add: line_at_def)
  ultimately show ?thesis
    using assms(1) xs con.emit_good [OF g]
    by (simp add: line_at_def interrupts_on_def bytes_at_putc [OF g])
qed

lemma line_clear:
  "line_at buf limit xs lp s \<Longrightarrow> line_at buf limit [] buf (clear s)"
  by (simp add: line_at_def interrupts_on_def con_good_def clear_view)

lemma line_idle:
  "line_at buf limit xs lp s \<Longrightarrow> idle s t \<Longrightarrow> pushed_key t = 0 \<Longrightarrow> line_at buf limit xs lp t"
  by (simp add: line_at_def idle_def interrupts_on_def)

lemma printable_nz: "printable c \<Longrightarrow> c \<noteq> 0"
  by (auto simp: printable_def ASCII_MIN_def)

lemma mask_char: "c < 0x80 \<Longrightarrow> c AND CHAR_MASK = (c :: u8)"
proof -
  assume "c < 0x80"
  then have "unat c < 2 ^ 7" by (simp add: word_less_nat_alt)
  then have "take_bit 7 c = c" by (simp add: word_unat_eq_iff unsigned_take_bit_eq take_bit_nat_eq_self)
  moreover have "CHAR_MASK = mask 7" by (simp add: CHAR_MASK_def mask_eq_exp_minus_1)
  ultimately show "c AND CHAR_MASK = c" by (metis take_bit_eq_mask)
qed

lemma kbd_of_frame [simp]:
  "kbd_of (putc c s) = kbd_of s" "kbd_of (clear s) = kbd_of s" "kbd_of (s\<lparr>mem := m\<rparr>) = kbd_of s"
  by (simp_all add: kbd_of_def)

lemma getline_loop_edits:
  assumes lb: "line_buffer buf limit"
  shows "line_at buf limit xs (buf + of_nat (length xs)) s \<Longrightarrow>
    list_all printable xs \<Longrightarrow>
    case edit_line limit (chars (kbd_of s) (inq s KEYBOARD_DATA_PORT)) xs (con_view s) of
      None \<Rightarrow> getline_loop buf (of_nat limit) (buf + of_nat (length xs)) s = None
    | Some (ys, view, rest) \<Rightarrow>
        \<exists>t. getline_loop buf (of_nat limit) (buf + of_nat (length xs)) s = Some (of_nat (length ys), t) \<and>
          con_good t \<and> con_view t = view \<and> cstr (mem t) buf ys \<and>
          chars (kbd_of t) (inq t KEYBOARD_DATA_PORT) = rest \<and> line_kept (rng buf (Suc limit)) s t"
proof (induction "chars (kbd_of s) (inq s KEYBOARD_DATA_PORT)" arbitrary: xs s)
  case Nil
  then have "getchar s = None" using getchar_chars [of s] by (simp add: line_at_def)
  then show ?case using Nil.hyps by (simp add: getline_loop.simps)
next
  case (Cons c cs)
  then obtain s1 where s1: "getchar s = Some (c, s1)" "c < 0x80" "pushed_key s1 = 0" "idle s s1"
    "chars (kbd_of s1) (inq s1 KEYBOARD_DATA_PORT) = cs"
    using getchar_chars [of s] by (auto simp: line_at_def simp flip: Cons.hyps(2))
  let ?A = "rng buf (Suc limit)" and ?lp = "buf + of_nat (length xs)"
  have at: "line_at buf limit xs ?lp s1" by (rule line_idle [OF Cons.prems(1) s1(4,3)])
  have len: "length xs \<le> limit" and g: "con_good s1" using at by (simp_all add: line_at_def)
  have view: "con_view s1 = con_view s" using s1(4) by (simp add: idle_def)
  have kept: "line_kept ?A s s1" using s1(4) by (rule idle_line_kept)
  have loop: "getline_loop buf (of_nat limit) ?lp s = (let s = s1 in
      if c = 0x0A \<or> c = 0x0D then Some (?lp - buf, putc 0x0A (s\<lparr>mem := (mem s)(?lp := 0)\<rparr>))
      else if c = 0x08 \<or> c = 0x7F then
        if xs \<noteq> [] then getline_loop buf (of_nat limit) (?lp - 1) (putc 0x08 s)
        else getline_loop buf (of_nat limit) ?lp s
      else if c = CTRL_L then getline_loop buf (of_nat limit) buf (clear s)
      else if limit \<le> length xs then getline_loop buf (of_nat limit) ?lp s
      else if printable c then getline_loop buf (of_nat limit) (?lp + 1) (putc c (s\<lparr>mem := (mem s)(?lp := c)\<rparr>))
      else getline_loop buf (of_nat limit) ?lp s)"
    unfolding getline_loop.simps [of buf "of_nat limit" "buf + of_nat (length xs)" s] s1(1) option.case prod.case Let_def mask_char [OF s1(2)]
      past_empty [OF lb len] add_diff_cancel_left' buffer_full [OF lb len] length_0_conv printable_def
    by (rule refl)
  have go: ?case
    if "line_at buf limit zs (buf + of_nat (length zs)) u" "list_all printable zs"
      "chars (kbd_of u) (inq u KEYBOARD_DATA_PORT) = cs" "line_kept ?A s1 u"
      "getline_loop buf (of_nat limit) ?lp s = getline_loop buf (of_nat limit) (buf + of_nat (length zs)) u"
      "edit_line limit (c # cs) xs (con_view s) = edit_line limit cs zs (con_view u)" for zs u
    using Cons.hyps(1) [OF that(3) [symmetric] that(1,2)] that(3-6) line_kept_trans [OF kept]
      line_kept_trans [OF line_kept_trans [OF kept that(4)]]
    unfolding Cons.hyps(2) [symmetric] by (auto split: option.splits)
  have out: "?lp \<notin> screen_rng" "?lp \<in> ?A" using at_apart [OF lb len] at_in [OF len] by simp_all
  consider (nl) "c = 0x0A \<or> c = 0x0D" | (bs) "c = 0x08 \<or> c = 0x7F" "xs \<noteq> []"
    | (bs0) "c = 0x08 \<or> c = 0x7F" "xs = []" | (ff) "c = CTRL_L"
    | (add) "c \<notin> {0x0A, 0x0D, 0x08, 0x7F, CTRL_L}" "length xs < limit" "printable c"
    | (skip) "c \<notin> {0x0A, 0x0D, 0x08, 0x7F, CTRL_L}" "\<not> (length xs < limit \<and> printable c)"
    by auto
  then show ?case
  proof cases
    case nl
    let ?s = "s1\<lparr>mem := (mem s1)(?lp := 0)\<rparr>"
    have g': "con_good ?s" and v': "con_view ?s = con_view s1" using g by (simp_all add: con_store [OF out(1)])
    have "0 \<notin> set xs" using Cons.prems(2) printable_nz by (auto simp: list_all_iff)
    moreover have "?lp \<notin> rng buf (length xs)"
      using len lb by (simp add: mem_rng_iff unat_of_nat line_buffer_def)
    ultimately have "cstr (mem ?s) buf xs"
      using at by (simp add: cstr_iff line_at_def bytes_at_fun_upd)
    then have "cstr (mem (putc 0x0A ?s)) buf xs"
      using len by (subst con.emit_cstr [OF g' sub_apart [OF lb]]) auto
    moreover have "line_kept ?A s (putc 0x0A ?s)"
      using kept line_kept_store [OF out(2), of s1 0] line_kept_putc [OF g'] by (blast intro: line_kept_trans)
    ultimately show ?thesis
      using nl loop s1(5) con.emit_good [OF g'] con.emit_view [OF g'] v' view
      unfolding Cons.hyps(2) [symmetric] by auto
  next
    case bs
    have eq: "?lp - 1 = buf + of_nat (length (butlast xs))" using bs(2) by (cases xs rule: rev_cases) auto
    have nnl: "c \<noteq> 0x0A" "c \<noteq> 0x0D" using bs(1) by auto
    have drop: "line_at buf limit (butlast xs) (buf + of_nat (length (butlast xs))) (putc 0x08 s1)"
      using line_drop [OF at bs(2) lb] unfolding eq .
    have txt1: "list_all printable (butlast xs)"
      using Cons.prems(2) by (auto simp: list_all_iff dest: in_set_butlastD)
    have rec: "getline_loop buf (of_nat limit) ?lp s
        = getline_loop buf (of_nat limit) (buf + of_nat (length (butlast xs))) (putc 0x08 s1)"
      unfolding loop eq using bs nnl by simp
    show ?thesis
      by (rule go [OF drop txt1 _ line_kept_putc [OF g] rec])
        (use bs nnl s1(5) con.emit_view [OF g] view in auto)
  next
    case bs0
    then have "c \<noteq> 0x0A" "c \<noteq> 0x0D" by auto
    with bs0 show ?thesis
      using loop at view s1(5) Cons.prems(2)
      by (intro go [of xs s1]) (auto simp: line_kept_def)
  next
    case ff
    then have "c \<noteq> 0x0A" "c \<noteq> 0x0D" "c \<noteq> 0x08" "c \<noteq> 0x7F" by (auto simp: CTRL_L_def)
    with ff show ?thesis
      using loop line_clear [OF at] line_kept_clear s1(5)
      by (intro go [of "[]" "clear s1"]) (auto simp: clear_view blank_tty_def)
  next
    case add
    let ?s = "s1\<lparr>mem := (mem s1)(?lp := c)\<rparr>"
    have g': "con_good ?s" and v': "con_view ?s = con_view s1" using g by (simp_all add: con_store [OF out(1)])
    have "line_kept ?A s1 (putc c ?s)"
      using line_kept_store [OF out(2), of s1 c] line_kept_putc [OF g'] by (blast intro: line_kept_trans)
    moreover have "?lp + 1 = buf + of_nat (length (xs @ [c]))" by (simp add: add.assoc add.commute)
    ultimately show ?thesis
      using add loop line_add [OF at add(2) lb, of c] con.emit_view [OF g'] v' view s1(5) Cons.prems(2)
      by (intro go [of "xs @ [c]" "putc c ?s"]) (auto simp: add.commute add.left_commute)
  next
    case skip
    then have "\<not> limit \<le> length xs \<longrightarrow> \<not> printable c" by auto
    with skip show ?thesis
      using loop at view s1(5) Cons.prems(2)
      by (intro go [of xs s1]) (auto simp: line_kept_def)
  qed
qed

text \<open>One call, from an empty line.\<close>

lemma getline_edits:
  assumes "line_buffer buf limit" "con_good s" "interrupts_on s" "pushed_key s = 0"
  shows "case edit_line limit (chars (kbd_of s) (inq s KEYBOARD_DATA_PORT)) [] (con_view s) of
      None \<Rightarrow> getline buf (of_nat limit) s = None
    | Some (ys, view, rest) \<Rightarrow>
        \<exists>t. getline buf (of_nat limit) s = Some (of_nat (length ys), t) \<and> length ys \<le> limit \<and>
          con_good t \<and> con_view t = view \<and> cstr (mem t) buf ys \<and>
          chars (kbd_of t) (inq t KEYBOARD_DATA_PORT) = rest \<and> line_kept (rng buf (Suc limit)) s t"
proof -
  have "line_at buf limit [] (buf + of_nat (length [])) s"
    using assms by (simp add: line_at_def)
  from getline_loop_edits [OF assms(1) this] show ?thesis
    by (auto simp: getline_def split: option.splits dest: edit_line_text)
qed

section \<open>The keyboard's characters\<close>

text \<open>Caps lock exchanges the cases of a letter and does nothing else.\<close>

lemma apply_caps_letters:
  "caps \<noteq> 0 \<Longrightarrow> c \<in> set (lit ''abcdefghijklmnopqrstuvwxyz'') \<Longrightarrow> apply_caps caps c = c - 0x20"
  "caps \<noteq> 0 \<Longrightarrow> c \<in> set (lit ''ABCDEFGHIJKLMNOPQRSTUVWXYZ'') \<Longrightarrow> apply_caps caps c = c + 0x20"
  by (auto simp: apply_caps_def CAPS_CONVER_def)

section \<open>The keyboard as the readers see it\<close>

text \<open>A machine with a cleared screen, interrupts on, and these scan codes to come.\<close>

definition desk :: "u8 list \<Rightarrow> keyboard" where
  "desk keys = clear \<lparr>mem = \<lambda>_. 0, io = [], inq = (\<lambda>_. [])(KEYBOARD_DATA_PORT := keys), eflags = IF_FLAG,
     screen_x = 0, screen_y = 0, strtok_last = 0, conv_buf_at = 0x700000,
     master_mask = 0, slave_mask = 0, intflag = 0, rtc_call_count = 0, arrivals = [],
     ctrl_stat = 0, shift_stat = 0, alt_stat = 0, caps_stat = 0, pushed_key = 0\<rparr>"

lemma desk_ready [simp]:
  "con_good (desk keys)" "interrupts_on (desk keys)" "pushed_key (desk keys) = 0"
  "kbd_of (desk keys) = (0, 0, 0, 0)" "inq (desk keys) KEYBOARD_DATA_PORT = keys"
  "con_view (desk keys) = blank_tty"
  by (simp_all add: desk_def con_good_def clear_view interrupts_on_def IF_FLAG_def kbd_of_def blank_tty_def
      clear_kbd)

text \<open>Scan codes in the tables: shift, A, release of both, B, enter.\<close>

lemma desk_chars: "chars (0, 0, 0, 0) [0x2A, 0x1E, 0x9E, 0xAA, 0x30, 0x0E, 0x1C] = lit ''Ab'' @ [8, 13]"
  by (simp add: key_codes default_key_def NUM_CHAR_HANDLE_def ascii_of_def scan2ascii_def chr_pair_def
      apply_caps_def BS_def CAP_def Let_def)

text \<open>\<open>getchar\<close> hands out the characters the scan codes stand for, in order and without
  loss, changing neither memory nor screen; it does not return exactly when the scan codes to
  come hold no character.\<close>

theorem getchar_next:
  assumes "interrupts_on s" "pushed_key s = 0"
  defines "todo t \<equiv> chars (kbd_of t) (inq t KEYBOARD_DATA_PORT)"
  shows "(getchar s = None \<longleftrightarrow> todo s = []) \<and>
    (\<forall>c cs. todo s = c # cs \<longrightarrow> (\<exists>t. getchar s = Some (c, t) \<and> todo t = cs \<and> pushed_key t = 0 \<and>
       mem t = mem s \<and> con_view t = con_view s \<and> eflags t = eflags s))"
  using getchar_chars [OF assms(1,2)] unfolding todo_def by (auto simp: idle_def split: list.splits)

theorem getchar_next_witness:
  "\<exists>t. getchar (desk [0x2A, 0x1E, 0x9E, 0xAA, 0x30, 0x0E, 0x1C]) = Some (of_char CHR ''A'', t) \<and>
     chars (kbd_of t) (inq t KEYBOARD_DATA_PORT) = [of_char CHR ''b'', 8, 13]"
  using getchar_next [of "desk [0x2A, 0x1E, 0x9E, 0xAA, 0x30, 0x0E, 0x1C]"] unfolding desk_ready desk_chars by auto

text \<open>C16. \<open>getline\<close> is the line editor: it returns exactly when the characters to come hold a
  newline; then it leaves the edited line (backspace, form feed and the limit included) as a
  string in the buffer and returns its length, which is at most the limit; the screen shows the
  echo, the remaining characters stay for the next call, and no other memory is written.\<close>

theorem getline_line_editor:
  assumes "line_buffer buf limit" "con_good s" "interrupts_on s" "pushed_key s = 0"
  shows "case edit_line limit (chars (kbd_of s) (inq s KEYBOARD_DATA_PORT)) [] (con_view s) of
      None \<Rightarrow> getline buf (of_nat limit) s = None
    | Some (ys, view, rest) \<Rightarrow>
        \<exists>t. getline buf (of_nat limit) s = Some (of_nat (length ys), t) \<and> length ys \<le> limit \<and>
          con_view t = view \<and> cstr (mem t) buf ys \<and>
          chars (kbd_of t) (inq t KEYBOARD_DATA_PORT) = rest \<and> line_kept (rng buf (Suc limit)) s t"
  using getline_edits [OF assms] by (auto split: option.splits)

theorem getline_line_editor_witness:
  "\<exists>t. getline 0x600000 (of_nat 31) (desk [0x2A, 0x1E, 0x9E, 0xAA, 0x30, 0x0E, 0x1C]) = Some (1, t) \<and>
     cstr (mem t) 0x600000 (lit ''A'')"
proof -
  have "line_buffer 0x600000 31"
    unfolding line_buffer_def screen_rng_def by (simp, rule rng_disjointI) (simp_all add: VIDEO_def)
  from getline_line_editor [OF this, of "desk [0x2A, 0x1E, 0x9E, 0xAA, 0x30, 0x0E, 0x1C]"]
  show ?thesis unfolding desk_ready desk_chars by (auto simp: printable_def ASCII_MIN_def ASCII_MAX_def CTRL_L_def)
qed

end
