(* ===== verification/Terminal.thy ===== *)
theory Terminal
  imports Keyboard
begin

text \<open>
  The terminal driver, \<^verbatim>\<open>student-distrib/terminal.c\<close>: \<open>terminal_read\<close> on top of the line
  editor and \<open>terminal_write\<close> on top of \<open>putc\<close>.
\<close>

section \<open>Operations\<close>

definition MAX_INPUT_CHARS :: u32 where "MAX_INPUT_CHARS = 128"

definition terminal_putc :: "u8 \<Rightarrow> 'a console_scheme \<Rightarrow> 'a console_scheme" where
  "terminal_putc input s = putc input s"

definition terminal_read ::
  "u32 \<Rightarrow> u32 \<Rightarrow> u32 \<Rightarrow> 'a keyboard_scheme \<Rightarrow> (u32 \<times> 'a keyboard_scheme) option" where
  "terminal_read fd buffer num_chars s =
     (if fd \<noteq> 0 then Some (minus_one, s)
      else if buffer = 0 then Some (minus_one, s)
      else
        let num_chars = (if num_chars > MAX_INPUT_CHARS then MAX_INPUT_CHARS else num_chars)
        in getline buffer num_chars (sti s))"

text \<open>The loop of \<open>terminal_write\<close>; \<open>idx\<close> counts up to \<open>num_chars\<close> or to a NUL, whichever
  comes first. \<open>num_chars\<close> is not 0 here, so the increment and test always come to an end.\<close>

function terminal_write_loop :: "u32 \<Rightarrow> u32 \<Rightarrow> u32 \<Rightarrow> 'a console_scheme \<Rightarrow> u32 \<times> 'a console_scheme" where
  "terminal_write_loop buffer num_chars idx s =
     (if mem s (buffer + idx) \<noteq> 0 then
        let s = putc (mem s (buffer + idx)) s; idx = idx + 1 in
        if idx = num_chars then (idx, s) else terminal_write_loop buffer num_chars idx s
      else (idx, s))"
  by pat_completeness auto
termination
proof (relation "measure (\<lambda>(buffer, num_chars, idx, s). unat (num_chars - idx - 1))")
  fix buffer num_chars idx i :: u32 and s s' :: "'a console_scheme"
  assume "i = idx + 1" "i \<noteq> num_chars"
  then have "num_chars - idx - 1 \<noteq> 0" by (metis diff_add_cancel diff_0_right eq_iff_diff_eq_0 add.commute)
  moreover have "num_chars - i - 1 = (num_chars - idx - 1) - 1" using \<open>i = idx + 1\<close> by simp
  ultimately have "unat (num_chars - i - 1) < unat (num_chars - idx - 1)"
    using dec_measure [of "num_chars - idx - 1"] by metis
  then show "((buffer, num_chars, i, s'), (buffer, num_chars, idx, s))
      \<in> measure (\<lambda>(buffer, num_chars, idx, s). unat (num_chars - idx - 1))"
    by simp
qed simp

declare terminal_write_loop.simps [simp del]

definition terminal_write :: "u32 \<Rightarrow> u32 \<Rightarrow> u32 \<Rightarrow> 'a console_scheme \<Rightarrow> u32 \<times> 'a console_scheme" where
  "terminal_write fd buffer num_chars s =
     (if fd \<noteq> 1 then (minus_one, s)
      else if buffer = 0 then (minus_one, s)
      else if num_chars = 0 then (0, s)
      else terminal_write_loop buffer num_chars 0 s)"

definition terminal_open :: "'a \<Rightarrow> u32 \<times> 'a" where
  "terminal_open s = (0, s)"

definition terminal_close :: "'a \<Rightarrow> u32 \<times> 'a" where
  "terminal_close s = (0, s)"

definition clear_terminal :: "'a console_scheme \<Rightarrow> 'a console_scheme" where
  "clear_terminal s = clear s"

section \<open>What is written\<close>

lemma terminal_write_loop_eq:
  "con_good s \<Longrightarrow> rng (buffer + idx) n \<inter> screen_rng = {} \<Longrightarrow> 0 < n \<Longrightarrow> n < 2 ^ 32 \<Longrightarrow>
   bytes_at (mem s) (buffer + idx) n = xs \<Longrightarrow>
   terminal_write_loop buffer (idx + of_nat n) idx s =
     (idx + of_nat (length (upto_nul xs)), fold putc (upto_nul xs) s)"
proof (induction n arbitrary: idx s xs)
  case (Suc n)
  let ?c = "mem s (buffer + idx)"
  obtain ys where xs: "xs = ?c # ys" "bytes_at (mem s) (buffer + (idx + 1)) n = ys"
    using Suc.prems(5) by (auto simp: add.assoc)
  show ?case
  proof (cases "?c = 0")
    case True
    then show ?thesis using xs(1) by (subst terminal_write_loop.simps) (simp add: upto_nul_def)
  next
    case nz: False
    have dis: "rng (buffer + (idx + 1)) n \<inter> screen_rng = {}"
      using Suc.prems(2) by (auto simp: rng_Suc add.assoc)
    have ys: "bytes_at (mem (putc ?c s)) (buffer + (idx + 1)) n = ys"
      using xs(2) bytes_at_putc [OF Suc.prems(1) dis] by simp
    show ?thesis
    proof (cases "n = 0")
      case True
      with nz xs show ?thesis
        by (subst terminal_write_loop.simps) (simp add: Let_def upto_nul_def)
    next
      case False
      have "idx + 1 \<noteq> idx + of_nat (Suc n)"
      proof
        assume "idx + 1 = idx + of_nat (Suc n)"
        then have "(of_nat n :: u32) = 0" by simp
        then have "unat (of_nat n :: u32) = 0" by simp
        with False Suc.prems(4) show False by (simp add: unat_of_nat)
      qed
      moreover have "idx + of_nat (Suc n) = idx + 1 + of_nat n" by (simp add: add.assoc)
      moreover have "terminal_write_loop buffer (idx + 1 + of_nat n) (idx + 1) (putc ?c s)
          = (idx + 1 + of_nat (length (upto_nul ys)), fold putc (upto_nul ys) (putc ?c s))"
        using Suc.prems False dis ys by (intro Suc.IH con.emit_good) auto
      ultimately show ?thesis
        using nz xs(1) by (subst terminal_write_loop.simps) (simp add: Let_def upto_nul_def add.assoc)
    qed
  qed
qed simp

text \<open>\<open>terminal_write\<close> shows the buffer up to its first NUL, at most \<open>num_chars\<close> characters,
  and returns how many that were.\<close>

lemma terminal_write_shows:
  assumes "con_good s" "buffer \<noteq> 0" "rng buffer (unat n) \<inter> screen_rng = {}"
    and xs: "xs = upto_nul (bytes_at (mem s) buffer (unat n))"
  shows "terminal_write 1 buffer n s = (of_nat (length xs), fold putc xs s)"
    "con_view (fold putc xs s) = fold tty_putc xs (con_view s)"
proof -
  show "con_view (fold putc xs s) = fold tty_putc xs (con_view s)"
    using assms(1) by (rule con.fold_view)
  show "terminal_write 1 buffer n s = (of_nat (length xs), fold putc xs s)"
  proof (cases "n = 0")
    case True
    with assms show ?thesis by (simp add: terminal_write_def upto_nul_def)
  next
    case False
    then have "terminal_write_loop buffer (0 + of_nat (unat n)) 0 s =
        (0 + of_nat (length xs), fold putc xs s)"
      unfolding xs using assms u32_bound [of n]
      by (intro terminal_write_loop_eq) (auto simp: unat_gt_0)
    with False assms(2) show ?thesis by (simp add: terminal_write_def)
  qed
qed

text \<open>The descriptor is checked by the driver as well: reading is on 0, writing on 1.\<close>

lemma terminal_errors:
  "fd \<noteq> 0 \<or> buffer = 0 \<Longrightarrow> terminal_read fd buffer n s = Some (minus_one, s)"
  "fd' \<noteq> 1 \<or> buffer = 0 \<Longrightarrow> terminal_write fd' buffer n s' = (minus_one, s')"
  by (auto simp: terminal_read_def terminal_write_def)

section \<open>What is read\<close>

lemma sti_views [simp]:
  "con_view (sti s) = con_view s" "con_good (sti s) = con_good s" "kbd_of (sti t) = kbd_of t"
  "pushed_key (sti t) = pushed_key t"
  by (simp_all add: sti_def con_view_def con_good_def con_ok_def cursor_ok_def kbd_of_def)

text \<open>\<open>terminal_read\<close> turns interrupts on and reads one line of at most 128 characters.\<close>

lemma terminal_read_line:
  fixes s :: "'a keyboard_scheme"
  defines "limit n \<equiv> min (unat n) 128"
  assumes "buffer \<noteq> 0" "con_good s" "pushed_key s = 0" "line_buffer buffer (limit n)"
    and "edit_line (limit n) (chars (kbd_of s) (inq s KEYBOARD_DATA_PORT)) [] (con_view s) = Some (ys, view, rest)"
  shows "\<exists>t. terminal_read 0 buffer n s = Some (of_nat (length ys), t) \<and> length ys \<le> limit n \<and>
     con_view t = view \<and> con_good t \<and> cstr (mem t) buffer ys \<and> interrupts_on t \<and>
     line_kept (rng buffer (Suc (limit n))) (sti s) t"
proof -
  have n: "(if n > MAX_INPUT_CHARS then MAX_INPUT_CHARS else n) = of_nat (limit n)"
    by (auto simp: MAX_INPUT_CHARS_def word_less_nat_alt limit_def min_def)
  have "terminal_read 0 buffer n s = getline buffer (of_nat (limit n)) (sti s)"
    using assms(2) by (simp add: terminal_read_def n)
  moreover obtain t where "getline buffer (of_nat (limit n)) (sti s) = Some (of_nat (length ys), t)"
    "length ys \<le> limit n" "con_good t" "con_view t = view" "cstr (mem t) buffer ys"
    "line_kept (rng buffer (Suc (limit n))) (sti s) t"
    using getline_edits [OF assms(5), of "sti s"] assms by auto
  moreover have "interrupts_on t"
    using \<open>line_kept (rng buffer (Suc (limit n))) (sti s) t\<close> iflag_cases(1) [of s]
    by (simp add: line_kept_def interrupts_on_def)
  ultimately show ?thesis by auto
qed

section \<open>What reading and writing leave alone\<close>

lemma getchar_more: "getchar s = Some (c, t) \<Longrightarrow> keyboard.more t = keyboard.more s"
proof (induction s rule: getchar.induct)
  case (1 s)
  then show ?case by (subst (asm) (3) getchar.simps) (auto split: if_splits)
qed

lemma kbd_mem_more [simp]: "keyboard.more (s\<lparr>mem := m\<rparr>) = keyboard.more s"
  by (cases s) simp

lemma getline_loop_more: "getline_loop buf n lp s = Some (r, t) \<Longrightarrow> keyboard.more t = keyboard.more s"
proof (induction "kbd_weight s" arbitrary: lp s rule: less_induct)
  case less
  obtain c u where g: "getchar s = Some (c, u)"
    using less.prems by (subst (asm) getline_loop.simps) (auto split: option.splits)
  have u: "keyboard.more u = keyboard.more s" by (rule getchar_more [OF g])
  have ih: "keyboard.more t = keyboard.more s"
    if "getline_loop buf n l v = Some (r, t)" "kbd_weight v = kbd_weight u"
      "keyboard.more v = keyboard.more u" for l v
    using less.hyps [of v l] that getchar_less [OF g] u by simp
  from less.prems show ?case
    by (subst (asm) getline_loop.simps) (auto simp: g u Let_def split: if_splits dest: ih)
qed

lemma kbd_flags_more [simp]: "keyboard.more (sti s) = keyboard.more s" "keyboard.more (cli s) = keyboard.more s"
  by (cases s; simp add: sti_def cli_def)+

lemma terminal_read_more: "terminal_read fd buf n s = Some (r, t) \<Longrightarrow> keyboard.more t = keyboard.more s"
  by (auto simp: terminal_read_def getline_def Let_def split: if_splits dest!: getline_loop_more)

lemma console_more_keyboard: "console.more s = console.more t \<Longrightarrow> keyboard.more s = keyboard.more t"
  by (rule console_more_kbd(11))

lemma terminal_write_loop_more: "console.more (snd (terminal_write_loop b n i s)) = console.more s"
  by (induction b n i s rule: terminal_write_loop.induct)
    (subst terminal_write_loop.simps, auto simp: Let_def)

lemma terminal_write_more: "console.more (snd (terminal_write fd b n s)) = console.more s"
  by (simp add: terminal_write_def terminal_write_loop_more)

section \<open>The terminal driver\<close>

text \<open>C34. \<open>terminal_read\<close> turns interrupts on and hands over one edited line: at most
  \<open>min n 128\<close> characters, NUL-terminated in the caller's buffer, and their number is returned;
  nothing else but the screen is written. On another descriptor than 0, or without a buffer, it
  returns -1 and changes nothing.\<close>

theorem terminal_read_one_line:
  fixes s :: "'a keyboard_scheme"
  defines "limit n \<equiv> min (unat n) 128"
  assumes "buffer \<noteq> 0" "con_good s" "pushed_key s = 0" "line_buffer buffer (limit n)"
    and "edit_line (limit n) (chars (kbd_of s) (inq s KEYBOARD_DATA_PORT)) [] (con_view s) = Some (ys, view, rest)"
  shows "(\<exists>t. terminal_read 0 buffer n s = Some (of_nat (length ys), t) \<and> length ys \<le> limit n \<and>
       con_view t = view \<and> cstr (mem t) buffer ys \<and> interrupts_on t \<and>
       line_kept (rng buffer (Suc (limit n))) (sti s) t) \<and>
     (\<forall>fd. fd \<noteq> 0 \<longrightarrow> terminal_read fd buffer n s = Some (minus_one, s))"
  using terminal_read_line [of buffer s n, folded limit_def, OF assms(2-6)] terminal_errors(1) by blast

theorem terminal_read_one_line_witness:
  "\<exists>t. terminal_read 0 0x600000 1000 (desk [0x1E, 0x30, 0x0E, 0x1C]) = Some (1, t) \<and>
     cstr (mem t) 0x600000 (lit ''a'') \<and> interrupts_on t"
proof -
  have m: "min (unat (1000 :: u32)) 128 = 128" by simp
  have "line_buffer 0x600000 128"
    unfolding line_buffer_def screen_rng_def by (simp, rule rng_disjointI) (simp_all add: VIDEO_def)
  moreover have "chars (0, 0, 0, 0) [0x1E, 0x30, 0x0E, 0x1C] = lit ''ab'' @ [8, 13]"
    by (simp add: key_codes default_key_def NUM_CHAR_HANDLE_def ascii_of_def scan2ascii_def chr_pair_def
        apply_caps_def BS_def CAP_def Let_def)
  ultimately show ?thesis
    using terminal_read_one_line [where buffer = "0x600000" and s = "desk [0x1E, 0x30, 0x0E, 0x1C]" and n = 1000] unfolding m desk_ready
    by (auto simp: printable_def ASCII_MIN_def ASCII_MAX_def CTRL_L_def)
qed

text \<open>\<open>terminal_write\<close> shows the caller's bytes up to the first NUL, at most \<open>n\<close> of them,
  as \<open>putc\<close> would one by one, and returns their number; on another descriptor than 1 it
  returns -1 and changes nothing.\<close>

theorem terminal_write_prefix:
  assumes "con_good s" "buffer \<noteq> 0" "rng buffer (unat n) \<inter> screen_rng = {}"
    and "xs = upto_nul (bytes_at (mem s) buffer (unat n))"
  shows "(\<exists>t. terminal_write 1 buffer n s = (of_nat (length xs), t) \<and> length xs \<le> unat n \<and>
       con_view t = fold tty_putc xs (con_view s)) \<and>
     (\<forall>fd. fd \<noteq> 1 \<longrightarrow> terminal_write fd buffer n s = (minus_one, s))"
proof -
  have "length xs \<le> unat n" using assms(4) length_takeWhile_le [of _ "bytes_at (mem s) buffer (unat n)"]
    by (simp add: upto_nul_def)
  then show ?thesis
    using terminal_write_shows [OF assms] terminal_errors(2) by blast
qed

theorem terminal_write_prefix_witness:
  "fst (terminal_write 1 0x600000 4 (blank_console\<lparr>mem := store_bytes (mem blank_console) 0x600000 [0x48, 0x69, 0, 0x21]\<rparr>)) = 2"
proof -
  let ?s = "blank_console\<lparr>mem := store_bytes (mem blank_console) 0x600000 [0x48, 0x69, 0, 0x21]\<rparr>"
  have "con_good ?s" using blank_console_good(1) by (simp add: con_good_def con_ok_def cursor_ok_def con_view_def)
  moreover have "rng 0x600000 (unat (4 :: u32)) \<inter> screen_rng = {}"
    unfolding screen_rng_def by (rule rng_disjointI) (simp_all add: VIDEO_def)
  moreover have "[0x48, 0x69] = upto_nul (bytes_at (mem ?s) 0x600000 (unat (4 :: u32)))"
  proof -
    have "unat (4 :: u32) = length [0x48, 0x69, 0, 0x21 :: u8]" by simp
    then show ?thesis by (simp only: bytes_at_store_same console.simps machine.simps) (simp add: upto_nul_def)
  qed
  ultimately obtain t where "terminal_write 1 0x600000 4 ?s = (of_nat (length [0x48, 0x69 :: u8]), t)"
    using terminal_write_prefix [of ?s "0x600000" 4 "[0x48, 0x69]"] by fastforce
  then show ?thesis by (simp only: fst_conv) simp
qed

end
