(* ===== verification/Paging.thy ===== *)
theory Paging
  imports Terminal
begin

text \<open>
  Paging, \<^verbatim>\<open>student-distrib/paging.c\<close>: the page directory and the two page tables, their
  initialisation, the remapping of the 4 MB user page at 128 MB, and the page walk of the
  processor that gives them their meaning.
\<close>

section \<open>State and operations\<close>

text \<open>
  \<open>page_table_at\<close> and \<open>video_pages_at\<close> are the addresses the linker gives to the two tables
  (aligned to 4 KB by their attribute), \<open>page_directory_at\<close> that of the directory. \<open>frames\<close>
  holds the physical 4 MB frames of user memory while they are not mapped; the mapped one is
  the window of \<^const>\<open>mem\<close> at 128 MB, and \<open>tlb_pde\<close> is the directory entry the processor
  works with until the next reload of CR3.
\<close>

record paging = keyboard +
  page_directory :: "u32 list"
  page_table :: "u32 list"
  video_pages :: "u32 list"
  page_directory_at :: u32
  page_table_at :: u32
  video_pages_at :: u32
  cr0 :: u32
  cr3 :: u32
  cr4 :: u32
  tlb_pde :: u32
  frames :: "u32 \<Rightarrow> u32 \<Rightarrow> u8"

definition VM_START :: nat where "VM_START = 0x0B8"
definition NUM_ENTRIES :: nat where "NUM_ENTRIES = 1024"
definition PDE_IDX_SHIFT :: nat where "PDE_IDX_SHIFT = 22"
definition PAGE_TABLE_PRESENT_ENTRY :: u32 where "PAGE_TABLE_PRESENT_ENTRY = 0x7"
definition VID_MEM_PT_INDEX :: u32 where "VID_MEM_PT_INDEX = drop_bit 12 VIDEO"

definition USER_BASE :: u32 where "USER_BASE = 0x08000000"
definition USER_SIZE :: u32 where "USER_SIZE = 0x400000"

text \<open>The user window of an address space, and the space with the window replaced.\<close>

definition in_window :: "u32 \<Rightarrow> bool" where
  "in_window a \<longleftrightarrow> USER_BASE \<le> a \<and> a < USER_BASE + USER_SIZE"

definition window :: "(u32 \<Rightarrow> u8) \<Rightarrow> (u32 \<Rightarrow> u8)" where
  "window m off = (if off < USER_SIZE then m (USER_BASE + off) else 0)"

definition with_window :: "(u32 \<Rightarrow> u8) \<Rightarrow> (u32 \<Rightarrow> u8) \<Rightarrow> (u32 \<Rightarrow> u8)" where
  "with_window f m a = (if in_window a then f (a - USER_BASE) else m a)"

definition frame_of :: "u32 \<Rightarrow> u32" where "frame_of pde = pde AND 0xFFC00000"
definition pde_present :: "u32 \<Rightarrow> bool" where "pde_present pde \<longleftrightarrow> bit pde 0"

definition user_pde :: "'a paging_scheme \<Rightarrow> u32" where
  "user_pde s = page_directory s ! unat (drop_bit PDE_IDX_SHIFT USER_BASE)"

text \<open>Writing CR3: the window now shows the frame of the directory entry in memory. The old
  frame keeps what was last written to it.\<close>

definition flush_tlb :: "'a paging_scheme \<Rightarrow> 'a paging_scheme" where
  "flush_tlb s =
     (let old = tlb_pde s; new = user_pde s;
          fr = (if pde_present old then (frames s)(frame_of old := window (mem s)) else frames s)
      in s\<lparr>frames := fr,
           mem := (if pde_present new then with_window (fr (frame_of new)) (mem s) else mem s),
           tlb_pde := new\<rparr>)"

definition update_page_directory :: "u32 \<Rightarrow> u32 \<Rightarrow> u16 \<Rightarrow> 'a paging_scheme \<Rightarrow> 'a paging_scheme" where
  "update_page_directory virt_address phys_address flags s =
     flush_tlb (s\<lparr>page_directory := (page_directory s)
       [unat (drop_bit PDE_IDX_SHIFT virt_address) := phys_address OR ucast flags]\<rparr>)"

definition remap_video :: "u32 \<Rightarrow> 'a paging_scheme \<Rightarrow> 'a paging_scheme" where
  "remap_video virt_address s =
     flush_tlb (s\<lparr>page_directory := (page_directory s)
         [unat (drop_bit PDE_IDX_SHIFT virt_address) := page_table_at s OR PAGE_TABLE_PRESENT_ENTRY],
       page_table := (page_table s)[unat VID_MEM_PT_INDEX := VIDEO OR PAGE_TABLE_PRESENT_ENTRY]\<rparr>)"

text \<open>The loops of \<open>paging_init\<close> fill the whole arrays, so they are written as \<^const>\<open>map\<close>.\<close>

definition paging_init :: "'a paging_scheme \<Rightarrow> 'a paging_scheme" where
  "paging_init s =
     (let dir = map (\<lambda>i. 0x00000002) [0..<NUM_ENTRIES];
          tbl = map (\<lambda>i. if i \<ge> VM_START \<and> i \<le> VM_START + 3
                         then (of_nat i * 0x1000) OR 3 else (of_nat i * 0x1000) OR 2) [0..<NUM_ENTRIES];
          dir = dir[0 := page_table_at s OR 3];
          dir = dir[1 := 0x00400083];
          s = s\<lparr>page_directory := dir, page_table := tbl\<rparr>;
          s = flush_tlb (s\<lparr>cr3 := page_directory_at s\<rparr>);
          s = s\<lparr>cr4 := cr4 s OR 0x00000010\<rparr>
      in s\<lparr>cr0 := cr0 s OR 0x80000001\<rparr>)"

section \<open>The page walk\<close>

text \<open>
  The translation of the processor: the physical address and whether user mode may use it;
  \<^const>\<open>None\<close> is a page fault. Bit 0 of an entry is present, bit 2 user, bit 7 of a
  directory entry a 4 MB page.
\<close>

definition table_for :: "u32 \<Rightarrow> 'a paging_scheme \<Rightarrow> u32 list option" where
  "table_for a s =
     (if a = page_table_at s then Some (page_table s)
      else if a = video_pages_at s then Some (video_pages s) else None)"

definition translate :: "'a paging_scheme \<Rightarrow> u32 \<Rightarrow> (u32 \<times> bool) option" where
  "translate s va =
     (let pde = page_directory s ! unat (drop_bit 22 va) in
      if \<not> bit pde 0 then None
      else if bit pde 7 then Some ((pde AND 0xFFC00000) OR (va AND 0x3FFFFF), bit pde 2)
      else do {
        tbl \<leftarrow> table_for (pde AND 0xFFFFF000) s;
        let pte = tbl ! unat (drop_bit 12 va AND 0x3FF);
        if \<not> bit pte 0 then None
        else Some ((pte AND 0xFFFFF000) OR (va AND 0xFFF), bit pde 2 \<and> bit pte 2) })"

definition aligned :: "u32 \<Rightarrow> bool" where
  "aligned a \<longleftrightarrow> a AND 0xFFF = 0"

definition paging_ok :: "'a paging_scheme \<Rightarrow> bool" where
  "paging_ok s \<longleftrightarrow> length (page_directory s) = 1024 \<and> length (page_table s) = 1024 \<and>
     length (video_pages s) = 1024 \<and> aligned (page_table_at s) \<and> aligned (video_pages_at s) \<and>
     page_table_at s \<noteq> video_pages_at s"

section \<open>The user frames\<close>

text \<open>\<open>user_mem s fr\<close>: the contents of a frame, mapped or not.\<close>

definition user_mem :: "'a paging_scheme \<Rightarrow> u32 \<Rightarrow> (u32 \<Rightarrow> u8)" where
  "user_mem s fr off =
     (if off < USER_SIZE then
        if pde_present (tlb_pde s) \<and> frame_of (tlb_pde s) = fr then window (mem s) off
        else frames s fr off
      else 0)"

lemma in_window_iff: "in_window a \<longleftrightarrow> a - USER_BASE < USER_SIZE"
  unfolding in_window_def USER_BASE_def USER_SIZE_def by (simp add: word_less_nat_alt word_le_nat_alt unat_sub_if_size word_size) arith

lemma window_with [simp]: "off < USER_SIZE \<Longrightarrow> window (with_window f m) off = f off"
  by (simp add: window_def with_window_def in_window_iff)

lemma with_window_outside [simp]: "\<not> in_window a \<Longrightarrow> with_window f m a = m a"
  by (simp add: with_window_def)

lemma with_window_same: "(\<And>off. off < USER_SIZE \<Longrightarrow> f off = window m off) \<Longrightarrow> with_window f m = m"
  by (rule ext) (simp add: with_window_def in_window_iff window_def)

text \<open>Reloading CR3 changes no frame: it only moves the window.\<close>

lemma flush_user_mem:
  assumes "pde_present (user_pde s)"
  shows "user_mem (flush_tlb s) fr = user_mem s fr"
  using assms by (rule_tac ext) (auto simp: user_mem_def flush_tlb_def Let_def user_pde_def)

lemma flush_tlb_pde [simp]: "tlb_pde (flush_tlb s) = user_pde s"
  by (simp add: flush_tlb_def Let_def)

lemma flush_frame [simp, frame_simps]:
  "page_directory (flush_tlb s) = page_directory s" "page_table (flush_tlb s) = page_table s"
  "video_pages (flush_tlb s) = video_pages s" "page_table_at (flush_tlb s) = page_table_at s"
  "video_pages_at (flush_tlb s) = video_pages_at s" "page_directory_at (flush_tlb s) = page_directory_at s"
  "cr0 (flush_tlb s) = cr0 s" "cr3 (flush_tlb s) = cr3 s" "cr4 (flush_tlb s) = cr4 s"
  "io (flush_tlb s) = io s" "inq (flush_tlb s) = inq s" "eflags (flush_tlb s) = eflags s"
  "screen_x (flush_tlb s) = screen_x s" "screen_y (flush_tlb s) = screen_y s"
  "strtok_last (flush_tlb s) = strtok_last s" "conv_buf_at (flush_tlb s) = conv_buf_at s"
  "paging.more (flush_tlb s) = paging.more s"
  by (simp_all add: flush_tlb_def Let_def)

lemma flush_mem_outside [simp]: "\<not> in_window a \<Longrightarrow> mem (flush_tlb s) a = mem s a"
  by (simp add: flush_tlb_def Let_def)

lemma flush_window:
  "pde_present (user_pde s) \<Longrightarrow> off < USER_SIZE \<Longrightarrow>
   window (mem (flush_tlb s)) off = user_mem s (frame_of (user_pde s)) off"
  by (auto simp: flush_tlb_def Let_def user_mem_def)

section \<open>Switching the user frame\<close>

definition USER_PDE_4MB_BASE :: u16 where "USER_PDE_4MB_BASE = 0x87"

text \<open>The frame a directory entry names, for the frames the kernel uses: 4 MB aligned.\<close>

definition frame_ok :: "u32 \<Rightarrow> bool" where
  "frame_ok fr \<longleftrightarrow> frame_of fr = fr"

definition map_user :: "u32 \<Rightarrow> 'a paging_scheme \<Rightarrow> 'a paging_scheme" where
  "map_user fr s = update_page_directory USER_BASE fr USER_PDE_4MB_BASE s"

definition dir_ok :: "'a paging_scheme \<Rightarrow> bool" where
  "dir_ok s \<longleftrightarrow> length (page_directory s) = 1024"

lemma user_index [simp]: "unat (drop_bit PDE_IDX_SHIFT USER_BASE) = 32"
  by (simp add: PDE_IDX_SHIFT_def USER_BASE_def drop_bit_eq_div)

lemma user_pde_present: "pde_present (fr OR 0x87)"
  by (simp add: pde_present_def bit_or_iff bit_numeral_rec)

lemma user_pde_frame: "frame_ok fr \<Longrightarrow> frame_of (fr OR 0x87) = fr"
proof -
  assume "frame_ok fr"
  have "(fr OR 0x87) AND 0xFFC00000 = (fr AND 0xFFC00000) OR (0x87 AND 0xFFC00000)"
    by (simp add: bit.conj_disj_distrib2)
  then show "frame_of (fr OR 0x87) = fr"
    using \<open>frame_ok fr\<close> by (simp add: frame_ok_def frame_of_def)
qed

lemmas user_pde_bits = user_pde_frame user_pde_present

lemma map_user_pde: "dir_ok s \<Longrightarrow> user_pde (s\<lparr>page_directory := (page_directory s)[32 := v]\<rparr>) = v"
  by (simp add: user_pde_def dir_ok_def)

lemma map_user_eq:
  "map_user fr s = flush_tlb (s\<lparr>page_directory := (page_directory s)[32 := fr OR 0x87]\<rparr>)"
  by (simp add: map_user_def update_page_directory_def USER_PDE_4MB_BASE_def)

definition mapped_frame :: "'a paging_scheme \<Rightarrow> u32" where
  "mapped_frame s = frame_of (tlb_pde s)"

text \<open>
  What the kernel relies on when it runs several programs at the same address: switching
  loses nothing, and shows the frame that was asked for. The conclusion, proved once: what
  happens in one frame is not seen in another.
\<close>

locale frame_switch =
  fixes switch :: "u32 \<Rightarrow> 's \<Rightarrow> 's"
    and contents :: "'s \<Rightarrow> u32 \<Rightarrow> u32 \<Rightarrow> u8"
    and shown :: "'s \<Rightarrow> u32 \<Rightarrow> u8"
    and current :: "'s \<Rightarrow> u32"
    and ok :: "'s \<Rightarrow> bool"
    and valid :: "u32 \<Rightarrow> bool"
  assumes switch_ok: "ok s \<Longrightarrow> valid f \<Longrightarrow> ok (switch f s)"
    and switch_contents: "ok s \<Longrightarrow> valid f \<Longrightarrow> contents (switch f s) = contents s"
    and switch_current: "ok s \<Longrightarrow> valid f \<Longrightarrow> current (switch f s) = f"
    and shown_current: "ok s \<Longrightarrow> shown s = contents s (current s)"
begin

lemma switch_shows: "ok s \<Longrightarrow> valid f \<Longrightarrow> shown (switch f s) = contents s f"
  by (simp add: shown_current switch_ok switch_contents switch_current)

lemma switch_back:
  assumes "ok s" "valid f" "valid g" "f \<noteq> g" "current s = g"
    and "ok t" "\<And>h. h \<noteq> f \<Longrightarrow> contents t h = contents (switch f s) h"
  shows "shown (switch g t) = shown s"
  using assms by (simp add: switch_shows switch_contents shown_current)

end

definition vm_ok :: "'a paging_scheme \<Rightarrow> bool" where
  "vm_ok s \<longleftrightarrow> dir_ok s \<and> pde_present (tlb_pde s)"

interpretation vm: frame_switch map_user user_mem "\<lambda>s. window (mem s)" mapped_frame vm_ok frame_ok
proof
  fix s :: "'a paging_scheme" and f
  assume s: "vm_ok s" and f: "frame_ok f"
  let ?t = "s\<lparr>page_directory := (page_directory s)[32 := f OR 0x87]\<rparr>"
  have p: "user_pde ?t = f OR 0x87" using s by (simp add: map_user_pde vm_ok_def)
  show "vm_ok (map_user f s)"
    using s by (simp add: vm_ok_def dir_ok_def map_user_eq p user_pde_bits(2))
  show "mapped_frame (map_user f s) = f"
    using f by (simp add: mapped_frame_def map_user_eq p user_pde_bits(1))
  show "user_mem (map_user f s) = user_mem s"
    using flush_user_mem [of ?t] p user_pde_bits(2) by (auto simp: map_user_eq user_mem_def fun_eq_iff)
next
  fix s :: "'a paging_scheme"
  assume "vm_ok s"
  then show "window (mem s) = user_mem s (mapped_frame s)"
    by (auto simp: vm_ok_def user_mem_def mapped_frame_def fun_eq_iff window_def)
qed

section \<open>What the tables mean\<close>

lemma page_masks:
  "(0xFFC00000 :: u32) = NOT (mask 22)" "(0x3FFFFF :: u32) = mask 22"
  "(0xFFFFF000 :: u32) = NOT (mask 12)" "(0xFFF :: u32) = mask 12" "(0x3FF :: u32) = mask 10"
  by (simp_all add: mask_eq_exp_minus_1)

lemma aligned_bits: "aligned a \<Longrightarrow> n < 12 \<Longrightarrow> \<not> bit a n"
proof -
  assume "aligned a" "n < 12"
  then have "\<not> bit (a AND 0xFFF) n" by (simp add: aligned_def)
  with \<open>n < 12\<close> show "\<not> bit a n" unfolding page_masks by (simp add: bit_simps)
qed

lemma aligned_or:
  assumes "aligned a" "b < 0x1000"
  shows "(a OR b) AND 0xFFFFF000 = a" "n < 12 \<Longrightarrow> bit (a OR b) n \<longleftrightarrow> bit b n"
proof -
  have b: "\<not> bit b n" if "12 \<le> n" for n
  proof -
    have "take_bit 12 b = b"
      using assms(2) by (simp add: word_unat_eq_iff unsigned_take_bit_eq take_bit_nat_eq_self word_less_nat_alt)
    with that show ?thesis by (metis bit_take_bit_iff not_le)
  qed
  show "(a OR b) AND 0xFFFFF000 = a"
    unfolding page_masks
  proof (rule bit_word_eqI)
    fix n assume "n < LENGTH(32)"
    then show "bit ((a OR b) AND NOT (mask 12)) n = bit a n"
      using aligned_bits [OF assms(1), of n] b [of n] by (cases "n < 12") (auto simp: bit_simps)
  qed
  show "n < 12 \<Longrightarrow> bit (a OR b) n \<longleftrightarrow> bit b n"
    using aligned_bits [OF assms(1)] by (simp add: bit_simps)
qed

lemma aligned_page: "aligned (push_bit 12 a)"
  unfolding aligned_def page_masks by (rule bit_word_eqI) (simp add: bit_simps)

lemma page_split: "push_bit 12 (drop_bit 12 va) OR (va AND 0xFFF) = (va :: u32)"
  unfolding page_masks by (rule bit_word_eqI) (auto simp: bit_simps)

lemma big_page_split: "push_bit 22 (drop_bit 22 va) OR (va AND 0x3FFFFF) = (va :: u32)"
  unfolding page_masks by (rule bit_word_eqI) (auto simp: bit_simps)

lemma dir_index_less: "unat (drop_bit 22 (va :: u32)) < 1024"
proof -
  have "unat va div 2 ^ 22 < 2 ^ 10" using u32_bound [of va] by (simp add: less_mult_imp_div_less)
  then show ?thesis by (simp add: unsigned_drop_bit_eq drop_bit_eq_div unat_div_distrib)
qed

lemma dir_index_iff: "drop_bit 22 (va :: u32) = of_nat i \<longleftrightarrow> unat (drop_bit 22 va) = i" if "i < 1024"
proof -
  have "unat (of_nat i :: u32) = i" using that by (simp add: unat_of_nat)
  then show ?thesis by (metis word_unat_eq_iff)
qed

text \<open>The page index, when the address is below 4 MB.\<close>

lemma table_index:
  assumes "unat (drop_bit 22 (va :: u32)) = 0"
  shows "drop_bit 12 va AND 0x3FF = drop_bit 12 va"
proof -
  have "drop_bit 22 va = 0" using assms by (metis unat_eq_zero)
  moreover have "bit (drop_bit 22 va) (n - 22) = bit va n" if "22 \<le> n" for n
    using that by (simp add: bit_drop_bit_eq)
  ultimately have "\<not> bit va n" if "22 \<le> n" for n
    using that by (metis bit_0_eq bot_apply bot_bool_def)
  then have "bit va (12 + n) \<Longrightarrow> \<not> 22 \<le> 12 + n" for n by blast
  then have "bit va (12 + n) \<Longrightarrow> n < 10" for n by fastforce
  then show ?thesis unfolding page_masks by (intro bit_word_eqI) (auto simp: bit_simps)
qed

text \<open>Walks over one directory entry.\<close>

lemma translate_absent: "\<not> bit (page_directory s ! unat (drop_bit 22 va)) 0 \<Longrightarrow> translate s va = None"
  by (simp add: translate_def Let_def)

lemma translate_big:
  "bit (page_directory s ! unat (drop_bit 22 va)) 0 \<Longrightarrow> bit (page_directory s ! unat (drop_bit 22 va)) 7 \<Longrightarrow>
   translate s va = Some ((page_directory s ! unat (drop_bit 22 va) AND 0xFFC00000) OR (va AND 0x3FFFFF),
     bit (page_directory s ! unat (drop_bit 22 va)) 2)"
  by (simp add: translate_def Let_def)

lemma translate_small:
  assumes "page_directory s ! unat (drop_bit 22 va) = a OR f" "aligned a" "f < 0x1000" "bit f 0" "\<not> bit f 7"
    "table_for a s = Some tbl"
  shows "translate s va = (let pte = tbl ! unat (drop_bit 12 va AND 0x3FF) in
    if bit pte 0 then Some ((pte AND 0xFFFFF000) OR (va AND 0xFFF), bit f 2 \<and> bit pte 2) else None)"
  using assms aligned_or(2) [OF assms(2,3)] by (simp add: translate_def Let_def aligned_or(1))

lemma paging_init_fields:
  "page_directory (paging_init s) =
     (map (\<lambda>i. 2) [0..<1024])[0 := page_table_at s OR 3, 1 := 0x00400083]"
  "page_table (paging_init s) = map (\<lambda>i. push_bit 12 (of_nat i) OR (if i \<ge> 184 \<and> i \<le> 187 then 3 else 2)) [0..<1024]"
  "page_table_at (paging_init s) = page_table_at s"
  "video_pages (paging_init s) = video_pages s" "video_pages_at (paging_init s) = video_pages_at s"
  "cr0 (paging_init s) = cr0 s OR 0x80000001" "cr3 (paging_init s) = page_directory_at s"
  "cr4 (paging_init s) = cr4 s OR 0x10"
  by (auto simp: paging_init_def Let_def NUM_ENTRIES_def VM_START_def push_bit_eq_mult)

text \<open>After \<open>paging_init\<close> the video pages and the kernel's 4 MB page are mapped to themselves,
  for the kernel only, and everything else faults.\<close>

lemma paging_init_maps:
  assumes "aligned (page_table_at s)"
  shows "translate (paging_init s) va =
    (if 0xB8000 \<le> va \<and> va < 0xBC000 \<or> 0x400000 \<le> va \<and> va < 0x800000 then Some (va, False) else None)"
proof -
  let ?i = "unat (drop_bit 22 va)" and ?p = "paging_init s"
  have i: "?i < 1024" by (rule dir_index_less)
  have di: "?i = unat va div 2 ^ 22"
    by (simp add: unsigned_drop_bit_eq drop_bit_eq_div unat_div_distrib)
  consider "?i = 0" | "?i = 1" | "?i \<ge> 2" by linarith
  then show ?thesis
  proof cases
    case 1
    then have small: "unat va < 2 ^ 22" using di by (simp add: div_eq_0_iff)
    let ?j = "unat (drop_bit 12 va)"
    have j: "?j = unat va div 2 ^ 12"
      by (simp add: unsigned_drop_bit_eq drop_bit_eq_div unat_div_distrib)
    with small have j1024: "?j < 1024" by (simp add: less_mult_imp_div_less)
    have pte: "page_table ?p ! ?j = push_bit 12 (drop_bit 12 va) OR (if ?j \<ge> 184 \<and> ?j \<le> 187 then 3 else 2)"
      using j1024 by (simp add: paging_init_fields(2))
    have vid: "?j \<ge> 184 \<and> ?j \<le> 187 \<longleftrightarrow> 0xB8000 \<le> va \<and> va < 0xBC000"
      unfolding j word_le_nat_alt word_less_nat_alt by simp linarith
    have out: "\<not> (0x400000 \<le> va \<and> va < 0x800000)"
      using small by (simp add: word_le_nat_alt)
    have dir: "page_directory ?p ! ?i = page_table_at s OR 3"
      using 1 by (simp add: paging_init_fields(1))
    have "translate ?p va = (let pte = page_table ?p ! unat (drop_bit 12 va AND 0x3FF) in
        if bit pte 0 then Some ((pte AND 0xFFFFF000) OR (va AND 0xFFF), bit (3 :: u32) 2 \<and> bit pte 2) else None)"
      by (rule translate_small [OF dir assms])
        (simp_all add: table_for_def paging_init_fields(3) bit_numeral_rec)
    also have "\<dots> = (if ?j \<ge> 184 \<and> ?j \<le> 187 then Some (va, False) else None)"
      unfolding table_index [OF 1] pte Let_def
      using aligned_or [OF aligned_page, of 3] aligned_or [OF aligned_page, of 2] page_split [of va]
      by (simp add: bit_numeral_rec)
    finally show ?thesis using vid out by simp
  next
    case 2
    then have va: "2 ^ 22 \<le> unat va" "unat va < 2 * 2 ^ 22" using di by simp_all
    have "drop_bit 22 va = 1" using 2 dir_index_iff [of 1 va] by simp
    then have "0x00400000 OR (va AND 0x3FFFFF) = va" using big_page_split [of va] by simp
    moreover have "page_directory ?p ! ?i = 0x00400083" using 2 by (simp add: paging_init_fields(1))
    moreover have "0x400000 \<le> va \<and> va < 0x800000" using va by (simp add: word_le_nat_alt word_less_nat_alt)
    ultimately show ?thesis by (subst translate_big) (simp_all add: bit_numeral_rec)
  next
    case 3
    then have "page_directory ?p ! ?i = 2" using i by (simp add: paging_init_fields(1))
    moreover have "2 * 2 ^ 22 \<le> unat va" using 3 unfolding di by (simp add: less_eq_div_iff_mult_less_eq)
    then have "\<not> (0xB8000 \<le> va \<and> va < 0xBC000 \<or> 0x400000 \<le> va \<and> va < 0x800000)"
      by (simp add: word_le_nat_alt word_less_nat_alt)
    ultimately show ?thesis by (subst translate_absent) (simp_all add: bit_numeral_rec)
  qed
qed

text \<open>The user window after \<open>update_page_directory\<close>: the 4 MB of the frame, open to user mode;
  every other page is as it was.\<close>

lemma map_user_maps:
  assumes "dir_ok s" "frame_ok fr"
  shows "in_window va \<Longrightarrow> translate (map_user fr s) va = Some (fr OR (va AND 0x3FFFFF), True)"
    and "\<not> in_window va \<Longrightarrow> translate (map_user fr s) va = translate s va"
proof -
  have di: "unat (drop_bit 22 va) = unat va div 2 ^ 22"
    by (simp add: unsigned_drop_bit_eq drop_bit_eq_div unat_div_distrib)
  have win: "in_window va \<longleftrightarrow> unat (drop_bit 22 va) = 32"
    unfolding di in_window_def USER_BASE_def USER_SIZE_def word_le_nat_alt word_less_nat_alt by simp linarith
  show "translate (map_user fr s) va = Some (fr OR (va AND 0x3FFFFF), True)" if "in_window va"
  proof -
    have "page_directory (map_user fr s) ! unat (drop_bit 22 va) = fr OR 0x87"
      using that win assms by (simp add: map_user_eq dir_ok_def)
    moreover have "(fr OR 0x87) AND 0xFFC00000 = fr"
      using user_pde_frame [OF assms(2)] by (simp add: frame_of_def)
    ultimately show ?thesis by (subst translate_big) (simp_all add: bit_or_iff bit_numeral_rec)
  qed
  show "translate (map_user fr s) va = translate s va" if "\<not> in_window va"
  proof -
    have "page_directory (map_user fr s) ! unat (drop_bit 22 va) = page_directory s ! unat (drop_bit 22 va)"
      using that win by (simp add: map_user_eq)
    moreover have "table_for a (map_user fr s) = table_for a s" for a
      by (simp add: table_for_def map_user_eq)
    ultimately show ?thesis unfolding translate_def by presburger
  qed
qed

section \<open>The address space\<close>

text \<open>A machine before paging is on, with the three tables at the places the linker might give
  them.\<close>

definition bare :: paging where
  "bare = keyboard.extend (desk []) \<lparr>page_directory = replicate 1024 0, page_table = replicate 1024 0,
     video_pages = replicate 1024 0, page_directory_at = 0x401000, page_table_at = 0x402000,
     video_pages_at = 0x403000, cr0 = 1, cr3 = 0, cr4 = 0, tlb_pde = 0, frames = \<lambda>_ _. 0\<rparr>"

lemma bare_fields [simp]:
  "page_table_at bare = 0x402000" "video_pages_at bare = 0x403000" "length (page_directory bare) = 1024"
  "length (video_pages bare) = 1024"
  by (simp_all add: bare_def keyboard.defs)

text \<open>C24. \<open>paging_init\<close>: exactly the 16 KB of the screen and the 4 MB of the kernel are mapped,
  each address to itself and for the kernel only; every other access faults.\<close>

theorem paging_init_address_space:
  assumes "aligned (page_table_at s)"
  shows "translate (paging_init s) va =
    (if 0xB8000 \<le> va \<and> va < 0xBC000 \<or> 0x400000 \<le> va \<and> va < 0x800000 then Some (va, False) else None)"
  by (rule paging_init_maps [OF assms])

theorem paging_init_address_space_witness:
  "translate (paging_init bare) 0xB8FA0 = Some (0xB8FA0, False) \<and> translate (paging_init bare) 0 = None"
  using paging_init_address_space [of bare "0xB8FA0"] paging_init_address_space [of bare 0] by (simp add: aligned_def)

text \<open>\<open>update_page_directory\<close> on the program window maps its 4 MB to the frame of the
  program, with user access, and leaves the translation of every other address as it was.\<close>

theorem program_window:
  assumes "dir_ok s" "frame_ok fr"
  shows "translate (update_page_directory 0x08000000 fr 0x87 s) va =
    (if in_window va then Some (fr OR (va AND 0x3FFFFF), True) else translate s va)"
  using map_user_maps [OF assms, of va] by (simp add: map_user_def USER_BASE_def USER_PDE_4MB_BASE_def)

theorem program_window_witness:
  "translate (update_page_directory 0x08000000 0x00C00000 0x87 (paging_init bare)) 0x08048018
     = Some (0x00C48018, True)"
proof -
  have "dir_ok (paging_init bare)" by (simp add: dir_ok_def paging_init_fields)
  moreover have "frame_ok 0x00C00000" by (simp add: frame_ok_def frame_of_def)
  ultimately show ?thesis
    by (subst program_window) (simp_all add: in_window_def USER_BASE_def USER_SIZE_def)
qed

text \<open>C23. Programs do not see each other: whatever runs in frame \<open>f\<close> and changes that frame only,
  switching back to frame \<open>g\<close> shows the window as it was before the switch.\<close>

theorem frames_isolated:
  fixes s t :: "'a paging_scheme"
  assumes "vm_ok s" "mapped_frame s = g" "frame_ok f" "frame_ok g" "f \<noteq> g"
    and "vm_ok t" "\<forall>h. h \<noteq> f \<longrightarrow> user_mem t h = user_mem (map_user f s) h"
  shows "window (mem (map_user g t)) = window (mem s)"
  using vm.switch_back [of s f g t] assms by simp

theorem frames_isolated_witness:
  "window (mem (map_user 0x00800000 (map_user 0x00C00000 (map_user 0x00800000 (paging_init bare)))))
     = window (mem (map_user 0x00800000 (paging_init bare)))"
proof (rule frames_isolated [of _ _ "0x00C00000"])
  have d: "dir_ok (paging_init bare)" by (simp add: dir_ok_def paging_init_fields)
  have f: "frame_ok 0x00C00000" "frame_ok 0x00800000" by (simp_all add: frame_ok_def frame_of_def)
  have v: "vm_ok (map_user fr s)" if "dir_ok s" for fr and s :: paging
    using that map_user_pde [OF that] user_pde_present by (simp add: vm_ok_def dir_ok_def map_user_eq)
  then show v1: "vm_ok (map_user 0x00800000 (paging_init bare))" by (simp add: d)
  show "vm_ok (map_user 0x00C00000 (map_user 0x00800000 (paging_init bare)))"
    by (rule vm.switch_ok [OF v1 f(1)])
  show "mapped_frame (map_user 0x00800000 (paging_init bare)) = 0x00800000"
    using map_user_pde [OF d] user_pde_frame [OF f(2)] by (simp add: mapped_frame_def map_user_eq)
  show "frame_ok 0x00C00000" "frame_ok 0x00800000" by (rule f)+
qed simp_all

end
