(* ===== verification/Filesys.thy ===== *)
theory Filesys
  imports Paging
begin

text \<open>
  The read-only file system, \<^verbatim>\<open>student-distrib/filesys.c\<close>, and the process control block of
  \<^verbatim>\<open>student-distrib/pcb.h\<close> whose descriptor table it fills. The image is a block of memory
  at \<open>fs_ptr\<close>: the boot block with the directory, one 4 KB block per inode, then the data
  blocks.
\<close>

section \<open>Descriptors and process control blocks\<close>

text \<open>The four jump tables; a descriptor points to one of them, or to none (the blank one).\<close>

datatype ops_table = NoOps | TerminalOps | FileOps | DirectoryOps | RtcOps

record file_t =
  file_ops_table_ptr :: ops_table
  inode_num :: u32
  file_position :: u32
  flags :: u32

text \<open>The bytes of \<open>arg\<close> live in memory, at offset 160 of the block.\<close>

record pcb_t =
  file_array :: "file_t list"
  parent_num :: u32
  parent_esp :: u32
  current_esp :: u32
  parent_ebp :: u32
  current_ebp :: u32
  current_eip :: u32
  exec_ret_addr :: u32
  rtc_count :: u32
  num_char_in_arg :: u8
  terminal_index :: u8
  is_user_mode :: u8

definition PCB_ARG :: u32 where "PCB_ARG = 160"

text \<open>\<open>pcbs\<close> holds the blocks by address, \<open>esp\<close> is the kernel stack pointer.\<close>

record filesys = paging +
  fs_ptr :: u32
  blank :: file_t
  pcbs :: "u32 \<Rightarrow> pcb_t"
  esp :: u32

definition PCB_MASK :: u32 where "PCB_MASK = 0x1FFF"
definition NUM_MAX_OPEN_FILES :: nat where "NUM_MAX_OPEN_FILES = 8"
definition FILENAME_LEN :: nat where "FILENAME_LEN = 32"
definition NUM_FILES :: u32 where "NUM_FILES = 63"
definition NUM_B_IN_FOUR_KB :: u32 where "NUM_B_IN_FOUR_KB = 4096"
definition FILE_AVAIL :: u32 where "FILE_AVAIL = 1"
definition FILE_OCCUP :: u32 where "FILE_OCCUP = 0"
definition FILE_TYPE_RTC :: u32 where "FILE_TYPE_RTC = 0"
definition FILE_TYPE_DIR :: u32 where "FILE_TYPE_DIR = 1"
definition FILE_TYPE_FILE :: u32 where "FILE_TYPE_FILE = 2"

text \<open>\<open>getCurrentProcessPCB\<close> of \<^verbatim>\<open>syscalls.c\<close>.\<close>

definition getCurrentProcessPCB :: "'a filesys_scheme \<Rightarrow> u32" where
  "getCurrentProcessPCB s = esp s AND NOT PCB_MASK"

definition cur_pcb :: "'a filesys_scheme \<Rightarrow> pcb_t" where
  "cur_pcb s = pcbs s (getCurrentProcessPCB s)"

definition cur_files :: "'a filesys_scheme \<Rightarrow> file_t list" where
  "cur_files s = file_array (cur_pcb s)"

definition set_files :: "file_t list \<Rightarrow> 'a filesys_scheme \<Rightarrow> 'a filesys_scheme" where
  "set_files fs s = s\<lparr>pcbs := (pcbs s)(getCurrentProcessPCB s := (cur_pcb s)\<lparr>file_array := fs\<rparr>)\<rparr>"

section \<open>The image\<close>

record dentry_t =
  filename :: "u8 list"
  filetype :: u32
  dentry_inode :: u32

definition dir_count :: "'a filesys_scheme \<Rightarrow> u32" where
  "dir_count s = load32 (mem s) (fs_ptr s)"

definition inode_count :: "'a filesys_scheme \<Rightarrow> u32" where
  "inode_count s = load32 (mem s) (fs_ptr s + 4)"

definition data_count :: "'a filesys_scheme \<Rightarrow> u32" where
  "data_count s = load32 (mem s) (fs_ptr s + 8)"

definition dentry_addr :: "u32 \<Rightarrow> 'a filesys_scheme \<Rightarrow> u32" where
  "dentry_addr index s = fs_ptr s + 64 + 64 * index"

definition inode_addr :: "u32 \<Rightarrow> 'a filesys_scheme \<Rightarrow> u32" where
  "inode_addr inode s = fs_ptr s + NUM_B_IN_FOUR_KB * (inode + 1)"

text \<open>The directory entry is returned as a value; \<^const>\<open>None\<close> is the return value -1, which
  leaves the caller's entry alone. The test \<^verbatim>\<open>index < 0\<close> on an unsigned index is never true.\<close>

definition read_dentry_by_index :: "u32 \<Rightarrow> 'a filesys_scheme \<Rightarrow> dentry_t option" where
  "read_dentry_by_index index s =
     (if index \<ge> NUM_FILES then None
      else Some \<lparr>filename = bytes_at (mem s) (dentry_addr index s) FILENAME_LEN,
                 filetype = load32 (mem s) (dentry_addr index s + 32),
                 dentry_inode = load32 (mem s) (dentry_addr index s + 36)\<rparr>)"

fun find_dentry :: "u32 list \<Rightarrow> u32 \<Rightarrow> 'a filesys_scheme \<Rightarrow> dentry_t option" where
  "find_dentry [] fname s = None"
| "find_dentry (index # rest) fname s =
     (if strncmp (mem s) fname (dentry_addr index s) (of_nat FILENAME_LEN) = 0
      then read_dentry_by_index index s
      else find_dentry rest fname s)"

definition read_dentry_by_name :: "u32 \<Rightarrow> 'a filesys_scheme \<Rightarrow> dentry_t option" where
  "read_dentry_by_name fname s =
     (if fname = 0 then None
      else if mem s fname = 0 then None
      else find_dentry (map of_nat [0..<unat NUM_FILES]) fname s)"

definition flength :: "u32 \<Rightarrow> 'a filesys_scheme \<Rightarrow> u32" where
  "flength inode s = load32 (mem s) (fs_ptr s + 4096 * (inode + 1))"

section \<open>read_data\<close>

text \<open>The inner loop, which copies out of one data block. The block index is signed, the
  other counters are compared unsigned; the length is read from the inode in every turn.\<close>

function copy_block ::
  "(u32 \<Rightarrow> u8) \<Rightarrow> u32 \<Rightarrow> u32 \<Rightarrow> u32 \<Rightarrow> u32 \<Rightarrow> u32 \<Rightarrow> u32 \<Rightarrow> u32 \<Rightarrow> (u32 \<Rightarrow> u8) \<times> u32 \<times> u32" where
  "copy_block m buf data_block inode_block len count index_in_data_block offset =
     (if count < len \<and> index_in_data_block <s NUM_B_IN_FOUR_KB \<and> offset < load32 m inode_block
      then copy_block (m(buf + count := m (data_block + index_in_data_block)))
             buf data_block inode_block len (count + 1) (index_in_data_block + 1) (offset + 1)
      else (m, count, offset))"
  by pat_completeness auto
termination
  by (relation "measure (\<lambda>(m, buf, db, ib, len, count, i, offset). unat len - unat count)")
    (auto simp: inc_measure)

declare copy_block.simps [simp del]

lemma copy_block_progress:
  "copy_block m buf db ib len count i offset = (m', count', offset') \<Longrightarrow> count \<le> count'"
proof (induction m buf db ib len count i offset rule: copy_block.induct)
  case (1 m buf db ib len count i offset)
  show ?case
  proof (cases "count < len \<and> i <s NUM_B_IN_FOUR_KB \<and> offset < load32 m ib")
    case True
    then have "copy_block (m(buf + count := m (db + i))) buf db ib len (count + 1) (i + 1) (offset + 1)
        = (m', count', offset')"
      using "1.prems" by (subst (asm) copy_block.simps) (simp only: if_True simp_thms)
    from "1.IH" [OF True this] have "count + 1 \<le> count'" .
    moreover have "count \<le> count + 1"
      using True unat_inc [of count len] by (simp add: word_le_nat_alt)
    ultimately show ?thesis by simp
  next
    case False
    with "1.prems" show ?thesis by (simp add: copy_block.simps [of m] split: if_splits)
  qed
qed

lemma copy_block_step:
  assumes "count < len" "i <s NUM_B_IN_FOUR_KB" "offset < load32 m ib"
    "copy_block m buf db ib len count i offset = (m', count', offset')"
  shows "unat count < unat count'"
proof -
  have "count + 1 \<le> count'"
    using assms by (auto simp: copy_block.simps [of m] dest: copy_block_progress)
  then show ?thesis using unat_inc [OF assms(1)] by (simp add: word_le_nat_alt)
qed

lemma copy_block_stop:
  "\<not> (count < len \<and> i <s NUM_B_IN_FOUR_KB \<and> offset < load32 m ib) \<Longrightarrow>
   copy_block m buf db ib len count i offset = (m, count, offset)"
  by (subst copy_block.simps) (rule if_not_P)

text \<open>The outer loop over the data blocks; \<^verbatim>\<open>base\<close> is \<open>fs_ptr\<close>. The block number is an
  \<^verbatim>\<open>int32_t\<close> and so is the number of data blocks: the range check is signed.\<close>

function read_blocks ::
  "u32 \<Rightarrow> u32 \<Rightarrow> u32 \<Rightarrow> u32 \<Rightarrow> (u32 \<Rightarrow> u8) \<Rightarrow> u32 \<Rightarrow> u32 \<Rightarrow> u32 \<Rightarrow> u32 \<Rightarrow> (u32 \<Rightarrow> u8) \<times> u32" where
  "read_blocks base inode_block buf len m count index_in_inode index_in_data_block offset =
     (let data_block_num = load32 m (inode_block + 4 + 4 * index_in_inode) in
      if load32 m (base + 8) \<le>s data_block_num then (m, minus_one)
      else
        let data_block = base + NUM_B_IN_FOUR_KB * (load32 m (base + 4) + data_block_num + 1);
            (m', count', offset') =
              copy_block m buf data_block inode_block len count index_in_data_block offset
        in if count' \<ge> len \<or> offset' \<ge> load32 m' inode_block then (m', count')
           else read_blocks base inode_block buf len m' count' (index_in_inode + 1) 0 offset')"
  by pat_completeness auto
termination
proof (relation "measure (\<lambda>(base, ib, buf, len, m, count, ii, i, offset).
    2 * (unat len - unat count) + (if i <s NUM_B_IN_FOUR_KB then 0 else 1))")
  fix base ib buf len :: u32 and m and count ii i offset dbn db :: u32 and x y m' count' offset'
  assume x: "x = copy_block m buf db ib len count i offset" "(m', y) = x" "(count', offset') = y"
    and go: "\<not> (len \<le> count' \<or> load32 m' ib \<le> offset')"
  have cb: "copy_block m buf db ib len count i offset = (m', count', offset')" using x by simp
  have z: "(0 :: u32) <s NUM_B_IN_FOUR_KB" by (simp add: word_sless_alt NUM_B_IN_FOUR_KB_def)
  have "2 * (unat len - unat count') < 2 * (unat len - unat count) + (if i <s NUM_B_IN_FOUR_KB then 0 else 1)"
  proof (cases "count < len \<and> i <s NUM_B_IN_FOUR_KB \<and> offset < load32 m ib")
    case True
    then have "unat count < unat count'" using cb copy_block_step by blast
    moreover have "unat count' < unat len" using go by (simp add: word_le_nat_alt)
    ultimately show ?thesis by simp
  next
    case False
    then have "count' = count" "m' = m" "offset' = offset" using cb copy_block_stop by auto
    with False go show ?thesis by (auto simp: not_le)
  qed
  with z show "((base, ib, buf, len, m', count', ii + 1, 0, offset'), base, ib, buf, len, m, count, ii, i, offset)
      \<in> measure (\<lambda>(base, ib, buf, len, m, count, ii, i, offset).
        2 * (unat len - unat count) + (if i <s NUM_B_IN_FOUR_KB then 0 else 1))" by simp
qed simp

declare read_blocks.simps [simp del]

definition read_data :: "u32 \<Rightarrow> u32 \<Rightarrow> u32 \<Rightarrow> u32 \<Rightarrow> 'a filesys_scheme \<Rightarrow> u32 \<times> 'a filesys_scheme" where
  "read_data inode offset buf len s =
     (if inode \<ge> inode_count s then (minus_one, s)
      else
        let inode_block = inode_addr inode s in
        if offset \<ge> load32 (mem s) inode_block then (0, s)
        else case read_blocks (fs_ptr s) inode_block buf len (mem s) 0
               (offset div NUM_B_IN_FOUR_KB) (offset mod NUM_B_IN_FOUR_KB) offset of
          (m, count) \<Rightarrow> (count, s\<lparr>mem := m\<rparr>))"

section \<open>File and directory operations\<close>

text \<open>
  The first free slot from \<open>idx\<close> on, the loop of \<open>file_open\<close>; 8 when there is none.
\<close>

function free_slot :: "file_t list \<Rightarrow> nat \<Rightarrow> nat" where
  "free_slot files idx =
     (if idx < NUM_MAX_OPEN_FILES then
        if flags (files ! idx) = FILE_AVAIL then idx else free_slot files (idx + 1)
      else idx)"
  by pat_completeness auto
termination
  by (relation "measure (\<lambda>(files, idx). NUM_MAX_OPEN_FILES - idx)") auto

declare free_slot.simps [simp del]

text \<open>\<open>file_open\<close>. The branch of the clock returns before the position and the flags are set.
  \<^const>\<open>None\<close> is a name without an end.\<close>

definition file_open :: "u32 \<Rightarrow> 'a filesys_scheme \<Rightarrow> (u32 \<times> 'a filesys_scheme) option" where
  "file_open fname s =
     (if fname = 0 then Some (minus_one, s)
      else do {
        n \<leftarrow> strlen (mem s) fname;
        if n \<ge> of_nat FILENAME_LEN then Some (minus_one, s)
        else case read_dentry_by_name fname s of
          None \<Rightarrow> Some (minus_one, s)
        | Some new_dirent \<Rightarrow>
            let idx = free_slot (cur_files s) 2 in
            if idx \<ge> NUM_MAX_OPEN_FILES then Some (minus_one, s)
            else if filetype new_dirent = 2 \<or> filetype new_dirent = 1 then
              let ops = (if filetype new_dirent = 2 then FileOps else DirectoryOps);
                  f = (cur_files s ! idx)\<lparr>file_ops_table_ptr := ops, inode_num := dentry_inode new_dirent\<rparr>;
                  f = f\<lparr>file_position := 0, flags := FILE_OCCUP\<rparr>
              in Some (of_nat idx, set_files ((cur_files s)[idx := f]) s)
            else if filetype new_dirent = 0 then
              let f = (cur_files s ! idx)\<lparr>file_ops_table_ptr := RtcOps, inode_num := dentry_inode new_dirent\<rparr>;
                  s = set_files ((cur_files s)[idx := f]) s;
                  (_, s) = rtc_open s
              in Some (of_nat idx, s)
            else Some (minus_one, s) })"

definition file_close :: "u32 \<Rightarrow> 'a filesys_scheme \<Rightarrow> u32 \<times> 'a filesys_scheme" where
  "file_close fd s =
     (if 8 \<le>s fd \<or> fd <s 0 then (minus_one, s)
      else if flags (cur_files s ! unat fd) = FILE_AVAIL then (minus_one, s)
      else (0, set_files ((cur_files s)[unat fd := blank s]) s))"

text \<open>\<^const>\<open>None\<close>: the descriptor is outside the table, which the system call rules out.\<close>

definition file_read :: "u32 \<Rightarrow> u32 \<Rightarrow> u32 \<Rightarrow> 'a filesys_scheme \<Rightarrow> (u32 \<times> 'a filesys_scheme) option" where
  "file_read fd buf nbytes s =
     (if fd = 1 \<or> fd = 0 then Some (minus_one, s)
      else if unat fd \<ge> NUM_MAX_OPEN_FILES then None
      else
        let inode = inode_num (cur_files s ! unat fd);
            os = file_position (cur_files s ! unat fd);
            (rd, s) = read_data inode os buf nbytes s;
            f = cur_files s ! unat fd;
            s = set_files ((cur_files s)[unat fd := f\<lparr>file_position := file_position f + rd\<rparr>]) s
        in Some (rd, s))"

definition file_write :: "u32 \<Rightarrow> u32 \<Rightarrow> u32 \<Rightarrow> 'a filesys_scheme \<Rightarrow> u32 \<times> 'a filesys_scheme" where
  "file_write fd buf nbytes s = (minus_one, s)"

definition directory_open :: "u32 \<Rightarrow> 'a filesys_scheme \<Rightarrow> (u32 \<times> 'a filesys_scheme) option" where
  "directory_open fname s =
     (case read_dentry_by_name fname s of
        None \<Rightarrow> Some (minus_one, s)
      | Some new_dirent \<Rightarrow> if filetype new_dirent \<noteq> 1 then Some (minus_one, s) else file_open fname s)"

definition directory_close :: "u32 \<Rightarrow> 'a filesys_scheme \<Rightarrow> u32 \<times> 'a filesys_scheme" where
  "directory_close fd s = file_close fd s"

text \<open>The copy loop of \<open>directory_read\<close>: up to a NUL or 32 bytes. It reads entry 32 of the name
  before it finds the index too large; that byte is not used.\<close>

fun copy_name :: "u8 list \<Rightarrow> u32 \<Rightarrow> nat \<Rightarrow> (u32 \<Rightarrow> u8) \<Rightarrow> nat \<times> (u32 \<Rightarrow> u8)" where
  "copy_name [] buf i m = (i, m)"
| "copy_name (c # cs) buf i m =
     (if c \<noteq> 0 then copy_name cs buf (i + 1) (m(buf + of_nat i := c)) else (i, m))"

definition directory_read ::
  "u32 \<Rightarrow> u32 \<Rightarrow> u32 \<Rightarrow> 'a filesys_scheme \<Rightarrow> (u32 \<times> 'a filesys_scheme) option" where
  "directory_read fd buf nbytes s =
     (if unat fd \<ge> NUM_MAX_OPEN_FILES then None
      else
        let f = cur_files s ! unat fd in
        case read_dentry_by_index (file_position f) s of
          None \<Rightarrow> Some (minus_one, s)
        | Some new_dirent \<Rightarrow>
            let s = set_files ((cur_files s)[unat fd := f\<lparr>file_position := file_position f + 1\<rparr>]) s;
                (i, m) = copy_name (filename new_dirent) buf 0 (mem s);
                s = s\<lparr>mem := m(buf + of_nat i := 0)\<rparr>
            in Some (of_nat i, s))"

definition directory_write :: "u32 \<Rightarrow> u32 \<Rightarrow> u32 \<Rightarrow> 'a filesys_scheme \<Rightarrow> u32 \<times> 'a filesys_scheme" where
  "directory_write fd buf nbytes s = (minus_one, s)"

definition filesys_init :: "u32 \<Rightarrow> 'a filesys_scheme \<Rightarrow> 'a filesys_scheme" where
  "filesys_init ptr s =
     s\<lparr>fs_ptr := ptr,
       blank := \<lparr>file_ops_table_ptr = NoOps, inode_num = 0, file_position = 0, flags = FILE_AVAIL\<rparr>\<rparr>"

text \<open>The table a new process starts with.\<close>

definition init_file_array :: "file_t \<Rightarrow> file_t list" where
  "init_file_array bl =
     (let terminal = \<lparr>file_ops_table_ptr = TerminalOps, inode_num = 0, file_position = 0, flags = FILE_OCCUP\<rparr>
      in (map (\<lambda>i. bl) [0..<NUM_MAX_OPEN_FILES])[0 := terminal, 1 := terminal])"

section \<open>Descriptor tables\<close>

text \<open>A table in use: eight slots, the two of the terminal, and an opened slot has the
  operations of what was opened.\<close>

definition slot_ok :: "file_t \<Rightarrow> bool" where
  "slot_ok f \<longleftrightarrow> flags f = FILE_AVAIL \<or> flags f = FILE_OCCUP \<and> file_ops_table_ptr f \<in> {FileOps, DirectoryOps}"

definition files_ok :: "file_t list \<Rightarrow> bool" where
  "files_ok fs \<longleftrightarrow> length fs = 8 \<and>
     (\<forall>i < 2. flags (fs ! i) = FILE_OCCUP \<and> file_ops_table_ptr (fs ! i) = TerminalOps) \<and>
     (\<forall>i \<in> {2..<8}. slot_ok (fs ! i))"

definition blank_ok :: "'a filesys_scheme \<Rightarrow> bool" where
  "blank_ok s \<longleftrightarrow> flags (blank s) = FILE_AVAIL"

lemma init_file_array_ok: "flags bl = FILE_AVAIL \<Longrightarrow> files_ok (init_file_array bl)"
  by (auto simp: init_file_array_def files_ok_def slot_ok_def NUM_MAX_OPEN_FILES_def Let_def less_Suc_eq
      numeral_2_eq_2)

lemma filesys_init_ok: "blank_ok (filesys_init p s)" "fs_ptr (filesys_init p s) = p"
  by (simp_all add: filesys_init_def blank_ok_def)

lemma cur_files_set [simp]: "cur_files (set_files fs s) = fs"
  by (simp add: cur_files_def cur_pcb_def set_files_def getCurrentProcessPCB_def)

lemma set_files_frame [simp, frame_simps]:
  "mem (set_files fs s) = mem s" "io (set_files fs s) = io s" "inq (set_files fs s) = inq s"
  "eflags (set_files fs s) = eflags s" "fs_ptr (set_files fs s) = fs_ptr s" "blank (set_files fs s) = blank s"
  "esp (set_files fs s) = esp s" "getCurrentProcessPCB (set_files fs s) = getCurrentProcessPCB s"
  "filesys.more (set_files fs s) = filesys.more s"
  by (simp_all add: set_files_def getCurrentProcessPCB_def)

text \<open>The search finds the lowest free slot.\<close>

lemma free_slot_spec:
  "idx \<le> 8 \<Longrightarrow> idx \<le> free_slot fs idx \<and> free_slot fs idx \<le> 8 \<and>
   (\<forall>i. idx \<le> i \<longrightarrow> i < free_slot fs idx \<longrightarrow> flags (fs ! i) \<noteq> FILE_AVAIL) \<and>
   (free_slot fs idx < 8 \<longrightarrow> flags (fs ! free_slot fs idx) = FILE_AVAIL)"
proof (induction fs idx rule: free_slot.induct)
  case (1 fs idx)
  consider "idx = 8" | "idx < 8" "flags (fs ! idx) = FILE_AVAIL" | "idx < 8" "flags (fs ! idx) \<noteq> FILE_AVAIL"
    using "1.prems" by linarith
  then show ?case
  proof cases
    case 3
    then have eq: "free_slot fs idx = free_slot fs (idx + 1)"
      by (subst free_slot.simps) (simp add: NUM_MAX_OPEN_FILES_def)
    have ih: "idx + 1 \<le> free_slot fs (idx + 1) \<and> free_slot fs (idx + 1) \<le> 8 \<and>
        (\<forall>i. idx + 1 \<le> i \<longrightarrow> i < free_slot fs (idx + 1) \<longrightarrow> flags (fs ! i) \<noteq> FILE_AVAIL) \<and>
        (free_slot fs (idx + 1) < 8 \<longrightarrow> flags (fs ! free_slot fs (idx + 1)) = FILE_AVAIL)"
      using 3 by (intro "1.IH") (auto simp: NUM_MAX_OPEN_FILES_def)
    have "flags (fs ! i) \<noteq> FILE_AVAIL" if "idx \<le> i" "i < free_slot fs (idx + 1)" for i
      using that 3 ih by (cases "i = idx") auto
    with ih show ?thesis unfolding eq by auto
  qed (subst (1 2 3 4 5) free_slot.simps; simp add: NUM_MAX_OPEN_FILES_def)+
qed

section \<open>What a file holds\<close>

text \<open>
  The contents of a file by the layout of the image at \<open>p\<close>: byte \<open>o\<close> is byte
  \<open>o mod 4096\<close> of the data block whose number stands at position \<open>o div 4096\<close> of the inode.
\<close>

definition img_inodes :: "(u32 \<Rightarrow> u8) \<Rightarrow> u32 \<Rightarrow> nat" where
  "img_inodes m p = unat (load32 m (p + 4))"

definition img_blocks :: "(u32 \<Rightarrow> u8) \<Rightarrow> u32 \<Rightarrow> nat" where
  "img_blocks m p = unat (load32 m (p + 8))"

definition img_size :: "(u32 \<Rightarrow> u8) \<Rightarrow> u32 \<Rightarrow> nat" where
  "img_size m p = 4096 * (1 + img_inodes m p + img_blocks m p)"

definition inode_at :: "u32 \<Rightarrow> nat \<Rightarrow> u32" where
  "inode_at p ino = p + of_nat (4096 * (ino + 1))"

definition file_len :: "(u32 \<Rightarrow> u8) \<Rightarrow> u32 \<Rightarrow> nat \<Rightarrow> nat" where
  "file_len m p ino = unat (load32 m (inode_at p ino))"

definition block_no :: "(u32 \<Rightarrow> u8) \<Rightarrow> u32 \<Rightarrow> nat \<Rightarrow> nat \<Rightarrow> nat" where
  "block_no m p ino k = unat (load32 m (inode_at p ino + of_nat (4 + 4 * k)))"

definition block_at :: "(u32 \<Rightarrow> u8) \<Rightarrow> u32 \<Rightarrow> nat \<Rightarrow> nat \<Rightarrow> u32" where
  "block_at m p ino k = p + of_nat (4096 * (img_inodes m p + block_no m p ino k + 1))"

definition file_slice :: "(u32 \<Rightarrow> u8) \<Rightarrow> u32 \<Rightarrow> nat \<Rightarrow> nat \<Rightarrow> nat \<Rightarrow> u8 list" where
  "file_slice m p ino o1 n = map (\<lambda>j. m (block_at m p ino (j div 4096) + of_nat (j mod 4096))) [o1..<o1 + n]"

definition file_content :: "(u32 \<Rightarrow> u8) \<Rightarrow> u32 \<Rightarrow> nat \<Rightarrow> u8 list" where
  "file_content m p ino = file_slice m p ino 0 (file_len m p ino)"

text \<open>A sound image: it does not wrap, a file fits the 1023 block numbers of its inode, and
  its blocks exist.\<close>

definition img_ok :: "(u32 \<Rightarrow> u8) \<Rightarrow> u32 \<Rightarrow> bool" where
  "img_ok m p \<longleftrightarrow> img_size m p \<le> 2 ^ 31 \<and>
     (\<forall>ino < img_inodes m p. file_len m p ino \<le> 1023 * 4096 \<and>
        (\<forall>k. 4096 * k < file_len m p ino \<longrightarrow> block_no m p ino k < img_blocks m p))"

definition img_rng :: "(u32 \<Rightarrow> u8) \<Rightarrow> u32 \<Rightarrow> u32 set" where
  "img_rng m p = rng p (img_size m p)"

text \<open>A read that stays inside the file is a slice of its contents.\<close>

lemma file_slice_content:
  "off + n \<le> file_len m p ino \<Longrightarrow> file_slice m p ino off n = take n (drop off (file_content m p ino))"
  by (simp add: file_slice_def file_content_def drop_map take_map take_upt drop_upt)

lemma length_file_slice [simp]: "length (file_slice m p ino off n) = n"
  by (simp add: file_slice_def)

lemma file_slice_add:
  "file_slice m p ino off (j + k) = file_slice m p ino off j @ file_slice m p ino (off + j) k"
  using upt_add_eq_append [of off "off + j" k] by (simp add: file_slice_def add.assoc)

text \<open>A slice inside one block.\<close>

lemma file_slice_block:
  "i < 4096 \<Longrightarrow> i + n \<le> 4096 \<Longrightarrow>
   file_slice m p ino (4096 * k + i) n = bytes_at m (block_at m p ino k + of_nat i) n"
proof (rule nth_equalityI)
  fix j assume "i < 4096" "i + n \<le> 4096" "j < length (file_slice m p ino (4096 * k + i) n)"
  then have j: "j < n" "i + j < 4096" by auto
  then have "(4096 * k + (i + j)) div 4096 = k" "(4096 * k + (i + j)) mod 4096 = i + j"
    unfolding div_mult_self4 mod_mult_self4 by simp_all
  then show "file_slice m p ino (4096 * k + i) n ! j = bytes_at m (block_at m p ino k + of_nat i) n ! j"
    using j by (simp add: file_slice_def add.assoc)
qed simp

text \<open>The image is all that the contents depend on.\<close>

definition img_agree :: "(u32 \<Rightarrow> u8) \<Rightarrow> u32 \<Rightarrow> (u32 \<Rightarrow> u8) \<Rightarrow> bool" where
  "img_agree m p m' \<longleftrightarrow> (\<forall>b \<in> img_rng m p. m' b = m b)"

lemma img_load:
  assumes "img_agree m p m'" "j + 4 \<le> img_size m p"
  shows "load32 m' (p + of_nat j) = load32 m (p + of_nat j)"
  using assms rng_shift [of j 4 "img_size m p" p] by (intro load32_cong) (auto simp: img_rng_def img_agree_def)

lemma inode_pos: "inode_at p ino + of_nat j = p + of_nat (4096 * (ino + 1) + j)"
  by (simp add: inode_at_def add.assoc)

lemma img_same:
  assumes same: "img_agree m p m'"
  shows "img_inodes m' p = img_inodes m p" "img_blocks m' p = img_blocks m p"
    "ino < img_inodes m p \<Longrightarrow> file_len m' p ino = file_len m p ino"
    "ino < img_inodes m p \<Longrightarrow> k < 1023 \<Longrightarrow> block_no m' p ino k = block_no m p ino k"
    "ino < img_inodes m p \<Longrightarrow> k < 1023 \<Longrightarrow> block_at m' p ino k = block_at m p ino k"
proof -
  have big: "4096 \<le> img_size m p" by (simp add: img_size_def)
  show i: "img_inodes m' p = img_inodes m p" and "img_blocks m' p = img_blocks m p"
    using img_load [OF same, where j = 4] img_load [OF same, where j = 8] big
    by (simp_all add: img_inodes_def img_blocks_def)
  have fit: "4096 * (ino + 1) + 4096 \<le> img_size m p" if "ino < img_inodes m p" for ino
    using that by (simp add: img_size_def)
  show "file_len m' p ino = file_len m p ino" if "ino < img_inodes m p"
    using fit [OF that] img_load [OF same, where j = "4096 * (ino + 1)"]
    by (simp add: file_len_def inode_at_def del: of_nat_mult of_nat_add of_nat_Suc)
  show b: "block_no m' p ino k = block_no m p ino k" if "ino < img_inodes m p" "k < 1023"
    using fit [OF that(1)] that(2) img_load [OF same, where j = "4096 * (ino + 1) + (4 + 4 * k)"]
    unfolding block_no_def inode_pos by simp
  show "block_at m' p ino k = block_at m p ino k" if "ino < img_inodes m p" "k < 1023"
    using b [OF that] i by (simp add: block_at_def)
qed

lemma block_inside:
  assumes "img_ok m p" "ino < img_inodes m p" "4096 * k < file_len m p ino" "i + n \<le> 4096"
  shows "rng (block_at m p ino k + of_nat i) n \<subseteq> img_rng m p"
proof -
  have "block_no m p ino k < img_blocks m p" using assms by (auto simp: img_ok_def)
  then have "4096 * (img_inodes m p + block_no m p ino k + 1) + 4096 \<le> img_size m p"
    by (simp add: img_size_def)
  then have "4096 * (img_inodes m p + block_no m p ino k + 1) + i + n \<le> img_size m p"
    using assms(4) by linarith
  then show ?thesis
    unfolding block_at_def img_rng_def add.assoc of_nat_add [symmetric] by (intro rng_shift) (simp only: add.assoc)
qed

lemma img_slice_same:
  assumes same: "img_agree m p m'"
    and ok: "img_ok m p" "ino < img_inodes m p" "off + n \<le> file_len m p ino"
  shows "file_slice m' p ino off n = file_slice m p ino off n"
  unfolding file_slice_def
proof (rule map_cong [OF refl])
  fix j assume "j \<in> set [off..<off + n]"
  then have j: "j < file_len m p ino" using ok(3) by simp
  then have k: "4096 * (j div 4096) < file_len m p ino" by (metis le_less_trans mult.commute div_times_less_eq_dividend)
  have "j < 1023 * 4096" using j ok(1,2) by (force simp: img_ok_def)
  then have "j div 4096 < 1023" by (simp add: less_mult_imp_div_less)
  moreover have "block_at m p ino (j div 4096) + of_nat (j mod 4096) \<in> img_rng m p"
    using block_inside [OF ok(1,2) k, of "j mod 4096" 1] by auto
  ultimately show "m' (block_at m' p ino (j div 4096) + of_nat (j mod 4096)) =
      m (block_at m p ino (j div 4096) + of_nat (j mod 4096))"
    using same img_same(5) [OF same ok(2)] by (simp add: img_agree_def)
qed

section \<open>read_data reads the file\<close>

lemma small_less:
  assumes "a < 2 ^ 32" "b < 2 ^ 32"
  shows "(of_nat a :: u32) < of_nat b \<longleftrightarrow> a < b" "(of_nat a :: u32) \<le> of_nat b \<longleftrightarrow> a \<le> b"
  using assms by (simp_all add: word_less_nat_alt word_le_nat_alt unat_of_nat)

lemma small_block: "i \<le> 4096 \<Longrightarrow> (of_nat i :: u32) <s NUM_B_IN_FOUR_KB \<longleftrightarrow> i < 4096"
  by (simp add: word_sless_alt NUM_B_IN_FOUR_KB_def sint_of_nat)

text \<open>One block: \<open>k\<close> bytes, where \<open>k\<close> is the least of what is wanted, what is left of the
  block and what is left of the file.\<close>

lemma copy_block_copies:
  assumes "c + k \<le> n" "i + k \<le> 4096" "off + k \<le> unat (load32 m ib)"
    and stop: "c + k = n \<or> i + k = 4096 \<or> off + k = unat (load32 m ib)"
    and n: "n < 2 ^ 32"
    and dis: "rng (buf + of_nat c) k \<inter> (rng (db + of_nat i) k \<union> rng ib 4) = {}"
  shows "copy_block m buf db ib (of_nat n) (of_nat c) (of_nat i) (of_nat off) =
    (store_bytes m (buf + of_nat c) (bytes_at m (db + of_nat i) k), of_nat (c + k), of_nat (off + k))"
  using assms(1-4) dis
proof (induction k arbitrary: m c i off)
  case 0
  then show ?case
    using n u32_bound [of "load32 m ib"]
    by (intro trans [OF copy_block_stop])
      (auto simp: small_less small_block word_less_nat_alt unat_of_nat)
next
  case (Suc k)
  let ?m = "m(buf + of_nat c := m (db + of_nat i))"
  have L: "unat (load32 m ib) < 2 ^ 32" by (rule u32_bound)
  have off: "(of_nat off :: u32) < load32 m ib"
    using Suc.prems(3) L by (simp add: word_less_nat_alt unat_of_nat)
  have go: "(of_nat c :: u32) < of_nat n \<and> (of_nat i :: u32) <s NUM_B_IN_FOUR_KB \<and> (of_nat off :: u32) < load32 m ib"
    using Suc.prems n off by (simp add: small_less small_block)
  have d1: "rng (buf + of_nat (Suc c)) k \<inter> (rng (db + of_nat (Suc i)) k \<union> rng ib 4) = {}"
    and d2: "buf + of_nat c \<notin> rng (db + of_nat (Suc i)) k" "buf + of_nat c \<notin> rng ib 4"
    using Suc.prems(5) by (auto simp: rng_Suc add.assoc add.commute [of 1])
  have ld: "load32 ?m ib = load32 m ib" using d2(2) by (intro load32_cong) auto
  have "copy_block m buf db ib (of_nat n) (of_nat c) (of_nat i) (of_nat off) =
      copy_block ?m buf db ib (of_nat n) (of_nat (Suc c)) (of_nat (Suc i)) (of_nat (Suc off))"
    using go by (subst copy_block.simps) (simp only: if_True simp_thms of_nat_Suc add.commute)
  also have "\<dots> = (store_bytes ?m (buf + of_nat (Suc c)) (bytes_at ?m (db + of_nat (Suc i)) k),
      of_nat (Suc c + k), of_nat (Suc off + k))"
    using Suc.prems d1 by (intro Suc.IH) (simp_all only: ld, simp_all)
  also have "bytes_at ?m (db + of_nat (Suc i)) k = bytes_at m (db + of_nat (Suc i)) k"
    using d2(1) by (rule bytes_at_fun_upd)
  also have "store_bytes ?m (buf + of_nat (Suc c)) (bytes_at m (db + of_nat (Suc i)) k)
      = store_bytes m (buf + of_nat c) (bytes_at m (db + of_nat i) (Suc k))"
    by (simp add: add.assoc add.commute [of 1])
  finally show ?case by (simp only: add_Suc add_Suc_right)
qed

lemma img_ok_same:
  assumes same: "img_agree m p m'" and ok: "img_ok m p"
  shows "img_ok m' p" "img_rng m' p = img_rng m p"
proof -
  note im = img_same [OF same]
  show "img_rng m' p = img_rng m p" by (simp add: img_rng_def img_size_def im)
  have "block_no m' p ino k < img_blocks m p"
    if "ino < img_inodes m p" "4096 * k < file_len m p ino" for ino k
  proof -
    have "k < 1023" using that ok by (force simp: img_ok_def)
    with that ok show ?thesis by (simp add: im img_ok_def)
  qed
  with ok show "img_ok m' p" by (auto simp: img_ok_def img_size_def im)
qed

lemma block_end:
  assumes "k = 4096 - off mod 4096"
  shows "(off + k) div 4096 = off div 4096 + 1" "(off + k) mod 4096 = (0 :: nat)" "0 < k"
proof -
  define a b where "a = off mod 4096" and "b = off div 4096"
  have "a < 4096" "off = 4096 * b + a" by (simp_all add: a_def b_def)
  moreover have "k = 4096 - a" using assms by (simp add: a_def)
  ultimately have "off + k = 4096 * (b + 1) \<and> 0 < k" by simp
  then have "off + k = 4096 * (off div 4096 + 1)" "0 < k" unfolding b_def by blast+
  then show "(off + k) div 4096 = off div 4096 + 1" "(off + k) mod 4096 = 0" "0 < k" by simp_all
qed

lemma least_of_three:
  assumes "(a :: nat) \<le> a'" "b \<le> b'" "c \<le> c'"
  obtains k where "a + k \<le> a'" "b + k \<le> b'" "c + k \<le> c'" "a + k = a' \<or> b + k = b' \<or> c + k = c'"
proof -
  obtain x y z where xyz: "a' = a + x" "b' = b + y" "c' = c + z"
    using assms by (auto simp: le_iff_add)
  show thesis
    by (rule that [of "min x (min y z)"]) (auto simp: xyz min_def)
qed

lemma read_blocks_slice:
  assumes ok: "img_ok m p" "ino < img_inodes m p"
    and dis: "rng buf n \<inter> img_rng m p = {}" and n: "n < 2 ^ 31"
    and pos: "c \<le> n" "off < file_len m p ino"
  shows "read_blocks p (inode_at p ino) buf (of_nat n) m (of_nat c) (of_nat (off div 4096))
      (of_nat (off mod 4096)) (of_nat off) =
    (store_bytes m (buf + of_nat c) (file_slice m p ino off (min (n - c) (file_len m p ino - off))),
     of_nat (c + min (n - c) (file_len m p ino - off)))"
  using ok dis pos
proof (induction "n - c" arbitrary: m c off rule: less_induct)
  case less
  let ?L = "file_len m p ino" and ?i = "off mod 4096" and ?q = "off div 4096"
  obtain k where K: "c + k \<le> n" "?i + k \<le> 4096" "off + k \<le> ?L"
    "c + k = n \<or> ?i + k = 4096 \<or> off + k = ?L"
    using least_of_three [of c n ?i 4096 off ?L] less.prems(4,5) by auto
  let ?B = "block_no m p ino ?q"
  have L: "?L \<le> 1023 * 4096" and size: "img_size m p \<le> 2 ^ 31" using less.prems by (auto simp: img_ok_def)
  have q: "4096 * ?q < ?L" using less.prems(5) by (metis le_less_trans mult.commute div_times_less_eq_dividend)
  have q1: "?q < 1023" using L less.prems(5) by (simp add: less_mult_imp_div_less)
  have B: "?B < img_blocks m p" using less.prems(1,2) q by (auto simp: img_ok_def)
  have ldno: "load32 m (inode_at p ino + 4 + 4 * of_nat ?q) = of_nat ?B"
    unfolding block_no_def by (simp add: add.assoc)
  have D31: "img_blocks m p < 2 ^ 31" using size by (simp add: img_size_def)
  have "sint (of_nat ?B :: u32) = int ?B" "sint (load32 m (p + 8)) = int (img_blocks m p)"
    using B D31 by (simp_all add: sint_of_nat sint_unat img_blocks_def)
  then have inr: "\<not> load32 m (p + 8) \<le>s of_nat ?B" using B by (simp add: word_sle_eq)
  have db: "p + NUM_B_IN_FOUR_KB * (load32 m (p + 4) + of_nat ?B + 1) = block_at m p ino ?q"
    by (simp add: block_at_def img_inodes_def NUM_B_IN_FOUR_KB_def algebra_simps)
  have src: "rng (block_at m p ino ?q + of_nat ?i) k \<subseteq> img_rng m p"
    by (rule block_inside [OF less.prems(1,2) q K(2)])
  have inode: "rng (inode_at p ino) 4 \<subseteq> img_rng m p"
    unfolding inode_at_def img_rng_def using less.prems(2) by (intro rng_shift) (simp add: img_size_def)
  have dst: "rng (buf + of_nat c) k \<subseteq> rng buf n" using K(1) by (rule rng_shift)
  let ?m = "store_bytes m (buf + of_nat c) (bytes_at m (block_at m p ino ?q + of_nat ?i) k)"
  have cb: "copy_block m buf (block_at m p ino ?q) (inode_at p ino) (of_nat n) (of_nat c) (of_nat ?i) (of_nat off)
      = (?m, of_nat (c + k), of_nat (off + k))"
  proof (rule copy_block_copies)
    show "c + k \<le> n" "?i + k \<le> 4096" "off + k \<le> unat (load32 m (inode_at p ino))"
      "c + k = n \<or> ?i + k = 4096 \<or> off + k = unat (load32 m (inode_at p ino))"
      using K unfolding file_len_def by blast+
    show "n < 2 ^ 32" using n by simp
    show "rng (buf + of_nat c) k \<inter> (rng (block_at m p ino ?q + of_nat ?i) k \<union> rng (inode_at p ino) 4) = {}"
      using less.prems(3) src inode dst by blast
  qed
  have slice: "bytes_at m (block_at m p ino ?q + of_nat ?i) k = file_slice m p ino off k"
  proof -
    have i: "?i < 4096" by simp
    have "4096 * ?q + ?i = off" by simp
    then show ?thesis using file_slice_block [OF i K(2), of m p ino ?q] by (simp only:)
  qed
  have same: "img_agree m p ?m"
    unfolding img_agree_def
  proof
    fix b assume "b \<in> img_rng m p"
    then have "b \<notin> rng (buf + of_nat c) k" using dst less.prems(3) by blast
    then show "?m b = m b" by simp
  qed
  note im = img_same [OF same]
  have len': "load32 ?m (inode_at p ino) = load32 m (inode_at p ino)"
    using same inode unfolding img_agree_def by (intro load32_cong) blast
  have Lw: "load32 m (inode_at p ino) = of_nat ?L" by (simp add: file_len_def)
  have L32: "?L < 2 ^ 32" "off + k < 2 ^ 32" "c + k < 2 ^ 32" "n < 2 ^ 32" using L K n by simp_all
  have unfold: "read_blocks p (inode_at p ino) buf (of_nat n) m (of_nat c) (of_nat ?q) (of_nat ?i) (of_nat off) =
      (if n \<le> c + k \<or> ?L \<le> off + k then (?m, of_nat (c + k))
       else read_blocks p (inode_at p ino) buf (of_nat n) ?m (of_nat (c + k)) (of_nat ?q + 1) 0 (of_nat (off + k)))"
    unfolding read_blocks.simps [of p _ _ _ m] Let_def ldno db cb prod.case len' Lw
    using inr L32 by (simp only: small_less if_False)
  show ?case
  proof (cases "n \<le> c + k \<or> ?L \<le> off + k")
    case True
    then have "k = min (n - c) (?L - off)" using K by (simp add: min_def) arith
    with True show ?thesis unfolding unfold slice by simp
  next
    case False
    then have k: "k = 4096 - ?i" "c + k < n" "off + k < ?L" using K by simp_all
    note e = block_end [OF k(1)]
    let ?r = "min (n - (c + k)) (?L - (off + k))"
    have sm: "file_len ?m p ino = ?L" by (rule im(3) [OF less.prems(2)])
    have "read_blocks p (inode_at p ino) buf (of_nat n) ?m (of_nat (c + k)) (of_nat ((off + k) div 4096))
        (of_nat ((off + k) mod 4096)) (of_nat (off + k)) =
      (store_bytes ?m (buf + of_nat (c + k)) (file_slice ?m p ino (off + k) (min (n - (c + k)) (file_len ?m p ino - (off + k)))),
       of_nat (c + k + min (n - (c + k)) (file_len ?m p ino - (off + k))))"
    proof (rule less.hyps)
      show "n - (c + k) < n - c" using k(2) e(3) by simp
      show "img_ok ?m p" by (rule img_ok_same(1) [OF same less.prems(1)])
      show "ino < img_inodes ?m p" using less.prems(2) by (simp only: im(1))
      show "rng buf n \<inter> img_rng ?m p = {}" using less.prems(3) by (simp only: img_ok_same(2) [OF same less.prems(1)])
      show "c + k \<le> n" by (rule K(1))
      show "off + k < file_len ?m p ino" unfolding sm by (rule k(3))
    qed
    also have "file_slice ?m p ino (off + k) (min (n - (c + k)) (file_len ?m p ino - (off + k)))
        = file_slice m p ino (off + k) ?r"
      unfolding sm by (rule img_slice_same [OF same less.prems(1,2)]) (use k(3) in simp)
    finally have rec: "read_blocks p (inode_at p ino) buf (of_nat n) ?m (of_nat (c + k)) (of_nat ?q + 1) 0 (of_nat (off + k)) =
      (store_bytes ?m (buf + of_nat (c + k)) (file_slice m p ino (off + k) ?r), of_nat (c + k + ?r))"
      unfolding sm e(1,2) by (simp only: of_nat_add of_nat_1 semiring_1_class.of_nat_0)
    have tot: "min (n - c) (?L - off) = k + ?r" using k(2,3) by linarith
    have "store_bytes ?m (buf + of_nat (c + k)) (file_slice m p ino (off + k) ?r)
        = store_bytes m (buf + of_nat c) (file_slice m p ino off (k + ?r))"
      unfolding slice file_slice_add store_bytes_append by (simp add: add.assoc)
    with False show ?thesis unfolding unfold rec tot by (simp add: add.assoc)
  qed
qed

lemma unat_4096: "unat (4096 :: u32) = 4096"
  by simp

text \<open>\<open>read_data\<close> on a sound image, into a buffer outside of it: the bytes of the file from
  \<open>offset\<close> on, as many as asked for and there are.\<close>

lemma inode_addr_at: "inode_addr (of_nat ino) s = inode_at (fs_ptr s) ino"
  by (simp add: inode_addr_def inode_at_def NUM_B_IN_FOUR_KB_def)

lemma flength_len: "unat (flength inode s) = file_len (mem s) (fs_ptr s) (unat inode)"
  by (simp add: flength_def file_len_def inode_at_def algebra_simps)

lemma read_data_slice:
  fixes s :: "'a filesys_scheme"
  defines "m \<equiv> mem s" and "p \<equiv> fs_ptr s"
  assumes ok: "img_ok m p" "unat inode < img_inodes m p"
    and dis: "rng buf (unat n) \<inter> img_rng m p = {}" and n: "unat n < 2 ^ 31"
  shows "read_data inode offset buf n s =
    (of_nat (min (unat n) (file_len m p (unat inode) - unat offset)),
     s\<lparr>mem := store_bytes m buf (file_slice m p (unat inode) (unat offset)
        (min (unat n) (file_len m p (unat inode) - unat offset)))\<rparr>)"
proof -
  let ?ino = "unat inode" and ?off = "unat offset"
  have ia: "inode_addr inode s = inode_at p ?ino" using inode_addr_at [of ?ino s] by (simp add: p_def)
  have ic: "\<not> inode \<ge> inode_count s"
    using ok(2) by (simp add: inode_count_def img_inodes_def m_def p_def word_le_nat_alt)
  have len: "offset \<ge> load32 (mem s) (inode_addr inode s) \<longleftrightarrow> file_len m p ?ino \<le> ?off"
    by (simp add: ia file_len_def m_def word_le_nat_alt)
  show ?thesis
  proof (cases "file_len m p ?ino \<le> ?off")
    case True
    then show ?thesis using ic len by (simp add: read_data_def m_def file_slice_def)
  next
    case False
    have "read_blocks p (inode_at p ?ino) buf (of_nat (unat n)) m (of_nat 0) (of_nat (?off div 4096))
        (of_nat (?off mod 4096)) (of_nat ?off) =
      (store_bytes m (buf + of_nat 0) (file_slice m p ?ino ?off (min (unat n - 0) (file_len m p ?ino - ?off))),
       of_nat (0 + min (unat n - 0) (file_len m p ?ino - ?off)))"
      using ok dis n False by (intro read_blocks_slice) auto
    moreover have id: "(of_nat (unat w) :: u32) = w" for w :: u32 by simp
    have "(of_nat (?off div 4096) :: u32) = offset div NUM_B_IN_FOUR_KB"
      "(of_nat (?off mod 4096) :: u32) = offset mod NUM_B_IN_FOUR_KB"
      using id [of "offset div 4096"] id [of "offset mod 4096"]
      by (simp_all only: NUM_B_IN_FOUR_KB_def unat_div_distrib unat_mod_distrib unat_4096)
    ultimately show ?thesis
      using ic len False by (simp add: read_data_def ia m_def [symmetric] p_def [symmetric] Let_def)
  qed
qed

text \<open>The two error cases: no such inode, and the end of the file.\<close>

lemma read_data_no_inode: "inode_count s \<le> inode \<Longrightarrow> read_data inode offset buf n s = (minus_one, s)"
  by (simp add: read_data_def)

lemma read_data_eof:
  "inode < inode_count s \<Longrightarrow> flength inode s \<le> offset \<Longrightarrow> read_data inode offset buf n s = (0, s)"
  by (simp add: read_data_def flength_def inode_addr_def NUM_B_IN_FOUR_KB_def not_le)

section \<open>The directory\<close>

text \<open>The name of entry \<open>i\<close>: at most 32 bytes, up to a NUL.\<close>

definition dir_name :: "'a filesys_scheme \<Rightarrow> nat \<Rightarrow> u8 list" where
  "dir_name s i = upto_nul (bytes_at (mem s) (dentry_addr (of_nat i) s) 32)"

definition dentry_of :: "'a filesys_scheme \<Rightarrow> nat \<Rightarrow> dentry_t" where
  "dentry_of s i = \<lparr>filename = bytes_at (mem s) (dentry_addr (of_nat i) s) 32,
     filetype = load32 (mem s) (dentry_addr (of_nat i) s + 32),
     dentry_inode = load32 (mem s) (dentry_addr (of_nat i) s + 36)\<rparr>"

lemma read_dentry_by_index_eq:
  "read_dentry_by_index i s = (if unat i < 63 then Some (dentry_of s (unat i)) else None)"
  by (simp add: read_dentry_by_index_def dentry_of_def NUM_FILES_def FILENAME_LEN_def word_le_nat_alt)

lemma find_dentry_first:
  "list_all (\<lambda>i. i < 63) is \<Longrightarrow> find_dentry (map of_nat is) fname s =
    map_option (dentry_of s) (find (\<lambda>i. dir_name s i = upto_nul (bytes_at (mem s) fname 32)) is)"
proof (induction "is")
  case (Cons i "is")
  then have "unat (of_nat i :: u32) = i" "i < 63" by (simp_all add: unat_of_nat)
  with Cons show ?case
    by (auto simp: read_dentry_by_index_eq strncmp_eq_0 dir_name_def FILENAME_LEN_def)
qed simp

text \<open>A lookup by name finds the first entry whose name is the string, as far as 32
  characters go; the empty name is not looked up.\<close>

lemma read_dentry_by_name_first:
  "read_dentry_by_name fname s =
     (if fname = 0 \<or> mem s fname = 0 then None
      else map_option (dentry_of s)
        (find (\<lambda>i. dir_name s i = upto_nul (bytes_at (mem s) fname 32)) [0..<63]))"
  using find_dentry_first [of "[0..<63]" fname s]
  by (simp add: read_dentry_by_name_def NUM_FILES_def list_all_iff)

lemma upto_nul_cstr: "cstr m a xs \<Longrightarrow> upto_nul (bytes_at m a n) = take n xs"
proof (induction xs arbitrary: a n)
  case Nil
  then show ?case by (cases n) (auto simp: upto_nul_def)
next
  case (Cons x xs)
  then show ?case by (cases n) (auto simp: upto_nul_def)
qed

section \<open>Opening and closing\<close>

lemma rtc_open_more:
  "rtc.more (snd (rtc_open s)) = rtc.more s" "mem (snd (rtc_open s)) = mem s"
  "eflags (snd (rtc_open s)) = eflags s" "fst (rtc_open s) = 0"
proof -
  obtain r t where t: "rtc_set 2 (rtc_init (cli s)) = (r, t)" by (cases "rtc_set 2 (rtc_init (cli s))") auto
  have "machine.more t = machine.more (rtc_init (cli s))" "mem t = mem s"
    using t by (metis rtc_set_frame(3) snd_conv, metis rtc_set_frame(1) snd_conv rtc_init_frame(1) flags_frame(1))
  then have "rtc.more t = rtc.more (rtc_init (cli s))" by (cases t; cases "rtc_init (cli s)") auto
  with t \<open>mem t = mem s\<close> show "rtc.more (snd (rtc_open s)) = rtc.more s" "mem (snd (rtc_open s)) = mem s"
    "eflags (snd (rtc_open s)) = eflags s" "fst (rtc_open s) = 0"
    by (simp_all add: rtc_open_def cli_and_save_def restore_flags_def cli_def)
qed

lemma rtc_more_fs:
  assumes "rtc.more (s :: 'a filesys_scheme) = rtc.more t"
  shows "pcbs s = pcbs t" "esp s = esp t" "fs_ptr s = fs_ptr t" "blank s = blank t"
    "page_directory s = page_directory t" "tlb_pde s = tlb_pde t" "frames s = frames t"
    "pushed_key s = pushed_key t" "filesys.more s = filesys.more t"
    "cur_files s = cur_files t" "getCurrentProcessPCB s = getCurrentProcessPCB t"
  using assms by (cases s; cases t; simp add: cur_files_def cur_pcb_def getCurrentProcessPCB_def)+

lemmas rtc_open_fs [simp] = rtc_more_fs [OF rtc_open_more(1)]
declare rtc_open_more(2-) [simp]

lemma file_t_full:
  "(f :: file_t)\<lparr>file_ops_table_ptr := a, inode_num := b, file_position := c, flags := d\<rparr> =
    \<lparr>file_ops_table_ptr = a, inode_num = b, file_position = c, flags = d\<rparr>"
  by (cases f) simp

text \<open>The outcome of \<open>file_open\<close> on a name: it fails, it fills the lowest free slot, or, for
  the clock, it fills that slot but leaves it marked as free.\<close>

lemma file_open_cases:
  assumes "cstr (mem s) fname xs" "length xs < 2 ^ 32"
  shows "file_open fname s =
    (let idx = free_slot (cur_files s) 2 in
     case (if fname = 0 \<or> 32 \<le> length xs then None else read_dentry_by_name fname s) of
       None \<Rightarrow> Some (minus_one, s)
     | Some d \<Rightarrow>
         if 8 \<le> idx \<or> filetype d \<notin> {0, 1, 2} then Some (minus_one, s)
         else if filetype d = 0 then
           Some (of_nat idx, snd (rtc_open (set_files ((cur_files s)[idx := (cur_files s ! idx)
             \<lparr>file_ops_table_ptr := RtcOps, inode_num := dentry_inode d\<rparr>]) s)))
         else Some (of_nat idx, set_files ((cur_files s)[idx :=
             \<lparr>file_ops_table_ptr = (if filetype d = 2 then FileOps else DirectoryOps),
              inode_num = dentry_inode d, file_position = 0, flags = FILE_OCCUP\<rparr>]) s))"
proof -
  have "(of_nat (length xs) :: u32) \<ge> of_nat FILENAME_LEN \<longleftrightarrow> 32 \<le> length xs"
    using assms(2) by (simp add: FILENAME_LEN_def word_le_nat_alt unat_of_nat)
  then show ?thesis
    using strlen_cstr [OF assms(1)]
    by (auto simp: file_open_def Let_def file_t_full NUM_MAX_OPEN_FILES_def split: option.split prod.split)
qed

lemma files_ok_update:
  "files_ok fs \<Longrightarrow> 2 \<le> i \<Longrightarrow> slot_ok f \<Longrightarrow> files_ok (fs[i := f])"
  by (cases "i < 8") (auto simp: files_ok_def nth_list_update)

text \<open>The table stays well-formed under every operation on it.\<close>

lemma file_open_files_ok:
  assumes "cstr (mem s) fname xs" "length xs < 2 ^ 32" "files_ok (cur_files s)" "file_open fname s = Some (r, t)"
  shows "files_ok (cur_files t)"
proof -
  let ?i = "free_slot (cur_files s) 2"
  have i: "2 \<le> ?i" using free_slot_spec [of 2 "cur_files s"] by simp
  have av: "flags (cur_files s ! ?i) = FILE_AVAIL" if "?i < 8" using free_slot_spec [of 2 "cur_files s"] that by simp
  show ?thesis
    using assms(3,4) i av unfolding file_open_cases [OF assms(1,2)] Let_def
    by (auto split: option.splits if_splits intro!: files_ok_update simp: slot_ok_def)
qed

lemma file_close_eq:
  "file_close fd s =
     (if unat fd < 8 \<and> flags (cur_files s ! unat fd) \<noteq> FILE_AVAIL
      then (0, set_files ((cur_files s)[unat fd := blank s]) s) else (minus_one, s))"
proof -
  have "8 \<le>s fd \<or> fd <s 0 \<longleftrightarrow> \<not> unat fd < 8"
  proof (cases "unat fd < 2 ^ 31")
    case True
    have "sint (8 :: u32) = int 8" by simp
    then have "8 \<le>s fd \<longleftrightarrow> 8 \<le> unat fd"
      unfolding word_sle_eq sint_unat [OF True] by (metis of_nat_le_iff)
    moreover have "\<not> fd <s 0" using True by (simp add: sless_0_iff)
    ultimately show ?thesis by auto
  next
    case False
    then show ?thesis by (simp add: sless_0_iff)
  qed
  then show ?thesis by (auto simp: file_close_def)
qed

lemma file_close_files_ok:
  assumes "files_ok (cur_files s)" "blank_ok s" "2 \<le> unat fd"
  shows "files_ok (cur_files (snd (file_close fd s)))"
  using assms by (auto simp: file_close_eq blank_ok_def slot_ok_def intro!: files_ok_update)

section \<open>Reading in sequence\<close>

text \<open>
  The contract of a descriptor that is read in pieces: a read returns the next bytes, at most
  as many as asked for, and moves the position by what it returned. Reading piece by piece
  then yields the contents without gap or overlap.
\<close>

locale sequential_reader =
  fixes rd :: "nat \<Rightarrow> 's \<Rightarrow> 'b list \<times> 's"
    and whole :: "'s \<Rightarrow> 'b list"
    and at_pos :: "'s \<Rightarrow> nat"
    and ok :: "'s \<Rightarrow> bool"
    and cap :: nat
  assumes rd_bytes: "ok s \<Longrightarrow> n \<le> cap \<Longrightarrow> fst (rd n s) = take n (drop (at_pos s) (whole s))"
    and rd_pos: "ok s \<Longrightarrow> n \<le> cap \<Longrightarrow> at_pos (snd (rd n s)) = at_pos s + length (fst (rd n s))"
    and rd_whole: "ok s \<Longrightarrow> n \<le> cap \<Longrightarrow> whole (snd (rd n s)) = whole s"
    and rd_ok: "ok s \<Longrightarrow> n \<le> cap \<Longrightarrow> ok (snd (rd n s))"
begin

fun rd_all :: "nat list \<Rightarrow> 's \<Rightarrow> 'b list \<times> 's" where
  "rd_all [] s = ([], s)"
| "rd_all (n # ns) s =
     (let (xs, s) = rd n s; (ys, s) = rd_all ns s in (xs @ ys, s))"

lemma rd_all_eq:
  "ok s \<Longrightarrow> list_all (\<lambda>n. n \<le> cap) ns \<Longrightarrow>
   fst (rd_all ns s) = take (sum_list ns) (drop (at_pos s) (whole s))"
proof (induction ns arbitrary: s)
  case (Cons n ns)
  let ?t = "snd (rd n s)" and ?xs = "drop (at_pos s) (whole s)"
  have x: "fst (rd n s) = take n ?xs" using Cons.prems by (intro rd_bytes) auto
  have "fst (rd_all ns ?t) = take (sum_list ns) (drop (at_pos ?t) (whole ?t))"
    using Cons.prems by (intro Cons.IH rd_ok) auto
  also have "drop (at_pos ?t) (whole ?t) = drop n ?xs"
    using Cons.prems by (simp add: rd_pos rd_whole x min_def add.commute)
  finally show ?case
    using x by (simp add: case_prod_beta Let_def take_add)
qed simp

end

definition fd_read :: "u32 \<Rightarrow> u32 \<Rightarrow> nat \<Rightarrow> 'a filesys_scheme \<Rightarrow> u8 list \<times> 'a filesys_scheme" where
  "fd_read fd buf n s =
     (case file_read fd buf (of_nat n) s of
        Some (r, t) \<Rightarrow> (bytes_at (mem t) buf (unat r), t)
      | None \<Rightarrow> ([], s))"

definition fd_file :: "u32 \<Rightarrow> 'a filesys_scheme \<Rightarrow> u8 list" where
  "fd_file fd s = file_content (mem s) (fs_ptr s) (unat (inode_num (cur_files s ! unat fd)))"

definition fd_pos :: "u32 \<Rightarrow> 'a filesys_scheme \<Rightarrow> nat" where
  "fd_pos fd s = unat (file_position (cur_files s ! unat fd))"

text \<open>A descriptor on a file of a sound image, and a buffer of \<open>cap\<close> bytes beside the image.\<close>

definition fd_ok :: "u32 \<Rightarrow> u32 \<Rightarrow> nat \<Rightarrow> 'a filesys_scheme \<Rightarrow> bool" where
  "fd_ok fd buf cap s \<longleftrightarrow> 2 \<le> unat fd \<and> unat fd < 8 \<and> length (cur_files s) = 8 \<and>
     img_ok (mem s) (fs_ptr s) \<and>
     unat (inode_num (cur_files s ! unat fd)) < img_inodes (mem s) (fs_ptr s) \<and>
     fd_pos fd s \<le> length (fd_file fd s) \<and>
     cap < 2 ^ 31 \<and> rng buf cap \<inter> img_rng (mem s) (fs_ptr s) = {}"

lemma length_file_content [simp]: "length (file_content m p ino) = file_len m p ino"
  by (simp add: file_content_def)

text \<open>One read through a descriptor.\<close>

lemma file_read_eq:
  fixes s :: "'a filesys_scheme" and fd :: u32
  defines "f \<equiv> cur_files s ! unat fd"
  assumes ok: "fd_ok fd buf cap s" and n: "n \<le> cap"
    and data: "data = take n (drop (fd_pos fd s) (fd_file fd s))"
  shows "file_read fd buf (of_nat n) s = Some (of_nat (length data),
    set_files ((cur_files s)[unat fd := f\<lparr>file_position := file_position f + of_nat (length data)\<rparr>])
      (s\<lparr>mem := store_bytes (mem s) buf data\<rparr>))"
proof -
  let ?ino = "inode_num f" and ?pos = "file_position f" and ?L = "file_len (mem s) (fs_ptr s) (unat (inode_num f))"
  have n32: "unat (of_nat n :: u32) = n" "n < 2 ^ 31" using ok n by (simp_all add: fd_ok_def unat_of_nat)
  have dis: "rng buf n \<inter> img_rng (mem s) (fs_ptr s) = {}"
    using ok rng_mono [OF n, of buf] by (auto simp: fd_ok_def)
  have pos: "unat ?pos \<le> ?L" using ok by (simp add: fd_ok_def fd_pos_def fd_file_def f_def)
  have k: "min n (?L - unat ?pos) = length data"
    using data by (simp add: fd_pos_def fd_file_def f_def min_def)
  have "file_slice (mem s) (fs_ptr s) (unat ?ino) (unat ?pos) (min n (?L - unat ?pos)) = data"
    using data pos by (subst file_slice_content) (auto simp: fd_pos_def fd_file_def f_def min_def)
  then have "read_data ?ino ?pos buf (of_nat n) s =
      (of_nat (length data), s\<lparr>mem := store_bytes (mem s) buf data\<rparr>)"
    using read_data_slice [of s ?ino buf "of_nat n" ?pos] ok dis n32 k
    by (simp add: fd_ok_def f_def)
  moreover have "fd \<noteq> 0" "fd \<noteq> 1" "\<not> NUM_MAX_OPEN_FILES \<le> unat fd"
    using ok by (auto simp: fd_ok_def NUM_MAX_OPEN_FILES_def)
  moreover have "cur_files (s\<lparr>mem := m\<rparr>) = cur_files s" for m
    by (simp add: cur_files_def cur_pcb_def getCurrentProcessPCB_def)
  ultimately show ?thesis by (simp add: file_read_def Let_def f_def)
qed

lemma fd_read_ok:
  assumes ok: "fd_ok fd buf cap s" and n: "n \<le> cap"
  shows "fst (fd_read fd buf n s) = take n (drop (fd_pos fd s) (fd_file fd s)) \<and>
    fd_pos fd (snd (fd_read fd buf n s)) = fd_pos fd s + length (fst (fd_read fd buf n s)) \<and>
    fd_file fd (snd (fd_read fd buf n s)) = fd_file fd s \<and> fd_ok fd buf cap (snd (fd_read fd buf n s))"
proof -
  define data where "data = take n (drop (fd_pos fd s) (fd_file fd s))"
  define t where "t = set_files ((cur_files s)[unat fd := (cur_files s ! unat fd)
      \<lparr>file_position := file_position (cur_files s ! unat fd) + of_nat (length data)\<rparr>])
      (s\<lparr>mem := store_bytes (mem s) buf data\<rparr>)"
  have rd: "file_read fd buf (of_nat n) s = Some (of_nat (length data), t)"
    unfolding t_def by (rule file_read_eq [OF ok n data_def])
  have len: "length data \<le> n" by (simp add: data_def)
  have n31: "n < 2 ^ 31" using ok n by (simp add: fd_ok_def)
  have fit: "fd_pos fd s + length data \<le> length (fd_file fd s)"
    using ok by (auto simp: data_def fd_ok_def)
  have m: "mem t = store_bytes (mem s) buf data" and p: "fs_ptr t = fs_ptr s" by (simp_all add: t_def)
  have got: "bytes_at (mem t) buf (unat (of_nat (length data) :: u32)) = data"
    using len n31 by (simp add: m unat_of_nat bytes_at_store_same)
  have eq: "fd_read fd buf n s = (data, t)" by (simp add: fd_read_def rd got)
  have "rng buf (length data) \<subseteq> rng buf cap" using len n by (intro rng_mono) simp
  then have agree: "img_agree (mem s) (fs_ptr s) (mem t)"
    using ok by (auto simp: img_agree_def m fd_ok_def intro!: store_bytes_other)
  have img: "img_ok (mem s) (fs_ptr s)" and ino: "unat (inode_num (cur_files s ! unat fd)) < img_inodes (mem s) (fs_ptr s)"
    using ok by (simp_all add: fd_ok_def)
  have l8: "unat fd < length (cur_files s)" using ok by (simp add: fd_ok_def)
  then have cf: "cur_files t = (cur_files s)[unat fd := (cur_files s ! unat fd)
      \<lparr>file_position := file_position (cur_files s ! unat fd) + of_nat (length data)\<rparr>]"
    "inode_num (cur_files t ! unat fd) = inode_num (cur_files s ! unat fd)"
    by (simp_all add: t_def)
  have same_file: "fd_file fd t = fd_file fd s"
    using img_slice_same [OF agree img ino] img_same(3) [OF agree ino]
    by (simp add: fd_file_def cf(2) p file_content_def)
  have "fd_pos fd s + length data < 2 ^ 32"
    using fit img ino by (force simp: fd_file_def img_ok_def)
  then have pos: "fd_pos fd t = fd_pos fd s + length data"
    using l8 by (simp add: fd_pos_def cf(1) unat_add_nat)
  have "fd_ok fd buf cap t"
    using ok fit img_ok_same [OF agree img] img_same(1) [OF agree]
    by (simp add: fd_ok_def same_file pos cf p)
  with eq pos same_file show ?thesis by (simp add: data_def)
qed

interpretation fd: sequential_reader "fd_read fd buf" "fd_file fd" "fd_pos fd" "fd_ok fd buf cap" cap
  for fd buf cap
  by unfold_locales (use fd_read_ok in blast)+

section \<open>Listing the directory\<close>

lemma copy_name_eq:
  "copy_name cs buf i m =
    (i + length (upto_nul cs), store_bytes m (buf + of_nat i) (upto_nul cs))"
proof (induction cs arbitrary: i m)
  case (Cons c cs)
  have "copy_name cs buf (i + 1) (m(buf + of_nat i := c)) = (i + 1 + length (upto_nul cs),
      store_bytes (m(buf + of_nat i := c)) (buf + of_nat (i + 1)) (upto_nul cs))"
    by (rule Cons.IH)
  moreover have "buf + of_nat (i + 1) = buf + of_nat i + 1" by simp
  ultimately show ?case
    by (simp only: copy_name.simps upto_nul_def takeWhile.simps) (simp split: if_split)
qed (simp add: upto_nul_def)

text \<open>\<open>directory_read\<close> writes the name of the next entry as a string, whatever \<open>nbytes\<close> is,
  and goes on to the entry behind it; after entry 62 it fails.\<close>

lemma directory_read_eq:
  assumes "unat fd < 8"
  shows "directory_read fd buf nbytes s =
    (let f = cur_files s ! unat fd; i = unat (file_position f) in
     if i < 63 then
       Some (of_nat (length (dir_name s i)),
         (set_files ((cur_files s)[unat fd := f\<lparr>file_position := file_position f + 1\<rparr>]) s)
           \<lparr>mem := store_bytes (mem s) buf (dir_name s i @ [0])\<rparr>)
     else Some (minus_one, s))"
proof -
  have "(store_bytes m buf xs)(buf + of_nat (length xs) := 0) = store_bytes m buf (xs @ [0])"
    for m and xs :: "u8 list" by (rule store_bytes_snoc)
  then show ?thesis
    using assms
    by (simp add: directory_read_def NUM_MAX_OPEN_FILES_def read_dentry_by_index_eq Let_def
        copy_name_eq dentry_of_def dir_name_def)
qed

lemma upto_nul_length: "length (upto_nul xs) \<le> length xs"
  by (simp add: upto_nul_def length_takeWhile_le)

lemma dir_name_length: "length (dir_name s i) \<le> 32"
  using upto_nul_length [of "bytes_at (mem s) (dentry_addr (of_nat i) s) 32"] by (simp add: dir_name_def)

lemma dir_name_nonzero: "0 \<notin> set (dir_name s i)"
  by (auto simp: dir_name_def upto_nul_def dest: set_takeWhileD)

end
