(* ===== verification/Process.thy ===== *)
theory Process
  imports Filesys
begin

text \<open>
  Processes and the system calls, \<^verbatim>\<open>student-distrib/syscalls.c\<close>: descriptors and their jump
  tables, \<open>execute\<close> and \<open>halt\<close> with the process table, the page directory and the kernel
  stacks, \<open>getargs\<close>, \<open>vidmap\<close> and the two stubs.
\<close>

section \<open>State\<close>

text \<open>
  \<open>tss_esp0\<close> is the kernel stack the processor switches to on a system call, \<open>ebp\<close> the frame
  pointer. \<open>exec_filename_at\<close> and \<open>exec_buffer_at\<close> are the addresses of the local arrays of
  \<open>execute\<close>, \<open>end_of_execute\<close> that of its label.
\<close>

record kernel = filesys +
  pid_array :: "u8 list"
  curr_process :: u32
  tss_esp0 :: u32
  ebp :: u32
  exec_filename_at :: u32
  exec_buffer_at :: u32
  end_of_execute :: u32

definition NUM_MAX_PROCESSES :: nat where "NUM_MAX_PROCESSES = 6"
definition PROG_NOT_ACTIVE :: u8 where "PROG_NOT_ACTIVE = 0"
definition PROG_ACTIVE :: u8 where "PROG_ACTIVE = 1"
definition BASE_PROCESS_POSITION :: u32 where "BASE_PROCESS_POSITION = 0x800000"
definition PROCESS_OFFSET :: u32 where "PROCESS_OFFSET = 0x2000"
definition C_128MB :: u32 where "C_128MB = 0x8000000"
definition C_8MB :: u32 where "C_8MB = 0x800000"
definition C_4MB :: u32 where "C_4MB = 0x400000"
definition C_4B :: u32 where "C_4B = 4"
definition PAGE_BOTTOM :: u32 where "PAGE_BOTTOM = 0x083FFFFC"
definition PAGE_TOP :: u32 where "PAGE_TOP = 0x08048000"
definition PAGE_VIDMEM :: u32 where "PAGE_VIDMEM = 0x08400000"
definition PAGE_VIDMAP :: nat where "PAGE_VIDMAP = 33"
definition PROGRAM_IMAGE :: u32 where "PROGRAM_IMAGE = 0x8048000"

text \<open>How a system call ends: \<open>Return v\<close> to its caller, \<open>Enter eip esp\<close> in a program, or
  \<open>Resume eip eax\<close> in the \<open>execute\<close> that started the program, which returns \<^verbatim>\<open>eax\<close>.\<close>

datatype outcome =
    Return u32
  | Enter u32 u32
  | Resume u32 u32

section \<open>open, close, read, write\<close>

text \<open>\<^verbatim>\<open>fd\<close> is signed: outside 0 to 7 is -1.\<close>

definition fd_valid :: "u32 \<Rightarrow> u32 \<Rightarrow> bool" where
  "fd_valid low fd \<longleftrightarrow> \<not> (7 <s fd \<or> fd <s low)"

text \<open>The case of the clock has no \<^verbatim>\<open>break\<close>: \<open>file_open\<close> is called a second time.\<close>

definition sys_open :: "u32 \<Rightarrow> 'a filesys_scheme \<Rightarrow> (u32 \<times> 'a filesys_scheme) option" where
  "sys_open fname s =
     (case read_dentry_by_name fname s of
        None \<Rightarrow> Some (minus_one, s)
      | Some dentry \<Rightarrow>
          if filetype dentry = FILE_TYPE_DIR then directory_open fname s
          else if filetype dentry = FILE_TYPE_RTC then do {
            (r, s) \<leftarrow> file_open fname s;
            if r = minus_one then Some (minus_one, s) else file_open fname s }
          else if filetype dentry = FILE_TYPE_FILE then file_open fname s
          else Some (minus_one, s))"

text \<open>A call through the null pointer of a blank descriptor does not come back.\<close>

definition sys_close :: "u32 \<Rightarrow> 'a filesys_scheme \<Rightarrow> (u32 \<times> 'a filesys_scheme) option" where
  "sys_close fd s =
     (if \<not> fd_valid 2 fd then Some (minus_one, s)
      else if flags (cur_files s ! unat fd) = FILE_AVAIL then Some (minus_one, s)
      else case file_ops_table_ptr (cur_files s ! unat fd) of
        NoOps \<Rightarrow> None
      | TerminalOps \<Rightarrow> Some (terminal_close s)
      | FileOps \<Rightarrow> Some (file_close fd s)
      | DirectoryOps \<Rightarrow> Some (directory_close fd s)
      | RtcOps \<Rightarrow> Some (rtc_close s))"

definition sys_read :: "u32 \<Rightarrow> u32 \<Rightarrow> u32 \<Rightarrow> 'a filesys_scheme \<Rightarrow> (u32 \<times> 'a filesys_scheme) option" where
  "sys_read fd buf nbytes s =
     (if \<not> fd_valid 0 fd then Some (minus_one, s)
      else if flags (cur_files s ! unat fd) = FILE_AVAIL then Some (minus_one, s)
      else case file_ops_table_ptr (cur_files s ! unat fd) of
        NoOps \<Rightarrow> None
      | TerminalOps \<Rightarrow> terminal_read fd buf nbytes s
      | FileOps \<Rightarrow> file_read fd buf nbytes s
      | DirectoryOps \<Rightarrow> directory_read fd buf nbytes s
      | RtcOps \<Rightarrow> rtc_read fd buf s)"

text \<open>\<open>rtc_write\<close> takes two parameters and is called with three: its \<open>buf\<close> is the descriptor.\<close>

definition sys_write :: "u32 \<Rightarrow> u32 \<Rightarrow> u32 \<Rightarrow> 'a filesys_scheme \<Rightarrow> (u32 \<times> 'a filesys_scheme) option" where
  "sys_write fd buf nbytes s =
     (if \<not> fd_valid 0 fd then Some (minus_one, s)
      else if flags (cur_files s ! unat fd) = FILE_AVAIL then Some (minus_one, s)
      else case file_ops_table_ptr (cur_files s ! unat fd) of
        NoOps \<Rightarrow> None
      | TerminalOps \<Rightarrow> Some (terminal_write fd buf nbytes s)
      | FileOps \<Rightarrow> Some (file_write fd buf nbytes s)
      | DirectoryOps \<Rightarrow> Some (directory_write fd buf nbytes s)
      | RtcOps \<Rightarrow> Some (rtc_write fd buf s))"

section \<open>execute and halt\<close>

definition pcb_addr :: "u32 \<Rightarrow> u32" where
  "pcb_addr pid = BASE_PROCESS_POSITION - (pid + 2) * PROCESS_OFFSET"

definition kernel_stack :: "u32 \<Rightarrow> u32" where
  "kernel_stack pid = BASE_PROCESS_POSITION - (pid + 1) * PROCESS_OFFSET - C_4B"

definition user_frame :: "u32 \<Rightarrow> u32" where
  "user_frame pid = C_8MB + pid * C_4MB"

text \<open>The other two helpers, which nothing calls; their formulas are one slot off.\<close>

definition getProcessPCB :: "u32 \<Rightarrow> u32" where
  "getProcessPCB pid = 0x800000 - (pid + 1) * 0x2000"

definition get_kernel_stack_bottom :: "u32 \<Rightarrow> u32" where
  "get_kernel_stack_bottom pid = 0x800000 - pid * 0x2000 - 4"

text \<open>\<open>i\<close> runs over the table; the first inactive entry is taken.\<close>

function next_process_loop :: "nat \<Rightarrow> 'a kernel_scheme \<Rightarrow> u32 \<times> 'a kernel_scheme" where
  "next_process_loop i s =
     (if i < NUM_MAX_PROCESSES then
        if pid_array s ! i = PROG_NOT_ACTIVE
        then (of_nat i, s\<lparr>pid_array := (pid_array s)[i := PROG_ACTIVE]\<rparr>)
        else next_process_loop (i + 1) s
      else (minus_one, s))"
  by pat_completeness auto
termination
  by (relation "measure (\<lambda>(i, s). NUM_MAX_PROCESSES - i)") auto

declare next_process_loop.simps [simp del]

definition get_next_process_number :: "'a kernel_scheme \<Rightarrow> u32 \<times> 'a kernel_scheme" where
  "get_next_process_number s = next_process_loop 0 s"

text \<open>The assembly routines of \<^verbatim>\<open>interr.S\<close>: entering user mode with interrupts on, and going
  back into \<open>execute\<close> on the parent's stack.\<close>

definition context_switch :: "u32 \<Rightarrow> u32 \<Rightarrow> 'a kernel_scheme \<Rightarrow> outcome \<times> 'a kernel_scheme" where
  "context_switch entry_point position s = (Enter entry_point position, s\<lparr>eflags := eflags s OR IF_FLAG\<rparr>)"

definition return_to_execute ::
  "u32 \<Rightarrow> u32 \<Rightarrow> u32 \<Rightarrow> u8 \<Rightarrow> 'a kernel_scheme \<Rightarrow> outcome \<times> 'a kernel_scheme" where
  "return_to_execute ret_addr par_ebp par_esp status s =
     (Resume ret_addr (ucast status), s\<lparr>ebp := par_ebp, esp := par_esp\<rparr>)"

definition halt :: "u8 \<Rightarrow> 'a kernel_scheme \<Rightarrow> outcome \<times> 'a kernel_scheme" where
  "halt status s =
     (let current_pcb = pcbs s (pcb_addr (curr_process s));
          parent_process = parent_num current_pcb;
          par_ebp = parent_ebp current_pcb;
          par_esp = parent_esp current_pcb;
          ret_addr = exec_ret_addr current_pcb;
          s = update_page_directory C_128MB (user_frame parent_process) USER_PDE_4MB_BASE s;
          s = s\<lparr>tss_esp0 := kernel_stack parent_process\<rparr>;
          s = s\<lparr>pid_array := (pid_array s)[unat (curr_process s) := PROG_NOT_ACTIVE]\<rparr>;
          s = s\<lparr>curr_process := parent_process\<rparr>
      in return_to_execute ret_addr par_ebp par_esp status s)"

text \<open>One call of \<open>strtok\<close> with the delimiter \<^verbatim>\<open>" "\<close>, on the kernel's state.\<close>

definition strtok_sp :: "u32 \<Rightarrow> 'a kernel_scheme \<Rightarrow> (u32 \<times> 'a kernel_scheme) option" where
  "strtok_sp p s = do {
     (m, l, token) \<leftarrow> strtok (mem s) (strtok_last s) p [SPACE];
     Some (token, s\<lparr>mem := m, strtok_last := l\<rparr>) }"

text \<open>The loop that joins the arguments with single spaces. The two bytes copied between them
  are the literal \<^verbatim>\<open>" "\<close> and its NUL.\<close>

partial_function (option) collect_args ::
  "u32 \<Rightarrow> u32 \<Rightarrow> u32 \<Rightarrow> 'a kernel_scheme \<Rightarrow> 'a kernel_scheme option" where
  "collect_args buffer ptr token s =
     (if token \<noteq> 0 then do {
        let (ptr, s) = (if ptr \<noteq> buffer then (ptr + 1, s\<lparr>mem := store_bytes (mem s) ptr [SPACE, 0]\<rparr>)
                        else (ptr, s));
        ret \<leftarrow> strlen (mem s) token;
        let s = s\<lparr>mem := memcpy (mem s) ptr token (ret + 1)\<rparr>;
        (token, s) \<leftarrow> strtok_sp 0 s;
        collect_args buffer (ptr + ret) token s }
      else Some s)"

text \<open>The checks at the head of \<open>execute\<close>: the name fits, names a regular file, and the file
  begins with the ELF magic number. \<^const>\<open>None\<close> in the first component is the return of -1.\<close>

definition exec_check :: "u32 \<Rightarrow> 'a kernel_scheme \<Rightarrow> (dentry_t option \<times> 'a kernel_scheme) option" where
  "exec_check command s = do {
     (token, s) \<leftarrow> strtok_sp command s;
     if token = 0 then Some (None, s)
     else do {
       n \<leftarrow> strlen (mem s) token;
       if n \<ge> of_nat FILENAME_LEN - 1 then Some (None, s)
       else do {
         m \<leftarrow> strcpy (mem s) (exec_filename_at s) token;
         let s = s\<lparr>mem := m\<rparr>;
         case read_dentry_by_name (exec_filename_at s) s of
           None \<Rightarrow> Some (None, s)
         | Some dentry \<Rightarrow>
             if filetype dentry \<noteq> FILE_TYPE_FILE then Some (None, s)
             else
               let buffer = exec_buffer_at s;
                   (r, s) = read_data (dentry_inode dentry) 0 buffer 4 s
               in if r \<noteq> 4 then Some (None, s)
                  else if mem s buffer \<noteq> 0x7F \<or> mem s (buffer + 1) \<noteq> 0x45
                    \<or> mem s (buffer + 2) \<noteq> 0x4C \<or> mem s (buffer + 3) \<noteq> 0x46
                  then Some (None, s)
                  else Some (Some dentry, s) } } }"

text \<open>The arguments, joined into \<^verbatim>\<open>buffer\<close>.\<close>

definition exec_args :: "'a kernel_scheme \<Rightarrow> 'a kernel_scheme option" where
  "exec_args s = do {
     let buffer = exec_buffer_at s;
     let s = s\<lparr>mem := (mem s)(buffer := 0)\<rparr>;
     (token, s) \<leftarrow> strtok_sp 0 s;
     collect_args buffer buffer token s }"

text \<open>A slot of the table, the frame and the program image. \<^const>\<open>None\<close> is a failed load, after
  the caller's own frame has been mapped again; the slot stays taken.\<close>

definition exec_load :: "u32 \<Rightarrow> u32 \<Rightarrow> 'a kernel_scheme \<Rightarrow> bool \<times> 'a kernel_scheme" where
  "exec_load inode next_process s =
     (let s = update_page_directory 0x08000000 (0x00800000 + next_process * 0x00400000) 0x87 s;
          size1 = flength inode s;
          (r, s) = read_data inode 0 PROGRAM_IMAGE size1 s
      in if r \<noteq> size1
         then (False, update_page_directory 0x08000000 (0x00800000 + curr_process s * 0x00400000) 0x87 s)
         else (True, s))"

text \<open>The process control block of the new process and the entry into it. The terminal index is
  read from the block of the caller.\<close>

definition exec_enter :: "u32 \<Rightarrow> 'a kernel_scheme \<Rightarrow> (outcome \<times> 'a kernel_scheme) option" where
  "exec_enter next_process s = do {
     let s = s\<lparr>tss_esp0 := BASE_PROCESS_POSITION - (next_process + 1) * PROCESS_OFFSET - C_4B\<rparr>;
     let pcb = pcb_addr next_process;
     let s = s\<lparr>pcbs := (pcbs s)(pcb := (pcbs s pcb)\<lparr>
       file_array := init_file_array (blank s), parent_num := curr_process s,
       parent_esp := esp s, parent_ebp := ebp s, exec_ret_addr := end_of_execute s\<rparr>)\<rparr>;
     let s = s\<lparr>pcbs := (pcbs s)(pcb := (pcbs s pcb)\<lparr>terminal_index := terminal_index (cur_pcb s)\<rparr>)\<rparr>;
     m \<leftarrow> strcpy (mem s) (pcb + PCB_ARG) (exec_buffer_at s);
     let s = s\<lparr>mem := m\<rparr>;
     n \<leftarrow> strlen (mem s) (exec_buffer_at s);
     let s = s\<lparr>pcbs := (pcbs s)(pcb := (pcbs s pcb)\<lparr>num_char_in_arg := ucast n\<rparr>)\<rparr>;
     let s = s\<lparr>curr_process := next_process\<rparr>;
     let s = s\<lparr>pid_array := (pid_array s)[unat next_process := PROG_ACTIVE]\<rparr>;
     let entry_point = load32 (mem s) (PROGRAM_IMAGE + 24);
     Some (context_switch entry_point (C_128MB + C_4MB - C_4B) s) }"

definition execute :: "u32 \<Rightarrow> 'a kernel_scheme \<Rightarrow> (outcome \<times> 'a kernel_scheme) option" where
  "execute command s = do {
     (checked, s) \<leftarrow> exec_check command s;
     case checked of
       None \<Rightarrow> Some (Return minus_one, s)
     | Some dentry \<Rightarrow> do {
         s \<leftarrow> exec_args s;
         let (next_process, s) = get_next_process_number s;
         if next_process = minus_one then do {
           (_, s) \<leftarrow> printf (lit ''You have reached the maximum number of processes! '' @ [0x0A]) [] s;
           Some (Return 256, s) }
         else
           let (loaded, s) = exec_load (dentry_inode dentry) next_process s
           in if loaded then exec_enter next_process s else Some (Return minus_one, s) } }"

section \<open>The other system calls\<close>

definition getargs :: "u32 \<Rightarrow> u32 \<Rightarrow> 'a kernel_scheme \<Rightarrow> (u32 \<times> 'a kernel_scheme) option" where
  "getargs buf nbytes s =
     (if buf = 0 then Some (minus_one, s)
      else
        let pcb = esp s AND NOT 0x1FFF in
        if mem s (pcb + PCB_ARG) = 0 then Some (minus_one, s)
        else if sint nbytes < int (unat (num_char_in_arg (pcbs s pcb))) then Some (minus_one, s)
        else do {
          m \<leftarrow> strcpy (mem s) buf (pcb + PCB_ARG);
          Some (0, s\<lparr>mem := m\<rparr>) })"

definition vidmap :: "u32 \<Rightarrow> 'a kernel_scheme \<Rightarrow> u32 \<times> 'a kernel_scheme" where
  "vidmap screen_start s =
     (if screen_start = 0 \<or> screen_start < PAGE_TOP \<or> screen_start > PAGE_BOTTOM then (minus_one, s)
      else
        let s = s\<lparr>mem := store32 (mem s) screen_start 0x10000000\<rparr>;
            s = s\<lparr>page_directory := (page_directory s)[PAGE_VIDMAP := video_pages_at s OR 7]\<rparr>;
            s = s\<lparr>video_pages := (video_pages s)[0 := VIDEO OR 7]\<rparr>;
            s = flush_tlb s;
            s = s\<lparr>mem := store32 (mem s) screen_start PAGE_VIDMEM\<rparr>
        in (0, s))"

definition set_handler :: "u32 \<Rightarrow> u32 \<Rightarrow> 'a kernel_scheme \<Rightarrow> (u32 \<times> 'a kernel_scheme) option" where
  "set_handler signum handler s = do {
     (_, s) \<leftarrow> printf (lit ''## set_handler() : %d, %x'' @ [0x0A]) [signum, handler] s;
     Some (minus_one, s) }"

definition sigreturn :: "'a kernel_scheme \<Rightarrow> (u32 \<times> 'a kernel_scheme) option" where
  "sigreturn s = do {
     (_, s) \<leftarrow> printf (lit ''## sigreturn()'' @ [0x0A]) [] s;
     Some (minus_one, s) }"

section \<open>Process slots\<close>

lemmas process_consts = BASE_PROCESS_POSITION_def PROCESS_OFFSET_def C_128MB_def C_8MB_def C_4MB_def
  C_4B_def PROG_ACTIVE_def PROG_NOT_ACTIVE_def NUM_MAX_PROCESSES_def

text \<open>The slots of the process table.\<close>

definition pid_ok :: "u32 \<Rightarrow> bool" where "pid_ok pid \<longleftrightarrow> unat pid < 6"

definition free_pids :: "'a kernel_scheme \<Rightarrow> nat set" where
  "free_pids s = {i. i < 6 \<and> pid_array s ! i = PROG_NOT_ACTIVE}"

lemma next_process_loop_steps:
  "next_process_loop i s =
    (if i < 6 then
       if i \<in> free_pids s then (of_nat i, s\<lparr>pid_array := (pid_array s)[i := PROG_ACTIVE]\<rparr>)
       else next_process_loop (i + 1) s
     else (minus_one, s))"
  by (subst next_process_loop.simps) (simp add: NUM_MAX_PROCESSES_def free_pids_def)

lemma next_process_loop_full:
  "free_pids s = {} \<Longrightarrow> next_process_loop i s = (minus_one, s)"
  by (induction i s rule: next_process_loop.induct)
    (subst next_process_loop_steps, auto simp: NUM_MAX_PROCESSES_def free_pids_def)

lemma next_process_loop_first:
  "n \<in> free_pids s \<Longrightarrow> \<forall>i < n. i \<notin> free_pids s \<Longrightarrow> d \<le> n \<Longrightarrow>
   next_process_loop (n - d) s = (of_nat n, s\<lparr>pid_array := (pid_array s)[n := PROG_ACTIVE]\<rparr>)"
proof (induction d)
  case 0
  then show ?case by (subst next_process_loop_steps) (simp add: free_pids_def)
next
  case (Suc d)
  have "n - Suc d \<notin> free_pids s" "n < 6" using Suc.prems by (auto simp: free_pids_def)
  moreover have "n - Suc d + 1 = n - d" "n - Suc d < 6" using Suc.prems(3) \<open>n < 6\<close> by auto
  ultimately have "next_process_loop (n - Suc d) s = next_process_loop (n - d) s"
    by (subst next_process_loop_steps) (simp only: if_True if_False)
  with Suc show ?case by simp
qed

text \<open>The lowest free slot is taken, and marked; a full table gives -1 and is left alone.\<close>

lemma finite_free_pids [simp]: "finite (free_pids s)"
  by (simp add: free_pids_def)

lemma get_next_process_number_free:
  assumes "free_pids s \<noteq> {}"
  shows "get_next_process_number s =
    (of_nat (Min (free_pids s)), s\<lparr>pid_array := (pid_array s)[Min (free_pids s) := PROG_ACTIVE]\<rparr>)"
proof -
  define n where "n = Min (free_pids s)"
  have "n \<in> free_pids s" using assms by (simp add: n_def)
  moreover have "\<forall>i < n. i \<notin> free_pids s" unfolding n_def by (metis Min_le finite_free_pids not_less)
  ultimately have "next_process_loop (n - n) s = (of_nat n, s\<lparr>pid_array := (pid_array s)[n := PROG_ACTIVE]\<rparr>)"
    by (rule next_process_loop_first) simp
  then show ?thesis by (simp add: get_next_process_number_def n_def)
qed

lemma get_next_process_number_full: "free_pids s = {} \<Longrightarrow> get_next_process_number s = (minus_one, s)"
  by (simp add: get_next_process_number_def next_process_loop_full)

lemma get_next_process_number_cases:
  obtains "free_pids s = {}" "get_next_process_number s = (minus_one, s)"
  | n where "n \<in> free_pids s" "n < 6" "n = Min (free_pids s)"
    "get_next_process_number s = (of_nat n, s\<lparr>pid_array := (pid_array s)[n := PROG_ACTIVE]\<rparr>)"
proof (cases "free_pids s = {}")
  case True
  then show thesis using that(1) get_next_process_number_full by blast
next
  case False
  then have m: "Min (free_pids s) \<in> free_pids s" by simp
  moreover have "Min (free_pids s) < 6" using m by (simp add: free_pids_def)
  ultimately show thesis using that(2) get_next_process_number_free [OF False] by blast
qed

section \<open>Where the blocks, stacks and frames lie\<close>

lemma pid_ok_cases: "pid_ok pid \<Longrightarrow> pid = 0 \<or> pid = 1 \<or> pid = 2 \<or> pid = 3 \<or> pid = 4 \<or> pid = 5"
proof -
  assume "pid_ok pid"
  then have "unat pid = 0 \<or> unat pid = 1 \<or> unat pid = 2 \<or> unat pid = 3 \<or> unat pid = 4 \<or> unat pid = 5"
    unfolding pid_ok_def by arith
  then show ?thesis by (simp add: word_unat_eq_iff)
qed

lemma pid_ok_of_nat [simp]: "n < 6 \<Longrightarrow> pid_ok (of_nat n)"
  by (simp add: pid_ok_def unat_of_nat)

lemma pid_ok_0 [simp]: "pid_ok 0"
  by (simp add: pid_ok_def)

text \<open>Block and stack of a process share the 8 KB below its stack bottom, so masking the stack
  pointer finds the block, however deep the kernel is in its stack.\<close>

lemma pcb_low_bits: "pid_ok pid \<Longrightarrow> n < 13 \<Longrightarrow> \<not> bit (pcb_addr pid) n"
proof -
  assume "pid_ok pid" "n < 13"
  then have "pcb_addr pid AND mask 13 = 0"
    using pid_ok_cases [of pid] by (auto simp: pcb_addr_def process_consts mask_eq_exp_minus_1)
  then have "\<not> bit (pcb_addr pid AND mask 13) n" by simp
  with \<open>n < 13\<close> show ?thesis by (simp add: bit_simps)
qed

lemma pcb_mask:
  assumes "pid_ok pid" "off < 0x2000"
  shows "(pcb_addr pid + off) AND NOT PCB_MASK = pcb_addr pid"
proof -
  have m: "PCB_MASK = mask 13" by (simp add: PCB_MASK_def mask_eq_exp_minus_1)
  have "take_bit 13 off = off"
    using assms(2) by (simp add: word_unat_eq_iff unsigned_take_bit_eq take_bit_nat_eq_self word_less_nat_alt)
  then have off: "\<not> bit off n" if "13 \<le> n" for n using that by (metis bit_take_bit_iff not_le)
  have "pcb_addr pid AND off = 0"
  proof (rule bit_word_eqI)
    fix n show "bit (pcb_addr pid AND off) n = bit (0 :: u32) n"
      using off [of n] pcb_low_bits [OF assms(1), of n] by (cases "n < 13") (auto simp: bit_simps)
  qed
  then have "pcb_addr pid + off = pcb_addr pid OR off" by (rule disjunctive_add_eq_or)
  moreover have "(pcb_addr pid OR off) AND NOT PCB_MASK = pcb_addr pid"
  proof (rule bit_word_eqI)
    fix n assume "n < LENGTH(32)"
    then show "bit ((pcb_addr pid OR off) AND NOT PCB_MASK) n = bit (pcb_addr pid) n"
      using off [of n] pcb_low_bits [OF assms(1), of n] by (cases "n < 13") (auto simp: m bit_simps)
  qed
  ultimately show ?thesis by simp
qed

section \<open>The stack of running programs\<close>

text \<open>
  The abstract view of the process table: the programs that run form a stack, the caller of
  \<open>execute\<close> below the program it started. \<open>top_pid\<close> is the number the kernel keeps in
  \<open>curr_process\<close>, 0 when nothing runs.
\<close>

definition top_pid :: "u32 list \<Rightarrow> u32" where
  "top_pid ps = (case ps of [] \<Rightarrow> 0 | p # _ \<Rightarrow> p)"

text \<open>The kernel runs on the stack of the running program, which shares 8 KB with its block, and on
  the 8 KB below 8 MB, where \<^verbatim>\<open>boot.S\<close> puts the stack pointer, when nothing runs.\<close>

definition BOOT_STACK :: u32 where "BOOT_STACK = 0x7FE000"

definition stack_page :: "u32 list \<Rightarrow> u32" where
  "stack_page ps = (case ps of [] \<Rightarrow> BOOT_STACK | p # _ \<Rightarrow> pcb_addr p)"

definition in_kstack :: "u32 list \<Rightarrow> u32 \<Rightarrow> bool" where
  "in_kstack ps a \<longleftrightarrow> a AND NOT PCB_MASK = stack_page ps"

text \<open>Each block links to the program below: its number, and a stack pointer of its stack.\<close>

fun linked :: "(u32 \<Rightarrow> pcb_t) \<Rightarrow> u32 list \<Rightarrow> bool" where
  "linked blocks [] \<longleftrightarrow> True"
| "linked blocks (p # ps) \<longleftrightarrow>
     parent_num (blocks (pcb_addr p)) = top_pid ps \<and>
     in_kstack ps (parent_esp (blocks (pcb_addr p))) \<and>
     files_ok (file_array (blocks (pcb_addr p))) \<and> linked blocks ps"

definition runs :: "'a kernel_scheme \<Rightarrow> u32 list \<Rightarrow> bool" where
  "runs s ps \<longleftrightarrow> length (pid_array s) = 6 \<and> dir_ok s \<and> blank_ok s \<and>
     distinct ps \<and> list_all (\<lambda>p. pid_ok p \<and> pid_array s ! unat p = PROG_ACTIVE) ps \<and>
     curr_process s = top_pid ps \<and> linked (pcbs s) ps \<and> in_kstack ps (esp s) \<and>
     (ps \<noteq> [] \<longrightarrow> tss_esp0 s = kernel_stack (top_pid ps) \<and>
        user_pde s = user_frame (top_pid ps) OR 0x87 \<and> tlb_pde s = user_pde s)"

text \<open>None of it depends on the memory, the console or the devices.\<close>

lemma keyboard_more_kernel:
  assumes "keyboard.more (s :: 'a kernel_scheme) = keyboard.more t"
  shows "page_directory s = page_directory t" "page_table s = page_table t" "video_pages s = video_pages t"
    "tlb_pde s = tlb_pde t" "frames s = frames t" "fs_ptr s = fs_ptr t" "blank s = blank t"
    "pcbs s = pcbs t" "esp s = esp t" "pid_array s = pid_array t" "curr_process s = curr_process t"
    "tss_esp0 s = tss_esp0 t" "ebp s = ebp t" "exec_filename_at s = exec_filename_at t"
    "exec_buffer_at s = exec_buffer_at t" "end_of_execute s = end_of_execute t"
    "paging.more s = paging.more t" "filesys.more s = filesys.more t" "kernel.more s = kernel.more t"
  using assms by (cases s; cases t; simp)+

lemma runs_cong:
  assumes "keyboard.more s = keyboard.more t"
  shows "runs s ps = runs t ps"
  using keyboard_more_kernel [OF assms]
  by (simp add: runs_def dir_ok_def blank_ok_def user_pde_def)

lemma pcb_addr_inj: "pid_ok p \<Longrightarrow> pid_ok q \<Longrightarrow> pcb_addr p = pcb_addr q \<longleftrightarrow> p = q"
  using pid_ok_cases [of p] pid_ok_cases [of q] by (auto simp: pcb_addr_def process_consts)

lemma linked_cong:
  "(\<And>p. p \<in> set ps \<Longrightarrow> b (pcb_addr p) = b' (pcb_addr p)) \<Longrightarrow> linked b ps = linked b' ps"
  by (induction ps) auto

lemma runs_pid_ok: "runs s ps \<Longrightarrow> p \<in> set ps \<Longrightarrow> pid_ok p"
  by (auto simp: runs_def list_all_iff)

lemma runs_files_ok: "linked b ps \<Longrightarrow> p \<in> set ps \<Longrightarrow> files_ok (file_array (b (pcb_addr p)))"
  by (induction ps) auto

text \<open>The block found from the stack pointer is that of the running program.\<close>

lemma runs_cur_pcb: "runs s (p # ps) \<Longrightarrow> getCurrentProcessPCB s = pcb_addr p"
  by (simp add: runs_def in_kstack_def stack_page_def getCurrentProcessPCB_def)

lemma runs_cur_files_ok: "runs s (p # ps) \<Longrightarrow> files_ok (cur_files s)"
  using runs_cur_pcb [of s p ps] by (simp add: runs_def cur_files_def cur_pcb_def)

lemma runs_curr: "runs s ps \<Longrightarrow> curr_process s = top_pid ps"
  by (simp add: runs_def)

text \<open>Changing the descriptors of the running program, well-formed, keeps it all.\<close>

lemma linked_files:
  assumes "linked b (p # ps)" "distinct (p # ps)" "list_all pid_ok (p # ps)" "files_ok fs"
  shows "linked (b(pcb_addr p := (b (pcb_addr p))\<lparr>file_array := fs\<rparr>)) (p # ps)"
proof -
  have "pcb_addr q \<noteq> pcb_addr p" if "q \<in> set ps" for q
    using that assms pcb_addr_inj [of q p] by (auto simp: list_all_iff)
  then have "linked (b(pcb_addr p := (b (pcb_addr p))\<lparr>file_array := fs\<rparr>)) ps = linked b ps"
    by (intro linked_cong) auto
  with assms show ?thesis by simp
qed

lemma runs_set_files:
  assumes "runs s (p # ps)" "files_ok fs"
  shows "runs (set_files fs s) (p # ps)"
proof -
  have "linked (pcbs (set_files fs s)) (p # ps)"
    using assms(1) linked_files [of "pcbs s" p ps fs] assms(2) runs_cur_pcb [OF assms(1)]
    by (simp add: runs_def set_files_def cur_pcb_def list_all_iff)
  with assms(1) show ?thesis
    by (auto simp: runs_def set_files_def dir_ok_def blank_ok_def user_pde_def simp del: linked.simps)
qed

section \<open>System calls on descriptors keep the programs running\<close>

text \<open>One component's operation does not reach the state of the processes behind it.\<close>

lemma read_data_mem: "snd (read_data inode offset buf n s) = s\<lparr>mem := mem (snd (read_data inode offset buf n s))\<rparr>"
  by (simp add: read_data_def Let_def split: prod.split)

lemma read_data_more [simp]: "keyboard.more (snd (read_data inode offset buf n s)) = keyboard.more s"
  by (subst read_data_mem) simp

lemma rtc_more_keyboard: "rtc.more (s :: 'a keyboard_scheme) = rtc.more t \<Longrightarrow> keyboard.more s = keyboard.more t"
  by (cases s; cases t) simp

lemma machine_more_keyboard:
  "machine.more (s :: 'a keyboard_scheme) = machine.more t \<Longrightarrow> keyboard.more s = keyboard.more t"
  by (cases s; cases t) simp

lemma rtc_fields_more [simp]:
  "rtc.more (s\<lparr>intflag := a\<rparr>) = rtc.more s" "rtc.more (s\<lparr>arrivals := b\<rparr>) = rtc.more s"
  by (cases s; simp)+

lemma rtc_wait_more: "rtc_wait ts s = Some (r, t) \<Longrightarrow> rtc.more t = rtc.more s"
  by (induction ts s rule: rtc_wait.induct) (auto split: if_splits)

lemma runs_read_data: "runs (snd (read_data inode offset buf n s)) ps = runs s ps"
  by (rule runs_cong) simp

lemma runs_mem [simp]: "runs (s\<lparr>mem := m\<rparr>) ps = runs s ps"
  by (rule runs_cong) simp

lemma runs_rtc_open [simp]: "runs (snd (rtc_open s)) ps = runs s ps"
  by (rule runs_cong, rule rtc_more_keyboard, rule rtc_open_more(1))

lemma file_open_outcomes:
  assumes "file_open fname s = Some (r, t)"
  obtains "t = s"
  | f where "slot_ok f" "t = set_files ((cur_files s)[free_slot (cur_files s) 2 := f]) s"
  | f where "slot_ok f" "t = snd (rtc_open (set_files ((cur_files s)[free_slot (cur_files s) 2 := f]) s))"
proof -
  let ?i = "free_slot (cur_files s) 2"
  have av: "?i < 8 \<Longrightarrow> flags (cur_files s ! ?i) = FILE_AVAIL" using free_slot_spec [of 2 "cur_files s"] by simp
  obtain n where n: "fname \<noteq> 0 \<Longrightarrow> strlen (mem s) fname = Some n"
    using assms by (cases "strlen (mem s) fname") (auto simp: file_open_def split: if_splits)
  note d = file_open_def Let_def NUM_MAX_OPEN_FILES_def
  show thesis
  proof (cases "fname = 0 \<or> of_nat FILENAME_LEN \<le> n \<or> 8 \<le> ?i")
    case True
    with n assms have "t = s" by (auto simp: d split: option.splits if_splits)
    then show thesis by (rule that(1))
  next
    case False
    then have ok: "fname \<noteq> 0" "strlen (mem s) fname = Some n" "\<not> of_nat FILENAME_LEN \<le> n" "?i < 8" using n by auto
    show thesis
    proof (cases "read_dentry_by_name fname s")
      case None
      with assms ok have "t = s" by (simp add: d)
      then show thesis by (rule that(1))
    next
      case (Some de)
      let ?f = "\<lambda>ops. (cur_files s ! ?i)\<lparr>file_ops_table_ptr := ops, inode_num := dentry_inode de\<rparr>"
      let ?ro = "rtc_open (set_files ((cur_files s)[?i := ?f RtcOps]) s)"
      obtain a b where ro: "?ro = (a, b)" by (cases ?ro)
      consider "filetype de = 2" | "filetype de = 1" | "filetype de = 0" | "filetype de \<notin> {0, 1, 2}" by auto
      then show thesis
      proof cases
        case 1
        with assms ok Some have "t = set_files ((cur_files s)[?i := (?f FileOps)\<lparr>file_position := 0, flags := FILE_OCCUP\<rparr>]) s"
          by (simp add: d)
        then show thesis by (rule that(2) [rotated]) (simp add: slot_ok_def)
      next
        case 2
        with assms ok Some have "t = set_files ((cur_files s)[?i := (?f DirectoryOps)\<lparr>file_position := 0, flags := FILE_OCCUP\<rparr>]) s"
          by (simp add: d)
        then show thesis by (rule that(2) [rotated]) (simp add: slot_ok_def)
      next
        case 3
        with assms ok Some ro have "t = snd ?ro" by (simp add: d)
        then show thesis by (rule that(3) [rotated]) (simp add: slot_ok_def av ok)
      next
        case 4
        with assms ok Some have "t = s" by (simp add: d)
        then show thesis by (rule that(1))
      qed
    qed
  qed
qed

lemma file_open_keeps:
  assumes "runs s (p # ps)" "file_open fname s = Some (r, t)"
  shows "runs t (p # ps)"
proof -
  have i: "2 \<le> free_slot (cur_files s) 2" using free_slot_spec [of 2 "cur_files s"] by simp
  have "runs (set_files ((cur_files s)[free_slot (cur_files s) 2 := f]) s) (p # ps)" if "slot_ok f" for f
    by (rule runs_set_files [OF assms(1) files_ok_update [OF runs_cur_files_ok [OF assms(1)] i that]])
  with assms(1) show ?thesis by (rule_tac file_open_outcomes [OF assms(2)]) auto
qed

lemma directory_open_keeps: "runs s (p # ps) \<Longrightarrow> directory_open fname s = Some (r, t) \<Longrightarrow> runs t (p # ps)"
  by (auto simp: directory_open_def file_open_keeps split: option.splits if_splits)

lemma sys_open_keeps: "runs s (p # ps) \<Longrightarrow> sys_open fname s = Some (r, t) \<Longrightarrow> runs t (p # ps)"
  by (auto simp: sys_open_def bind_eq_Some_conv split: option.splits if_splits prod.splits
      intro: file_open_keeps directory_open_keeps)

text \<open>Advancing the position in a slot.\<close>

lemma slot_ok_position: "slot_ok (f\<lparr>file_position := n\<rparr>) = slot_ok f"
  by (simp add: slot_ok_def)

lemma files_ok_position:
  "files_ok fs \<Longrightarrow> files_ok (fs[i := (fs ! i)\<lparr>file_position := n\<rparr>])"
  by (cases "i < 8") (auto simp: files_ok_def nth_list_update slot_ok_position)

lemma runs_position:
  "runs s (p # ps) \<Longrightarrow>
   runs (set_files ((cur_files s)[i := (cur_files s ! i)\<lparr>file_position := n\<rparr>]) s) (p # ps)"
  by (intro runs_set_files files_ok_position runs_cur_files_ok)

lemma file_read_keeps:
  assumes "runs s (p # ps)" "file_read fd buf n s = Some (r, t)"
  shows "runs t (p # ps)"
proof -
  have "runs (snd (read_data i off buf n s)) (p # ps)" for i off
    using assms(1) by (simp add: runs_read_data)
  from runs_position [OF this] show ?thesis
    using assms by (auto simp: file_read_def Let_def split: if_splits prod.splits)
      (metis snd_conv)+
qed

lemma directory_read_keeps:
  assumes "runs s (p # ps)" "directory_read fd buf n s = Some (r, t)"
  shows "runs t (p # ps)"
  using assms runs_position [OF assms(1)]
  by (auto simp: directory_read_def Let_def split: if_splits prod.splits option.splits)

lemma sys_read_keeps:
  assumes "runs s (p # ps)" "sys_read fd buf n s = Some (r, t)"
  shows "runs t (p # ps)"
proof -
  have m: "runs t (p # ps)" if "keyboard.more t = keyboard.more s"
    using runs_cong [OF that] assms(1) by simp
  show ?thesis
    using assms
    by (auto simp: sys_read_def rtc_read_def split: if_splits ops_table.splits
        intro: m file_read_keeps directory_read_keeps terminal_read_more rtc_more_keyboard [OF rtc_wait_more])
qed

lemma rtc_write_keeps: "runs (snd (rtc_write a b s)) ps = runs s ps"
  by (rule runs_cong, rule machine_more_keyboard) (simp add: rtc_write_def)

lemma terminal_write_keeps: "runs (snd (terminal_write fd buf n s)) ps = runs s ps"
  by (rule runs_cong, rule console_more_keyboard, rule terminal_write_more)

lemma sys_write_keeps:
  assumes "runs s (p # ps)" "sys_write fd buf n s = Some (r, t)"
  shows "runs t (p # ps)"
  using assms rtc_write_keeps [of fd buf s] terminal_write_keeps [of fd buf n s]
  by (auto simp: sys_write_def file_write_def directory_write_def split: if_splits ops_table.splits)

lemma fd_valid_iff: "unat low \<le> 8 \<Longrightarrow> fd_valid low fd \<longleftrightarrow> unat low \<le> unat fd \<and> unat fd < 8"
proof -
  assume low: "unat low \<le> 8"
  then have l: "sint low = int (unat low)" by (intro sint_unat) simp
  show ?thesis
  proof (cases "unat fd < 2 ^ 31")
    case True
    then have f: "sint fd = int (unat fd)" by (rule sint_unat)
    have "sint (7 :: u32) = 7" by simp
    then have "fd_valid low fd \<longleftrightarrow> \<not> (7 < int (unat fd) \<or> int (unat fd) < int (unat low))"
      by (simp only: fd_valid_def word_sless_alt l f)
    then show ?thesis by linarith
  next
    case False
    then have "fd <s 0" by (simp add: sless_0_iff)
    moreover from this have "sint fd < int (unat low)" by (simp add: word_sless_alt order_less_le_trans)
    ultimately show ?thesis using l False low by (simp add: fd_valid_def word_sless_alt)
  qed
qed

lemma sys_close_keeps:
  assumes "runs s (p # ps)" "sys_close fd s = Some (r, t)"
  shows "runs t (p # ps)"
proof -
  have bl: "blank_ok s" using assms(1) by (simp add: runs_def)
  have "runs (snd (file_close fd s)) (p # ps)" if "fd_valid 2 fd"
  proof -
    have "2 \<le> unat fd" using that by (simp add: fd_valid_iff)
    then have "files_ok ((cur_files s)[unat fd := blank s])"
      using runs_cur_files_ok [OF assms(1)] bl by (intro files_ok_update) (auto simp: slot_ok_def blank_ok_def)
    with assms(1) show ?thesis by (auto simp: file_close_eq intro: runs_set_files)
  qed
  with assms show ?thesis
    by (auto simp: sys_close_def directory_close_def terminal_close_def rtc_close_def
        split: if_splits ops_table.splits)
qed

section \<open>execute pushes, halt pops\<close>

lemma strtok_sp_more: "strtok_sp p s = Some (r, t) \<Longrightarrow> keyboard.more t = keyboard.more s"
  by (cases s) (auto simp: strtok_sp_def bind_eq_Some_conv)

lemma collect_args_more: "collect_args buffer ptr token s = Some t \<Longrightarrow> keyboard.more t = keyboard.more s"
proof (rule collect_args.raw_induct [where P = "\<lambda>b p k s t. keyboard.more t = keyboard.more s"])
  fix rec :: "u32 \<Rightarrow> u32 \<Rightarrow> u32 \<Rightarrow> 'a kernel_scheme \<Rightarrow> 'a kernel_scheme option"
    and buffer ptr token s t
  assume ih: "\<And>b p k s t. rec b p k s = Some t \<Longrightarrow> keyboard.more t = keyboard.more s"
    and eq: "(if token \<noteq> 0 then do {
        let (ptr, s) = (if ptr \<noteq> buffer then (ptr + 1, s\<lparr>mem := store_bytes (mem s) ptr [SPACE, 0]\<rparr>)
                        else (ptr, s));
        ret \<leftarrow> strlen (mem s) token;
        let s = s\<lparr>mem := memcpy (mem s) ptr token (ret + 1)\<rparr>;
        (token, s) \<leftarrow> strtok_sp 0 s;
        rec buffer (ptr + ret) token s }
      else Some s) = Some t"
  then show "keyboard.more t = keyboard.more s"
    by (auto simp: bind_eq_Some_conv Let_def split: if_splits dest!: ih strtok_sp_more)
qed

lemma exec_check_more:
  assumes "exec_check command s = Some (r, t)"
  shows "keyboard.more t = keyboard.more s"
proof -
  obtain token u where u: "strtok_sp command s = Some (token, u)"
    using assms by (auto simp: exec_check_def bind_eq_Some_conv)
  have more: "keyboard.more u = keyboard.more s" by (rule strtok_sp_more [OF u])
  consider "t = u" | m where "t = u\<lparr>mem := m\<rparr>"
    | m i b where "t = snd (read_data i 0 b 4 (u\<lparr>mem := m\<rparr>))"
  proof (cases "token = 0")
    case True
    with assms u that(1) show thesis by (simp add: exec_check_def)
  next
    case False
    with assms u obtain n where n: "strlen (mem u) token = Some n"
      by (auto simp: exec_check_def bind_eq_Some_conv)
    show thesis
    proof (cases "n \<ge> of_nat FILENAME_LEN - 1")
      case True
      with assms u n False that(1) show thesis by (simp add: exec_check_def)
    next
      case len: False
      obtain m where m: "strcpy (mem u) (exec_filename_at u) token = Some m"
        using assms u n False len by (cases "strcpy (mem u) (exec_filename_at u) token") (auto simp: exec_check_def)
      show thesis
      proof (cases "read_dentry_by_name (exec_filename_at u) (u\<lparr>mem := m\<rparr>)")
        case None
        with assms u n False len m have "t = u\<lparr>mem := m\<rparr>" by (simp add: exec_check_def)
        then show thesis by (rule that(2))
      next
        case (Some d)
        obtain c v where v: "read_data (dentry_inode d) 0 (exec_buffer_at u) 4 (u\<lparr>mem := m\<rparr>) = (c, v)"
          by (cases "read_data (dentry_inode d) 0 (exec_buffer_at u) 4 (u\<lparr>mem := m\<rparr>)")
        have "t = u\<lparr>mem := m\<rparr> \<or> t = v"
          using assms u n False len m Some v by (auto simp: exec_check_def Let_def split: if_splits)
        with that(2,3) v show thesis by (metis snd_conv)
      qed
    qed
  qed
  then show ?thesis by cases (simp_all add: more)
qed

lemma exec_args_more: "exec_args s = Some t \<Longrightarrow> keyboard.more t = keyboard.more s"
  by (auto simp: exec_args_def bind_eq_Some_conv Let_def dest!: strtok_sp_more collect_args_more)


text \<open>The page directory entry of the user page, by process number.\<close>

lemma map_pid:
  "update_page_directory 0x08000000 (0x00800000 + pid * 0x00400000) 0x87 s = map_user (user_frame pid) s"
  "update_page_directory C_128MB (user_frame pid) USER_PDE_4MB_BASE s = map_user (user_frame pid) s"
  by (simp_all add: map_user_def user_frame_def USER_PDE_4MB_BASE_def USER_BASE_def C_128MB_def C_8MB_def C_4MB_def)

lemma map_user_fields [simp]:
  "page_directory (map_user fr s) = (page_directory s)[32 := fr OR 0x87]"
  "paging.more (map_user fr s) = paging.more s" "video_pages (map_user fr s) = video_pages s"
  "page_table (map_user fr s) = page_table s" "dir_ok (map_user fr s) = dir_ok s"
  "video_pages_at (map_user fr s) = video_pages_at s" "page_table_at (map_user fr s) = page_table_at s"
  "eflags (map_user fr s) = eflags s" "io (map_user fr s) = io s" "strtok_last (map_user fr s) = strtok_last s"
  by (simp_all add: map_user_eq dir_ok_def)

lemma paging_more_kernel:
  assumes "paging.more (s :: 'a kernel_scheme) = paging.more t"
  shows "fs_ptr s = fs_ptr t" "blank s = blank t" "pcbs s = pcbs t" "esp s = esp t"
    "pid_array s = pid_array t" "curr_process s = curr_process t" "tss_esp0 s = tss_esp0 t"
    "ebp s = ebp t" "exec_filename_at s = exec_filename_at t" "exec_buffer_at s = exec_buffer_at t"
    "end_of_execute s = end_of_execute t" "kernel.more s = kernel.more t"
    "cur_pcb s = cur_pcb t" "cur_files s = cur_files t"
  using assms by (cases s; cases t; simp add: cur_pcb_def cur_files_def getCurrentProcessPCB_def)+

lemmas map_user_kernel [simp] = paging_more_kernel [OF map_user_fields(2)]

lemma map_user_user_pde [simp]:
  "dir_ok s \<Longrightarrow> user_pde (map_user fr s) = fr OR 0x87" "dir_ok s \<Longrightarrow> tlb_pde (map_user fr s) = fr OR 0x87"
proof -
  assume "dir_ok s"
  then show "user_pde (map_user fr s) = fr OR 0x87" by (simp add: user_pde_def dir_ok_def)
  show "tlb_pde (map_user fr s) = fr OR 0x87"
    using map_user_pde [OF \<open>dir_ok s\<close>] by (simp add: map_user_eq)
qed

lemma blank_ok_map [simp]: "blank_ok (map_user fr s) = blank_ok (s :: 'a kernel_scheme)"
  by (simp add: blank_ok_def)

text \<open>Mapping the frame of the running program again changes nothing of the abstract stack.\<close>

lemma runs_map_same: "runs s ps \<Longrightarrow> runs (map_user (user_frame (curr_process s)) s) ps"
  by (auto simp: runs_def)


text \<open>Loading a program: on success the window shows its frame, on failure the caller's.\<close>

lemma exec_load_cases:
  obtains m where "exec_load inode n s = (True, (map_user (user_frame n) s)\<lparr>mem := m\<rparr>)"
  | m where "exec_load inode n s = (False, map_user (user_frame (curr_process s)) ((map_user (user_frame n) s)\<lparr>mem := m\<rparr>))"
proof -
  let ?u = "map_user (user_frame n) s"
  obtain r v where v: "read_data inode 0 PROGRAM_IMAGE (flength inode ?u) ?u = (r, v)"
    by (cases "read_data inode 0 PROGRAM_IMAGE (flength inode ?u) ?u")
  then have "v = ?u\<lparr>mem := mem v\<rparr>" using read_data_mem [of inode 0 PROGRAM_IMAGE "flength inode ?u" ?u] by simp
  then obtain m where m: "v = ?u\<lparr>mem := m\<rparr>" by blast
  have "exec_load inode n s = (if r \<noteq> flength inode ?u then (False, map_user (user_frame (curr_process s)) v) else (True, v))"
    using v m by (simp add: exec_load_def map_pid Let_def)
  with m show thesis by (cases "r = flength inode ?u") (auto intro: that)
qed

text \<open>The fields of the state in which a program starts.\<close>

lemma exec_enter_fields:
  assumes "exec_enter n s = Some (out, t)"
  shows "out = Enter (load32 (mem t) (PROGRAM_IMAGE + 24)) 0x83FFFFC"
    "pid_array t = (pid_array s)[unat n := PROG_ACTIVE]" "curr_process t = n" "tss_esp0 t = kernel_stack n"
    "page_directory t = page_directory s" "tlb_pde t = tlb_pde s" "blank t = blank s" "esp t = esp s" "ebp t = ebp s"
    "fs_ptr t = fs_ptr s" "end_of_execute t = end_of_execute s" "frames t = frames s"
    "eflags t = eflags s OR IF_FLAG" "b \<noteq> pcb_addr n \<Longrightarrow> pcbs t b = pcbs s b"
    "parent_num (pcbs t (pcb_addr n)) = curr_process s" "parent_esp (pcbs t (pcb_addr n)) = esp s"
    "parent_ebp (pcbs t (pcb_addr n)) = ebp s" "exec_ret_addr (pcbs t (pcb_addr n)) = end_of_execute s"
    "file_array (pcbs t (pcb_addr n)) = init_file_array (blank s)"
  using assms
  by (auto simp: exec_enter_def Let_def bind_eq_Some_conv context_switch_def kernel_stack_def
      C_128MB_def C_4MB_def C_4B_def)


definition take_slot :: "nat \<Rightarrow> 'a kernel_scheme \<Rightarrow> 'a kernel_scheme" where
  "take_slot n s = s\<lparr>pid_array := (pid_array s)[n := PROG_ACTIVE]\<rparr>"

lemma execute_outcomes:
  assumes "execute command s = Some (out, t)"
  obtains r where "out = Return r" "r \<in> {minus_one, 256}" "keyboard.more t = keyboard.more s"
  | u n m where "out = Return minus_one" "keyboard.more u = keyboard.more s" "n \<in> free_pids s" "n = Min (free_pids s)"
      "t = map_user (user_frame (curr_process s)) ((map_user (user_frame (of_nat n)) (take_slot n u))\<lparr>mem := m\<rparr>)"
  | u n m where "keyboard.more u = keyboard.more s" "n \<in> free_pids s" "n = Min (free_pids s)"
      "exec_enter (of_nat n) ((map_user (user_frame (of_nat n)) (take_slot n u))\<lparr>mem := m\<rparr>) = Some (out, t)"
proof -
  obtain ch s1 where s1: "exec_check command s = Some (ch, s1)"
    using assms by (auto simp: execute_def bind_eq_Some_conv)
  show thesis
  proof (cases ch)
    case None
    with assms s1 exec_check_more [OF s1] show thesis by (intro that(1)) (auto simp: execute_def)
  next
    case (Some d)
    obtain s2 where s2: "exec_args s1 = Some s2"
      using assms s1 Some by (auto simp: execute_def bind_eq_Some_conv)
    have more: "keyboard.more s2 = keyboard.more s" using exec_check_more [OF s1] exec_args_more [OF s2] by simp
    have free: "free_pids s2 = free_pids s" and cur: "curr_process s2 = curr_process s"
      using keyboard_more_kernel [OF more] by (simp_all add: free_pids_def)
    show thesis
    proof (rule get_next_process_number_cases [of s2])
      assume "get_next_process_number s2 = (minus_one, s2)"
      with assms s1 s2 Some obtain l where
        "printf (lit ''You have reached the maximum number of processes! '' @ [0x0A]) [] s2 = Some (l, t)" "out = Return 256"
        by (auto simp: execute_def bind_eq_Some_conv)
      with more show thesis by (intro that(1)) (auto dest!: printf_more console_more_keyboard)
    next
      fix n assume n: "n \<in> free_pids s2" "n < 6" "n = Min (free_pids s2)"
        and gn: "get_next_process_number s2 = (of_nat n, s2\<lparr>pid_array := (pid_array s2)[n := PROG_ACTIVE]\<rparr>)"
      have ne: "(of_nat n :: u32) \<noteq> minus_one"
      proof
        assume "(of_nat n :: u32) = minus_one"
        then have "unat (of_nat n :: u32) = unat minus_one" by simp
        with n(2) show False by (simp add: unat_of_nat)
      qed
      note eq = assms [unfolded execute_def s1 Some]
      show thesis
      proof (rule exec_load_cases [of "dentry_inode d" "of_nat n" "take_slot n s2"])
        fix m assume l: "exec_load (dentry_inode d) (of_nat n) (take_slot n s2) =
            (True, (map_user (user_frame (of_nat n)) (take_slot n s2))\<lparr>mem := m\<rparr>)"
        have "exec_enter (of_nat n) ((map_user (user_frame (of_nat n)) (take_slot n s2))\<lparr>mem := m\<rparr>) = Some (out, t)"
          using assms s1 s2 Some gn ne l by (simp add: execute_def take_slot_def)
        with more n free show thesis by (intro that(3)) simp_all
      next
        fix m assume l: "exec_load (dentry_inode d) (of_nat n) (take_slot n s2) =
            (False, map_user (user_frame (curr_process (take_slot n s2)))
              ((map_user (user_frame (of_nat n)) (take_slot n s2))\<lparr>mem := m\<rparr>))"
        have "out = Return minus_one" "t = map_user (user_frame (curr_process s))
              ((map_user (user_frame (of_nat n)) (take_slot n s2))\<lparr>mem := m\<rparr>)"
          using assms s1 s2 Some gn ne l cur by (simp_all add: execute_def take_slot_def)
        with more n free show thesis by (intro that(2)) simp_all
      qed
    qed
  qed
qed

lemma take_slot_fields [simp]:
  "dir_ok (take_slot n s) = dir_ok s" "pcbs (take_slot n s) = pcbs s" "esp (take_slot n s) = esp s"
  "curr_process (take_slot n s) = curr_process s" "blank (take_slot n s) = blank s"
  "tss_esp0 (take_slot n s) = tss_esp0 s" "user_pde (take_slot n s) = user_pde s"
  "tlb_pde (take_slot n s) = tlb_pde s" "page_directory (take_slot n s) = page_directory s"
  "pid_array (take_slot n s) = (pid_array s)[n := PROG_ACTIVE]" "ebp (take_slot n s) = ebp s"
  "end_of_execute (take_slot n s) = end_of_execute s" "mem (take_slot n s) = mem s"
  "blank_ok (take_slot n s) = blank_ok s" "frames (take_slot n s) = frames s"
  by (simp_all add: take_slot_def dir_ok_def blank_ok_def user_pde_def)

text \<open>Taking a free slot does not disturb the running programs.\<close>

lemma runs_take_slot: "runs s ps \<Longrightarrow> runs (take_slot n s) ps"
proof -
  assume r: "runs s ps"
  then have "length (pid_array s) = 6" "list_all (\<lambda>p. pid_ok p \<and> pid_array s ! unat p = PROG_ACTIVE) ps"
    by (simp_all add: runs_def)
  then have "list_all (\<lambda>p. pid_ok p \<and> (pid_array s)[n := PROG_ACTIVE] ! unat p = PROG_ACTIVE) ps"
    by (cases "n < 6") (auto simp: list_all_iff nth_list_update pid_ok_def)
  with r show ?thesis by (simp add: runs_def)
qed

lemma runs_free: "runs s ps \<Longrightarrow> n \<in> free_pids s \<Longrightarrow> of_nat n \<notin> set ps"
  by (auto simp: runs_def free_pids_def list_all_iff unat_of_nat PROG_ACTIVE_def PROG_NOT_ACTIVE_def)

text \<open>A call of \<open>execute\<close> that returns leaves the stack as it was.\<close>

lemma execute_returns_keeps:
  assumes "runs s ps" "execute command s = Some (Return r, t)"
  shows "runs t ps"
proof (rule execute_outcomes [OF assms(2)])
  assume "keyboard.more t = keyboard.more s"
  then show ?thesis using runs_cong assms(1) by metis
next
  fix u n m assume u: "keyboard.more u = keyboard.more s"
    and t: "t = map_user (user_frame (curr_process s)) ((map_user (user_frame (of_nat n)) (take_slot n u))\<lparr>mem := m\<rparr>)"
  have ru: "runs (take_slot n u) ps" using runs_cong [OF u] assms(1) by (simp add: runs_take_slot)
  have cur: "curr_process u = curr_process s" using keyboard_more_kernel [OF u] by simp
  from ru show ?thesis
    using runs_curr [OF assms(1)] cur by (auto simp: t runs_def dir_ok_def blank_ok_def)
next
  fix u n m assume "exec_enter (of_nat n) ((map_user (user_frame (of_nat n)) (take_slot n u))\<lparr>mem := m\<rparr>) = Some (Return r, t)"
  then show ?thesis using exec_enter_fields(1) by blast
qed


text \<open>A call of \<open>execute\<close> that enters a program pushes it, in the lowest free slot.\<close>

lemma execute_pushes:
  assumes "runs s ps" "execute command s = Some (Enter eip sp, t)"
  shows "\<exists>n \<in> free_pids s. n = Min (free_pids s) \<and> runs (t\<lparr>esp := kernel_stack (of_nat n)\<rparr>) (of_nat n # ps)"
proof (rule execute_outcomes [OF assms(2)])
  fix u n m assume u: "keyboard.more u = keyboard.more s" and n: "n \<in> free_pids s" "n = Min (free_pids s)"
    and e: "exec_enter (of_nat n) ((map_user (user_frame (of_nat n)) (take_slot n u))\<lparr>mem := m\<rparr>) = Some (Enter eip sp, t)"
  let ?v = "(map_user (user_frame (of_nat n)) (take_slot n u))\<lparr>mem := m\<rparr>" and ?p = "of_nat n :: u32"
  have ru: "runs (take_slot n u) ps" using runs_cong [OF u] assms(1) by (simp add: runs_take_slot)
  have n6: "n < 6" using n(1) by (simp add: free_pids_def)
  then have un: "unat ?p = n" by (simp add: unat_of_nat)
  note f = exec_enter_fields [OF e] keyboard_more_kernel [OF u]
  have fresh: "?p \<notin> set ps" using runs_free [OF assms(1) n(1)] .
  have ok: "list_all pid_ok ps" using ru by (auto simp: runs_def list_all_iff)
  have "linked (pcbs t) ps = linked (pcbs s) ps"
  proof (rule linked_cong)
    fix q assume "q \<in> set ps"
    then have "pcb_addr q \<noteq> pcb_addr ?p" using fresh ok n6 by (auto simp: list_all_iff pcb_addr_inj)
    then show "pcbs t (pcb_addr q) = pcbs s (pcb_addr q)" using f by simp
  qed
  then have "linked (pcbs t) (?p # ps)"
    using assms(1) f by (simp add: runs_def init_file_array_ok blank_ok_def)
  moreover have "in_kstack (?p # ps) (kernel_stack ?p)"
  proof -
    have "kernel_stack ?p = pcb_addr ?p + 0x1FFC"
      by (simp add: kernel_stack_def pcb_addr_def process_consts algebra_simps)
    then show ?thesis using pcb_mask [of ?p "0x1FFC"] n6 by (simp add: in_kstack_def stack_page_def)
  qed
  moreover have "length (pid_array t) = 6" "dir_ok t" "blank_ok t" "user_pde t = user_frame ?p OR 0x87"
    "tlb_pde t = user_pde t" "(pid_array t) ! n = PROG_ACTIVE"
    "list_all (\<lambda>q. pid_ok q \<and> pid_array t ! unat q = PROG_ACTIVE) ps"
    using ru f n6 un by (auto simp: runs_def dir_ok_def blank_ok_def user_pde_def)
  ultimately have "runs (t\<lparr>esp := kernel_stack ?p\<rparr>) (?p # ps)"
    using assms(1) fresh f n6 un by (simp add: runs_def dir_ok_def blank_ok_def user_pde_def top_pid_def)
  with n show ?thesis by blast
qed auto

text \<open>\<open>halt\<close> pops the running program and goes back into its parent's \<open>execute\<close>.\<close>

lemma halt_fields:
  assumes "halt status s = (out, t)"
  defines "b \<equiv> pcbs s (pcb_addr (curr_process s))"
  shows "out = Resume (exec_ret_addr b) (ucast status)" "esp t = parent_esp b" "ebp t = parent_ebp b"
    "curr_process t = parent_num b" "tss_esp0 t = kernel_stack (parent_num b)"
    "pid_array t = (pid_array s)[unat (curr_process s) := PROG_NOT_ACTIVE]"
    "pcbs t = pcbs s" "blank t = blank s" "page_directory t = (page_directory s)[32 := user_frame (parent_num b) OR 0x87]"
    "dir_ok s \<Longrightarrow> tlb_pde t = user_frame (parent_num b) OR 0x87"
    "mem t = mem (map_user (user_frame (parent_num b)) s)" "frames t = frames (map_user (user_frame (parent_num b)) s)"
  using assms by (auto simp: halt_def return_to_execute_def Let_def map_pid)

lemma halt_pops:
  assumes "runs s (p # ps)" "halt status s = (out, t)"
  shows "runs t ps"
proof -
  note f = halt_fields [OF assms(2)]
  have p: "curr_process s = p" using assms(1) by (simp add: runs_def top_pid_def)
  have l: "parent_num (pcbs s (pcb_addr p)) = top_pid ps" "in_kstack ps (parent_esp (pcbs s (pcb_addr p)))"
    "linked (pcbs s) ps" using assms(1) by (simp_all add: runs_def)
  have d: "length (page_directory s) = 1024" "dir_ok s" using assms(1) by (simp_all add: runs_def dir_ok_def)
  have ps: "list_all (\<lambda>q. pid_ok q \<and> pid_array s ! unat q = PROG_ACTIVE) ps" "p \<notin> set ps"
    using assms(1) by (auto simp: runs_def list_all_iff)
  then have "unat p \<noteq> unat q" if "q \<in> set ps" for q using that by (metis word_unat_eq_iff)
  with ps(1) have "list_all (\<lambda>q. pid_ok q \<and> pid_array t ! unat q = PROG_ACTIVE) ps"
    by (simp add: f p list_all_iff)
  with assms(1) d l show ?thesis
    by (simp add: runs_def f p dir_ok_def blank_ok_def user_pde_def)
qed

section \<open>A program's memory while another one runs\<close>

lemma user_frame_ok: "pid_ok p \<Longrightarrow> frame_ok (user_frame p)"
  using pid_ok_cases [of p] by (auto simp: frame_ok_def frame_of_def user_frame_def C_8MB_def C_4MB_def)

lemma user_frame_inj: "pid_ok p \<Longrightarrow> pid_ok q \<Longrightarrow> user_frame p = user_frame q \<longleftrightarrow> p = q"
  using pid_ok_cases [of p] pid_ok_cases [of q] by (auto simp: user_frame_def C_8MB_def C_4MB_def)

lemma runs_vm_ok: "runs s (p # ps) \<Longrightarrow> vm_ok s"
  by (simp add: runs_def vm_ok_def user_pde_present)

lemma runs_mapped: "runs s (p # ps) \<Longrightarrow> mapped_frame s = user_frame p"
  by (auto simp: runs_def mapped_frame_def user_pde_frame user_frame_ok top_pid_def)

text \<open>The stages of an \<open>execute\<close> that enters a program.\<close>

lemma execute_enters:
  assumes "execute command s = Some (Enter eip sp, t)"
  obtains d w1 w n x where "exec_check command s = Some (Some d, w1)" "exec_args w1 = Some w"
    "n \<in> free_pids s" "n = Min (free_pids s)" "keyboard.more w = keyboard.more s"
    "exec_load (dentry_inode d) (of_nat n) (take_slot n w) = (True, x)" "exec_enter (of_nat n) x = Some (Enter eip sp, t)"
proof -
  obtain ch w1 where w1: "exec_check command s = Some (ch, w1)"
    using assms by (auto simp: execute_def bind_eq_Some_conv)
  then obtain d where d: "ch = Some d" using assms by (cases ch) (auto simp: execute_def)
  then obtain w where w: "exec_args w1 = Some w" using assms w1 by (auto simp: execute_def bind_eq_Some_conv)
  have more: "keyboard.more w = keyboard.more s" using exec_check_more [OF w1] exec_args_more [OF w] by simp
  have free: "free_pids w = free_pids s" using keyboard_more_kernel [OF more] by (simp add: free_pids_def)
  show thesis
  proof (rule get_next_process_number_cases [of w])
    assume "get_next_process_number w = (minus_one, w)"
    with assms w1 d w show thesis by (auto simp: execute_def bind_eq_Some_conv)
  next
    fix n assume n: "n \<in> free_pids w" "n < 6" "n = Min (free_pids w)"
      and gn: "get_next_process_number w = (of_nat n, w\<lparr>pid_array := (pid_array w)[n := PROG_ACTIVE]\<rparr>)"
    have ne: "(of_nat n :: u32) \<noteq> minus_one"
    proof
      assume "(of_nat n :: u32) = minus_one"
      then have "unat (of_nat n :: u32) = unat minus_one" by simp
      with n(2) show False by (simp add: unat_of_nat)
    qed
    obtain l x where x: "exec_load (dentry_inode d) (of_nat n) (take_slot n w) = (l, x)"
      by (cases "exec_load (dentry_inode d) (of_nat n) (take_slot n w)")
    have "l \<and> exec_enter (of_nat n) x = Some (Enter eip sp, t)"
      using assms w1 d w gn ne x by (auto simp: execute_def take_slot_def split: if_splits)
    with w1 d w n free more x that show thesis by metis
  qed
qed

lemma user_mem_cong:
  "frames s fr = frames t fr \<Longrightarrow> tlb_pde s = tlb_pde t \<Longrightarrow> frame_of (tlb_pde s) \<noteq> fr \<Longrightarrow>
   user_mem s fr = user_mem t fr"
  by (rule ext) (simp add: user_mem_def)

text \<open>Starting a program writes nothing into another one's frame.\<close>

lemma execute_parent_memory:
  assumes "runs s (p # ps)" "exec_load inode n (take_slot k w) = (True, x)" "exec_enter n x = Some (out, t)"
    and "keyboard.more w = keyboard.more s" "pid_ok n" "n \<noteq> p"
  shows "user_mem t (user_frame p) = window (mem w)"
proof -
  let ?w = "take_slot k w"
  have rw: "runs ?w (p # ps)" using runs_cong [OF assms(4)] assms(1) by (simp add: runs_take_slot)
  then have d: "dir_ok ?w" by (simp add: runs_def)
  obtain m where x: "x = (map_user (user_frame n) ?w)\<lparr>mem := m\<rparr>"
    using assms(2) by (rule_tac exec_load_cases [of inode n ?w]) auto
  have p: "pid_ok p" using rw by (simp add: runs_def)
  have ne: "frame_of (user_frame n OR 0x87) \<noteq> user_frame p"
    using user_frame_inj [OF assms(5) p] user_frame_ok [OF assms(5)] assms(6) by (simp add: user_pde_frame)
  note f = exec_enter_fields [OF assms(3)]
  have "user_mem t (user_frame p) = user_mem (map_user (user_frame n) ?w) (user_frame p)"
    using ne d by (intro user_mem_cong) (simp_all add: f x)
  also have "\<dots> = user_mem ?w (user_frame p)"
    using vm.switch_contents [OF runs_vm_ok [OF rw] user_frame_ok [OF assms(5)]] by simp
  also have "\<dots> = window (mem ?w)"
    using vm.shown_current [OF runs_vm_ok [OF rw]] runs_mapped [OF rw] by simp
  finally show ?thesis by simp
qed


text \<open>\<open>halt\<close> shows the parent its memory again.\<close>

lemma halt_shows_parent:
  assumes "runs u (n # p # ps)" "halt status u = (out, v)"
  shows "window (mem v) = user_mem u (user_frame p)"
proof -
  have "pid_ok p" using assms(1) by (simp add: runs_def)
  moreover have "parent_num (pcbs u (pcb_addr (curr_process u))) = p"
    using assms(1) by (simp add: runs_def top_pid_def)
  ultimately show ?thesis
    using vm.switch_shows [OF runs_vm_ok [OF assms(1)] user_frame_ok] halt_fields(11) [OF assms(2)] by simp
qed

text \<open>
  A program runs from its start in \<open>t\<close> to its \<open>halt\<close> in \<open>u\<close>: it may do what it likes, as long
  as the programs below it keep their frames and the kernel its links to them.
\<close>

definition child_ran :: "u32 \<Rightarrow> 'a kernel_scheme \<Rightarrow> 'a kernel_scheme \<Rightarrow> bool" where
  "child_ran n t u \<longleftrightarrow>
     pid_array u = pid_array t \<and>
     (\<forall>p. p \<noteq> n \<longrightarrow> pid_ok p \<longrightarrow> user_mem u (user_frame p) = user_mem t (user_frame p)) \<and>
     (let b = pcbs u (pcb_addr n); c = pcbs t (pcb_addr n) in
        parent_ebp b = parent_ebp c \<and> parent_esp b = parent_esp c \<and> exec_ret_addr b = exec_ret_addr c)"

lemma child_round_trip:
  assumes r: "runs s (p # ps)" and e: "execute command s = Some (Enter eip sp, t)"
    and u: "runs u (curr_process t # p # ps)" "child_ran (curr_process t) t u"
    and h: "halt status u = (out, v)"
  shows "out = Resume (end_of_execute s) (ucast status)" "esp v = esp s" "ebp v = ebp s"
    "runs v (p # ps)" "curr_process v = curr_process s" "tss_esp0 v = tss_esp0 s" "pid_array v = pid_array s"
    "\<exists>d w1 w. exec_check command s = Some (Some d, w1) \<and> exec_args w1 = Some w \<and>
       window (mem v) = window (mem w)"
proof -
  obtain d w1 w n x where x: "exec_check command s = Some (Some d, w1)" "exec_args w1 = Some w"
    "n \<in> free_pids s" "keyboard.more w = keyboard.more s"
    "exec_load (dentry_inode d) (of_nat n) (take_slot n w) = (True, x)" "exec_enter (of_nat n) x = Some (Enter eip sp, t)"
    by (rule execute_enters [OF e])
  let ?n = "of_nat n :: u32"
  obtain m where xm: "x = (map_user (user_frame ?n) (take_slot n w))\<lparr>mem := m\<rparr>"
    using x(5) by (rule_tac exec_load_cases [of "dentry_inode d" ?n "take_slot n w"]) auto
  have n6: "n < 6" "pid_array s ! n = PROG_NOT_ACTIVE" "length (pid_array s) = 6"
    using x(3) r by (simp_all add: free_pids_def runs_def)
  have un: "unat ?n = n" using n6 by (simp add: unat_of_nat)
  note f = exec_enter_fields [OF x(6)] keyboard_more_kernel [OF x(4)]
  have cur: "curr_process t = ?n" by (rule f(3))
  have np: "?n \<noteq> p" "pid_ok p" using runs_free [OF r x(3)] r by (auto simp: runs_def)
  have cu: "curr_process u = ?n" using u(1) cur by (simp add: runs_def top_pid_def)
  have same: "parent_ebp (pcbs u (pcb_addr ?n)) = ebp s" "parent_esp (pcbs u (pcb_addr ?n)) = esp s"
    "exec_ret_addr (pcbs u (pcb_addr ?n)) = end_of_execute s"
    using u(2) unfolding cur child_ran_def Let_def by (simp_all add: f xm)
  note g = halt_fields [OF h, unfolded cu]
  show "out = Resume (end_of_execute s) (ucast status)" "esp v = esp s" "ebp v = ebp s"
    by (simp_all add: g same)
  show rv: "runs v (p # ps)" by (rule halt_pops [OF u(1) h])
  show "curr_process v = curr_process s" "tss_esp0 v = tss_esp0 s"
    using rv r by (simp_all add: runs_def top_pid_def)
  have "pid_array u = (pid_array s)[n := PROG_ACTIVE]"
    using u(2) unfolding cur child_ran_def by (simp add: f xm un)
  then have "pid_array v = (pid_array s)[n := PROG_NOT_ACTIVE]" by (simp add: g un)
  then show "pid_array v = pid_array s" using n6 by (metis list_update_id)
  have "window (mem v) = user_mem u (user_frame p)" by (rule halt_shows_parent [OF u(1) h])
  also have "\<dots> = user_mem t (user_frame p)" using u(2) np unfolding cur child_ran_def by simp
  also have "\<dots> = window (mem w)"
    using execute_parent_memory [OF r x(5,6,4)] np n6 by simp
  finally show "\<exists>d w1 w. exec_check command s = Some (Some d, w1) \<and> exec_args w1 = Some w \<and>
       window (mem v) = window (mem w)" using x(1,2) by blast
qed

end
