(* ===== verification/Disk.thy ===== *)
theory Disk
  imports Filesys
begin

text \<open>
  The properties of the file system, \<^verbatim>\<open>student-distrib/filesys.c\<close>, as its callers see it, each
  applied to a small image: reads through \<open>read_data\<close> and through descriptors, lookups, opening
  and listing.
\<close>

section \<open>The file system as its callers see it\<close>

text \<open>A small image at 5 MB: one inode, one data block and the entries \<^verbatim>\<open>.\<close>, \<^verbatim>\<open>prog\<close> (28 bytes
  that begin like an ELF file, with the entry point in the last four) and \<^verbatim>\<open>rtc\<close>.\<close>

definition prog_bytes :: "u8 list" where
  "prog_bytes = [0x7F, 0x45, 0x4C, 0x46, 0, 0, 0, 0, 0, 0, 0, 0, 0, 0, 0, 0, 0, 0, 0, 0, 0, 0, 0, 0,
     0x00, 0x81, 0x04, 0x08]"

definition disk_mem :: "u32 \<Rightarrow> u8" where
  "disk_mem = (let m = store_bytes (\<lambda>_. 0) 0x500000 [3, 0, 0, 0, 1, 0, 0, 0, 1];
     m = store_bytes m 0x500040 (lit ''.'');
     m = store_bytes m 0x500060 [1];
     m = store_bytes m 0x500080 (lit ''prog'');
     m = store_bytes m 0x5000A0 [2];
     m = store_bytes m 0x5000C0 (lit ''rtc'');
     m = store_bytes m 0x501000 [28];
     m = store_bytes m 0x600000 (lit ''prog'');
     m = store_bytes m 0x600010 (lit ''rtc'');
     m = store_bytes m 0x600020 (lit ''prog  hi you'')
     in store_bytes m 0x502000 prog_bytes)"

lemma store_bytes_lookup:
  assumes "length xs \<le> 2 ^ 32"
  shows "store_bytes m a xs b = (if unat (b - a) < length xs then xs ! unat (b - a) else m b)"
proof (cases "unat (b - a) < length xs")
  case True
  then show ?thesis using store_bytes_nth [OF assms True, of m a] by simp
next
  case False
  then have "b \<notin> rng a (length xs)" using assms by (simp add: mem_rng_iff)
  with False show ?thesis by (simp add: store_bytes_other)
qed

lemma disk_at:
  "disk_mem b =
    (if unat (b - 0x502000) < 28 then prog_bytes ! unat (b - 0x502000)
     else if unat (b - 0x600020) < 12 then lit ''prog  hi you'' ! unat (b - 0x600020)
     else if unat (b - 0x600010) < 3 then lit ''rtc'' ! unat (b - 0x600010)
     else if unat (b - 0x600000) < 4 then lit ''prog'' ! unat (b - 0x600000)
     else if unat (b - 0x501000) < 1 then [28] ! unat (b - 0x501000)
     else if unat (b - 0x5000C0) < 3 then lit ''rtc'' ! unat (b - 0x5000C0)
     else if unat (b - 0x5000A0) < 1 then [2] ! unat (b - 0x5000A0)
     else if unat (b - 0x500080) < 4 then lit ''prog'' ! unat (b - 0x500080)
     else if unat (b - 0x500060) < 1 then [1] ! unat (b - 0x500060)
     else if unat (b - 0x500040) < 1 then lit ''.'' ! unat (b - 0x500040)
     else if unat (b - 0x500000) < 9 then [3, 0, 0, 0, 1, 0, 0, 0, 1] ! unat (b - 0x500000) else 0)"
proof -
  have "length prog_bytes = 28" by (simp add: prog_bytes_def)
  then show ?thesis by (simp add: disk_mem_def Let_def store_bytes_lookup del: store_bytes.simps)
qed

definition blank_slot :: file_t where
  "blank_slot = \<lparr>file_ops_table_ptr = NoOps, inode_num = 0, file_position = 0, flags = FILE_AVAIL\<rparr>"

definition fresh_pcb :: pcb_t where
  "fresh_pcb = \<lparr>file_array = init_file_array blank_slot, parent_num = 0, parent_esp = 0x7FFF00, current_esp = 0,
     parent_ebp = 0, current_ebp = 0, current_eip = 0, exec_ret_addr = 0, rtc_count = 0,
     num_char_in_arg = 0, terminal_index = 0, is_user_mode = 0\<rparr>"

definition disk :: filesys where
  "disk = (paging.extend bare \<lparr>fs_ptr = 0x500000, blank = blank_slot, pcbs = \<lambda>_. fresh_pcb, esp = 0x7FDFFC\<rparr>)
     \<lparr>mem := disk_mem\<rparr>"

lemma disk_fields [simp]:
  "mem disk = disk_mem" "fs_ptr disk = 0x500000" "blank disk = blank_slot" "cur_files disk = init_file_array blank_slot"
  by (simp_all add: disk_def paging.defs cur_files_def cur_pcb_def fresh_pcb_def)

lemma disk_files_ok [simp]: "files_ok (cur_files disk)"
  by (simp add: init_file_array_ok blank_slot_def)

lemma disk_img:
  "img_inodes disk_mem 0x500000 = 1" "img_blocks disk_mem 0x500000 = 1" "file_len disk_mem 0x500000 0 = 28"
  "block_no disk_mem 0x500000 0 0 = 0"
  by (simp_all add: img_inodes_def img_blocks_def file_len_def block_no_def inode_at_def load32_def
      disk_at)

lemma disk_img_ok [simp]: "img_ok disk_mem 0x500000"
  unfolding img_ok_def img_size_def
proof (intro conjI allI impI)
  fix ino assume "ino < img_inodes disk_mem 0x500000"
  then have ino: "ino = 0" by (simp add: disk_img)
  then show "file_len disk_mem 0x500000 ino \<le> 1023 * 4096" by (simp add: disk_img)
  fix k assume "4096 * k < file_len disk_mem 0x500000 ino"
  then have "k = 0" by (simp add: ino disk_img)
  then show "block_no disk_mem 0x500000 ino k < img_blocks disk_mem 0x500000" by (simp add: ino disk_img)
qed (simp add: disk_img)

lemma disk_rng: "img_rng disk_mem 0x500000 = rng 0x500000 12288"
  by (simp add: img_rng_def img_size_def disk_img)

lemma disk_file [simp]: "file_content disk_mem 0x500000 0 = prog_bytes"
proof (rule nth_equalityI)
  show l: "length (file_content disk_mem 0x500000 0) = length prog_bytes"
    by (simp add: file_content_def disk_img prog_bytes_def)
  fix i assume "i < length (file_content disk_mem 0x500000 0)"
  then have i: "i < 28" by (simp add: file_content_def disk_img)
  then have "file_content disk_mem 0x500000 0 ! i = disk_mem (0x502000 + of_nat i)"
    by (simp add: file_content_def file_slice_def disk_img block_at_def)
  also have "\<dots> = prog_bytes ! i"
    unfolding disk_mem_def Let_def using i by (intro store_bytes_nth) (simp_all add: prog_bytes_def)
  finally show "file_content disk_mem 0x500000 0 ! i = prog_bytes ! i" .
qed

lemma disk_name: "cstr disk_mem 0x600000 (lit ''prog'')" "cstr disk_mem 0x600010 (lit ''rtc'')"
    "cstr disk_mem 0x600020 (lit ''prog  hi you'')"
  by (simp_all add: disk_at)

lemma disk_dir:
  "dir_name disk 0 = lit ''.''" "dir_name disk 1 = lit ''prog''" "dir_name disk 2 = lit ''rtc''"
  "filetype (dentry_of disk 1) = 2" "dentry_inode (dentry_of disk 1) = 0" "filetype (dentry_of disk 2) = 0"
proof -
  have c: "cstr disk_mem 0x500040 (lit ''.'')" "cstr disk_mem 0x500080 (lit ''prog'')" "cstr disk_mem 0x5000C0 (lit ''rtc'')"
    by (simp_all add: disk_at)
  show "dir_name disk 0 = lit ''.''" "dir_name disk 1 = lit ''prog''" "dir_name disk 2 = lit ''rtc''"
    using upto_nul_cstr [OF c(1), of 32] upto_nul_cstr [OF c(2), of 32] upto_nul_cstr [OF c(3), of 32]
    by (simp_all add: dir_name_def dentry_addr_def)
  show "filetype (dentry_of disk 1) = 2" "dentry_inode (dentry_of disk 1) = 0" "filetype (dentry_of disk 2) = 0"
    by (simp_all add: dentry_of_def dentry_addr_def load32_def disk_at)
qed

lemma disk_find:
  "read_dentry_by_name 0x600000 disk = Some (dentry_of disk 1)"
  "read_dentry_by_name 0x600010 disk = Some (dentry_of disk 2)"
proof -
  have lt: "(0 :: nat) < 63" "(1 :: nat) < 63" "(2 :: nat) < 63" by simp_all
  obtain r where u: "[0..<63] = 0 # 1 # 2 # r"
    using upt_conv_Cons [OF lt(1)] upt_conv_Cons [OF lt(2)] upt_conv_Cons [OF lt(3)]
    unfolding One_nat_def [symmetric] Suc_1 by fastforce
  have n: "0x600000 \<noteq> (0 :: u32)" "0x600010 \<noteq> (0 :: u32)" "disk_mem 0x600000 \<noteq> 0" "disk_mem 0x600010 \<noteq> 0"
    using disk_name by (simp_all add: disk_at)
  show "read_dentry_by_name 0x600000 disk = Some (dentry_of disk 1)"
    "read_dentry_by_name 0x600010 disk = Some (dentry_of disk 2)"
    unfolding read_dentry_by_name_first disk_fields upto_nul_cstr [OF disk_name(1)] upto_nul_cstr [OF disk_name(2)] u
    using n by (simp_all del: One_nat_def add: disk_dir)
qed

text \<open>C15. \<open>read_data\<close> reads the file the inode describes: on a sound image and a buffer beside it,
  it stores the bytes from \<open>offset\<close> on, as many as were asked for or as are left, across block
  boundaries, returns their number and writes nothing else. An inode out of range gives -1.\<close>

theorem read_data_contents:
  fixes s :: "'a filesys_scheme"
  assumes "img_ok (mem s) (fs_ptr s)" "rng buf (unat n) \<inter> img_rng (mem s) (fs_ptr s) = {}" "unat n < 2 ^ 31"
  shows "read_data inode offset buf n s =
    (if unat inode < img_inodes (mem s) (fs_ptr s) then
       let data = take (unat n) (drop (unat offset) (file_content (mem s) (fs_ptr s) (unat inode)))
       in (of_nat (length data), s\<lparr>mem := store_bytes (mem s) buf data\<rparr>)
     else (minus_one, s))"
proof (cases "unat inode < img_inodes (mem s) (fs_ptr s)")
  case True
  let ?L = "file_len (mem s) (fs_ptr s) (unat inode)"
  let ?k = "min (unat n) (?L - unat offset)"
  have "file_slice (mem s) (fs_ptr s) (unat inode) (unat offset) ?k
      = take (unat n) (drop (unat offset) (file_content (mem s) (fs_ptr s) (unat inode)))"
  proof (cases "unat offset \<le> ?L")
    case True
    then show ?thesis by (subst file_slice_content) (auto simp: min_def)
  next
    case False
    then show ?thesis by (simp add: file_slice_def)
  qed
  moreover have "?k = length (take (unat n) (drop (unat offset) (file_content (mem s) (fs_ptr s) (unat inode))))"
    by (simp add: min_def)
  ultimately show ?thesis
    using read_data_slice [OF assms(1) True assms(2,3), of offset] True by (simp add: Let_def)
next
  case False
  then have "inode_count s \<le> inode" by (simp add: inode_count_def img_inodes_def word_le_nat_alt)
  with False show ?thesis by (simp add: read_data_no_inode)
qed

theorem read_data_contents_witness:
  "fst (read_data 0 24 0x700000 100 disk) = 4 \<and>
   bytes_at (mem (snd (read_data 0 24 0x700000 100 disk))) 0x700000 4 = [0x00, 0x81, 0x04, 0x08]"
proof -
  have "rng 0x700000 (unat (100 :: u32)) \<inter> img_rng (mem disk) (fs_ptr disk) = {}"
    unfolding disk_fields disk_rng by (rule rng_disjointI) simp_all
  then have "read_data 0 24 0x700000 100 disk = (4, disk\<lparr>mem := store_bytes disk_mem 0x700000 [0x00, 0x81, 0x04, 0x08]\<rparr>)"
    by (subst read_data_contents) (simp_all add: disk_img prog_bytes_def)
  then show ?thesis by (simp add: bytes_at_store_same del: store_bytes.simps)
qed

text \<open>C25. Reading a descriptor piece by piece, with any sizes up to that of the buffer, returns
  the contents of the file from the position on, without gap or overlap, and ends with it.\<close>

theorem read_in_sequence:
  fixes s :: "'a filesys_scheme"
  assumes "fd_ok fd buf cap s" "list_all (\<lambda>n. n \<le> cap) ns"
  shows "fst (fd.rd_all fd buf ns s) = take (sum_list ns) (drop (fd_pos fd s) (fd_file fd s))"
  using assms by (rule fd.rd_all_eq)


text \<open>The small image with \<^verbatim>\<open>prog\<close> open as descriptor 2.\<close>

definition opened :: filesys where
  "opened = set_files ((init_file_array blank_slot)[2 :=
     \<lparr>file_ops_table_ptr = FileOps, inode_num = 0, file_position = 0, flags = FILE_OCCUP\<rparr>]) disk"

lemma length_init_files [simp]: "length (init_file_array bl) = 8"
  by (simp add: init_file_array_def NUM_MAX_OPEN_FILES_def Let_def)

lemma init_files_nth: "i < 8 \<Longrightarrow> init_file_array bl ! i =
    (if i < 2 then \<lparr>file_ops_table_ptr = TerminalOps, inode_num = 0, file_position = 0, flags = FILE_OCCUP\<rparr> else bl)"
  by (auto simp: init_file_array_def NUM_MAX_OPEN_FILES_def Let_def nth_list_update less_Suc_eq numeral_2_eq_2)

lemma disk_slot: "free_slot (init_file_array blank_slot) 2 = 2"
  by (subst free_slot.simps) (simp add: NUM_MAX_OPEN_FILES_def init_files_nth blank_slot_def)

lemma opened_ok: "fd_ok 2 0x700000 1000 opened"
proof -
  have "rng 0x700000 1000 \<inter> img_rng disk_mem 0x500000 = {}"
    unfolding disk_rng by (rule rng_disjointI) simp_all
  then show ?thesis by (simp add: fd_ok_def opened_def fd_pos_def disk_img)
qed

theorem read_in_sequence_witness:
  "fst (fd.rd_all 2 0x700000 [4, 20, 3, 500, 7] opened) = prog_bytes"
proof -
  have "fd_file 2 opened = prog_bytes" "fd_pos 2 opened = 0"
    by (simp_all add: fd_file_def fd_pos_def opened_def)
  then show ?thesis
    using read_in_sequence [OF opened_ok, of "[4, 20, 3, 500, 7]"] by (simp add: prog_bytes_def)
qed

text \<open>A lookup by name finds the first of the 63 entries whose name, as far as 32 characters
  go, is the string; a null pointer and the empty name find nothing.\<close>

theorem lookup_finds_first:
  "read_dentry_by_name fname s =
     (if fname = 0 \<or> mem s fname = 0 then None
      else map_option (dentry_of s)
        (find (\<lambda>i. dir_name s i = upto_nul (bytes_at (mem s) fname 32)) [0..<63]))"
  by (rule read_dentry_by_name_first)

text \<open>C26. \<open>file_open\<close> returns -1 and changes nothing, or takes the lowest free slot behind the
  terminal's two for the entry of that name: a file or a directory is then open at position 0,
  and every other slot is as before. The table stays well-formed.\<close>

theorem file_open_lowest_slot:
  assumes "cstr (mem s) fname xs" "length xs < 2 ^ 32" "files_ok (cur_files s)" "file_open fname s = Some (r, t)"
  shows "files_ok (cur_files t) \<and>
    (r = minus_one \<and> t = s \<or>
     (\<exists>i d. r = of_nat i \<and> 2 \<le> i \<and> i < 8 \<and> read_dentry_by_name fname s = Some d \<and> length xs < 32 \<and>
        flags (cur_files s ! i) = FILE_AVAIL \<and> (\<forall>j. 2 \<le> j \<and> j < i \<longrightarrow> flags (cur_files s ! j) \<noteq> FILE_AVAIL) \<and>
        cur_files t = (cur_files s)[i := cur_files t ! i] \<and> inode_num (cur_files t ! i) = dentry_inode d \<and>
        (filetype d \<noteq> 0 \<longrightarrow> flags (cur_files t ! i) = FILE_OCCUP \<and> file_position (cur_files t ! i) = 0 \<and>
           file_ops_table_ptr (cur_files t ! i) = (if filetype d = 2 then FileOps else DirectoryOps))))"
proof -
  let ?i = "free_slot (cur_files s) 2"
  have len: "length (cur_files s) = 8" using assms(3) by (simp add: files_ok_def)
  have i: "2 \<le> ?i" "\<forall>j. 2 \<le> j \<and> j < ?i \<longrightarrow> flags (cur_files s ! j) \<noteq> FILE_AVAIL"
    "?i < 8 \<Longrightarrow> flags (cur_files s ! ?i) = FILE_AVAIL" using free_slot_spec [of 2 "cur_files s"] by auto
  note open_eq = assms(4) [unfolded file_open_cases [OF assms(1,2)] Let_def]
  have "r = minus_one \<and> t = s \<or> (\<exists>d f. r = of_nat ?i \<and> ?i < 8 \<and> read_dentry_by_name fname s = Some d \<and> length xs < 32 \<and>
      cur_files t = (cur_files s)[?i := f] \<and> inode_num f = dentry_inode d \<and>
      (filetype d \<noteq> 0 \<longrightarrow> flags f = FILE_OCCUP \<and> file_position f = 0 \<and>
         file_ops_table_ptr f = (if filetype d = 2 then FileOps else DirectoryOps)))"
  proof (cases "fname = 0 \<or> 32 \<le> length xs")
    case True
    with open_eq show ?thesis by simp
  next
    case short: False
    show ?thesis
    proof (cases "read_dentry_by_name fname s")
      case None
      with open_eq short show ?thesis by simp
    next
      case (Some d)
      consider "8 \<le> ?i \<or> filetype d \<notin> {0, 1, 2}" | "?i < 8" "filetype d = 0" | "?i < 8" "filetype d \<in> {1, 2}"
        by fastforce
      then show ?thesis
      proof cases
        case 1
        then show ?thesis using open_eq short Some by simp
      next
        case 2
        then have "r = of_nat ?i" "cur_files t = (cur_files s)[?i := (cur_files s ! ?i)
            \<lparr>file_ops_table_ptr := RtcOps, inode_num := dentry_inode d\<rparr>]"
          using open_eq short Some by auto
        with 2 short Some show ?thesis
          by (intro disjI2 exI [of _ d] exI [of _ "(cur_files s ! ?i)\<lparr>file_ops_table_ptr := RtcOps, inode_num := dentry_inode d\<rparr>"]) simp
      next
        case 3
        then have "r = of_nat ?i" "cur_files t = (cur_files s)[?i := \<lparr>file_ops_table_ptr =
            (if filetype d = 2 then FileOps else DirectoryOps), inode_num = dentry_inode d,
            file_position = 0, flags = FILE_OCCUP\<rparr>]"
          using open_eq short Some by auto
        with 3 short Some show ?thesis
          by (intro disjI2 exI [of _ d] exI [of _ "\<lparr>file_ops_table_ptr = (if filetype d = 2 then FileOps else DirectoryOps),
            inode_num = dentry_inode d, file_position = 0, flags = FILE_OCCUP\<rparr>"]) auto
      qed
    qed
  qed
  then consider "r = minus_one \<and> t = s" | d f where "r = of_nat ?i" "?i < 8" "read_dentry_by_name fname s = Some d"
      "length xs < 32" "cur_files t = (cur_files s)[?i := f]" "inode_num f = dentry_inode d"
      "filetype d \<noteq> 0 \<longrightarrow> flags f = FILE_OCCUP \<and> file_position f = 0 \<and>
         file_ops_table_ptr f = (if filetype d = 2 then FileOps else DirectoryOps)" by blast
  then show ?thesis
  proof cases
    case 2
    then have "cur_files t ! ?i = f" using len by simp
    with 2 i show ?thesis
      by (intro conjI file_open_files_ok [OF assms] disjI2 exI [of _ ?i] exI [of _ d]) simp_all
  qed (use file_open_files_ok [OF assms] in blast)
qed

lemma blank_flags: "flags blank_slot = FILE_AVAIL" "files_ok (init_file_array blank_slot)"
  using disk_files_ok by (simp_all add: blank_slot_def)

lemma disk_open:
  "file_open 0x600000 disk = Some (2, opened)"
  "\<exists>t. file_open 0x600010 disk = Some (2, t) \<and> flags (cur_files t ! 2) = FILE_AVAIL"
proof -
  have n: "cstr (mem disk) 0x600000 (lit ''prog'')" "cstr (mem disk) 0x600010 (lit ''rtc'')" using disk_name by simp_all
  show "file_open 0x600000 disk = Some (2, opened)"
    by (subst file_open_cases [OF n(1)]) (simp_all add: Let_def disk_slot disk_find disk_dir opened_def del: One_nat_def)
  show "\<exists>t. file_open 0x600010 disk = Some (2, t) \<and> flags (cur_files t ! 2) = FILE_AVAIL"
    by (subst file_open_cases [OF n(2)])
      (simp_all add: Let_def disk_slot disk_find disk_dir init_files_nth blank_flags del: One_nat_def)
qed

theorem file_open_lowest_slot_witness:
  "\<exists>i d. (2 :: u32) = of_nat i \<and> i < 8 \<and> read_dentry_by_name 0x600000 disk = Some d \<and>
     inode_num (cur_files opened ! i) = dentry_inode d \<and> flags (cur_files opened ! i) = FILE_OCCUP"
proof -
  have "cstr (mem disk) 0x600000 (lit ''prog'')" using disk_name by simp
  from file_open_lowest_slot [OF this _ disk_files_ok disk_open(1)] disk_find(1) disk_dir(4)
  show ?thesis by auto
qed

text \<open>The clock is the exception: opening it returns the number of the free slot but leaves
  the slot marked as free, so the same slot is handed out again.\<close>

theorem clock_slot_stays_free:
  assumes "cstr (mem s) fname xs" "length xs < 32" "fname \<noteq> 0" "files_ok (cur_files s)"
    and "read_dentry_by_name fname s = Some d" "filetype d = FILE_TYPE_RTC" "free_slot (cur_files s) 2 = i" "i < 8"
  shows "\<exists>t. file_open fname s = Some (of_nat i, t) \<and> flags (cur_files t ! i) = FILE_AVAIL \<and>
    free_slot (cur_files t) 2 = i"
proof -
  let ?f = "(cur_files s ! i)\<lparr>file_ops_table_ptr := RtcOps, inode_num := dentry_inode d\<rparr>"
  let ?t = "snd (rtc_open (set_files ((cur_files s)[i := ?f]) s))"
  have "file_open fname s = Some (of_nat i, ?t)"
    using assms by (subst file_open_cases [OF assms(1)]) (simp_all add: Let_def FILE_TYPE_RTC_def)
  moreover have len: "length (cur_files s) = 8" using assms(4) by (simp add: files_ok_def)
  have spec: "2 \<le> i" "\<forall>j. 2 \<le> j \<longrightarrow> j < i \<longrightarrow> flags (cur_files s ! j) \<noteq> FILE_AVAIL" "flags (cur_files s ! i) = FILE_AVAIL"
    using free_slot_spec [of 2 "cur_files s"] assms(7,8) by auto
  let ?k = "free_slot (cur_files ?t) 2"
  have t: "cur_files ?t = (cur_files s)[i := ?f]" by simp
  have nth: "flags (cur_files ?t ! j) = flags (cur_files s ! j)" if "j < 8" for j
    using that len by (cases "j = i") (simp_all add: t)
  have k: "2 \<le> ?k" "\<forall>j. 2 \<le> j \<longrightarrow> j < ?k \<longrightarrow> flags (cur_files ?t ! j) \<noteq> FILE_AVAIL" "?k < 8 \<Longrightarrow> flags (cur_files ?t ! ?k) = FILE_AVAIL"
    using free_slot_spec [of 2 "cur_files ?t"] by auto
  have "?k = i"
  proof (rule linorder_cases [of ?k i])
    assume "?k < i"
    then show ?thesis using spec(2) k(1,3) nth [of ?k] assms(8) by auto
  next
    assume "i < ?k"
    then show ?thesis using k(2) spec(1,3) nth [OF assms(8)] by auto
  qed
  moreover have "flags (cur_files ?t ! i) = FILE_AVAIL" using nth [OF assms(8)] spec(3) by simp
  ultimately show ?thesis by blast
qed

theorem clock_slot_stays_free_witness:
  "\<exists>t. file_open 0x600010 disk = Some (of_nat 2, t) \<and> flags (cur_files t ! 2) = FILE_AVAIL \<and>
     free_slot (cur_files t) 2 = 2"
proof (rule clock_slot_stays_free)
  show "cstr (mem disk) 0x600010 (lit ''rtc'')" using disk_name by simp
  show "filetype (dentry_of disk 2) = FILE_TYPE_RTC" by (simp add: disk_dir FILE_TYPE_RTC_def)
qed (simp_all add: disk_find disk_slot blank_flags)

text \<open>Reading a directory lists it: each call stores the name of the next entry as a string,
  returns its length and advances by one entry; behind the last entry it returns -1. The size
  the caller gives for its buffer is not looked at.\<close>

theorem directory_read_lists:
  assumes "unat fd < 8"
  shows "directory_read fd buf nbytes s =
    (let f = cur_files s ! unat fd; i = unat (file_position f) in
     if i < 63 then
       Some (of_nat (length (dir_name s i)),
         (set_files ((cur_files s)[unat fd := f\<lparr>file_position := file_position f + 1\<rparr>]) s)
           \<lparr>mem := store_bytes (mem s) buf (dir_name s i @ [0])\<rparr>)
     else Some (minus_one, s))"
  by (rule directory_read_eq [OF assms])

theorem directory_read_lists_witness:
  "\<exists>t. directory_read 2 0x700000 0 (set_files ((init_file_array blank_slot)[2 :=
       \<lparr>file_ops_table_ptr = DirectoryOps, inode_num = 0, file_position = 1, flags = FILE_OCCUP\<rparr>]) disk)
     = Some (4, t)"
proof -
  let ?s = "set_files ((init_file_array blank_slot)[2 :=
       \<lparr>file_ops_table_ptr = DirectoryOps, inode_num = 0, file_position = 1, flags = FILE_OCCUP\<rparr>]) disk"
  have "dir_name ?s 1 = lit ''prog''" using disk_dir(2) by (simp add: dir_name_def dentry_addr_def)
  then show ?thesis by (subst directory_read_lists) (simp_all add: Let_def del: One_nat_def)
qed

end
