(* ===== verification/Commands.thy ===== *)
theory Commands
  imports Process Disk
begin

text \<open>
  What \<open>execute\<close> of \<^verbatim>\<open>student-distrib/syscalls.c\<close> makes of a command line, from its words in memory
  to the program in its frame, and the properties of the process layer.
\<close>

section \<open>The words of a command line\<close>

lemma strtok_eq:
  assumes "0 \<notin> set delim" "cstr m s xs" "s \<noteq> 0"
  shows "strtok m last_ptr s delim = Some
    (let t = s + of_nat (length (takeWhile (\<lambda>c. c \<in> set delim) xs)); w = strtok_word delim xs in
     if w = [] then (m, 0, 0)
     else if strtok_rest delim xs = [] then (m, 0, t)
     else (m(t + of_nat (length w) := 0), t + of_nat (length w) + 1, t))"
proof (cases "strtok_word delim xs = []")
  case True
  then show ?thesis using strtok_no_word [OF assms] by simp
next
  case False
  define pre where "pre = takeWhile (\<lambda>c. c \<in> set delim) xs"
  define tl1 where "tl1 = dropWhile (\<lambda>c. c \<in> set delim) xs"
  define t where "t = s + of_nat (length pre)"
  have xs: "xs = pre @ tl1" by (simp add: pre_def tl1_def)
  have w: "strtok_word delim xs = takeWhile (\<lambda>c. c \<notin> set delim) tl1" by (simp add: strtok_word_def tl1_def)
  have rest: "strtok_rest delim xs = dropWhile (\<lambda>c. c \<notin> set delim) tl1" by (simp add: strtok_rest_def tl1_def)
  have ct: "cstr m t tl1" using assms(2) unfolding xs t_def by (rule cstr_suffix)
  obtain c r where tl1: "tl1 = c # r" using False w by (cases tl1) auto
  have cn: "c \<noteq> 0" "c \<notin> set delim" using ct tl1 False w by (auto split: if_splits)
  have cr: "cstr m (t + 1) r" using ct tl1 by simp
  let ?v = "takeWhile (\<lambda>c. c \<notin> set delim) r"
  have skip: "strtok_skip m delim s = Some (c, t + 1)"
    using strtok_skip_cstr [OF assms(1,2)] tl1 unfolding t_def pre_def tl1_def by simp
  have scan: "strtok_scan m delim (t + 1) = Some (if length ?v = length r then (m, 0)
      else (m(t + 1 + of_nat (length ?v) := 0), t + 1 + of_nat (length ?v) + 1))"
    using strtok_scan_cstr [OF cr] by (simp add: Let_def)
  let ?d = "dropWhile (\<lambda>c. c \<notin> set delim) r"
  have "length ?v + length ?d = length r" by (metis length_append takeWhile_dropWhile_id)
  then have "length ?d = 0 \<longleftrightarrow> length ?v = length r" by linarith
  moreover have "strtok_rest delim xs = ?d" using rest tl1 cn by simp
  ultimately have "strtok_rest delim xs = [] \<longleftrightarrow> length ?v = length r" by (simp only: length_0_conv)
  then show ?thesis
    using skip scan False assms(3) cn w tl1
    by (simp add: strtok_def pre_def [symmetric] t_def [symmetric] Let_def add.assoc)
qed

text \<open>The words between the spaces, and how \<open>execute\<close> joins them.\<close>

lemma strtok_rest_shorter: "strtok_word delim xs \<noteq> [] \<Longrightarrow> length (tl (strtok_rest delim xs)) < length xs"
proof -
  assume "strtok_word delim xs \<noteq> []"
  then have "xs \<noteq> []" by (auto simp: strtok_word_def)
  moreover have "length (strtok_rest delim xs) \<le> length xs"
    unfolding strtok_rest_def by (meson length_dropWhile_le order_trans)
  ultimately show ?thesis by (cases xs) auto
qed

function arg_words :: "u8 list \<Rightarrow> u8 list list" where
  "arg_words xs =
     (if strtok_word [SPACE] xs = [] then []
      else strtok_word [SPACE] xs # arg_words (tl (strtok_rest [SPACE] xs)))"
  by pat_completeness auto
termination
  by (relation "measure length") (auto dest: strtok_rest_shorter simp del: length_tl)

declare arg_words.simps [simp del]

fun glue :: "u8 list \<Rightarrow> u8 list list \<Rightarrow> u8 list" where
  "glue out [] = out"
| "glue out (w # ws) = glue (if out = [] then w else out @ SPACE # w) ws"

lemma length_glue: "length out \<le> length (glue out ws)"
proof (induction ws arbitrary: out)
  case (Cons w ws)
  show ?case using Cons.IH [of "if out = [] then w else out @ SPACE # w"] by (auto split: if_splits)
qed simp

lemma glue_words: "\<forall>w \<in> set ws. w \<noteq> [] \<Longrightarrow> out \<noteq> [] \<Longrightarrow> glue out ws = out @ concat (map ((#) SPACE) ws)"
  by (induction ws arbitrary: out) auto

lemma arg_words_nonempty: "w \<in> set (arg_words xs) \<Longrightarrow> w \<noteq> []"
proof (induction xs rule: arg_words.induct)
  case (1 xs)
  from "1.prems" show ?case
    by (subst (asm) arg_words.simps) (use "1.IH" in \<open>force split: if_splits\<close>)
qed


text \<open>What \<open>strtok\<close> has in hand: the words still to come, the first of them at \<open>token\<close>, all
  inside the region \<open>R\<close> of the command line.\<close>

definition pending :: "u32 set \<Rightarrow> (u32 \<Rightarrow> u8) \<Rightarrow> u32 \<Rightarrow> u32 \<Rightarrow> u8 list list \<Rightarrow> bool" where
  "pending R m l token ws \<longleftrightarrow>
     (case ws of [] \<Rightarrow> token = 0
      | w # ws' \<Rightarrow> token \<noteq> 0 \<and> w \<noteq> [] \<and> cstr m token w \<and> rng token (Suc (length w)) \<subseteq> R \<and>
          (if l = 0 then ws' = []
           else \<exists>r. cstr m l r \<and> rng l (Suc (length r)) \<subseteq> R \<and> length r < 2 ^ 31 \<and> ws' = arg_words r))"

lemma pending_cong:
  assumes "\<And>b. b \<in> R \<Longrightarrow> m' b = m b"
  shows "pending R m' l token ws = pending R m l token ws"
proof -
  have "cstr m' a xs = cstr m a xs" if "rng a (Suc (length xs)) \<subseteq> R" for a xs
    using that assms by (intro cstr_cong) auto
  then show ?thesis by (auto simp: pending_def split: list.splits)
qed

text \<open>One call of \<open>strtok\<close> on a string of the region.\<close>

lemma strtok_pending:
  assumes "cstr m s r" "rng s (Suc (length r)) \<subseteq> R" "length r < 2 ^ 31" "0 \<notin> R"
  shows "\<exists>m' l token. strtok m last_ptr s [SPACE] = Some (m', l, token) \<and>
    pending R m' l token (arg_words r) \<and> (\<forall>b. b \<notin> R \<longrightarrow> m' b = m b)"
proof -
  have s0: "s \<noteq> 0" using assms(2,4) self_in_rng [of "Suc (length r)" s] by blast
  let ?w = "strtok_word [SPACE] r" and ?x = "strtok_rest [SPACE] r"
  let ?pre = "takeWhile (\<lambda>c. c \<in> set [SPACE]) r"
  define t where "t = s + of_nat (length ?pre)"
  have rr: "r = ?pre @ ?w @ ?x" unfolding strtok_word_def strtok_rest_def by (simp only: takeWhile_dropWhile_id)
  note eq = strtok_eq [OF _ assms(1) s0, of "[SPACE]" last_ptr, unfolded Let_def, folded t_def, simplified]
  show ?thesis
  proof (cases "?w = []")
    case True
    then show ?thesis using eq by (simp add: pending_def arg_words.simps [of r])
  next
    case False
    have cw: "cstr m t (?w @ ?x)"
      using cstr_suffix [of m s ?pre "?w @ ?x"] assms(1) by (simp only: t_def rr [symmetric])
    have "length r = length (?pre @ ?w @ ?x)" by (simp only: rr [symmetric])
    then have lens: "length r = length ?pre + length ?w + length ?x" by simp
    have tR: "rng t (Suc (length ?w + length ?x)) \<subseteq> R"
    proof (rule order_trans [OF _ assms(2)])
      show "rng t (Suc (length ?w + length ?x)) \<subseteq> rng s (Suc (length r))"
        unfolding t_def using lens by (intro rng_shift) simp
    qed
    have wR: "rng t (Suc (length ?w)) \<subseteq> R"
      using tR rng_mono [of "Suc (length ?w)" "Suc (length ?w + length ?x)" t] by auto
    have t0: "t \<noteq> 0" using wR assms(4) self_in_rng [of "Suc (length ?w)" t] by blast
    show ?thesis
    proof (cases ?x)
      case Nil
      then have "arg_words (tl ?x) = []" by (simp add: arg_words.simps [of "[]"] strtok_word_def)
      with Nil False cw wR t0 show ?thesis
        using eq by (simp add: pending_def arg_words.simps [of r])
    next
      case (Cons y ys)
      let ?e = "t + of_nat (length ?w)"
      let ?m = "m(?e := 0)"
      have e: "?e \<in> R"
        using wR by (auto simp: rng_def intro!: subsetD [OF wR, unfolded rng_def] image_eqI [of _ _ "length ?w"])
      have lR: "rng (?e + 1) (Suc (length ys)) \<subseteq> R"
      proof -
        have e1: "?e + 1 = t + of_nat (Suc (length ?w))" by simp
        have "rng (t + of_nat (Suc (length ?w))) (Suc (length ys)) \<subseteq> rng t (Suc (length ?w + length ?x))"
          using Cons by (intro rng_shift) simp
        with tR show ?thesis unfolding e1 by (rule order_trans [rotated])
      qed
      have l0: "?e + 1 \<noteq> 0" using subsetD [OF lR self_in_rng [OF zero_less_Suc]] assms(4) by metis
      have cwt: "cstr ?m t ?w"
        unfolding cstr_iff
      proof (intro conjI)
        have "?e \<notin> rng t (length ?w)" using lens assms(3) by (simp add: mem_rng_iff unat_of_nat)
        then show "bytes_at ?m t (length ?w) = ?w"
          using cstr_bytes [OF cw] bytes_at_add [of m t "length ?w" "length ?x"] by (simp add: bytes_at_fun_upd)
        show "0 \<notin> set ?w" using cstr_nonzero [OF cw] by auto
        show "?m (t + of_nat (length ?w)) = 0" by simp
      qed
      have "cstr m (?e + 1) ys" using cstr_suffix [OF cw] Cons by simp
      moreover have "?e \<notin> rng (?e + 1) (Suc (length ys))" using lens assms(3) Cons by (intro not_in_rng_Suc) simp
      ultimately have cl: "cstr ?m (?e + 1) ys" by (subst cstr_cong [of _ _ _ m]) auto
      have "arg_words r = ?w # arg_words ys" using False Cons by (simp add: arg_words.simps [of r])
      moreover have "length ys < 2 ^ 31" using lens Cons assms(3) by simp
      ultimately have "pending R ?m (?e + 1) t (arg_words r)"
        using t0 False cwt wR l0 cl lR by (auto simp: pending_def)
      then show ?thesis using eq False Cons e by (auto intro!: exI)
    qed
  qed
qed


text \<open>The loop that joins the words. \<open>N\<close> is the size of the buffer.\<close>

lemma strtok_sp_next:
  assumes "strtok (mem s) (strtok_last s) p [SPACE] = Some (m, l, token)"
  shows "strtok_sp p s = Some (token, s\<lparr>mem := m, strtok_last := l\<rparr>)"
  using assms by (simp add: strtok_sp_def)

lemma pending_next:
  assumes "pending R m l token (w # ws)" "0 \<notin> R"
  shows "\<exists>m' l' token'. strtok m l 0 [SPACE] = Some (m', l', token') \<and>
    pending R m' l' token' ws \<and> (\<forall>b. b \<notin> R \<longrightarrow> m' b = m b)"
proof (cases "l = 0")
  case True
  with assms(1) have "ws = []" by (simp add: pending_def)
  with True show ?thesis by (simp add: strtok_def pending_def)
next
  case False
  with assms(1) obtain r where r: "cstr m l r" "rng l (Suc (length r)) \<subseteq> R" "length r < 2 ^ 31" "ws = arg_words r"
    by (auto simp: pending_def)
  have "strtok m l 0 [SPACE] = strtok m l l [SPACE]" using False by (simp add: strtok_def)
  then show ?thesis using strtok_pending [OF r(1-3) assms(2), of l] r(4) by simp
qed

lemma collect_args_joins:
  assumes "0 \<notin> R" "R \<inter> rng buffer N = {}" "N < 2 ^ 31"
  shows "pending R (mem s) (strtok_last s) token ws \<Longrightarrow> cstr (mem s) buffer out \<Longrightarrow>
    length (glue out ws) < N \<Longrightarrow>
    \<exists>t. collect_args buffer (buffer + of_nat (length out)) token s = Some t \<and>
      cstr (mem t) buffer (glue out ws) \<and> (\<forall>b. b \<notin> R \<longrightarrow> b \<notin> rng buffer N \<longrightarrow> mem t b = mem s b)"
proof (induction ws arbitrary: s token out)
  case Nil
  then have "token = 0" by (simp add: pending_def)
  then have "collect_args buffer (buffer + of_nat (length out)) token s = Some s"
    by (subst collect_args.simps) simp
  with Nil show ?case by auto
next
  case (Cons w ws)
  define out1 where "out1 = (if out = [] then [] else out @ [SPACE])"
  let ?ptr = "buffer + of_nat (length out)" and ?ptr1 = "buffer + of_nat (length out1)"
  have glue: "glue out (w # ws) = glue (out1 @ w) ws" by (simp add: out1_def)
  have tok: "token \<noteq> 0" "w \<noteq> []" "cstr (mem s) token w" "rng token (Suc (length w)) \<subseteq> R"
    using Cons.prems(1) by (simp_all add: pending_def)
  have len: "length out1 + length w < N"
    using Cons.prems(3) length_glue [of "out1 @ w" ws] unfolding glue by simp
  have ptr: "?ptr \<noteq> buffer \<longleftrightarrow> out \<noteq> []"
  proof -
    have "length out < 2 ^ 31" using len assms(3) by (auto simp: out1_def split: if_splits)
    then have u: "unat (of_nat (length out) :: u32) = length out" by (simp add: unat_of_nat)
    have "?ptr = buffer \<longleftrightarrow> (of_nat (length out) :: u32) = 0" by (rule add_cancel_left_right [THEN trans]) (rule refl)
    also have "\<dots> \<longleftrightarrow> length out = 0" using u by (metis unat_eq_0)
    finally show ?thesis by simp
  qed
  define m1 where "m1 = (if out = [] then mem s else store_bytes (mem s) ?ptr [SPACE, 0])"
  have out0: "0 \<notin> set out" using cstr_nonzero [OF Cons.prems(2)] .
  have m1: "bytes_at m1 buffer (length out1) = out1"
  proof (cases "out = []")
    case False
    have "cstr (store_bytes (mem s) ?ptr ([SPACE] @ [0])) buffer (out @ [SPACE])"
      using False len assms(3) cstr_bytes [OF Cons.prems(2)] out0 by (intro cstr_append_store) (auto simp: out1_def)
    from cstr_bytes [OF this] False show ?thesis by (simp add: m1_def out1_def)
  qed (simp add: out1_def)
  have m1B: "m1 b = mem s b" if "b \<notin> rng buffer N" for b
  proof (cases "out = []")
    case False
    have "rng ?ptr 2 \<subseteq> rng buffer N"
      using False len tok(2) by (intro rng_shift) (cases w; simp add: out1_def)
    with that have "b \<notin> rng ?ptr (length [SPACE, 0])" by (auto simp: numeral_2_eq_2)
    then have "store_bytes (mem s) ?ptr [SPACE, 0] b = mem s b" by (rule store_bytes_other)
    with False show ?thesis by (simp add: m1_def)
  qed (simp add: m1_def)
  have inR: "b \<in> R \<Longrightarrow> b \<notin> rng buffer N" for b using assms(2) by blast
  have p1: "pending R m1 (strtok_last s) token (w # ws)"
    using Cons.prems(1) m1B inR by (simp add: pending_cong [of R m1 "mem s"])
  then have cw: "cstr m1 token w" by (simp add: pending_def)
  have lw: "unat (of_nat (length w) + 1 :: u32) = Suc (length w)"
  proof -
    have "(of_nat (length w) + 1 :: u32) = of_nat (Suc (length w))" by simp
    then show ?thesis using len assms(3) by (simp only: unat_of_nat) simp
  qed
  have B1: "rng ?ptr1 (Suc (length w)) \<subseteq> rng buffer N" using len by (intro rng_shift) simp
  let ?m2 = "store_bytes m1 ?ptr1 (w @ [0])"
  have "rng ?ptr1 (Suc (length w)) \<inter> rng token (Suc (length w)) = {}"
    using B1 tok(4) inR by blast
  moreover have "bytes_at m1 token (Suc (length w)) = w @ [0]"
    using cw bytes_at_add [of m1 token "length w" 1] by (simp add: cstr_iff)
  ultimately have cpy: "memcpy m1 ?ptr1 token (of_nat (length w) + 1) = ?m2"
    using memcpy_copies [of ?ptr1 "of_nat (length w) + 1" token m1] lw by simp
  have m2B: "?m2 b = mem s b" if "b \<notin> rng buffer N" for b
    using that B1 m1B by (subst store_bytes_other) auto
  have p2: "pending R ?m2 (strtok_last s) token (w # ws)"
    using Cons.prems(1) m2B inR by (simp add: pending_cong [of R ?m2 "mem s"])
  then obtain m3 l3 t3 where m3: "strtok ?m2 (strtok_last s) 0 [SPACE] = Some (m3, l3, t3)"
    "pending R m3 l3 t3 ws" "\<forall>b. b \<notin> R \<longrightarrow> m3 b = ?m2 b"
    using pending_next [OF p2 assms(1)] by blast
  have c2: "cstr ?m2 buffer (out1 @ w)"
    using m1 out0 cstr_nonzero [OF cw] len assms(3) by (intro cstr_append_store) (auto simp: out1_def)
  have "rng buffer (Suc (length (out1 @ w))) \<subseteq> rng buffer N" using len by (intro rng_mono) simp
  then have "cstr m3 buffer (out1 @ w) = cstr ?m2 buffer (out1 @ w)"
    using m3(3) inR by (intro cstr_cong) blast
  with c2 have c3: "cstr m3 buffer (out1 @ w)" by simp
  let ?s3 = "s\<lparr>mem := m3, strtok_last := l3\<rparr>"
  have "\<exists>t. collect_args buffer (buffer + of_nat (length (out1 @ w))) t3 ?s3 = Some t \<and>
      cstr (mem t) buffer (glue (out1 @ w) ws) \<and> (\<forall>b. b \<notin> R \<longrightarrow> b \<notin> rng buffer N \<longrightarrow> mem t b = mem ?s3 b)"
    using m3(2) c3 Cons.prems(3) glue by (intro Cons.IH) simp_all
  then obtain t where t: "collect_args buffer (?ptr1 + of_nat (length w)) t3 ?s3 = Some t"
    "cstr (mem t) buffer (glue out (w # ws))" "\<forall>b. b \<notin> R \<longrightarrow> b \<notin> rng buffer N \<longrightarrow> mem t b = m3 b"
    unfolding glue by (auto simp: add.assoc)
  have "collect_args buffer ?ptr token s = collect_args buffer (?ptr1 + of_nat (length w)) t3 ?s3"
  proof -
    have q: "(if ?ptr \<noteq> buffer then (?ptr + 1, s\<lparr>mem := store_bytes (mem s) ?ptr [SPACE, 0]\<rparr>) else (?ptr, s))
        = (?ptr1, s\<lparr>mem := m1\<rparr>)"
    proof (cases "out = []")
      case False
      then have "?ptr \<noteq> buffer" using ptr by blast
      moreover have "?ptr + 1 = ?ptr1" using False by (simp add: out1_def)
      ultimately show ?thesis using False by (simp only: if_True m1_def if_False not_False_eq_True)
    qed (simp add: out1_def m1_def)
    show ?thesis
      by (subst collect_args.simps)
        (simp only: q tok if_True Let_def prod.case strlen_cstr [OF cw] cpy strtok_sp_def m3(1)
          bind.bind_lunit machine.simps console.simps, simp add: strlen_cstr [OF cw] cpy m3(1))
  qed
  with t m3(3) m2B show ?case by auto
qed

section \<open>A command line that names a program\<close>

text \<open>Where the command and the locals of \<open>execute\<close> lie: apart from each other and from the
  file system.\<close>

definition exec_layout :: "'a kernel_scheme \<Rightarrow> u32 \<Rightarrow> u8 list \<Rightarrow> bool" where
  "exec_layout s command xs \<longleftrightarrow>
     (let R = rng command (Suc (length xs)); F = rng (exec_filename_at s) 32; B = rng (exec_buffer_at s) 128;
          I = img_rng (mem s) (fs_ptr s)
      in 0 \<notin> R \<and> exec_filename_at s \<noteq> 0 \<and> R \<inter> F = {} \<and> R \<inter> B = {} \<and> F \<inter> B = {} \<and> I \<inter> (R \<union> F \<union> B) = {})"

text \<open>The program a command names: the first directory entry with the name of its first word,
  a regular file of the image that begins with the magic number.\<close>

definition names_program :: "'a kernel_scheme \<Rightarrow> u8 list \<Rightarrow> nat \<Rightarrow> u8 list list \<Rightarrow> bool" where
  "names_program s xs i args \<longleftrightarrow>
     (case arg_words xs of [] \<Rightarrow> False
      | name # rest \<Rightarrow> args = rest \<and> length name < 31 \<and>
          find (\<lambda>i. dir_name s i = name) [0..<63] = Some i) \<and>
     filetype (dentry_of s i) = FILE_TYPE_FILE \<and>
     unat (dentry_inode (dentry_of s i)) < img_inodes (mem s) (fs_ptr s) \<and>
     take 4 (file_content (mem s) (fs_ptr s) (unat (dentry_inode (dentry_of s i)))) = [0x7F, 0x45, 0x4C, 0x46]"

lemma dentry_of_same:
  assumes "img_agree (mem s) (fs_ptr s) (mem t)" "fs_ptr t = fs_ptr s" "i < 63"
  shows "dentry_of t i = dentry_of s i" "dir_name t i = dir_name s i"
proof -
  let ?p = "fs_ptr s"
  have a: "dentry_addr (of_nat i) s = ?p + of_nat (64 + 64 * i)" by (simp add: dentry_addr_def add.assoc)
  have big: "4096 \<le> img_size (mem s) ?p" by (simp add: img_size_def)
  have "bytes_at (mem t) (?p + of_nat (64 + 64 * i)) 32 = bytes_at (mem s) (?p + of_nat (64 + 64 * i)) 32"
    using assms(1) rng_shift [of "64 + 64 * i" 32 "img_size (mem s) ?p" ?p] big assms(3)
    by (intro bytes_at_cong) (auto simp: img_agree_def img_rng_def)
  moreover have "load32 (mem t) (?p + of_nat j) = load32 (mem s) (?p + of_nat j)"
    if "j = 64 + 64 * i + 32 \<or> j = 64 + 64 * i + 36" for j
    using that big assms(3) by (intro img_load [OF assms(1)]) auto
  from this [of "64 + 64 * i + 32"] this [of "64 + 64 * i + 36"]
  have "load32 (mem t) (?p + of_nat (64 + 64 * i) + 32) = load32 (mem s) (?p + of_nat (64 + 64 * i) + 32)"
    "load32 (mem t) (?p + of_nat (64 + 64 * i) + 36) = load32 (mem s) (?p + of_nat (64 + 64 * i) + 36)"
    by (simp_all add: add.assoc)
  moreover have "dentry_addr (of_nat i) t = dentry_addr (of_nat i) s"
    using assms(2) by (simp add: dentry_addr_def)
  ultimately show "dentry_of t i = dentry_of s i" "dir_name t i = dir_name s i"
    by (simp_all add: dentry_of_def dir_name_def a)
qed

lemma find_same: "(\<And>i. i \<in> set is \<Longrightarrow> P i = Q i) \<Longrightarrow> find P is = find Q is"
  by (induction "is") auto

lemma find_in: "find P xs = Some x \<Longrightarrow> x \<in> set xs"
  by (induction xs) (auto split: if_splits)

text \<open>The four bytes at the head of the file, read into the buffer and compared.\<close>

lemma read_magic:
  assumes agree: "img_agree (mem s) (fs_ptr s) (mem u)" "fs_ptr u = fs_ptr s" and img: "img_ok (mem s) (fs_ptr s)"
    and apart: "img_rng (mem s) (fs_ptr s) \<inter> rng buf 4 = {}"
  obtains r m where "read_data ino 0 buf 4 u = (r, u\<lparr>mem := m\<rparr>)" "\<forall>b. b \<notin> rng buf 4 \<longrightarrow> m b = mem u b"
    "r = 4 \<and> m buf = 0x7F \<and> m (buf + 1) = 0x45 \<and> m (buf + 2) = 0x4C \<and> m (buf + 3) = 0x46 \<longleftrightarrow>
     unat ino < img_inodes (mem s) (fs_ptr s) \<and>
     take 4 (file_content (mem s) (fs_ptr s) (unat ino)) = [0x7F, 0x45, 0x4C, 0x46]"
proof (cases "unat ino < img_inodes (mem s) (fs_ptr s)")
  case False
  then have "inode_count u \<le> ino"
    using img_same(1) [OF agree(1)] agree(2) by (simp add: inode_count_def img_inodes_def word_le_nat_alt)
  then have "read_data ino 0 buf 4 u = (minus_one, u)" by (rule read_data_no_inode)
  with False show thesis by (intro that [of minus_one "mem u"]) simp_all
next
  case True
  let ?L = "file_len (mem s) (fs_ptr s) (unat ino)"
  define data where "data = take 4 (file_content (mem s) (fs_ptr s) (unat ino))"
  define m where "m = store_bytes (mem u) buf data"
  have k: "length data = min 4 ?L" "length data \<le> 4" by (simp_all add: data_def)
  have img2: "img_ok (mem u) (fs_ptr u)" "img_rng (mem u) (fs_ptr u) = img_rng (mem s) (fs_ptr s)"
    using img_ok_same [OF agree(1) img] agree(2) by simp_all
  note im = img_same [OF agree(1)]
  have "file_slice (mem u) (fs_ptr s) (unat ino) 0 (min 4 ?L) = data"
    using img_slice_same [OF agree(1) img True, of 0 "min 4 ?L"] by (simp add: file_slice_content data_def min_def)
  moreover have "rng buf (unat (4 :: u32)) \<inter> img_rng (mem u) (fs_ptr u) = {}" using apart img2(2) by auto
  ultimately have rd: "read_data ino 0 buf 4 u = (of_nat (length data), u\<lparr>mem := m\<rparr>)"
    using read_data_slice [of u ino buf 4 0] img2(1) im(1) im(3) [OF True] True agree(2) k(1) by (simp add: m_def)
  have out: "m b = mem u b" if "b \<notin> rng buf 4" for b
    unfolding m_def using that rng_mono [OF k(2), of buf] by (intro store_bytes_other) blast
  have r4: "of_nat (length data) = (4 :: u32) \<longleftrightarrow> length data = 4"
  proof
    assume "of_nat (length data) = (4 :: u32)"
    then have "unat (of_nat (length data) :: u32) = unat (4 :: u32)" by simp
    with k(2) show "length data = 4" by (simp add: unat_of_nat take_bit_nat_eq_self)
  qed simp
  show thesis
  proof (rule that [OF rd])
    show "\<forall>b. b \<notin> rng buf 4 \<longrightarrow> m b = mem u b" using out by blast
    have "m buf = 0x7F \<and> m (buf + 1) = 0x45 \<and> m (buf + 2) = 0x4C \<and> m (buf + 3) = 0x46
        \<longleftrightarrow> data = [0x7F, 0x45, 0x4C, 0x46]" if four: "length data = 4"
    proof -
      obtain a b c d where "data = [a, b, c, d]"
        using four by (auto simp: length_Suc_conv numeral_eq_Suc)
      then show ?thesis
        using store_bytes_nth [of data 0 "mem u" buf] store_bytes_nth [of data 1 "mem u" buf]
          store_bytes_nth [of data 2 "mem u" buf] store_bytes_nth [of data 3 "mem u" buf]
        unfolding m_def by (simp del: store_bytes.simps)
    qed
    moreover have "data = [0x7F, 0x45, 0x4C, 0x46] \<Longrightarrow> length data = 4" by simp
    ultimately show "of_nat (length data) = (4 :: u32) \<and> m buf = 0x7F \<and> m (buf + 1) = 0x45 \<and> m (buf + 2) = 0x4C \<and>
        m (buf + 3) = 0x46 \<longleftrightarrow> unat ino < img_inodes (mem s) (fs_ptr s) \<and>
        take 4 (file_content (mem s) (fs_ptr s) (unat ino)) = [0x7F, 0x45, 0x4C, 0x46]"
      unfolding r4 data_def [symmetric] using True by blast
  qed
qed

lemma arg_words_shorter: "arg_words xs = w # ws \<Longrightarrow> length w \<le> length xs"
proof -
  assume "arg_words xs = w # ws"
  then have "w = strtok_word [SPACE] xs" by (simp add: arg_words.simps [of xs] split: if_splits)
  then show ?thesis
    unfolding strtok_word_def using order_trans [OF length_takeWhile_le length_dropWhile_le] by simp
qed

text \<open>The whole check, on a command in memory: it succeeds exactly for the commands that name a
  program, and then \<open>strtok\<close> has the arguments in hand.\<close>

lemma exec_check_eq:
  assumes lay: "exec_layout s command xs" and cmd: "cstr (mem s) command xs" "length xs < 2 ^ 31"
    and img: "img_ok (mem s) (fs_ptr s)"
  obtains (refused) t where "exec_check command s = Some (None, t)" "\<nexists>i args. names_program s xs i args"
    "\<forall>b. b \<notin> rng command (Suc (length xs)) \<union> rng (exec_filename_at s) 32 \<union> rng (exec_buffer_at s) 128
      \<longrightarrow> mem t b = mem s b"
  | (found) t token name args i where "names_program s xs i args" "arg_words xs = name # args"
    "exec_check command s = Some (Some (dentry_of s i), t)"
    "pending (rng command (Suc (length xs))) (mem t) (strtok_last t) token (name # args)"
    "keyboard.more t = keyboard.more s"
    "\<forall>b. b \<notin> rng command (Suc (length xs)) \<union> rng (exec_filename_at s) 32 \<union> rng (exec_buffer_at s) 128
      \<longrightarrow> mem t b = mem s b"
proof -
  let ?R = "rng command (Suc (length xs))" and ?F = "rng (exec_filename_at s) 32"
    and ?B = "rng (exec_buffer_at s) 128" and ?I = "img_rng (mem s) (fs_ptr s)"
  have f0: "exec_filename_at s \<noteq> 0" using lay by (simp add: exec_layout_def Let_def)
  have L: "0 \<notin> ?R" "?R \<inter> ?F = {}" "?R \<inter> ?B = {}" "?F \<inter> ?B = {}" "?I \<inter> (?R \<union> ?F \<union> ?B) = {}"
    using lay by (simp_all add: exec_layout_def Let_def)
  obtain m1 l token where m1: "strtok (mem s) (strtok_last s) command [SPACE] = Some (m1, l, token)"
    "pending ?R m1 l token (arg_words xs)" "\<forall>b. b \<notin> ?R \<longrightarrow> m1 b = mem s b"
    using strtok_pending [OF cmd(1) order_refl cmd(2) L(1), of "strtok_last s"] by auto
  let ?s1 = "s\<lparr>mem := m1, strtok_last := l\<rparr>"
  have s1: "strtok_sp command s = Some (token, ?s1)" by (rule strtok_sp_next [OF m1(1)])
  show thesis
  proof (cases "arg_words xs")
    case Nil
    then have "token = 0" using m1(2) by (simp add: pending_def)
    with s1 Nil m1(3) show thesis by (intro refused [of ?s1]) (simp_all add: exec_check_def names_program_def)
  next
    case (Cons name args)
    have tok: "token \<noteq> 0" "name \<noteq> []" "cstr m1 token name" "rng token (Suc (length name)) \<subseteq> ?R"
      using m1(2) Cons by (simp_all add: pending_def)
    have len: "strlen m1 token = Some (of_nat (length name))" by (rule strlen_cstr [OF tok(3)])
    have "length name < 2 ^ 32" using cmd(2) arg_words_shorter [OF Cons] by simp
    then have short: "of_nat FILENAME_LEN - 1 \<le> (of_nat (length name) :: u32) \<longleftrightarrow> 31 \<le> length name"
      by (simp add: FILENAME_LEN_def word_le_nat_alt unat_of_nat take_bit_nat_eq_self)
    show thesis
    proof (cases "31 \<le> length name")
      case True
      with s1 tok(1) len short Cons m1(3) show thesis
        by (intro refused [of ?s1]) (simp_all add: exec_check_def names_program_def)
    next
      case small: False
      have F1: "rng (exec_filename_at s) (Suc (length name)) \<subseteq> ?F" using small by (intro rng_mono) simp
      define m2 where "m2 = store_bytes m1 (exec_filename_at s) (name @ [0])"
      have cp: "strcpy m1 (exec_filename_at s) token = Some m2"
        unfolding m2_def using tok(4) F1 L(2) by (intro strcpy_cstr [OF tok(3)]) blast
      have m2F: "m2 b = m1 b" if "b \<notin> ?F" for b
        unfolding m2_def using that F1 by (intro store_bytes_other) auto
      have fname: "cstr m2 (exec_filename_at s) name"
        unfolding m2_def using cstr_nonzero [OF tok(3)] small by (intro cstr_store_same) auto
      let ?s2 = "?s1\<lparr>mem := m2\<rparr>"
      have m2R: "m2 b = mem s b" if "b \<notin> ?R" "b \<notin> ?F" for b using m2F [OF that(2)] m1(3) that(1) by simp
      have agree: "img_agree (mem s) (fs_ptr s) m2"
        unfolding img_agree_def
      proof
        fix b assume "b \<in> ?I"
        then show "m2 b = mem s b" using L(5) by (intro m2R) blast+
      qed
      have "find (\<lambda>i. dir_name ?s2 i = name) [0..<63] = find (\<lambda>i. dir_name s i = name) [0..<63]"
      proof (rule find_same)
        fix i assume "i \<in> set [0..<63]"
        then have "dir_name ?s2 i = dir_name s i" using dentry_of_same(2) [of s ?s2 i] agree by simp
        then show "(dir_name ?s2 i = name) = (dir_name s i = name)" by (simp only:)
      qed
      moreover have "upto_nul (bytes_at m2 (exec_filename_at s) 32) = name"
        using upto_nul_cstr [OF fname, of 32] small by simp
      moreover have "m2 (exec_filename_at s) \<noteq> 0" using fname tok(2) by (cases name) auto
      ultimately have look: "read_dentry_by_name (exec_filename_at s) ?s2
          = map_option (dentry_of ?s2) (find (\<lambda>i. dir_name s i = name) [0..<63])"
        using f0 by (simp add: read_dentry_by_name_first)
      show thesis
      proof (cases "find (\<lambda>i. dir_name s i = name) [0..<63]")
        case None
        with s1 tok(1) len short small cp look Cons m2R show thesis
          by (intro refused [of ?s2]) (simp_all add: exec_check_def names_program_def)
      next
        case (Some i)
        define d where "d = dentry_of s i"
        have "i < 63" using find_in [OF Some] by simp
        then have "dentry_of ?s2 i = d" using dentry_of_same(1) [of s ?s2 i] agree by (simp add: d_def)
        then have look: "read_dentry_by_name (exec_filename_at s) ?s2 = Some d" using look Some by simp
        have "rng (exec_buffer_at s) 4 \<subseteq> ?B" by (intro rng_mono) simp
        then have I4: "?I \<inter> rng (exec_buffer_at s) 4 = {}" using L(5) by blast
        have agree2: "img_agree (mem s) (fs_ptr s) (mem ?s2)" "fs_ptr ?s2 = fs_ptr s" using agree by simp_all
        obtain r m3 where rd: "read_data (dentry_inode d) 0 (exec_buffer_at s) 4 ?s2 = (r, ?s2\<lparr>mem := m3\<rparr>)"
            "\<forall>b. b \<notin> rng (exec_buffer_at s) 4 \<longrightarrow> m3 b = mem ?s2 b"
            "r = 4 \<and> m3 (exec_buffer_at s) = 0x7F \<and> m3 (exec_buffer_at s + 1) = 0x45 \<and> m3 (exec_buffer_at s + 2) = 0x4C \<and>
             m3 (exec_buffer_at s + 3) = 0x46 \<longleftrightarrow> unat (dentry_inode d) < img_inodes (mem s) (fs_ptr s) \<and>
             take 4 (file_content (mem s) (fs_ptr s) (unat (dentry_inode d))) = [0x7F, 0x45, 0x4C, 0x46]"
          by (rule read_magic [OF agree2 img I4])
        have m3B: "m3 b = m2 b" if "b \<notin> ?B" for b
          using rd(2) that \<open>rng (exec_buffer_at s) 4 \<subseteq> ?B\<close> by auto
        have np: "names_program s xs j args' \<longleftrightarrow> j = i \<and> args' = args \<and> filetype d = FILE_TYPE_FILE \<and>
            r = 4 \<and> m3 (exec_buffer_at s) = 0x7F \<and> m3 (exec_buffer_at s + 1) = 0x45 \<and> m3 (exec_buffer_at s + 2) = 0x4C \<and>
             m3 (exec_buffer_at s + 3) = 0x46" for j args'
          unfolding names_program_def Cons list.case Some option.inject rd(3) using small by (auto simp: d_def)
        let ?t = "?s2\<lparr>mem := m3\<rparr>"
        have chk: "exec_check command s = Some (if names_program s xs i args then Some d else None,
            if filetype d = FILE_TYPE_FILE then ?t else ?s2)"
          using s1 tok(1) len short small cp look rd(1) by (simp add: exec_check_def np Let_def)
        show thesis
        proof (cases "names_program s xs i args")
          case False
          then have "\<not> names_program s xs j args'" for j args' unfolding np by blast
          then have "\<nexists>j args'. names_program s xs j args'" by simp
          moreover have "exec_check command s = Some (None, if filetype d = FILE_TYPE_FILE then ?t else ?s2)"
            using chk False by simp
          moreover have "\<forall>b. b \<notin> ?R \<union> ?F \<union> ?B \<longrightarrow> mem (if filetype d = FILE_TYPE_FILE then ?t else ?s2) b = mem s b"
            using m3B m2R by simp
          ultimately show thesis by (intro refused) blast+
        next
          case True
          then have ty: "filetype d = FILE_TYPE_FILE" using np by blast
          have "pending ?R m3 l token (name # args) = pending ?R m1 l token (name # args)"
          proof (rule pending_cong)
            fix b assume "b \<in> ?R"
            then have "b \<notin> ?F" "b \<notin> ?B" using L by blast+
            then show "m3 b = m1 b" using m3B m2F by simp
          qed
          then have pnd: "pending ?R m3 l token (name # args)" using m1(2) Cons by simp
          show thesis
          proof (rule found [of i args name ?t token, OF True Cons])
            show "exec_check command s = Some (Some (dentry_of s i), ?t)" using chk True ty by (simp add: d_def)
            show "\<forall>b. b \<notin> ?R \<union> ?F \<union> ?B \<longrightarrow> mem ?t b = mem s b" using m3B m2R by simp
            show "keyboard.more ?t = keyboard.more s" by (cases s) simp
          qed (simp_all add: pnd)
        qed
      qed
    qed
  qed
qed

lemma exec_check_ok:
  assumes lay: "exec_layout s command xs" and cmd: "cstr (mem s) command xs" "length xs < 2 ^ 31"
    and img: "img_ok (mem s) (fs_ptr s)" and prog: "names_program s xs i args"
  obtains t token name where "exec_check command s = Some (Some (dentry_of s i), t)"
    "pending (rng command (Suc (length xs))) (mem t) (strtok_last t) token (name # args)"
    "keyboard.more t = keyboard.more s"
    "\<forall>b. b \<notin> rng command (Suc (length xs)) \<union> rng (exec_filename_at s) 32 \<union> rng (exec_buffer_at s) 128
      \<longrightarrow> mem t b = mem s b"
proof (rule exec_check_eq [OF lay cmd img])
  fix t token name args' j
  assume p: "names_program s xs j args'" "arg_words xs = name # args'"
    and t: "exec_check command s = Some (Some (dentry_of s j), t)"
      "pending (rng command (Suc (length xs))) (mem t) (strtok_last t) token (name # args')"
      "keyboard.more t = keyboard.more s"
      "\<forall>b. b \<notin> rng command (Suc (length xs)) \<union> rng (exec_filename_at s) 32 \<union> rng (exec_buffer_at s) 128
        \<longrightarrow> mem t b = mem s b"
  have "j = i" "args' = args" using p prog by (auto simp: names_program_def)
  with t that show thesis by blast
qed (use prog in blast)

section \<open>A program is loaded and entered\<close>

lemma exec_args_ok:
  assumes lay: "exec_layout s command xs" and same: "keyboard.more t = keyboard.more s"
    and p: "pending (rng command (Suc (length xs))) (mem t) (strtok_last t) token (name # args)"
    and fit: "length (glue [] args) < 128"
  obtains u where "exec_args t = Some u" "cstr (mem u) (exec_buffer_at s) (glue [] args)"
    "keyboard.more u = keyboard.more s"
    "\<forall>b. b \<notin> rng command (Suc (length xs)) \<union> rng (exec_buffer_at s) 128 \<longrightarrow> mem u b = mem t b"
proof -
  let ?R = "rng command (Suc (length xs))" and ?B = "rng (exec_buffer_at s) 128"
  have L: "0 \<notin> ?R" "?R \<inter> ?B = {}" using lay by (simp_all add: exec_layout_def Let_def)
  have buf: "exec_buffer_at t = exec_buffer_at s" using keyboard_more_kernel [OF same] by simp
  let ?m = "(mem t)(exec_buffer_at s := 0)"
  have bB: "exec_buffer_at s \<in> ?B" by (rule self_in_rng) simp
  have "pending ?R ?m (strtok_last t) token (name # args)"
    using p L bB by (subst pending_cong [of _ _ "mem t"]) auto
  from pending_next [OF this L(1)] obtain m' l' token' where
    nx: "strtok ?m (strtok_last t) 0 [SPACE] = Some (m', l', token')" "pending ?R m' l' token' args"
      "\<forall>b. b \<notin> ?R \<longrightarrow> m' b = ?m b" by blast
  let ?v = "t\<lparr>mem := m', strtok_last := l'\<rparr>"
  have "exec_buffer_at s \<notin> ?R" using L bB by blast
  then have "cstr (mem ?v) (exec_buffer_at s) []" using nx(3) by simp
  then obtain u where u: "collect_args (exec_buffer_at s) (exec_buffer_at s + of_nat (length ([] :: u8 list))) token' ?v = Some u"
    "cstr (mem u) (exec_buffer_at s) (glue [] args)" "\<forall>b. b \<notin> ?R \<longrightarrow> b \<notin> ?B \<longrightarrow> mem u b = mem ?v b"
    using collect_args_joins [OF L, of ?v token' args "[]"] nx(2) fit by auto
  have e: "exec_args t = Some u"
    using nx(1) u(1) by (simp add: exec_args_def strtok_sp_def buf Let_def)
  show thesis
  proof (rule that [OF e u(2)])
    show "keyboard.more u = keyboard.more s" using exec_args_more [OF e] same by simp
    show "\<forall>b. b \<notin> ?R \<union> ?B \<longrightarrow> mem u b = mem t b" using u(3) nx(3) bB by auto
  qed
qed

text \<open>The image fits the window behind its load address.\<close>

lemma image_window: "n \<le> 0x3B8000 \<Longrightarrow> b \<in> rng PROGRAM_IMAGE n \<Longrightarrow> in_window b"
proof -
  assume n: "n \<le> 0x3B8000" and "b \<in> rng PROGRAM_IMAGE n"
  then obtain j where j: "b = PROGRAM_IMAGE + of_nat j" "j < n" by (auto simp: rng_def)
  have "b - USER_BASE = of_nat (0x48000 + j)" unfolding j(1) by (simp add: PROGRAM_IMAGE_def USER_BASE_def)
  moreover have "unat (of_nat (0x48000 + j) :: u32) = 0x48000 + j" using j n by (subst unat_of_nat) simp
  ultimately have "unat (b - USER_BASE) = 0x48000 + j" by (simp only:)
  then show "in_window b" using j(2) n by (simp add: in_window_iff word_less_nat_alt USER_SIZE_def)
qed

lemma exec_load_ok:
  assumes img: "img_ok (mem u) (fs_ptr u)" "unat ino < img_inodes (mem u) (fs_ptr u)"
    and kern: "\<forall>b \<in> img_rng (mem u) (fs_ptr u). \<not> in_window b"
    and size: "file_len (mem u) (fs_ptr u) (unat ino) \<le> 0x3B8000"
  shows "exec_load ino n u = (True, (map_user (user_frame n) u)\<lparr>mem :=
     store_bytes (mem (map_user (user_frame n) u)) PROGRAM_IMAGE (file_content (mem u) (fs_ptr u) (unat ino))\<rparr>)"
proof -
  let ?x = "map_user (user_frame n) u" and ?L = "file_len (mem u) (fs_ptr u) (unat ino)"
  have p: "fs_ptr ?x = fs_ptr u" by simp
  have agree: "img_agree (mem u) (fs_ptr u) (mem ?x)"
    using kern by (simp add: img_agree_def map_user_eq)
  note im = img_same [OF agree]
  have ok: "img_ok (mem ?x) (fs_ptr ?x)" "img_rng (mem ?x) (fs_ptr ?x) = img_rng (mem u) (fs_ptr u)"
    using img_ok_same [OF agree img(1)] p by simp_all
  have ino: "unat ino < img_inodes (mem ?x) (fs_ptr ?x)" using im(1) img(2) p by simp
  have len: "unat (flength ino ?x) = ?L" using flength_len [of ino ?x] im(3) [OF img(2)] p by simp
  have dis: "rng PROGRAM_IMAGE (unat (flength ino ?x)) \<inter> img_rng (mem ?x) (fs_ptr ?x) = {}"
    using image_window [OF size] kern ok(2) len by auto
  have "file_slice (mem ?x) (fs_ptr ?x) (unat ino) 0 ?L = file_slice (mem u) (fs_ptr u) (unat ino) 0 ?L"
    using img_slice_same [OF agree img, of 0 ?L] p by simp
  also have "\<dots> = file_content (mem u) (fs_ptr u) (unat ino)" by (simp add: file_content_def)
  finally have slice: "file_slice (mem ?x) (fs_ptr ?x) (unat ino) 0 ?L = file_content (mem u) (fs_ptr u) (unat ino)" .
  have "file_len (mem ?x) (fs_ptr ?x) (unat ino) = ?L" using im(3) [OF img(2)] p by simp
  moreover have "of_nat ?L = flength ino ?x" using len by (metis of_nat_unat ucast_id)
  moreover have "unat (flength ino ?x) < 2 ^ 31" using len size by simp
  ultimately have "read_data ino 0 PROGRAM_IMAGE (flength ino ?x) ?x = (flength ino ?x,
      ?x\<lparr>mem := store_bytes (mem ?x) PROGRAM_IMAGE (file_content (mem u) (fs_ptr u) (unat ino))\<rparr>)"
    using read_data_slice [OF ok(1) ino dis, of 0] slice len by simp
  then show ?thesis by (simp add: exec_load_def map_pid Let_def)
qed

lemma exec_enter_ok:
  assumes arg: "cstr (mem x) (exec_buffer_at x) as" "length as < 128"
    and apart: "rng (pcb_addr n + PCB_ARG) 128 \<inter> rng (exec_buffer_at x) 128 = {}"
  obtains t where "exec_enter n x = Some (Enter (load32 (mem t) (PROGRAM_IMAGE + 24)) 0x83FFFFC, t)"
    "mem t = store_bytes (mem x) (pcb_addr n + PCB_ARG) (as @ [0])"
    "num_char_in_arg (pcbs t (pcb_addr n)) = of_nat (length as)"
proof -
  let ?a = "pcb_addr n + PCB_ARG" and ?m = "store_bytes (mem x) (pcb_addr n + PCB_ARG) (as @ [0])"
  have sub: "rng ?a (Suc (length as)) \<subseteq> rng ?a 128" "rng (exec_buffer_at x) (Suc (length as)) \<subseteq> rng (exec_buffer_at x) 128"
    using arg(2) by (simp_all add: rng_mono)
  have cp: "strcpy (mem x) ?a (exec_buffer_at x) = Some ?m"
    using sub apart by (intro strcpy_cstr [OF arg(1)]) blast
  have "cstr ?m (exec_buffer_at x) as"
  proof (subst cstr_cong [of _ _ _ "mem x"])
    fix b assume "b \<in> rng (exec_buffer_at x) (Suc (length as))"
    then have "b \<notin> rng ?a (length (as @ [0]))" using sub apart by auto
    then show "?m b = mem x b" by (rule store_bytes_other)
  qed (rule arg(1))
  then have sl: "strlen ?m (exec_buffer_at x) = Some (of_nat (length as))" by (rule strlen_cstr)
  have c: "(ucast (of_nat (length as) :: u32) :: u8) = of_nat (length as)"
  proof -
    have "(of_nat (length as) :: u32) = of_nat (length as) \<and> length as < 256" using arg(2) by simp
    then show ?thesis by (simp add: unsigned_ucast_eq word_unat_eq_iff unat_of_nat take_bit_eq_mod)
  qed
  obtain out t where e: "exec_enter n x = Some (out, t)"
    using cp sl by (simp add: exec_enter_def Let_def context_switch_def)
  have "mem t = ?m" "num_char_in_arg (pcbs t (pcb_addr n)) = of_nat (length as)"
    using e cp sl c by (auto simp: exec_enter_def Let_def context_switch_def)
  with e exec_enter_fields(1) [OF e] that show thesis by simp
qed

text \<open>When \<open>execute\<close> has all it needs: the command is a string beside the file system and the
  locals, it names a program that fits its window, the arguments fit their buffer, and the
  kernel's own data lie outside the program window.\<close>

definition exec_ready :: "'a kernel_scheme \<Rightarrow> u32 \<Rightarrow> u8 list \<Rightarrow> nat \<Rightarrow> u8 list list \<Rightarrow> nat \<Rightarrow> bool" where
  "exec_ready s command xs i args n \<longleftrightarrow>
     exec_layout s command xs \<and> cstr (mem s) command xs \<and> length xs < 2 ^ 31 \<and>
     img_ok (mem s) (fs_ptr s) \<and> names_program s xs i args \<and> length (glue [] args) < 128 \<and>
     file_len (mem s) (fs_ptr s) (unat (dentry_inode (dentry_of s i))) \<le> 0x3B8000 \<and>
     (\<forall>b \<in> img_rng (mem s) (fs_ptr s) \<union> rng (exec_buffer_at s) 128. \<not> in_window b) \<and>
     n \<in> free_pids s \<and> n = Min (free_pids s) \<and>
     rng (pcb_addr (of_nat n) + PCB_ARG) 128 \<inter> rng (exec_buffer_at s) 128 = {}"

lemma program_file_same:
  fixes s :: "'a kernel_scheme" and t :: "'b kernel_scheme"
  assumes prog: "names_program s xs i args" "img_ok (mem s) (fs_ptr s)"
    and img: "img_agree (mem s) (fs_ptr s) (mem t)" "fs_ptr t = fs_ptr s"
  shows "i < 63" "dentry_of t i = dentry_of s i"
    "file_content (mem t) (fs_ptr t) (unat (dentry_inode (dentry_of t i))) =
     file_content (mem s) (fs_ptr s) (unat (dentry_inode (dentry_of s i)))"
proof -
  let ?ino = "unat (dentry_inode (dentry_of s i))"
  have ino: "?ino < img_inodes (mem s) (fs_ptr s)" using prog(1) by (simp add: names_program_def)
  have "i \<in> set [0..<63]"
    using prog(1) unfolding names_program_def by (auto split: list.splits dest!: find_in)
  then show i: "i < 63" by simp
  show d: "dentry_of t i = dentry_of s i" using dentry_of_same(1) [OF img i] .
  show "file_content (mem t) (fs_ptr t) (unat (dentry_inode (dentry_of t i))) = file_content (mem s) (fs_ptr s) ?ino"
    using img_slice_same [OF img(1) prog(2) ino, of 0 "file_len (mem s) (fs_ptr s) ?ino"] img_same(3) [OF img(1) ino]
    by (simp add: file_content_def d img(2))
qed

lemma exec_ready_same:
  fixes s :: "'a kernel_scheme" and t :: "'b kernel_scheme"
  assumes "exec_ready s command xs i args n"
    and img: "img_agree (mem s) (fs_ptr s) (mem t)" "fs_ptr t = fs_ptr s"
    and cmd: "\<And>b. b \<in> rng command (Suc (length xs)) \<Longrightarrow> mem t b = mem s b"
    and at: "exec_filename_at t = exec_filename_at s" "exec_buffer_at t = exec_buffer_at s" "pid_array t = pid_array s"
  shows "exec_ready t command xs i args n"
    "file_content (mem t) (fs_ptr t) (unat (dentry_inode (dentry_of t i))) =
     file_content (mem s) (fs_ptr s) (unat (dentry_inode (dentry_of s i)))"
proof -
  have r: "img_ok (mem s) (fs_ptr s)" "names_program s xs i args" using assms(1) by (simp_all add: exec_ready_def)
  then have ino: "unat (dentry_inode (dentry_of s i)) < img_inodes (mem s) (fs_ptr s)" by (simp add: names_program_def)
  note prg = program_file_same [OF r(2,1) img]
  have "dir_name t j = dir_name s j" if "j < 63" for j using dentry_of_same [OF img that] by simp
  then have find: "find (\<lambda>i. dir_name t i = name) [0..<63] = find (\<lambda>i. dir_name s i = name) [0..<63]" for name
    by (intro find_same) simp
  have content: "file_content (mem t) (fs_ptr s) (unat (dentry_inode (dentry_of s i))) =
      file_content (mem s) (fs_ptr s) (unat (dentry_inode (dentry_of s i)))"
    using prg(3) by (simp add: prg(2) img(2))
  have cs: "cstr (mem t) command xs = cstr (mem s) command xs" by (rule cstr_cong) (simp add: cmd)
  have names: "names_program t xs i args"
    using r(2) unfolding names_program_def prg(2) find img(2) content img_same(1) [OF img(1)] .
  have lay: "exec_layout t command xs = exec_layout s command xs"
    by (simp add: exec_layout_def at img(2) img_ok_same(2) [OF img(1) r(1)])
  have free: "free_pids t = free_pids s" by (simp add: free_pids_def at(3))
  show "exec_ready t command xs i args n"
    using assms(1) [unfolded exec_ready_def] names img_ok_same(1) [OF img(1) r(1)]
    unfolding exec_ready_def lay free cs prg(2) img(2) at img_ok_same(2) [OF img(1) r(1)] img_same(3) [OF img(1) ino]
    by blast
  show "file_content (mem t) (fs_ptr t) (unat (dentry_inode (dentry_of t i))) =
      file_content (mem s) (fs_ptr s) (unat (dentry_inode (dentry_of s i)))" by (rule prg(3))
qed

lemma pcb_arg_outside:
  assumes "n < 6" "b \<in> rng (pcb_addr (of_nat n) + PCB_ARG) 128"
  shows "\<not> in_window b"
proof -
  obtain j where j: "b = pcb_addr (of_nat n) + PCB_ARG + of_nat j" "j < 128" using assms(2) by (auto simp: rng_def)
  have eq: "b = of_nat (0x800000 - (n + 2) * 0x2000 + 160 + j)"
    using assms(1) by (simp add: j pcb_addr_def process_consts PCB_ARG_def of_nat_diff algebra_simps)
  have le: "0x800000 - (n + 2) * 0x2000 + 160 + j < 2 ^ 24" using j(2) by simp
  have "unat b = 0x800000 - (n + 2) * 0x2000 + 160 + j"
    unfolding eq using le by (simp only: unat_of_nat) (simp add: take_bit_nat_eq_self)
  then have "unat b < 2 ^ 24" using le by simp
  then show ?thesis by (simp add: in_window_def USER_BASE_def word_le_nat_alt)
qed

lemma execute_ready:
  assumes "exec_ready s command xs i args n"
  defines "content \<equiv> file_content (mem s) (fs_ptr s) (unat (dentry_inode (dentry_of s i)))"
    and "arg \<equiv> pcb_addr (of_nat n) + PCB_ARG"
  obtains t where "execute command s = Some (Enter (load32 (mem t) (PROGRAM_IMAGE + 24)) 0x83FFFFC, t)"
    "bytes_at (mem t) PROGRAM_IMAGE (length content) = content"
    "cstr (mem t) arg (glue [] args)"
    "num_char_in_arg (pcbs t (pcb_addr (of_nat n))) = of_nat (length (glue [] args))"
    "\<forall>b. b \<notin> rng command (Suc (length xs)) \<union> rng (exec_filename_at s) 32 \<union> rng (exec_buffer_at s) 128 \<union> rng arg 128 \<longrightarrow>
      \<not> in_window b \<longrightarrow> mem t b = mem s b"
proof -
  let ?R = "rng command (Suc (length xs))" and ?F = "rng (exec_filename_at s) 32"
    and ?B = "rng (exec_buffer_at s) 128" and ?I = "img_rng (mem s) (fs_ptr s)" and ?n = "of_nat n :: u32"
  have r: "exec_layout s command xs" "cstr (mem s) command xs" "length xs < 2 ^ 31"
    "img_ok (mem s) (fs_ptr s)" "names_program s xs i args" "length (glue [] args) < 128"
    "file_len (mem s) (fs_ptr s) (unat (dentry_inode (dentry_of s i))) \<le> 0x3B8000"
    "\<forall>b \<in> ?I \<union> ?B. \<not> in_window b" "n \<in> free_pids s" "n = Min (free_pids s)" "rng arg 128 \<inter> ?B = {}"
    using assms(1) unfolding exec_ready_def arg_def by blast+
  have ino: "unat (dentry_inode (dentry_of s i)) < img_inodes (mem s) (fs_ptr s)"
    using r(5) by (simp add: names_program_def)
  have I: "?I \<inter> (?R \<union> ?F \<union> ?B) = {}" using r(1) by (simp add: exec_layout_def Let_def)
  obtain w1 token name where w1: "exec_check command s = Some (Some (dentry_of s i), w1)"
    "pending ?R (mem w1) (strtok_last w1) token (name # args)" "keyboard.more w1 = keyboard.more s"
    "\<forall>b. b \<notin> ?R \<union> ?F \<union> ?B \<longrightarrow> mem w1 b = mem s b"
    by (rule exec_check_ok [OF r(1-5)])
  obtain w where w: "exec_args w1 = Some w" "cstr (mem w) (exec_buffer_at s) (glue [] args)"
    "keyboard.more w = keyboard.more s" "\<forall>b. b \<notin> ?R \<union> ?B \<longrightarrow> mem w b = mem w1 b"
    by (rule exec_args_ok [OF r(1) w1(3,2) r(6)])
  note k = keyboard_more_kernel [OF w(3)]
  have n6: "n < 6" using r(9) by (simp add: free_pids_def)
  have free: "free_pids w = free_pids s" using k by (simp add: free_pids_def)
  have gn: "get_next_process_number w = (?n, take_slot n w)"
    using get_next_process_number_free [of w] r(9,10) free by (auto simp: take_slot_def)
  have ne: "?n \<noteq> minus_one"
  proof
    assume "?n = minus_one"
    then have "unat ?n = unat minus_one" by simp
    with n6 show False by (simp add: unat_of_nat)
  qed
  let ?u = "take_slot n w"
  have agree: "img_agree (mem s) (fs_ptr s) (mem w)"
    unfolding img_agree_def
  proof
    fix b assume "b \<in> ?I"
    then have "b \<notin> ?R \<union> ?F \<union> ?B" using I by blast
    then show "mem w b = mem s b" using w(4) w1(4) by simp
  qed
  have u: "mem ?u = mem w" "fs_ptr ?u = fs_ptr s" "exec_buffer_at ?u = exec_buffer_at s"
    using k by (simp_all add: take_slot_def)
  let ?ino = "dentry_inode (dentry_of s i)"
  have len: "file_len (mem w) (fs_ptr s) (unat ?ino) = file_len (mem s) (fs_ptr s) (unat ?ino)"
    by (rule img_same(3) [OF agree ino])
  have cont: "file_content (mem w) (fs_ptr s) (unat ?ino) = content"
    using img_slice_same [OF agree r(4) ino, of 0 "file_len (mem s) (fs_ptr s) (unat ?ino)"] len
    by (simp add: file_content_def content_def)
  let ?v = "map_user (user_frame ?n) ?u"
  let ?x = "?v\<lparr>mem := store_bytes (mem ?v) PROGRAM_IMAGE content\<rparr>"
  have ld: "exec_load ?ino ?n ?u = (True, ?x)"
    using exec_load_ok [of ?u ?ino ?n] img_ok_same [OF agree r(4)] img_same(1) [OF agree] ino r(7,8) len cont u
    by simp
  have out: "\<not> in_window b \<Longrightarrow> mem ?x b = mem w b" for b
  proof -
    assume b: "\<not> in_window b"
    then have "b \<notin> rng PROGRAM_IMAGE (length content)"
      using image_window [of "length content" b] r(7) by (auto simp: content_def)
    then have "mem ?x b = mem ?v b" by (simp add: store_bytes_other)
    also have "\<dots> = mem w b" using b u by (simp add: map_user_eq)
    finally show ?thesis .
  qed
  have buf: "exec_buffer_at ?x = exec_buffer_at s" using u by simp
  have "rng (exec_buffer_at s) (Suc (length (glue [] args))) \<subseteq> ?B" using r(6) by (intro rng_mono) simp
  then have "cstr (mem ?x) (exec_buffer_at s) (glue [] args)"
    using w(2) out r(8) by (subst cstr_cong [of _ _ _ "mem w"]) auto
  then obtain t where t: "exec_enter ?n ?x = Some (Enter (load32 (mem t) (PROGRAM_IMAGE + 24)) 0x83FFFFC, t)"
    "mem t = store_bytes (mem ?x) arg (glue [] args @ [0])"
    "num_char_in_arg (pcbs t (pcb_addr ?n)) = of_nat (length (glue [] args))"
    using exec_enter_ok [of ?x "glue [] args" ?n] r(6,11) buf unfolding arg_def by metis
  have ex: "execute command s = Some (Enter (load32 (mem t) (PROGRAM_IMAGE + 24)) 0x83FFFFC, t)"
    using w1(1) w(1) gn ne ld t(1) by (simp add: execute_def)
  have "bytes_at (mem t) PROGRAM_IMAGE (length content) = bytes_at (mem ?x) PROGRAM_IMAGE (length content)"
  proof (rule bytes_at_cong)
    fix b assume "b \<in> rng PROGRAM_IMAGE (length content)"
    then have "in_window b" using r(7) by (intro image_window [of "length content"]) (simp_all add: content_def)
    then have "b \<notin> rng arg 128" using pcb_arg_outside [OF n6] by (auto simp: arg_def)
    moreover have "rng arg (length (glue [] args @ [0])) \<subseteq> rng arg 128" using r(6) by (intro rng_mono) simp
    ultimately show "mem t b = mem ?x b" unfolding t(2) by (intro store_bytes_other) blast
  qed
  also have "\<dots> = content" using r(7) by (simp add: bytes_at_store_same content_def)
  finally have img: "bytes_at (mem t) PROGRAM_IMAGE (length content) = content" .
  have arg: "cstr (mem t) arg (glue [] args)"
    unfolding t(2) using cstr_nonzero [OF w(2)] r(6) by (intro cstr_store_same) simp_all
  have "mem t b = mem s b" if "b \<notin> ?R \<union> ?F \<union> ?B \<union> rng arg 128" "\<not> in_window b" for b
  proof -
    have "rng arg (length (glue [] args @ [0])) \<subseteq> rng arg 128" using r(6) by (intro rng_mono) simp
    then have "mem t b = mem ?x b" unfolding t(2) using that(1) by (intro store_bytes_other) blast
    then show ?thesis using out [OF that(2)] w(4) w1(4) that(1) by simp
  qed
  then show thesis by (intro that [OF ex img arg t(3)]) blast
qed

section \<open>Arguments and the screen for user programs\<close>

lemma getargs_copies:
  assumes r: "runs s (p # ps)" and arg: "cstr (mem s) (pcb_addr p + PCB_ARG) as" "as \<noteq> []" "length as < 128"
    and num: "num_char_in_arg (pcbs s (pcb_addr p)) = of_nat (length as)"
    and apart: "rng buf (Suc (length as)) \<inter> rng (pcb_addr p + PCB_ARG) (Suc (length as)) = {}"
  shows "getargs buf nbytes s =
    (if buf = 0 \<or> sint nbytes < int (length as) then Some (minus_one, s)
     else Some (0, s\<lparr>mem := store_bytes (mem s) buf (as @ [0])\<rparr>))"
proof -
  have pcb: "esp s AND NOT 0x1FFF = pcb_addr p"
    using runs_cur_pcb [OF r] by (simp add: getCurrentProcessPCB_def PCB_MASK_def)
  have n: "unat (of_nat (length as) :: u8) = length as"
    using arg(3) by (simp add: unat_of_nat take_bit_nat_eq_self)
  have "mem s (pcb_addr p + PCB_ARG) \<noteq> 0" using arg(1,2) by (cases as) auto
  moreover have "strcpy (mem s) buf (pcb_addr p + PCB_ARG) = Some (store_bytes (mem s) buf (as @ [0]))"
    using apart by (intro strcpy_cstr [OF arg(1)]) blast
  ultimately show ?thesis using pcb num n by (simp add: getargs_def Let_def)
qed

lemma getargs_none:
  "runs s (p # ps) \<Longrightarrow> mem s (pcb_addr p + PCB_ARG) = 0 \<Longrightarrow> getargs buf nbytes s = Some (minus_one, s)"
  using runs_cur_pcb [of s p ps] by (simp add: getargs_def Let_def getCurrentProcessPCB_def PCB_MASK_def)

lemma vidmap_maps:
  assumes ok: "paging_ok s" and ptr: "PAGE_TOP \<le> ptr" "ptr \<le> PAGE_BOTTOM"
  obtains t where "vidmap ptr s = (0, t)" "load32 (mem t) ptr = PAGE_VIDMEM"
    "\<And>va. PAGE_VIDMEM \<le> va \<Longrightarrow> va < PAGE_VIDMEM + 0x1000 \<Longrightarrow> translate t va = Some (VIDEO + (va - PAGE_VIDMEM), True)"
    "page_directory t = (page_directory s)[33 := video_pages_at s OR 7]"
proof -
  define t where "t = snd (vidmap ptr s)"
  have p0: "ptr \<noteq> 0" using ptr(1) by (auto simp: PAGE_TOP_def)
  have nl: "\<not> ptr < PAGE_TOP" "\<not> PAGE_BOTTOM < ptr" using ptr by (simp_all add: not_less)
  have v: "vidmap ptr s = (0, t)" using nl p0 by (simp add: vidmap_def t_def Let_def)
  have f: "page_directory t = (page_directory s)[33 := video_pages_at s OR 7]"
    "video_pages t = (video_pages s)[0 := VIDEO OR 7]" "video_pages_at t = video_pages_at s"
    "page_table_at t = page_table_at s"
    using nl p0 by (simp_all add: t_def vidmap_def Let_def PAGE_VIDMAP_def)
  have "\<exists>m. mem t = store32 m ptr PAGE_VIDMEM"
    using nl p0 by (auto simp: t_def vidmap_def Let_def)
  then have "load32 (mem t) ptr = PAGE_VIDMEM" by (auto simp: load32_store32)
  moreover have "translate t va = Some (VIDEO + (va - PAGE_VIDMEM), True)"
    if va: "PAGE_VIDMEM \<le> va" "va < PAGE_VIDMEM + 0x1000" for va
  proof -
    define j where "j = unat (va - PAGE_VIDMEM)"
    have j: "j < 0x1000" "unat va = 0x8400000 + j"
      using va by (simp_all add: j_def PAGE_VIDMEM_def word_le_nat_alt word_less_nat_alt unat_sub)
    have i: "unat (drop_bit 22 va) = 33"
      using j by (simp add: unsigned_drop_bit_eq drop_bit_eq_div unat_div_distrib)
    have k: "unat (drop_bit 12 va AND 0x3FF) = 0"
    proof -
      have "drop_bit 12 va AND 0x3FF = take_bit 10 (drop_bit 12 va)" by (simp add: take_bit_eq_mask mask_eq_exp_minus_1)
      then have "unat (drop_bit 12 va AND 0x3FF) = (unat va div 2 ^ 12) mod 2 ^ 10"
        by (simp only: unsigned_take_bit_eq unsigned_drop_bit_eq)
          (use u32_bound [of va] in \<open>simp add: drop_bit_eq_div take_bit_eq_mod\<close>)
      moreover have "unat va div 2 ^ 12 = 0x8400" by (rule div_nat_eqI) (use j in simp_all)
      ultimately show ?thesis by simp
    qed
    have "va AND 0xFFF = take_bit 12 va" by (simp add: take_bit_eq_mask mask_eq_exp_minus_1)
    then have "unat (va AND 0xFFF) = (0x8400 * 4096 + j) mod 4096"
      using j by (simp only: unsigned_take_bit_eq) (simp add: take_bit_eq_mod)
    then have "unat (va AND 0xFFF) = j" unfolding mod_mult_self3 using j(1) by simp
    then have low: "va AND 0xFFF = va - PAGE_VIDMEM" by (simp add: j_def word_unat_eq_iff)
    have pte: "(VIDEO OR 7) AND 0xFFFFF000 = VIDEO" "bit (VIDEO OR 7) 0" "bit (VIDEO OR 7) 2"
      by (simp_all add: VIDEO_def bit_or_iff bit_numeral_rec)
    have or: "VIDEO OR (va AND 0xFFF) = VIDEO + (va AND 0xFFF)"
    proof (rule disjunctive_add_eq_or [symmetric], rule bit_word_eqI)
      fix n show "bit (VIDEO AND (va AND 0xFFF)) n = bit (0 :: u32) n"
      proof -
        have "VIDEO AND (va AND 0xFFF) = (VIDEO AND 0xFFF) AND va" by (simp only: ac_simps)
        also have "\<dots> = 0" by (simp add: VIDEO_def)
        finally show ?thesis by simp
      qed
    qed
    have "translate t va = (let pte = video_pages t ! unat (drop_bit 12 va AND 0x3FF) in
        if bit pte 0 then Some ((pte AND 0xFFFFF000) OR (va AND 0xFFF), bit (7 :: u32) 2 \<and> bit pte 2) else None)"
    proof (rule translate_small)
      show "page_directory t ! unat (drop_bit 22 va) = video_pages_at s OR 7"
        using ok by (simp add: f i paging_ok_def)
      show "table_for (video_pages_at s) t = Some (video_pages t)"
        using ok by (auto simp: table_for_def f paging_ok_def)
    qed (use ok in \<open>simp_all add: paging_ok_def bit_numeral_rec\<close>)
    also have "\<dots> = Some (VIDEO + (va - PAGE_VIDMEM), True)"
      using ok pte or low by (simp add: k f paging_ok_def bit_numeral_rec)
    finally show ?thesis .
  qed
  ultimately show thesis using that v f(1) by blast
qed

lemma vidmap_refuses:
  "ptr < PAGE_TOP \<or> PAGE_BOTTOM < ptr \<Longrightarrow> vidmap ptr s = (minus_one, s)"
  by (auto simp: vidmap_def)

section \<open>Processes as the programs see them\<close>

text \<open>A kernel with one program running in slot 0, on the small image.\<close>

definition kernel1 :: kernel where
  "kernel1 = (filesys.extend disk \<lparr>pid_array = [1, 0, 0, 0, 0, 0], curr_process = 0,
     tss_esp0 = kernel_stack 0, ebp = 0x7FDF80, exec_filename_at = 0x610000, exec_buffer_at = 0x610100,
     end_of_execute = 0x404567\<rparr>)
   \<lparr>page_directory := (replicate 1024 0)[32 := user_frame 0 OR 0x87], tlb_pde := user_frame 0 OR 0x87, esp := 0x7FDF00\<rparr>"

lemma kernel1_fields [simp]:
  "mem kernel1 = disk_mem" "fs_ptr kernel1 = 0x500000" "blank kernel1 = blank_slot" "pid_array kernel1 = [1, 0, 0, 0, 0, 0]"
  "curr_process kernel1 = 0" "tss_esp0 kernel1 = kernel_stack 0" "exec_filename_at kernel1 = 0x610000"
  "exec_buffer_at kernel1 = 0x610100" "esp kernel1 = 0x7FDF00" "pcbs kernel1 = (\<lambda>_. fresh_pcb)"
  "page_directory kernel1 = (replicate 1024 0)[32 := user_frame 0 OR 0x87]" "tlb_pde kernel1 = user_frame 0 OR 0x87"
  "end_of_execute kernel1 = 0x404567" "ebp kernel1 = 0x7FDF80"
  by (simp_all add: kernel1_def filesys.defs disk_def paging.defs bare_def keyboard.defs)

lemma kernel1_runs: "runs kernel1 [0]"
proof -
  have p: "pid_array kernel1 ! unat 0 = PROG_ACTIVE" by (simp add: PROG_ACTIVE_def)
  have k: "in_kstack [0] (esp kernel1)"
    by (simp add: in_kstack_def stack_page_def PCB_MASK_def pcb_addr_def process_consts)
  have b: "in_kstack [] (parent_esp fresh_pcb)"
    by (simp add: in_kstack_def stack_page_def PCB_MASK_def BOOT_STACK_def fresh_pcb_def)
  have f: "files_ok (file_array fresh_pcb)" using disk_files_ok by (simp add: fresh_pcb_def)
  show ?thesis
    using p k f b by (simp add: runs_def dir_ok_def blank_ok_def blank_flags user_pde_def top_pid_def fresh_pcb_def)
qed

lemma kernel1_free: "free_pids kernel1 = {1, 2, 3, 4, 5}"
  by (auto simp: free_pids_def PROG_NOT_ACTIVE_def less_Suc_eq numeral_eq_Suc)

lemma kernel1_words: "arg_words (lit ''prog  hi you'') = [lit ''prog'', lit ''hi'', lit ''you'']"
  by (simp add: arg_words.simps [of "_ # _"] arg_words.simps [of "[]"] strtok_word_def strtok_rest_def)

lemma kernel1_ready: "exec_ready kernel1 0x600020 (lit ''prog  hi you'') 1 [lit ''hi'', lit ''you''] 1"
proof -
  have n: "Suc (length (lit ''prog  hi you'')) = 13" by simp
  have d: "rng 0x600020 13 \<inter> rng 0x610000 32 = {}" "rng 0x600020 13 \<inter> rng 0x610100 128 = {}"
    "rng 0x610000 32 \<inter> rng 0x610100 128 = {}" "rng 0x500000 12288 \<inter> rng 0x600020 13 = {}"
    "rng 0x500000 12288 \<inter> rng 0x610000 32 = {}" "rng 0x500000 12288 \<inter> rng 0x610100 128 = {}"
    by (rule rng_disjointI; simp)+
  have lay: "exec_layout kernel1 0x600020 (lit ''prog  hi you'')"
    unfolding exec_layout_def Let_def kernel1_fields disk_rng n by (simp add: d Int_Un_distrib mem_rng_iff)
  have dirs: "dir_name kernel1 i = dir_name disk i" "dentry_of kernel1 i = dentry_of disk i" for i
    by (simp_all add: dir_name_def dentry_of_def dentry_addr_def)
  have inode: "unat (dentry_inode (dentry_of kernel1 1)) = 0" by (simp add: dirs disk_dir del: One_nat_def)
  have lt: "(0 :: nat) < 63" "(1 :: nat) < 63" by simp_all
  obtain r where u: "[0..<63] = 0 # 1 # r"
    using upt_conv_Cons [OF lt(1)] upt_conv_Cons [OF lt(2)] unfolding One_nat_def [symmetric] Suc_1 by fastforce
  have "find (\<lambda>i. dir_name kernel1 i = lit ''prog'') [0..<63] = Some 1"
    unfolding u dirs by (simp add: disk_dir del: One_nat_def)
  then have prog: "names_program kernel1 (lit ''prog  hi you'') 1 [lit ''hi'', lit ''you'']"
    unfolding names_program_def kernel1_words inode kernel1_fields list.case disk_file
    by (simp only: dirs disk_dir disk_img) (simp add: prog_bytes_def FILE_TYPE_FILE_def)
  have win: "\<not> in_window b" if "b \<in> rng a k" "unat a + k \<le> 0x8000000" for a b k
  proof -
    have "unat b < 0x8000000" using that by (auto simp: rng_def unat_word_ariths unat_of_nat)
    then show ?thesis by (simp add: in_window_def USER_BASE_def word_le_nat_alt)
  qed
  have pcb: "rng (pcb_addr (of_nat 1) + PCB_ARG) 128 \<inter> rng 0x610100 128 = {}"
    by (rule rng_disjointI(2)) (simp_all add: pcb_addr_def process_consts PCB_ARG_def)
  have out: "\<forall>b \<in> rng 0x500000 12288 \<union> rng 0x610100 128. \<not> in_window b"
    using win [where a = "0x500000" and k = 12288] win [where a = "0x610100" and k = 128] by auto
  show ?thesis
    unfolding exec_ready_def kernel1_fields disk_rng inode kernel1_free
    using lay prog pcb out disk_name(3) disk_img_ok by (simp add: disk_img)
qed

text \<open>C4. \<open>execute\<close> runs the program its command names: it takes the lowest free slot, loads the
  whole file at its load address in the program's own frame, leaves the arguments, joined by
  single spaces, with their length in the new block, and enters user mode at the entry point of
  the image with the stack at the top of the window; the new program is on top of the stack of
  running programs.\<close>

theorem execute_runs_program:
  assumes "runs s ps" "exec_ready s command xs i args n"
  defines "content \<equiv> file_content (mem s) (fs_ptr s) (unat (dentry_inode (dentry_of s i)))"
  shows "\<exists>t. execute command s = Some (Enter (load32 (mem t) (PROGRAM_IMAGE + 24)) 0x83FFFFC, t) \<and>
    runs (t\<lparr>esp := kernel_stack (of_nat n)\<rparr>) (of_nat n # ps) \<and>
    bytes_at (mem t) PROGRAM_IMAGE (length content) = content \<and>
    cstr (mem t) (pcb_addr (of_nat n) + PCB_ARG) (glue [] args) \<and>
    num_char_in_arg (pcbs t (pcb_addr (of_nat n))) = of_nat (length (glue [] args))"
proof -
  obtain t where t: "execute command s = Some (Enter (load32 (mem t) (PROGRAM_IMAGE + 24)) 0x83FFFFC, t)"
    "bytes_at (mem t) PROGRAM_IMAGE (length content) = content"
    "cstr (mem t) (pcb_addr (of_nat n) + PCB_ARG) (glue [] args)"
    "num_char_in_arg (pcbs t (pcb_addr (of_nat n))) = of_nat (length (glue [] args))"
    unfolding content_def by (rule execute_ready [OF assms(2)])
  have "n = Min (free_pids s)" using assms(2) unfolding exec_ready_def by blast
  with execute_pushes [OF assms(1) t(1)] t show ?thesis by blast
qed

theorem execute_runs_program_witness:
  "\<exists>t. execute 0x600020 kernel1 = Some (Enter (load32 (mem t) (PROGRAM_IMAGE + 24)) 0x83FFFFC, t) \<and>
     runs (t\<lparr>esp := kernel_stack 1\<rparr>) [1, 0] \<and> bytes_at (mem t) PROGRAM_IMAGE 28 = prog_bytes \<and>
     cstr (mem t) (pcb_addr 1 + PCB_ARG) (lit ''hi you'')"
proof -
  have "glue [] [lit ''hi'', lit ''you''] = lit ''hi you''" by simp
  moreover have "file_content (mem kernel1) (fs_ptr kernel1) (unat (dentry_inode (dentry_of kernel1 1))) = prog_bytes"
  proof -
    have "dentry_of kernel1 1 = dentry_of disk 1" by (simp add: dentry_of_def dentry_addr_def)
    then show ?thesis using disk_file disk_dir(5) by simp
  qed
  moreover have "length prog_bytes = 28" by (simp add: prog_bytes_def)
  ultimately show ?thesis
    using execute_runs_program [OF kernel1_runs kernel1_ready] by (auto simp del: cstr.simps)
qed

text \<open>C19. \<open>halt\<close> takes the running program off the stack and goes back into the \<open>execute\<close> of the
  one below it, with the exit status as its value: the process number, the kernel stack and
  the frame in the window are those of the parent, and the slot is free again.\<close>

theorem halt_returns_to_parent:
  assumes "runs s (p # ps)" "halt status s = (out, t)"
  shows "out = Resume (exec_ret_addr (pcbs s (pcb_addr p))) (ucast status) \<and> runs t ps \<and>
    curr_process t = top_pid ps \<and> tss_esp0 t = kernel_stack (top_pid ps) \<and>
    user_pde t = user_frame (top_pid ps) OR 0x87 \<and> free_pids t = insert (unat p) (free_pids s)"
proof -
  note f = halt_fields [OF assms(2)]
  have p: "curr_process s = p" "parent_num (pcbs s (pcb_addr p)) = top_pid ps" "unat p < 6" "length (pid_array s) = 6" "dir_ok s"
    using assms(1) by (simp_all add: runs_def top_pid_def pid_ok_def)
  have "free_pids t = insert (unat p) (free_pids s)"
    using p(3,4) by (auto simp: free_pids_def f(6) p(1) nth_list_update)
  moreover have "user_pde t = user_frame (top_pid ps) OR 0x87"
    using p(5) by (simp add: user_pde_def f(9) p dir_ok_def)
  ultimately show ?thesis using f(1,4,5) p(1,2) halt_pops [OF assms] by simp
qed

theorem halt_returns_to_parent_witness:
  "\<exists>out t. halt 3 kernel1 = (out, t) \<and> out = Resume 0 3 \<and> free_pids t = {0, 1, 2, 3, 4, 5}"
proof -
  obtain out t where h: "halt 3 kernel1 = (out, t)" by (cases "halt 3 kernel1")
  have "exec_ret_addr (pcbs kernel1 (pcb_addr 0)) = 0" by (simp add: fresh_pcb_def)
  with halt_returns_to_parent [OF kernel1_runs h] h show ?thesis by (auto simp: kernel1_free)
qed

text \<open>C27. A command that names no program is refused: unless its first word, of at most 30
  characters, is the name of a regular file of the directory whose contents begin with the ELF
  magic number, \<open>execute\<close> returns -1 and the running programs are as they were.\<close>

theorem execute_refuses:
  assumes "runs s ps" "exec_layout s command xs" "cstr (mem s) command xs" "length xs < 2 ^ 31"
    and "img_ok (mem s) (fs_ptr s)" "\<nexists>i args. names_program s xs i args"
  shows "\<exists>t. execute command s = Some (Return minus_one, t) \<and> runs t ps \<and> free_pids t = free_pids s"
proof (rule exec_check_eq [OF assms(2-5)])
  fix t assume t: "exec_check command s = Some (None, t)" and no: "\<nexists>i args. names_program s xs i args"
  have k: "keyboard.more t = keyboard.more s" by (rule exec_check_more [OF t])
  have "execute command s = Some (Return minus_one, t)" using t by (simp add: execute_def)
  moreover have "runs t ps" using runs_cong [OF k] assms(1) by simp
  moreover have "free_pids t = free_pids s" using keyboard_more_kernel [OF k] by (simp add: free_pids_def)
  ultimately show ?thesis by blast
qed (use assms(6) in blast)

theorem execute_refuses_witness:
  "\<exists>t. execute 0x600010 kernel1 = Some (Return minus_one, t) \<and> runs t [0]"
proof -
  have n: "Suc (length (lit ''rtc'')) = 4" by simp
  have d: "rng 0x600010 4 \<inter> rng 0x610000 32 = {}" "rng 0x600010 4 \<inter> rng 0x610100 128 = {}"
    "rng 0x610000 32 \<inter> rng 0x610100 128 = {}" "rng 0x500000 12288 \<inter> rng 0x600010 4 = {}"
    "rng 0x500000 12288 \<inter> rng 0x610000 32 = {}" "rng 0x500000 12288 \<inter> rng 0x610100 128 = {}"
    by (rule rng_disjointI; simp)+
  have lay: "exec_layout kernel1 0x600010 (lit ''rtc'')"
    unfolding exec_layout_def Let_def kernel1_fields disk_rng n by (simp add: d Int_Un_distrib mem_rng_iff)
  have dirs: "dir_name kernel1 i = dir_name disk i" "dentry_of kernel1 i = dentry_of disk i" for i
    by (simp_all add: dir_name_def dentry_of_def dentry_addr_def)
  have lt: "(0 :: nat) < 63" "(1 :: nat) < 63" "(2 :: nat) < 63" by simp_all
  obtain r where u: "[0..<63] = 0 # 1 # 2 # r"
    using upt_conv_Cons [OF lt(1)] upt_conv_Cons [OF lt(2)] upt_conv_Cons [OF lt(3)]
    unfolding One_nat_def [symmetric] Suc_1 by fastforce
  have "arg_words (lit ''rtc'') = [lit ''rtc'']"
    by (simp add: arg_words.simps [of "_ # _"] arg_words.simps [of "[]"] strtok_word_def strtok_rest_def)
  moreover have "find (\<lambda>i. dir_name kernel1 i = lit ''rtc'') [0..<63] = Some 2"
    unfolding u dirs by (simp add: disk_dir del: One_nat_def)
  ultimately have "\<nexists>i args. names_program kernel1 (lit ''rtc'') i args"
    by (auto simp: names_program_def FILE_TYPE_FILE_def dirs disk_dir)
  moreover have "cstr (mem kernel1) 0x600010 (lit ''rtc'')" using disk_name by simp
  ultimately show ?thesis using execute_refuses [OF kernel1_runs lay] by (auto simp del: cstr.simps)
qed

text \<open>C3. Running a program and coming back: \<open>execute\<close> starts it, it runs (it may do anything but
  write into the frames of others or into the links in its block), it halts; then the caller
  continues behind its call with the exit status as the result, on its stack and frame
  pointer, as the running process, with the process table as before and the memory it had.\<close>

theorem execute_halt_round_trip:
  fixes s t u v :: "'a kernel_scheme"
  assumes "runs s (p # ps)" "execute command s = Some (Enter eip sp, t)"
    and "runs u (curr_process t # p # ps)" "child_ran (curr_process t) t u" "halt status u = (out, v)"
  shows "out = Resume (end_of_execute s) (ucast status) \<and> esp v = esp s \<and> ebp v = ebp s \<and>
    runs v (p # ps) \<and> curr_process v = curr_process s \<and> tss_esp0 v = tss_esp0 s \<and> pid_array v = pid_array s \<and>
    (\<exists>d w1 w. exec_check command s = Some (Some d, w1) \<and> exec_args w1 = Some w \<and> window (mem v) = window (mem w))"
  using child_round_trip [OF assms] by blast

theorem execute_halt_round_trip_witness:
  "\<exists>t v. execute 0x600020 kernel1 = Some (Enter (load32 (mem t) (PROGRAM_IMAGE + 24)) 0x83FFFFC, t) \<and>
     halt 7 (t\<lparr>esp := kernel_stack 1\<rparr>) = (Resume 0x404567 7, v) \<and> esp v = 0x7FDF00 \<and> runs v [0]"
proof -
  obtain t where t: "execute 0x600020 kernel1 = Some (Enter (load32 (mem t) (PROGRAM_IMAGE + 24)) 0x83FFFFC, t)"
    by (rule execute_ready [OF kernel1_ready])
  have "Min {1, 2, 3, 4, 5 :: nat} = 1" by simp
  then have r: "runs (t\<lparr>esp := kernel_stack 1\<rparr>) [1, 0]"
    using execute_pushes [OF kernel1_runs t] by (auto simp: kernel1_free)
  then have c: "curr_process t = 1" by (simp add: runs_def top_pid_def)
  let ?u = "t\<lparr>esp := kernel_stack 1\<rparr>"
  have "runs ?u (curr_process t # 0 # [])" using r c by simp
  moreover have "child_ran (curr_process t) t ?u" by (auto simp: child_ran_def user_mem_def fun_eq_iff Let_def)
  moreover obtain out v where "halt 7 ?u = (out, v)" by (cases "halt 7 ?u")
  ultimately show ?thesis using execute_halt_round_trip [OF kernel1_runs t, of ?u 7 out v] t by auto
qed

text \<open>The lowest inactive entry of the process table is taken and marked; a full table gives
  -1 and stays as it is.\<close>

theorem lowest_free_slot:
  "get_next_process_number s =
    (if free_pids s = {} then (minus_one, s)
     else (of_nat (Min (free_pids s)), s\<lparr>pid_array := (pid_array s)[Min (free_pids s) := PROG_ACTIVE]\<rparr>))"
  by (simp add: get_next_process_number_free get_next_process_number_full)

text \<open>From everywhere in the 8 KB kernel stack of a process, \<open>getCurrentProcessPCB\<close> finds its
  block, and blocks of different processes are different.\<close>

theorem stack_finds_block:
  assumes "pid_ok pid" "pcb_addr pid \<le> esp s" "esp s \<le> kernel_stack pid"
  shows "getCurrentProcessPCB s = pcb_addr pid \<and> (\<forall>q. pid_ok q \<and> q \<noteq> pid \<longrightarrow> pcb_addr q \<noteq> getCurrentProcessPCB s)"
proof -
  have k: "kernel_stack pid = pcb_addr pid + 0x1FFC"
    by (simp add: kernel_stack_def pcb_addr_def process_consts algebra_simps)
  have "unat (pcb_addr pid) + 0x1FFC < 2 ^ 32" using pid_ok_cases [OF assms(1)] by (auto simp: pcb_addr_def process_consts)
  then have "unat (esp s) \<le> unat (pcb_addr pid) + 0x1FFC" using assms(3) unfolding k
    by (simp add: word_le_nat_alt unat_word_ariths)
  then have "esp s - pcb_addr pid < 0x2000" using assms(2) by (simp add: word_less_nat_alt word_le_nat_alt unat_sub)
  from pcb_mask [OF assms(1) this] have g: "getCurrentProcessPCB s = pcb_addr pid"
    by (simp add: getCurrentProcessPCB_def)
  then show ?thesis using pcb_addr_inj [OF _ assms(1)] by auto
qed

theorem stack_finds_block_witness:
  "getCurrentProcessPCB kernel1 = 0x7FC000 \<and> pcb_addr 3 \<noteq> getCurrentProcessPCB kernel1"
proof -
  have "pcb_addr 0 = 0x7FC000" "kernel_stack 0 = 0x7FDFFC" by (simp_all add: pcb_addr_def kernel_stack_def process_consts)
  moreover have "pid_ok 3" "(3 :: u32) \<noteq> 0" by (simp_all add: pid_ok_def)
  moreover from calculation(1,2) have "pcb_addr 0 \<le> esp kernel1" "esp kernel1 \<le> kernel_stack 0" by simp_all
  ultimately show ?thesis using stack_finds_block [of 0 kernel1] pid_ok_0 by metis
qed

text \<open>\<open>getargs\<close> copies the arguments that \<open>execute\<close> left in the block of the running
  program, NUL included, into the caller's buffer; it returns -1 and writes nothing when the
  buffer is null, shorter than the arguments, or there are none.\<close>

theorem getargs_hands_over:
  assumes "runs s (p # ps)" "cstr (mem s) (pcb_addr p + PCB_ARG) as" "length as < 128"
    and "num_char_in_arg (pcbs s (pcb_addr p)) = of_nat (length as)"
    and "rng buf (Suc (length as)) \<inter> rng (pcb_addr p + PCB_ARG) (Suc (length as)) = {}"
  shows "getargs buf nbytes s =
    (if buf = 0 \<or> as = [] \<or> sint nbytes < int (length as) then Some (minus_one, s)
     else Some (0, s\<lparr>mem := store_bytes (mem s) buf (as @ [0])\<rparr>))"
proof (cases "as = []")
  case True
  then show ?thesis using getargs_none [OF assms(1)] assms(2) by simp
next
  case False
  then show ?thesis using getargs_copies [OF assms(1,2) _ assms(3-5)] by simp
qed

theorem getargs_hands_over_witness:
  "\<exists>t v. execute 0x600020 kernel1 = Some (Enter (load32 (mem t) (PROGRAM_IMAGE + 24)) 0x83FFFFC, t) \<and>
     getargs 0x8100000 64 (t\<lparr>esp := kernel_stack 1\<rparr>) = Some (0, v) \<and> cstr (mem v) 0x8100000 (lit ''hi you'')"
proof -
  obtain t where t: "execute 0x600020 kernel1 = Some (Enter (load32 (mem t) (PROGRAM_IMAGE + 24)) 0x83FFFFC, t)"
    "cstr (mem t) (pcb_addr (of_nat 1) + PCB_ARG) (glue [] [lit ''hi'', lit ''you''])"
    "num_char_in_arg (pcbs t (pcb_addr (of_nat 1))) = of_nat (length (glue [] [lit ''hi'', lit ''you'']))"
    by (rule execute_ready [OF kernel1_ready])
  have "Min {1, 2, 3, 4, 5 :: nat} = 1" by simp
  then have r: "runs (t\<lparr>esp := kernel_stack 1\<rparr>) [1, 0]"
    using execute_pushes [OF kernel1_runs t(1)] by (auto simp: kernel1_free)
  let ?as = "lit ''hi you''" and ?u = "t\<lparr>esp := kernel_stack 1\<rparr>"
  have a: "cstr (mem ?u) (pcb_addr 1 + PCB_ARG) ?as" using t(2) by (simp del: cstr.simps)
  have n: "num_char_in_arg (pcbs ?u (pcb_addr 1)) = of_nat (length ?as)" using t(3) by simp
  have "rng 0x8100000 (Suc (length ?as)) \<inter> rng (pcb_addr 1 + PCB_ARG) (Suc (length ?as)) = {}"
    by (rule rng_disjointI(2)) (simp_all add: pcb_addr_def process_consts PCB_ARG_def)
  from getargs_hands_over [OF r a _ n this, of 64]
  have g: "getargs 0x8100000 64 ?u = Some (0, ?u\<lparr>mem := store_bytes (mem ?u) 0x8100000 (?as @ [0])\<rparr>)"
    by (simp del: store_bytes.simps)
  define m where "m = store_bytes (mem ?u) 0x8100000 (?as @ [0])"
  have "cstr m 0x8100000 ?as" unfolding m_def by (rule cstr_store_same) simp_all
  then have "cstr (mem (?u\<lparr>mem := m\<rparr>)) 0x8100000 ?as" by (simp del: cstr.simps)
  with g t(1) show ?thesis unfolding m_def [symmetric] by blast
qed

text \<open>\<open>vidmap\<close> gives the running program the screen: it stores the address 132 MB through the
  pointer, and that page translates to the video memory, with user access. A pointer outside
  the program window is refused and nothing changes.\<close>

theorem vidmap_shows_screen:
  assumes "paging_ok s"
  shows "if PAGE_TOP \<le> ptr \<and> ptr \<le> PAGE_BOTTOM
    then \<exists>t. vidmap ptr s = (0, t) \<and> load32 (mem t) ptr = 0x08400000 \<and>
      (\<forall>va. 0x08400000 \<le> va \<and> va < 0x08401000 \<longrightarrow> translate t va = Some (VIDEO + (va - 0x08400000), True))
    else vidmap ptr s = (minus_one, s)"
proof (cases "PAGE_TOP \<le> ptr \<and> ptr \<le> PAGE_BOTTOM")
  case True
  then obtain t where "vidmap ptr s = (0, t)" "load32 (mem t) ptr = PAGE_VIDMEM"
    "\<And>va. PAGE_VIDMEM \<le> va \<Longrightarrow> va < PAGE_VIDMEM + 0x1000 \<Longrightarrow> translate t va = Some (VIDEO + (va - PAGE_VIDMEM), True)"
    using vidmap_maps [OF assms] by metis
  with True show ?thesis by (simp add: PAGE_VIDMEM_def)
next
  case False
  then have "ptr < PAGE_TOP \<or> PAGE_BOTTOM < ptr" by (simp add: not_le)
  then show ?thesis unfolding if_not_P [OF False] by (rule vidmap_refuses)
qed

theorem vidmap_shows_screen_witness:
  "\<exists>t. vidmap 0x08200000 (kernel1\<lparr>page_table_at := 0x402000, video_pages_at := 0x403000,
      page_table := replicate 1024 0, video_pages := replicate 1024 0\<rparr>) = (0, t) \<and>
     load32 (mem t) 0x08200000 = 0x08400000 \<and> translate t 0x08400FA0 = Some (0xB8FA0, True)"
proof -
  let ?s = "kernel1\<lparr>page_table_at := 0x402000, video_pages_at := 0x403000,
      page_table := replicate 1024 0, video_pages := replicate 1024 0\<rparr>"
  have "paging_ok ?s" by (simp add: paging_ok_def aligned_def)
  then have v: "if PAGE_TOP \<le> 0x08200000 \<and> 0x08200000 \<le> PAGE_BOTTOM
    then \<exists>t. vidmap 0x08200000 ?s = (0, t) \<and> load32 (mem t) 0x08200000 = 0x08400000 \<and>
      (\<forall>va. 0x08400000 \<le> va \<and> va < 0x08401000 \<longrightarrow> translate t va = Some (VIDEO + (va - 0x08400000), True))
    else vidmap 0x08200000 ?s = (minus_one, ?s)" by (rule vidmap_shows_screen)
  have "PAGE_TOP \<le> 0x08200000 \<and> 0x08200000 \<le> PAGE_BOTTOM" by (simp add: PAGE_TOP_def PAGE_BOTTOM_def)
  then obtain t where t: "vidmap 0x08200000 ?s = (0, t)" "load32 (mem t) 0x08200000 = 0x08400000"
      "\<forall>va. 0x08400000 \<le> va \<and> va < 0x08401000 \<longrightarrow> translate t va = Some (VIDEO + (va - 0x08400000), True)"
    using v by (auto simp del: kernel1_fields)
  have "translate t 0x08400FA0 = Some (VIDEO + (0x08400FA0 - 0x08400000), True)" using t(3) by simp
  with t show ?thesis by (auto simp: VIDEO_def simp del: kernel1_fields)
qed

end
