(* ===== verification/Confine.thy ===== *)
theory Confine
  imports Commands
begin

text \<open>
  Where the system calls write. The kernel checks no pointer of a program, so these lemmas say which
  bytes of memory a call can change when its pointers lie in the program window, and that the
  file system, the process blocks and whatever else the kernel keeps are not among them.
\<close>

section \<open>Bytes that may change\<close>

definition wrote :: "u32 set \<Rightarrow> 'a kernel_scheme \<Rightarrow> 'a kernel_scheme \<Rightarrow> bool" where
  "wrote A s t \<longleftrightarrow> con_good t \<and> conv_buf_at t = conv_buf_at s \<and> fs_ptr t = fs_ptr s \<and>
     exec_filename_at t = exec_filename_at s \<and> exec_buffer_at t = exec_buffer_at s \<and>
     (\<forall>b. b \<notin> A \<longrightarrow> mem t b = mem s b)"

lemma wrote_refl: "con_good s \<Longrightarrow> wrote A s s"
  and wrote_trans: "wrote A s t \<Longrightarrow> wrote A t u \<Longrightarrow> wrote A s u"
  and wrote_mono: "wrote A s t \<Longrightarrow> A \<subseteq> B \<Longrightarrow> wrote B s t"
  and wrote_good: "wrote A s t \<Longrightarrow> con_good t"
  by (auto simp: wrote_def)

lemma con_good_cong:
  "screen_x t = screen_x s \<Longrightarrow> screen_y t = screen_y s \<Longrightarrow> crtc_cursor (io t) = crtc_cursor (io s) \<Longrightarrow>
   con_good t = con_good s"
  by (simp add: con_good_def con_ok_def cursor_ok_def con_view_def)

lemma wrote_same:
  assumes "con_good s" "screen_x t = screen_x s" "screen_y t = screen_y s" "crtc_cursor (io t) = crtc_cursor (io s)"
    and "conv_buf_at t = conv_buf_at s" "keyboard.more t = keyboard.more s" "\<And>b. b \<notin> A \<Longrightarrow> mem t b = mem s b"
  shows "wrote A s t"
  using con_good_cong [OF assms(2-4)] assms(1,5,7) keyboard_more_kernel [OF assms(6)] by (simp add: wrote_def)

lemma wrote_store: "con_good s \<Longrightarrow> (\<And>b. b \<notin> A \<Longrightarrow> m b = mem s b) \<Longrightarrow> wrote A s (s\<lparr>mem := m\<rparr>)"
  by (rule wrote_same) simp_all

lemma wrote_strtok: "wrote A s (t\<lparr>strtok_last := l\<rparr>) = wrote A s t"
  by (simp add: wrote_def con_good_def con_ok_def cursor_ok_def con_view_def)

lemma wrote_files [simp]: "wrote A s (set_files fs t) = wrote A s t"
  by (simp add: wrote_def set_files_def con_good_def con_ok_def cursor_ok_def con_view_def)

lemma wrote_putc: "con_good s \<Longrightarrow> screen_rng \<subseteq> A \<Longrightarrow> wrote A s (putc c s)"
  using keyboard_more_kernel [OF console_more_kbd(11) [OF putc_frame(5) [of c s]]] con.emit_good [of s c] con.emit_bytes [of s _ c]
  by (auto simp: wrote_def)

lemma wrote_clear: "screen_rng \<subseteq> A \<Longrightarrow> wrote A s (clear s)"
  using keyboard_more_kernel [OF console_more_kbd(11) [OF clear_frame(5) [of s]]] clear_mem
  by (auto simp: wrote_def con_good_def clear_view dest: subsetD)

lemma wrote_idle: "con_good s \<Longrightarrow> idle s t \<Longrightarrow> wrote A s t"
  using keyboard_more_kernel [of t s] by (simp add: wrote_def idle_def)

lemma wrote_printed:
  assumes "printed cs s t" "screen_rng \<union> conv_rng s \<subseteq> A"
  shows "wrote A s t"
  using assms keyboard_more_kernel [OF console_more_kbd(11), of t s] by (auto simp: wrote_def printed_def)

section \<open>The keyboard and the terminal\<close>

lemma getchar_idle: "getchar s = Some (c, t) \<Longrightarrow> idle s t"
proof (induction s rule: getchar.induct)
  case (1 s)
  show ?case
  proof (cases "pushed_key s = 0")
    case True
    with "1.prems" have "interrupts_on s \<and> inq s KEYBOARD_DATA_PORT \<noteq> []" "getchar (key_handler s) = Some (c, t)"
      by (auto simp: getchar.simps [of s] split: if_splits)
    from "1.IH"(1) [OF True this] idle_key_handler show ?thesis by (rule idle_trans [rotated])
  next
    case False
    show ?thesis
    proof (cases "pushed_key s < ucast PR_CONVER")
      case True
      with False "1.prems" show ?thesis by (auto simp: getchar.simps [of s] idle_pushed)
    next
      case F: False
      with False "1.prems" have "getchar (s\<lparr>pushed_key := 0\<rparr>) = Some (c, t)" by (simp add: getchar.simps [of s])
      from "1.IH"(2) [OF False F this] show ?thesis by (rule idle_trans [OF idle_pushed])
    qed
  qed
qed

text \<open>A range of addresses of the program window. It does not wrap.\<close>

definition user_range :: "u32 \<Rightarrow> nat \<Rightarrow> bool" where
  "user_range a n \<longleftrightarrow> unat USER_BASE \<le> unat a \<and> unat a + n \<le> unat USER_BASE + unat USER_SIZE"

lemma user_range_window: "user_range a n \<Longrightarrow> b \<in> rng a n \<Longrightarrow> in_window b"
proof -
  assume u: "user_range a n" and b: "b \<in> rng a n"
  then obtain j where j: "b = a + of_nat j" "j < n" by (auto simp: rng_def)
  have e: "unat USER_BASE = 0x8000000" "unat USER_SIZE = 0x400000" by (simp_all add: USER_BASE_def USER_SIZE_def)
  have "unat b = unat a + j" using u j unfolding user_range_def e by (simp add: unat_add_nat)
  then have "unat (b - USER_BASE) = unat a + j - 0x8000000"
    using u unfolding user_range_def e by (simp add: unat_sub word_le_nat_alt e)
  then show ?thesis using u j(2) unfolding user_range_def e in_window_iff word_less_nat_alt by linarith
qed

lemma user_range_sub: "user_range a n \<Longrightarrow> k \<le> n \<Longrightarrow> user_range a k"
  by (simp add: user_range_def)

lemma getline_loop_wrote:
  assumes "limit < 2 ^ 31" "unat buf + limit < 2 ^ 32"
  shows "getline_loop buf (of_nat limit) lp s = Some (r, t) \<Longrightarrow> con_good s \<Longrightarrow>
    (\<exists>k \<le> limit. lp = buf + of_nat k) \<Longrightarrow> wrote (rng buf (Suc limit) \<union> screen_rng) s t"
proof (induction "kbd_weight s" arbitrary: lp s rule: less_induct)
  case less
  let ?A = "rng buf (Suc limit) \<union> screen_rng"
  obtain key u where g: "getchar s = Some (key, u)"
    using less.prems(1) by (subst (asm) getline_loop.simps) (auto split: option.splits)
  obtain k where k: "k \<le> limit" "lp = buf + of_nat k" using less.prems(3) by blast
  have u: "wrote ?A s u" by (rule wrote_idle [OF less.prems(2) getchar_idle [OF g]])
  have gu: "con_good u" by (rule wrote_good [OF u])
  have go: "wrote ?A s t"
    if "getline_loop buf (of_nat limit) (buf + of_nat j) v = Some (r, t)" "j \<le> limit" "kbd_weight v = kbd_weight u"
      "wrote ?A u v" for j v
  proof -
    have "wrote ?A v t" using that wrote_good [OF that(4)] getchar_less [OF g] by (intro less.hyps) auto
    with u that(4) show ?thesis by (blast intro: wrote_trans)
  qed
  have st: "wrote ?A u (u\<lparr>mem := (mem u)(lp := v)\<rparr>)" for v
    using at_in [OF k(1)] by (intro wrote_store [OF gu]) (auto simp: k(2))
  have stp: "wrote ?A u (putc c (u\<lparr>mem := (mem u)(lp := v)\<rparr>))" for c v
    by (rule wrote_trans [OF st]) (rule wrote_putc [OF wrote_good [OF st]], simp)
  have lt: "buf < buf + of_nat k \<longleftrightarrow> k \<noteq> 0"
    using assms k(1) by (simp add: word_less_nat_alt unat_add_nat)
  have full: "of_nat limit \<le>s lp - buf \<longleftrightarrow> limit \<le> k"
    using assms k by (simp add: word_sle_eq sint_of_nat)
  define c where "c = key AND CHAR_MASK"
  note eq = less.prems(1) [unfolded getline_loop.simps [of buf "of_nat limit" lp s] g option.case prod.case Let_def full, folded c_def]
  consider (nl) "c = 0x0A \<or> c = 0x0D" | (bs) "\<not> (c = 0x0A \<or> c = 0x0D)" "c = 0x08 \<or> c = 0x7F"
    | (ff) "\<not> (c = 0x0A \<or> c = 0x0D)" "\<not> (c = 0x08 \<or> c = 0x7F)" "c = CTRL_L"
    | (other) "\<not> (c = 0x0A \<or> c = 0x0D)" "\<not> (c = 0x08 \<or> c = 0x7F)" "c \<noteq> CTRL_L" by blast
  then show ?case
  proof cases
    case nl
    then have "t = putc 0x0A (u\<lparr>mem := (mem u)(lp := 0)\<rparr>)" using eq by simp
    then show ?thesis using wrote_trans [OF u stp] by simp
  next
    case bs
    show ?thesis
    proof (cases "k = 0")
      case True
      with bs eq lt have "getline_loop buf (of_nat limit) (buf + of_nat 0) u = Some (r, t)" by (simp add: k(2))
      then show ?thesis by (rule go) (simp_all add: wrote_refl gu)
    next
      case False
      have "lp - 1 = buf + of_nat (k - 1)" using False by (simp add: k(2) of_nat_diff)
      moreover have "getline_loop buf (of_nat limit) (lp - 1) (putc 0x08 u) = Some (r, t)"
        using eq bs lt False by (simp add: k(2))
      ultimately have "getline_loop buf (of_nat limit) (buf + of_nat (k - 1)) (putc 0x08 u) = Some (r, t)"
        by (simp only:)
      then show ?thesis by (rule go) (use k(1) wrote_putc [OF gu] in auto)
    qed
  next
    case ff
    with eq have "getline_loop buf (of_nat limit) (buf + of_nat 0) (clear u) = Some (r, t)" by simp
    then show ?thesis by (rule go) (auto intro: wrote_clear)
  next
    case other
    show ?thesis
    proof (cases "limit \<le> k \<or> \<not> (ASCII_MIN \<le> c \<and> c \<le> ASCII_MAX)")
      case True
      with other eq have "getline_loop buf (of_nat limit) lp u = Some (r, t)" by (auto split: if_splits)
      then have "getline_loop buf (of_nat limit) (buf + of_nat k) u = Some (r, t)" by (simp only: k(2))
      then show ?thesis by (rule go) (use k(1) in \<open>simp_all add: wrote_refl gu\<close>)
    next
      case False
      have "lp + 1 = buf + of_nat (Suc k)" by (simp add: k(2) add.assoc add.commute)
      moreover have "getline_loop buf (of_nat limit) (lp + 1) (putc c (u\<lparr>mem := (mem u)(lp := c)\<rparr>)) = Some (r, t)"
        using other eq False by simp
      ultimately have "getline_loop buf (of_nat limit) (buf + of_nat (Suc k))
          (putc c (u\<lparr>mem := (mem u)(lp := c)\<rparr>)) = Some (r, t)" by (simp only:)
      then show ?thesis by (rule go) (use False stp in auto)
    qed
  qed
qed

lemma wrote_sti: "con_good s \<Longrightarrow> wrote A s (sti s)"
  by (rule wrote_same) (simp_all add: sti_def)

lemma wrote_sti_left: "wrote A (sti s) t = wrote A s t"
  by (simp add: wrote_def sti_def)

lemma terminal_read_wrote:
  assumes "terminal_read fd buf n s = Some (r, t)" "con_good s" "buf \<noteq> 0 \<longrightarrow> unat buf + min (unat n) 128 < 2 ^ 32"
  shows "wrote (rng buf (Suc (min (unat n) 128)) \<union> screen_rng) s t"
proof (cases "fd \<noteq> 0 \<or> buf = 0")
  case True
  then have "terminal_read fd buf n s = Some (minus_one, s)" by (rule terminal_errors(1))
  with assms(1,2) show ?thesis by (simp add: wrote_refl)
next
  case False
  have n: "(if n > MAX_INPUT_CHARS then MAX_INPUT_CHARS else n) = of_nat (min (unat n) 128)"
    by (auto simp: MAX_INPUT_CHARS_def word_less_nat_alt min_def)
  have "getline_loop buf (of_nat (min (unat n) 128)) buf (sti s) = Some (r, t)"
    using assms(1) False by (simp add: terminal_read_def n getline_def)
  moreover have "\<exists>k \<le> min (unat n) 128. buf = buf + of_nat k" by (rule exI [of _ 0]) simp
  ultimately have "wrote (rng buf (Suc (min (unat n) 128)) \<union> screen_rng) (sti s) t"
    using assms False by (intro getline_loop_wrote) auto
  then show ?thesis by (simp only: wrote_sti_left)
qed

lemma terminal_write_loop_wrote:
  "con_good s \<Longrightarrow> wrote screen_rng s (snd (terminal_write_loop b n i s))"
proof (induction b n i s rule: terminal_write_loop.induct)
  case (1 b n i s)
  let ?s = "putc (mem s (b + i)) s"
  have p: "wrote screen_rng s ?s" by (rule wrote_putc [OF "1.prems"]) simp
  show ?case
  proof (cases "mem s (b + i) \<noteq> 0 \<and> i + 1 \<noteq> n")
    case True
    have "wrote screen_rng ?s (snd (terminal_write_loop b n (i + 1) ?s))"
      using True by (intro "1.IH" wrote_good [OF p]) auto
    with p True show ?thesis by (subst terminal_write_loop.simps) (auto simp: Let_def intro: wrote_trans)
  next
    case False
    with p "1.prems" show ?thesis by (subst terminal_write_loop.simps) (auto simp: Let_def wrote_refl)
  qed
qed

lemma terminal_write_wrote: "con_good s \<Longrightarrow> wrote screen_rng s (snd (terminal_write fd b n s))"
  by (simp add: terminal_write_def terminal_write_loop_wrote wrote_refl)


section \<open>The file system and the clock\<close>

lemma copy_block_outside:
  "copy_block m buf db ib len count i offset = (m', count', offset') \<Longrightarrow> b \<notin> rng buf (unat len) \<Longrightarrow> m' b = m b"
proof (induction m buf db ib len count i offset rule: copy_block.induct)
  case (1 m buf db ib len count i offset)
  show ?case
  proof (cases "count < len \<and> i <s NUM_B_IN_FOUR_KB \<and> offset < load32 m ib")
    case True
    then have "copy_block (m(buf + count := m (db + i))) buf db ib len (count + 1) (i + 1) (offset + 1)
        = (m', count', offset')"
      using "1.prems"(1) by (subst (asm) copy_block.simps) (simp only: if_True simp_thms)
    from "1.IH" [OF True this "1.prems"(2)] have "m' b = (m(buf + count := m (db + i))) b" .
    moreover have "buf + count \<in> rng buf (unat len)"
      using True u32_bound [of len] by (simp add: mem_rng_iff word_less_nat_alt)
    ultimately show ?thesis using "1.prems"(2) by auto
  next
    case False
    then have "copy_block m buf db ib len count i offset = (m, count, offset)" by (rule copy_block_stop)
    with "1.prems"(1) show ?thesis by simp
  qed
qed

lemma read_blocks_outside:
  "b \<notin> rng buf (unat len) \<Longrightarrow> fst (read_blocks base ib buf len m count ii i offset) b = m b"
proof (induction base ib buf len m count ii i offset rule: read_blocks.induct)
  case (1 base ib buf len m count ii i offset)
  let ?dbn = "load32 m (ib + 4 + 4 * ii)"
  let ?db = "base + NUM_B_IN_FOUR_KB * (load32 m (base + 4) + ?dbn + 1)"
  obtain m' count' offset' where cb: "copy_block m buf ?db ib len count i offset = (m', count', offset')"
    by (cases "copy_block m buf ?db ib len count i offset") auto
  have m': "m' b = m b" by (rule copy_block_outside [OF cb "1.prems"])
  show ?case
  proof (cases "load32 m (base + 8) \<le>s ?dbn \<or> len \<le> count' \<or> load32 m' ib \<le> offset'")
    case True
    then show ?thesis using m' by (subst read_blocks.simps) (auto simp: Let_def cb)
  next
    case False
    then have "fst (read_blocks base ib buf len m' count' (ii + 1) 0 offset') b = m' b"
      using cb "1.prems" by (intro "1.IH") auto
    with False m' show ?thesis by (subst read_blocks.simps) (simp add: Let_def cb)
  qed
qed

lemma read_data_wrote: "con_good s \<Longrightarrow> wrote (rng buf (unat n)) s (snd (read_data inode offset buf n s))"
proof -
  assume g: "con_good s"
  let ?r = "read_blocks (fs_ptr s) (inode_addr inode s) buf n (mem s) 0 (offset div NUM_B_IN_FOUR_KB)
    (offset mod NUM_B_IN_FOUR_KB) offset"
  have "wrote (rng buf (unat n)) s (s\<lparr>mem := fst ?r\<rparr>)" by (rule wrote_store [OF g]) (simp add: read_blocks_outside)
  then show ?thesis by (simp add: read_data_def Let_def wrote_refl g split_beta)
qed

lemma file_read_wrote:
  assumes "file_read fd buf n s = Some (r, t)" "con_good s"
  shows "wrote (rng buf (unat n)) s t"
proof -
  let ?u = "snd (read_data (inode_num (cur_files s ! unat fd)) (file_position (cur_files s ! unat fd)) buf n s)"
  from assms(1) have "t = s \<or> (\<exists>fs. t = set_files fs ?u)"
    by (auto simp: file_read_def Let_def split_beta split: if_splits)
  then show ?thesis using read_data_wrote [OF assms(2)] wrote_refl [OF assms(2)] by auto
qed

lemma copy_name_outside:
  "copy_name cs buf i m = (k, m') \<Longrightarrow> i + length cs \<le> n \<Longrightarrow> k \<le> n \<and> (b \<notin> rng buf n \<longrightarrow> m' b = m b)"
proof (induction cs buf i m rule: copy_name.induct)
  case (2 c cs buf i m)
  have "buf + of_nat i \<in> rng buf n" using "2.prems"(2) by (auto simp: rng_def intro!: image_eqI [of _ _ i])
  with 2 show ?case by (cases "c = 0") (auto simp del: fun_upd_apply, auto)
qed simp

lemma directory_read_wrote:
  assumes "directory_read fd buf n s = Some (r, t)" "con_good s"
  shows "wrote (rng buf 33) s t"
proof (cases "read_dentry_by_index (file_position (cur_files s ! unat fd)) s")
  case None
  with assms show ?thesis by (auto simp: directory_read_def wrote_refl split: if_splits)
next
  case (Some d)
  have l: "0 + length (filename d) \<le> 32"
    using Some by (auto simp: read_dentry_by_index_def FILENAME_LEN_def split: if_splits)
  obtain k m where c: "copy_name (filename d) buf 0 (mem s) = (k, m)" by fastforce
  have k: "k \<le> 32" using copy_name_outside [OF c l] by blast
  have out: "(m(buf + of_nat k := 0)) b = mem s b" if "b \<notin> rng buf 33" for b
  proof -
    have "b \<notin> rng buf 32" "b \<noteq> buf + of_nat k"
      using that rng_mono [of 32 33 buf] at_in [OF k, of buf] by (auto simp: numeral_eq_Suc)
    then show ?thesis using copy_name_outside [OF c l, of b] by simp
  qed
  have "mem (set_files fs s) = mem s" for fs by (simp add: set_files_def)
  then have "t = (set_files ((cur_files s)[unat fd := (cur_files s ! unat fd)
      \<lparr>file_position := file_position (cur_files s ! unat fd) + 1\<rparr>]) s)\<lparr>mem := m(buf + of_nat k := 0)\<rparr>"
    using assms(1) Some c by (auto simp: directory_read_def Let_def split: if_splits)
  moreover have "(set_files fs s)\<lparr>mem := m'\<rparr> = set_files fs (s\<lparr>mem := m'\<rparr>)" for fs m'
    by (simp add: set_files_def cur_pcb_def getCurrentProcessPCB_def)
  moreover have "wrote (rng buf 33) s (s\<lparr>mem := m(buf + of_nat k := 0)\<rparr>)" by (rule wrote_store [OF assms(2) out])
  ultimately show ?thesis by simp
qed

text \<open>No access of the clock's driver goes to the ports of the display.\<close>

lemma crtc_quiet:
  "list_all (\<lambda>e. case e of Out p d \<Rightarrow> p \<noteq> VGA_PORT \<and> p \<noteq> VGA_PORT + 1 | In p d \<Rightarrow> True) evs \<Longrightarrow>
   crtc_cursor (old @ evs) = crtc_cursor old"
proof -
  assume "list_all (\<lambda>e. case e of Out p d \<Rightarrow> p \<noteq> VGA_PORT \<and> p \<noteq> VGA_PORT + 1 | In p d \<Rightarrow> True) evs"
  then have "fold crtc_step evs r = r" for r
    by (cases r; induction evs) (auto split: io_event.splits)
  then show ?thesis by (simp add: crtc_cursor_def)
qed

lemma crtc_inb: "crtc_cursor (io (snd (inb p s))) = crtc_cursor (io s)"
  by (simp add: inb_def crtc_quiet split: list.split)

lemma crtc_clock:
  "crtc_cursor (io (enable_irq n s)) = crtc_cursor (io s)" "crtc_cursor (io (rtc_init u)) = crtc_cursor (io u)"
  "crtc_cursor (io (snd (rtc_set f v))) = crtc_cursor (io v)" "crtc_cursor (io (rtc_handler w)) = crtc_cursor (io w)"
proof -
  show e: "crtc_cursor (io (enable_irq n s)) = crtc_cursor (io s)" for s :: "'z pic_scheme" and n
    by (simp add: crtc_quiet enable_irq_def Let_def MASTER_8259_DATA_PORT_def SLAVE_8259_DATA_PORT_def VGA_PORT_def)
  show "crtc_cursor (io (rtc_init u)) = crtc_cursor (io u)"
    by (simp add: crtc_quiet crtc_inb rtc_init_def Let_def e split_beta REG_RTC_SEL_def REG_RTC_VAL_def VGA_PORT_def)
  show "crtc_cursor (io (snd (rtc_set f v))) = crtc_cursor (io v)"
    by (simp add: crtc_quiet crtc_inb rtc_set_def cli_and_save_def Let_def split_beta REG_RTC_SEL_def REG_RTC_VAL_def VGA_PORT_def)
  show "crtc_cursor (io (rtc_handler w)) = crtc_cursor (io w)"
    by (simp add: crtc_quiet crtc_inb rtc_handler_def rtc_interrupt_handler_def send_eoi_def NUM_IRQ_def Let_def split_beta
        REG_RTC_SEL_def REG_RTC_VAL_def VGA_PORT_def pic_ports)
qed

lemma rtc_handler_more: "keyboard.more (rtc_handler s) = keyboard.more s"
  by (rule rtc_more_keyboard) simp

lemma rtc_handler_wrote: "con_good s \<Longrightarrow> wrote A s (rtc_handler s)"
  by (rule wrote_same) (simp_all add: crtc_clock rtc_handler_more)

lemma rtc_wait_wrote: "rtc_wait ts s = Some (r, t) \<Longrightarrow> con_good s \<Longrightarrow> wrote A s t"
proof (induction ts arbitrary: s)
  case Nil
  then show ?case by (auto intro!: wrote_same split: if_splits)
next
  case (Cons tick ts)
  show ?case
  proof (cases "intflag s = 1")
    case True
    with Cons.prems show ?thesis by (auto intro!: wrote_same)
  next
    case False
    let ?s = "if tick \<and> interrupts_on s then rtc_handler s else s"
    have u: "wrote A s ?s" using rtc_handler_wrote [OF Cons.prems(2)] wrote_refl [OF Cons.prems(2)] by simp
    have "rtc_wait ts ?s = Some (r, t)" using False Cons.prems(1) by simp
    from Cons.IH [OF this wrote_good [OF u]] u show ?thesis by (rule wrote_trans [rotated])
  qed
qed

lemma machine_more_console:
  assumes "machine.more (s :: 'a console_scheme) = machine.more t"
  shows "screen_x s = screen_x t" "screen_y s = screen_y t" "conv_buf_at s = conv_buf_at t"
  using assms by (cases s; cases t; simp)+

lemma rtc_set_wrote: "con_good s \<Longrightarrow> wrote A s (snd (rtc_set f s))"
proof -
  assume g: "con_good s"
  note m = rtc_set_frame(3) [of f s]
  show ?thesis
    by (rule wrote_same [OF g])
      (simp_all add: crtc_clock machine_more_console [OF m] machine_more_keyboard [OF m])
qed

lemma rtc_init_wrote: "con_good s \<Longrightarrow> wrote A s (rtc_init s)"
proof -
  assume g: "con_good s"
  have "keyboard.more (rtc_init s) = keyboard.more s" by (rule rtc_more_keyboard) simp
  then show ?thesis by (intro wrote_same [OF g]) (simp_all add: crtc_clock)
qed

lemma wrote_eflags: "wrote A s (t\<lparr>eflags := fl\<rparr>) = wrote A s t" "con_good (t\<lparr>eflags := fl\<rparr>) = con_good t"
  by (simp_all add: wrote_def con_good_def con_ok_def cursor_ok_def con_view_def)

lemma rtc_open_wrote: "con_good s \<Longrightarrow> wrote A s (snd (rtc_open s))"
proof -
  assume g: "con_good s"
  let ?u = "s\<lparr>eflags := eflags s AND NOT IF_FLAG\<rparr>"
  have "wrote A s ?u" using g by (simp add: wrote_eflags wrote_refl)
  moreover from this have i: "wrote A ?u (rtc_init ?u)" by (intro rtc_init_wrote wrote_good)
  moreover from wrote_good [OF i] have "wrote A (rtc_init ?u) (snd (rtc_set 2 (rtc_init ?u)))" by (rule rtc_set_wrote)
  ultimately have w: "wrote A s (snd (rtc_set 2 (rtc_init ?u)))" by (blast intro: wrote_trans)
  have "\<exists>fl. snd (rtc_open s) = (snd (rtc_set 2 (rtc_init ?u)))\<lparr>eflags := fl\<rparr>"
    by (auto simp: rtc_open_def cli_and_save_def restore_flags_def cli_def Let_def split_beta)
  with w show ?thesis by (auto simp: wrote_eflags)
qed

lemma file_open_wrote: "file_open fname s = Some (r, t) \<Longrightarrow> con_good s \<Longrightarrow> wrote A s t"
proof (erule file_open_outcomes)
  fix f assume g: "con_good s" and t: "t = snd (rtc_open (set_files ((cur_files s)[free_slot (cur_files s) 2 := f]) s))"
  let ?u = "set_files ((cur_files s)[free_slot (cur_files s) 2 := f]) s"
  have u: "wrote A s ?u" using g by (simp add: wrote_refl)
  from wrote_trans [OF u rtc_open_wrote [OF wrote_good [OF u]]] show "wrote A s t" unfolding t .
qed (simp_all add: wrote_refl)

section \<open>The calls on descriptors\<close>

lemma sys_open_wrote: "sys_open fname s = Some (r, t) \<Longrightarrow> con_good s \<Longrightarrow> wrote A s t"
  by (auto simp: sys_open_def directory_open_def bind_eq_Some_conv wrote_refl split: option.splits if_splits
      intro: file_open_wrote wrote_trans [OF file_open_wrote file_open_wrote [OF _ wrote_good [OF file_open_wrote]]])

lemma sys_close_wrote: "sys_close fd s = Some (r, t) \<Longrightarrow> con_good s \<Longrightarrow> wrote A s t"
  by (auto simp: sys_close_def terminal_close_def rtc_close_def directory_close_def file_close_def wrote_refl
      split: ops_table.splits if_splits)

lemma sys_write_wrote: "sys_write fd buf n s = Some (r, t) \<Longrightarrow> con_good s \<Longrightarrow> wrote screen_rng s t"
  using terminal_write_wrote [of s fd buf n] rtc_set_wrote [of s]
  by (auto simp: sys_write_def file_write_def directory_write_def rtc_write_def wrote_refl
      split: ops_table.splits if_splits dest!: sym [of "terminal_write _ _ _ _"] sym [of "rtc_set _ _"]) (metis snd_conv)+

text \<open>How many bytes behind its buffer a \<open>read\<close> may write: the line with its NUL, the bytes of the
  file, a name of the directory with its NUL, nothing.\<close>

fun read_room :: "ops_table \<Rightarrow> u32 \<Rightarrow> nat" where
  "read_room TerminalOps n = Suc (min (unat n) 128)"
| "read_room FileOps n = unat n"
| "read_room DirectoryOps n = 33"
| "read_room RtcOps n = 0"
| "read_room NoOps n = 0"

lemma sys_read_wrote:
  assumes "sys_read fd buf n s = Some (r, t)" "con_good s"
    and "\<And>ops. fd_valid 0 fd \<Longrightarrow> flags (cur_files s ! unat fd) \<noteq> FILE_AVAIL \<Longrightarrow>
      ops = file_ops_table_ptr (cur_files s ! unat fd) \<Longrightarrow> ops = TerminalOps \<and> buf = 0 \<or> user_range buf (read_room ops n)"
  shows "wrote ({b. in_window b} \<union> screen_rng) s t"
proof (cases "fd_valid 0 fd \<and> flags (cur_files s ! unat fd) \<noteq> FILE_AVAIL")
  case False
  with assms(1,2) have "t = s" by (auto simp: sys_read_def split: if_splits)
  with assms(2) show ?thesis by (simp add: wrote_refl)
next
  case True
  note ptr = assms(3) [OF True [THEN conjunct1] True [THEN conjunct2] refl]
  have win: "user_range buf k \<Longrightarrow> rng buf k \<subseteq> {b. in_window b}" for k using user_range_window by blast
  show ?thesis
  proof (cases "file_ops_table_ptr (cur_files s ! unat fd)")
    case TerminalOps
    then have t: "terminal_read fd buf n s = Some (r, t)" using assms(1) True by (simp add: sys_read_def)
    show ?thesis
    proof (cases "buf = 0")
      case True
      with t terminal_errors(1) [of fd buf n s] have "t = s" by simp
      then show ?thesis using assms(2) by (simp add: wrote_refl)
    next
      case False
      then have u: "user_range buf (Suc (min (unat n) 128))" using ptr TerminalOps by simp
      then have "unat buf + min (unat n) 128 < 2 ^ 32" by (simp add: user_range_def USER_BASE_def USER_SIZE_def)
      with terminal_read_wrote [OF t assms(2)] win [OF u] show ?thesis by (blast intro: wrote_mono)
    qed
  next
    case FileOps
    then have "file_read fd buf n s = Some (r, t)" "user_range buf (unat n)" using assms(1) True ptr by (simp_all add: sys_read_def)
    with file_read_wrote [OF _ assms(2)] win show ?thesis by (blast intro: wrote_mono)
  next
    case DirectoryOps
    then have "directory_read fd buf n s = Some (r, t)" "user_range buf 33" using assms(1) True ptr by (simp_all add: sys_read_def)
    with directory_read_wrote [OF _ assms(2)] win show ?thesis by (blast intro: wrote_mono)
  next
    case RtcOps
    then have "rtc_wait (arrivals s) s = Some (r, t)" using assms(1) True by (simp add: sys_read_def rtc_read_def)
    then show ?thesis by (rule rtc_wait_wrote [OF _ assms(2)])
  next
    case NoOps
    with assms(1) True show ?thesis by (simp add: sys_read_def)
  qed
qed


section \<open>The other calls\<close>

lemma wrote_fields:
  assumes "con_good s" "screen_x t = screen_x s" "screen_y t = screen_y s" "io t = io s" "conv_buf_at t = conv_buf_at s"
    and "fs_ptr t = fs_ptr s" "exec_filename_at t = exec_filename_at s" "exec_buffer_at t = exec_buffer_at s"
    and "\<And>b. b \<notin> A \<Longrightarrow> mem t b = mem s b"
  shows "wrote A s t"
  using con_good_cong [of t s] assms by (simp add: wrote_def)

lemma map_user_console:
  "screen_x (map_user fr s) = screen_x s" "screen_y (map_user fr s) = screen_y s" "conv_buf_at (map_user fr s) = conv_buf_at s"
  by (simp_all add: map_user_eq)

lemma halt_wrote: "halt status s = (out, t) \<Longrightarrow> con_good s \<Longrightarrow> wrote {b. in_window b} s t"
proof -
  assume h: "halt status s = (out, t)" and g: "con_good s"
  let ?m = "map_user (user_frame (parent_num (pcbs s (pcb_addr (curr_process s))))) s"
  have "screen_x t = screen_x ?m" "screen_y t = screen_y ?m" "io t = io ?m" "conv_buf_at t = conv_buf_at ?m" "mem t = mem ?m"
    "fs_ptr t = fs_ptr ?m" "exec_filename_at t = exec_filename_at ?m" "exec_buffer_at t = exec_buffer_at ?m"
    using h by (auto simp: halt_def return_to_execute_def Let_def map_pid)
  then show ?thesis by (intro wrote_fields [OF g]) (simp_all add: map_user_console, simp add: map_user_eq)
qed

lemma flush_kernel:
  "fs_ptr (flush_tlb s) = fs_ptr s" "exec_filename_at (flush_tlb t) = exec_filename_at t"
  "exec_buffer_at (flush_tlb t) = exec_buffer_at t"
  by (simp_all add: flush_tlb_def Let_def)

lemma vidmap_wrote: "con_good s \<Longrightarrow> wrote {b. in_window b} s (snd (vidmap ptr s))"
proof (cases "ptr = 0 \<or> ptr < PAGE_TOP \<or> ptr > PAGE_BOTTOM")
  case True
  moreover assume "con_good s"
  ultimately show ?thesis by (simp add: vidmap_def wrote_refl)
next
  case False
  moreover assume g: "con_good s"
  ultimately have "user_range ptr 4"
    unfolding user_range_def by (simp add: PAGE_TOP_def PAGE_BOTTOM_def USER_BASE_def USER_SIZE_def word_le_nat_alt not_less)
  then have "b \<notin> rng ptr 4" if "\<not> in_window b" for b using that user_range_window by blast
  then have st: "store32 m ptr v b = m b" if "\<not> in_window b" for b m v
    using that unfolding store32_def by (intro store_bytes_other) (simp add: numeral_eq_Suc)
  show ?thesis
    by (rule wrote_fields [OF g]) (use False in \<open>simp_all add: vidmap_def Let_def st flush_kernel del: not_less\<close>)
qed

lemma printf_wrote:
  assumes "con_good s" "con_layout s" "render None fmt (map PInt args) = Some out" "printf fmt args s = Some (r, t)"
  shows "wrote (screen_rng \<union> conv_rng s) s t"
proof -
  have "list_all2 (arg_word s) (map PInt args) args" by (simp add: list_all2_conv_all_nth)
  from printf_renders [OF assms(1,2) this assms(3)] assms(4) have "printed out s t" by auto
  then show ?thesis by (rule wrote_printed) simp
qed

lemma printing_wrote:
  assumes "con_good s" "con_layout s"
  shows "set_handler a b s = Some (r, t) \<Longrightarrow> wrote (screen_rng \<union> conv_rng s) s t"
    "sigreturn s = Some (r, t) \<Longrightarrow> wrote (screen_rng \<union> conv_rng s) s t"
proof -
  let ?fmt = "lit ''## set_handler() : %d, %x'' @ [0x0A]"
  have "\<exists>out. render None ?fmt (map PInt [a, b]) = Some out" by (simp add: is_conv_def)
  then obtain out where o1: "render None ?fmt (map PInt [a, b]) = Some out" by blast
  assume "set_handler a b s = Some (r, t)"
  then obtain k where "printf ?fmt [a, b] s = Some (k, t)" unfolding set_handler_def by (auto simp only: bind_eq_Some_conv split: prod.splits)
  then show "wrote (screen_rng \<union> conv_rng s) s t" by (rule printf_wrote [OF assms o1])
next
  let ?fmt = "lit ''## sigreturn()'' @ [0x0A]"
  have "\<exists>out. render None ?fmt (map PInt []) = Some out" by (simp add: is_conv_def)
  then obtain out where o1: "render None ?fmt (map PInt []) = Some out" by blast
  assume "sigreturn s = Some (r, t)"
  then obtain k where "printf ?fmt [] s = Some (k, t)" unfolding sigreturn_def by (auto simp only: bind_eq_Some_conv split: prod.splits)
  then show "wrote (screen_rng \<union> conv_rng s) s t" by (rule printf_wrote [OF assms o1])
qed

section \<open>What the kernel keeps out of reach\<close>

text \<open>Where the arguments of a process lie in its block.\<close>

definition arg_area :: "u32 \<Rightarrow> u32 set" where "arg_area p = rng (pcb_addr p + PCB_ARG) 128"

definition arg_areas :: "u32 set" where "arg_areas = (\<Union>n \<in> {..<6}. arg_area (of_nat n))"

text \<open>The bytes a program can write by itself, and the arrays of the kernel that its calls write.\<close>

definition user_bytes :: "u32 set" where "user_bytes = {b. in_window b} \<union> rng VIDEO 0x1000"

definition kernel_buffers :: "'a kernel_scheme \<Rightarrow> u32 set" where
  "kernel_buffers s = conv_rng s \<union> rng (exec_filename_at s) 32 \<union> rng (exec_buffer_at s) 128"

definition writable :: "'a kernel_scheme \<Rightarrow> u32 set" where
  "writable s = user_bytes \<union> kernel_buffers s \<union> arg_areas"

text \<open>The layout the kernel has: the image of the file system and the kernel's arrays are apart from each
  other and from what programs write, and every running program has its arguments as a string in its
  block.\<close>

definition holds_args :: "'a kernel_scheme \<Rightarrow> u32 \<Rightarrow> bool" where
  "holds_args s p \<longleftrightarrow> length (upto_nul (bytes_at (mem s) (pcb_addr p + PCB_ARG) 128)) < 128"

definition laid_out :: "'a kernel_scheme \<Rightarrow> u32 list \<Rightarrow> bool" where
  "laid_out s ps \<longleftrightarrow> con_good s \<and> img_ok (mem s) (fs_ptr s) \<and>
     img_rng (mem s) (fs_ptr s) \<inter> writable s = {} \<and> kernel_buffers s \<inter> (user_bytes \<union> arg_areas) = {} \<and>
     list_all (holds_args s) ps"

lemma arg_area_in: "pid_ok p \<Longrightarrow> arg_area p \<subseteq> arg_areas"
proof -
  assume "pid_ok p"
  then have "unat p < 6" by (simp add: pid_ok_def)
  then have "arg_area (of_nat (unat p)) \<subseteq> arg_areas" unfolding arg_areas_def by blast
  then show ?thesis by simp
qed

lemma args_not_user: "arg_areas \<inter> user_bytes = {}"
proof -
  have "b \<notin> user_bytes" if n: "n < 6" and b: "b \<in> arg_area (of_nat n)" for b and n :: nat
  proof -
    have "rng (pcb_addr (of_nat n) + PCB_ARG) 128 \<inter> rng VIDEO 0x1000 = {}"
      by (rule rng_disjointI(2)) (use pid_ok_cases [OF pid_ok_of_nat [OF n]] in
        \<open>auto simp: VIDEO_def pcb_addr_def process_consts PCB_ARG_def\<close>)
    then show ?thesis using b pcb_arg_outside [OF n, of b] unfolding user_bytes_def arg_area_def by blast
  qed
  then show ?thesis by (auto simp: arg_areas_def)
qed

lemma arg_area_apart:
  assumes "pid_ok p" "pid_ok q" "p \<noteq> q"
  shows "arg_area p \<inter> arg_area q = {}"
proof -
  have "rng (pcb_addr p + PCB_ARG) 128 \<inter> rng (pcb_addr q + PCB_ARG) 128 = {}"
    if "unat (pcb_addr p + PCB_ARG) + 128 \<le> unat (pcb_addr q + PCB_ARG) \<or>
        unat (pcb_addr q + PCB_ARG) + 128 \<le> unat (pcb_addr p + PCB_ARG)" "unat (pcb_addr p + PCB_ARG) + 128 \<le> 2 ^ 32"
       "unat (pcb_addr q + PCB_ARG) + 128 \<le> 2 ^ 32"
    using that(1)
  proof
    assume "unat (pcb_addr p + PCB_ARG) + 128 \<le> unat (pcb_addr q + PCB_ARG)"
    then show ?thesis using that(3) by (rule rng_disjointI(1))
  next
    assume "unat (pcb_addr q + PCB_ARG) + 128 \<le> unat (pcb_addr p + PCB_ARG)"
    then show ?thesis using that(2) by (rule rng_disjointI(2))
  qed
  then show ?thesis
    unfolding arg_area_def using pid_ok_cases [OF assms(1)] pid_ok_cases [OF assms(2)] assms(3)
    by (elim disjE) (simp_all add: pcb_addr_def process_consts PCB_ARG_def)
qed

lemma upto_nul_short:
  "length (upto_nul (bytes_at m a n)) < n \<Longrightarrow> cstr m a (upto_nul (bytes_at m a n))"
proof (induction n arbitrary: a)
  case (Suc n)
  then show ?case by (cases "m a = 0") (auto simp: upto_nul_def)
qed simp

lemma holds_argsE:
  assumes "holds_args s p"
  obtains as where "cstr (mem s) (pcb_addr p + PCB_ARG) as" "length as < 128"
  using assms upto_nul_short unfolding holds_args_def by blast

lemma holds_argsI: "cstr (mem s) (pcb_addr p + PCB_ARG) as \<Longrightarrow> length as < 128 \<Longrightarrow> holds_args s p"
  using upto_nul_cstr [of "mem s" "pcb_addr p + PCB_ARG" as 128] by (simp add: holds_args_def)

lemma laid_out_layout: "laid_out s ps \<Longrightarrow> con_layout s"
proof -
  have "screen_rng \<subseteq> rng VIDEO 0x1000" unfolding screen_rng_def by (rule rng_mono) simp
  moreover assume "laid_out s ps"
  ultimately show ?thesis by (auto simp: laid_out_def con_layout_def kernel_buffers_def user_bytes_def)
qed

lemma wrote_buffers: "wrote A s t \<Longrightarrow> kernel_buffers t = kernel_buffers s" "wrote A s t \<Longrightarrow> writable t = writable s"
  by (simp_all add: wrote_def kernel_buffers_def writable_def conv_rng_def)

text \<open>A call that writes only such bytes, and none of the arguments of the running programs, leaves
  the layout and the file system as they are.\<close>

lemma wrote_laid_out:
  assumes "laid_out s ps" "wrote A s t" "A \<inter> img_rng (mem s) (fs_ptr s) = {}" "\<And>p. p \<in> set ps \<Longrightarrow> A \<inter> arg_area p = {}"
  shows "laid_out t ps" "img_agree (mem s) (fs_ptr s) (mem t)"
proof -
  have w: "con_good t" "fs_ptr t = fs_ptr s" "\<And>b. b \<notin> A \<Longrightarrow> mem t b = mem s b" using assms(2) by (auto simp: wrote_def)
  have ok: "img_ok (mem s) (fs_ptr s)" using assms(1) by (simp add: laid_out_def)
  show agree: "img_agree (mem s) (fs_ptr s) (mem t)" using w(3) assms(3) unfolding img_agree_def by blast
  have "holds_args t p = holds_args s p" if "p \<in> set ps" for p
  proof -
    have "bytes_at (mem t) (pcb_addr p + PCB_ARG) 128 = bytes_at (mem s) (pcb_addr p + PCB_ARG) 128"
      using w(3) assms(4) [OF that] unfolding arg_area_def by (intro bytes_at_cong) blast
    then show ?thesis by (simp add: holds_args_def)
  qed
  then show "laid_out t ps"
    using assms(1) w(1) img_ok_same [OF agree ok] wrote_buffers [OF assms(2)]
    by (auto simp: laid_out_def w(2) list_all_iff)
qed

lemma wrote_user_laid_out:
  assumes "laid_out s ps" "wrote A s t" "A \<subseteq> user_bytes \<union> kernel_buffers s" "list_all pid_ok ps"
  shows "laid_out t ps" "img_agree (mem s) (fs_ptr s) (mem t)"
proof -
  have i: "A \<inter> img_rng (mem s) (fs_ptr s) = {}" using assms(1,3) by (auto simp: laid_out_def writable_def)
  have a: "A \<inter> arg_area p = {}" if "p \<in> set ps" for p
  proof -
    have "arg_area p \<subseteq> arg_areas" using that assms(4) by (intro arg_area_in) (simp add: list_all_iff)
    moreover have "kernel_buffers s \<inter> arg_areas = {}" using assms(1) by (auto simp: laid_out_def)
    ultimately show ?thesis using assms(3) args_not_user by blast
  qed
  show "laid_out t ps" "img_agree (mem s) (fs_ptr s) (mem t)" by (rule wrote_laid_out [OF assms(1,2) i a], assumption)+
qed

lemma laid_out_sub: "laid_out s ps \<Longrightarrow> set qs \<subseteq> set ps \<Longrightarrow> laid_out s qs"
  by (auto simp: laid_out_def list_all_iff)


lemma getargs_wrote:
  assumes "getargs buf n s = Some (r, t)" "runs s (p # ps)" "laid_out s (p # ps)" "buf = 0 \<or> user_range buf 128"
  shows "wrote {b. in_window b} s t"
proof -
  let ?a = "pcb_addr p + PCB_ARG"
  have g: "con_good s" using assms(3) by (simp add: laid_out_def)
  have pcb: "esp s AND NOT 0x1FFF = pcb_addr p"
    using runs_cur_pcb [OF assms(2)] by (simp add: getCurrentProcessPCB_def PCB_MASK_def)
  have pk: "pid_ok p" using runs_pid_ok [OF assms(2)] by simp
  obtain as where as: "cstr (mem s) ?a as" "length as < 128"
    using assms(3) holds_argsE [of s p] by (auto simp: laid_out_def)
  show ?thesis
  proof (cases "t = s")
    case True
    with g show ?thesis by (simp add: wrote_refl)
  next
    case False
    with assms(1,4) have u: "user_range buf 128" by (auto simp: getargs_def)
    have sub: "rng buf (Suc (length as)) \<subseteq> rng buf 128" "rng ?a (Suc (length as)) \<subseteq> arg_area p"
      unfolding arg_area_def using as(2) by (simp_all add: rng_mono)
    have win: "rng buf 128 \<subseteq> {b. in_window b}" using user_range_window [OF u] by blast
    have "arg_area p \<inter> {b. in_window b} = {}"
      using arg_area_in [OF pk] args_not_user by (auto simp: user_bytes_def)
    then have "rng buf (Suc (length as)) \<inter> rng ?a (Suc (length as)) = {}" using sub win by blast
    then have "strcpy (mem s) buf ?a = Some (store_bytes (mem s) buf (as @ [0]))" by (rule strcpy_cstr [OF as(1)])
    then have t: "t = s\<lparr>mem := store_bytes (mem s) buf (as @ [0])\<rparr>"
      using assms(1) False pcb by (auto simp: getargs_def Let_def split: if_splits)
    show ?thesis unfolding t
    proof (rule wrote_store [OF g])
      fix b assume "b \<notin> {b. in_window b}"
      then have "b \<notin> rng buf (length (as @ [0]))" using sub(1) win by auto
      then show "store_bytes (mem s) buf (as @ [0]) b = mem s b" by (rule store_bytes_other)
    qed
  qed
qed

section \<open>execute\<close>

text \<open>A command \<open>execute\<close> can take: a string apart from its own arrays and the file system, and, if it names a
  program, arguments that fit the buffer for them and a file that fits the window. The code checks
  none of this.\<close>

definition exec_safe :: "'a kernel_scheme \<Rightarrow> u32 \<Rightarrow> u8 list \<Rightarrow> bool" where
  "exec_safe s command xs \<longleftrightarrow> exec_layout s command xs \<and> cstr (mem s) command xs \<and> length xs < 2 ^ 31 \<and>
     (\<forall>i < 63. names_program s xs i (tl (arg_words xs)) \<longrightarrow>
        length (glue [] (tl (arg_words xs))) < 128 \<and>
        file_len (mem s) (fs_ptr s) (unat (dentry_inode (dentry_of s i))) \<le> 0x3B8000)"

lemma names_program_args: "names_program s xs i args \<Longrightarrow> args = tl (arg_words xs) \<and> i < 63"
  by (auto simp: names_program_def split: list.splits dest: find_in)

lemma exec_safe_ready:
  assumes "exec_safe s command xs" "laid_out s ps" "names_program s xs i args" "n \<in> free_pids s" "n = Min (free_pids s)"
  shows "exec_ready s command xs i args n"
proof -
  have n: "n < 6" using assms(4) by (simp add: free_pids_def)
  have "arg_area (of_nat n) \<subseteq> arg_areas" by (rule arg_area_in) (simp add: n)
  then have "rng (pcb_addr (of_nat n) + PCB_ARG) 128 \<inter> rng (exec_buffer_at s) 128 = {}"
    using assms(2) unfolding laid_out_def kernel_buffers_def arg_area_def by blast
  moreover have "\<forall>b \<in> img_rng (mem s) (fs_ptr s) \<union> rng (exec_buffer_at s) 128. \<not> in_window b"
    using assms(2) unfolding laid_out_def kernel_buffers_def writable_def user_bytes_def by blast
  ultimately show ?thesis
    using assms names_program_args [OF assms(3)] unfolding exec_ready_def exec_safe_def laid_out_def by blast
qed

lemma exec_ready_safe: "exec_ready s command xs i args n \<Longrightarrow> exec_safe s command xs"
proof -
  assume r: "exec_ready s command xs i args n"
  then have np: "names_program s xs i args" by (simp add: exec_ready_def)
  have "j = i" if "names_program s xs j args'" for j args'
    using np that by (auto simp: names_program_def split: list.splits)
  with r names_program_args [OF np] show ?thesis unfolding exec_safe_def exec_ready_def by blast
qed

text \<open>The first two steps of \<open>execute\<close> change the memory and the place \<open>strtok\<close> remembers.\<close>

definition mem_only :: "'a kernel_scheme \<Rightarrow> 'a kernel_scheme \<Rightarrow> bool" where
  "mem_only s t \<longleftrightarrow> screen_x t = screen_x s \<and> screen_y t = screen_y s \<and> io t = io s \<and> conv_buf_at t = conv_buf_at s \<and>
     keyboard.more t = keyboard.more s"

lemma mem_only_refl [simp]: "mem_only s s"
  and mem_only_upd [simp]: "mem_only s (t\<lparr>mem := m\<rparr>) = mem_only s t" "mem_only s (t\<lparr>mem := m, strtok_last := l\<rparr>) = mem_only s t"
  by (cases t; simp add: mem_only_def)+

lemma mem_only_left: "mem_only (u\<lparr>mem := m\<rparr>) v = mem_only u v"
  by (cases u; simp add: mem_only_def)

lemma mem_only_trans: "mem_only s t \<Longrightarrow> mem_only t u \<Longrightarrow> mem_only s u"
  by (simp add: mem_only_def)

lemma mem_only_wrote: "con_good s \<Longrightarrow> mem_only s t \<Longrightarrow> (\<And>b. b \<notin> A \<Longrightarrow> mem t b = mem s b) \<Longrightarrow> wrote A s t"
  by (rule wrote_same) (simp_all add: mem_only_def)

lemma strtok_sp_mem_only: "strtok_sp p s = Some (r, t) \<Longrightarrow> mem_only s t"
  by (auto simp: strtok_sp_def bind_eq_Some_conv)

lemma collect_args_mem_only: "collect_args buffer ptr token s = Some t \<Longrightarrow> mem_only s t"
proof (rule collect_args.raw_induct [where P = "\<lambda>b p k s t. mem_only s t"])
  fix rec :: "u32 \<Rightarrow> u32 \<Rightarrow> u32 \<Rightarrow> 'a kernel_scheme \<Rightarrow> 'a kernel_scheme option"
    and buffer ptr token s t
  assume ih: "\<And>b p k s t. rec b p k s = Some t \<Longrightarrow> mem_only s t"
    and eq: "(if token \<noteq> 0 then do {
        let (ptr, s) = (if ptr \<noteq> buffer then (ptr + 1, s\<lparr>mem := store_bytes (mem s) ptr [SPACE, 0]\<rparr>)
                        else (ptr, s));
        ret \<leftarrow> strlen (mem s) token;
        let s = s\<lparr>mem := memcpy (mem s) ptr token (ret + 1)\<rparr>;
        (token, s) \<leftarrow> strtok_sp 0 s;
        rec buffer (ptr + ret) token s }
      else Some s) = Some t"
  from eq show "mem_only s t"
    by (auto simp: bind_eq_Some_conv Let_def mem_only_left split: if_splits dest!: ih strtok_sp_mem_only intro: mem_only_trans)
qed

lemma exec_args_mem_only: "exec_args s = Some t \<Longrightarrow> mem_only s t"
proof -
  assume "exec_args s = Some t"
  then show ?thesis
    by (auto simp: exec_args_def Let_def bind_eq_Some_conv mem_only_left
        dest!: strtok_sp_mem_only collect_args_mem_only intro: mem_only_trans)
qed

lemma exec_check_mem_only:
  assumes "exec_check command s = Some (r, t)"
  shows "mem_only s t"
proof -
  obtain token u where u: "strtok_sp command s = Some (token, u)"
    using assms by (auto simp: exec_check_def bind_eq_Some_conv)
  have su: "mem_only s u" by (rule strtok_sp_mem_only [OF u])
  have rd: "mem_only v (snd (read_data i off b n v))" for v i off b n
    by (subst read_data_mem) simp
  from assms u have "t = u \<or> (\<exists>m. t = u\<lparr>mem := m\<rparr> \<or> (\<exists>i. t = snd (read_data i 0 (exec_buffer_at u) 4 (u\<lparr>mem := m\<rparr>))))"
    by (auto simp: exec_check_def Let_def bind_eq_Some_conv split_beta split: if_splits option.splits)
  then show ?thesis
  proof (elim disjE exE)
    fix m i assume "t = snd (read_data i 0 (exec_buffer_at u) 4 (u\<lparr>mem := m\<rparr>))"
    then have "mem_only (u\<lparr>mem := m\<rparr>) t" using rd by simp
    moreover have "mem_only u (u\<lparr>mem := m\<rparr>)" by simp
    ultimately show ?thesis using su mem_only_trans by blast
  qed (use su in simp_all)
qed


lemma execute_enter_console:
  assumes "execute command s = Some (Enter eip sp, t)"
  shows "screen_x t = screen_x s \<and> screen_y t = screen_y s \<and> io t = io s \<and> conv_buf_at t = conv_buf_at s \<and>
    fs_ptr t = fs_ptr s \<and> exec_filename_at t = exec_filename_at s \<and> exec_buffer_at t = exec_buffer_at s"
proof -
  have enter: "screen_x t = screen_x u \<and> screen_y t = screen_y u \<and> io t = io u \<and> conv_buf_at t = conv_buf_at u \<and>
      fs_ptr t = fs_ptr u \<and> exec_filename_at t = exec_filename_at u \<and> exec_buffer_at t = exec_buffer_at u"
    if "exec_enter n u = Some (out, t)" for n u out
    using that by (auto simp: exec_enter_def Let_def bind_eq_Some_conv context_switch_def)
  obtain d s1 where s1: "exec_check command s = Some (Some d, s1)"
    using assms by (auto simp: execute_def bind_eq_Some_conv split: option.splits)
  obtain s2 where s2: "exec_args s1 = Some s2" using assms s1 by (auto simp: execute_def bind_eq_Some_conv)
  have m: "mem_only s s2" by (rule mem_only_trans [OF exec_check_mem_only [OF s1] exec_args_mem_only [OF s2]])
  show ?thesis
  proof (rule get_next_process_number_cases [of s2])
    assume "get_next_process_number s2 = (minus_one, s2)"
    with assms s1 s2 show ?thesis by (auto simp: execute_def bind_eq_Some_conv)
  next
    fix n assume n: "n < 6" and gn: "get_next_process_number s2 = (of_nat n, s2\<lparr>pid_array := (pid_array s2)[n := PROG_ACTIVE]\<rparr>)"
    have ne: "(of_nat n :: u32) \<noteq> minus_one"
    proof
      assume "(of_nat n :: u32) = minus_one"
      then have "unat (of_nat n :: u32) = unat minus_one" by simp
      with n show False by (simp add: unat_of_nat)
    qed
    let ?u = "s2\<lparr>pid_array := (pid_array s2)[n := PROG_ACTIVE]\<rparr>"
    obtain l v where l: "exec_load (dentry_inode d) (of_nat n) ?u = (l, v)" by (cases "exec_load (dentry_inode d) (of_nat n) ?u")
    have v: "l" "exec_enter (of_nat n) v = Some (Enter eip sp, t)"
      using assms s1 s2 gn ne l by (auto simp: execute_def split: if_splits)
    obtain m' where "v = (map_user (user_frame (of_nat n)) ?u)\<lparr>mem := m'\<rparr>"
      by (rule exec_load_cases [of "dentry_inode d" "of_nat n" ?u]) (use l v(1) in auto)
    with enter [OF v(2)] m keyboard_more_kernel [of s2 s] show ?thesis by (simp add: map_user_console mem_only_def)
  qed
qed

lemma execute_wrote:
  assumes lay: "laid_out s ps" and safe: "exec_safe s command xs" and e: "execute command s = Some (out, t)"
  defines "A \<equiv> rng command (Suc (length xs)) \<union> user_bytes \<union> kernel_buffers s"
  obtains (ret) v where "out = Return v" "wrote A s t"
  | (enter) eip n where "out = Enter eip 0x83FFFFC" "n \<in> free_pids s" "n = Min (free_pids s)"
      "wrote (A \<union> arg_area (of_nat n)) s t" "holds_args t (of_nat n)"
proof -
  let ?R = "rng command (Suc (length xs))" and ?F = "rng (exec_filename_at s) 32" and ?B = "rng (exec_buffer_at s) 128"
  have ok: "exec_layout s command xs" "cstr (mem s) command xs" "length xs < 2 ^ 31" using safe by (simp_all add: exec_safe_def)
  have img: "img_ok (mem s) (fs_ptr s)" and g: "con_good s" using lay by (simp_all add: laid_out_def)
  have sub: "?R \<union> ?F \<union> ?B \<subseteq> A" by (auto simp: A_def kernel_buffers_def)
  show thesis
  proof (rule exec_check_eq [OF ok img])
    fix t1 assume c: "exec_check command s = Some (None, t1)" and f: "\<forall>b. b \<notin> ?R \<union> ?F \<union> ?B \<longrightarrow> mem t1 b = mem s b"
    have "out = Return minus_one" "t = t1" using e c by (simp_all add: execute_def)
    moreover have "wrote A s t1" by (rule mem_only_wrote [OF g exec_check_mem_only [OF c]]) (use f sub in blast)
    ultimately show thesis by (intro ret) simp_all
  next
    fix t1 token name args i
    assume np: "names_program s xs i args" and words: "arg_words xs = name # args"
      and c: "exec_check command s = Some (Some (dentry_of s i), t1)"
      and pnd: "pending ?R (mem t1) (strtok_last t1) token (name # args)" and k1: "keyboard.more t1 = keyboard.more s"
      and f1: "\<forall>b. b \<notin> ?R \<union> ?F \<union> ?B \<longrightarrow> mem t1 b = mem s b"
    show thesis
    proof (cases "free_pids s = {}")
      case False
      define n where "n = Min (free_pids s)"
      have n: "n \<in> free_pids s" using False by (simp add: n_def)
      have r: "exec_ready s command xs i args n" by (rule exec_safe_ready [OF safe lay np n n_def])
      obtain t' where t': "execute command s = Some (Enter (load32 (mem t') (PROGRAM_IMAGE + 24)) 0x83FFFFC, t')"
        "cstr (mem t') (pcb_addr (of_nat n) + PCB_ARG) (glue [] args)"
        "\<forall>b. b \<notin> ?R \<union> ?F \<union> ?B \<union> rng (pcb_addr (of_nat n) + PCB_ARG) 128 \<longrightarrow> \<not> in_window b \<longrightarrow> mem t' b = mem s b"
        by (rule execute_ready [OF r])
      from e t'(1) have "(out, t) = (Enter (load32 (mem t') (PROGRAM_IMAGE + 24)) 0x83FFFFC, t')" by (simp only: option.inject)
      then have t: "t = t'" "out = Enter (load32 (mem t') (PROGRAM_IMAGE + 24)) 0x83FFFFC" by (simp_all only: prod.inject)
      have "wrote (A \<union> arg_area (of_nat n)) s t"
        by (rule wrote_fields [OF g]) (use execute_enter_console [OF t'(1)] t'(3) sub in
            \<open>auto simp: t(1) arg_area_def A_def user_bytes_def\<close>)
      moreover have "holds_args t (of_nat n)"
        using t'(2) r by (intro holds_argsI [of t _ "glue [] args"]) (simp_all add: t(1) exec_ready_def del: cstr.simps)
      ultimately show thesis using enter t(2) n n_def by blast
    next
      case True
      have "length (glue [] args) < 128"
        using safe np names_program_args [OF np] by (auto simp: exec_safe_def)
      then obtain w where w: "exec_args t1 = Some w" "keyboard.more w = keyboard.more s"
        "\<forall>b. b \<notin> ?R \<union> ?B \<longrightarrow> mem w b = mem t1 b"
        by (rule exec_args_ok [OF ok(1) k1 pnd])
      have mo: "mem_only s w" by (rule mem_only_trans [OF exec_check_mem_only [OF c] exec_args_mem_only [OF w(1)]])
      have sw: "wrote A s w"
      proof (rule mem_only_wrote [OF g mo])
        fix b assume "b \<notin> A"
        then have "b \<notin> ?R" "b \<notin> ?F" "b \<notin> ?B" using sub by blast+
        then show "mem w b = mem s b" using f1 w(3) by simp
      qed
      have conv: "conv_rng w = conv_rng s" using mo by (simp add: mem_only_def conv_rng_def)
      have "con_layout w" using laid_out_layout [OF lay] by (simp add: con_layout_def conv)
      have "free_pids w = {}" using True keyboard_more_kernel [OF w(2)] by (simp add: free_pids_def)
      then obtain l where pr: "printf (lit ''You have reached the maximum number of processes! '' @ [0x0A]) [] w = Some (l, t)"
        and out: "out = Return 256"
        using e c w(1) by (auto simp: execute_def get_next_process_number_full bind_eq_Some_conv)
      have "\<exists>tx. render None (lit ''You have reached the maximum number of processes! '' @ [0x0A]) (map PInt []) = Some tx"
        by (simp add: is_conv_def)
      then obtain tx where "render None (lit ''You have reached the maximum number of processes! '' @ [0x0A]) (map PInt []) = Some tx"
        by blast
      from printf_wrote [OF wrote_good [OF sw] \<open>con_layout w\<close> this pr] have "wrote (screen_rng \<union> conv_rng s) w t"
        by (simp only: conv)
      moreover have "screen_rng \<subseteq> rng VIDEO 0x1000" unfolding screen_rng_def by (rule rng_mono) simp
      then have "screen_rng \<union> conv_rng s \<subseteq> A" by (auto simp: A_def user_bytes_def kernel_buffers_def)
      ultimately have "wrote A s t" using sw by (blast intro: wrote_mono wrote_trans)
      with out show thesis by (rule ret)
    qed
  qed
qed


section \<open>Calls with pointers into the window\<close>

text \<open>A string of at most 1023 characters in the window.\<close>

definition user_string :: "'a kernel_scheme \<Rightarrow> u32 \<Rightarrow> bool" where
  "user_string s a \<longleftrightarrow>
     (let xs = upto_nul (bytes_at (mem s) a 1024) in length xs < 1024 \<and> user_range a (Suc (length xs)))"

definition read_ok :: "u32 \<Rightarrow> u32 \<Rightarrow> u32 \<Rightarrow> 'a kernel_scheme \<Rightarrow> bool" where
  "read_ok fd buf n s \<longleftrightarrow>
     (let f = cur_files s ! unat fd in
      fd_valid 0 fd \<and> flags f \<noteq> FILE_AVAIL \<longrightarrow>
      file_ops_table_ptr f = TerminalOps \<and> buf = 0 \<or> user_range buf (read_room (file_ops_table_ptr f) n))"

text \<open>\<open>rtc_write\<close> takes its first parameter, the descriptor, for the buffer: no such call is in order.\<close>

definition write_ok :: "u32 \<Rightarrow> u32 \<Rightarrow> u32 \<Rightarrow> 'a kernel_scheme \<Rightarrow> bool" where
  "write_ok fd buf n s \<longleftrightarrow>
     (let f = cur_files s ! unat fd in
      fd_valid 0 fd \<and> flags f \<noteq> FILE_AVAIL \<longrightarrow>
      (case file_ops_table_ptr f of TerminalOps \<Rightarrow> buf = 0 \<or> user_range buf (unat n) | RtcOps \<Rightarrow> False | _ \<Rightarrow> True))"

text \<open>What a call on a descriptor leaves behind.\<close>

definition stays :: "'a kernel_scheme \<Rightarrow> 'a kernel_scheme \<Rightarrow> u32 list \<Rightarrow> bool" where
  "stays s t ps \<longleftrightarrow> runs t ps \<and> laid_out t ps \<and> (\<forall>b. b \<notin> user_bytes \<longrightarrow> mem t b = mem s b)"

lemma screen_user: "screen_rng \<subseteq> user_bytes"
proof -
  have "screen_rng \<subseteq> rng VIDEO 0x1000" unfolding screen_rng_def by (rule rng_mono) simp
  then show ?thesis by (auto simp: user_bytes_def)
qed

lemma runs_pids: "runs s ps \<Longrightarrow> list_all pid_ok ps"
  by (auto simp: runs_def list_all_iff)

lemma wrote_stays:
  assumes "laid_out s ps" "runs t ps" "wrote A s t" "A \<subseteq> user_bytes"
  shows "stays s t ps"
proof -
  have "laid_out t ps" by (rule wrote_user_laid_out [OF assms(1,3) _ runs_pids [OF assms(2)]]) (use assms(4) in blast)
  then show ?thesis using assms by (auto simp: stays_def wrote_def)
qed

lemma sys_open_returns:
  assumes "user_string s fname \<or> fname = 0"
  shows "sys_open fname s \<noteq> None"
proof (cases "fname = 0")
  case True
  then show ?thesis by (simp add: sys_open_def read_dentry_by_name_def)
next
  case False
  with assms obtain xs where "cstr (mem s) fname xs" by (auto simp: user_string_def Let_def dest: upto_nul_short)
  then have c: "strlen (mem s) fname = Some (of_nat (length xs))" by (rule strlen_cstr)
  have "\<exists>n. strlen (mem t) fname = Some n" if "file_open fname s = Some (r, t)" for r t
  proof -
    have "mem t = mem s" using that by (rule file_open_outcomes) (simp_all add: set_files_def)
    with c show ?thesis by simp
  qed
  moreover have "file_open fname t \<noteq> None" if "strlen (mem t) fname = Some n" for n and t :: "'a kernel_scheme"
    using that by (auto simp: file_open_def Let_def split_beta split: option.split)
  ultimately have o: "file_open fname s \<noteq> None" "\<And>r t. file_open fname s = Some (r, t) \<Longrightarrow> file_open fname t \<noteq> None"
    using c by blast+
  then obtain r t where "file_open fname s = Some (r, t)" by auto
  with o(2) [OF this] show ?thesis by (auto simp: sys_open_def directory_open_def split: option.split)
qed

lemma stays_open:
  assumes "runs s (p # ps)" "laid_out s (p # ps)" "user_string s fname \<or> fname = 0"
  shows "\<exists>r t. sys_open fname s = Some (r, t) \<and> stays s t (p # ps)"
proof -
  obtain r t where o: "sys_open fname s = Some (r, t)" using sys_open_returns [OF assms(3)] by auto
  have "wrote {} s t" using assms(2) by (intro sys_open_wrote [OF o]) (simp add: laid_out_def)
  then have "stays s t (p # ps)" by (rule wrote_stays [OF assms(2) sys_open_keeps [OF assms(1) o]]) simp
  with o show ?thesis by blast
qed

lemma stays_read:
  assumes "runs s (p # ps)" "laid_out s (p # ps)" "read_ok fd buf n s" "sys_read fd buf n s = Some (r, t)"
  shows "stays s t (p # ps)"
proof -
  have "wrote ({b. in_window b} \<union> screen_rng) s t"
    using assms(2,3) by (intro sys_read_wrote [OF assms(4)]) (auto simp: laid_out_def read_ok_def Let_def)
  then show ?thesis
    by (rule wrote_stays [OF assms(2) sys_read_keeps [OF assms(1,4)]]) (use screen_user in \<open>auto simp: user_bytes_def\<close>)
qed

lemma open_ops:
  assumes "runs s (p # ps)" "unat fd < 8" "flags (cur_files s ! unat fd) \<noteq> FILE_AVAIL"
  shows "file_ops_table_ptr (cur_files s ! unat fd) \<noteq> NoOps"
proof -
  have fs: "files_ok (cur_files s)" by (rule runs_cur_files_ok [OF assms(1)])
  show ?thesis
  proof (cases "unat fd < 2")
    case True
    with fs show ?thesis by (simp add: files_ok_def)
  next
    case False
    with fs assms(2) have "slot_ok (cur_files s ! unat fd)" by (simp add: files_ok_def)
    with assms(3) show ?thesis by (auto simp: slot_ok_def)
  qed
qed

lemma fd_ranges: "fd_valid 0 fd \<longleftrightarrow> unat fd < 8" "fd_valid 2 fd \<longleftrightarrow> 2 \<le> unat fd \<and> unat fd < 8"
  by (simp_all add: fd_valid_iff)

lemma stays_write:
  assumes "runs s (p # ps)" "laid_out s (p # ps)"
  shows "\<exists>r t. sys_write fd buf n s = Some (r, t) \<and> stays s t (p # ps)"
proof -
  have "sys_write fd buf n s \<noteq> None"
    using open_ops [OF assms(1)] by (auto simp: sys_write_def fd_ranges split: ops_table.split)
  then obtain r t where o: "sys_write fd buf n s = Some (r, t)" by auto
  have "wrote screen_rng s t" using assms(2) by (intro sys_write_wrote [OF o]) (simp add: laid_out_def)
  then have "stays s t (p # ps)" by (rule wrote_stays [OF assms(2) sys_write_keeps [OF assms(1) o] _ screen_user])
  with o show ?thesis by blast
qed

lemma stays_close:
  assumes "runs s (p # ps)" "laid_out s (p # ps)"
  shows "\<exists>r t. sys_close fd s = Some (r, t) \<and> stays s t (p # ps)"
proof -
  have "sys_close fd s \<noteq> None"
    using open_ops [OF assms(1)] by (auto simp: sys_close_def fd_ranges split: ops_table.split)
  then obtain r t where o: "sys_close fd s = Some (r, t)" by auto
  have "wrote {} s t" using assms(2) by (intro sys_close_wrote [OF o]) (simp add: laid_out_def)
  then have "stays s t (p # ps)" by (rule wrote_stays [OF assms(2) sys_close_keeps [OF assms(1) o]]) simp
  with o show ?thesis by blast
qed

text \<open>Addresses below the process blocks and beside the screen.\<close>

lemma low_apart:
  assumes "unat a + k \<le> 0x7F0000" "0xB9000 \<le> unat a"
  shows "rng a k \<inter> (user_bytes \<union> arg_areas) = {}"
proof -
  have b: "0xB9000 \<le> unat b \<and> unat b < 0x7F0000" if "b \<in> rng a k" for b
    using that assms by (auto simp: rng_def unat_add_nat)
  have u: "b \<notin> user_bytes" if "0xB9000 \<le> unat b" "unat b < 0x7F0000" for b
  proof -
    have "\<not> in_window b" using that by (simp add: in_window_def USER_BASE_def word_le_nat_alt)
    moreover have "b \<notin> rng VIDEO 0x1000" using that by (auto simp: rng_def VIDEO_def unat_add_nat)
    ultimately show ?thesis by (simp add: user_bytes_def)
  qed
  have p: "0x7F0000 \<le> unat b" if n: "n < 6" "b \<in> arg_area (of_nat n)" for b and n :: nat
  proof -
    obtain j where j: "b = pcb_addr (of_nat n) + PCB_ARG + of_nat j" "j < 128" using n(2) by (auto simp: rng_def arg_area_def)
    have eq: "b = of_nat (0x800000 - (n + 2) * 0x2000 + 160 + j)"
      using n(1) by (simp add: j pcb_addr_def process_consts PCB_ARG_def of_nat_diff algebra_simps)
    have le: "0x800000 - (n + 2) * 0x2000 + 160 + j < 2 ^ 24" using j(2) by simp
    have "unat b = 0x800000 - (n + 2) * 0x2000 + 160 + j"
      unfolding eq using le by (simp only: unat_of_nat) (simp add: take_bit_nat_eq_self)
    then show ?thesis using n(1) by simp
  qed
  have "b \<notin> arg_areas" if "unat b < 0x7F0000" for b
  proof
    assume "b \<in> arg_areas"
    then obtain n :: nat where "n < 6" "b \<in> arg_area (of_nat n)" by (auto simp: arg_areas_def)
    with p that show False by (meson not_less)
  qed
  with b u show ?thesis by blast
qed

lemma kernel1_conv: "conv_rng kernel1 = rng 0x700000 64"
  by (simp add: conv_rng_def kernel1_def filesys.defs disk_def paging.defs bare_def keyboard.defs desk_def)

lemma kernel1_laid_out: "laid_out kernel1 [0]"
proof -
  note conv = kernel1_conv
  have "con_good kernel1"
    using desk_ready(1) [of "[]"] by (simp add: kernel1_def filesys.defs disk_def paging.defs bare_def keyboard.defs
      con_good_def con_ok_def cursor_ok_def con_view_def)
  moreover have "img_ok (mem kernel1) (fs_ptr kernel1)" using disk_img_ok by simp
  moreover have "holds_args kernel1 0"
  proof -
    have "pcb_addr 0 + PCB_ARG \<notin> rng 0x502000 (length prog_bytes)"
      by (simp add: mem_rng_iff prog_bytes_def pcb_addr_def process_consts PCB_ARG_def)
    then have "cstr (mem kernel1) (pcb_addr 0 + PCB_ARG) []"
      by (simp add: disk_mem_def Let_def pcb_addr_def process_consts PCB_ARG_def)
    then show ?thesis by (rule holds_argsI) simp
  qed
  moreover have "rng 0x500000 12288 \<inter> (user_bytes \<union> arg_areas) = {}" "rng 0x700000 64 \<inter> (user_bytes \<union> arg_areas) = {}"
    "rng 0x610000 32 \<inter> (user_bytes \<union> arg_areas) = {}" "rng 0x610100 128 \<inter> (user_bytes \<union> arg_areas) = {}"
    by (rule low_apart; simp)+
  moreover have "rng 0x500000 12288 \<inter> rng 0x700000 64 = {}" "rng 0x500000 12288 \<inter> rng 0x610000 32 = {}"
    "rng 0x500000 12288 \<inter> rng 0x610100 128 = {}" by (rule rng_disjointI; simp)+
  ultimately show ?thesis
    unfolding laid_out_def kernel1_fields disk_rng writable_def kernel_buffers_def conv by simp blast
qed


text \<open>What \<open>execute\<close> leaves of the layout.\<close>

lemma execute_stays:
  assumes rs: "runs s ps" and lay: "laid_out s ps" and safe: "exec_safe s command xs"
    and apart: "\<forall>p \<in> set ps. rng command (Suc (length xs)) \<inter> arg_area p = {}"
    and e: "execute command s = Some (out, t)"
  defines "A \<equiv> rng command (Suc (length xs)) \<union> user_bytes \<union> kernel_buffers s"
  shows "img_agree (mem s) (fs_ptr s) (mem t)"
    "out = Return v \<Longrightarrow> laid_out t ps \<and> wrote A s t"
    "out = Enter eip sp \<Longrightarrow> n = Min (free_pids s) \<Longrightarrow>
       laid_out t (of_nat n # ps) \<and> wrote (A \<union> arg_area (of_nat n)) s t"
proof -
  let ?R = "rng command (Suc (length xs))"
  have L: "img_rng (mem s) (fs_ptr s) \<inter> writable s = {}" "kernel_buffers s \<inter> arg_areas = {}"
    using lay by (auto simp: laid_out_def)
  have "img_rng (mem s) (fs_ptr s) \<inter> ?R = {}" using safe by (auto simp: exec_safe_def exec_layout_def Let_def)
  then have AI: "A \<inter> img_rng (mem s) (fs_ptr s) = {}" using L(1) by (auto simp: A_def writable_def)
  have Ap: "A \<inter> arg_area p = {}" if "p \<in> set ps" for p
  proof -
    have "arg_area p \<subseteq> arg_areas" using runs_pid_ok [OF rs that] by (rule arg_area_in)
    then show ?thesis using apart that L(2) args_not_user by (auto simp: A_def)
  qed
  have "img_agree (mem s) (fs_ptr s) (mem t) \<and> (out = Return v \<longrightarrow> laid_out t ps \<and> wrote A s t) \<and>
    (out = Enter eip sp \<longrightarrow> n = Min (free_pids s) \<longrightarrow> laid_out t (of_nat n # ps) \<and> wrote (A \<union> arg_area (of_nat n)) s t)"
  proof (rule execute_wrote [OF lay safe e])
    fix r assume o: "out = Return r" and "wrote (rng command (Suc (length xs)) \<union> user_bytes \<union> kernel_buffers s) s t"
    then have w: "wrote A s t" by (simp add: A_def)
    with o wrote_laid_out [OF lay w AI Ap] show ?thesis by simp
  next
    fix eip' k assume o: "out = Enter eip' 0x83FFFFC" and k: "k \<in> free_pids s" "k = Min (free_pids s)"
      and "wrote (rng command (Suc (length xs)) \<union> user_bytes \<union> kernel_buffers s \<union> arg_area (of_nat k)) s t"
      and args: "holds_args t (of_nat k)"
    then have w: "wrote (A \<union> arg_area (of_nat k)) s t" by (simp add: A_def)
    have pk: "pid_ok (of_nat k)" using k(1) by (simp add: free_pids_def)
    have "(A \<union> arg_area (of_nat k)) \<inter> img_rng (mem s) (fs_ptr s) = {}"
      using AI L(1) arg_area_in [OF pk] by (auto simp: writable_def)
    moreover have "(A \<union> arg_area (of_nat k)) \<inter> arg_area p = {}" if "p \<in> set ps" for p
    proof -
      have "of_nat k \<noteq> p" using runs_free [OF rs k(1)] that by auto
      then show ?thesis using Ap [OF that] arg_area_apart [OF pk runs_pid_ok [OF rs that]] by blast
    qed
    ultimately have l: "laid_out t ps" "img_agree (mem s) (fs_ptr s) (mem t)" using wrote_laid_out [OF lay w] by blast+
    then have "laid_out t (of_nat k # ps)" using args by (simp add: laid_out_def)
    with o w l(2) k(2) show ?thesis by simp
  qed
  then show "img_agree (mem s) (fs_ptr s) (mem t)" "out = Return v \<Longrightarrow> laid_out t ps \<and> wrote A s t"
    "out = Enter eip sp \<Longrightarrow> n = Min (free_pids s) \<Longrightarrow> laid_out t (of_nat n # ps) \<and> wrote (A \<union> arg_area (of_nat n)) s t"
    by blast+
qed

lemma execute_effect:
  assumes "runs s ps" "execute command s = Some (out, t)"
  shows "case out of
      Return r \<Rightarrow> r \<in> {minus_one, 256} \<and> runs t ps
    | Enter eip sp \<Rightarrow> sp = 0x83FFFFC \<and> (\<exists>n \<in> free_pids s. n = Min (free_pids s) \<and>
        curr_process t = of_nat n \<and> runs (t\<lparr>esp := kernel_stack (of_nat n)\<rparr>) (of_nat n # ps))
    | Resume eip eax \<Rightarrow> False"
proof (cases out)
  case (Return r)
  have "r \<in> {minus_one, 256}"
    by (rule execute_outcomes [OF assms(2)]) (use Return exec_enter_fields(1) in auto)
  with Return show ?thesis using execute_returns_keeps assms by simp
next
  case (Enter eip sp)
  have "sp = 0x83FFFFC"
    by (rule execute_outcomes [OF assms(2)]) (use Enter exec_enter_fields(1) in auto)
  moreover have "\<exists>n \<in> free_pids s. n = Min (free_pids s) \<and> runs (t\<lparr>esp := kernel_stack (of_nat n)\<rparr>) (of_nat n # ps)"
    using execute_pushes assms Enter by blast
  ultimately show ?thesis using Enter by (auto simp: runs_def top_pid_def)
next
  case (Resume eip eax)
  show ?thesis
    by (rule execute_outcomes [OF assms(2)]) (use Resume exec_enter_fields(1) in auto)
qed

section \<open>The properties\<close>

text \<open>C18. \<open>execute\<close> on a command whose arguments and file have room, in a kernel laid out as it should be:
  when it comes back, the running programs are as they were and the value is -1 or 256; when it enters a
  program, exactly that program is on top of them, in the lowest free slot, with arguments in its block.
  Either way the image of the file system and the arguments of the programs that wait are unchanged, and
  the only bytes written are those of the command line, the program window, the screen, the kernel's own
  arrays and the arguments of the new block: no other block, stack or table can be hit.\<close>

theorem execute_keeps_programs:
  assumes "runs s ps" "laid_out s ps" "exec_safe s command xs" "rng command (Suc (length xs)) \<inter> arg_areas = {}"
    and "execute command s = Some (out, t)"
  shows "(case out of
      Return r \<Rightarrow> r \<in> {minus_one, 256} \<and> runs t ps \<and> laid_out t ps \<and>
        (\<forall>b. b \<notin> rng command (Suc (length xs)) \<union> user_bytes \<union> kernel_buffers s \<longrightarrow> mem t b = mem s b)
    | Enter eip sp \<Rightarrow> sp = 0x83FFFFC \<and> (\<exists>n \<in> free_pids s. n = Min (free_pids s) \<and>
        curr_process t = of_nat n \<and> runs (t\<lparr>esp := kernel_stack (of_nat n)\<rparr>) (of_nat n # ps) \<and> laid_out t (of_nat n # ps) \<and>
        (\<forall>b. b \<notin> rng command (Suc (length xs)) \<union> user_bytes \<union> kernel_buffers s \<union> arg_area (of_nat n) \<longrightarrow>
           mem t b = mem s b))
    | Resume eip eax \<Rightarrow> False) \<and> img_agree (mem s) (fs_ptr s) (mem t)"
proof -
  have "\<forall>p \<in> set ps. rng command (Suc (length xs)) \<inter> arg_area p = {}"
    using assms(4) arg_area_in [OF runs_pid_ok [OF assms(1)]] by blast
  note stays = execute_stays [OF assms(1-3) this assms(5)]
  show ?thesis
    using execute_effect [OF assms(1,5)] stays(1) stays(2,3) unfolding wrote_def by (cases out) auto
qed

theorem execute_keeps_programs_witness:
  "\<exists>eip sp t. execute 0x600020 kernel1 = Some (Enter eip sp, t) \<and> sp = 0x83FFFFC \<and> curr_process t = 1 \<and>
     laid_out t [1, 0] \<and> mem t 0x7FC000 = mem kernel1 0x7FC000"
proof -
  obtain t where t: "execute 0x600020 kernel1 = Some (Enter (load32 (mem t) (PROGRAM_IMAGE + 24)) 0x83FFFFC, t)"
    by (rule execute_ready [OF kernel1_ready])
  have m: "Min {1, 2, 3, 4, 5 :: nat} = 1" by simp
  have n: "Suc (length (lit ''prog  hi you'')) = 13" by simp
  have "rng 0x600020 13 \<inter> (user_bytes \<union> arg_areas) = {}" by (rule low_apart) simp_all
  then have "rng 0x600020 (Suc (length (lit ''prog  hi you''))) \<inter> arg_areas = {}" unfolding n by blast
  from execute_keeps_programs [OF kernel1_runs kernel1_laid_out exec_ready_safe [OF kernel1_ready] this t]
  have k: "curr_process t = 1" "laid_out t [1, 0]" "\<forall>b. b \<notin> rng 0x600020 13 \<union> user_bytes \<union> kernel_buffers kernel1 \<union> arg_area 1
      \<longrightarrow> mem t b = mem kernel1 b"
    unfolding n by (auto simp: kernel1_free m)
  have "0x7FC000 \<notin> rng 0x600020 13 \<union> user_bytes \<union> kernel_buffers kernel1 \<union> arg_area 1"
    unfolding user_bytes_def kernel_buffers_def kernel1_conv kernel1_fields arg_area_def in_window_def
    by (simp add: mem_rng_iff VIDEO_def USER_BASE_def pcb_addr_def process_consts PCB_ARG_def)
  with k t show ?thesis by blast
qed

text \<open>C28. The calls on descriptors, with their pointers in the program window: they leave the running programs,
  their tables and the layout of the kernel as they should be, and write no byte but those of the window and the
  screen, so no block, stack or table of the kernel. \<open>open\<close>, \<open>close\<close> and \<open>write\<close> always come back; \<open>read\<close>
  may wait for ever. A descriptor that is out of range or not open gives -1 and changes nothing.\<close>

theorem descriptor_calls:
  assumes "runs s (p # ps)" "laid_out s (p # ps)"
  shows "(user_string s fname \<or> fname = 0 \<longrightarrow> (\<exists>r t. sys_open fname s = Some (r, t) \<and> stays s t (p # ps))) \<and>
    (read_ok fd buf n s \<longrightarrow> (case sys_read fd buf n s of None \<Rightarrow> True | Some (r, t) \<Rightarrow> stays s t (p # ps))) \<and>
    (write_ok fd buf n s \<longrightarrow> (\<exists>r t. sys_write fd buf n s = Some (r, t) \<and> stays s t (p # ps))) \<and>
    (\<exists>r t. sys_close fd s = Some (r, t) \<and> stays s t (p # ps)) \<and>
    (unat fd < 8 \<and> flags (cur_files s ! unat fd) \<noteq> FILE_AVAIL \<or>
       sys_read fd buf n s = Some (minus_one, s) \<and> sys_write fd buf n s = Some (minus_one, s) \<and>
       sys_close fd s = Some (minus_one, s))"
proof (intro conjI)
  show "user_string s fname \<or> fname = 0 \<longrightarrow> (\<exists>r t. sys_open fname s = Some (r, t) \<and> stays s t (p # ps))"
    using stays_open [OF assms] by blast
  show "read_ok fd buf n s \<longrightarrow> (case sys_read fd buf n s of None \<Rightarrow> True | Some (r, t) \<Rightarrow> stays s t (p # ps))"
    using stays_read [OF assms] by (auto split: option.split)
  show "write_ok fd buf n s \<longrightarrow> (\<exists>r t. sys_write fd buf n s = Some (r, t) \<and> stays s t (p # ps))"
    using stays_write [OF assms] by blast
  show "\<exists>r t. sys_close fd s = Some (r, t) \<and> stays s t (p # ps)" by (rule stays_close [OF assms])
  show "unat fd < 8 \<and> flags (cur_files s ! unat fd) \<noteq> FILE_AVAIL \<or>
       sys_read fd buf n s = Some (minus_one, s) \<and> sys_write fd buf n s = Some (minus_one, s) \<and>
       sys_close fd s = Some (minus_one, s)"
    by (auto simp: sys_read_def sys_write_def sys_close_def fd_ranges)
qed

theorem descriptor_calls_witness:
  "sys_close 5 kernel1 = Some (minus_one, kernel1) \<and>
   (\<exists>r t. sys_open 0x8000000 kernel1 = Some (r, t) \<and> laid_out t [0]) \<and>
   (\<exists>r t. sys_write 1 0x8000000 4 kernel1 = Some (r, t) \<and> mem t 0x7FC000 = mem kernel1 0x7FC000) \<and>
   (\<exists>r t. sys_read 5 0x8000000 4 kernel1 = Some (r, t) \<and> runs t [0])"
proof -
  have files: "cur_files kernel1 = init_file_array blank_slot"
    using runs_cur_pcb [OF kernel1_runs] by (simp add: cur_files_def cur_pcb_def fresh_pcb_def)
  then have f5: "flags (cur_files kernel1 ! unat (5 :: u32)) = FILE_AVAIL" by (simp add: init_files_nth blank_flags)
  have "cstr (mem kernel1) 0x8000000 []" by (simp add: disk_at)
  from upto_nul_cstr [OF this, of 1024] have "user_string kernel1 0x8000000"
    by (simp add: user_string_def user_range_def USER_BASE_def USER_SIZE_def)
  then have o: "\<exists>r t. sys_open 0x8000000 kernel1 = Some (r, t) \<and> stays kernel1 t [0]"
    using descriptor_calls [OF kernel1_runs kernel1_laid_out] by blast
  have "write_ok 1 0x8000000 4 kernel1"
    by (simp add: write_ok_def Let_def files init_files_nth user_range_def USER_BASE_def USER_SIZE_def)
  then have w: "\<exists>r t. sys_write 1 0x8000000 4 kernel1 = Some (r, t) \<and> stays kernel1 t [0]"
    using descriptor_calls [OF kernel1_runs kernel1_laid_out] by blast
  have c: "sys_close 5 kernel1 = Some (minus_one, kernel1)" "sys_read 5 0x8000000 4 kernel1 = Some (minus_one, kernel1)"
    using descriptor_calls [OF kernel1_runs kernel1_laid_out, of 0 5 "0x8000000" 4] f5 by blast+
  have "0x7FC000 \<notin> user_bytes"
    unfolding user_bytes_def in_window_def by (simp add: mem_rng_iff VIDEO_def USER_BASE_def)
  with o w c kernel1_runs show ?thesis unfolding stays_def by blast
qed

end
