(* ===== verification/Dispatch.thy ===== *)
theory Dispatch
  imports Confine
begin

text \<open>
  The way in and out of the kernel, \<^verbatim>\<open>student-distrib/interr.S\<close>: \<open>system_call_handler\<close> with the
  registers it saves on the kernel stack and its jump table, and the machine that programs and
  kernel make together as a step relation, with the stack of programs as its specification.
\<close>

section \<open>Registers and frames\<close>

text \<open>The registers of a program at its \<^verbatim>\<open>int $0x80\<close>.\<close>

record uregs =
  r_eax :: u32
  r_ebx :: u32
  r_ecx :: u32
  r_edx :: u32
  r_esi :: u32
  r_edi :: u32
  r_ebp :: u32
  r_ds :: u32
  r_es :: u32
  r_fs :: u32
  r_gs :: u32
  r_eip :: u32
  r_cs :: u32
  r_eflags :: u32
  r_esp :: u32
  r_ss :: u32

text \<open>The words on the kernel stack at the call through the jump table, the last one pushed first:
  the six arguments, the eleven saved words with the handler's own flags, and the five the
  processor pushed.\<close>

definition save_frame :: "u32 \<Rightarrow> uregs \<Rightarrow> u32 list" where
  "save_frame fl r =
     [r_ebx r, r_ecx r, r_edx r, r_esi r, r_edi r, r_ebp r] @
     [fl, r_ebp r, r_edi r, r_esi r, r_edx r, r_ecx r, r_ebx r, r_ds r, r_es r, r_fs r, r_gs r] @
     [r_eip r, r_cs r, r_eflags r, r_esp r, r_ss r]"

text \<open>\<^verbatim>\<open>restore\<close>: the arguments are dropped, the words popped in the reverse order, and \<^verbatim>\<open>IRET\<close>
  takes the rest. The result of the call is in \<^verbatim>\<open>eax\<close>.\<close>

definition restore_frame :: "u32 \<Rightarrow> u32 list \<Rightarrow> uregs option" where
  "restore_frame eax stk =
     (case drop 6 stk of
        [_, bp, di, si, dx, cx, bx, ds, es, fs, gs, eip, cs, fl, sp, ss] \<Rightarrow>
          Some \<lparr>r_eax = eax, r_ebx = bx, r_ecx = cx, r_edx = dx, r_esi = si, r_edi = di, r_ebp = bp,
                r_ds = ds, r_es = es, r_fs = fs, r_gs = gs, r_eip = eip, r_cs = cs, r_eflags = fl,
                r_esp = sp, r_ss = ss\<rparr>
      | _ \<Rightarrow> None)"

section \<open>The handler\<close>

datatype syscall =
  Halt | Execute | Read | Write | Open | Close | Getargs | Vidmap | SetHandler | Sigreturn

definition system_call_jump_table :: "syscall option list" where
  "system_call_jump_table = [None, Some Halt, Some Execute, Some Read, Some Write, Some Open, Some Close,
     Some Getargs, Some Vidmap, Some SetHandler, Some Sigreturn]"

definition returning :: "(u32 \<times> 'a kernel_scheme) option \<Rightarrow> (outcome \<times> 'a kernel_scheme) option" where
  "returning res = map_option (\<lambda>(v, s). (Return v, s)) res"

fun run_syscall ::
  "syscall \<Rightarrow> u32 \<Rightarrow> u32 \<Rightarrow> u32 \<Rightarrow> 'a kernel_scheme \<Rightarrow> (outcome \<times> 'a kernel_scheme) option" where
  "run_syscall Halt a b c s = Some (halt (ucast a) s)"
| "run_syscall Execute a b c s = execute a s"
| "run_syscall Read a b c s = returning (sys_read a b c s)"
| "run_syscall Write a b c s = returning (sys_write a b c s)"
| "run_syscall Open a b c s = returning (sys_open a s)"
| "run_syscall Close a b c s = returning (sys_close a s)"
| "run_syscall Getargs a b c s = returning (getargs a b s)"
| "run_syscall Vidmap a b c s = returning (Some (vidmap a s))"
| "run_syscall SetHandler a b c s = returning (set_handler a b s)"
| "run_syscall Sigreturn a b c s = returning (sigreturn s)"

text \<open>The gate of vector 0x80 is an interrupt gate: the flag is cleared, the stack is that of the
  task state segment, below the processor's five words.\<close>

definition trap :: "'a kernel_scheme \<Rightarrow> 'a kernel_scheme" where
  "trap s = s\<lparr>esp := tss_esp0 s - 20, eflags := eflags s AND NOT IF_FLAG\<rparr>"

text \<open>The handler up to the return of the call: the outcome, and the stack below it.\<close>

definition system_call_handler ::
  "uregs \<Rightarrow> 'a kernel_scheme \<Rightarrow> (outcome \<times> u32 list \<times> 'a kernel_scheme) option" where
  "system_call_handler r s =
     (let stk = save_frame (eflags s) r;
          s = s\<lparr>esp := esp s - 44\<rparr>;
          s = s\<lparr>esp := esp s - 24\<rparr>
      in if r_eax r <s 1 then Some (Return minus_one, stk, s)
         else if 10 <s r_eax r then Some (Return minus_one, stk, s)
         else case system_call_jump_table ! unat (r_eax r) of
           None \<Rightarrow> None
         | Some call \<Rightarrow> do {
             (out, s) \<leftarrow> run_syscall call (stk ! 0) (stk ! 1) (stk ! 2) (s\<lparr>esp := esp s - 4\<rparr>);
             Some (out, stk, s) })"

section \<open>The machine\<close>

text \<open>
  A program runs with its registers, or the loop of \<^verbatim>\<open>entry\<close> does. \<open>kstk\<close> is the content of
  the kernel stacks below the call of a suspended \<open>execute\<close>, by the top of the stack.
\<close>

datatype mode = Boot | User uregs

type_synonym 'a config = "'a kernel_scheme \<times> (u32 \<Rightarrow> u32 list) \<times> mode"

text \<open>The end of a system call. After a \<^const>\<open>Resume\<close> the stack pointer tells where \<open>execute\<close>
  returns to: into the loop of \<^verbatim>\<open>entry\<close>, or through the handler into a program. A program that is
  entered finds its registers as the kernel left them.\<close>

inductive leave :: "outcome \<Rightarrow> 'a kernel_scheme \<Rightarrow> (u32 \<Rightarrow> u32 list) \<Rightarrow> 'a config \<Rightarrow> bool" where
  leave_return: "restore_frame v (kstk (tss_esp0 s)) = Some r \<Longrightarrow>
    leave (Return v) s kstk (s\<lparr>eflags := r_eflags r\<rparr>, kstk, User r)"
| leave_enter: "r_eip r = eip \<Longrightarrow> r_esp r = sp \<Longrightarrow> leave (Enter eip sp) s kstk (s, kstk, User r)"
| leave_boot: "esp s AND NOT PCB_MASK = BOOT_STACK \<Longrightarrow> leave (Resume eip v) s kstk (s, kstk, Boot)"
| leave_resume: "esp s AND NOT PCB_MASK \<noteq> BOOT_STACK \<Longrightarrow> restore_frame v (kstk (tss_esp0 s)) = Some r \<Longrightarrow>
    leave (Resume eip v) s kstk (s\<lparr>eflags := r_eflags r\<rparr>, kstk, User r)"

inductive_cases leave_returnE: "leave (Return v) s kstk c"
inductive_cases leave_enterE: "leave (Enter eip sp) s kstk c"
inductive_cases leave_resumeE: "leave (Resume eip v) s kstk c"

text \<open>What a program can write by itself: its window, and the screen when it has been mapped.\<close>

definition user_writes :: "(u32 \<Rightarrow> u8) \<Rightarrow> (u32 \<Rightarrow> u8) \<Rightarrow> bool" where
  "user_writes m m' \<longleftrightarrow> (\<forall>b. \<not> in_window b \<longrightarrow> b \<notin> rng VIDEO 0x1000 \<longrightarrow> m' b = m b)"

text \<open>The calls whose pointers lead into the program window and whose command \<open>execute\<close> has room for. The
  kernel checks none of this: with another pointer a call reads and writes the kernel's own memory,
  its blocks, stacks and page tables included.\<close>

fun pointers_ok :: "syscall \<Rightarrow> u32 \<Rightarrow> u32 \<Rightarrow> u32 \<Rightarrow> 'a kernel_scheme \<Rightarrow> bool" where
  "pointers_ok Execute a b c s \<longleftrightarrow> user_string s a \<and> exec_safe s a (upto_nul (bytes_at (mem s) a 1024))"
| "pointers_ok Read a b c s \<longleftrightarrow> read_ok a b c s"
| "pointers_ok Write a b c s \<longleftrightarrow> write_ok a b c s"
| "pointers_ok Open a b c s \<longleftrightarrow> user_string s a \<or> a = 0"
| "pointers_ok Getargs a b c s \<longleftrightarrow> a = 0 \<or> user_range a 128"
| "pointers_ok Halt a b c s \<longleftrightarrow> True"
| "pointers_ok Close a b c s \<longleftrightarrow> True"
| "pointers_ok Vidmap a b c s \<longleftrightarrow> True"
| "pointers_ok SetHandler a b c s \<longleftrightarrow> True"
| "pointers_ok Sigreturn a b c s \<longleftrightarrow> True"

definition call_ok :: "uregs \<Rightarrow> 'a kernel_scheme \<Rightarrow> bool" where
  "call_ok r s \<longleftrightarrow>
     (1 \<le> unat (r_eax r) \<and> unat (r_eax r) \<le> 10 \<longrightarrow>
      pointers_ok (the (system_call_jump_table ! unat (r_eax r))) (r_ebx r) (r_ecx r) (r_edx r) (s\<lparr>esp := esp s - 72\<rparr>))"

text \<open>One step: the loop of \<^verbatim>\<open>entry\<close> starts its program, a program computes, an interrupt of the
  keyboard or the clock is served, a program makes a system call. After a call with another
  pointer, or a start with a command \<open>execute\<close> has no room for, the machine may be in any state: such
  a step is \<open>Wild\<close>.\<close>

datatype event = Start | Compute | Interrupt | Syscall | Wild

inductive step :: "u32 \<Rightarrow> event \<Rightarrow> 'a config \<Rightarrow> 'a config \<Rightarrow> bool" for shell where
  step_boot: "exec_safe s shell xs \<Longrightarrow> execute shell s = Some (Enter eip sp, t) \<Longrightarrow> leave (Enter eip sp) t kstk c \<Longrightarrow>
    step shell Start (s, kstk, Boot) c"
| step_boot_again: "exec_safe s shell xs \<Longrightarrow> execute shell s = Some (Return v, t) \<Longrightarrow> step shell Start (s, kstk, Boot) (t, kstk, Boot)"
| step_user: "user_writes (mem s) m \<Longrightarrow> step shell Compute (s, kstk, User r) (s\<lparr>mem := m\<rparr>, kstk, User r')"
| step_key: "interrupts_on s \<Longrightarrow> step shell Interrupt (s, kstk, User r) (key_handler s, kstk, User r)"
| step_clock: "interrupts_on s \<Longrightarrow> step shell Interrupt (s, kstk, User r) (rtc_handler s, kstk, User r)"
| step_syscall: "call_ok r (trap s) \<Longrightarrow> system_call_handler r (trap s) = Some (out, stk, t) \<Longrightarrow>
    leave out t (kstk(tss_esp0 s := stk)) c \<Longrightarrow> step shell Syscall (s, kstk, User r) c"
| step_wild_call: "\<not> call_ok r (trap s) \<Longrightarrow> step shell Wild (s, kstk, User r) c"
| step_wild_start: "\<nexists>xs. exec_safe s shell xs \<Longrightarrow> step shell Wild (s, kstk, Boot) c"

inductive_cases step_startE: "step shell Start c d"
inductive_cases step_computeE: "step shell Compute c d"
inductive_cases step_interruptE: "step shell Interrupt c d"
inductive_cases step_syscallE: "step shell Syscall c d"

inductive_simps step_compute_simp: "step shell Compute (s, kstk, User r) (t, kstk', User r')"

text \<open>What is reached without a wild step.\<close>

inductive reachable :: "u32 \<Rightarrow> 'a config \<Rightarrow> 'a config \<Rightarrow> bool" for shell c where
  reach_refl: "reachable shell c c"
| reach_step: "reachable shell c d \<Longrightarrow> step shell ev d e \<Longrightarrow> ev \<noteq> Wild \<Longrightarrow> reachable shell c e"

section \<open>A program's registers survive its system calls\<close>

lemma restore_save [simp]: "restore_frame v (save_frame fl r) = Some (r\<lparr>r_eax := v\<rparr>)"
  by (simp add: restore_frame_def save_frame_def)

lemma syscall_number:
  "(n :: u32) <s 1 \<or> 10 <s n \<longleftrightarrow> \<not> (1 \<le> unat n \<and> unat n \<le> 10)"
proof (cases "unat n < 2 ^ 31")
  case True
  then have n: "sint n = int (unat n)" by (rule sint_unat)
  have "sint (1 :: u32) = 1" "sint (10 :: u32) = 10" by simp_all
  then show ?thesis unfolding word_sless_alt n by linarith
next
  case False
  then have "n <s 0" by (simp add: sless_0_iff)
  then have "sint n < 0" by (simp add: word_sless_alt)
  with False show ?thesis by (simp add: word_sless_alt)
qed

lemma handler_eq:
  "system_call_handler r s =
    (if 1 \<le> unat (r_eax r) \<and> unat (r_eax r) \<le> 10 then do {
       (out, t) \<leftarrow> run_syscall (the (system_call_jump_table ! unat (r_eax r))) (r_ebx r) (r_ecx r) (r_edx r)
         (s\<lparr>esp := esp s - 72\<rparr>);
       Some (out, save_frame (eflags s) r, t) }
     else Some (Return minus_one, save_frame (eflags s) r, s\<lparr>esp := esp s - 68\<rparr>))"
proof (cases "1 \<le> unat (r_eax r) \<and> unat (r_eax r) \<le> 10")
  case True
  then have "unat (r_eax r) \<in> {1, 2, 3, 4, 5, 6, 7, 8, 9, 10}"
    unfolding insert_iff empty_iff by presburger
  then obtain call where c: "system_call_jump_table ! unat (r_eax r) = Some call"
    by (auto simp: system_call_jump_table_def)
  have n: "\<not> r_eax r <s 1" "\<not> 10 <s r_eax r" using True syscall_number [of "r_eax r"] by blast+
  have st: "save_frame fl r ! 0 = r_ebx r" "save_frame fl r ! 1 = r_ecx r" "save_frame fl r ! 2 = r_edx r" for fl
    by (simp_all add: save_frame_def)
  show ?thesis using True n by (simp add: system_call_handler_def Let_def c st del: One_nat_def)
next
  case False
  then have "r_eax r <s 1 \<or> 10 <s r_eax r" using syscall_number by blast
  with False show ?thesis by (auto simp: system_call_handler_def Let_def)
qed

section \<open>The stack of programs\<close>

text \<open>Where the stack pointer may point.\<close>

lemma runs_esp: "runs s ps \<Longrightarrow> in_kstack ps a \<Longrightarrow> runs (s\<lparr>esp := a\<rparr>) ps"
  by (simp add: runs_def dir_ok_def blank_ok_def user_pde_def)

lemma in_own_stack:
  assumes "pid_ok p" "off \<le> 0x1FFC"
  shows "in_kstack (p # ps) (kernel_stack p - off)"
proof -
  have "kernel_stack p - off = pcb_addr p + (0x1FFC - off)"
    by (simp add: kernel_stack_def pcb_addr_def process_consts algebra_simps)
  moreover have "0x1FFC - off < 0x2000" using assms(2) by (simp add: word_le_nat_alt word_less_nat_alt unat_sub)
  ultimately show ?thesis using pcb_mask [OF assms(1)] by (simp only: in_kstack_def stack_page_def list.case)
qed

lemma runs_flags [simp]: "runs (s\<lparr>eflags := fl\<rparr>) ps = runs s ps"
  by (rule runs_cong) simp

lemma getargs_keeps: "runs s ps \<Longrightarrow> getargs buf n s = Some (r, t) \<Longrightarrow> runs t ps"
  by (auto simp: getargs_def Let_def bind_eq_Some_conv split: if_splits)

lemma vidmap_keeps: "runs s (p # ps) \<Longrightarrow> runs (snd (vidmap ptr s)) (p # ps)"
proof (cases "ptr = 0 \<or> ptr < PAGE_TOP \<or> ptr > PAGE_BOTTOM")
  case False
  assume r: "runs s (p # ps)"
  let ?t = "snd (vidmap ptr s)"
  have "paging.more ?t = paging.more s" using False by (simp add: vidmap_def Let_def)
  note k = paging_more_kernel [OF this]
  have "page_directory ?t = (page_directory s)[33 := video_pages_at s OR 7]" "tlb_pde ?t = user_pde s"
    using False by (simp_all add: vidmap_def Let_def PAGE_VIDMAP_def user_pde_def PDE_IDX_SHIFT_def USER_BASE_def)
  with r k show ?thesis by (simp add: runs_def dir_ok_def blank_ok_def user_pde_def)
qed (simp add: vidmap_def)

lemma printing_keeps:
  "set_handler a b s = Some (r, t) \<Longrightarrow> runs t ps = runs s ps" "sigreturn s = Some (r, t) \<Longrightarrow> runs t ps = runs s ps"
  by (auto simp: set_handler_def sigreturn_def bind_eq_Some_conv dest!: printf_more console_more_keyboard intro!: runs_cong)

section \<open>The specification: a stack of programs with their registers\<close>

type_synonym progs = "(u32 \<times> uregs) list"

text \<open>A program computes as it likes. A system call returns with its result in \<^verbatim>\<open>eax\<close> and every
  other register as it was; \<open>execute\<close> may instead put a new program on top, with its stack
  pointer at the end of the window, and \<open>halt\<close> goes back to the program below, which finds its
  registers as they were and the status in \<^verbatim>\<open>eax\<close>.\<close>

inductive astep :: "event \<Rightarrow> progs \<Rightarrow> progs \<Rightarrow> bool" where
  a_start: "pid_ok n \<Longrightarrow> r_esp r = 0x83FFFFC \<Longrightarrow> astep Start [] [(n, r)]"
| a_failed: "astep Start [] []"
| a_compute: "astep Compute ((p, r) # st) ((p, r') # st)"
| a_interrupt: "astep Interrupt st st"
| a_return: "astep Syscall ((p, r) # st) ((p, r\<lparr>r_eax := v\<rparr>) # st)"
| a_execute: "r_eax r = 2 \<Longrightarrow> pid_ok n \<Longrightarrow> n \<notin> fst ` set ((p, r) # st) \<Longrightarrow> r_esp r' = 0x83FFFFC \<Longrightarrow>
    astep Syscall ((p, r) # st) ((n, r') # (p, r) # st)"
| a_halt: "r_eax r = 1 \<Longrightarrow>
    astep Syscall ((p, r) # (q, rq) # st) ((q, rq\<lparr>r_eax := ucast (ucast (r_ebx r) :: u8)\<rparr>) # st)"
| a_last: "r_eax r = 1 \<Longrightarrow> astep Syscall [(p, r)] []"

text \<open>What a configuration stands for: the processes of the table, and the registers that wait in
  the frames on their kernel stacks.\<close>

fun shows_progs :: "'a config \<Rightarrow> progs \<Rightarrow> bool" where
  "shows_progs (s, kstk, Boot) st \<longleftrightarrow> st = [] \<and> runs s []"
| "shows_progs (s, kstk, User r) st \<longleftrightarrow>
     (\<exists>p rest. st = (p, r) # rest \<and> runs (s\<lparr>esp := tss_esp0 s\<rparr>) (p # map fst rest) \<and>
        (\<forall>(q, rq) \<in> set rest. \<exists>fl. kstk (kernel_stack q) = save_frame fl rq))"

section \<open>The kernel implements it\<close>

lemma run_syscall_outcome:
  assumes "runs u (p # ps)" "run_syscall call a b c u = Some (out, t)"
  obtains (ret) v where "out = Return v" "runs t (p # ps)"
  | (push) n eip where "call = Execute" "out = Enter eip 0x83FFFFC" "pid_ok n" "n \<notin> set (p # ps)"
      "runs (t\<lparr>esp := kernel_stack n\<rparr>) (n # p # ps)"
  | (pop) eip where "call = Halt" "out = Resume eip (ucast (ucast a :: u8))" "runs t ps"
proof (cases call)
  case Halt
  with assms(2) have h: "halt (ucast a) u = (out, t)" by simp
  show thesis by (rule pop [OF Halt halt_fields(1) [OF h] halt_pops [OF assms(1) h]])
next
  case Execute
  with assms(2) have e: "execute a u = Some (out, t)" by simp
  show thesis
  proof (cases out)
    case (Return v)
    with e execute_returns_keeps [OF assms(1)] show thesis by (intro ret) auto
  next
    case (Enter eip sp)
    with e have e': "execute a u = Some (Enter eip sp, t)" by simp
    obtain n where n: "n \<in> free_pids u" "runs (t\<lparr>esp := kernel_stack (of_nat n)\<rparr>) (of_nat n # p # ps)"
      using execute_pushes [OF assms(1) e'] by blast
    have "sp = 0x83FFFFC"
      by (rule execute_outcomes [OF e']) (use exec_enter_fields(1) in auto)
    moreover have "of_nat n \<notin> set (p # ps)" by (rule runs_free [OF assms(1) n(1)])
    moreover have "pid_ok (of_nat n)" using runs_pid_ok [OF n(2)] by simp
    ultimately show thesis using push [OF Execute] Enter n(2) by blast
  next
    case (Resume eip v)
    show thesis by (rule execute_outcomes [OF e]) (use Resume exec_enter_fields(1) in auto)
  qed
next
  case Vidmap
  obtain v w where v: "vidmap a u = (v, w)" by (cases "vidmap a u")
  with Vidmap assms(2) have "out = Return v" "t = w" by (simp_all add: returning_def)
  with v vidmap_keeps [OF assms(1), of a] show thesis by (intro ret) simp_all
qed (use assms in \<open>auto simp: returning_def intro!: ret
    dest: sys_read_keeps sys_write_keeps sys_open_keeps sys_close_keeps getargs_keeps printing_keeps\<close>)

text \<open>What every step keeps of a kernel laid out as it should be.\<close>

definition confined :: "'a kernel_scheme \<Rightarrow> 'a kernel_scheme \<Rightarrow> u32 list \<Rightarrow> bool" where
  "confined s t ps \<longleftrightarrow> laid_out t ps \<and> img_agree (mem s) (fs_ptr s) (mem t) \<and> wrote (writable s) s t"

lemma laid_out_fields [simp]:
  "laid_out (s\<lparr>esp := a\<rparr>) ps = laid_out s ps" "laid_out (s\<lparr>eflags := fl\<rparr>) ps = laid_out s ps"
  by (simp_all add: laid_out_def writable_def kernel_buffers_def conv_rng_def holds_args_def con_good_def con_ok_def
      cursor_ok_def con_view_def list_all_iff)

lemma confined_fields [simp]:
  "confined (s\<lparr>esp := a\<rparr>) t ps = confined s t ps" "confined s (t\<lparr>esp := a\<rparr>) ps = confined s t ps"
  "confined (s\<lparr>eflags := fl\<rparr>) t ps = confined s t ps" "confined s (t\<lparr>eflags := fl\<rparr>) ps = confined s t ps"
  by (simp_all add: confined_def wrote_def writable_def kernel_buffers_def conv_rng_def con_good_def con_ok_def
      cursor_ok_def con_view_def)

lemma confined_user:
  assumes "laid_out s ps" "wrote A s t" "A \<subseteq> user_bytes \<union> kernel_buffers s" "list_all pid_ok ps"
  shows "confined s t ps"
  using wrote_user_laid_out [OF assms] wrote_mono [OF assms(2), of "writable s"] assms(3)
  by (auto simp: confined_def writable_def)

lemma confined_refl: "laid_out s ps \<Longrightarrow> confined s s ps"
  by (simp add: confined_def img_agree_def wrote_refl laid_out_def)

lemma run_syscall_confined:
  assumes rs: "runs u (p # ps)" and lay: "laid_out u (p # ps)" and ok: "pointers_ok call a b c u"
    and run: "run_syscall call a b c u = Some (out, t)"
  shows "confined u t (case out of Return v \<Rightarrow> p # ps | Enter eip sp \<Rightarrow> curr_process t # p # ps | Resume eip v \<Rightarrow> ps)"
proof -
  have g: "con_good u" using lay by (simp add: laid_out_def)
  have pk: "list_all pid_ok (p # ps)" by (rule runs_pids [OF rs])
  have win: "{b. in_window b} \<subseteq> user_bytes \<union> kernel_buffers u" by (auto simp: user_bytes_def)
  have scr: "screen_rng \<subseteq> user_bytes \<union> kernel_buffers u" using screen_user by blast
  have ret: "confined u t (p # ps)" if "wrote A u t" "A \<subseteq> user_bytes \<union> kernel_buffers u" for A
    by (rule confined_user [OF lay that pk])
  have pr: "screen_rng \<union> conv_rng u \<subseteq> user_bytes \<union> kernel_buffers u" using scr by (auto simp: kernel_buffers_def)
  show ?thesis
  proof (cases call)
    case Halt
    with run have h: "halt (ucast a) u = (out, t)" by simp
    have "confined u t (p # ps)" by (rule ret [OF halt_wrote [OF h g] win])
    then have "confined u t ps" using laid_out_sub [of t "p # ps" ps] by (auto simp: confined_def)
    then show ?thesis by (simp add: halt_fields(1) [OF h])
  next
    case Execute
    let ?xs = "upto_nul (bytes_at (mem u) a 1024)"
    from Execute run have e: "execute a u = Some (out, t)" by simp
    have safe: "exec_safe u a ?xs" and win2: "rng a (Suc (length ?xs)) \<subseteq> {b. in_window b}"
      using ok Execute user_range_window by (auto simp: user_string_def Let_def)
    have "rng a (Suc (length ?xs)) \<inter> arg_area q = {}" if "q \<in> set (p # ps)" for q
      using win2 arg_area_in [OF runs_pid_ok [OF rs that]] args_not_user by (auto simp: user_bytes_def)
    then have "\<forall>q \<in> set (p # ps). rng a (Suc (length ?xs)) \<inter> arg_area q = {}" by blast
    note st = execute_stays [OF rs lay safe this e]
    have A: "rng a (Suc (length ?xs)) \<union> user_bytes \<union> kernel_buffers u \<subseteq> writable u"
      using win2 by (auto simp: writable_def user_bytes_def)
    show ?thesis
    proof (cases out)
      case (Return v)
      with st(1) st(2) [OF Return] A show ?thesis by (auto simp: confined_def intro: wrote_mono)
    next
      case (Enter eip sp)
      from execute_effect [OF rs e] Enter obtain n where n: "n \<in> free_pids u" "n = Min (free_pids u)" "curr_process t = of_nat n"
        by auto
      have "arg_area (of_nat n) \<subseteq> writable u"
        using arg_area_in [of "of_nat n"] n(1) by (auto simp: writable_def free_pids_def)
      with A st(1) st(3) [OF Enter n(2)] Enter n(3) show ?thesis by (auto simp: confined_def intro: wrote_mono)
    next
      case (Resume eip v)
      with execute_effect [OF rs e] show ?thesis by simp
    qed
  next
    case Read
    with run obtain v where r: "sys_read a b c u = Some (v, t)" "out = Return v" by (auto simp: returning_def)
    have "wrote ({b. in_window b} \<union> screen_rng) u t"
      using ok Read by (intro sys_read_wrote [OF r(1) g]) (auto simp: read_ok_def Let_def)
    then have "confined u t (p # ps)" by (rule ret) (use win scr in blast)
    then show ?thesis by (simp add: r(2))
  next
    case Write
    with run obtain v where r: "sys_write a b c u = Some (v, t)" "out = Return v" by (auto simp: returning_def)
    show ?thesis using ret [OF sys_write_wrote [OF r(1) g] scr] by (simp add: r(2))
  next
    case Open
    with run obtain v where r: "sys_open a u = Some (v, t)" "out = Return v" by (auto simp: returning_def)
    show ?thesis using ret [OF sys_open_wrote [OF r(1) g], of "{}"] by (simp add: r(2))
  next
    case Close
    with run obtain v where r: "sys_close a u = Some (v, t)" "out = Return v" by (auto simp: returning_def)
    show ?thesis using ret [OF sys_close_wrote [OF r(1) g], of "{}"] by (simp add: r(2))
  next
    case Getargs
    with run obtain v where r: "getargs a b u = Some (v, t)" "out = Return v" by (auto simp: returning_def)
    have "a = 0 \<or> user_range a 128" using ok Getargs by simp
    then show ?thesis using ret [OF getargs_wrote [OF r(1) rs lay] win] by (simp add: r(2))
  next
    case Vidmap
    with run obtain v where r: "vidmap a u = (v, t)" "out = Return v" by (auto simp: returning_def split: prod.splits)
    have "wrote {b. in_window b} u t" using vidmap_wrote [OF g, of a] r(1) by simp
    then show ?thesis using ret win by (simp add: r(2))
  next
    case SetHandler
    with run obtain v where r: "set_handler a b u = Some (v, t)" "out = Return v" by (auto simp: returning_def)
    show ?thesis using ret [OF printing_wrote(1) [OF g laid_out_layout [OF lay] r(1)] pr] by (simp add: r(2))
  next
    case Sigreturn
    with run obtain v where r: "sigreturn u = Some (v, t)" "out = Return v" by (auto simp: returning_def)
    show ?thesis using ret [OF printing_wrote(2) [OF g laid_out_layout [OF lay] r(1)] pr] by (simp add: r(2))
  qed
qed

lemma flags_esp: "(s\<lparr>esp := a\<rparr>)\<lparr>eflags := fl\<rparr> = (s\<lparr>eflags := fl\<rparr>)\<lparr>esp := a\<rparr>"
  by (cases s) simp

lemma trap_runs:
  assumes "runs (s\<lparr>esp := tss_esp0 s\<rparr>) (p # ps)" "off \<le> 0x1000"
  shows "runs ((trap s)\<lparr>esp := esp (trap s) - off\<rparr>) (p # ps)"
proof -
  have p: "pid_ok p" "tss_esp0 s = kernel_stack p" using assms(1) by (simp_all add: runs_def top_pid_def)
  have "20 + off \<le> 0x1FFC"
    using assms(2) by (simp add: word_le_nat_alt unat_word_ariths)
  from in_own_stack [OF p(1) this, of ps]
  have "runs ((s\<lparr>esp := tss_esp0 s\<rparr>)\<lparr>esp := kernel_stack p - (20 + off)\<rparr>) (p # ps)"
    by (rule runs_esp [OF assms(1)])
  then have "runs ((s\<lparr>esp := kernel_stack p - (20 + off)\<rparr>)\<lparr>eflags := eflags s AND NOT IF_FLAG\<rparr>) (p # ps)"
    by (simp only: runs_flags) simp
  moreover have "(trap s)\<lparr>esp := esp (trap s) - off\<rparr>
      = (s\<lparr>esp := kernel_stack p - (20 + off)\<rparr>)\<lparr>eflags := eflags s AND NOT IF_FLAG\<rparr>"
    unfolding flags_esp by (simp add: trap_def p(2) flags_esp [symmetric])
  ultimately show ?thesis by (simp only:)
qed

lemma shows_return:
  assumes "runs t (p # map fst rest)" "\<forall>(q, rq) \<in> set rest. \<exists>fl. kstk (kernel_stack q) = save_frame fl rq"
  shows "shows_progs (t\<lparr>eflags := fl\<rparr>, kstk, User r) ((p, r) # rest)"
proof -
  have p: "pid_ok p" "tss_esp0 t = kernel_stack p" using assms(1) by (simp_all add: runs_def top_pid_def)
  have "runs (t\<lparr>esp := kernel_stack p - 0\<rparr>) (p # map fst rest)"
    by (rule runs_esp [OF assms(1) in_own_stack [OF p(1)]]) simp
  then have "runs ((t\<lparr>esp := kernel_stack p\<rparr>)\<lparr>eflags := fl\<rparr>) (p # map fst rest)" by (simp only: runs_flags diff_zero)
  then have "runs ((t\<lparr>eflags := fl\<rparr>)\<lparr>esp := tss_esp0 (t\<lparr>eflags := fl\<rparr>)\<rparr>) (p # map fst rest)"
    unfolding flags_esp by (simp add: p(2))
  with assms(2) show ?thesis by simp
qed

lemma kernel_stack_inj: "pid_ok p \<Longrightarrow> pid_ok q \<Longrightarrow> kernel_stack p = kernel_stack q \<longleftrightarrow> p = q"
  using pid_ok_cases [of p] pid_ok_cases [of q] by (auto simp: kernel_stack_def process_consts)

lemma boot_stack_apart: "pid_ok p \<Longrightarrow> pcb_addr p \<noteq> BOOT_STACK"
  using pid_ok_cases [of p] by (auto simp: pcb_addr_def process_consts BOOT_STACK_def)

lemma simulate_syscall:
  assumes "step shell Syscall (s, kstk, User r) c" "shows_progs (s, kstk, User r) st"
  shows "\<exists>st'. astep Syscall st st' \<and> shows_progs c st' \<and> (laid_out s (map fst st) \<longrightarrow> confined s (fst c) (map fst st'))"
proof -
  obtain p rest where st: "st = (p, r) # rest" and rs: "runs (s\<lparr>esp := tss_esp0 s\<rparr>) (p # map fst rest)"
    and fr: "\<forall>(q, rq) \<in> set rest. \<exists>fl. kstk (kernel_stack q) = save_frame fl rq"
    using assms(2) by auto
  obtain out stk t where ptr: "call_ok r (trap s)" and h: "system_call_handler r (trap s) = Some (out, stk, t)"
    and l: "leave out t (kstk(tss_esp0 s := stk)) c"
    using assms(1) by (auto elim: step_syscallE)
  have pk: "pid_ok p" "tss_esp0 s = kernel_stack p" "p \<notin> set (map fst rest)" "list_all pid_ok (map fst rest)"
    using rs by (auto simp: runs_def top_pid_def list_all_iff)
  have stk: "\<exists>fl. stk = save_frame fl r"
    using h by (auto simp: handler_eq bind_eq_Some_conv split: if_splits)
  let ?k = "kstk(tss_esp0 s := stk)"
  have fr': "\<forall>(q, rq) \<in> set rest. \<exists>fl. ?k (kernel_stack q) = save_frame fl rq"
  proof (intro ballI, clarify)
    fix q rq assume q: "(q, rq) \<in> set rest"
    then have "q \<in> set (map fst rest)" by force
    then have "q \<noteq> p" "pid_ok q" using pk(3,4) unfolding list_all_iff by blast+
    then have "kernel_stack q \<noteq> tss_esp0 s" using pk(1,2) kernel_stack_inj by metis
    then show "\<exists>fl. ?k (kernel_stack q) = save_frame fl rq" using fr q by auto
  qed
  have answered: "astep Syscall st ((p, r\<lparr>r_eax := v\<rparr>) # rest)" for v unfolding st by (rule a_return)
  have lay: "laid_out ((trap s)\<lparr>esp := a\<rparr>) ps = laid_out s ps" "confined ((trap s)\<lparr>esp := a\<rparr>) v ps = confined s v ps"
    "confined s ((trap s)\<lparr>esp := a\<rparr>) ps = confined s s ps" for a v ps
    by (simp_all add: trap_def)
  have returned: "\<exists>st'. astep Syscall st st' \<and> shows_progs c st' \<and> (laid_out s (map fst st) \<longrightarrow> confined s (fst c) (map fst st'))"
    if "out = Return v" "runs t (p # map fst rest)" "laid_out s (map fst st) \<longrightarrow> confined s t (map fst st)" for v
  proof -
    have "tss_esp0 t = kernel_stack p" using that(2) by (simp add: runs_def top_pid_def)
    then have k: "?k (tss_esp0 t) = stk" using pk(2) by simp
    from l [unfolded that(1)] obtain r' where c: "restore_frame v (?k (tss_esp0 t)) = Some r'"
      "c = (t\<lparr>eflags := r_eflags r'\<rparr>, ?k, User r')" by (auto elim: leave_returnE)
    then have "r' = r\<lparr>r_eax := v\<rparr>" using stk k by auto
    moreover have "laid_out s (map fst st) \<longrightarrow> confined s (fst c) (p # map fst rest)" using that(3) c(2) st by simp
    ultimately show ?thesis
      using c(2) answered [of v] shows_return [OF that(2) fr', of "r_eflags r'" r']
      by (intro exI [of _ "(p, r\<lparr>r_eax := v\<rparr>) # rest"]) simp
  qed
  show ?thesis
  proof (cases "1 \<le> unat (r_eax r) \<and> unat (r_eax r) \<le> 10")
    case False
    with h have "out = Return minus_one" "t = (trap s)\<lparr>esp := esp (trap s) - 68\<rparr>" by (auto simp: handler_eq)
    moreover have "laid_out s (map fst st) \<longrightarrow> confined s ((trap s)\<lparr>esp := esp (trap s) - 68\<rparr>) (map fst st)"
      unfolding lay using confined_refl by blast
    ultimately show ?thesis using trap_runs [OF rs, of 68] returned by simp
  next
    case True
    let ?call = "the (system_call_jump_table ! unat (r_eax r))"
    let ?u = "(trap s)\<lparr>esp := esp (trap s) - 72\<rparr>"
    have call: "run_syscall ?call (r_ebx r) (r_ecx r) (r_edx r) ?u = Some (out, t)"
      using h True by (auto simp: handler_eq bind_eq_Some_conv)
    have nums: "unat (r_eax r) \<in> {1, 2, 3, 4, 5, 6, 7, 8, 9, 10}"
      using True unfolding insert_iff empty_iff by presburger
    have two: "?call = Execute \<Longrightarrow> r_eax r = 2" and one: "?call = Halt \<Longrightarrow> r_eax r = 1"
      using nums by (auto simp: system_call_jump_table_def word_unat_eq_iff)
    have ru: "runs ?u (p # map fst rest)" by (rule trap_runs [OF rs]) simp
    have po: "pointers_ok ?call (r_ebx r) (r_ecx r) (r_edx r) ?u" using ptr True by (simp add: call_ok_def)
    have conf: "laid_out s (map fst st) \<longrightarrow> confined s t (case out of Return v \<Rightarrow> map fst st
        | Enter eip sp \<Rightarrow> curr_process t # map fst st | Resume eip v \<Rightarrow> map fst rest)"
      using run_syscall_confined [OF ru _ po call] unfolding lay st by (cases out) simp_all
    show ?thesis
    proof (rule run_syscall_outcome [OF ru call])
      fix v assume "out = Return v" "runs t (p # map fst rest)"
      with conf show ?thesis by (intro returned) simp_all
    next
      fix n eip assume e: "?call = Execute" "out = Enter eip 0x83FFFFC" "pid_ok n" "n \<notin> set (p # map fst rest)"
        "runs (t\<lparr>esp := kernel_stack n\<rparr>) (n # p # map fst rest)"
      from l [unfolded e(2)] obtain r' where c: "c = (t, ?k, User r')" "r_esp r' = 0x83FFFFC"
        by (auto elim: leave_enterE)
      have "tss_esp0 t = kernel_stack n" using e(5) by (simp add: runs_def top_pid_def)
      moreover have "\<forall>(q, rq) \<in> set ((p, r) # rest). \<exists>fl. ?k (kernel_stack q) = save_frame fl rq"
        using fr' stk pk(2) by auto
      ultimately have "shows_progs c ((n, r') # (p, r) # rest)" using e(5) c(1) by simp
      moreover have "astep Syscall st ((n, r') # (p, r) # rest)"
        unfolding st using two [OF e(1)] e(3,4) c(2) by (intro a_execute) auto
      moreover have "curr_process t = n" using e(5) by (simp add: runs_def top_pid_def)
      then have "laid_out s (map fst st) \<longrightarrow> confined s (fst c) (map fst ((n, r') # (p, r) # rest))"
        using conf c(1) by (simp add: e(2) st)
      ultimately show ?thesis by blast
    next
      fix eip assume e: "?call = Halt" "out = Resume eip (ucast (ucast (r_ebx r) :: u8))" "runs t (map fst rest)"
      have esp: "in_kstack (map fst rest) (esp t)" using e(3) by (simp add: runs_def)
      show ?thesis
      proof (cases rest)
        case Nil
        then have "esp t AND NOT PCB_MASK = BOOT_STACK" using esp by (simp add: in_kstack_def stack_page_def)
        then have "c = (t, ?k, Boot)" using l [unfolded e(2)] by (auto elim: leave_resumeE)
        moreover have "astep Syscall st []" unfolding st Nil by (rule a_last [OF one [OF e(1)]])
        ultimately show ?thesis using e(3) Nil conf by (auto simp: e(2))
      next
        case (Cons x rest')
        obtain q rq where x: "x = (q, rq)" by (cases x)
        have q: "pid_ok q" using pk(4) Cons x by simp
        then have "esp t AND NOT PCB_MASK \<noteq> BOOT_STACK"
          using esp boot_stack_apart Cons x by (simp add: in_kstack_def stack_page_def)
        then obtain r' where c: "restore_frame (ucast (ucast (r_ebx r) :: u8)) (?k (tss_esp0 t)) = Some r'"
          "c = (t\<lparr>eflags := r_eflags r'\<rparr>, ?k, User r')"
          using l [unfolded e(2)] by (auto elim: leave_resumeE)
        have "tss_esp0 t = kernel_stack q" using e(3) Cons x by (simp add: runs_def top_pid_def)
        moreover obtain fl where "?k (kernel_stack q) = save_frame fl rq" using fr' Cons x by auto
        ultimately have r': "r' = rq\<lparr>r_eax := ucast (ucast (r_ebx r) :: u8)\<rparr>" using c(1) by simp
        have "shows_progs c ((q, r') # rest')"
          unfolding c(2) using e(3) fr' Cons x by (intro shows_return) simp_all
        moreover have "astep Syscall st ((q, r') # rest')"
          unfolding st Cons x r' by (rule a_halt [OF one [OF e(1)]])
        moreover have "laid_out s (map fst st) \<longrightarrow> confined s (fst c) (map fst ((q, r') # rest'))"
          using conf c(2) Cons x by (simp add: e(2))
        ultimately show ?thesis by blast
      qed
    qed
  qed
qed

lemma runs_esp_cong:
  assumes "keyboard.more (t :: 'a kernel_scheme) = keyboard.more s"
  shows "runs (t\<lparr>esp := tss_esp0 t\<rparr>) ps = runs (s\<lparr>esp := tss_esp0 s\<rparr>) ps"
proof (rule runs_cong)
  show "keyboard.more (t\<lparr>esp := tss_esp0 t\<rparr>) = keyboard.more (s\<lparr>esp := tss_esp0 s\<rparr>)"
    using assms by (cases t; cases s) simp
qed

text \<open>The bytes a step leaves alone: those of the command line as well, unless the loop of \<^verbatim>\<open>entry\<close>
  starts its program.\<close>

definition spares :: "u32 \<Rightarrow> event \<Rightarrow> 'a kernel_scheme \<Rightarrow> 'a kernel_scheme \<Rightarrow> bool" where
  "spares shell ev s t \<longleftrightarrow>
     (if ev = Start
      then \<exists>xs. cstr (mem s) shell xs \<and> (\<forall>b. b \<notin> writable s \<union> rng shell (Suc (length xs)) \<longrightarrow> mem t b = mem s b)
      else \<forall>b. b \<notin> writable s \<longrightarrow> mem t b = mem s b)"

definition kept :: "u32 \<Rightarrow> event \<Rightarrow> 'a kernel_scheme \<Rightarrow> 'a kernel_scheme \<Rightarrow> u32 list \<Rightarrow> bool" where
  "kept shell ev s t ps \<longleftrightarrow> laid_out t ps \<and> fs_ptr t = fs_ptr s \<and> img_agree (mem s) (fs_ptr s) (mem t) \<and> spares shell ev s t"

lemma confined_kept: "confined s t ps \<Longrightarrow> ev \<noteq> Start \<Longrightarrow> kept shell ev s t ps"
  by (simp add: confined_def kept_def spares_def wrote_def)

lemma start_kept:
  assumes "runs s []" "laid_out s []" "exec_safe s shell xs" "execute shell s = Some (out, t)"
  shows "kept shell Start s t (case out of Return v \<Rightarrow> [] | Enter eip sp \<Rightarrow> [curr_process t] | Resume eip v \<Rightarrow> [])"
proof -
  let ?R = "rng shell (Suc (length xs))"
  have "\<forall>p \<in> set []. ?R \<inter> arg_area p = {}" by simp
  note st = execute_stays [OF assms(1-3) this assms(4)]
  have cs: "cstr (mem s) shell xs" using assms(3) by (simp add: exec_safe_def)
  have kept: "kept shell Start s t ps" if "laid_out t ps" "wrote (writable s \<union> ?R) s t" for ps
    using that st(1) cs by (auto simp: kept_def spares_def wrote_def)
  show ?thesis
  proof (cases out)
    case (Return v)
    have "wrote (writable s \<union> ?R) s t" using st(2) [OF Return] by (auto simp: writable_def intro: wrote_mono)
    with kept st(2) [OF Return] Return show ?thesis by simp
  next
    case (Enter eip sp)
    from execute_effect [OF assms(1,4)] Enter obtain n where n: "n \<in> free_pids s" "n = Min (free_pids s)" "curr_process t = of_nat n"
      by auto
    have "arg_area (of_nat n) \<subseteq> arg_areas" using n(1) by (intro arg_area_in) (simp add: free_pids_def)
    then have "wrote (writable s \<union> ?R) s t" using st(3) [OF Enter n(2)] by (auto simp: writable_def intro: wrote_mono)
    with kept st(3) [OF Enter n(2)] Enter n(3) show ?thesis by simp
  next
    case (Resume eip v)
    with execute_effect [OF assms(1,4)] show ?thesis by simp
  qed
qed

lemma simulate_start:
  assumes "step shell Start c d" "shows_progs c st"
  shows "\<exists>st'. astep Start st st' \<and> shows_progs d st' \<and>
    (laid_out (fst c) (map fst st) \<longrightarrow> kept shell Start (fst c) (fst d) (map fst st'))"
  using assms(1)
proof (rule step_startE)
  fix s xs eip sp t and kstk :: "u32 \<Rightarrow> u32 list"
  assume c: "c = (s, kstk, Boot)" and safe: "exec_safe s shell xs" and e: "execute shell s = Some (Enter eip sp, t)" and l: "leave (Enter eip sp) t kstk d"
  have st: "st = []" and r: "runs s []" using assms(2) c by auto
  obtain n where n: "n \<in> free_pids s" "runs (t\<lparr>esp := kernel_stack (of_nat n)\<rparr>) [of_nat n]"
    using execute_pushes [OF r e] by blast
  have sp: "sp = 0x83FFFFC" by (rule execute_outcomes [OF e]) (use exec_enter_fields(1) in auto)
  obtain r' where d: "d = (t, kstk, User r')" "r_esp r' = sp" using l by (auto elim: leave_enterE)
  have "tss_esp0 t = kernel_stack (of_nat n)" using n(2) by (simp add: runs_def top_pid_def)
  then have "shows_progs d [(of_nat n, r')]" using n(2) d(1) by simp
  moreover have "astep Start st [(of_nat n, r')]"
    unfolding st using runs_pid_ok [OF n(2)] sp d(2) by (intro a_start) simp_all
  moreover have "curr_process t = of_nat n" using n(2) by (simp add: runs_def top_pid_def)
  then have "laid_out (fst c) (map fst st) \<longrightarrow> kept shell Start (fst c) (fst d) (map fst [(of_nat n, r')])"
    using start_kept [OF r _ safe e] c d(1) st by simp
  ultimately show ?thesis by blast
next
  fix s xs v t and kstk :: "u32 \<Rightarrow> u32 list"
  assume c: "c = (s, kstk, Boot)" and d: "d = (t, kstk, Boot)" and safe: "exec_safe s shell xs"
    and e: "execute shell s = Some (Return v, t)"
  have st: "st = []" and r: "runs s []" using assms(2) c by auto
  with execute_returns_keeps [OF _ e] d have "shows_progs d st" by simp
  moreover have "astep Start st st" using st by (simp add: a_failed)
  moreover have "laid_out (fst c) (map fst st) \<longrightarrow> kept shell Start (fst c) (fst d) (map fst st)"
    using start_kept [OF r _ safe e] c d st by simp
  ultimately show ?thesis by blast
qed

lemma simulate_step:
  assumes "step shell ev c d" "ev \<noteq> Wild" "shows_progs c st"
  shows "\<exists>st'. astep ev st st' \<and> shows_progs d st' \<and>
    (laid_out (fst c) (map fst st) \<longrightarrow> kept shell ev (fst c) (fst d) (map fst st'))"
proof (cases ev)
  case Start
  with assms simulate_start show ?thesis by blast
next
  case Compute
  with assms(1) obtain s kstk m r r' where c: "c = (s, kstk, User r)" "d = (s\<lparr>mem := m\<rparr>, kstk, User r')" "user_writes (mem s) m"
    by (auto elim: step_computeE)
  obtain p rest where st: "st = (p, r) # rest" and rs: "runs (s\<lparr>esp := tss_esp0 s\<rparr>) (map fst st)" using assms(3) c by auto
  have "keyboard.more (s\<lparr>mem := m\<rparr>) = keyboard.more s" by simp
  then have "shows_progs d ((p, r') # rest)" using assms(3) c st runs_esp_cong [of "s\<lparr>mem := m\<rparr>" s] by auto
  moreover have "astep ev st ((p, r') # rest)" unfolding st Compute by (rule a_compute)
  moreover have "laid_out s (map fst st) \<longrightarrow> confined s (s\<lparr>mem := m\<rparr>) (map fst st)"
  proof
    assume l: "laid_out s (map fst st)"
    have "wrote user_bytes s (s\<lparr>mem := m\<rparr>)"
      using l c(3) by (intro wrote_store) (auto simp: laid_out_def user_writes_def user_bytes_def)
    then show "confined s (s\<lparr>mem := m\<rparr>) (map fst st)" by (rule confined_user [OF l _ _ runs_pids [OF rs]]) simp
  qed
  then have "laid_out (fst c) (map fst st) \<longrightarrow> kept shell ev (fst c) (fst d) (map fst ((p, r') # rest))"
    using confined_kept [of s "s\<lparr>mem := m\<rparr>" "map fst st" ev] Compute c st by simp
  ultimately show ?thesis by blast
next
  case Interrupt
  with assms(1) obtain s kstk t r where c: "c = (s, kstk, User r)" "d = (t, kstk, User r)" "t = key_handler s \<or> t = rtc_handler s"
    by (auto elim: step_interruptE)
  have rs: "runs (s\<lparr>esp := tss_esp0 s\<rparr>) (map fst st)" using assms(3) c by auto
  have "keyboard.more t = keyboard.more s" using c(3) rtc_handler_more by auto
  then have "shows_progs d st" using assms(3) c(1,2) runs_esp_cong [of t s] by auto
  moreover have "astep ev st st" unfolding Interrupt by (rule a_interrupt)
  moreover have "laid_out s (map fst st) \<longrightarrow> confined s t (map fst st)"
  proof
    assume l: "laid_out s (map fst st)"
    then have g: "con_good s" by (simp add: laid_out_def)
    have "wrote {} s t" using c(3) wrote_idle [OF g idle_key_handler] rtc_handler_wrote [OF g] by blast
    then show "confined s t (map fst st)" by (rule confined_user [OF l _ _ runs_pids [OF rs]]) simp
  qed
  then have "laid_out (fst c) (map fst st) \<longrightarrow> kept shell ev (fst c) (fst d) (map fst st)"
    using confined_kept [of s t "map fst st" ev] Interrupt c by simp
  ultimately show ?thesis by blast
next
  case Syscall
  obtain s kstk r where c: "c = (s, kstk, User r)" using assms(1) Syscall by (auto elim: step_syscallE)
  obtain st' where st': "astep Syscall st st'" "shows_progs d st'" "laid_out s (map fst st) \<longrightarrow> confined s (fst d) (map fst st')"
    using simulate_syscall assms Syscall c by blast
  then have "laid_out (fst c) (map fst st) \<longrightarrow> kept shell ev (fst c) (fst d) (map fst st')"
    using confined_kept [of s "fst d" "map fst st'" ev shell] Syscall c by simp
  with st' Syscall show ?thesis by blast
next
  case Wild
  with assms(2) show ?thesis by simp
qed

section \<open>Properties of the machine\<close>

text \<open>A machine in the loop of \<^verbatim>\<open>entry\<close>, and a program about to make a system call.\<close>

definition kernel0 :: kernel where
  "kernel0 = kernel1\<lparr>pid_array := [0, 0, 0, 0, 0, 0], esp := 0x7FFF00\<rparr>"

definition caller :: "u32 \<Rightarrow> u32 \<Rightarrow> uregs" where
  "caller number arg = \<lparr>r_eax = number, r_ebx = arg, r_ecx = 3, r_edx = 4, r_esi = 5, r_edi = 6, r_ebp = 0x83FFF00,
     r_ds = 0x2B, r_es = 0x2B, r_fs = 0x2B, r_gs = 0x2B, r_eip = 0x8048200, r_cs = 0x23, r_eflags = 0x202,
     r_esp = 0x83FFE00, r_ss = 0x2B\<rparr>"

lemma kernel0_runs: "runs kernel0 []"
  by (simp add: kernel0_def runs_def dir_ok_def blank_ok_def blank_flags in_kstack_def stack_page_def PCB_MASK_def
      BOOT_STACK_def top_pid_def)

lemma kernel0_ready: "exec_ready kernel0 0x600020 (lit ''prog  hi you'') 1 [lit ''hi'', lit ''you''] 0"
proof -
  have free: "free_pids kernel0 = {0, 1, 2, 3, 4, 5}"
    by (auto simp: free_pids_def kernel0_def PROG_NOT_ACTIVE_def less_Suc_eq numeral_eq_Suc)
  have pcb: "rng (pcb_addr (of_nat 0) + PCB_ARG) 128 \<inter> rng 0x610100 128 = {}"
    by (rule rng_disjointI(2)) (simp_all add: pcb_addr_def process_consts PCB_ARG_def)
  have k0: "mem kernel0 = mem kernel1" "fs_ptr kernel0 = fs_ptr kernel1" "exec_filename_at kernel0 = exec_filename_at kernel1"
    "exec_buffer_at kernel0 = exec_buffer_at kernel1" by (simp_all add: kernel0_def)
  have dirs: "dir_name kernel0 = dir_name kernel1" "dentry_of kernel0 = dentry_of kernel1"
    by (simp_all only: fun_eq_iff dir_name_def dentry_of_def dentry_addr_def k0 simp_thms)
  have same: "exec_layout kernel0 = exec_layout kernel1" "names_program kernel0 = names_program kernel1"
    by (simp_all only: fun_eq_iff exec_layout_def names_program_def k0 dirs simp_thms)
  have "Min {0, 1, 2, 3, 4, 5 :: nat} = 0" by simp
  then show ?thesis
    using kernel1_ready pcb unfolding exec_ready_def same free k0 dirs by (simp only: kernel1_fields) simp
qed

text \<open>C1. The kernel implements the stack of programs: whatever step the machine makes, a start, a
  computation, an interrupt or a system call with its pointers in the window, the specification can
  make a step of the same kind that leads to what the new configuration stands for. So a call that
  returns changes no register of its program but \<^verbatim>\<open>eax\<close>, and a \<open>halt\<close> gives the program below its
  registers back. The layout stays, the image of the file system is never written, and no byte
  changes but those of the window, the screen, the kernel's own arrays and the arguments in the
  blocks (and the command line at a start): no stack, table or other field of a block is hit.\<close>

theorem kernel_refines_program_stack:
  assumes "step shell ev c d" "ev \<noteq> Wild" "shows_progs c st" "laid_out (fst c) (map fst st)"
  shows "\<exists>st'. astep ev st st' \<and> shows_progs d st' \<and> laid_out (fst d) (map fst st') \<and>
    img_agree (mem (fst c)) (fs_ptr (fst c)) (mem (fst d)) \<and> spares shell ev (fst c) (fst d)"
  using simulate_step [OF assms(1-3)] assms(4) unfolding kept_def by blast

lemma kernel1_stack: "runs (kernel1\<lparr>esp := tss_esp0 kernel1\<rparr>) [0]"
proof -
  have "in_kstack [0] (kernel_stack 0 - 0)" by (rule in_own_stack) simp_all
  then show ?thesis using runs_esp [OF kernel1_runs] by simp
qed

lemma kernel1_shows: "shows_progs (kernel1, kstk, User r) [(0, r)]"
  using kernel1_stack by simp

lemma kernel1_call:
  assumes "off \<le> 0x1000"
  shows "runs ((trap kernel1)\<lparr>esp := esp (trap kernel1) - off\<rparr>) [0]"
    "laid_out ((trap kernel1)\<lparr>esp := esp (trap kernel1) - off\<rparr>) [0]"
  using trap_runs [OF kernel1_stack assms] kernel1_laid_out by (simp_all add: trap_def)

theorem kernel_refines_program_stack_witness:
  "\<exists>d st'. step 0 Syscall (kernel1, \<lambda>_. [], User ((caller 4 1)\<lparr>r_ecx := 0x8000000\<rparr>)) d \<and>
     astep Syscall [(0, (caller 4 1)\<lparr>r_ecx := 0x8000000\<rparr>)] st' \<and> shows_progs d st' \<and>
     mem (fst d) 0x7FC000 = mem kernel1 0x7FC000"
proof -
  let ?r = "(caller 4 1)\<lparr>r_ecx := 0x8000000\<rparr>" and ?u = "(trap kernel1)\<lparr>esp := esp (trap kernel1) - 72\<rparr>"
  let ?stk = "save_frame (eflags (trap kernel1)) ?r"
  have u: "runs ?u [0]" "laid_out ?u [0]" by (rule kernel1_call, simp)+
  have r: "r_eax ?r = 4" "r_ebx ?r = 1" "r_ecx ?r = 0x8000000" "r_edx ?r = 4" by (simp_all add: caller_def)
  have pcb: "getCurrentProcessPCB ?u = pcb_addr 0" by (rule runs_cur_pcb [OF u(1)])
  have "pcbs ?u = (\<lambda>_. fresh_pcb)" by (simp add: trap_def)
  then have "cur_files ?u = init_file_array blank_slot" using pcb by (simp add: cur_files_def cur_pcb_def fresh_pcb_def)
  then have "write_ok 1 0x8000000 4 ?u"
    by (simp add: write_ok_def Let_def init_files_nth user_range_def USER_BASE_def USER_SIZE_def)
  moreover have call: "the (system_call_jump_table ! unat (4 :: u32)) = Write" by (simp add: system_call_jump_table_def)
  ultimately have ok: "call_ok ?r (trap kernel1)" by (simp add: call_ok_def r)
  obtain v t where t: "sys_write 1 0x8000000 4 ?u = Some (v, t)" "stays ?u t [0]" using stays_write u by fastforce
  then have "run_syscall Write 1 0x8000000 4 ?u = Some (Return v, t)" by (simp add: returning_def)
  then have h: "system_call_handler ?r (trap kernel1) = Some (Return v, ?stk, t)"
    unfolding handler_eq r call by simp
  have "tss_esp0 t = tss_esp0 kernel1" using t(2) by (simp add: stays_def runs_def top_pid_def)
  then have "leave (Return v) t ((\<lambda>_. [])(tss_esp0 kernel1 := ?stk))
      (t\<lparr>eflags := r_eflags (?r\<lparr>r_eax := v\<rparr>)\<rparr>, (\<lambda>_. [])(tss_esp0 kernel1 := ?stk), User (?r\<lparr>r_eax := v\<rparr>))"
    by (intro leave_return) simp
  with ok h have "\<exists>d. step 0 Syscall (kernel1, \<lambda>_. [], User ?r) d \<and> mem (fst d) = mem t"
    by (intro exI conjI, rule step_syscall) simp_all
  then obtain d where s: "step 0 Syscall (kernel1, \<lambda>_. [], User ?r) d" and d: "mem (fst d) = mem t" by blast
  have lay: "laid_out (fst (kernel1, \<lambda>_ :: u32. [] :: u32 list, User ?r)) (map fst [(0, ?r)])" using kernel1_laid_out by simp
  have "Syscall \<noteq> Wild" by simp
  from kernel_refines_program_stack [OF s this kernel1_shows lay] obtain st' where
    st': "astep Syscall [(0, ?r)] st'" "shows_progs d st'" "spares 0 Syscall kernel1 (fst d)" unfolding fst_conv by blast
  have six: "{..<6 :: nat} = {0, 1, 2, 3, 4, 5}" by (simp add: lessThan_nat_numeral lessThan_Suc insert_commute)
  have "0x7FC000 \<notin> arg_areas"
    unfolding arg_areas_def arg_area_def six by (simp add: mem_rng_iff pcb_addr_def process_consts PCB_ARG_def)
  moreover have "0x7FC000 \<notin> user_bytes \<union> kernel_buffers kernel1"
    unfolding user_bytes_def kernel_buffers_def kernel1_conv kernel1_fields in_window_def
    by (simp add: mem_rng_iff VIDEO_def USER_BASE_def)
  ultimately have "0x7FC000 \<notin> writable kernel1" unfolding writable_def by blast
  then have "mem (fst d) 0x7FC000 = mem kernel1 0x7FC000" using st'(3) by (simp add: spares_def)
  with s st' show ?thesis by blast
qed

lemma shows_progs_bounds:
  fixes c :: "'a config"
  assumes "shows_progs c st"
  shows "distinct (map fst st)" "length st \<le> 6" "curr_process (fst c) = top_pid (map fst st)"
proof -
  obtain s kstk md where c: "c = (s, kstk, md)" by (cases c)
  obtain u :: "'a kernel_scheme" where u: "runs u (map fst st)" "curr_process u = curr_process s"
  proof (cases md)
    case Boot
    with assms c that [of s] show thesis by simp
  next
    case (User r)
    with assms c that [of "s\<lparr>esp := tss_esp0 s\<rparr>"] show thesis by auto
  qed
  show d: "distinct (map fst st)" using u(1) by (simp add: runs_def)
  show "curr_process (fst c) = top_pid (map fst st)" using u by (simp add: runs_def c)
  have "unat ` set (map fst st) \<subseteq> {..<6}" using runs_pid_ok [OF u(1)] by (auto simp: pid_ok_def)
  then have "card (unat ` set (map fst st)) \<le> 6" using card_mono [of "{..<6}" "unat ` set (map fst st)"] by simp
  moreover have "card (unat ` set (map fst st)) = card (set (map fst st))"
    by (rule card_image) (auto intro!: inj_onI simp: word_unat_eq_iff)
  ultimately show "length st \<le> 6" using distinct_card [OF d] by simp
qed

lemma running_window:
  assumes "runs s (p # ps)" "in_window va"
  shows "translate s va = Some (user_frame p OR (va AND 0x3FFFFF), True)"
proof -
  have "unat va div 2 ^ 22 = 32"
    using assms(2) unfolding in_window_def USER_BASE_def USER_SIZE_def word_le_nat_alt word_less_nat_alt by simp linarith
  then have "unat (drop_bit 22 va) = 32" by (simp add: unsigned_drop_bit_eq drop_bit_eq_div unat_div_distrib)
  then have pde: "page_directory s ! unat (drop_bit 22 va) = user_frame p OR 0x87"
    using assms(1) by (simp add: runs_def user_pde_def top_pid_def)
  have "frame_ok (user_frame p)" using runs_pid_ok [OF assms(1), of p] by (simp add: user_frame_ok)
  then have "(user_frame p OR 0x87) AND 0xFFC00000 = user_frame p"
    using user_pde_frame [of "user_frame p"] by (simp add: frame_of_def)
  then show ?thesis using pde by (subst translate_big) (simp_all add: bit_or_iff bit_numeral_rec)
qed

text \<open>A program that runs sees its own frame and no other.\<close>

lemma running_program:
  fixes t :: "'a kernel_scheme"
  assumes "shows_progs (t, kstk, User r) st"
  obtains p rest where "st = (p, r) # rest" "pid_ok p" "curr_process t = p" "length rest < 6"
    "\<And>va. in_window va \<Longrightarrow> translate t va = Some (user_frame p OR (va AND 0x3FFFFF), True)"
    "\<And>q. q \<in> set (map fst rest) \<Longrightarrow> user_frame q \<noteq> user_frame p"
proof -
  from assms obtain p rest where st: "st = (p, r) # rest" and rs: "runs (t\<lparr>esp := tss_esp0 t\<rparr>) (p # map fst rest)"
    by auto
  note pk = runs_pid_ok [OF rs]
  have b: "length st \<le> 6" "distinct (map fst st)" "curr_process t = p"
    using shows_progs_bounds [OF assms] by (simp_all add: st top_pid_def)
  have own: "user_frame q \<noteq> user_frame p" if "q \<in> set (map fst rest)" for q
    using b(2) that pk user_frame_inj [of q p] by (auto simp: st)
  have tr: "translate t va = Some (user_frame p OR (va AND 0x3FFFFF), True)" if "in_window va" for va
  proof -
    have "translate (t\<lparr>esp := tss_esp0 t\<rparr>) va = translate t va" by (simp add: translate_def table_for_def Let_def)
    with running_window [OF rs that] show ?thesis by simp
  qed
  show thesis by (rule that [OF st _ b(3) _ tr own]) (use pk b(1) st in simp_all)
qed

lemma img_agree_trans:
  assumes "img_agree m p m'" "img_ok m p" "img_agree m' p m''"
  shows "img_agree m p m''"
  using assms img_ok_same(2) [OF assms(1,2)] by (simp add: img_agree_def)

lemma reachable_shows:
  assumes "reachable shell (s0, kstk0, Boot) c" "runs s0 []"
  shows "\<exists>st. shows_progs c st \<and> (laid_out s0 [] \<longrightarrow>
    laid_out (fst c) (map fst st) \<and> fs_ptr (fst c) = fs_ptr s0 \<and> img_agree (mem s0) (fs_ptr s0) (mem (fst c)))"
  using assms(1)
proof (induction rule: reachable.induct)
  case reach_refl
  show ?case using assms(2) by (intro exI [of _ "[]"]) (simp add: img_agree_def)
next
  case (reach_step d ev e)
  then obtain st where st: "shows_progs d st" "laid_out s0 [] \<longrightarrow>
    laid_out (fst d) (map fst st) \<and> fs_ptr (fst d) = fs_ptr s0 \<and> img_agree (mem s0) (fs_ptr s0) (mem (fst d))" by blast
  obtain st' where st': "shows_progs e st'" "laid_out (fst d) (map fst st) \<longrightarrow> kept shell ev (fst d) (fst e) (map fst st')"
    using simulate_step [OF reach_step(2,3) st(1)] by blast
  have "laid_out (fst e) (map fst st') \<and> fs_ptr (fst e) = fs_ptr s0 \<and> img_agree (mem s0) (fs_ptr s0) (mem (fst e))"
    if "laid_out s0 []"
  proof -
    have "img_ok (mem s0) (fs_ptr s0)" using that by (simp add: laid_out_def)
    with that st(2) st'(2) show ?thesis using img_agree_trans by (auto simp: kept_def)
  qed
  with st'(1) show ?case by blast
qed

text \<open>From the loop of \<^verbatim>\<open>entry\<close>, every configuration the machine reaches without a wild step stands for a
  stack of at most six different processes, whose top is the number in \<open>curr_process\<close>: page directory,
  task state segment, blocks and stacks agree with it, and the frames of those that wait are
  complete.\<close>

theorem machine_invariant:
  assumes "reachable shell (s0, kstk0, Boot) c" "runs s0 []"
  shows "\<exists>st. shows_progs c st \<and> distinct (map fst st) \<and> length st \<le> 6 \<and>
    curr_process (fst c) = top_pid (map fst st)"
proof -
  show ?thesis using reachable_shows [OF assms] shows_progs_bounds by blast
qed

theorem machine_invariant_witness:
  "\<exists>c r st. reachable 0x600020 (kernel0, \<lambda>_. [], Boot) c \<and> snd (snd c) = User r \<and> shows_progs c st \<and> length st \<le> 6"
proof -
  obtain t where t: "execute 0x600020 kernel0 = Some (Enter (load32 (mem t) (PROGRAM_IMAGE + 24)) 0x83FFFFC, t)"
    by (rule execute_ready [OF kernel0_ready])
  let ?r = "(caller 0 0)\<lparr>r_eip := load32 (mem t) (PROGRAM_IMAGE + 24), r_esp := 0x83FFFFC\<rparr>"
  have "leave (Enter (load32 (mem t) (PROGRAM_IMAGE + 24)) 0x83FFFFC) t (\<lambda>_. []) (t, \<lambda>_. [], User ?r)"
    by (rule leave_enter) simp_all
  with exec_ready_safe [OF kernel0_ready] t have "step 0x600020 Start (kernel0, \<lambda>_. [], Boot) (t, \<lambda>_. [], User ?r)"
    by (rule step_boot)
  then have "reachable 0x600020 (kernel0, \<lambda>_. [], Boot) (t, \<lambda>_. [], User ?r)" by (rule reach_step [OF reach_refl]) simp
  from machine_invariant [OF this kernel0_runs] this show ?thesis by fastforce
qed

text \<open>C29. The handler checks the number as a signed one: 1 to 10 call the function of the table
  with the registers \<^verbatim>\<open>ebx\<close>, \<^verbatim>\<open>ecx\<close>, \<^verbatim>\<open>edx\<close> as arguments, never the null entry, and every
  other number gives -1 without a call.\<close>

theorem handler_dispatches:
  "system_call_handler r s =
    (if 1 \<le> unat (r_eax r) \<and> unat (r_eax r) \<le> 10 then do {
       (out, t) \<leftarrow> run_syscall ([Halt, Execute, Read, Write, Open, Close, Getargs, Vidmap, SetHandler, Sigreturn]
           ! (unat (r_eax r) - 1)) (r_ebx r) (r_ecx r) (r_edx r) (s\<lparr>esp := esp s - 72\<rparr>);
       Some (out, save_frame (eflags s) r, t) }
     else Some (Return minus_one, save_frame (eflags s) r, s\<lparr>esp := esp s - 68\<rparr>))"
proof (cases "1 \<le> unat (r_eax r) \<and> unat (r_eax r) \<le> 10")
  case True
  then have "unat (r_eax r) \<in> {1, 2, 3, 4, 5, 6, 7, 8, 9, 10}"
    unfolding insert_iff empty_iff by presburger
  then have "the (system_call_jump_table ! unat (r_eax r))
      = [Halt, Execute, Read, Write, Open, Close, Getargs, Vidmap, SetHandler, Sigreturn] ! (unat (r_eax r) - 1)"
    by (auto simp: system_call_jump_table_def)
  with True show ?thesis unfolding handler_eq by (simp only: if_True)
next
  case False
  then show ?thesis unfolding handler_eq by (simp only: if_False)
qed

end
