(* ===== verification/Idt.thy ===== *)
theory Idt
  imports Keyboard
begin

text \<open>
  The interrupt descriptor table and the exception handlers: \<^verbatim>\<open>student-distrib/idt.c\<close>, the
  descriptor union and \<open>SET_IDT_ENTRY\<close> of \<^verbatim>\<open>student-distrib/x86_desc.h\<close>, and the table as
  \<^verbatim>\<open>student-distrib/x86_desc.S\<close> lays it out. The addresses of the handlers are the linker's: a
  parameter \<open>addr\<close>.
\<close>

section \<open>Descriptors\<close>

text \<open>The handlers a gate can name.\<close>

datatype handler =
    DivideError | Debug | Nmi | Breakpoint | Overflow | Bounds | InvalidOp | DeviceNotAvailable
  | DoubleFault | SegmentOverrun | InvalidTSS | SegmentNotPresent | StackSegment
  | GeneralProtection | PageFault | GenericError | Fp | AlignmentCheck | MachineCheck
  | SystemCallHandler | RtcHandler | KeyHandler

text \<open>The bit fields of a gate, from the low bits up.\<close>

record idt_desc =
  offset_15_00 :: u16
  seg_selector :: u16
  reserved4 :: u8
  reserved3 :: bool
  reserved2 :: bool
  reserved1 :: bool
  gate_size :: bool
  reserved0 :: bool
  dpl :: "2 word"
  gate_present :: bool
  offset_31_16 :: u16

definition NUM_VEC :: nat where "NUM_VEC = 256"
definition num_interrupt :: nat where "num_interrupt = 0x20"
definition SYSTEM_TRAP :: nat where "SYSTEM_TRAP = 0x80"
definition KERNEL_CS :: u16 where "KERNEL_CS = 0x10"

text \<open>The two views of the union: the quadword and the fields.\<close>

definition desc_of :: "64 word \<Rightarrow> idt_desc" where
  "desc_of v = \<lparr>offset_15_00 = ucast v, seg_selector = ucast (drop_bit 16 v), reserved4 = ucast (drop_bit 32 v),
     reserved3 = bit v 40, reserved2 = bit v 41, reserved1 = bit v 42, gate_size = bit v 43, reserved0 = bit v 44,
     dpl = ucast (drop_bit 45 v), gate_present = bit v 47, offset_31_16 = ucast (drop_bit 48 v)\<rparr>"

definition desc_val :: "idt_desc \<Rightarrow> 64 word" where
  "desc_val d = ucast (offset_15_00 d) OR push_bit 16 (ucast (seg_selector d)) OR push_bit 32 (ucast (reserved4 d))
     OR push_bit 40 (of_bool (reserved3 d)) OR push_bit 41 (of_bool (reserved2 d)) OR push_bit 42 (of_bool (reserved1 d))
     OR push_bit 43 (of_bool (gate_size d)) OR push_bit 44 (of_bool (reserved0 d)) OR push_bit 45 (ucast (dpl d))
     OR push_bit 47 (of_bool (gate_present d)) OR push_bit 48 (ucast (offset_31_16 d))"

text \<open>The table of \<^verbatim>\<open>x86_desc.S\<close> before it is filled.\<close>

definition idt_boot :: "idt_desc list" where
  "idt_boot = replicate NUM_VEC (desc_of 0x00008E0000100000)"

definition SET_IDT_ENTRY :: "u32 \<Rightarrow> idt_desc \<Rightarrow> idt_desc" where
  "SET_IDT_ENTRY a d = d\<lparr>offset_31_16 := ucast (drop_bit 16 (a AND 0xFFFF0000)),
     offset_15_00 := ucast (a AND 0xFFFF)\<rparr>"

definition set_gate :: "nat \<Rightarrow> u32 \<Rightarrow> idt_desc list \<Rightarrow> idt_desc list" where
  "set_gate i a idt = idt[i := SET_IDT_ENTRY a (idt ! i)]"

section \<open>init_idt\<close>

definition exception_handlers :: "handler list" where
  "exception_handlers = [DivideError, Debug, Nmi, Breakpoint, Overflow, Bounds, InvalidOp, DeviceNotAvailable,
     DoubleFault, SegmentOverrun, InvalidTSS, SegmentNotPresent, StackSegment, GeneralProtection, PageFault,
     GenericError, Fp, AlignmentCheck, MachineCheck]"

text \<open>The 19 assignments, then the two loops over the same counter.\<close>

definition init_idt :: "(handler \<Rightarrow> u32) \<Rightarrow> idt_desc list \<Rightarrow> idt_desc list" where
  "init_idt addr idt =
     (let idt = fold (\<lambda>i. set_gate i (addr (exception_handlers ! i))) [0..<19] idt;
          idt = fold (\<lambda>i. set_gate i (addr GenericError)) [19..<num_interrupt] idt
      in fold (\<lambda>i. set_gate i (addr GenericError)) [num_interrupt..<NUM_VEC] idt)"

section \<open>The exception handlers\<close>

text \<open>\<open>stop\<close> turns interrupts off and spins: the state it is called in, with the flag clear, is
  the last one.\<close>

definition stop :: "'a machine_scheme \<Rightarrow> 'a machine_scheme" where
  "stop s = cli s"

definition panic :: "string \<Rightarrow> 'a console_scheme \<Rightarrow> 'a console_scheme option" where
  "panic msg s = do { let s = blue_screen s; (_, s) \<leftarrow> printf (lit msg) [] s; Some (stop s) }"

definition divide_error :: "'a console_scheme \<Rightarrow> 'a console_scheme option" where
  "divide_error s = panic ''Division by 0'' s"
definition debug :: "'a console_scheme \<Rightarrow> 'a console_scheme option" where
  "debug s = panic ''Debug Exception'' s"
definition nmi :: "'a console_scheme \<Rightarrow> 'a console_scheme option" where
  "nmi s = panic ''Non-Maskable Interrupt'' s"
definition breakpoint :: "'a console_scheme \<Rightarrow> 'a console_scheme option" where
  "breakpoint s = panic ''Breakpoint (INT3)'' s"
definition overflow :: "'a console_scheme \<Rightarrow> 'a console_scheme option" where
  "overflow s = panic ''Overflow with EFLAGS[OF] Set'' s"
definition bounds :: "'a console_scheme \<Rightarrow> 'a console_scheme option" where
  "bounds s = panic ''Debug Exception'' s"
definition invalid_op :: "'a console_scheme \<Rightarrow> 'a console_scheme option" where
  "invalid_op s = panic ''Invalid Opcode'' s"
definition device_not_available :: "'a console_scheme \<Rightarrow> 'a console_scheme option" where
  "device_not_available s = panic ''Floating Point Unit Missing'' s"
definition double_fault :: "'a console_scheme \<Rightarrow> 'a console_scheme option" where
  "double_fault s = panic ''Double Fault'' s"
definition segment_overrun :: "'a console_scheme \<Rightarrow> 'a console_scheme option" where
  "segment_overrun s = panic ''Coprocessor Segment Overrun'' s"
definition invalid_TSS :: "'a console_scheme \<Rightarrow> 'a console_scheme option" where
  "invalid_TSS s = panic ''Invalid TSS'' s"
definition segment_not_present :: "'a console_scheme \<Rightarrow> 'a console_scheme option" where
  "segment_not_present s = panic ''Segment Not Present'' s"
definition stack_segment :: "'a console_scheme \<Rightarrow> 'a console_scheme option" where
  "stack_segment s = panic ''Stack Exception'' s"
definition general_protection :: "'a console_scheme \<Rightarrow> 'a console_scheme option" where
  "general_protection s = panic ''General Protection Exception'' s"
definition page_fault :: "'a console_scheme \<Rightarrow> 'a console_scheme option" where
  "page_fault s = panic ''Page Fault'' s"
definition generic_error :: "'a console_scheme \<Rightarrow> 'a console_scheme option" where
  "generic_error s = panic ''Undefined Exception'' s"
definition fp :: "'a console_scheme \<Rightarrow> 'a console_scheme option" where
  "fp s = panic ''Floating Point Error'' s"
definition alignment_check :: "'a console_scheme \<Rightarrow> 'a console_scheme option" where
  "alignment_check s = panic ''Alignment Check'' s"
definition machine_check :: "'a console_scheme \<Rightarrow> 'a console_scheme option" where
  "machine_check s = panic ''Machine Check Exception'' s"

lemmas exception_defs = divide_error_def debug_def nmi_def breakpoint_def overflow_def bounds_def invalid_op_def
  device_not_available_def double_fault_def segment_overrun_def invalid_TSS_def segment_not_present_def
  stack_segment_def general_protection_def page_fault_def generic_error_def fp_def alignment_check_def
  machine_check_def

text \<open>Which body runs for a handler of an exception, and the text it is to show.\<close>

fun run_exception :: "handler \<Rightarrow> 'a console_scheme \<Rightarrow> 'a console_scheme option" where
  "run_exception DivideError s = divide_error s"
| "run_exception Debug s = debug s"
| "run_exception Nmi s = nmi s"
| "run_exception Breakpoint s = breakpoint s"
| "run_exception Overflow s = overflow s"
| "run_exception Bounds s = bounds s"
| "run_exception InvalidOp s = invalid_op s"
| "run_exception DeviceNotAvailable s = device_not_available s"
| "run_exception DoubleFault s = double_fault s"
| "run_exception SegmentOverrun s = segment_overrun s"
| "run_exception InvalidTSS s = invalid_TSS s"
| "run_exception SegmentNotPresent s = segment_not_present s"
| "run_exception StackSegment s = stack_segment s"
| "run_exception GeneralProtection s = general_protection s"
| "run_exception PageFault s = page_fault s"
| "run_exception GenericError s = generic_error s"
| "run_exception Fp s = fp s"
| "run_exception AlignmentCheck s = alignment_check s"
| "run_exception MachineCheck s = machine_check s"
| "run_exception _ s = None"

definition exception_texts :: "string list" where
  "exception_texts = [''Division by 0'', ''Debug Exception'', ''Non-Maskable Interrupt'', ''Breakpoint (INT3)'',
     ''Overflow with EFLAGS[OF] Set'', ''Debug Exception'', ''Invalid Opcode'', ''Floating Point Unit Missing'',
     ''Double Fault'', ''Coprocessor Segment Overrun'', ''Invalid TSS'', ''Segment Not Present'', ''Stack Exception'',
     ''General Protection Exception'', ''Page Fault'', ''Undefined Exception'', ''Floating Point Error'',
     ''Alignment Check'', ''Machine Check Exception'']"

section \<open>What a gate leads to\<close>

definition gate_target :: "idt_desc \<Rightarrow> u32" where
  "gate_target d = push_bit 16 (ucast (offset_31_16 d)) OR ucast (offset_15_00 d)"

lemma SET_IDT_ENTRY_target [simp]: "gate_target (SET_IDT_ENTRY a d) = a"
proof -
  have m: "(0xFFFF0000 :: u32) = push_bit 16 (mask 16)" "(0xFFFF :: u32) = mask 16"
    by (simp_all add: mask_eq_exp_minus_1 push_bit_eq_mult)
  show ?thesis unfolding gate_target_def SET_IDT_ENTRY_def m
    by (rule bit_word_eqI) (auto simp: bit_simps)
qed

lemma SET_IDT_ENTRY_keeps [simp]:
  "gate_present (SET_IDT_ENTRY a d) = gate_present d" "dpl (SET_IDT_ENTRY a d) = dpl d"
  "seg_selector (SET_IDT_ENTRY a d) = seg_selector d" "gate_size (SET_IDT_ENTRY a d) = gate_size d"
  by (simp_all add: SET_IDT_ENTRY_def)

lemma desc_val_of: "desc_val (desc_of v) = v"
proof (rule bit_word_eqI)
  fix n :: nat assume "n < LENGTH(64)"
  then consider "n < 16" | "16 \<le> n" "n < 32" | "32 \<le> n" "n < 40" | "n = 40" | "n = 41" | "n = 42" | "n = 43"
    | "n = 44" | "n = 45" | "n = 46" | "n = 47" | "48 \<le> n" "n < 64"
    by (simp, linarith)
  then show "bit (desc_val (desc_of v)) n = bit v n"
    by cases (auto simp: desc_val_def desc_of_def bit_simps)
qed

lemma set_gate_nth [simp]:
  "length (set_gate i a idt) = length idt"
  "set_gate i a idt ! k = (if k = i \<and> i < length idt then SET_IDT_ENTRY a (idt ! i) else idt ! k)"
proof -
  show "length (set_gate i a idt) = length idt" by (simp add: set_gate_def)
  show "set_gate i a idt ! k = (if k = i \<and> i < length idt then SET_IDT_ENTRY a (idt ! i) else idt ! k)"
    by (cases "i < length idt") (auto simp: set_gate_def nth_list_update list_update_beyond)
qed

lemma fold_gates:
  "length (fold (\<lambda>i. set_gate i (f i)) is idt) = length idt"
  "distinct is \<Longrightarrow> k < length idt \<Longrightarrow> fold (\<lambda>i. set_gate i (f i)) is idt ! k =
     (if k \<in> set is then SET_IDT_ENTRY (f k) (idt ! k) else idt ! k)"
proof (induction "is" arbitrary: idt)
  case (Cons i "is")
  { case 1 show ?case using Cons.IH(1) by simp }
  { case 2 then show ?case using Cons.IH(2) [of "set_gate i (f i) idt"] by auto }
qed simp_all

definition vector_handler :: "nat \<Rightarrow> handler" where
  "vector_handler v = (if v < 19 then exception_handlers ! v else GenericError)"

lemma init_idt_nth:
  assumes "length idt = 256" "v < 256"
  shows "init_idt addr idt ! v = SET_IDT_ENTRY (addr (vector_handler v)) (idt ! v)"
    "length (init_idt addr idt) = 256"
proof -
  define a where "a = fold (\<lambda>i. set_gate i (addr (exception_handlers ! i))) [0..<19] idt"
  define b where "b = fold (\<lambda>i. set_gate i (addr GenericError)) [19..<num_interrupt] a"
  define c where "c = fold (\<lambda>i. set_gate i (addr GenericError)) [num_interrupt..<NUM_VEC] b"
  have eq: "init_idt addr idt = c" by (simp only: init_idt_def Let_def a_def b_def c_def)
  note g = fold_gates(2) [OF distinct_upt, unfolded set_upt atLeastLessThan_iff]
  have len: "length a = 256" "length b = 256" "length c = 256"
    by (simp_all only: a_def b_def c_def fold_gates(1) assms(1))
  then show "length (init_idt addr idt) = 256" by (simp only: eq)
  have "a ! v = (if 0 \<le> v \<and> v < 19 then SET_IDT_ENTRY (addr (exception_handlers ! v)) (idt ! v) else idt ! v)"
    unfolding a_def by (rule g) (simp add: assms)
  moreover have "b ! v = (if 19 \<le> v \<and> v < num_interrupt then SET_IDT_ENTRY (addr GenericError) (a ! v) else a ! v)"
    unfolding b_def by (rule g) (simp add: assms len)
  moreover have "c ! v = (if num_interrupt \<le> v \<and> v < NUM_VEC then SET_IDT_ENTRY (addr GenericError) (b ! v) else b ! v)"
    unfolding c_def by (rule g) (simp add: assms len)
  ultimately show "init_idt addr idt ! v = SET_IDT_ENTRY (addr (vector_handler v)) (idt ! v)"
    using assms(2) unfolding eq by (simp add: vector_handler_def num_interrupt_def NUM_VEC_def split: if_splits)
qed

lemma idt_boot_nth: "v < 256 \<Longrightarrow> idt_boot ! v = desc_of 0x00008E0000100000" "length idt_boot = 256"
  by (simp_all add: idt_boot_def NUM_VEC_def)

lemma idt_boot_fields:
  "gate_present (desc_of 0x00008E0000100000)" "dpl (desc_of 0x00008E0000100000) = 0"
  "seg_selector (desc_of 0x00008E0000100000) = KERNEL_CS"
  by (simp_all add: desc_of_def KERNEL_CS_def bit_numeral_rec drop_bit_eq_div)

lemma blue_screen_good: "con_good (blue_screen s)"
  by (simp add: con_good_def blue_screen_view)

lemma render_plain: "0x25 \<notin> set out \<Longrightarrow> render None out [] = Some out"
  by (induction out) auto

lemma panic_shows:
  assumes "con_layout s" "0x25 \<notin> set (lit msg)"
  shows "\<exists>t. panic msg s = Some t \<and> \<not> interrupts_on t \<and> con_view t =
    fold tty_putc (lit msg) \<lparr>cells = replicate 2000 (SPACE, BLUE_SCREEN_BACKGROUND_ATTRIB), pos = 0\<rparr>"
proof -
  have lay: "con_layout (blue_screen s)"
    using assms(1) by (simp add: con_layout_def conv_rng_def blue_screen_def Let_def)
  obtain t where t: "printf (lit msg) [] (blue_screen s) = Some (of_nat (length (lit msg)), t)"
    "printed (lit msg) (blue_screen s) t"
    using printf_renders [OF blue_screen_good lay _ render_plain [OF assms(2)]] by auto
  then have "panic msg s = Some (stop t)" by (simp add: panic_def Let_def)
  moreover have "con_view (stop t) = con_view t" by (simp add: stop_def cli_def con_view_def)
  moreover have "con_view t = fold tty_putc (lit msg) (con_view (blue_screen s))" using t(2) by (simp add: printed_def)
  moreover have "\<not> interrupts_on (stop t)" by (simp add: stop_def)
  ultimately show ?thesis by (simp add: blue_screen_view)
qed

lemma run_exception_panics:
  assumes "i < 19"
  shows "run_exception (exception_handlers ! i) s = panic (exception_texts ! i) s"
    "0x25 \<notin> set (lit (exception_texts ! i))"
proof -
  have "list_all2 (\<lambda>h msg. run_exception h s = panic msg s \<and> 0x25 \<notin> set (lit msg)) exception_handlers exception_texts"
    by (simp add: exception_handlers_def exception_texts_def exception_defs)
  then have "run_exception (exception_handlers ! i) s = panic (exception_texts ! i) s \<and> 0x25 \<notin> set (lit (exception_texts ! i))"
    using assms by (simp add: list_all2_conv_all_nth exception_handlers_def)
  then show "run_exception (exception_handlers ! i) s = panic (exception_texts ! i) s"
    "0x25 \<notin> set (lit (exception_texts ! i))" by blast+
qed

text \<open>C39. The handler of every exception ends in a stopped machine: the screen is cleared to blue,
  shows the text of that exception in its first line, and interrupts stay off.\<close>

theorem exceptions_panic:
  assumes "con_layout s" "v < 19"
  shows "\<exists>t. run_exception (exception_handlers ! v) s = Some t \<and> \<not> interrupts_on t \<and> con_view t =
    fold tty_putc (lit (exception_texts ! v))
      \<lparr>cells = replicate 2000 (SPACE, BLUE_SCREEN_BACKGROUND_ATTRIB), pos = 0\<rparr>"
  unfolding run_exception_panics(1) [OF assms(2)] by (rule panic_shows [OF assms(1) run_exception_panics(2) [OF assms(2)]])

theorem exceptions_panic_witness:
  "\<exists>t. page_fault blank_console = Some t \<and> \<not> interrupts_on t \<and> con_view t =
    fold tty_putc (lit ''Page Fault'') \<lparr>cells = replicate 2000 (SPACE, BLUE_SCREEN_BACKGROUND_ATTRIB), pos = 0\<rparr>"
  using exceptions_panic [OF blank_console_good(2), of 14]
  by (simp add: exception_handlers_def exception_texts_def del: replicate.simps)

end
