(* ===== verification/Boot.thy ===== *)
theory Boot
  imports Dispatch Idt
begin

text \<open>
  The start of the kernel: \<open>entry\<close> of \<^verbatim>\<open>student-distrib/kernel.c\<close>, the multiboot structures of
  \<^verbatim>\<open>student-distrib/multiboot.h\<close> and the segment descriptors of \<^verbatim>\<open>student-distrib/x86_desc.h\<close>.
  What the linker and the assembler fix (\<^verbatim>\<open>&ldt\<close>, \<^verbatim>\<open>&tss\<close>, the addresses of the handlers) are
  parameters.
\<close>

section \<open>Segment descriptors\<close>

record seg_desc =
  seg_lim_15_00 :: u16
  base_15_00 :: u16
  base_23_16 :: u8
  seg_type :: "4 word"
  seg_sys :: bool
  seg_dpl :: "2 word"
  seg_present :: bool
  seg_lim_19_16 :: "4 word"
  seg_avail :: bool
  seg_reserved :: bool
  seg_opsize :: bool
  seg_granularity :: bool
  base_31_24 :: u8

definition SET_LDT_PARAMS :: "seg_desc \<Rightarrow> u32 \<Rightarrow> u32 \<Rightarrow> seg_desc" where
  "SET_LDT_PARAMS str a lim = str\<lparr>base_31_24 := ucast (drop_bit 24 (a AND 0xFF000000)),
     base_23_16 := ucast (drop_bit 16 (a AND 0x00FF0000)), base_15_00 := ucast (a AND 0x0000FFFF),
     seg_lim_19_16 := ucast (drop_bit 16 (lim AND 0x000F0000)), seg_lim_15_00 := ucast (lim AND 0x0000FFFF)\<rparr>"

definition SET_TSS_PARAMS :: "seg_desc \<Rightarrow> u32 \<Rightarrow> u32 \<Rightarrow> seg_desc" where
  "SET_TSS_PARAMS str a lim = str\<lparr>base_31_24 := ucast (drop_bit 24 (a AND 0xFF000000)),
     base_23_16 := ucast (drop_bit 16 (a AND 0x00FF0000)), base_15_00 := ucast (a AND 0x0000FFFF),
     seg_lim_19_16 := ucast (drop_bit 16 (lim AND 0x000F0000)), seg_lim_15_00 := ucast (lim AND 0x0000FFFF)\<rparr>"

definition KERNEL_DS :: u16 where "KERNEL_DS = 0x0018"
definition KERNEL_TSS :: u16 where "KERNEL_TSS = 0x0030"
definition KERNEL_LDT :: u16 where "KERNEL_LDT = 0x0038"
definition TSS_SIZE :: u32 where "TSS_SIZE = 104"

text \<open>The two local descriptors of \<open>entry\<close>; the fields it does not assign first, \<open>base\<close> among
  them, hold what \<open>junk\<close> holds until the macro sets them.\<close>

definition the_ldt_desc :: "seg_desc \<Rightarrow> seg_desc" where
  "the_ldt_desc junk = junk\<lparr>seg_granularity := False, seg_opsize := True, seg_reserved := False, seg_avail := False,
     seg_present := True, seg_dpl := 0, seg_sys := False, seg_type := 2\<rparr>"

definition the_tss_desc :: "seg_desc \<Rightarrow> seg_desc" where
  "the_tss_desc junk = junk\<lparr>seg_granularity := False, seg_opsize := False, seg_reserved := False, seg_avail := False,
     seg_lim_19_16 := ucast (TSS_SIZE AND 0x000F0000), seg_present := True, seg_dpl := 0, seg_sys := False,
     seg_type := 9, seg_lim_15_00 := ucast (TSS_SIZE AND 0x0000FFFF)\<rparr>"

section \<open>State\<close>

record boot = kernel +
  idt :: "idt_desc list"
  ldt_desc_ptr :: seg_desc
  tss_desc_ptr :: seg_desc
  tss_ss0 :: u16
  tss_ldt_selector :: u16
  ldtr :: u16
  task_register :: u16
  bootBlock_addr :: u32

text \<open>The linker's addresses.\<close>

record symbols =
  at_handler :: "handler \<Rightarrow> u32"
  at_ldt :: u32
  at_tss :: u32
  stack_junk :: seg_desc

definition MULTIBOOT_BOOTLOADER_MAGIC :: u32 where "MULTIBOOT_BOOTLOADER_MAGIC = 0x2BADB002"

definition CHECK_FLAG :: "u32 \<Rightarrow> nat \<Rightarrow> bool" where
  "CHECK_FLAG flgs b \<longleftrightarrow> flgs AND push_bit b 1 \<noteq> 0"

definition ldt_size :: u32 where "ldt_size = 31"
definition tss_size :: u32 where "tss_size = 103"

section \<open>The multiboot report\<close>

text \<open>A line of the report.\<close>

definition say :: "string \<Rightarrow> u32 list \<Rightarrow> 'a console_scheme \<Rightarrow> 'a console_scheme option" where
  "say fmt args s = do { (_, s) \<leftarrow> printf (lit fmt) args s; Some s }"

definition sayln :: "string \<Rightarrow> u32 list \<Rightarrow> 'a console_scheme \<Rightarrow> 'a console_scheme option" where
  "sayln fmt args s = do { (_, s) \<leftarrow> printf (lit fmt @ [0x0A]) args s; Some s }"

text \<open>The fields of \<^verbatim>\<open>multiboot_info_t\<close> by their offsets.\<close>

definition mbi :: "u32 \<Rightarrow> u32 \<Rightarrow> 'a machine_scheme \<Rightarrow> u32" where
  "mbi a off s = load32 (mem s) (a + off)"

definition report_head :: "u32 \<Rightarrow> 'a console_scheme \<Rightarrow> 'a console_scheme option" where
  "report_head a s = do {
     s \<leftarrow> sayln ''flags = 0x%#x'' [mbi a 0 s] s;
     s \<leftarrow> (if CHECK_FLAG (mbi a 0 s) 0
          then sayln ''mem_lower = %uKB, mem_upper = %uKB'' [mbi a 4 s, mbi a 8 s] s else Some s);
     s \<leftarrow> (if CHECK_FLAG (mbi a 0 s) 1 then sayln ''boot_device = 0x%#x'' [mbi a 12 s] s else Some s);
     if CHECK_FLAG (mbi a 0 s) 2 then sayln ''cmdline = %s'' [mbi a 16 s] s else Some s }"

text \<open>The first bytes of a module; \<^verbatim>\<open>char\<close> is signed.\<close>

fun first_bytes :: "u32 \<Rightarrow> nat list \<Rightarrow> 'a console_scheme \<Rightarrow> 'a console_scheme option" where
  "first_bytes m [] s = Some s"
| "first_bytes m (i # is) s = do {
     s \<leftarrow> say ''0x%x '' [scast (mem s (mbi m 0 s + of_nat i))] s;
     first_bytes m is s }"

text \<open>The module loop; \<^verbatim>\<open>mod_count < mbi->mods_count\<close> compares as unsigned. The address of the last
  module is kept in \<open>bootBlock_addr\<close>.\<close>

partial_function (option) report_mods :: "u32 \<Rightarrow> u32 \<Rightarrow> u32 \<Rightarrow> 'a boot_scheme \<Rightarrow> 'a boot_scheme option" where
  "report_mods a m mod_count s =
     (if mod_count < mbi a 20 s then do {
        s \<leftarrow> sayln ''Module %d loaded at address: 0x%#x'' [mod_count, mbi m 0 s] s;
        let s = s\<lparr>bootBlock_addr := mbi m 0 s\<rparr>;
        s \<leftarrow> sayln ''Module %d ends at address: 0x%#x'' [mod_count, mbi m 4 s] s;
        s \<leftarrow> sayln ''First few bytes of module:'' [] s;
        s \<leftarrow> first_bytes m [0..<16] s;
        s \<leftarrow> sayln [] [] s;
        report_mods a (m + 16) (mod_count + 1) s }
      else Some s)"

definition report_elf :: "u32 \<Rightarrow> 'a console_scheme \<Rightarrow> 'a console_scheme option" where
  "report_elf a s =
     (if CHECK_FLAG (mbi a 0 s) 5
      then sayln ''elf_sec: num = %u, size = 0x%#x, addr = 0x%#x, shndx = 0x%#x''
        [mbi a 28 s, mbi a 32 s, mbi a 36 s, mbi a 40 s] s
      else Some s)"

partial_function (option) report_mmap :: "u32 \<Rightarrow> u32 \<Rightarrow> 'a console_scheme \<Rightarrow> 'a console_scheme option" where
  "report_mmap a mmap s =
     (if mmap < mbi a 48 s + mbi a 44 s then do {
        s \<leftarrow> sayln (''    size = 0x%x, base_addr = 0x%#x%#x'' @ [CHR 0x0A] @ ''    type = 0x%x,  length    = 0x%#x%#x'')
          [mbi mmap 0 s, mbi mmap 8 s, mbi mmap 4 s, mbi mmap 20 s, mbi mmap 16 s, mbi mmap 12 s] s;
        report_mmap a (mmap + mbi mmap 0 s + 4) s }
      else Some s)"

text \<open>The report as a whole; the first component says whether \<open>entry\<close> goes on.\<close>

definition report :: "u32 \<Rightarrow> 'a boot_scheme \<Rightarrow> (bool \<times> 'a boot_scheme) option" where
  "report a s = do {
     s \<leftarrow> report_head a s;
     s \<leftarrow> (if CHECK_FLAG (mbi a 0 s) 3 then report_mods a (mbi a 24 s) 0 s else Some s);
     if CHECK_FLAG (mbi a 0 s) 4 \<and> CHECK_FLAG (mbi a 0 s) 5 then do {
       s \<leftarrow> sayln ''Both bits 4 and 5 are set.'' [] s;
       Some (False, s) }
     else do {
       s \<leftarrow> report_elf a s;
       s \<leftarrow> (if CHECK_FLAG (mbi a 0 s) 6 then do {
              s \<leftarrow> sayln ''mmap_addr = 0x%#x, mmap_length = 0x%x'' [mbi a 48 s, mbi a 44 s] s;
              report_mmap a (mbi a 48 s) s }
            else Some s);
       Some (True, s) } }"

section \<open>entry\<close>

definition setup_segments :: "symbols \<Rightarrow> 'a boot_scheme \<Rightarrow> 'a boot_scheme" where
  "setup_segments syms s =
     (let s = s\<lparr>ldt_desc_ptr := SET_LDT_PARAMS (the_ldt_desc (stack_junk syms)) (at_ldt syms) ldt_size\<rparr>;
          s = s\<lparr>ldtr := KERNEL_LDT\<rparr>;
          s = s\<lparr>tss_desc_ptr := SET_TSS_PARAMS (the_tss_desc (stack_junk syms)) (at_tss syms) tss_size\<rparr>;
          s = s\<lparr>tss_ldt_selector := KERNEL_LDT, tss_ss0 := KERNEL_DS, tss_esp0 := 0x800000\<rparr>
      in s\<lparr>task_register := KERNEL_TSS\<rparr>)"

definition setup_vectors :: "symbols \<Rightarrow> 'a boot_scheme \<Rightarrow> 'a boot_scheme" where
  "setup_vectors syms s =
     (let s = s\<lparr>idt := init_idt (at_handler syms) (idt s)\<rparr>;
          s = s\<lparr>idt := set_gate SYSTEM_TRAP (at_handler syms SystemCallHandler) (idt s)\<rparr>;
          s = s\<lparr>idt := (idt s)[SYSTEM_TRAP := (idt s ! SYSTEM_TRAP)\<lparr>dpl := 3\<rparr>]\<rparr>;
          s = s\<lparr>idt := (idt s)[SYSTEM_TRAP := (idt s ! SYSTEM_TRAP)\<lparr>seg_selector := KERNEL_CS\<rparr>]\<rparr>;
          s = i8259_init s;
          s = s\<lparr>idt := set_gate 0x28 (at_handler syms RtcHandler) (idt s)\<rparr>
      in s\<lparr>idt := set_gate 0x21 (at_handler syms KeyHandler) (idt s)\<rparr>)"

definition setup_devices :: "'a boot_scheme \<Rightarrow> 'a boot_scheme" where
  "setup_devices s =
     (let s = rtc_init s;
          s = enable_irq 1 s;
          s = enable_irq 8 s;
          s = paging_init s
      in filesys_init (bootBlock_addr s) s)"

text \<open>\<open>launch_tests\<close> of \<^verbatim>\<open>tests.c\<close>, with every test commented out as it is: a cleared screen and a
  heading.\<close>

definition launch_tests :: "'a console_scheme \<Rightarrow> 'a console_scheme option" where
  "launch_tests s = sayln '' ========== STARTING TESTS =========='' [] (clear s)"

text \<open>\<open>entry\<close> up to its last loop (the first component is \<^const>\<open>True\<close>), or to its early return.\<close>

definition entry :: "symbols \<Rightarrow> u32 \<Rightarrow> u32 \<Rightarrow> 'a boot_scheme \<Rightarrow> (bool \<times> 'a boot_scheme) option" where
  "entry syms magic a s =
     (let s = clear s in
      if magic \<noteq> MULTIBOOT_BOOTLOADER_MAGIC then do {
        s \<leftarrow> sayln ''Invalid magic number: 0x%#x'' [magic] s;
        Some (False, s) }
      else do {
        (ok, s) \<leftarrow> report a s;
        if \<not> ok then Some (False, s)
        else do {
          let s = setup_devices (setup_vectors syms (setup_segments syms s));
          s \<leftarrow> sayln ''Enabling Interrupts'' [] s;
          s \<leftarrow> launch_tests (sti s);
          Some (True, s) } })"

section \<open>What the report leaves alone\<close>

lemma puts_loop_flags: "puts_loop p i s = Some (r, t) \<Longrightarrow> eflags t = eflags s"
proof -
  assume "puts_loop p i s = Some (r, t)"
  then have "eflags (snd (r, t)) = eflags s"
    by (rule puts_loop.raw_induct [where P = "\<lambda>p i s rt. eflags (snd rt) = eflags s", rotated])
      (auto split: if_splits)
  then show ?thesis by simp
qed

lemma printf_conv_flags: "printf_conv alternate c args s = Some (args', t) \<Longrightarrow> eflags t = eflags s"
  by (auto simp: printf_conv_def printf_x_def printf_u_def printf_d_def puts_def itoa_con_def Let_def bind_eq_Some_conv
      split: if_splits list.splits dest!: puts_loop_flags)

lemma printf_loop_flags: "printf_loop sp fmt args s = Some t \<Longrightarrow> eflags t = eflags s"
proof (induction sp fmt args s rule: printf_loop.induct)
  case (4 alternate c fmt args s)
  then show ?case
    by (auto simp: bind_eq_Some_conv split: if_splits) (metis printf_conv_flags)
qed (auto split: if_splits)

lemma say_keeps:
  "say fmt args s = Some t \<Longrightarrow> console.more t = console.more s \<and> eflags t = eflags s"
  "sayln fmt args s = Some t \<Longrightarrow> console.more t = console.more s \<and> eflags t = eflags s"
  by (auto simp: say_def sayln_def printf_def bind_eq_Some_conv dest: printf_loop_more printf_loop_flags)

lemma first_bytes_keeps: "first_bytes m is s = Some t \<Longrightarrow> console.more t = console.more s"
proof (induction "is" arbitrary: s)
  case (Cons i "is")
  then obtain u where "say ''0x%x '' [scast (mem s (mbi m 0 s + of_nat i))] s = Some u" "first_bytes m is u = Some t"
    by (auto simp: bind_eq_Some_conv)
  with Cons.IH say_keeps(1) show ?case by metis
qed simp

text \<open>Two boot states that differ in the console and in \<open>bootBlock_addr\<close> only.\<close>

definition reported :: "'a boot_scheme \<Rightarrow> 'a boot_scheme \<Rightarrow> bool" where
  "reported s t \<longleftrightarrow> console.more (t\<lparr>bootBlock_addr := 0\<rparr>) = console.more (s\<lparr>bootBlock_addr := 0\<rparr>)"

lemma reported_more: "console.more (t :: 'a boot_scheme) = console.more s \<Longrightarrow> reported s t"
  unfolding reported_def by (cases s; cases t; simp)

lemma reported_trans: "reported s t \<Longrightarrow> reported t u \<Longrightarrow> reported s u"
  by (simp add: reported_def)

lemma reported_block: "reported s (s\<lparr>bootBlock_addr := b\<rparr>)"
  by (simp add: reported_def)

lemma reported_sayln: "sayln fmt args (s :: 'a boot_scheme) = Some t \<Longrightarrow> reported s t"
  by (rule reported_more) (simp add: say_keeps)

lemma report_mods_keeps: "report_mods a m k s = Some t \<Longrightarrow> reported s t"
proof (rule report_mods.raw_induct [where P = "\<lambda>a m k s t. reported s t"])
  fix rec :: "u32 \<Rightarrow> u32 \<Rightarrow> u32 \<Rightarrow> 'a boot_scheme \<Rightarrow> 'a boot_scheme option" and a m k s t
  assume ih: "\<And>a m k s t. rec a m k s = Some t \<Longrightarrow> reported s t"
    and eq: "(if k < mbi a 20 s then do {
        s \<leftarrow> sayln ''Module %d loaded at address: 0x%#x'' [k, mbi m 0 s] s;
        let s = s\<lparr>bootBlock_addr := mbi m 0 s\<rparr>;
        s \<leftarrow> sayln ''Module %d ends at address: 0x%#x'' [k, mbi m 4 s] s;
        s \<leftarrow> sayln ''First few bytes of module:'' [] s;
        s \<leftarrow> first_bytes m [0..<16] s;
        s \<leftarrow> sayln [] [] s;
        rec a (m + 16) (k + 1) s }
      else Some s) = Some t"
  show "reported s t"
  proof (cases "k < mbi a 20 s")
    case False
    with eq show ?thesis by (simp add: reported_def)
  next
    case True
    with eq obtain s1 s2 s3 s4 s5 where
      "sayln ''Module %d loaded at address: 0x%#x'' [k, mbi m 0 s] s = Some s1"
      "sayln ''Module %d ends at address: 0x%#x'' [k, mbi m 4 (s1\<lparr>bootBlock_addr := mbi m 0 s1\<rparr>)]
         (s1\<lparr>bootBlock_addr := mbi m 0 s1\<rparr>) = Some s2"
      "sayln ''First few bytes of module:'' [] s2 = Some s3" "first_bytes m [0..<16] s3 = Some s4"
      "sayln [] [] s4 = Some s5" "rec a (m + 16) (k + 1) s5 = Some t"
      by (auto simp: bind_eq_Some_conv Let_def simp del: upt.simps)
    then have "reported s s1" "reported (s1\<lparr>bootBlock_addr := mbi m 0 s1\<rparr>) s2" "reported s2 s3" "reported s3 s4"
      "reported s4 s5" "reported s5 t"
      using reported_sayln ih first_bytes_keeps reported_more by metis+
    then show ?thesis using reported_block reported_trans by metis
  qed
qed

lemma report_mmap_keeps: "report_mmap a m s = Some t \<Longrightarrow> console.more t = console.more s"
proof (rule report_mmap.raw_induct [where P = "\<lambda>a m s t. console.more t = console.more s"])
  fix rec :: "u32 \<Rightarrow> u32 \<Rightarrow> 'a console_scheme \<Rightarrow> 'a console_scheme option" and a mmap s t
  assume ih: "\<And>a m s t. rec a m s = Some t \<Longrightarrow> console.more t = console.more s"
    and eq: "(if mmap < mbi a 48 s + mbi a 44 s then do {
        s \<leftarrow> sayln (''    size = 0x%x, base_addr = 0x%#x%#x'' @ [CHR 0x0A] @ ''    type = 0x%x,  length    = 0x%#x%#x'')
          [mbi mmap 0 s, mbi mmap 8 s, mbi mmap 4 s, mbi mmap 20 s, mbi mmap 16 s, mbi mmap 12 s] s;
        rec a (mmap + mbi mmap 0 s + 4) s }
      else Some s) = Some t"
  show "console.more t = console.more s"
  proof (cases "mmap < mbi a 48 s + mbi a 44 s")
    case True
    with eq obtain fmt args y where y: "sayln fmt args s = Some y" "rec a (mmap + mbi mmap 0 y + 4) y = Some t"
      by (auto simp: bind_eq_Some_conv)
    show ?thesis using ih [OF y(2)] say_keeps(2) [OF y(1)] by simp
  qed (use eq in simp)
qed

lemma cond_say: "(if c then sayln fmt args s else Some s) = Some t \<Longrightarrow> console.more t = console.more s"
  by (auto split: if_splits dest: say_keeps)

lemma report_head_keeps: "report_head a s = Some t \<Longrightarrow> console.more t = console.more s"
proof -
  assume "report_head a s = Some t"
  then obtain s1 s2 s3 where "sayln ''flags = 0x%#x'' [mbi a 0 s] s = Some s1"
    "(if CHECK_FLAG (mbi a 0 s1) 0
      then sayln ''mem_lower = %uKB, mem_upper = %uKB'' [mbi a 4 s1, mbi a 8 s1] s1 else Some s1) = Some s2"
    "(if CHECK_FLAG (mbi a 0 s2) 1 then sayln ''boot_device = 0x%#x'' [mbi a 12 s2] s2 else Some s2) = Some s3"
    "(if CHECK_FLAG (mbi a 0 s3) 2 then sayln ''cmdline = %s'' [mbi a 16 s3] s3 else Some s3) = Some t"
    unfolding report_head_def bind_eq_Some_conv by blast
  from say_keeps(2) [OF this(1)] cond_say [OF this(2)] cond_say [OF this(3)] cond_say [OF this(4)]
  show ?thesis by simp
qed

lemma report_keeps:
  assumes "report a s = Some (ok, t)"
  shows "reported s t"
proof -
  obtain s1 where s1: "report_head a s = Some s1" using assms by (auto simp: report_def bind_eq_Some_conv)
  have r1: "reported s s1" by (rule reported_more [OF report_head_keeps [OF s1]])
  obtain s2 where s2: "(if CHECK_FLAG (mbi a 0 s1) 3 then report_mods a (mbi a 24 s1) 0 s1 else Some s1) = Some s2"
    using assms s1 by (auto simp: report_def bind_eq_Some_conv)
  have r2: "reported s1 s2"
    using s2 report_mods_keeps by (auto simp: reported_def split: if_splits)
  have "reported s2 t"
  proof (cases "CHECK_FLAG (mbi a 0 s2) 4 \<and> CHECK_FLAG (mbi a 0 s2) 5")
    case True
    with assms s1 s2 show ?thesis by (auto simp: report_def bind_eq_Some_conv dest: reported_sayln)
  next
    case False
    with assms s1 s2 obtain s3 where s3: "report_elf a s2 = Some s3"
      "(if CHECK_FLAG (mbi a 0 s3) 6 then do {
              s \<leftarrow> sayln ''mmap_addr = 0x%#x, mmap_length = 0x%x'' [mbi a 48 s3, mbi a 44 s3] s3;
              report_mmap a (mbi a 48 s) s }
            else Some s3) = Some t"
      by (auto simp: report_def bind_eq_Some_conv split: if_splits)
    have "console.more s3 = console.more s2" using s3(1) by (auto simp: report_elf_def split: if_splits dest: say_keeps)
    moreover have "console.more t = console.more s3"
      using s3(2) by (auto simp: bind_eq_Some_conv split: if_splits dest!: say_keeps report_mmap_keeps)
    ultimately show ?thesis by (intro reported_more) simp
  qed
  with r1 r2 show ?thesis using reported_trans by blast
qed

section \<open>What each stage of \<open>entry\<close> changes\<close>

text \<open>The fields beyond the console, the interrupt controller and the clock are a function of
  \<^const>\<open>rtc.more\<close>.\<close>

lemma rtc_more_boot:
  assumes "rtc.more (s :: 'a boot_scheme) = rtc.more t"
  shows "idt s = idt t" "ldt_desc_ptr s = ldt_desc_ptr t" "tss_desc_ptr s = tss_desc_ptr t" "tss_ss0 s = tss_ss0 t"
    "tss_ldt_selector s = tss_ldt_selector t" "ldtr s = ldtr t" "task_register s = task_register t"
    "bootBlock_addr s = bootBlock_addr t" "pid_array s = pid_array t" "curr_process s = curr_process t"
    "tss_esp0 s = tss_esp0 t" "esp s = esp t" "ebp s = ebp t" "page_directory s = page_directory t"
    "page_table s = page_table t" "page_table_at s = page_table_at t" "page_directory_at s = page_directory_at t"
    "video_pages_at s = video_pages_at t" "video_pages s = video_pages t" "fs_ptr s = fs_ptr t" "blank s = blank t"
    "pcbs s = pcbs t" "exec_filename_at s = exec_filename_at t" "exec_buffer_at s = exec_buffer_at t"
  using assms by (cases s; cases t; simp)+

lemma console_more_boot:
  assumes "console.more (s :: 'a boot_scheme) = console.more t"
  shows "rtc.more s = rtc.more t"
  using assms by (cases s; cases t; simp)

lemmas console_fields = rtc_more_boot [OF console_more_boot]

lemma clear_boot: "console.more (clear (s :: 'a boot_scheme)) = console.more s"
  by simp

lemmas rtc_init_boot [simp] = rtc_more_boot [OF rtc_init_frame(9)]

lemma irq_boot:
  "rtc.more (enable_irq n (s :: 'a boot_scheme)) = rtc.more s" "rtc.more (i8259_init (s :: 'a boot_scheme)) = rtc.more s"
proof -
  have "pic.more (enable_irq n s) = pic.more s" by simp
  then show "rtc.more (enable_irq n s) = rtc.more s" by (cases s; cases "enable_irq n s"; simp)
  have "machine.more (i8259_init s) = machine.more s" by (simp add: i8259_init_def Let_def)
  then show "rtc.more (i8259_init s) = rtc.more s" by (cases s; cases "i8259_init s"; simp)
qed

lemmas enable_irq_boot [simp] = rtc_more_boot [OF irq_boot(1)]
lemmas i8259_init_boot [simp] = rtc_more_boot [OF irq_boot(2)]

text \<open>\<open>paging_init\<close> changes tables and registers of the processor only.\<close>

lemma paging_init_boot [simp]:
  "paging.more (paging_init s) = paging.more s"
  by (simp add: paging_init_def Let_def)

lemma paging_more_boot:
  assumes "paging.more (s :: 'a boot_scheme) = paging.more t"
  shows "idt s = idt t" "ldt_desc_ptr s = ldt_desc_ptr t" "tss_desc_ptr s = tss_desc_ptr t" "tss_ss0 s = tss_ss0 t"
    "tss_ldt_selector s = tss_ldt_selector t" "ldtr s = ldtr t" "task_register s = task_register t"
    "bootBlock_addr s = bootBlock_addr t" "pid_array s = pid_array t" "curr_process s = curr_process t"
    "tss_esp0 s = tss_esp0 t" "esp s = esp t" "ebp s = ebp t" "pcbs s = pcbs t"
  using assms by (cases s; cases t; simp)+

lemmas paging_init_fields_boot [simp] = paging_more_boot [OF paging_init_boot]

text \<open>The two states of a report agree on everything but the console and \<open>bootBlock_addr\<close>.\<close>

lemma reported_fields:
  assumes "reported s t"
  shows "idt t = idt s" "pid_array t = pid_array s" "curr_process t = curr_process s" "esp t = esp s"
    "page_table_at t = page_table_at s" "ldt_desc_ptr t = ldt_desc_ptr s"
  using console_fields [OF assms [unfolded reported_def]] by simp_all

section \<open>The gates\<close>

definition boot_vector :: "nat \<Rightarrow> handler" where
  "boot_vector v = (if v = SYSTEM_TRAP then SystemCallHandler else if v = 0x28 then RtcHandler
     else if v = 0x21 then KeyHandler else vector_handler v)"

lemma setup_vectors_gates:
  assumes "idt s = idt_boot" "v < 256"
  shows "gate_target (idt (setup_vectors syms s) ! v) = at_handler syms (boot_vector v)"
    "gate_present (idt (setup_vectors syms s) ! v)" "seg_selector (idt (setup_vectors syms s) ! v) = KERNEL_CS"
    "dpl (idt (setup_vectors syms s) ! v) = (if v = SYSTEM_TRAP then 3 else 0)"
    "length (idt (setup_vectors syms s)) = 256"
proof -
  note b = idt_boot_nth(1) [OF assms(2)] and l = idt_boot_nth(2) and n = init_idt_nth [OF idt_boot_nth(2)]
  have g: "gate_target (d\<lparr>dpl := x\<rparr>) = gate_target d" "gate_target (d\<lparr>seg_selector := y\<rparr>) = gate_target d" for d x y
    by (simp_all add: gate_target_def)
  show "gate_target (idt (setup_vectors syms s) ! v) = at_handler syms (boot_vector v)"
    "gate_present (idt (setup_vectors syms s) ! v)" "seg_selector (idt (setup_vectors syms s) ! v) = KERNEL_CS"
    "dpl (idt (setup_vectors syms s) ! v) = (if v = SYSTEM_TRAP then 3 else 0)"
    "length (idt (setup_vectors syms s)) = 256"
    using assms(2) n(2) [of 0]
    by (simp_all add: setup_vectors_def Let_def assms(1) nth_list_update n b idt_boot_fields boot_vector_def g
        SYSTEM_TRAP_def idt_boot_nth)
qed

text \<open>The other stages leave the table alone.\<close>

lemma setup_stages:
  "idt (setup_devices s) = idt s" "idt (setup_segments syms s) = idt s"
  "pid_array (setup_devices s) = pid_array s" "pid_array (setup_vectors syms s) = pid_array s"
  "pid_array (setup_segments syms s) = pid_array s"
  "curr_process (setup_devices s) = curr_process s" "curr_process (setup_vectors syms s) = curr_process s"
  "curr_process (setup_segments syms s) = curr_process s"
  "esp (setup_devices s) = esp s" "esp (setup_vectors syms s) = esp s" "esp (setup_segments syms s) = esp s"
  "page_table_at (setup_vectors syms s) = page_table_at s" "page_table_at (setup_segments syms s) = page_table_at s"
  "bootBlock_addr (setup_devices s) = bootBlock_addr s" "fs_ptr (setup_devices s) = bootBlock_addr s"
  by (simp_all add: setup_devices_def setup_segments_def setup_vectors_def Let_def filesys_init_def)

text \<open>A descriptor read as the processor reads it.\<close>

definition seg_base :: "seg_desc \<Rightarrow> u32" where
  "seg_base d = push_bit 24 (ucast (base_31_24 d)) OR push_bit 16 (ucast (base_23_16 d)) OR ucast (base_15_00 d)"

definition seg_limit :: "seg_desc \<Rightarrow> u32" where
  "seg_limit d = push_bit 16 (ucast (seg_lim_19_16 d)) OR ucast (seg_lim_15_00 d)"

lemma split_base:
  fixes a :: u32
  shows "push_bit 24 (ucast (ucast (drop_bit 24 (a AND 0xFF000000)) :: u8)) OR
    push_bit 16 (ucast (ucast (drop_bit 16 (a AND 0x00FF0000)) :: u8)) OR
    ucast (ucast (a AND 0x0000FFFF) :: u16) = a"
proof -
  have m: "(0xFF000000 :: u32) = push_bit 24 (mask 8)" "(0x00FF0000 :: u32) = push_bit 16 (mask 8)"
    "(0x0000FFFF :: u32) = mask 16" by (simp_all add: mask_eq_exp_minus_1 push_bit_eq_mult)
  show ?thesis unfolding m
  proof (rule bit_word_eqI)
    fix n :: nat assume "n < LENGTH(32)"
    then consider "n < 16" | "16 \<le> n" "n < 24" | "24 \<le> n" "n < 32" by (simp, linarith)
    then show "bit (push_bit 24 (ucast (ucast (drop_bit 24 (a AND push_bit 24 (mask 8))) :: u8) :: u32) OR
        push_bit 16 (ucast (ucast (drop_bit 16 (a AND push_bit 16 (mask 8))) :: u8)) OR
        ucast (ucast (a AND mask 16) :: u16)) n = bit a n"
      by cases (auto simp: bit_simps)
  qed
qed

lemma split_limit:
  fixes lim :: u32
  shows "push_bit 16 (ucast (ucast (drop_bit 16 (lim AND 0x000F0000)) :: 4 word)) OR
    ucast (ucast (lim AND 0x0000FFFF) :: u16) = lim AND 0xFFFFF"
proof -
  have m: "(0x000F0000 :: u32) = push_bit 16 (mask 4)" "(0x0000FFFF :: u32) = mask 16" "(0xFFFFF :: u32) = mask 20"
    by (simp_all add: mask_eq_exp_minus_1 push_bit_eq_mult)
  show ?thesis unfolding m by (rule bit_word_eqI) (auto simp: bit_simps)
qed

lemma SET_PARAMS_decode [simp]:
  "seg_base (SET_TSS_PARAMS d a lim) = a" "seg_limit (SET_TSS_PARAMS d a lim) = lim AND 0xFFFFF"
  "seg_base (SET_LDT_PARAMS d a lim) = a" "seg_limit (SET_LDT_PARAMS d a lim) = lim AND 0xFFFFF"
  by (simp_all add: seg_base_def seg_limit_def SET_TSS_PARAMS_def SET_LDT_PARAMS_def split_base [simplified] split_limit [simplified])

section \<open>What \<open>entry\<close> leaves behind\<close>

lemma report_reported: "report a s = Some (ok, t) \<Longrightarrow> reported s t"
  by (rule report_keeps)

lemma entry_stages:
  assumes "entry syms magic a s = Some (True, t)"
  obtains u where "reported (clear s) u" "interrupts_on t" "magic = MULTIBOOT_BOOTLOADER_MAGIC"
    "console.more t = console.more (setup_devices (setup_vectors syms (setup_segments syms u)))"
proof -
  from assms have magic: "magic = MULTIBOOT_BOOTLOADER_MAGIC"
    by (auto simp: entry_def Let_def bind_eq_Some_conv split: if_splits)
  with assms obtain u v where u: "report a (clear s) = Some (True, u)"
    and v: "sayln ''Enabling Interrupts'' [] (setup_devices (setup_vectors syms (setup_segments syms u))) = Some v"
    and t: "launch_tests (sti v) = Some t"
    by (auto simp: entry_def Let_def bind_eq_Some_conv split: if_splits)
  have "console.more t = console.more (clear (sti v))" "eflags t = eflags (clear (sti v))"
    using t by (auto simp: launch_tests_def dest: say_keeps(2))
  moreover have "machine.more (sti v) = machine.more v" by simp
  then have "console.more (sti v) = console.more v" by (cases v; cases "sti v"; simp)
  moreover have "interrupts_on (sti v)" by simp
  ultimately have more: "console.more t = console.more v" and on: "interrupts_on t"
    by (simp_all add: interrupts_on_def)
  from that [OF report_reported [OF u] on magic] show thesis using more say_keeps(2) [OF v] by simp
qed

lemma console_more_translate:
  assumes "console.more (s :: 'a boot_scheme) = console.more t"
  shows "translate s va = translate t va"
proof -
  have "table_for b s = table_for b t" for b using console_fields [OF assms] by (simp add: table_for_def)
  then show ?thesis using console_fields [OF assms] by (simp add: translate_def Let_def)
qed

lemma setup_devices_translate:
  assumes "aligned (page_table_at s)"
  shows "translate (setup_devices s) va =
    (if 0xB8000 \<le> va \<and> va < 0xBC000 \<or> 0x400000 \<le> va \<and> va < 0x800000 then Some (va, False) else None)"
proof -
  let ?u = "enable_irq 8 (enable_irq 1 (rtc_init s))"
  have "translate (setup_devices s) va = translate (paging_init ?u) va"
    by (simp add: setup_devices_def Let_def filesys_init_def translate_def table_for_def)
  then show ?thesis using paging_init_maps [of ?u va] assms by simp
qed

lemma entry_runs:
  assumes "entry syms magic a s = Some (True, t)"
    and "pid_array s = replicate 6 PROG_NOT_ACTIVE" "curr_process s = 0" "esp s AND NOT PCB_MASK = BOOT_STACK"
  shows "runs t []" "fs_ptr t = bootBlock_addr t" "interrupts_on t"
proof -
  obtain u where u: "reported (clear s) u" "interrupts_on t"
    "console.more t = console.more (setup_devices (setup_vectors syms (setup_segments syms u)))"
    by (rule entry_stages [OF assms(1)])
  let ?d = "setup_devices (setup_vectors syms (setup_segments syms u))"
  note r = reported_fields [OF u(1)] and f = console_fields [OF u(3)] and c = console_fields [OF clear_boot]
  have dir: "length (page_directory ?d) = 1024" "blank ?d = blank (filesys_init 0 ?d)"
    by (simp_all add: setup_devices_def Let_def filesys_init_def paging_init_fields)
  have "dir_ok t" "blank_ok t"
    using dir(1) f(14) by (simp_all add: dir_ok_def blank_ok_def f(21) dir(2) filesys_init_def)
  then show "runs t []"
    using assms(2-4) by (simp add: runs_def f setup_stages r c in_kstack_def stack_page_def top_pid_def)
  show "fs_ptr t = bootBlock_addr t" "interrupts_on t" using u(2) by (simp_all add: f setup_stages)
qed

lemma entry_gates:
  assumes "entry syms magic a s = Some (True, t)" "idt s = idt_boot" "v < 256"
  shows "gate_target (idt t ! v) = at_handler syms (boot_vector v)" "gate_present (idt t ! v)"
    "seg_selector (idt t ! v) = KERNEL_CS" "dpl (idt t ! v) = (if v = SYSTEM_TRAP then 3 else 0)"
proof -
  obtain u where u: "reported (clear s) u"
    "console.more t = console.more (setup_devices (setup_vectors syms (setup_segments syms u)))"
    by (rule entry_stages [OF assms(1)])
  have i: "idt (setup_segments syms u) = idt_boot"
    using assms(2) reported_fields(1) [OF u(1)] console_fields(1) [OF clear_boot [of s]] by (simp add: setup_stages)
  have "idt t = idt (setup_vectors syms (setup_segments syms u))" using console_fields(1) [OF u(2)] by (simp add: setup_stages)
  then show "gate_target (idt t ! v) = at_handler syms (boot_vector v)" "gate_present (idt t ! v)"
    "seg_selector (idt t ! v) = KERNEL_CS" "dpl (idt t ! v) = (if v = SYSTEM_TRAP then 3 else 0)"
    using setup_vectors_gates [OF i assms(3), of syms] by simp_all
qed

lemma entry_segments:
  assumes "entry syms magic a s = Some (True, t)"
  shows "seg_base (tss_desc_ptr t) = at_tss syms" "seg_limit (tss_desc_ptr t) = 103"
    "seg_base (ldt_desc_ptr t) = at_ldt syms" "seg_limit (ldt_desc_ptr t) = 31"
    "seg_present (tss_desc_ptr t)" "seg_dpl (tss_desc_ptr t) = 0" "task_register t = KERNEL_TSS" "ldtr t = KERNEL_LDT"
    "tss_ss0 t = KERNEL_DS" "tss_esp0 t = 0x800000"
proof -
  obtain u where u: "console.more t = console.more (setup_devices (setup_vectors syms (setup_segments syms u)))"
    by (rule entry_stages [OF assms])
  note f = console_fields [OF u]
  have k: "seg_present (SET_TSS_PARAMS d x y) = seg_present d" "seg_dpl (SET_TSS_PARAMS d x y) = seg_dpl d" for d x y
    by (simp_all add: SET_TSS_PARAMS_def)
  show "seg_base (tss_desc_ptr t) = at_tss syms" "seg_limit (tss_desc_ptr t) = 103"
    "seg_base (ldt_desc_ptr t) = at_ldt syms" "seg_limit (ldt_desc_ptr t) = 31"
    "seg_present (tss_desc_ptr t)" "seg_dpl (tss_desc_ptr t) = 0" "task_register t = KERNEL_TSS" "ldtr t = KERNEL_LDT"
    "tss_ss0 t = KERNEL_DS" "tss_esp0 t = 0x800000"
    by (simp_all add: f setup_devices_def setup_vectors_def setup_segments_def filesys_init_def Let_def ldt_size_def
        tss_size_def k the_tss_desc_def)
qed

section \<open>A report that comes to an end\<close>

text \<open>What printing keeps, from the state \<open>s0\<close> the report starts in.\<close>

definition con_ready :: "'a console_scheme \<Rightarrow> bool" where
  "con_ready s \<longleftrightarrow> con_good s \<and> con_layout s"

definition still :: "'a console_scheme \<Rightarrow> 'a console_scheme \<Rightarrow> bool" where
  "still s t \<longleftrightarrow> con_ready t \<and> conv_buf_at t = conv_buf_at s \<and>
     (\<forall>b. b \<notin> screen_rng \<union> conv_rng s \<longrightarrow> mem t b = mem s b)"

definition safe :: "'a console_scheme \<Rightarrow> u32 set \<Rightarrow> bool" where
  "safe s A \<longleftrightarrow> A \<inter> (screen_rng \<union> conv_rng s) = {}"

lemma still_refl: "con_ready s \<Longrightarrow> still s s"
  by (simp add: still_def)

lemma still_trans: "still s t \<Longrightarrow> still t u \<Longrightarrow> still s u"
  by (simp add: still_def conv_rng_def)

lemma still_load32: "still s t \<Longrightarrow> safe s (rng a 4) \<Longrightarrow> load32 (mem t) a = load32 (mem s) a"
  by (rule load32_cong) (auto simp: still_def safe_def)

lemma safe_sub: "safe s A \<Longrightarrow> B \<subseteq> A \<Longrightarrow> safe s B"
  by (auto simp: safe_def)

lemma printed_still: "con_layout s \<Longrightarrow> printed cs s t \<Longrightarrow> still s t"
  by (simp add: still_def con_ready_def printed_def con_layout_def conv_rng_def)

lemma still_boot [simp]: "still s (t\<lparr>bootBlock_addr := b\<rparr>) = still s t"
  by (simp add: still_def con_ready_def con_good_def con_ok_def cursor_ok_def con_view_def con_layout_def conv_rng_def)

text \<open>A stage of the report: it returns, and all that changes is the console.\<close>

definition passes :: "'a console_scheme \<Rightarrow> ('a console_scheme \<Rightarrow> 'a console_scheme option) \<Rightarrow> bool" where
  "passes s0 f \<longleftrightarrow> (\<forall>s. still s0 s \<longrightarrow> (\<exists>t. f s = Some t \<and> still s0 t \<and> console.more t = console.more s))"

lemma passesE:
  assumes "passes s0 f" "still s0 s"
  obtains t where "f s = Some t" "still s0 t" "console.more t = console.more s"
  using assms unfolding passes_def by blast

lemma passes_bind: "passes s0 f \<Longrightarrow> passes s0 g \<Longrightarrow> passes s0 (\<lambda>s. f s \<bind> g)"
  unfolding passes_def by (metis bind.bind_lunit)

lemma passes_skip [simp]: "passes s0 Some"
  by (simp add: passes_def)

lemma passes_cong: "passes s0 f \<Longrightarrow> (\<And>s. still s0 s \<Longrightarrow> f s = g s) \<Longrightarrow> passes s0 g"
  unfolding passes_def by metis

lemma passes_if: "(P \<Longrightarrow> passes s0 f) \<Longrightarrow> passes s0 (\<lambda>s. if P then f s else Some s)"
  by (cases P) simp_all

lemma passes_printf:
  assumes "\<And>s. still s0 s \<Longrightarrow> list_all2 (arg_word s) ps args" "render None fmt ps = Some out"
  shows "passes s0 (\<lambda>s. do { (_, s) \<leftarrow> printf fmt args s; Some s })"
  unfolding passes_def
proof (intro allI impI)
  fix s assume s: "still s0 s"
  then have r: "con_good s" "con_layout s" by (simp_all add: still_def con_ready_def)
  obtain t where "printf fmt args s = Some (of_nat (length fmt), t)" "printed out s t"
    using printf_renders [OF r assms(1) [OF s] assms(2)] by blast
  with still_trans [OF s printed_still [OF r(2)]]
  show "\<exists>t. (do { (_, s) \<leftarrow> printf fmt args s; Some s }) = Some t \<and> still s0 t \<and> console.more t = console.more s"
    by (auto simp: printed_def)
qed

lemma passes_ints:
  assumes "render None (lit fmt @ [0x0A]) (map PInt args) = Some out"
  shows "passes s0 (sayln fmt args)"
  unfolding sayln_def by (rule passes_printf [OF _ assms]) (simp add: list_all2_conv_all_nth)

lemma passes_say:
  assumes "render None (lit fmt) (map PInt args) = Some out"
  shows "passes s0 (say fmt args)"
  unfolding say_def by (rule passes_printf [OF _ assms]) (simp add: list_all2_conv_all_nth)

text \<open>Structures a loader leaves: the information and what it points to lie beside the screen and
  the conversion buffer, the command line is a string, the \<open>n\<close> modules are in memory, and the
  memory map is \<open>k\<close> entries of the usual size.\<close>

definition info_ok :: "u32 \<Rightarrow> nat \<Rightarrow> nat \<Rightarrow> 'a console_scheme \<Rightarrow> bool" where
  "info_ok a n k s \<longleftrightarrow> con_layout s \<and> safe s (rng a 52) \<and>
     \<not> (CHECK_FLAG (mbi a 0 s) 4 \<and> CHECK_FLAG (mbi a 0 s) 5) \<and>
     (CHECK_FLAG (mbi a 0 s) 2 \<longrightarrow>
        (\<exists>xs. cstr (mem s) (mbi a 16 s) xs \<and> safe s (rng (mbi a 16 s) (Suc (length xs))))) \<and>
     (CHECK_FLAG (mbi a 0 s) 3 \<longrightarrow> n < 2 ^ 28 \<and> mbi a 20 s = of_nat n \<and> safe s (rng (mbi a 24 s) (16 * n))) \<and>
     (CHECK_FLAG (mbi a 0 s) 6 \<longrightarrow> mbi a 44 s = of_nat (24 * k) \<and> unat (mbi a 48 s) + 24 * k < 2 ^ 32 \<and>
        safe s (rng (mbi a 48 s) (24 * k)) \<and> (\<forall>i < k. load32 (mem s) (mbi a 48 s + of_nat (24 * i)) = 20))"

lemma info_mbi:
  assumes "info_ok a n k s0" "still s0 s" "off \<le> 48"
  shows "mbi a (of_nat off) s = mbi a (of_nat off) s0"
proof -
  have "rng (a + of_nat off) 4 \<subseteq> rng a 52" using rng_shift [of off 4 52 a] assms(3) by simp
  then have "safe s0 (rng (a + of_nat off) 4)" using assms(1) safe_sub unfolding info_ok_def by blast
  then show ?thesis unfolding mbi_def using still_load32 [OF assms(2)] by blast
qed

lemmas info_fields = info_mbi [where off = 0, simplified] info_mbi [where off = 4, simplified]
  info_mbi [where off = 8, simplified] info_mbi [where off = 12, simplified] info_mbi [where off = 16, simplified]
  info_mbi [where off = 20, simplified] info_mbi [where off = 24, simplified] info_mbi [where off = 28, simplified]
  info_mbi [where off = 32, simplified] info_mbi [where off = 36, simplified] info_mbi [where off = 40, simplified]
  info_mbi [where off = 44, simplified] info_mbi [where off = 48, simplified]

lemma passes_at:
  assumes "\<And>s. still s0 s \<Longrightarrow> args s = args s0" "render None (lit fmt @ [0x0A]) (map PInt (args s0)) = Some out"
  shows "passes s0 (\<lambda>s. sayln fmt (args s) s)"
  by (rule passes_cong [OF passes_ints [OF assms(2)]]) (simp only: assms(1))

lemma passes_when:
  assumes "\<And>s. still s0 s \<Longrightarrow> P s = P s0" "P s0 \<Longrightarrow> passes s0 f"
  shows "passes s0 (\<lambda>s. if P s then f s else Some s)"
  by (rule passes_cong [OF passes_if [where P = "P s0" and f = f]]) (use assms in auto)

lemma passes_elf:
  assumes "info_ok a n k s0"
  shows "passes s0 (report_elf a)"
  unfolding report_elf_def [abs_def]
  by (intro passes_when passes_at) (simp_all add: info_fields [OF assms] is_conv_def)

lemma passes_cmdline:
  assumes info: "info_ok a n k s0" and flag: "CHECK_FLAG (mbi a 0 s0) 2"
  shows "passes s0 (\<lambda>s. sayln ''cmdline = %s'' [mbi a 16 s] s)"
proof (rule passes_cong)
  from info flag obtain xs where xs: "cstr (mem s0) (mbi a 16 s0) xs" "safe s0 (rng (mbi a 16 s0) (Suc (length xs)))"
    unfolding info_ok_def by blast
  have arg: "list_all2 (arg_word s) [PStr xs] [mbi a 16 s0]" if "still s0 s" for s
  proof -
    have "cstr (mem s) (mbi a 16 s0) xs = cstr (mem s0) (mbi a 16 s0) xs"
      by (rule cstr_cong) (use that xs(2) in \<open>auto simp: still_def safe_def\<close>)
    moreover have "conv_rng s = conv_rng s0" using that by (simp add: still_def conv_rng_def)
    ultimately show ?thesis using xs by (simp add: safe_def)
  qed
  have "render None (lit ''cmdline = %s'' @ [0x0A]) [PStr xs] = Some (lit ''cmdline = '' @ xs @ [0x0A])"
    by (simp add: is_conv_def)
  then show "passes s0 (sayln ''cmdline = %s'' [mbi a 16 s0])"
    unfolding sayln_def [abs_def] by (rule passes_printf [rotated]) (rule arg)
qed (simp add: info_fields [OF info])

lemma passes_head:
  assumes info: "info_ok a n k s0"
  shows "passes s0 (report_head a)"
  unfolding report_head_def [abs_def]
  by (intro passes_bind passes_when passes_cmdline [OF info] passes_at)
    (simp_all add: info_fields [OF info] is_conv_def)

text \<open>The modules.\<close>

lemma still_mods:
  assumes "info_ok a n k s0" "CHECK_FLAG (mbi a 0 s0) 3" "still s0 s" "j < n" "off = 0 \<or> off = 4"
  shows "mbi (mbi a 24 s0 + of_nat (16 * j)) off s = mbi (mbi a 24 s0 + of_nat (16 * j)) off s0"
proof -
  obtain d :: nat where d: "off = of_nat d" "d \<le> 4" using assms(5) that [of 0] that [of 4] by auto
  have "rng (mbi a 24 s0 + of_nat (16 * j + d)) 4 \<subseteq> rng (mbi a 24 s0) (16 * n)"
    by (rule rng_shift) (use assms(4) d(2) in linarith)
  then have "safe s0 (rng (mbi a 24 s0 + of_nat (16 * j) + off) 4)"
    using assms(1,2) safe_sub unfolding info_ok_def d by (simp add: add.assoc) blast
  then show ?thesis unfolding mbi_def by (rule still_load32 [OF assms(3)])
qed

lemma passes_bytes: "passes s0 (first_bytes m is)"
proof (induction "is")
  case (Cons i "is")
  show ?case unfolding passes_def
  proof (intro allI impI)
    fix s assume s: "still s0 s"
    let ?a = "[scast (mem s (mbi m 0 s + of_nat i))] :: u32 list"
    have "render None (lit ''0x%x '') (map PInt ?a) = Some (lit ''0x'' @ x_text False (hd ?a) @ [0x20])"
      by (simp add: is_conv_def)
    then obtain u where "say ''0x%x '' ?a s = Some u" "still s0 u" "console.more u = console.more s"
      using passesE [OF passes_say s] by blast
    moreover obtain t where "first_bytes m is u = Some t" "still s0 t" "console.more t = console.more u"
      by (rule passesE [OF Cons.IH \<open>still s0 u\<close>])
    ultimately show "\<exists>t. first_bytes m (i # is) s = Some t \<and> still s0 t \<and> console.more t = console.more s" by simp
  qed
qed (simp add: passes_def)

lemma report_mods_ends:
  fixes s0 s :: "'a boot_scheme"
  assumes info: "info_ok a n k s0" and flag: "CHECK_FLAG (mbi a 0 s0) 3" and "still s0 s" "j \<le> n"
  shows "\<exists>t. report_mods a (mbi a 24 s0 + of_nat (16 * j)) (of_nat j) s = Some t \<and> still s0 t \<and>
    bootBlock_addr t = (if j < n then load32 (mem s0) (mbi a 24 s0 + of_nat (16 * (n - 1))) else bootBlock_addr s)"
  using assms(3,4)
proof (induction "n - j" arbitrary: j s)
  case 0
  have "\<not> (of_nat j :: u32) < mbi a 20 s" using 0 info flag info_fields(6) [OF info 0(2)] by (simp add: info_ok_def)
  with 0 show ?case by (subst report_mods.simps) simp
next
  case (Suc d)
  let ?m = "mbi a 24 s0 + of_nat (16 * j)" and ?k = "of_nat j :: u32"
  have n: "n < 2 ^ 28" "mbi a 20 s0 = of_nat n" using info flag by (simp_all add: info_ok_def)
  have lt: "?k < mbi a 20 s"
    using Suc n info_fields(6) [OF info Suc(3)] by (simp add: word_less_nat_alt unat_of_nat take_bit_nat_eq_self)
  have two: "render None (lit ''Module %d loaded at address: 0x%#x'' @ [0x0A]) (map PInt [?k, v]) =
      Some (lit ''Module '' @ d_text ?k @ lit '' loaded at address: 0x'' @ x_text True v @ [0x0A])"
    "render None (lit ''Module %d ends at address: 0x%#x'' @ [0x0A]) (map PInt [?k, v]) =
      Some (lit ''Module '' @ d_text ?k @ lit '' ends at address: 0x'' @ x_text True v @ [0x0A])" for v
    by (simp_all add: is_conv_def)
  have plain: "render None (lit ''First few bytes of module:'' @ [0x0A]) (map PInt []) =
      Some (lit ''First few bytes of module:'' @ [0x0A])" "render None (lit [] @ [0x0A]) (map PInt []) = Some [0x0A]"
    by simp_all
  obtain s1 where s1: "sayln ''Module %d loaded at address: 0x%#x'' [?k, mbi ?m 0 s] s = Some s1" "still s0 s1"
    by (rule passesE [OF passes_ints [OF two(1)] Suc(3)])
  let ?s1 = "s1\<lparr>bootBlock_addr := mbi ?m 0 s1\<rparr>"
  have "still s0 ?s1" using s1(2) by simp
  then obtain s2 where s2: "sayln ''Module %d ends at address: 0x%#x'' [?k, mbi ?m 4 ?s1] ?s1 = Some s2" "still s0 s2"
    "console.more s2 = console.more ?s1"
    by (rule passesE [OF passes_ints [OF two(2)]])
  obtain s3 where s3: "sayln ''First few bytes of module:'' [] s2 = Some s3" "still s0 s3" "console.more s3 = console.more s2"
    by (rule passesE [OF passes_ints [OF plain(1)] s2(2)])
  obtain s4 where s4: "first_bytes ?m [0..<16] s3 = Some s4" "still s0 s4" "console.more s4 = console.more s3"
    by (rule passesE [OF passes_bytes s3(2)])
  obtain s5 where s5: "sayln [] [] s4 = Some s5" "still s0 s5" "console.more s5 = console.more s4"
    by (rule passesE [OF passes_ints [OF plain(2)] s4(2)])
  have "console.more s5 = console.more ?s1" by (simp only: s5(3) s4(3) s3(3) s2(3))
  then have b: "bootBlock_addr s5 = mbi ?m 0 s0"
    using console_fields(8) [of s5 ?s1] still_mods [OF info flag s1(2), of j 0] Suc by simp
  have nxt: "?m + 16 = mbi a 24 s0 + of_nat (16 * Suc j)" "?k + 1 = of_nat (Suc j)" by simp_all
  have rec: "report_mods a ?m ?k s = report_mods a (?m + 16) (?k + 1) s5"
    using lt s1(1) s2(1) s3(1) s4(1) s5(1) by (subst report_mods.simps) (simp add: Let_def del: upt.simps)
  have "\<exists>t. report_mods a (mbi a 24 s0 + of_nat (16 * Suc j)) (of_nat (Suc j)) s5 = Some t \<and> still s0 t \<and>
      bootBlock_addr t = (if Suc j < n then load32 (mem s0) (mbi a 24 s0 + of_nat (16 * (n - 1))) else bootBlock_addr s5)"
    by (rule Suc(1)) (use Suc s5(2) in auto)
  moreover have "j = n - 1" if "\<not> Suc j < n" using that Suc by linarith
  ultimately show ?case unfolding rec nxt using Suc b by (auto simp: mbi_def)
qed

lemma map_entry_at:
  assumes "info_ok a n k s0" "CHECK_FLAG (mbi a 0 s0) 6" "still s0 s" "j \<le> k"
  shows "mbi a 48 s0 + of_nat (24 * j) < mbi a 48 s + mbi a 44 s \<longleftrightarrow> j < k"
    "j < k \<Longrightarrow> mbi (mbi a 48 s0 + of_nat (24 * j)) 0 s = 20"
proof -
  let ?m = "mbi a 48 s0"
  have k: "mbi a 44 s0 = of_nat (24 * k)" "unat ?m + 24 * k < 2 ^ 32" "safe s0 (rng ?m (24 * k))"
    "\<forall>i < k. load32 (mem s0) (?m + of_nat (24 * i)) = 20"
    using assms(1,2) by (simp_all add: info_ok_def)
  have at: "unat (?m + of_nat (24 * i)) = unat ?m + 24 * i" if "i \<le> k" for i
  proof -
    have "24 * i < 2 ^ 32" "unat ?m + 24 * i < 2 ^ 32" using k(2) that by linarith+
    then show ?thesis by (simp only: unat_word_ariths unat_of_nat) (simp add: take_bit_nat_eq_self)
  qed
  have "mbi a 48 s + mbi a 44 s = ?m + of_nat (24 * k)" using info_fields(12,13) [OF assms(1,3)] k(1) by simp
  then show "?m + of_nat (24 * j) < mbi a 48 s + mbi a 44 s \<longleftrightarrow> j < k"
    using at [OF assms(4)] at [of k] by (simp only: word_less_nat_alt) linarith
  assume j: "j < k"
  have "rng (?m + of_nat (24 * j)) 4 \<subseteq> rng ?m (24 * k)" by (rule rng_shift) (use j in linarith)
  then have "safe s0 (rng (?m + of_nat (24 * j)) 4)" using k(3) safe_sub by blast
  then show "mbi (?m + of_nat (24 * j)) 0 s = 20" using still_load32 [OF assms(3)] k(4) j by (simp add: mbi_def)
qed

lemma report_mmap_ends:
  assumes info: "info_ok a n k s0" and flag: "CHECK_FLAG (mbi a 0 s0) 6" and "still s0 s" "j \<le> k"
  shows "\<exists>t. report_mmap a (mbi a 48 s0 + of_nat (24 * j)) s = Some t \<and> still s0 t \<and> console.more t = console.more s"
  using assms(3,4)
proof (induction "k - j" arbitrary: j s)
  case 0
  with map_entry_at(1) [OF info flag 0(2,3)] show ?case by (subst report_mmap.simps) simp
next
  case (Suc d)
  let ?m = "mbi a 48 s0 + of_nat (24 * j)"
  let ?fmt = "''    size = 0x%x, base_addr = 0x%#x%#x'' @ [CHR 0x0A] @ ''    type = 0x%x,  length    = 0x%#x%#x''"
  have lt: "?m < mbi a 48 s + mbi a 44 s" using map_entry_at(1) [OF info flag Suc(3,4)] Suc(2) by simp
  have "\<exists>out. render None (lit ?fmt @ [0x0A]) (map PInt [v1, v2, v3, v4, v5, v6]) = Some out" for v1 v2 v3 v4 v5 v6
    by (simp add: is_conv_def)
  then obtain u where u: "sayln ?fmt [mbi ?m 0 s, mbi ?m 8 s, mbi ?m 4 s, mbi ?m 20 s, mbi ?m 16 s, mbi ?m 12 s] s = Some u"
    "still s0 u" "console.more u = console.more s"
    using passesE [OF passes_ints Suc(3)] by metis
  have "mbi ?m 0 u = 20" using map_entry_at(2) [OF info flag u(2) Suc(4)] Suc(2) by simp
  then have nxt: "?m + mbi ?m 0 u + 4 = mbi a 48 s0 + of_nat (24 * Suc j)" by simp
  have rec: "report_mmap a ?m s = report_mmap a (?m + mbi ?m 0 u + 4) u"
    using lt u(1) by (subst report_mmap.simps) simp
  have "\<exists>t. report_mmap a (mbi a 48 s0 + of_nat (24 * Suc j)) u = Some t \<and> still s0 t \<and> console.more t = console.more u"
    by (rule Suc(1)) (use Suc u(2) in auto)
  then show ?case unfolding rec nxt u(3) .
qed

text \<open>The report comes to an end, and the file system is the last module.\<close>

definition last_module :: "u32 \<Rightarrow> nat \<Rightarrow> 'a boot_scheme \<Rightarrow> u32" where
  "last_module a n s = (if CHECK_FLAG (mbi a 0 s) 3 \<and> 0 < n then mbi (mbi a 24 s + of_nat (16 * (n - 1))) 0 s
     else bootBlock_addr s)"

lemma report_ends:
  fixes s s0 :: "'a boot_scheme"
  assumes info: "info_ok a n k s" and s0: "still s s0" "bootBlock_addr s0 = bootBlock_addr s"
  obtains t where "report a s0 = Some (True, t)" "still s t" "bootBlock_addr t = last_module a n s"
proof -
  let ?f = "mbi a 0 s"
  obtain s1 where s1: "report_head a s0 = Some s1" "still s s1" "console.more s1 = console.more s0"
    by (rule passesE [OF passes_head [OF info] s0(1)])
  have b1: "bootBlock_addr s1 = bootBlock_addr s" using console_fields(8) [OF s1(3)] s0(2) by simp
  obtain s2 where s2: "(if CHECK_FLAG ?f 3 then report_mods a (mbi a 24 s) 0 s1 else Some s1) = Some s2" "still s s2"
    "bootBlock_addr s2 = last_module a n s"
  proof (cases "CHECK_FLAG ?f 3")
    case True
    from report_mods_ends [OF info True s1(2), of 0] b1 True that show ?thesis by (auto simp: last_module_def mbi_def)
  next
    case False
    with that [OF _ s1(2)] b1 show ?thesis by (simp add: last_module_def)
  qed
  obtain s3 where s3: "report_elf a s2 = Some s3" "still s s3" "console.more s3 = console.more s2"
    by (rule passesE [OF passes_elf [OF info] s2(2)])
  obtain t where t: "(if CHECK_FLAG ?f 6 then do {
        s \<leftarrow> sayln ''mmap_addr = 0x%#x, mmap_length = 0x%x'' [mbi a 48 s3, mbi a 44 s3] s3;
        report_mmap a (mbi a 48 s) s } else Some s3) = Some t" "still s t" "console.more t = console.more s3"
  proof (cases "CHECK_FLAG ?f 6")
    case True
    have "\<exists>out. render None (lit ''mmap_addr = 0x%#x, mmap_length = 0x%x'' @ [0x0A]) (map PInt [v, w]) = Some out" for v w
      by (simp add: is_conv_def)
    then obtain u where u: "sayln ''mmap_addr = 0x%#x, mmap_length = 0x%x'' [mbi a 48 s3, mbi a 44 s3] s3 = Some u"
      "still s u" "console.more u = console.more s3"
      using passesE [OF passes_ints s3(2)] by metis
    have "mbi a 48 u = mbi a 48 s" by (rule info_fields(13) [OF info u(2)])
    with report_mmap_ends [OF info True u(2), of 0] u(1,3) True that show ?thesis by auto
  next
    case False
    with that [OF _ s3(2)] show ?thesis by simp
  qed
  have fl: "mbi a 0 s1 = ?f" "mbi a 0 s2 = ?f" "mbi a 0 s3 = ?f" "mbi a 24 s1 = mbi a 24 s"
    by (rule info_fields [OF info s1(2)] info_fields [OF info s2(2)] info_fields [OF info s3(2)])+
  have both: "\<not> (CHECK_FLAG ?f 4 \<and> CHECK_FLAG ?f 5)" using info by (simp add: info_ok_def)
  have "report a s0 = Some (True, t)"
    unfolding report_def s1(1) bind.bind_lunit fl s2(1) using both s3(1) t(1) fl(3)
    by (auto simp: bind_eq_Some_conv)
  moreover have "bootBlock_addr t = last_module a n s"
    using console_fields(8) [OF t(3)] console_fields(8) [OF s3(3)] s2(3) by simp
  ultimately show thesis using that t(2) by blast
qed

section \<open>A start that comes to an end\<close>

lemma clear_still: "con_layout s \<Longrightarrow> still s (clear s)"
  by (simp add: still_def con_ready_def con_layout_def conv_rng_def con_good_def clear_view clear_mem)

text \<open>The devices are set up beside the screen: no access goes to the ports of the display.\<close>

lemma setup_cursor:
  "crtc_cursor (io (i8259_init t)) = crtc_cursor (io t)" "crtc_cursor (io (paging_init v)) = crtc_cursor (io v)"
  by (simp_all add: crtc_quiet i8259_init_def paging_init_def Let_def MASTER_8259_DATA_PORT_def SLAVE_8259_DATA_PORT_def
      MASTER_8259_PORT_def SLAVE_8259_PORT_def VGA_PORT_def)

lemma setup_mem:
  "mem (enable_irq n s) = mem s" "mem (i8259_init t) = mem t" "mem (rtc_init u) = mem u"
  "mem (paging_init v) = mem v" "screen_x (paging_init v) = screen_x v" "screen_y (paging_init v) = screen_y v"
  "conv_buf_at (paging_init v) = conv_buf_at v"
  by (simp_all add: i8259_init_def paging_init_def Let_def flush_tlb_def user_pde_def NUM_ENTRIES_def pde_present_def
      PDE_IDX_SHIFT_def USER_BASE_def bit_numeral_rec drop_bit_eq_div)

lemma i8259_init_con: "screen_x (i8259_init s) = screen_x s" "screen_y (i8259_init s) = screen_y s"
  "conv_buf_at (i8259_init s) = conv_buf_at s"
  using machine_more_frame [of "i8259_init s" s] by (simp_all add: i8259_init_def Let_def)

lemma still_same:
  assumes "still s0 s" "mem t = mem s" "screen_x t = screen_x s" "screen_y t = screen_y s" "conv_buf_at t = conv_buf_at s"
    "crtc_cursor (io t) = crtc_cursor (io s)"
  shows "still s0 t"
  using assms(1) unfolding still_def con_ready_def con_good_def con_ok_def cursor_ok_def con_view_def con_layout_def
    conv_rng_def assms(2-6) by auto

lemma setup_still:
  "still s0 s \<Longrightarrow> still s0 (setup_devices (setup_vectors syms (setup_segments syms s)))"
proof -
  assume "still s0 s"
  then show ?thesis
    by (rule still_same) (simp_all add: setup_devices_def setup_vectors_def setup_segments_def filesys_init_def Let_def
        setup_mem setup_cursor crtc_clock i8259_init_con)
qed

lemma setup_block:
  "bootBlock_addr (setup_vectors syms s) = bootBlock_addr s" "bootBlock_addr (setup_segments syms s) = bootBlock_addr s"
  "exec_filename_at (setup_vectors syms s) = exec_filename_at s" "exec_filename_at (setup_segments syms s) = exec_filename_at s"
  "exec_filename_at (setup_devices s) = exec_filename_at s" "exec_buffer_at (setup_devices s) = exec_buffer_at s"
  "exec_buffer_at (setup_vectors syms s) = exec_buffer_at s" "exec_buffer_at (setup_segments syms s) = exec_buffer_at s"
proof -
  have "exec_filename_at (paging_init t) = exec_filename_at t" "exec_buffer_at (paging_init t) = exec_buffer_at t"
    for t :: "'a boot_scheme"
    by (simp_all add: paging_init_def Let_def flush_tlb_def)
  then show "exec_filename_at (setup_devices s) = exec_filename_at s" "exec_buffer_at (setup_devices s) = exec_buffer_at s"
    by (simp_all add: setup_devices_def Let_def filesys_init_def)
qed (simp_all add: setup_vectors_def setup_segments_def Let_def)

lemma passes_plain: "0x25 \<notin> set (lit fmt @ [0x0A]) \<Longrightarrow> passes s0 (sayln fmt [])"
  by (rule passes_ints) (simp only: list.map, rule render_plain)

lemma entry_ends:
  fixes s :: "'a boot_scheme"
  assumes info: "info_ok a n k s"
  shows "\<exists>t. entry syms MULTIBOOT_BOOTLOADER_MAGIC a s = Some (True, t) \<and> still s t \<and> fs_ptr t = last_module a n s"
proof -
  have lay: "con_layout s" using info by (simp add: info_ok_def)
  have "bootBlock_addr (clear s) = bootBlock_addr s" by (rule console_fields [OF clear_boot])
  then obtain u where u: "report a (clear s) = Some (True, u)" "still s u" "bootBlock_addr u = last_module a n s"
    by (rule report_ends [OF info clear_still [OF lay]])
  let ?d = "setup_devices (setup_vectors syms (setup_segments syms u))"
  have plain: "0x25 \<notin> set (lit ''Enabling Interrupts'' @ [0x0A])"
    "0x25 \<notin> set (lit '' ========== STARTING TESTS =========='' @ [0x0A])" by simp_all
  obtain v where v: "sayln ''Enabling Interrupts'' [] ?d = Some v" "still s v" "console.more v = console.more ?d"
    by (rule passesE [OF passes_plain [OF plain(1)] setup_still [OF u(2)]])
  have "still s (sti v)" by (rule still_same [OF v(2)]) (simp_all add: sti_def)
  moreover from this have "con_layout (sti v)" by (simp add: still_def con_ready_def)
  ultimately have "still s (clear (sti v))" by (rule still_trans [OF _ clear_still])
  then obtain t where t: "launch_tests (sti v) = Some t" "still s t" "console.more t = console.more (clear (sti v))"
    unfolding launch_tests_def by (rule passesE [OF passes_plain [OF plain(2)]])
  have "console.more (clear (sti v)) = console.more v" by (cases v) (simp add: sti_def)
  then have "console.more t = console.more ?d" using t(3) v(3) by simp
  then have "fs_ptr t = last_module a n s" using u(3) console_fields(20) [of t ?d] by (simp add: setup_stages setup_block)
  moreover have "entry syms MULTIBOOT_BOOTLOADER_MAGIC a s = Some (True, t)"
    using u(1) v(1) t(1) by (simp add: entry_def Let_def)
  ultimately show ?thesis using t(2) by blast
qed

lemma entry_wrong_magic:
  fixes s :: "'a boot_scheme"
  assumes "con_layout s" "magic \<noteq> MULTIBOOT_BOOTLOADER_MAGIC"
  shows "\<exists>t. entry syms magic a s = Some (False, t) \<and> still s t \<and> console.more t = console.more s"
proof -
  have "\<exists>out. render None (lit ''Invalid magic number: 0x%#x'' @ [0x0A]) (map PInt [magic]) = Some out"
    by (simp add: is_conv_def)
  then obtain t where "sayln ''Invalid magic number: 0x%#x'' [magic] (clear s) = Some t" "still s t"
    "console.more t = console.more (clear s)"
    using passesE [OF passes_ints clear_still [OF assms(1)]] by metis
  then show ?thesis using assms(2) by (simp add: entry_def Let_def)
qed

lemma boot_starts:
  fixes s :: "'a boot_scheme"
  assumes info: "info_ok a m k s" and fs: "fs = last_module a m s"
    and idle: "pid_array s = replicate 6 PROG_NOT_ACTIVE" "curr_process s = 0" "esp s AND NOT PCB_MASK = BOOT_STACK"
    and ready: "exec_ready (s\<lparr>fs_ptr := fs\<rparr>) shell xs i args n"
    and apart: "safe s (img_rng (mem s) fs \<union> rng shell (Suc (length xs)))"
  obtains t u where "entry syms MULTIBOOT_BOOTLOADER_MAGIC a s = Some (True, t)" "runs t []" "pid_array t = pid_array s"
    "execute shell t = Some (Enter (load32 (mem u) (PROGRAM_IMAGE + 24)) 0x83FFFFC, u)"
    "bytes_at (mem u) PROGRAM_IMAGE (length (file_content (mem s) fs (unat (dentry_inode (dentry_of (s\<lparr>fs_ptr := fs\<rparr>) i)))))
       = file_content (mem s) fs (unat (dentry_inode (dentry_of (s\<lparr>fs_ptr := fs\<rparr>) i)))"
    "n < 6" "exec_safe t shell xs" "still s t" "fs_ptr t = fs" "exec_filename_at t = exec_filename_at s"
    "exec_buffer_at t = exec_buffer_at s"
proof -
  let ?s = "s\<lparr>fs_ptr := fs\<rparr>"
  obtain t where t: "entry syms MULTIBOOT_BOOTLOADER_MAGIC a s = Some (True, t)" "still s t" "fs_ptr t = fs"
    using entry_ends [OF info] unfolding fs by blast
  obtain v where v: "reported (clear s) v"
    "console.more t = console.more (setup_devices (setup_vectors syms (setup_segments syms v)))"
    by (rule entry_stages [OF t(1)])
  have at: "exec_filename_at t = exec_filename_at s" "exec_buffer_at t = exec_buffer_at s" "pid_array t = pid_array s"
    using console_fields(9,23,24) [OF v(2)] console_fields(9,23,24) [OF v(1) [unfolded reported_def]]
      console_fields(9,23,24) [OF clear_boot [of s]] by (simp_all add: setup_stages setup_block)
  have same: "mem t b = mem s b" if "b \<in> img_rng (mem s) fs \<union> rng shell (Suc (length xs))" for b
    using t(2) apart that by (auto simp: still_def safe_def)
  have "img_agree (mem ?s) (fs_ptr ?s) (mem t)" "fs_ptr t = fs_ptr ?s" using same t(3) by (simp_all add: img_agree_def)
  note e = exec_ready_same [OF ready this]
  have c: "mem t b = mem ?s b" if "b \<in> rng shell (Suc (length xs))" for b using same that by simp
  have at2: "exec_filename_at t = exec_filename_at ?s" "exec_buffer_at t = exec_buffer_at ?s" "pid_array t = pid_array ?s"
    using at by simp_all
  have rdy: "exec_ready t shell xs i args n" by (rule e(1) [OF c at2])
  moreover have "file_content (mem t) (fs_ptr t) (unat (dentry_inode (dentry_of t i))) =
      file_content (mem s) fs (unat (dentry_inode (dentry_of ?s i)))"
    using e(2) [OF c at2] by simp
  ultimately obtain u where u: "execute shell t = Some (Enter (load32 (mem u) (PROGRAM_IMAGE + 24)) 0x83FFFFC, u)"
    "bytes_at (mem u) PROGRAM_IMAGE (length (file_content (mem s) fs (unat (dentry_inode (dentry_of ?s i)))))
       = file_content (mem s) fs (unat (dentry_inode (dentry_of ?s i)))"
    using execute_ready [of t shell xs i args n] by (auto simp del: cstr.simps)
  have "n < 6" using ready by (simp add: exec_ready_def free_pids_def)
  with that [OF t(1) entry_runs(1) [OF t(1) idle] at(3) u] exec_ready_safe [OF rdy] t(2,3) at(1,2) show thesis by blast
qed

definition zero_desc :: seg_desc where
  "zero_desc = \<lparr>seg_lim_15_00 = 0, base_15_00 = 0, base_23_16 = 0, seg_type = 0, seg_sys = False, seg_dpl = 0,
     seg_present = False, seg_lim_19_16 = 0, seg_avail = False, seg_reserved = False, seg_opsize = False,
     seg_granularity = False, base_31_24 = 0\<rparr>"

lemma entry_translate:
  assumes "entry syms magic a s = Some (True, t)" "aligned (page_table_at s)"
  shows "translate t va =
    (if 0xB8000 \<le> va \<and> va < 0xBC000 \<or> 0x400000 \<le> va \<and> va < 0x800000 then Some (va, False) else None)"
proof -
  obtain u where u: "reported (clear s) u"
    "console.more t = console.more (setup_devices (setup_vectors syms (setup_segments syms u)))"
    by (rule entry_stages [OF assms(1)])
  have "page_table_at (setup_vectors syms (setup_segments syms u)) = page_table_at s"
    using reported_fields(5) [OF u(1)] console_fields(16) [OF clear_boot [of s]] by (simp add: setup_stages)
  then show ?thesis
    using setup_devices_translate [of "setup_vectors syms (setup_segments syms u)" va] assms(2)
    unfolding console_more_translate [OF u(2)] by (simp only: simp_thms)
qed

definition linked_at :: symbols where
  "linked_at = \<lparr>at_handler = (\<lambda>h. case h of SystemCallHandler \<Rightarrow> 0x401A00 | RtcHandler \<Rightarrow> 0x401A40 | KeyHandler \<Rightarrow> 0x401A80
     | PageFault \<Rightarrow> 0x401B00 | _ \<Rightarrow> 0x401C00), at_ldt = 0x410000, at_tss = 0x410100, stack_junk = zero_desc\<rparr>"

text \<open>A machine as the boot loader leaves it, with its information structure at 64 KB and the image of
  the file system as the one module.\<close>

definition boot_info :: "u8 list" where
  "boot_info = [8, 0, 0, 0, 0, 0, 0, 0, 0, 0, 0, 0, 0, 0, 0, 0, 0, 0, 0, 0, 1, 0, 0, 0, 0x40, 0, 1, 0]"

definition boot_module :: "u8 list" where
  "boot_module = [0, 0, 0x50, 0, 0, 0x30, 0x50, 0]"

definition boot_mem :: "u32 \<Rightarrow> u8" where
  "boot_mem = store_bytes (store_bytes disk_mem 0x10000 boot_info) 0x10040 boot_module"

definition boot0 :: boot where
  "boot0 = kernel.extend (kernel0\<lparr>mem := boot_mem, eflags := 0, fs_ptr := 0\<rparr>) \<lparr>idt = idt_boot, ldt_desc_ptr = zero_desc,
     tss_desc_ptr = zero_desc, tss_ss0 = 0, tss_ldt_selector = 0, ldtr = 0, task_register = 0, bootBlock_addr = 0\<rparr>"

lemma boot0_fields [simp]:
  "idt boot0 = idt_boot" "pid_array boot0 = replicate 6 PROG_NOT_ACTIVE" "curr_process boot0 = 0" "page_table_at boot0 = 0x402000"
  "mem boot0 = boot_mem" "esp boot0 AND NOT PCB_MASK = BOOT_STACK" "conv_buf_at boot0 = 0x700000"
  "exec_filename_at boot0 = exec_filename_at kernel0" "exec_buffer_at boot0 = exec_buffer_at kernel0"
  by (simp_all add: boot0_def kernel.defs kernel0_def kernel1_def filesys.defs disk_def paging.defs bare_def keyboard.defs
      desk_def PROG_NOT_ACTIVE_def PCB_MASK_def BOOT_STACK_def numeral_eq_Suc)

lemma boot_mem_other: "b \<notin> rng 0x10000 80 \<Longrightarrow> boot_mem b = disk_mem b"
proof -
  assume b: "b \<notin> rng 0x10000 80"
  have len: "length boot_info = 28" "length boot_module = 8" by (simp_all add: boot_info_def boot_module_def)
  have "rng 0x10000 28 \<subseteq> rng 0x10000 (80 :: nat)" by (rule rng_mono) simp
  moreover have "rng 0x10040 8 \<subseteq> rng 0x10000 (80 :: nat)" using rng_shift [of 64 8 80 "0x10000"] by simp
  ultimately have "b \<notin> rng 0x10000 (length boot_info)" "b \<notin> rng 0x10040 (length boot_module)"
    unfolding len using b by blast+
  then show ?thesis by (simp only: boot_mem_def store_bytes_other simp_thms)
qed

lemma boot0_mbi:
  "mbi 0x10000 0 boot0 = 8" "mbi 0x10000 20 boot0 = 1" "mbi 0x10000 24 boot0 = 0x10040" "mbi 0x10040 0 boot0 = 0x500000"
  by (simp_all add: mbi_def load32_def boot_mem_def boot_info_def boot_module_def)

lemma boot0_flags: "\<not> CHECK_FLAG 8 2" "CHECK_FLAG 8 3" "\<not> CHECK_FLAG 8 4" "\<not> CHECK_FLAG 8 5" "\<not> CHECK_FLAG 8 6"
  by (simp_all add: CHECK_FLAG_def push_bit_eq_mult)

lemma boot0_safe: "safe boot0 A" if "A \<subseteq> rng 0x10000 80 \<or> A \<subseteq> rng 0x500000 12288 \<or> A \<subseteq> rng 0x600020 13"
proof -
  have "rng 0x10000 80 \<inter> rng VIDEO 4000 = {}" "rng 0x500000 12288 \<inter> rng VIDEO 4000 = {}" "rng 0x600020 13 \<inter> rng VIDEO 4000 = {}"
    "rng 0x10000 80 \<inter> rng 0x700000 64 = {}" "rng 0x500000 12288 \<inter> rng 0x700000 64 = {}" "rng 0x600020 13 \<inter> rng 0x700000 64 = {}"
    by (rule rng_disjointI; simp add: VIDEO_def)+
  with that show ?thesis unfolding safe_def conv_rng_def screen_rng_def by simp blast
qed

lemma boot0_info: "info_ok 0x10000 1 0 boot0"
proof -
  have "con_layout boot0"
    unfolding con_layout_def conv_rng_def screen_rng_def by (simp, rule rng_disjointI) (simp_all add: VIDEO_def)
  moreover have "rng 0x10000 52 \<subseteq> rng 0x10000 (80 :: nat)" by (rule rng_mono) simp
  then have "safe boot0 (rng 0x10000 52)" using boot0_safe by blast
  moreover have "rng 0x10040 16 \<subseteq> rng 0x10000 (80 :: nat)" using rng_shift [of 64 16 80 "0x10000"] by simp
  ultimately show ?thesis using boot0_safe by (simp add: info_ok_def boot0_mbi boot0_flags)
qed

lemma boot0_last: "last_module 0x10000 1 boot0 = 0x500000"
  by (simp add: last_module_def boot0_mbi boot0_flags)

lemma boot0_image: "b \<in> rng 0x500000 12288 \<union> rng 0x600020 13 \<Longrightarrow> boot_mem b = disk_mem b"
proof (rule boot_mem_other)
  have "rng 0x500000 12288 \<inter> rng 0x10000 80 = {}" "rng 0x600020 13 \<inter> rng 0x10000 80 = {}"
    by (rule rng_disjointI; simp)+
  moreover assume "b \<in> rng 0x500000 12288 \<union> rng 0x600020 13"
  ultimately show "b \<notin> rng 0x10000 80" by blast
qed

lemma boot0_ready:
  "exec_ready (boot0\<lparr>fs_ptr := 0x500000\<rparr>) 0x600020 (lit ''prog  hi you'') 1 [lit ''hi'', lit ''you''] 0"
  "safe boot0 (img_rng (mem boot0) 0x500000 \<union> rng 0x600020 (Suc (length (lit ''prog  hi you''))))"
  "file_content boot_mem 0x500000 (unat (dentry_inode (dentry_of (boot0\<lparr>fs_ptr := 0x500000\<rparr>) 1))) = prog_bytes"
proof -
  let ?t = "boot0\<lparr>fs_ptr := 0x500000\<rparr>" and ?xs = "lit ''prog  hi you''"
  have k: "mem kernel0 = disk_mem" "fs_ptr kernel0 = 0x500000" by (simp_all add: kernel0_def)
  have n: "Suc (length ?xs) = 13" by simp
  have agree: "img_agree (mem kernel0) (fs_ptr kernel0) (mem ?t)"
    unfolding img_agree_def k disk_rng using boot0_image by simp
  have fs: "fs_ptr ?t = fs_ptr kernel0" by (simp add: k)
  have at: "exec_filename_at ?t = exec_filename_at kernel0" "exec_buffer_at ?t = exec_buffer_at kernel0"
    "pid_array ?t = pid_array kernel0"
    by (simp_all add: kernel0_def PROG_NOT_ACTIVE_def numeral_eq_Suc)
  show "exec_ready ?t 0x600020 ?xs 1 [lit ''hi'', lit ''you''] 0"
    by (rule exec_ready_same(1) [OF kernel0_ready agree fs _ at], unfold n k) (use boot0_image in simp)
  have "img_rng boot_mem 0x500000 = rng 0x500000 12288"
    using img_ok_same(2) [OF agree] disk_img_ok disk_rng by (simp add: k)
  then show "safe boot0 (img_rng (mem boot0) 0x500000 \<union> rng 0x600020 (Suc (length ?xs)))"
    unfolding n using boot0_safe [of "rng 0x500000 12288"] boot0_safe [of "rng 0x600020 13"]
    by (simp add: safe_def Int_Un_distrib2)
  have "dentry_of ?t 1 = dentry_of kernel0 1" by (rule dentry_of_same [OF agree fs]) simp
  moreover have "dentry_of kernel0 1 = dentry_of disk 1" by (simp add: dentry_of_def dentry_addr_def k)
  ultimately have ino: "unat (dentry_inode (dentry_of kernel0 1)) = 0" "dentry_of ?t 1 = dentry_of kernel0 1"
    by (simp_all add: disk_dir del: One_nat_def)
  have "file_content (mem ?t) (fs_ptr ?t) (unat (dentry_inode (dentry_of ?t 1))) =
      file_content (mem kernel0) (fs_ptr kernel0) (unat (dentry_inode (dentry_of kernel0 1)))"
    by (rule exec_ready_same(2) [OF kernel0_ready agree fs _ at], unfold n k) (use boot0_image in simp)
  then show "file_content boot_mem 0x500000 (unat (dentry_inode (dentry_of ?t 1))) = prog_bytes"
    by (simp add: ino k del: One_nat_def)
qed

lemma boot0_laid_out:
  assumes "still boot0 t" "fs_ptr t = 0x500000" "exec_filename_at t = exec_filename_at boot0" "exec_buffer_at t = exec_buffer_at boot0"
  shows "laid_out t []" "0x501000 \<in> img_rng (mem t) (fs_ptr t)"
proof -
  have at: "exec_filename_at t = 0x610000" "exec_buffer_at t = 0x610100" "conv_rng t = rng 0x700000 64"
    using assms by (simp_all add: kernel0_def still_def conv_rng_def)
  have d: "rng 0x500000 12288 \<inter> screen_rng = {}" "rng 0x500000 12288 \<inter> rng 0x700000 64 = {}"
    unfolding screen_rng_def by (rule rng_disjointI; simp add: VIDEO_def)+
  have same: "mem t b = disk_mem b" if "b \<in> rng 0x500000 12288" for b
  proof -
    have "b \<notin> screen_rng \<union> conv_rng boot0" using d that by (auto simp: conv_rng_def)
    then have "mem t b = boot_mem b" using assms(1) by (simp add: still_def)
    then show ?thesis using boot0_image that by simp
  qed
  then have agree: "img_agree disk_mem 0x500000 (mem t)" by (simp add: img_agree_def disk_rng)
  note im = img_ok_same [OF agree disk_img_ok, unfolded disk_rng]
  have g: "con_good t" using assms(1) by (simp add: still_def con_ready_def)
  have "rng 0x500000 12288 \<inter> (user_bytes \<union> arg_areas) = {}" "rng 0x700000 64 \<inter> (user_bytes \<union> arg_areas) = {}"
    "rng 0x610000 32 \<inter> (user_bytes \<union> arg_areas) = {}" "rng 0x610100 128 \<inter> (user_bytes \<union> arg_areas) = {}"
    by (rule low_apart; simp)+
  moreover have "rng 0x500000 12288 \<inter> rng 0x610000 32 = {}" "rng 0x500000 12288 \<inter> rng 0x610100 128 = {}"
    by (rule rng_disjointI; simp)+
  ultimately show "laid_out t []"
    using g im d(2) unfolding laid_out_def assms(2) im(2) writable_def kernel_buffers_def at by simp blast
  show "0x501000 \<in> img_rng (mem t) (fs_ptr t)" unfolding assms(2) im(2) by (simp add: mem_rng_iff)
qed

lemma boot0_entry: "\<exists>t. entry syms MULTIBOOT_BOOTLOADER_MAGIC 0x10000 boot0 = Some (True, t)"
  using entry_ends [OF boot0_info] by blast

section \<open>Properties of the start\<close>

text \<open>C20. \<open>entry\<close> makes the machine the rest of the kernel relies on, whatever the boot loader
  reports: all 256 gates are present and lead to their handlers, and only the one of the system
  calls may be used by a program; the descriptor of the task state segment is that of \<^verbatim>\<open>tss\<close> with
  its size, and a trap finds the stack at 8 MB; no program runs, the file system is the last module,
  the screen and the kernel are all that is mapped, and interrupts are on.\<close>

theorem entry_establishes:
  assumes "entry syms magic a s = Some (True, t)" "idt s = idt_boot"
    and "pid_array s = replicate 6 PROG_NOT_ACTIVE" "curr_process s = 0" "esp s AND NOT PCB_MASK = BOOT_STACK"
    and "aligned (page_table_at s)"
  shows "(\<forall>v. v < 256 \<longrightarrow> gate_target (idt t ! v) = at_handler syms (boot_vector v) \<and> gate_present (idt t ! v) \<and>
      seg_selector (idt t ! v) = KERNEL_CS \<and> dpl (idt t ! v) = (if v = 0x80 then 3 else 0)) \<and>
    seg_base (tss_desc_ptr t) = at_tss syms \<and> seg_limit (tss_desc_ptr t) = 103 \<and> tss_esp0 t = 0x800000 \<and>
    runs t [] \<and> fs_ptr t = bootBlock_addr t \<and> interrupts_on t \<and>
    (\<forall>va. translate t va =
      (if 0xB8000 \<le> va \<and> va < 0xBC000 \<or> 0x400000 \<le> va \<and> va < 0x800000 then Some (va, False) else None))"
  using entry_gates [OF assms(1,2)] entry_segments [OF assms(1)] entry_runs [OF assms(1,3-5)]
    entry_translate [OF assms(1,6)] by (simp add: SYSTEM_TRAP_def)

theorem entry_establishes_witness:
  "\<exists>t. entry linked_at MULTIBOOT_BOOTLOADER_MAGIC 0x10000 boot0 = Some (True, t) \<and> runs t [] \<and> interrupts_on t \<and>
     gate_target (idt t ! 14) = 0x401B00 \<and> dpl (idt t ! 0x80) = 3"
proof -
  obtain t where t: "entry linked_at MULTIBOOT_BOOTLOADER_MAGIC 0x10000 boot0 = Some (True, t)"
    using boot0_entry by blast
  have "boot_vector 14 = PageFault"
    by (simp add: boot_vector_def vector_handler_def exception_handlers_def SYSTEM_TRAP_def)
  then show ?thesis using entry_establishes [OF t] t by (simp add: linked_at_def aligned_def)
qed

text \<open>C21. \<open>entry\<close> comes to an end on every information structure of the usual form, with command
  line, modules and memory map: called by a multiboot loader it reaches its last loop, with the last
  module as the file system and all memory but the screen and the conversion buffer as it was; called
  otherwise it returns, having done no more than to print.\<close>

theorem entry_comes_up:
  fixes s :: "'a boot_scheme"
  assumes "info_ok a n k s"
  shows "(\<exists>t. entry syms MULTIBOOT_BOOTLOADER_MAGIC a s = Some (True, t) \<and> fs_ptr t = last_module a n s \<and>
      (\<forall>b. b \<notin> screen_rng \<union> conv_rng s \<longrightarrow> mem t b = mem s b)) \<and>
    (\<forall>magic. magic \<noteq> MULTIBOOT_BOOTLOADER_MAGIC \<longrightarrow>
      (\<exists>t. entry syms magic a s = Some (False, t) \<and> console.more t = console.more s))"
proof -
  have "con_layout s" using assms by (simp add: info_ok_def)
  then show ?thesis using entry_ends [OF assms] entry_wrong_magic unfolding still_def by blast
qed

theorem entry_comes_up_witness:
  "\<exists>t. entry linked_at 0x2BADB002 0x10000 boot0 = Some (True, t) \<and> fs_ptr t = 0x500000"
  using entry_comes_up [OF boot0_info, of linked_at]
  unfolding boot0_last MULTIBOOT_BOOTLOADER_MAGIC_def by blast

end
