(* ===== verification/Ulib.thy ===== *)
theory Ulib
  imports Dispatch
begin

text \<open>
  The library the user programs are linked with: \<^verbatim>\<open>syscalls/ece391support.c\<close>, the wrappers of
  \<^verbatim>\<open>syscalls/ece391syscall.S\<close> and the call numbers of \<^verbatim>\<open>syscalls/ece391sysnum.h\<close> (the programs
  of \<^verbatim>\<open>fish\<close> have copies of them). A program sees the memory of the machine, in which its window
  shows its own frame; a system call is one run of \<open>system_call_handler\<close> that returns.
\<close>

section \<open>Strings\<close>

partial_function (option) ece391_strlen_loop :: "(u32 \<Rightarrow> u8) \<Rightarrow> u32 \<Rightarrow> u32 \<Rightarrow> u32 option" where
  "ece391_strlen_loop m s len = (if m s \<noteq> 0 then ece391_strlen_loop m (s + 1) (len + 1) else Some len)"

definition ece391_strlen :: "(u32 \<Rightarrow> u8) \<Rightarrow> u32 \<Rightarrow> u32 option" where
  "ece391_strlen m s = ece391_strlen_loop m s 0"

partial_function (option) ece391_strcpy :: "(u32 \<Rightarrow> u8) \<Rightarrow> u32 \<Rightarrow> u32 \<Rightarrow> (u32 \<Rightarrow> u8) option" where
  "ece391_strcpy m dst src =
     (let c = m src; m = m(dst := c) in
      if c \<noteq> 0 then ece391_strcpy m (dst + 1) (src + 1) else Some m)"

text \<open>The bytes are unsigned, and so are the differences before they are taken.\<close>

partial_function (option) ece391_strcmp :: "(u32 \<Rightarrow> u8) \<Rightarrow> u32 \<Rightarrow> u32 \<Rightarrow> u32 option" where
  "ece391_strcmp m s1 s2 =
     (if m s1 = m s2 then
        if m s1 = 0 then Some 0 else ece391_strcmp m (s1 + 1) (s2 + 1)
      else Some (ucast (m s1) - ucast (m s2)))"

partial_function (option) ece391_strncmp_loop :: "(u32 \<Rightarrow> u8) \<Rightarrow> u32 \<Rightarrow> u32 \<Rightarrow> u32 \<Rightarrow> u32 option" where
  "ece391_strncmp_loop m s1 s2 n =
     (if m s1 = m s2 then
        if m s1 = 0 \<or> n - 1 = 0 then Some 0 else ece391_strncmp_loop m (s1 + 1) (s2 + 1) (n - 1)
      else Some (ucast (m s1) - ucast (m s2)))"

definition ece391_strncmp :: "(u32 \<Rightarrow> u8) \<Rightarrow> u32 \<Rightarrow> u32 \<Rightarrow> u32 \<Rightarrow> u32 option" where
  "ece391_strncmp m s1 s2 n = (if 0 = n then Some 0 else ece391_strncmp_loop m s1 s2 n)"

section \<open>Numbers\<close>

function ece391_strrev_loop :: "(u32 \<Rightarrow> u8) \<Rightarrow> u32 \<Rightarrow> u32 \<Rightarrow> u32 \<Rightarrow> (u32 \<Rightarrow> u8)" where
  "ece391_strrev_loop m s beg endi =
     (if beg <s endi then
        let tmp = m (s + endi); m = m(s + endi := m (s + beg)); m = m(s + beg := tmp)
        in ece391_strrev_loop m s (beg + 1) (endi - 1)
      else m)"
  by pat_completeness auto
termination
  by (relation "measure (\<lambda>(m, s, beg, endi). nat (sint endi - sint beg))")
    (simp_all only: wf_measure in_measure prod.case strrev_measure)

declare ece391_strrev_loop.simps [simp del]

definition ece391_strrev :: "(u32 \<Rightarrow> u8) \<Rightarrow> u32 \<Rightarrow> (u32 \<Rightarrow> u8) option" where
  "ece391_strrev m s = do {
     len \<leftarrow> ece391_strlen m s;
     let endi = len - 1;
     if endi \<le>s 0 then Some m else Some (ece391_strrev_loop m s 0 endi) }"

definition ece391_itoa_lookup :: "u8 list" where
  "ece391_itoa_lookup = lit ''0123456789ABCDEFGHIJKLMNOPQRSTUVWXYZ'' @ [0]"

text \<open>As in the kernel's library, a division by zero does not return and a digit past the table is
  outside the array.\<close>

partial_function (option) ece391_itoa_loop ::
  "(u32 \<Rightarrow> u8) \<Rightarrow> u32 \<Rightarrow> u32 \<Rightarrow> u32 \<Rightarrow> ((u32 \<Rightarrow> u8) \<times> u32) option" where
  "ece391_itoa_loop m newbuf newval radix =
     (if newval > 0 then
        if radix = 0 then None
        else let i = newval mod radix in
          if unat i < length ece391_itoa_lookup
          then ece391_itoa_loop (m(newbuf := ece391_itoa_lookup ! unat i)) (newbuf + 1) (newval div radix) radix
          else None
      else Some (m, newbuf))"

definition ece391_itoa :: "(u32 \<Rightarrow> u8) \<Rightarrow> u32 \<Rightarrow> u32 \<Rightarrow> u32 \<Rightarrow> (u32 \<Rightarrow> u8) option" where
  "ece391_itoa m val buf radix =
     (if val = 0 then Some (m(buf := of_char CHR ''0'', buf + 1 := 0))
      else do {
        (m', newbuf) \<leftarrow> ece391_itoa_loop m buf val radix;
        ece391_strrev (m'(newbuf := 0)) buf })"

section \<open>System calls\<close>

definition SYS_HALT :: u32 where "SYS_HALT = 1"
definition SYS_EXECUTE :: u32 where "SYS_EXECUTE = 2"
definition SYS_READ :: u32 where "SYS_READ = 3"
definition SYS_WRITE :: u32 where "SYS_WRITE = 4"
definition SYS_OPEN :: u32 where "SYS_OPEN = 5"
definition SYS_CLOSE :: u32 where "SYS_CLOSE = 6"
definition SYS_GETARGS :: u32 where "SYS_GETARGS = 7"
definition SYS_VIDMAP :: u32 where "SYS_VIDMAP = 8"
definition SYS_SET_HANDLER :: u32 where "SYS_SET_HANDLER = 9"
definition SYS_SIGRETURN :: u32 where "SYS_SIGRETURN = 10"

text \<open>The registers at the \<^verbatim>\<open>int\<close>; those the call does not use are irrelevant, since the handler
  only saves them.\<close>

definition call_regs :: "u32 \<Rightarrow> u32 \<Rightarrow> u32 \<Rightarrow> u32 \<Rightarrow> uregs" where
  "call_regs number b c d = \<lparr>r_eax = number, r_ebx = b, r_ecx = c, r_edx = d, r_esi = 0, r_edi = 0, r_ebp = 0,
     r_ds = 0x2B, r_es = 0x2B, r_fs = 0x2B, r_gs = 0x2B, r_eip = 0, r_cs = 0x23, r_eflags = 0, r_esp = 0, r_ss = 0x2B\<rparr>"

text \<open>A call that returns: the value in \<^verbatim>\<open>eax\<close>, and the flags of the program again. A call that
  leaves the program (\<^const>\<open>Enter\<close>, \<^const>\<open>Resume\<close>) does not return here.\<close>

definition DO_CALL :: "u32 \<Rightarrow> u32 \<Rightarrow> u32 \<Rightarrow> u32 \<Rightarrow> 'a kernel_scheme \<Rightarrow> (u32 \<times> 'a kernel_scheme) option" where
  "DO_CALL number b c d s = do {
     (out, stk, t) \<leftarrow> system_call_handler (call_regs number b c d) (trap s);
     case out of Return v \<Rightarrow> Some (v, t\<lparr>eflags := eflags s\<rparr>) | _ \<Rightarrow> None }"

definition ece391_read :: "u32 \<Rightarrow> u32 \<Rightarrow> u32 \<Rightarrow> 'a kernel_scheme \<Rightarrow> (u32 \<times> 'a kernel_scheme) option" where
  "ece391_read fd buf nbytes s = DO_CALL SYS_READ fd buf nbytes s"
definition ece391_write :: "u32 \<Rightarrow> u32 \<Rightarrow> u32 \<Rightarrow> 'a kernel_scheme \<Rightarrow> (u32 \<times> 'a kernel_scheme) option" where
  "ece391_write fd buf nbytes s = DO_CALL SYS_WRITE fd buf nbytes s"
definition ece391_open :: "u32 \<Rightarrow> 'a kernel_scheme \<Rightarrow> (u32 \<times> 'a kernel_scheme) option" where
  "ece391_open fname s = DO_CALL SYS_OPEN fname 0 0 s"
definition ece391_close :: "u32 \<Rightarrow> 'a kernel_scheme \<Rightarrow> (u32 \<times> 'a kernel_scheme) option" where
  "ece391_close fd s = DO_CALL SYS_CLOSE fd 0 0 s"
definition ece391_getargs :: "u32 \<Rightarrow> u32 \<Rightarrow> 'a kernel_scheme \<Rightarrow> (u32 \<times> 'a kernel_scheme) option" where
  "ece391_getargs buf nbytes s = DO_CALL SYS_GETARGS buf nbytes 0 s"
definition ece391_vidmap :: "u32 \<Rightarrow> 'a kernel_scheme \<Rightarrow> (u32 \<times> 'a kernel_scheme) option" where
  "ece391_vidmap screen_start s = DO_CALL SYS_VIDMAP screen_start 0 0 s"
definition ece391_set_handler :: "u32 \<Rightarrow> u32 \<Rightarrow> 'a kernel_scheme \<Rightarrow> (u32 \<times> 'a kernel_scheme) option" where
  "ece391_set_handler signum handler s = DO_CALL SYS_SET_HANDLER signum handler 0 s"
definition ece391_sigreturn :: "'a kernel_scheme \<Rightarrow> (u32 \<times> 'a kernel_scheme) option" where
  "ece391_sigreturn s = DO_CALL SYS_SIGRETURN 0 0 0 s"

text \<open>An \<open>execute\<close> that is refused; one that enters the program comes back much later.\<close>

definition ece391_execute :: "u32 \<Rightarrow> 'a kernel_scheme \<Rightarrow> (u32 \<times> 'a kernel_scheme) option" where
  "ece391_execute command s = DO_CALL SYS_EXECUTE command 0 0 s"

text \<open>A literal is an address the linker chose.\<close>

definition ece391_fdputs :: "u32 \<Rightarrow> u32 \<Rightarrow> 'a kernel_scheme \<Rightarrow> 'a kernel_scheme option" where
  "ece391_fdputs fd str s = do {
     n \<leftarrow> ece391_strlen (mem s) str;
     (_, s) \<leftarrow> ece391_write fd str n s;
     Some s }"

section \<open>The library agrees with that of the kernel\<close>

lemma ece391_strlen_loop_eq: "ece391_strlen_loop m (s + len) len = strlen_loop m s len"
proof -
  have there: "strlen_loop m s len = Some r \<Longrightarrow> ece391_strlen_loop m (s + len) len = Some r" for r
    by (erule strlen_loop.raw_induct [where P = "\<lambda>m s len r. ece391_strlen_loop m (s + len) len = Some r", rotated])
      (subst ece391_strlen_loop.simps, auto simp: add.assoc split: if_splits)
  have here: "ece391_strlen_loop m p len = Some r \<Longrightarrow> \<forall>s. p = s + len \<longrightarrow> strlen_loop m s len = Some r" for p r
    by (erule ece391_strlen_loop.raw_induct [where P = "\<lambda>m p len r. \<forall>s. p = s + len \<longrightarrow> strlen_loop m s len = Some r", rotated])
      (intro allI impI, subst strlen_loop.simps, auto simp: add.assoc split: if_splits)
  show ?thesis
    using there here by (cases "strlen_loop m s len"; cases "ece391_strlen_loop m (s + len) len") auto
qed

lemma ece391_strlen_eq: "ece391_strlen m s = strlen m s"
  using ece391_strlen_loop_eq [of m s 0] by (simp add: ece391_strlen_def strlen_def)

lemma ece391_strcpy_loop_eq: "ece391_strcpy m (d + i) (s + i) = strcpy_loop m d s i"
proof -
  have there: "strcpy_loop m d s i = Some r \<Longrightarrow> ece391_strcpy m (d + i) (s + i) = Some r" for r
    by (erule strcpy_loop.raw_induct [where P = "\<lambda>m d s i r. ece391_strcpy m (d + i) (s + i) = Some r", rotated])
      (subst ece391_strcpy.simps, auto simp: add.assoc Let_def split: if_splits)
  have here: "ece391_strcpy m p q = Some r \<Longrightarrow> \<forall>d s i. p = d + i \<and> q = s + i \<longrightarrow> strcpy_loop m d s i = Some r" for p q r
  proof (erule ece391_strcpy.raw_induct [where P = "\<lambda>m p q r. \<forall>d s i. p = d + i \<and> q = s + i \<longrightarrow> strcpy_loop m d s i = Some r", rotated])
    fix rec :: "(u32 \<Rightarrow> u8) \<Rightarrow> u32 \<Rightarrow> u32 \<Rightarrow> (u32 \<Rightarrow> u8) option" and m p q r
    assume ih: "\<And>m p q r. rec m p q = Some r \<Longrightarrow> \<forall>d s i. p = d + i \<and> q = s + i \<longrightarrow> strcpy_loop m d s i = Some r"
      and eq: "(let c = m q; m = m(p := c) in if c \<noteq> 0 then rec m (p + 1) (q + 1) else Some m) = Some r"
    show "\<forall>d s i. p = d + i \<and> q = s + i \<longrightarrow> strcpy_loop m d s i = Some r"
    proof (intro allI impI)
      fix d s i assume pq: "p = d + i \<and> q = s + i"
      show "strcpy_loop m d s i = Some r"
      proof (cases "m q = 0")
        case True
        with eq pq show ?thesis by (subst strcpy_loop.simps) (simp add: Let_def)
      next
        case False
        then have "rec (m(p := m q)) (p + 1) (q + 1) = Some r" using eq by (simp add: Let_def)
        from ih [OF this, rule_format, of d "i + 1" s] False pq show ?thesis
          by (subst strcpy_loop.simps) (simp add: add.assoc)
      qed
    qed
  qed
  show ?thesis
    using there here by (cases "strcpy_loop m d s i"; cases "ece391_strcpy m (d + i) (s + i)") auto
qed

lemma ece391_strcpy_eq: "ece391_strcpy m d s = strcpy m d s"
  using ece391_strcpy_loop_eq [of m d 0 s] by (simp add: strcpy_def)

lemma ece391_strrev_loop_eq: "ece391_strrev_loop m s b e = strrev_loop m s b e"
proof (induction m s b e rule: ece391_strrev_loop.induct)
  case (1 m s beg endi)
  show ?case
  proof (cases "beg <s endi")
    case True
    from 1 [OF True refl refl refl] True show ?thesis
      by (subst ece391_strrev_loop.simps, subst strrev_loop.simps) (simp only: Let_def if_True)
  next
    case False
    then show ?thesis by (subst ece391_strrev_loop.simps, subst strrev_loop.simps) (simp only: if_False)
  qed
qed

lemma ece391_strrev_eq: "ece391_strrev m s = strrev m s"
proof -
  have "strrev_loop m s 0 e = m" if "e \<le>s 0" for e
    using that by (subst strrev_loop.simps) (simp add: word_sless_alt word_sle_eq)
  then show ?thesis
    by (cases "strlen m s") (simp_all add: ece391_strrev_def strrev_def ece391_strlen_eq ece391_strrev_loop_eq Let_def)
qed

lemma itoa_tables: "ece391_itoa_lookup = itoa_lookup"
  by (simp add: ece391_itoa_lookup_def itoa_lookup_def)

lemma ece391_itoa_loop_eq: "ece391_itoa_loop m b v r = itoa_loop m b v r"
proof -
  have there: "itoa_loop m b v r = Some x \<Longrightarrow> ece391_itoa_loop m b v r = Some x" for x
    by (erule itoa_loop.raw_induct [where P = "\<lambda>m b v r x. ece391_itoa_loop m b v r = Some x", rotated])
      (subst ece391_itoa_loop.simps, auto simp: Let_def itoa_tables split: if_splits)
  have here: "ece391_itoa_loop m b v r = Some x \<Longrightarrow> itoa_loop m b v r = Some x" for x
    by (erule ece391_itoa_loop.raw_induct [where P = "\<lambda>m b v r x. itoa_loop m b v r = Some x", rotated])
      (subst itoa_loop.simps, auto simp: Let_def itoa_tables split: if_splits)
  show ?thesis using there here by (cases "itoa_loop m b v r"; cases "ece391_itoa_loop m b v r") auto
qed

lemma ece391_itoa_eq: "ece391_itoa m v b r = itoa m v b r"
  by (simp add: ece391_itoa_def itoa_def ece391_itoa_loop_eq ece391_strrev_eq)

lemma ece391_strcmp_step:
  "m a \<noteq> m b \<Longrightarrow> ece391_strcmp m a b = Some (ucast (m a) - ucast (m b))"
  "m a = m b \<Longrightarrow> ece391_strcmp m a b = (if m a = 0 then Some 0 else ece391_strcmp m (a + 1) (b + 1))"
  by (subst ece391_strcmp.simps, simp)+

lemma byte_diff:
  fixes x y :: u8
  shows "(ucast x - ucast y :: u32) = 0 \<longleftrightarrow> x = y" "(ucast x - ucast y :: u32) <s 0 \<longleftrightarrow> x < y"
proof -
  have u: "uint x < 256" "uint y < 256" using uint_bounded [of x] uint_bounded [of y] by simp_all
  have e: "(ucast x :: u32) = word_of_int (uint x)" "(ucast y :: u32) = word_of_int (uint y)" by simp_all
  have p: "0 \<le> uint x" "0 \<le> uint y" by simp_all
  have "- 2147483648 \<le> uint x - uint y" "uint x - uint y < 2147483648" using u p by linarith+
  then have l: "- (2 ^ 31) \<le> uint x - uint y" and h: "uint x - uint y < 2 ^ 31" by simp_all
  have "(ucast x - ucast y :: u32) = word_of_int (uint x - uint y)" unfolding e by (simp only: of_int_diff)
  then have "sint (ucast x - ucast y :: u32) = signed_take_bit 31 (uint x - uint y)"
    by (simp only: sint_sbintrunc') simp
  then have s: "sint (ucast x - ucast y :: u32) = uint x - uint y" by (simp only: signed_take_bit_int_eq_self [OF l h])
  then show "(ucast x - ucast y :: u32) <s 0 \<longleftrightarrow> x < y" by (simp add: word_sless_alt word_less_def)
  show "(ucast x - ucast y :: u32) = 0 \<longleftrightarrow> x = y"
  proof
    assume "(ucast x - ucast y :: u32) = 0"
    then have "uint x = uint y" using s by simp
    then show "x = y" by (simp only: word_uint_eq_iff)
  qed simp
qed

lemma ece391_strcmp_cstr:
  "cstr m a xs \<Longrightarrow> cstr m b ys \<Longrightarrow>
   \<exists>v. ece391_strcmp m a b = Some v \<and> (v = 0 \<longleftrightarrow> xs = ys) \<and> (v <s 0 \<longleftrightarrow> ord_class.lexordp xs ys)"
proof (induction xs arbitrary: a b ys)
  case Nil
  then have "m a = 0" by simp
  show ?case
  proof (cases ys)
    case Nil
    with Nil.prems show ?thesis by (simp add: ece391_strcmp_step(2) [of m a b])
  next
    case (Cons y zs)
    with Nil.prems have "m a \<noteq> m b" "m a < m b" "m a = 0" by (auto simp: word_neq_0_conv)
    with Cons show ?thesis using byte_diff [of "m a" "m b"] by (simp add: ece391_strcmp_step(1))
  qed
next
  case (Cons x xs)
  show ?case
  proof (cases "m a = m b")
    case True
    with Cons.prems obtain zs where ys: "ys = x # zs" "cstr m (b + 1) zs" by (cases ys) auto
    with Cons.IH [of "a + 1" "b + 1" zs] Cons.prems True show ?thesis by (simp add: ece391_strcmp_step(2))
  next
    case False
    show ?thesis
    proof (cases ys)
      case Nil
      with Cons.prems False have "\<not> m a < m b" by simp
      with Nil False show ?thesis using byte_diff [of "m a" "m b"] by (simp add: ece391_strcmp_step(1) [OF False])
    next
      case (Cons y zs)
      with Cons.prems False show ?thesis
        using byte_diff [of "m a" "m b"] by (auto simp: ece391_strcmp_step(1) [OF False])
    qed
  qed
qed

lemma ece391_strncmp_loop_diff:
  "unat n = Suc k \<Longrightarrow> ece391_strncmp_loop m a b n =
   Some (case first_diff (bytes_at m a (Suc k)) (bytes_at m b (Suc k)) of None \<Rightarrow> 0 | Some (x, y) \<Rightarrow> ucast x - ucast y)"
proof (induction k arbitrary: a b n)
  case 0
  then have "n = 1" by (simp add: word_unat_eq_iff)
  then show ?case by (subst ece391_strncmp_loop.simps) auto
next
  case (Suc k)
  then have nz: "n \<noteq> 0" by auto
  have n: "unat (n - 1) = Suc k" using Suc.prems unat_dec [OF nz] by simp
  from n have "n - 1 \<noteq> 0" by (metis nat.distinct(1) unat_0)
  with Suc.IH [OF n, of "a + 1" "b + 1"] show ?case
    by (subst ece391_strncmp_loop.simps) (simp only: bytes_at.simps first_diff.simps, auto)
qed

lemma ece391_strncmp_diff:
  "ece391_strncmp m a b n =
   Some (case first_diff (bytes_at m a (unat n)) (bytes_at m b (unat n)) of None \<Rightarrow> 0 | Some (x, y) \<Rightarrow> ucast x - ucast y)"
proof (cases "unat n")
  case 0
  then have "n = 0" by (simp add: word_unat_eq_iff)
  then show ?thesis by (simp add: ece391_strncmp_def)
next
  case (Suc k)
  then have "n \<noteq> 0" by auto
  with ece391_strncmp_loop_diff [OF Suc, of m a b] show ?thesis by (simp add: ece391_strncmp_def Suc del: bytes_at.simps)
qed

section \<open>A system call seen from the program\<close>

text \<open>The state the function of the table runs in, on the kernel stack of the program.\<close>

definition in_kernel :: "'a kernel_scheme \<Rightarrow> 'a kernel_scheme" where
  "in_kernel s = s\<lparr>esp := tss_esp0 s - 92, eflags := eflags s AND NOT IF_FLAG\<rparr>"

definition in_program :: "'a kernel_scheme \<Rightarrow> 'a kernel_scheme \<Rightarrow> 'a kernel_scheme" where
  "in_program s t = t\<lparr>eflags := eflags s\<rparr>"

definition resumed :: "'a kernel_scheme \<Rightarrow> (u32 \<times> 'a kernel_scheme) option \<Rightarrow> (u32 \<times> 'a kernel_scheme) option" where
  "resumed s res = map_option (\<lambda>(v, t). (v, in_program s t)) res"

lemma do_call_eq:
  assumes "1 \<le> unat number" "unat number \<le> 10"
  shows "DO_CALL number b c d s = do {
    (out, t) \<leftarrow> run_syscall (the (system_call_jump_table ! unat number)) b c d (in_kernel s);
    case out of Return v \<Rightarrow> Some (v, in_program s t) | _ \<Rightarrow> None }"
proof -
  have k: "(trap s)\<lparr>esp := esp (trap s) - 72\<rparr> = in_kernel s" by (simp add: trap_def in_kernel_def)
  have r: "r_eax (call_regs number b c d) = number" "r_ebx (call_regs number b c d) = b"
    "r_ecx (call_regs number b c d) = c" "r_edx (call_regs number b c d) = d" by (simp_all add: call_regs_def)
  show ?thesis
    unfolding DO_CALL_def handler_eq r k using assms
    by (cases "run_syscall (the (system_call_jump_table ! unat number)) b c d (in_kernel s)")
      (auto simp: in_program_def split: outcome.split)
qed

section \<open>Calls that return\<close>

lemma resumed_returning:
  "do { (out, t) \<leftarrow> returning res; case out of Return v \<Rightarrow> Some (v, in_program s t) | _ \<Rightarrow> None } = resumed s res"
  by (cases res) (auto simp: returning_def resumed_def)

lemma ece391_calls:
  "ece391_read fd buf n s = resumed s (sys_read fd buf n (in_kernel s))"
  "ece391_write fd buf n s = resumed s (sys_write fd buf n (in_kernel s))"
  "ece391_open fname s = resumed s (sys_open fname (in_kernel s))"
  "ece391_close fd s = resumed s (sys_close fd (in_kernel s))"
  "ece391_getargs buf n s = resumed s (getargs buf n (in_kernel s))"
  "ece391_vidmap ptr s = resumed s (Some (vidmap ptr (in_kernel s)))"
  "ece391_set_handler a b s = resumed s (set_handler a b (in_kernel s))"
  "ece391_sigreturn s = resumed s (sigreturn (in_kernel s))"
  unfolding ece391_read_def ece391_write_def ece391_open_def ece391_close_def ece391_getargs_def
    SYS_READ_def SYS_WRITE_def SYS_OPEN_def SYS_CLOSE_def SYS_GETARGS_def
    ece391_vidmap_def ece391_set_handler_def ece391_sigreturn_def SYS_VIDMAP_def SYS_SET_HANDLER_def SYS_SIGRETURN_def
    resumed_returning [symmetric]
  by (subst do_call_eq; simp add: system_call_jump_table_def)+

definition entered :: "'a kernel_scheme \<Rightarrow> 'a kernel_scheme \<Rightarrow> bool" where
  "entered s t \<longleftrightarrow> esp t = tss_esp0 t - 92 \<and> eflags t = eflags s AND NOT IF_FLAG"

lemma entered_in_kernel [simp]: "entered s (in_kernel s)"
  by (simp add: entered_def in_kernel_def)

lemma in_kernel_in_program: "entered s t \<Longrightarrow> in_kernel (in_program s t) = t"
  by (cases t) (simp add: entered_def in_kernel_def in_program_def)

lemma in_program_in_kernel: "in_program s (in_program u t) = in_program s t"
  by (simp add: in_program_def)

lemma entered_in_program: "entered (in_program s t) u = entered s u"
  by (simp add: entered_def in_program_def)

lemma in_kernel_frame [simp, frame_simps]:
  "mem (in_kernel s) = mem s" "io (in_kernel s) = io s" "inq (in_kernel s) = inq s"
  "fs_ptr (in_kernel s) = fs_ptr s" "tss_esp0 (in_kernel s) = tss_esp0 s" "pcbs (in_kernel s) = pcbs s"
  "mem (in_program s t) = mem t" "fs_ptr (in_program s t) = fs_ptr t" "tss_esp0 (in_program s t) = tss_esp0 t"
  "in_kernel (s\<lparr>mem := m\<rparr>) = (in_kernel s)\<lparr>mem := m\<rparr>"
  by (simp_all add: in_kernel_def in_program_def)

section \<open>The screen as standard output\<close>

definition std_out :: "'a filesys_scheme \<Rightarrow> bool" where
  "std_out s \<longleftrightarrow> length (cur_files s) = 8 \<and> flags (cur_files s ! 1) \<noteq> FILE_AVAIL \<and>
     file_ops_table_ptr (cur_files s ! 1) = TerminalOps"

definition out_ok :: "'a kernel_scheme \<Rightarrow> bool" where
  "out_ok s \<longleftrightarrow> con_good (in_kernel s) \<and> std_out (in_kernel s)"

definition put_text :: "u8 list \<Rightarrow> 'a kernel_scheme \<Rightarrow> 'a kernel_scheme" where
  "put_text cs s = in_program s (fold putc cs (in_kernel s))"

definition shown :: "'a kernel_scheme \<Rightarrow> tty" where
  "shown s = con_view (in_kernel s)"

lemma console_more_kernel:
  assumes "console.more (s :: 'a kernel_scheme) = console.more t"
  shows "keyboard.more s = keyboard.more t" "rtc.more s = rtc.more t" "cur_files s = cur_files t"
    "esp s = esp t" "tss_esp0 s = tss_esp0 t" "fs_ptr s = fs_ptr t"
  using assms by (cases s; cases t; simp add: cur_files_def cur_pcb_def getCurrentProcessPCB_def)+

lemma entered_fold: "entered s (t :: 'a kernel_scheme) \<Longrightarrow> entered s (fold putc cs t)"
  using console_more_kernel(4,5) [of "fold putc cs t" t] by (simp add: entered_def)

lemma put_text_in_kernel: "in_kernel (put_text cs s) = fold putc cs (in_kernel s)"
  by (simp add: put_text_def in_kernel_in_program entered_fold)

lemma put_text_append: "put_text ys (put_text xs s) = put_text (xs @ ys) s"
proof -
  have "put_text ys (put_text xs s) = in_program (put_text xs s) (fold putc (xs @ ys) (in_kernel s))"
    by (simp add: put_text_def [of ys] put_text_in_kernel)
  then show ?thesis by (simp add: put_text_def in_program_def)
qed

lemma put_text_frame [simp]:
  "cur_files (in_kernel (put_text cs s)) = cur_files (in_kernel s)" "fs_ptr (put_text cs s) = fs_ptr s"
  "eflags (put_text cs s) = eflags s"
  using console_more_kernel(3,6) [of "fold putc cs (in_kernel s)" "in_kernel s"]
  by (simp_all only: put_text_in_kernel fold_putc_frame) (simp_all add: put_text_def in_program_def)

lemma put_text_out:
  assumes "out_ok s"
  shows "out_ok (put_text cs s)" "shown (put_text cs s) = fold tty_putc cs (shown s)"
    "b \<notin> screen_rng \<Longrightarrow> mem (put_text cs s) b = mem s b"
proof -
  have g: "con_good (in_kernel s)" using assms by (simp add: out_ok_def)
  show "out_ok (put_text cs s)"
    using assms con.fold_good [OF g] put_text_frame(1) [of cs s] by (simp add: out_ok_def std_out_def put_text_in_kernel)
  show "shown (put_text cs s) = fold tty_putc cs (shown s)"
    using con.fold_view [OF g] by (simp add: shown_def put_text_in_kernel)
  show "b \<notin> screen_rng \<Longrightarrow> mem (put_text cs s) b = mem s b"
    using con.fold_bytes [OF g, of b cs] by (simp add: put_text_def)
qed

lemma write_out:
  assumes "out_ok s" "buf \<noteq> 0" "rng buf (unat n) \<inter> screen_rng = {}"
  shows "ece391_write 1 buf n s =
    (let xs = upto_nul (bytes_at (mem s) buf (unat n)) in Some (of_nat (length xs), put_text xs s))"
proof -
  have "\<not> (7 :: u32) <s 1" "\<not> (1 :: u32) <s 0" by (simp_all add: word_sless_alt)
  then have "sys_write 1 buf n (in_kernel s) = Some (terminal_write 1 buf n (in_kernel s))"
    using assms(1) by (simp add: sys_write_def fd_valid_def out_ok_def std_out_def)
  also have "\<dots> = Some (of_nat (length (upto_nul (bytes_at (mem s) buf (unat n)))),
      fold putc (upto_nul (bytes_at (mem s) buf (unat n))) (in_kernel s))"
    using terminal_write_shows(1) [of "in_kernel s" buf n] assms by (simp add: out_ok_def)
  finally show ?thesis by (simp add: ece391_calls resumed_def put_text_def Let_def)
qed

text \<open>A string the program can print: not at address 0 and not on the screen.\<close>

definition text_at :: "(u32 \<Rightarrow> u8) \<Rightarrow> u32 \<Rightarrow> u8 list \<Rightarrow> bool" where
  "text_at m a xs \<longleftrightarrow> cstr m a xs \<and> a \<noteq> 0 \<and> length xs < 2 ^ 31 \<and> rng a (Suc (length xs)) \<inter> screen_rng = {}"

lemma fdputs_out:
  assumes "out_ok s" "text_at (mem s) a xs"
  shows "ece391_fdputs 1 a s = Some (put_text xs s)"
proof -
  have p: "cstr (mem s) a xs" "a \<noteq> 0" "length xs < 2 ^ 31" "rng a (Suc (length xs)) \<inter> screen_rng = {}"
    using assms(2) by (simp_all add: text_at_def)
  have n: "unat (of_nat (length xs) :: u32) = length xs" using p(3) by (simp add: unat_of_nat)
  have "upto_nul (bytes_at (mem s) a (length xs)) = xs" using upto_nul_cstr [OF p(1)] by simp
  moreover have "rng a (length xs) \<inter> screen_rng = {}" using p(4) rng_mono [of "length xs" "Suc (length xs)" a] by auto
  ultimately show ?thesis
    using assms(1) p(2) strlen_cstr [OF p(1)]
    by (simp add: ece391_fdputs_def ece391_strlen_eq write_out n Let_def)
qed

lemma text_at_cong:
  "(\<And>b. b \<in> rng a (Suc (length xs)) \<Longrightarrow> b \<notin> screen_rng \<Longrightarrow> m b = m' b) \<Longrightarrow> text_at m a xs = text_at m' a xs"
  using cstr_cong [of a xs m m'] by (auto simp: text_at_def disjoint_iff)

lemma text_at_put_text: "out_ok s \<Longrightarrow> text_at (mem (put_text cs s)) a xs = text_at (mem s) a xs"
  using put_text_out(3) [of s] by (intro text_at_cong) blast

end
