(* ===== verification/Usercalls.thy ===== *)
theory Usercalls
  imports Ulib
begin

text \<open>
  What the system calls do for a program that runs with the screen as its standard output: the
  state each call leaves, seen from the program, for \<open>read\<close>, \<open>open\<close>, \<open>close\<close>, \<open>getargs\<close>. The
  user programs are verified over these lemmas.
\<close>

section \<open>Calls that change the memory or the descriptors\<close>

text \<open>What is shown depends on the screen and the console alone.\<close>

lemma con_same:
  assumes "\<And>b. b \<in> screen_rng \<Longrightarrow> mem t b = mem s b" "io t = io s" "screen_x t = screen_x s" "screen_y t = screen_y s"
  shows "con_good t = con_good s" "con_view t = con_view s"
proof -
  have "screen (mem t) = screen (mem s)" using assms(1) by (intro screen_cong)
  with assms show "con_good t = con_good s" "con_view t = con_view s"
    by (simp_all add: con_good_def con_ok_def cursor_ok_def con_view_def)
qed

lemma set_files_console [simp]:
  "screen_x (set_files fs s) = screen_x s" "screen_y (set_files fs s) = screen_y s"
  "tss_esp0 (set_files fs s) = tss_esp0 s"
  by (simp_all add: set_files_def)

lemma cur_files_mem [simp]: "cur_files (s\<lparr>mem := m\<rparr>) = cur_files s"
  by (simp add: cur_files_def cur_pcb_def getCurrentProcessPCB_def)

text \<open>The state after a call that stored \<open>xs\<close> at \<open>a\<close> and left the descriptors \<open>fs\<close>.\<close>

definition after_call :: "'a kernel_scheme \<Rightarrow> u32 \<Rightarrow> u8 list \<Rightarrow> file_t list \<Rightarrow> 'a kernel_scheme" where
  "after_call s a xs fs = in_program s (set_files fs ((in_kernel s)\<lparr>mem := store_bytes (mem s) a xs\<rparr>))"

lemma after_call_in_kernel:
  "in_kernel (after_call s a xs fs) = set_files fs ((in_kernel s)\<lparr>mem := store_bytes (mem s) a xs\<rparr>)"
proof -
  have "entered s (set_files fs ((in_kernel s)\<lparr>mem := store_bytes (mem s) a xs\<rparr>))"
    using entered_in_kernel [of s] by (simp add: entered_def)
  then show ?thesis by (simp only: after_call_def in_kernel_in_program)
qed

lemma after_call_frame [simp]:
  "mem (after_call s a xs fs) = store_bytes (mem s) a xs" "fs_ptr (after_call s a xs fs) = fs_ptr s"
  "cur_files (in_kernel (after_call s a xs fs)) = fs"
  by (simp_all only: after_call_in_kernel) (simp_all add: after_call_def)

lemma after_call_out:
  assumes "rng a (length xs) \<inter> screen_rng = {}"
  shows "shown (after_call s a xs fs) = shown s" "con_good (in_kernel (after_call s a xs fs)) = con_good (in_kernel s)"
proof -
  let ?k = "in_kernel s" and ?t = "set_files fs ((in_kernel s)\<lparr>mem := store_bytes (mem s) a xs\<rparr>)"
  have "mem ?t b = mem ?k b" if "b \<in> screen_rng" for b
  proof -
    have "b \<notin> rng a (length xs)" using assms that by auto
    then show ?thesis by simp
  qed
  then show "shown (after_call s a xs fs) = shown s" "con_good (in_kernel (after_call s a xs fs)) = con_good (in_kernel s)"
    unfolding shown_def after_call_in_kernel by (simp_all add: con_same [of ?t ?k])
qed

section \<open>Reading a file\<close>

text \<open>A descriptor on a file of a sound image beside the screen, and a buffer in the window.\<close>

definition file_on :: "u32 \<Rightarrow> u32 \<Rightarrow> nat \<Rightarrow> 'a kernel_scheme \<Rightarrow> bool" where
  "file_on fd buf cap s \<longleftrightarrow> out_ok s \<and> fd_ok fd buf cap (in_kernel s) \<and>
     flags (cur_files (in_kernel s) ! unat fd) \<noteq> FILE_AVAIL \<and>
     file_ops_table_ptr (cur_files (in_kernel s) ! unat fd) = FileOps \<and>
     buf \<noteq> 0 \<and> rng buf cap \<inter> screen_rng = {} \<and> img_rng (mem s) (fs_ptr s) \<inter> screen_rng = {}"

text \<open>What is still to read.\<close>

definition fd_rest :: "u32 \<Rightarrow> 'a kernel_scheme \<Rightarrow> u8 list" where
  "fd_rest fd s = drop (fd_pos fd (in_kernel s)) (fd_file fd (in_kernel s))"

lemma fd_valid_small: "unat fd < 8 \<Longrightarrow> fd_valid 0 fd"
proof -
  assume a: "unat fd < 8"
  then have "sint fd = int (unat fd)" by (intro sint_unat) simp
  moreover have "sint (7 :: u32) = 7" "sint (0 :: u32) = 0" by simp_all
  ultimately show ?thesis unfolding fd_valid_def word_sless_alt using a by linarith
qed

lemma read_file:
  assumes on: "file_on fd buf cap s" and n: "n \<le> cap" and data: "data = take n (fd_rest fd s)"
  shows "\<exists>t. ece391_read fd buf (of_nat n) s = Some (of_nat (length data), t) \<and>
    mem t = store_bytes (mem s) buf data \<and> shown t = shown s \<and> file_on fd buf cap t \<and>
    fd_rest fd t = drop n (fd_rest fd s)"
proof -
  let ?k = "in_kernel s" and ?f = "cur_files (in_kernel s) ! unat fd"
  let ?fs = "(cur_files ?k)[unat fd := ?f\<lparr>file_position := file_position ?f + of_nat (length data)\<rparr>]"
  let ?t = "after_call s buf data ?fs"
  have ok: "fd_ok fd buf cap ?k" and fd8: "unat fd < 8" "2 \<le> unat fd" "length (cur_files ?k) = 8"
    using on by (auto simp: file_on_def fd_ok_def)
  have d: "data = take n (drop (fd_pos fd ?k) (fd_file fd ?k))" using data by (simp add: fd_rest_def)
  note rd = file_read_eq [OF ok n d]
  have "sys_read fd buf (of_nat n) ?k = file_read fd buf (of_nat n) ?k"
    using on fd8 by (simp add: sys_read_def fd_valid_small file_on_def)
  then have call: "ece391_read fd buf (of_nat n) s = Some (of_nat (length data), ?t)"
    by (simp add: ece391_calls resumed_def rd after_call_def)
  have len: "length data \<le> cap" using n by (simp add: data)
  have cap: "cap < 2 ^ 31" "rng buf cap \<inter> screen_rng = {}" using on by (simp_all add: file_on_def fd_ok_def)
  have away: "rng buf (length data) \<inter> screen_rng = {}" using cap(2) rng_mono [OF len, of buf] by auto
  have "fd_read fd buf n ?k = (bytes_at (mem (in_kernel ?t)) buf (length data), in_kernel ?t)"
    using len cap(1) by (simp add: fd_read_def rd after_call_in_kernel unat_of_nat)
  moreover have "bytes_at (mem (in_kernel ?t)) buf (length data) = data"
    using len cap(1) by (simp add: bytes_at_store_same)
  ultimately have read: "fd_read fd buf n ?k = (data, in_kernel ?t)" by simp
  note f = fd_read_ok [OF ok n, unfolded read fst_conv snd_conv]
  have rest: "fd_rest fd ?t = drop n (fd_rest fd s)"
    using f by (auto simp: fd_rest_def data min_def add.commute)
  have "img_rng (mem ?t) (fs_ptr ?t) = img_rng (mem s) (fs_ptr s)"
  proof -
    have "img_agree (mem s) (fs_ptr s) (mem ?t)"
      using ok rng_mono [OF len, of buf] by (auto simp: img_agree_def fd_ok_def intro!: store_bytes_other)
    then show ?thesis by (simp add: img_rng_def img_size_def img_same)
  qed
  moreover have "?fs ! 1 = cur_files ?k ! 1" "flags (?fs ! unat fd) = flags ?f" "length ?fs = length (cur_files ?k)"
    "file_ops_table_ptr (?fs ! unat fd) = file_ops_table_ptr ?f" using fd8 by simp_all
  moreover have "fd_ok fd buf cap (in_kernel ?t)" using f by blast
  moreover note on [unfolded file_on_def out_ok_def std_out_def] after_call_out(2) [OF away, of s ?fs]
  ultimately have "file_on fd buf cap ?t"
    unfolding file_on_def out_ok_def std_out_def after_call_frame(3) by (elim conjE, intro conjI) (assumption | simp only: simp_thms)+
  with call rest after_call_out(1) [OF away] show ?thesis by (intro exI [of _ ?t]) simp
qed

lemma fd_same:
  assumes ok: "fd_ok fd buf cap s" and agree: "img_agree (mem s) (fs_ptr s) (mem t)"
    and same: "fs_ptr t = fs_ptr s" "cur_files t = cur_files s"
  shows "fd_ok fd buf cap t \<and> fd_file fd t = fd_file fd s \<and> fd_pos fd t = fd_pos fd s \<and>
    img_rng (mem t) (fs_ptr t) = img_rng (mem s) (fs_ptr s)"
proof -
  have img: "img_ok (mem s) (fs_ptr s)"
    and ino: "unat (inode_num (cur_files s ! unat fd)) < img_inodes (mem s) (fs_ptr s)"
    using ok by (simp_all add: fd_ok_def)
  have "fd_file fd t = fd_file fd s"
    using img_slice_same [OF agree img ino] img_same(3) [OF agree ino]
    by (simp add: fd_file_def same file_content_def)
  moreover have "fd_pos fd t = fd_pos fd s" by (simp add: fd_pos_def same)
  moreover have rng: "img_rng (mem t) (fs_ptr t) = img_rng (mem s) (fs_ptr s)"
    by (simp add: img_rng_def img_size_def img_same [OF agree] same)
  ultimately show ?thesis
    using ok img_ok_same [OF agree img] img_same(1) [OF agree] by (simp add: fd_ok_def same)
qed

lemma file_on_put_text:
  assumes "file_on fd buf cap s"
  shows "file_on fd buf cap (put_text cs s)" "fd_rest fd (put_text cs s) = fd_rest fd s"
proof -
  let ?k = "in_kernel s" and ?t = "in_kernel (put_text cs s)"
  have o: "out_ok s" and apart: "img_rng (mem s) (fs_ptr s) \<inter> screen_rng = {}"
    and ok: "fd_ok fd buf cap ?k" using assms by (simp_all add: file_on_def)
  have "img_agree (mem ?k) (fs_ptr ?k) (mem ?t)"
    using put_text_out(3) [OF o] apart by (auto simp: img_agree_def)
  from fd_same [OF ok this] have t: "fd_ok fd buf cap ?t" "fd_file fd ?t = fd_file fd ?k"
    "fd_pos fd ?t = fd_pos fd ?k" "img_rng (mem ?t) (fs_ptr ?t) = img_rng (mem ?k) (fs_ptr ?k)" by simp_all
  with assms put_text_out(1) [OF o] show "file_on fd buf cap (put_text cs s)" by (simp add: file_on_def)
  from t show "fd_rest fd (put_text cs s) = fd_rest fd s" by (simp add: fd_rest_def)
qed

lemma upto_nul_bound: "length (upto_nul xs) \<le> length xs"
  by (simp add: upto_nul_def length_takeWhile_le)

lemma set_files_same [simp]: "set_files (cur_files s) s = s"
  by (simp add: set_files_def cur_files_def cur_pcb_def)

lemma in_kernel_mem [simp]: "(in_kernel s)\<lparr>mem := mem s\<rparr> = in_kernel s"
  by (cases s) (simp add: in_kernel_def)

lemma set_files_same_mem [simp]: "set_files (cur_files s) (s\<lparr>mem := m\<rparr>) = s\<lparr>mem := m\<rparr>"
  using set_files_same [of "s\<lparr>mem := m\<rparr>"] by simp

lemma out_ok_after_call:
  assumes "out_ok s" "rng a (length xs) \<inter> screen_rng = {}" "length fs = 8" "fs ! 1 = cur_files (in_kernel s) ! 1"
  shows "out_ok (after_call s a xs fs)"
  using assms after_call_out(2) [OF assms(2), of s fs] by (simp add: out_ok_def std_out_def)

subsection \<open>The arguments\<close>

definition has_args :: "'a kernel_scheme \<Rightarrow> u32 \<Rightarrow> u8 list \<Rightarrow> bool" where
  "has_args s p as \<longleftrightarrow> (\<exists>ps. runs (in_kernel s) (p # ps)) \<and> cstr (mem s) (pcb_addr p + PCB_ARG) as \<and>
     length as < 128 \<and> num_char_in_arg (pcbs s (pcb_addr p)) = of_nat (length as)"

lemma getargs_call:
  assumes "has_args s p as" "as \<noteq> []" "buf \<noteq> 0" "128 \<le> sint n" "rng buf 128 \<inter> rng (pcb_addr p + PCB_ARG) 128 = {}"
  shows "ece391_getargs buf n s = Some (0, after_call s buf (as @ [0]) (cur_files (in_kernel s)))"
proof -
  obtain ps where a: "runs (in_kernel s) (p # ps)" "cstr (mem s) (pcb_addr p + PCB_ARG) as" "length as < 128"
    "num_char_in_arg (pcbs s (pcb_addr p)) = of_nat (length as)" using assms(1) by (auto simp: has_args_def)
  have "rng buf (Suc (length as)) \<inter> rng (pcb_addr p + PCB_ARG) (Suc (length as)) = {}"
    using assms(5) rng_mono [of "Suc (length as)" 128] a(3) by (force simp: disjoint_iff)
  then have "getargs buf n (in_kernel s) = Some (0, (in_kernel s)\<lparr>mem := store_bytes (mem s) buf (as @ [0])\<rparr>)"
    using getargs_copies [OF a(1), of as buf n] a assms(2-4) by simp
  then show ?thesis by (simp add: ece391_calls resumed_def after_call_def)
qed

lemma getargs_answers:
  assumes "has_args s p as" "buf \<noteq> 0" "rng buf 128 \<inter> rng (pcb_addr p + PCB_ARG) 128 = {}"
  shows "\<exists>t. ece391_getargs buf n s = Some (if as = [] \<or> sint n < int (length as) then minus_one else 0, t) \<and>
    (as \<noteq> [] \<and> int (length as) \<le> sint n \<longrightarrow> bytes_at (mem t) buf (Suc (length as)) = as @ [0])"
proof -
  obtain ps where a: "runs (in_kernel s) (p # ps)" "cstr (mem s) (pcb_addr p + PCB_ARG) as" "length as < 128"
    "num_char_in_arg (pcbs s (pcb_addr p)) = of_nat (length as)" using assms(1) by (auto simp: has_args_def)
  have "rng buf (Suc (length as)) \<inter> rng (pcb_addr p + PCB_ARG) (Suc (length as)) = {}"
    using assms(3) rng_mono [of "Suc (length as)" 128] a(3) by (force simp: disjoint_iff)
  then have "getargs buf n (in_kernel s) = (if as = [] \<or> sint n < int (length as) then Some (minus_one, in_kernel s)
      else Some (0, (in_kernel s)\<lparr>mem := store_bytes (mem s) buf (as @ [0])\<rparr>))"
    using getargs_copies [OF a(1), of as buf n] getargs_none [OF a(1), of buf n] a assms(2) by (cases "as = []") simp_all
  moreover have "bytes_at (store_bytes (mem s) buf (as @ [0])) buf (Suc (length as)) = as @ [0]"
    using bytes_at_store_same [of "as @ [0]"] a(3) by (simp del: store_bytes.simps bytes_at.simps)
  ultimately show ?thesis by (simp add: ece391_calls resumed_def in_program_def del: bytes_at.simps)
qed

subsection \<open>Opening\<close>

text \<open>The entry a name leads to.\<close>

definition entry_of :: "'a filesys_scheme \<Rightarrow> u8 list \<Rightarrow> dentry_t option" where
  "entry_of s name = map_option (dentry_of s) (find (\<lambda>i. dir_name s i = name) [0..<63])"

lemma entry_of_same:
  assumes "img_agree (mem s) (fs_ptr s) (mem t)" "fs_ptr t = fs_ptr s"
  shows "entry_of t name = entry_of s name"
proof -
  have "find (\<lambda>i. dir_name t i = name) [0..<63] = find (\<lambda>i. dir_name s i = name) [0..<63]"
    by (rule find_same) (simp add: dentry_of_same [OF assms])
  moreover have "dentry_of t i = dentry_of s i" if "find (\<lambda>i. dir_name s i = name) [0..<63] = Some i" for i
    using that find_in [of _ "[0..<63]" i] dentry_of_same [OF assms] by auto
  ultimately show ?thesis by (cases "find (\<lambda>i. dir_name s i = name) [0..<63]") (simp_all add: entry_of_def)
qed

lemma lookup_entry:
  assumes "cstr (mem s) fname name" "fname \<noteq> 0" "name \<noteq> []" "length name \<le> 32"
  shows "read_dentry_by_name fname s = entry_of s name"
proof -
  have "mem s fname \<noteq> 0" using assms(1,3) by (cases name) auto
  moreover have "upto_nul (bytes_at (mem s) fname 32) = name" using upto_nul_cstr [OF assms(1), of 32] assms(4) by simp
  ultimately show ?thesis using assms(2) by (simp add: read_dentry_by_name_first entry_of_def)
qed

text \<open>The slot as \<open>open\<close> leaves it.\<close>

definition opened_as :: "ops_table \<Rightarrow> u32 \<Rightarrow> file_t" where
  "opened_as ops ino = \<lparr>file_ops_table_ptr = ops, inode_num = ino, file_position = 0, flags = FILE_OCCUP\<rparr>"

lemma open_call:
  assumes name: "cstr (mem s) fname name" "fname \<noteq> 0" "name \<noteq> []" "length name < 32"
    and d: "entry_of (in_kernel s) name = Some d" "filetype d = 1 \<or> filetype d = 2"
    and free: "free_slot (cur_files (in_kernel s)) 2 = idx" "idx < 8"
  shows "ece391_open fname s = Some (of_nat idx, after_call s a []
    ((cur_files (in_kernel s))[idx := opened_as (if filetype d = 2 then FileOps else DirectoryOps) (dentry_inode d)]))"
proof -
  let ?k = "in_kernel s"
  have c: "cstr (mem ?k) fname name" using name(1) by simp
  have look: "read_dentry_by_name fname ?k = Some d" using lookup_entry [OF c] name d(1) by simp
  have "file_open fname ?k = Some (of_nat idx, set_files ((cur_files ?k)[idx :=
      opened_as (if filetype d = 2 then FileOps else DirectoryOps) (dentry_inode d)]) ?k)"
    using file_open_cases [OF c] name free d(2) by (auto simp: look opened_as_def)
  then have "sys_open fname ?k = Some (of_nat idx, set_files ((cur_files ?k)[idx :=
      opened_as (if filetype d = 2 then FileOps else DirectoryOps) (dentry_inode d)]) ?k)"
    using d(2) by (auto simp: sys_open_def look directory_open_def FILE_TYPE_DIR_def FILE_TYPE_RTC_def FILE_TYPE_FILE_def)
  then show ?thesis by (simp add: ece391_calls resumed_def after_call_def)
qed

lemma open_missing:
  assumes "cstr (mem s) fname name" "fname \<noteq> 0" "name \<noteq> []" "length name < 32" "entry_of (in_kernel s) name = None"
  shows "ece391_open fname s = Some (minus_one, after_call s a [] (cur_files (in_kernel s)))"
  using lookup_entry [of "in_kernel s" fname name] assms
  by (simp add: ece391_calls resumed_def after_call_def sys_open_def)

section \<open>Programs\<close>

text \<open>The surroundings of a program: its standard output, and a sound image beside the screen.\<close>

definition prog_ok :: "'a kernel_scheme \<Rightarrow> bool" where
  "prog_ok s \<longleftrightarrow> out_ok s \<and> img_ok (mem s) (fs_ptr s) \<and> img_rng (mem s) (fs_ptr s) \<inter> screen_rng = {}"

text \<open>A buffer beside the screen and the image.\<close>

definition buf_ok :: "u32 \<Rightarrow> nat \<Rightarrow> 'a kernel_scheme \<Rightarrow> bool" where
  "buf_ok buf n s \<longleftrightarrow> buf \<noteq> 0 \<and> n < 2 ^ 31 \<and> rng buf n \<inter> (screen_rng \<union> img_rng (mem s) (fs_ptr s)) = {}"

lemma prog_ok_after_call:
  assumes "prog_ok s" "buf_ok buf n s" "length xs \<le> n" "length fs = 8" "fs ! 1 = cur_files (in_kernel s) ! 1"
  shows "prog_ok (after_call s buf xs fs)" "buf_ok c m (after_call s buf xs fs) = buf_ok c m s"
    "shown (after_call s buf xs fs) = shown s"
    "img_agree (mem s) (fs_ptr s) (mem (after_call s buf xs fs))"
proof -
  have sub: "rng buf (length xs) \<subseteq> rng buf n" using assms(3) by (rule rng_mono)
  then have scr: "rng buf (length xs) \<inter> screen_rng = {}" using assms(2) by (auto simp: buf_ok_def)
  show agree: "img_agree (mem s) (fs_ptr s) (mem (after_call s buf xs fs))"
    using assms(2) sub by (auto simp: img_agree_def buf_ok_def intro!: store_bytes_other)
  have rng: "img_rng (store_bytes (mem s) buf xs) (fs_ptr s) = img_rng (mem s) (fs_ptr s)"
    using img_same [OF agree] by (simp add: img_rng_def img_size_def)
  show "prog_ok (after_call s buf xs fs)"
    using assms(1) out_ok_after_call [OF _ scr assms(4,5)] img_ok_same [OF agree] rng by (simp add: prog_ok_def)
  show "buf_ok c m (after_call s buf xs fs) = buf_ok c m s" using rng by (simp add: buf_ok_def)
  show "shown (after_call s buf xs fs) = shown s" by (rule after_call_out(1) [OF scr])
qed

lemma file_after_open:
  fixes s :: "'a kernel_scheme" and a ino :: u32 and idx n :: nat
  assumes ok: "prog_ok s" and buf: "buf_ok buf n s"
    and ino: "unat ino < img_inodes (mem s) (fs_ptr s)" and idx: "2 \<le> idx" "idx < 8"
  defines "t \<equiv> after_call s a [] ((cur_files (in_kernel s))[idx := opened_as FileOps ino])"
  shows "file_on (of_nat idx) buf n t" "fd_rest (of_nat idx) t = file_content (mem s) (fs_ptr s) (unat ino)"
proof -
  have l8: "length (cur_files (in_kernel s)) = 8" using ok by (simp add: prog_ok_def out_ok_def std_out_def)
  have i: "unat (of_nat idx :: u32) = idx" using idx(2) by (simp add: unat_of_nat)
  have pos: "fd_pos (of_nat idx) (in_kernel t) = 0" "fd_file (of_nat idx) (in_kernel t) = file_content (mem s) (fs_ptr s) (unat ino)"
    using idx l8 by (simp_all add: fd_pos_def fd_file_def t_def i opened_as_def)
  then show "fd_rest (of_nat idx) t = file_content (mem s) (fs_ptr s) (unat ino)" by (simp add: fd_rest_def)
  have "out_ok t" unfolding t_def using ok idx l8 by (intro out_ok_after_call) (simp_all add: prog_ok_def)
  moreover have "fd_ok (of_nat idx) buf n (in_kernel t)"
    using ok buf ino idx l8 pos by (auto simp: fd_ok_def t_def i opened_as_def prog_ok_def buf_ok_def)
  ultimately show "file_on (of_nat idx) buf n t"
    using ok buf idx l8
    by (auto simp: file_on_def t_def i opened_as_def prog_ok_def buf_ok_def FILE_OCCUP_def FILE_AVAIL_def)
qed

text \<open>A store of the program itself.\<close>

lemma prog_ok_store:
  assumes "prog_ok s" "\<And>b. b \<notin> R \<Longrightarrow> m b = mem s b" "R \<inter> (screen_rng \<union> img_rng (mem s) (fs_ptr s)) = {}"
  shows "prog_ok (s\<lparr>mem := m\<rparr>)" "buf_ok c n (s\<lparr>mem := m\<rparr>) = buf_ok c n s" "shown (s\<lparr>mem := m\<rparr>) = shown s"
    "img_agree (mem s) (fs_ptr s) m"
proof -
  show agree: "img_agree (mem s) (fs_ptr s) m" using assms(2,3) by (auto simp: img_agree_def)
  have rng: "img_rng m (fs_ptr s) = img_rng (mem s) (fs_ptr s)"
    using img_same [OF agree] by (simp add: img_rng_def img_size_def)
  have scr: "m b = mem s b" if "b \<in> screen_rng" for b using assms(2,3) that by auto
  let ?k = "in_kernel s"
  have same: "con_good (?k\<lparr>mem := m\<rparr>) = con_good ?k" "con_view (?k\<lparr>mem := m\<rparr>) = con_view ?k"
    using scr by (simp_all add: con_same [of "?k\<lparr>mem := m\<rparr>" ?k])
  then show "shown (s\<lparr>mem := m\<rparr>) = shown s" by (simp add: shown_def)
  show "prog_ok (s\<lparr>mem := m\<rparr>)"
    using assms(1) same(1) img_ok_same [OF agree] rng by (simp add: prog_ok_def out_ok_def std_out_def)
  show "buf_ok c n (s\<lparr>mem := m\<rparr>) = buf_ok c n s" using rng by (simp add: buf_ok_def)
qed

lemma prog_ok_put_text:
  assumes "prog_ok s"
  shows "prog_ok (put_text cs s)" "buf_ok c n (put_text cs s) = buf_ok c n s"
    "shown (put_text cs s) = fold tty_putc cs (shown s)" "img_agree (mem s) (fs_ptr s) (mem (put_text cs s))"
proof -
  have o: "out_ok s" and apart: "img_rng (mem s) (fs_ptr s) \<inter> screen_rng = {}" using assms by (simp_all add: prog_ok_def)
  show agree: "img_agree (mem s) (fs_ptr s) (mem (put_text cs s))"
    using put_text_out(3) [OF o] apart by (auto simp: img_agree_def)
  have rng: "img_rng (mem (put_text cs s)) (fs_ptr s) = img_rng (mem s) (fs_ptr s)"
    using img_same [OF agree] by (simp add: img_rng_def img_size_def)
  show "prog_ok (put_text cs s)"
    using assms put_text_out(1) [OF o] img_ok_same [OF agree] rng by (simp add: prog_ok_def)
  show "buf_ok c n (put_text cs s) = buf_ok c n s" using rng by (simp add: buf_ok_def)
  show "shown (put_text cs s) = fold tty_putc cs (shown s)" by (rule put_text_out(2) [OF o])
qed

text \<open>Literals of the program: strings in its memory, beside what is to change.\<close>

definition literals :: "string set \<Rightarrow> (string \<Rightarrow> u32) \<Rightarrow> u32 set \<Rightarrow> 'a kernel_scheme \<Rightarrow> bool" where
  "literals msgs lits R s \<longleftrightarrow>
     (\<forall>msg \<in> msgs. text_at (mem s) (lits msg) (lit msg) \<and> rng (lits msg) (Suc (length msg)) \<inter> R = {})"

lemma literals_same:
  assumes "literals msgs lits R s" "\<And>b. b \<notin> R \<Longrightarrow> b \<notin> screen_rng \<Longrightarrow> mem t b = mem s b"
  shows "literals msgs lits R t"
proof -
  have "text_at (mem t) (lits msg) (lit msg)" if "msg \<in> msgs" for msg
  proof -
    have "mem t b = mem s b" if "b \<in> rng (lits msg) (Suc (length (lit msg)))" "b \<notin> screen_rng" for b
      using that assms \<open>msg \<in> msgs\<close> by (auto simp: literals_def)
    then have "text_at (mem t) (lits msg) (lit msg) = text_at (mem s) (lits msg) (lit msg)" by (rule text_at_cong)
    with assms(1) that show ?thesis by (simp add: literals_def)
  qed
  with assms(1) show ?thesis by (simp add: literals_def)
qed

lemma say_literal:
  assumes "prog_ok s" "literals msgs lits R s" "msg \<in> msgs"
  shows "ece391_fdputs 1 (lits msg) s = Some (put_text (lit msg) s)"
  using assms by (intro fdputs_out) (simp_all add: prog_ok_def literals_def)

lemma literals_after_call:
  "literals msgs lits R s \<Longrightarrow> rng a (length xs) \<subseteq> R \<Longrightarrow> literals msgs lits R (after_call s a xs fs)"
  by (erule literals_same) (auto intro!: store_bytes_other)

lemma literals_put_text: "prog_ok s \<Longrightarrow> literals msgs lits R s \<Longrightarrow> literals msgs lits R (put_text cs s)"
  by (erule literals_same) (simp add: put_text_out prog_ok_def)

lemma literals_store:
  "literals msgs lits R s \<Longrightarrow> (\<And>b. b \<notin> R \<Longrightarrow> m b = mem s b) \<Longrightarrow> literals msgs lits R (s\<lparr>mem := m\<rparr>)"
  by (rule literals_same) auto

section \<open>A memory with literals\<close>

fun place :: "u32 \<Rightarrow> string list \<Rightarrow> (u32 \<Rightarrow> u8) \<Rightarrow> (u32 \<Rightarrow> u8)" where
  "place a [] m = m"
| "place a (x # xs) m = store_bytes (place (a + 64) xs m) a (lit x @ [0])"

fun place_at :: "u32 \<Rightarrow> string list \<Rightarrow> string \<Rightarrow> u32" where
  "place_at a [] y = 0"
| "place_at a (x # xs) y = (if x = y then a else place_at (a + 64) xs y)"

definition plain :: "string \<Rightarrow> bool" where
  "plain x \<longleftrightarrow> length x < 64 \<and> (0 :: u8) \<notin> set (lit x)"

lemma place_other:
  "list_all plain xs \<Longrightarrow> b \<notin> rng a (64 * length xs) \<Longrightarrow> place a xs m b = m b"
proof (induction xs arbitrary: a)
  case (Cons x xs)
  have "rng a (length (lit x @ [0])) \<subseteq> rng a (64 * length (x # xs))"
    using Cons.prems(1) by (intro rng_mono) (simp add: plain_def)
  moreover have "rng (a + of_nat 64) (64 * length xs) \<subseteq> rng a (64 * length (x # xs))" by (rule rng_shift) simp
  ultimately have "b \<notin> rng a (length (lit x @ [0]))" "b \<notin> rng (a + 64) (64 * length xs)" using Cons.prems(2) by auto
  with Cons show ?case by (simp del: store_bytes.simps)
qed simp

lemma place_string:
  assumes "list_all plain xs" "64 * length xs \<le> 2 ^ 31" "x \<in> set xs"
  shows "cstr (place a xs m) (place_at a xs x) (lit x)" "rng (place_at a xs x) (Suc (length x)) \<subseteq> rng a (64 * length xs)"
    "\<exists>i < length xs. place_at a xs x = a + of_nat (64 * i)"
  using assms
proof (induction xs arbitrary: a)
  case (Cons y ys)
  { case 3
    show ?case
    proof (cases "y = x")
      case False
      with 3 Cons.IH(3) [of "a + 64"] obtain i where "i < length ys" "place_at (a + 64) ys x = a + 64 + of_nat (64 * i)" by auto
      with False show ?thesis by (intro exI [of _ "Suc i"]) (simp add: add.assoc)
    qed auto }
  note at = this
  { case 2
    have len: "length x < 64" if "x \<in> set (y # ys)" using 2 that by (auto simp: list_all_iff plain_def)
    obtain i where "i < length (y # ys)" "place_at a (y # ys) x = a + of_nat (64 * i)" using at 2 by blast
    then show ?case using len 2 by (simp only:) (rule rng_shift, simp) }
  { case 1
    have px: "plain y" "plain x" using 1 by (auto simp: list_all_iff)
    show ?case
    proof (cases "y = x")
      case True
      then show ?thesis using px by (simp del: store_bytes.simps) (rule cstr_store_same; simp add: plain_def)
    next
      case False
      with 1 have x: "list_all plain ys" "64 * length ys \<le> 2 ^ 31" "x \<in> set ys" by auto
      have sub: "rng (place_at (a + 64) ys x) (Suc (length x)) \<subseteq> rng (a + 64) (64 * length ys)"
        by (rule Cons.IH(2) [OF x])
      have "rng (a + of_nat 64) (64 * length ys) \<inter> rng a 64 = {}"
        using rng_apart [of 0 64 64 "64 * length ys" a] x(2) by auto
      then have "rng (place_at (a + 64) ys x) (Suc (length (lit x))) \<inter> rng a (length (lit y @ [0])) = {}"
        using sub rng_mono [of "length (lit y @ [0])" 64 a] px(1) by (auto simp: plain_def)
      with Cons.IH(1) [OF x] False show ?thesis by (simp add: cstr_store_other del: store_bytes.simps) 
    qed }
qed simp_all

section \<open>Reading a line\<close>

definition std_in :: "'a kernel_scheme \<Rightarrow> bool" where
  "std_in s \<longleftrightarrow> flags (cur_files (in_kernel s) ! 0) \<noteq> FILE_AVAIL \<and>
     file_ops_table_ptr (cur_files (in_kernel s) ! 0) = TerminalOps \<and> pushed_key s = 0"

text \<open>The line the keys to come make, with the screen its echo leaves.\<close>

definition typed :: "'a kernel_scheme \<Rightarrow> nat \<Rightarrow> (u8 list \<times> tty \<times> u8 list) option" where
  "typed s limit = edit_line limit (chars (kbd_of s) (inq s KEYBOARD_DATA_PORT)) [] (shown s)"

text \<open>The program's buffer: room for the line and its NUL, beside the screen and the image.\<close>

definition line_room :: "u32 \<Rightarrow> nat \<Rightarrow> 'a kernel_scheme \<Rightarrow> bool" where
  "line_room buf limit s \<longleftrightarrow> line_buffer buf limit \<and> buf_ok buf (Suc limit) s"

lemma keyboard_more_files:
  assumes "keyboard.more (s :: 'a kernel_scheme) = keyboard.more t"
  shows "cur_files s = cur_files t" "fs_ptr s = fs_ptr t" "tss_esp0 s = tss_esp0 t" "esp s = esp t"
  using assms by (cases s; cases t; simp add: cur_files_def cur_pcb_def getCurrentProcessPCB_def)+

lemma eflags_only:
  "cur_files (s\<lparr>eflags := f\<rparr>) = cur_files s" "con_good (s\<lparr>eflags := f\<rparr>) = con_good s"
  "con_view (s\<lparr>eflags := f\<rparr>) = con_view s"
  by (simp_all add: cur_files_def cur_pcb_def getCurrentProcessPCB_def con_same [of "s\<lparr>eflags := f\<rparr>" s])

lemma in_kernel_keyboard [simp]:
  "kbd_of (in_kernel s) = kbd_of s" "pushed_key (in_kernel s) = pushed_key s"
  by (simp_all add: in_kernel_def kbd_of_def)

text \<open>A line that was read leaves no key behind.\<close>

lemma getchar_takes: "getchar s = Some (c, t) \<Longrightarrow> pushed_key t = 0"
proof (induction s rule: getchar.induct)
  case (1 s)
  then show ?case by (subst (asm) (3) getchar.simps) (auto split: if_splits)
qed

lemma getline_loop_takes: "getline_loop buf n lp s = Some (r, t) \<Longrightarrow> pushed_key t = 0"
proof (induction "kbd_weight s" arbitrary: lp s rule: less_induct)
  case less
  obtain c u where g: "getchar s = Some (c, u)"
    using less.prems by (subst (asm) getline_loop.simps) (auto split: option.splits)
  have ih: "pushed_key t = 0" if "getline_loop buf n l v = Some (r, t)" "kbd_weight v = kbd_weight u" for l v
    using less.hyps [of v l] that getchar_less [OF g] by simp
  from less.prems getchar_takes [OF g] show ?case
    by (subst (asm) getline_loop.simps) (auto simp: g Let_def split: if_splits dest: ih)
qed

lemma terminal_read_takes: "terminal_read 0 buf n s = Some (r, t) \<Longrightarrow> buf \<noteq> 0 \<Longrightarrow> pushed_key t = 0"
  by (auto simp: terminal_read_def getline_def Let_def split: if_splits dest!: getline_loop_takes)

lemma edit_line_printable: "edit_line limit cs [] v = Some (ys, view, rest) \<Longrightarrow> list_all printable ys \<and> length ys \<le> limit"
  using edit_line_text [of limit cs "[]" v ys view rest] by simp

lemma read_line:
  fixes s :: "'a kernel_scheme"
  defines "limit n \<equiv> min (unat n) 128"
  assumes ok: "prog_ok s" and in0: "std_in s" and room: "line_room buf (limit n) s"
    and line: "typed s (limit n) = Some (ys, view, rest)"
  shows "\<exists>t. ece391_read 0 buf n s = Some (of_nat (length ys), t) \<and> prog_ok t \<and> shown t = view \<and> cstr (mem t) buf ys \<and>
    (\<forall>b. b \<notin> screen_rng \<longrightarrow> b \<notin> rng buf (Suc (limit n)) \<longrightarrow> mem t b = mem s b) \<and>
    fs_ptr t = fs_ptr s \<and> cur_files (in_kernel t) = cur_files (in_kernel s) \<and> pushed_key t = 0 \<and>
    (\<forall>c m. buf_ok c m t = buf_ok c m s) \<and> keyboard.more (in_kernel t) = keyboard.more (in_kernel s) \<and>
    conv_buf_at t = conv_buf_at s"
proof -
  let ?k = "in_kernel s"
  have g: "con_good ?k" and std: "std_out ?k" using ok by (simp_all add: prog_ok_def out_ok_def)
  have buf: "buf \<noteq> 0" "line_buffer buf (limit n)" using room by (simp_all add: line_room_def buf_ok_def)
  have pk: "pushed_key ?k = 0" using in0 by (simp add: std_in_def)
  obtain k where k: "terminal_read 0 buf n ?k = Some (of_nat (length ys), k)" "con_view k = view" "con_good k"
    "cstr (mem k) buf ys" "line_kept (rng buf (Suc (limit n))) (sti ?k) k"
    using terminal_read_line [OF buf(1) g pk buf(2) [unfolded limit_def], of ys view rest] line
    unfolding typed_def limit_def shown_def by auto
  let ?t = "in_program s k" and ?j = "k\<lparr>eflags := eflags s AND NOT IF_FLAG\<rparr>"
  have more: "keyboard.more k = keyboard.more ?k" using k(5) by (simp add: line_kept_def)
  note m = keyboard_more_files [OF more]
  have "esp k = tss_esp0 k - 92" using m(3,4) by (simp add: in_kernel_def)
  then have j: "in_kernel ?t = ?j" by (cases k) (simp add: in_kernel_def in_program_def)
  have "sys_read 0 buf n ?k = terminal_read 0 buf n ?k"
    using in0 fd_valid_small [of 0] by (simp add: sys_read_def std_in_def)
  then have call: "ece391_read 0 buf n s = Some (of_nat (length ys), ?t)" by (simp add: ece391_calls resumed_def k(1))
  have files: "cur_files (in_kernel ?t) = cur_files ?k" using m(1) by (simp add: j eflags_only)
  have mem: "mem ?t b = mem s b" if "b \<notin> screen_rng" "b \<notin> rng buf (Suc (limit n))" for b
    using k(5) that by (simp add: line_kept_def sti_def)
  have agree: "img_agree (mem s) (fs_ptr s) (mem ?t)"
    unfolding img_agree_def using mem room ok by (simp add: line_room_def buf_ok_def prog_ok_def) blast
  have rng: "img_rng (mem ?t) (fs_ptr s) = img_rng (mem s) (fs_ptr s)"
    using img_same [OF agree] by (simp add: img_rng_def img_size_def)
  moreover have "fs_ptr ?t = fs_ptr s" using m(2) by simp
  moreover have "con_good (in_kernel ?t)" "shown ?t = view" using k(2,3) by (simp_all add: j eflags_only shown_def)
  ultimately have "prog_ok ?t"
    using ok img_ok_same(1) [OF agree] files by (simp add: prog_ok_def out_ok_def std_out_def)
  moreover have "pushed_key ?t = 0" using terminal_read_takes [OF k(1) buf(1)] by (simp add: in_program_def)
  moreover have "buf_ok c m ?t = buf_ok c m s" for c m using rng \<open>fs_ptr ?t = fs_ptr s\<close> by (simp add: buf_ok_def)
  moreover have "conv_buf_at ?t = conv_buf_at s" using k(5) by (simp add: line_kept_def sti_def in_program_def in_kernel_def)
  moreover have "keyboard.more (in_kernel ?t) = keyboard.more ?k" unfolding j more [symmetric] by (cases k) simp
  ultimately show ?thesis using call mem files k(4) \<open>shown ?t = view\<close> \<open>fs_ptr ?t = fs_ptr s\<close> by (intro exI [of _ ?t]) simp
qed

lemma small_word: "k \<le> 1024 \<Longrightarrow> (of_nat k :: u32) \<noteq> minus_one" "k \<le> 1024 \<Longrightarrow> (of_nat k :: u32) = 0 \<longleftrightarrow> k = 0"
proof -
  assume k: "k \<le> 1024"
  then have u: "unat (of_nat k :: u32) = k" by (simp add: unat_of_nat)
  show "(of_nat k :: u32) \<noteq> minus_one"
  proof
    assume "(of_nat k :: u32) = minus_one"
    then have "unat (of_nat k :: u32) = 2 ^ 32 - 1" by (simp add: unat_minus_one_word)
    with k u show False by simp
  qed
  show "(of_nat k :: u32) = 0 \<longleftrightarrow> k = 0" using u unat_eq_zero [of "of_nat k :: u32"] by simp
qed

section \<open>The clock\<close>

text \<open>Opening the clock takes no slot, and nothing can be done with the descriptor.\<close>

lemma blank_in_kernel: "blank (in_kernel s) = blank s" "blank (in_program s t) = blank t"
  by (simp_all add: in_kernel_def in_program_def)

lemma rtc_open_kernel [simp]:
  "tss_esp0 (snd (rtc_open (s :: 'a kernel_scheme))) = tss_esp0 s" "esp (snd (rtc_open s)) = esp s"
  "blank (snd (rtc_open s)) = blank s"
proof -
  have more: "keyboard.more (snd (rtc_open s)) = keyboard.more s" by (rule rtc_more_keyboard [OF rtc_open_more(1)])
  show "tss_esp0 (snd (rtc_open s)) = tss_esp0 s" "esp (snd (rtc_open s)) = esp s" by (rule keyboard_more_files [OF more])+
  show "blank (snd (rtc_open s)) = blank s" using more by (cases s; cases "snd (rtc_open s)") simp
qed

lemma clock_open:
  fixes s :: "'a kernel_scheme"
  assumes name: "cstr (mem s) fname name" "fname \<noteq> 0" "name \<noteq> []" "length name < 32"
    and d: "entry_of (in_kernel s) name = Some d" "filetype d = 0"
    and free: "free_slot (cur_files (in_kernel s)) 2 = idx" "idx < 8" and files: "files_ok (cur_files (in_kernel s))"
  shows "\<exists>t. ece391_open fname s = Some (of_nat idx, t) \<and> mem t = mem s \<and> fs_ptr t = fs_ptr s \<and>
    flags (cur_files (in_kernel t) ! idx) = FILE_AVAIL \<and> free_slot (cur_files (in_kernel t)) 2 = idx \<and>
    (\<exists>f. cur_files (in_kernel t) = (cur_files (in_kernel s))[idx := f]) \<and> blank t = blank s"
proof -
  let ?k = "in_kernel s"
  define f where "f s' = (cur_files (s' :: 'a kernel_scheme) ! idx)\<lparr>file_ops_table_ptr := RtcOps, inode_num := dentry_inode d\<rparr>" for s'
  define g where "g s' = snd (rtc_open (set_files ((cur_files s')[idx := f s']) (s' :: 'a kernel_scheme)))" for s'
  have look: "read_dentry_by_name fname s' = Some d" and c: "cstr (mem s') fname name"
    if "mem s' = mem s" "fs_ptr s' = fs_ptr s" for s' :: "'a kernel_scheme"
  proof -
    show c: "cstr (mem s') fname name" using name(1) that by simp
    have "entry_of s' name = entry_of ?k name"
      by (rule entry_of_same) (simp_all add: that img_agree_def)
    then show "read_dentry_by_name fname s' = Some d" using lookup_entry [OF c] name d(1) by simp
  qed
  have same: "mem (g s') = mem s'" "fs_ptr (g s') = fs_ptr s'" "cur_files (g s') = (cur_files s')[idx := f s']"
    "tss_esp0 (g s') = tss_esp0 s'" "blank (g s') = blank s'" for s' by (simp_all add: g_def)
  have op: "file_open fname s' = Some (of_nat idx, g s') \<and> flags (cur_files (g s') ! idx) = FILE_AVAIL \<and>
      free_slot (cur_files (g s')) 2 = idx \<and> files_ok (cur_files (g s'))"
    if "mem s' = mem s" "fs_ptr s' = fs_ptr s" "free_slot (cur_files s') 2 = idx" "files_ok (cur_files s')" for s' :: "'a kernel_scheme"
  proof -
    have o: "file_open fname s' = Some (of_nat idx, g s')"
      using name that free(2) d(2) look [OF that(1,2)]
      by (subst file_open_cases [OF c [OF that(1,2)]]) (simp_all add: Let_def g_def f_def)
    have "filetype d = FILE_TYPE_RTC" using d(2) by (simp add: FILE_TYPE_RTC_def)
    from clock_slot_stays_free [OF c [OF that(1,2)] name(4,2) that(4) look [OF that(1,2)] this that(3) free(2)] o
    have "flags (cur_files (g s') ! idx) = FILE_AVAIL" "free_slot (cur_files (g s')) 2 = idx" by auto
    moreover have "files_ok (cur_files (g s'))"
    proof -
      have "2 \<le> idx" "flags (cur_files s' ! idx) = FILE_AVAIL" using free_slot_spec [of 2 "cur_files s'"] that(3) free(2) by auto
      then show ?thesis unfolding same(3) by (intro files_ok_update [OF that(4)]) (simp_all add: slot_ok_def f_def)
    qed
    ultimately show ?thesis using o by blast
  qed
  have o1: "file_open fname ?k = Some (of_nat idx, g ?k) \<and> free_slot (cur_files (g ?k)) 2 = idx \<and> files_ok (cur_files (g ?k))"
    using op [of ?k] free(1) files by simp
  then have o2: "file_open fname (g ?k) = Some (of_nat idx, g (g ?k)) \<and> flags (cur_files (g (g ?k)) ! idx) = FILE_AVAIL \<and>
      free_slot (cur_files (g (g ?k))) 2 = idx"
    using op [of "g ?k"] by (simp add: same)
  have "(of_nat idx :: u32) \<noteq> minus_one" using free(2) by (intro small_word(1)) simp
  then have so: "sys_open fname ?k = Some (of_nat idx, g (g ?k))"
    using o1 o2 look [of ?k] d(2) by (simp add: sys_open_def FILE_TYPE_DIR_def FILE_TYPE_RTC_def)
  have "entered s (g (g ?k))" using entered_in_kernel [of s] by (simp add: entered_def g_def)
  then have k: "in_kernel (in_program s (g (g ?k))) = g (g ?k)" by (rule in_kernel_in_program)
  show ?thesis
    using o2 so by (intro exI [of _ "in_program s (g (g ?k))"]) (auto simp: ece391_calls resumed_def k same blank_in_kernel)
qed

lemma small_fds: "2 \<le> idx \<Longrightarrow> idx < 8 \<Longrightarrow> fd_valid 2 (of_nat idx) \<and> fd_valid 0 (of_nat idx) \<and> unat (of_nat idx :: u32) = idx"
proof -
  assume "2 \<le> idx" "idx < 8"
  then have "idx \<in> {2, 3, 4, 5, 6, 7}" by auto
  then show ?thesis by (auto simp: fd_valid_def word_sless_alt word_sle_eq)
qed

end
