(* ===== verification/Programs.thy ===== *)
theory Programs
  imports Usercalls
begin

text \<open>
  The user programs of \<^verbatim>\<open>src/syscalls/\<close> over the library of \<^verbatim>\<open>Ulib\<close>: \<^verbatim>\<open>ece391cat.c\<close>,
  \<^verbatim>\<open>ece391ls.c\<close>, \<^verbatim>\<open>ece391grep.c\<close>, \<^verbatim>\<open>ece391hello.c\<close>, \<^verbatim>\<open>ece391testprint.c\<close>, \<^verbatim>\<open>ece391counter.c\<close>,
  \<^verbatim>\<open>ece391shell.c\<close> and \<^verbatim>\<open>ece391pingpong.c\<close>. The addresses of literals (\<open>lits\<close>) and of local buffers
  are parameters; the result is the exit status.
\<close>

section \<open>The programs\<close>

definition line :: "string \<Rightarrow> string" where
  "line msg = msg @ [CHR 0x0A]"

definition say_to :: "(string \<Rightarrow> u32) \<Rightarrow> string \<Rightarrow> 'a kernel_scheme \<Rightarrow> 'a kernel_scheme option" where
  "say_to lits msg s = ece391_fdputs 1 (lits msg) s"

text \<open>A message and an exit status.\<close>

definition quit :: "(string \<Rightarrow> u32) \<Rightarrow> string \<Rightarrow> u32 \<Rightarrow> 'a kernel_scheme \<Rightarrow> (u32 \<times> 'a kernel_scheme) option" where
  "quit lits msg status s = do { s \<leftarrow> say_to lits msg s; Some (status, s) }"

subsection \<open>cat\<close>

partial_function (option) cat_loop ::
  "(string \<Rightarrow> u32) \<Rightarrow> u32 \<Rightarrow> u32 \<Rightarrow> 'a kernel_scheme \<Rightarrow> (u32 \<times> 'a kernel_scheme) option" where
  "cat_loop lits fd buf s = do {
     (cnt, s) \<leftarrow> ece391_read fd buf 1024 s;
     if cnt = 0 then Some (0, s)
     else if cnt = minus_one then quit lits (line ''file read failed'') 3 s
     else do {
       (r, s) \<leftarrow> ece391_write 1 buf cnt s;
       if r = minus_one then Some (3, s) else cat_loop lits fd buf s } }"

definition cat_main :: "(string \<Rightarrow> u32) \<Rightarrow> u32 \<Rightarrow> 'a kernel_scheme \<Rightarrow> (u32 \<times> 'a kernel_scheme) option" where
  "cat_main lits buf s = do {
     (r, s) \<leftarrow> ece391_getargs buf 1024 s;
     if r \<noteq> 0 then quit lits (line ''could not read arguments'') 3 s
     else do {
       (fd, s) \<leftarrow> ece391_open buf s;
       if fd = minus_one then quit lits (line ''file not found'') 2 s
       else cat_loop lits fd buf s } }"

subsection \<open>ls\<close>

definition SBUFSIZE :: u32 where "SBUFSIZE = 33"

partial_function (option) ls_loop ::
  "(string \<Rightarrow> u32) \<Rightarrow> u32 \<Rightarrow> u32 \<Rightarrow> 'a kernel_scheme \<Rightarrow> (u32 \<times> 'a kernel_scheme) option" where
  "ls_loop lits fd buf s = do {
     (cnt, s) \<leftarrow> ece391_read fd buf (SBUFSIZE - 1) s;
     if cnt = 0 then Some (0, s)
     else if cnt = minus_one then quit lits (line ''directory entry read failed'') 3 s
     else do {
       let s = s\<lparr>mem := (mem s)(buf + cnt := 0x0A)\<rparr>;
       (r, s) \<leftarrow> ece391_write 1 buf (cnt + 1) s;
       if r = minus_one then Some (3, s) else ls_loop lits fd buf s } }"

definition ls_main :: "(string \<Rightarrow> u32) \<Rightarrow> u32 \<Rightarrow> 'a kernel_scheme \<Rightarrow> (u32 \<times> 'a kernel_scheme) option" where
  "ls_main lits buf s = do {
     (fd, s) \<leftarrow> ece391_open (lits ''.'') s;
     if fd = minus_one then quit lits (line ''directory open failed'') 2 s
     else ls_loop lits fd buf s }"

subsection \<open>grep\<close>

definition BUFSIZE :: u32 where "BUFSIZE = 1024"

function line_end_from :: "(u32 \<Rightarrow> u8) \<Rightarrow> u32 \<Rightarrow> u32 \<Rightarrow> u32 \<Rightarrow> u32" where
  "line_end_from m data line_end stop =
     (if line_end <s stop \<and> m (data + line_end) \<noteq> 0x0A then line_end_from m data (line_end + 1) stop
      else line_end)"
  by pat_completeness auto
termination
  by (relation "measure (\<lambda>(m, data, line_end, stop). nat (sint stop - sint line_end))")
    (use less_measure in auto)

declare line_end_from.simps [simp del]

partial_function (option) search_line ::
  "(string \<Rightarrow> u32) \<Rightarrow> u32 \<Rightarrow> u32 \<Rightarrow> u32 \<Rightarrow> u32 \<Rightarrow> u32 \<Rightarrow> u32 \<Rightarrow> u32 \<Rightarrow> 'a kernel_scheme \<Rightarrow> 'a kernel_scheme option" where
  "search_line lits str fname s_len data line_start line_end check s =
     (if check <s line_end then do {
        hit \<leftarrow> (if mem s str = mem s (data + check)
                then do { v \<leftarrow> ece391_strncmp (mem s) (data + check) str s_len; Some (v = 0) }
                else Some False);
        if hit then do {
          s \<leftarrow> ece391_fdputs 1 fname s;
          s \<leftarrow> say_to lits '':'' s;
          s \<leftarrow> ece391_fdputs 1 (data + line_start) s;
          say_to lits (line []) s }
        else search_line lits str fname s_len data line_start line_end (check + 1) s }
      else Some s)"

text \<open>The inner loop: the lines of the \<open>stop\<close> bytes in \<open>data\<close>; the result is the number of bytes
  kept for the next read.\<close>

partial_function (option) grep_lines ::
  "(string \<Rightarrow> u32) \<Rightarrow> u32 \<Rightarrow> u32 \<Rightarrow> u32 \<Rightarrow> u32 \<Rightarrow> u32 \<Rightarrow> u32 \<Rightarrow> u32 \<Rightarrow> 'a kernel_scheme \<Rightarrow>
   (u32 \<times> 'a kernel_scheme) option" where
  "grep_lines lits str fname s_len data cnt stop line_start s =
     (let line_end = line_end_from (mem s) data line_start stop in
      if mem s (data + line_end) \<noteq> 0x0A \<and> cnt \<noteq> 0 \<and> line_start \<noteq> 0 then do {
        let s = s\<lparr>mem := (mem s)(data + line_end := 0)\<rparr>;
        m \<leftarrow> ece391_strcpy (mem s) data (data + line_start);
        Some (stop - line_start, s\<lparr>mem := m\<rparr>) }
      else do {
        let s = s\<lparr>mem := (mem s)(data + line_end := 0)\<rparr>;
        s \<leftarrow> search_line lits str fname s_len data line_start line_end line_start s;
        let line_start = line_end + 1;
        if stop \<le>s line_start then Some (0, s)
        else grep_lines lits str fname s_len data cnt stop line_start s })"

partial_function (option) grep_reads ::
  "(string \<Rightarrow> u32) \<Rightarrow> u32 \<Rightarrow> u32 \<Rightarrow> u32 \<Rightarrow> u32 \<Rightarrow> u32 \<Rightarrow> u32 \<Rightarrow> 'a kernel_scheme \<Rightarrow> (u32 \<times> 'a kernel_scheme) option" where
  "grep_reads lits str fname s_len data fd stop s = do {
     (cnt, s) \<leftarrow> ece391_read fd (data + stop) (BUFSIZE - stop) s;
     if cnt = minus_one then quit lits (line ''file read failed'') minus_one s
     else do {
       (stop, s) \<leftarrow> grep_lines lits str fname s_len data cnt (stop + cnt) 0 s;
       if cnt = 0 then do {
         (r, s) \<leftarrow> ece391_close fd s;
         if r = minus_one then quit lits (line ''file close failed'') minus_one s else Some (0, s) }
       else grep_reads lits str fname s_len data fd stop s } }"

definition do_one_file ::
  "(string \<Rightarrow> u32) \<Rightarrow> u32 \<Rightarrow> u32 \<Rightarrow> u32 \<Rightarrow> 'a kernel_scheme \<Rightarrow> (u32 \<times> 'a kernel_scheme) option" where
  "do_one_file lits data str fname s = do {
     s_len \<leftarrow> ece391_strlen (mem s) str;
     (fd, s) \<leftarrow> ece391_open fname s;
     if fd = minus_one then quit lits (line ''file open failed'') minus_one s
     else grep_reads lits str fname s_len data fd 0 s }"

partial_function (option) grep_loop ::
  "(string \<Rightarrow> u32) \<Rightarrow> u32 \<Rightarrow> u32 \<Rightarrow> u32 \<Rightarrow> u32 \<Rightarrow> 'a kernel_scheme \<Rightarrow> (u32 \<times> 'a kernel_scheme) option" where
  "grep_loop lits data search buf fd s = do {
     (cnt, s) \<leftarrow> ece391_read fd buf (SBUFSIZE - 1) s;
     if cnt = 0 then Some (0, s)
     else if cnt = minus_one then quit lits (line ''directory entry read failed'') 3 s
     else if mem s buf = of_char CHR ''.'' then grep_loop lits data search buf fd s
     else do {
       (r, s) \<leftarrow> do_one_file lits data search buf (s\<lparr>mem := (mem s)(buf + cnt := 0)\<rparr>);
       if r \<noteq> 0 then Some (3, s) else grep_loop lits data search buf fd s } }"

definition grep_main ::
  "(string \<Rightarrow> u32) \<Rightarrow> u32 \<Rightarrow> u32 \<Rightarrow> u32 \<Rightarrow> 'a kernel_scheme \<Rightarrow> (u32 \<times> 'a kernel_scheme) option" where
  "grep_main lits data search buf s = do {
     (r, s) \<leftarrow> ece391_getargs search BUFSIZE s;
     if r \<noteq> 0 then quit lits (line ''could not read argument'') 3 s
     else do {
       (fd, s) \<leftarrow> ece391_open (lits ''.'') s;
       if fd = minus_one then quit lits (line ''directory open failed'') 2 s
       else grep_loop lits data search buf fd s } }"

subsection \<open>testprint, hello and counter\<close>

definition testprint_main :: "(string \<Rightarrow> u32) \<Rightarrow> 'a kernel_scheme \<Rightarrow> (u32 \<times> 'a kernel_scheme) option" where
  "testprint_main lits s = quit lits (line ''Hello, if this ran, the program was correct. Yay!'') 0 s"

definition hello_main :: "(string \<Rightarrow> u32) \<Rightarrow> u32 \<Rightarrow> 'a kernel_scheme \<Rightarrow> (u32 \<times> 'a kernel_scheme) option" where
  "hello_main lits buf s = do {
     s \<leftarrow> say_to lits ''Hi, what's your name? '' s;
     (cnt, s) \<leftarrow> ece391_read 0 buf (BUFSIZE - 1) s;
     if cnt = minus_one then quit lits (line ''Can't read name from keyboard.'') 3 s
     else do {
       let s = s\<lparr>mem := (mem s)(buf + cnt := 0)\<rparr>;
       s \<leftarrow> say_to lits ''Hello, '' s;
       s \<leftarrow> ece391_fdputs 1 buf s;
       Some (0, s) } }"

partial_function (option) counter_loop ::
  "(string \<Rightarrow> u32) \<Rightarrow> u32 \<Rightarrow> u32 \<Rightarrow> u32 \<Rightarrow> 'a kernel_scheme \<Rightarrow> 'a kernel_scheme option" where
  "counter_loop lits buf limit i s =
     (if i < limit then do {
        m \<leftarrow> ece391_itoa (mem s) (i + 1) buf 10;
        s \<leftarrow> ece391_fdputs 1 buf (s\<lparr>mem := m\<rparr>);
        s \<leftarrow> say_to lits (line []) s;
        counter_loop lits buf limit (i + 1) s }
      else Some s)"

definition counter_max :: "u8 \<Rightarrow> u32" where
  "counter_max c = (if c = of_char CHR ''0'' then 100 else if c = of_char CHR ''1'' then 10000
     else if c = of_char CHR ''2'' then 100000 else 0)"

definition counter_main :: "(string \<Rightarrow> u32) \<Rightarrow> u32 \<Rightarrow> 'a kernel_scheme \<Rightarrow> (u32 \<times> 'a kernel_scheme) option" where
  "counter_main lits buf s = do {
     s \<leftarrow> say_to lits (line ''Enter the Test Number: (0): 100, (1): 10000, (2): 100000'') s;
     (cnt, s) \<leftarrow> ece391_read 0 buf (BUFSIZE - 1) s;
     if cnt = minus_one then quit lits (line ''Can't read the number from keyboard.'') 3 s
     else do {
       let s = s\<lparr>mem := (mem s)(buf + cnt := 0)\<rparr>;
       n \<leftarrow> ece391_strlen (mem s) buf;
       if n > 2 \<or> n = 2 \<and> (mem s buf < of_char CHR ''0'' \<or> mem s buf > of_char CHR ''2'')
       then quit lits (line ''Wrong Choice!'') 0 s
       else do {
         s \<leftarrow> counter_loop lits buf (counter_max (mem s buf)) 0 s;
         Some (0, s) } } }"

subsection \<open>shell\<close>

text \<open>A turn of the loop up to the \<open>execute\<close>, and what it reports when that comes back.\<close>

datatype shell_action = Leave u32 | Again | Run u32

definition shell_turn ::
  "(string \<Rightarrow> u32) \<Rightarrow> u32 \<Rightarrow> 'a kernel_scheme \<Rightarrow> (shell_action \<times> 'a kernel_scheme) option" where
  "shell_turn lits buf s = do {
     s \<leftarrow> say_to lits ''391OS> '' s;
     (cnt, s) \<leftarrow> ece391_read 0 buf (BUFSIZE - 1) s;
     if cnt = minus_one then do {
       s \<leftarrow> say_to lits (line ''read from keyboard failed'') s;
       Some (Leave 3, s) }
     else do {
       let cnt = (if 0 <s cnt \<and> mem s (buf + cnt - 1) = 0x0A then cnt - 1 else cnt);
       let s = s\<lparr>mem := (mem s)(buf + cnt := 0)\<rparr>;
       v \<leftarrow> ece391_strcmp (mem s) buf (lits ''exit'');
       if v = 0 then Some (Leave 0, s)
       else if mem s buf = 0 then Some (Again, s)
       else Some (Run buf, s) } }"

definition shell_report :: "(string \<Rightarrow> u32) \<Rightarrow> u32 \<Rightarrow> 'a kernel_scheme \<Rightarrow> 'a kernel_scheme option" where
  "shell_report lits rval s =
     (if rval = minus_one then say_to lits (line ''no such command'') s
      else if rval = 256 then say_to lits (line ''program terminated by exception'') s
      else if rval \<noteq> 0 then say_to lits (line ''program terminated abnormally'') s
      else Some s)"

text \<open>The loop, over what \<open>execute\<close> comes back with (the program it starts runs meanwhile).\<close>

partial_function (option) shell_loop ::
  "(u32 \<Rightarrow> 'a kernel_scheme \<Rightarrow> (u32 \<times> 'a kernel_scheme) option) \<Rightarrow> (string \<Rightarrow> u32) \<Rightarrow> u32 \<Rightarrow>
   'a kernel_scheme \<Rightarrow> (u32 \<times> 'a kernel_scheme) option" where
  "shell_loop run_command lits buf s = do {
     (act, s) \<leftarrow> shell_turn lits buf s;
     case act of
       Leave status \<Rightarrow> Some (status, s)
     | Again \<Rightarrow> shell_loop run_command lits buf s
     | Run command \<Rightarrow> do {
         (rval, s) \<leftarrow> run_command command s;
         s \<leftarrow> shell_report lits rval s;
         shell_loop run_command lits buf s } }"

definition shell_main ::
  "(u32 \<Rightarrow> 'a kernel_scheme \<Rightarrow> (u32 \<times> 'a kernel_scheme) option) \<Rightarrow> (string \<Rightarrow> u32) \<Rightarrow> u32 \<Rightarrow>
   'a kernel_scheme \<Rightarrow> (u32 \<times> 'a kernel_scheme) option" where
  "shell_main run_command lits buf s = do {
     s \<leftarrow> say_to lits (line ''Starting 391 Shell'') s;
     shell_loop run_command lits buf s }"

subsection \<open>pingpong\<close>

definition fill_blank :: "u32 \<Rightarrow> nat \<Rightarrow> nat \<Rightarrow> (u32 \<Rightarrow> u8) \<Rightarrow> (u32 \<Rightarrow> u8)" where
  "fill_blank buf i n m = fold (\<lambda>i m. m(buf + of_nat i := of_char CHR 0x20)) [i..<n] m"

definition pingpong_walls :: "u32 \<Rightarrow> (u32 \<Rightarrow> u8) \<Rightarrow> (u32 \<Rightarrow> u8)" where
  "pingpong_walls buf m = (fill_blank buf 0 81 m)
     (buf + 80 := 0, buf + 79 := 0x0A, buf + 78 := of_char CHR ''|'', buf + 1 := of_char CHR ''|'')"

text \<open>The positions of a move, outwards or back.\<close>

fun pingpong_move :: "u32 \<Rightarrow> u32 \<Rightarrow> u32 \<Rightarrow> u8 \<Rightarrow> nat list \<Rightarrow> 'a kernel_scheme \<Rightarrow> 'a kernel_scheme option" where
  "pingpong_move buf garbage rtc_fd curchar [] s = Some s"
| "pingpong_move buf garbage rtc_fd curchar (j # js) s = do {
     s \<leftarrow> ece391_fdputs 1 buf (s\<lparr>mem := (fill_blank buf 2 78 (mem s))(buf + of_nat j := curchar)\<rparr>);
     (_, s) \<leftarrow> ece391_read rtc_fd garbage 4 s;
     pingpong_move buf garbage rtc_fd curchar js s }"

definition pingpong_char :: "u8 \<Rightarrow> u8" where
  "pingpong_char c = (if c = of_char CHR ''Z'' then of_char CHR ''A'' else c + 1)"

text \<open>The loop never ends; this is the state after \<open>n\<close> rounds.\<close>

fun pingpong_rounds :: "u32 \<Rightarrow> u32 \<Rightarrow> u32 \<Rightarrow> u8 \<Rightarrow> nat \<Rightarrow> 'a kernel_scheme \<Rightarrow> 'a kernel_scheme option" where
  "pingpong_rounds buf garbage rtc_fd curchar 0 s = Some s"
| "pingpong_rounds buf garbage rtc_fd curchar (Suc n) s = do {
     s \<leftarrow> pingpong_move buf garbage rtc_fd curchar [2..<78] s;
     s \<leftarrow> pingpong_move buf garbage rtc_fd curchar (rev [2..<78]) s;
     pingpong_rounds buf garbage rtc_fd (pingpong_char curchar) n s }"

definition pingpong_main ::
  "(string \<Rightarrow> u32) \<Rightarrow> u32 \<Rightarrow> u32 \<Rightarrow> u32 \<Rightarrow> nat \<Rightarrow> 'a kernel_scheme \<Rightarrow> 'a kernel_scheme option" where
  "pingpong_main lits buf ret_val garbage n s = do {
     let s = s\<lparr>mem := pingpong_walls buf (mem s)\<rparr>;
     (rtc_fd, s) \<leftarrow> ece391_open (lits ''rtc'') s;
     (_, s) \<leftarrow> ece391_write rtc_fd ret_val 4 (s\<lparr>mem := store32 (mem s) ret_val 32\<rparr>);
     pingpong_rounds buf garbage rtc_fd (of_char CHR ''A'') n s }"

section \<open>cat\<close>

fun chunks :: "nat \<Rightarrow> 'b list \<Rightarrow> 'b list list" where
  "chunks n xs = (if n = 0 \<or> xs = [] then [] else take n xs # chunks n (drop n xs))"

declare chunks.simps [simp del]

lemma concat_chunks: "n \<noteq> 0 \<Longrightarrow> concat (chunks n xs) = xs"
  by (induction n xs rule: chunks.induct) (subst chunks.simps, simp)

lemma chunks_NUL_free: "n \<noteq> 0 \<Longrightarrow> 0 \<notin> set xs \<Longrightarrow> concat (map upto_nul (chunks n xs)) = xs"
proof (induction n xs rule: chunks.induct)
  case (1 n xs)
  have "upto_nul (take n xs) = take n xs"
    using 1(3) by (auto simp: upto_nul_def takeWhile_eq_all_conv dest: in_set_takeD)
  moreover have "0 \<notin> set (drop n xs)" using 1(3) by (meson in_set_dropD)
  ultimately show ?case using 1 by (subst chunks.simps) simp
qed

text \<open>What \<open>cat\<close> shows of a file: its bytes, except that a NUL ends the show of the 1024 bytes
  read with it.\<close>

definition cat_text :: "u8 list \<Rightarrow> u8 list" where
  "cat_text xs = concat (map upto_nul (chunks 1024 xs))"


lemma cat_loop_shows:
  "file_on fd buf 1024 s \<Longrightarrow>
   \<exists>t. cat_loop lits fd buf s = Some (0, t) \<and> out_ok t \<and> shown t = fold tty_putc (cat_text (fd_rest fd s)) (shown s)"
proof (induction "length (fd_rest fd s)" arbitrary: s rule: less_induct)
  case less
  define data where "data = take 1024 (fd_rest fd s)"
  have "(1024 :: nat) \<le> 1024" by simp
  from read_file [OF less.prems this data_def]
  obtain t where rd: "ece391_read fd buf 1024 s = Some (of_nat (length data), t)"
    and t: "mem t = store_bytes (mem s) buf data" "shown t = shown s" "file_on fd buf 1024 t"
      "fd_rest fd t = drop 1024 (fd_rest fd s)" by auto
  have o: "out_ok t" and buf: "buf \<noteq> 0" "rng buf 1024 \<inter> screen_rng = {}" using t(3) by (simp_all add: file_on_def)
  have len: "length data \<le> 1024" by (simp add: data_def)
  show ?case
  proof (cases "fd_rest fd s = []")
    case True
    then have "cat_loop lits fd buf s = Some (0, t)" by (subst cat_loop.simps) (simp add: rd data_def)
    with True t(2) o show ?thesis by (simp add: cat_text_def chunks.simps)
  next
    case False
    let ?xs = "upto_nul data" and ?n = "of_nat (length data) :: u32"
    have n: "unat ?n = length data" using len by (simp add: unat_of_nat)
    have "0 < length data" using False by (simp add: data_def)
    then have nz: "?n \<noteq> 0" using n by (metis less_irrefl unat_0)
    have small: "(of_nat k :: u32) \<noteq> minus_one" if "k \<le> 1024" for k
    proof
      assume "(of_nat k :: u32) = minus_one"
      then have "unat (of_nat k :: u32) = 2 ^ 32 - 1" by (simp add: unat_minus_one_word)
      with that show False by (simp add: unat_of_nat)
    qed
    have away: "rng buf (unat ?n) \<inter> screen_rng = {}" using buf(2) rng_mono [OF len, of buf] by (auto simp: n)
    have got: "bytes_at (mem t) buf (unat ?n) = data" using len by (simp add: n t(1) bytes_at_store_same)
    have wr: "ece391_write 1 buf ?n t = Some (of_nat (length ?xs), put_text ?xs t)"
      using write_out [OF o buf(1) away] by (simp only: got Let_def)
    have "length ?xs \<le> 1024" using upto_nul_bound [of data] len by simp
    then have "cat_loop lits fd buf s = cat_loop lits fd buf (put_text ?xs t)"
      by (subst cat_loop.simps) (simp add: rd wr nz small len)
    moreover have "length (fd_rest fd (put_text ?xs t)) < length (fd_rest fd s)"
      using False by (simp add: file_on_put_text [OF t(3)] t(4))
    note less.hyps [OF this file_on_put_text(1) [OF t(3)]]
    moreover have "cat_text (fd_rest fd s) = ?xs @ cat_text (fd_rest fd t)"
      using False by (simp add: cat_text_def t(4) data_def chunks.simps [of 1024 "fd_rest fd s"])
    ultimately show ?thesis by (simp add: file_on_put_text [OF t(3)] put_text_out(2) [OF o] t(2))
  qed
qed



lemma cat_shows_file:
  assumes ok: "prog_ok s" and buf: "buf_ok buf 1024 s" "rng buf 128 \<inter> rng (pcb_addr p + PCB_ARG) 128 = {}"
    and arg: "has_args s p name" "name \<noteq> []" "length name < 32"
    and d: "entry_of (in_kernel s) name = Some d" "filetype d = 2"
      "unat (dentry_inode d) < img_inodes (mem s) (fs_ptr s)"
    and free: "free_slot (cur_files (in_kernel s)) 2 < 8"
  shows "\<exists>t. cat_main lits buf s = Some (0, t) \<and>
    shown t = fold tty_putc (cat_text (file_content (mem s) (fs_ptr s) (unat (dentry_inode d)))) (shown s)"
proof -
  let ?fs = "cur_files (in_kernel s)"
  define u where "u = after_call s buf (name @ [0]) ?fs"
  define idx where "idx = free_slot ?fs 2"
  have bnz: "buf \<noteq> 0" using buf(1) by (simp add: buf_ok_def)
  have l8: "length ?fs = 8" using ok by (simp add: prog_ok_def out_ok_def std_out_def)
  have idx: "2 \<le> idx" "idx < 8" using free free_slot_spec [of 2 ?fs] by (simp_all add: idx_def)
  have ga: "ece391_getargs buf 1024 s = Some (0, u)"
    unfolding u_def using getargs_call [OF arg(1,2) bnz, of 1024] buf(2) by simp
  have "length (name @ [0]) \<le> 1024" using arg(3) by simp
  note u = prog_ok_after_call [OF ok buf(1) this l8 refl, folded u_def]
  have nz: "0 \<notin> set name" using arg(1) cstr_nonzero by (auto simp: has_args_def)
  have c: "cstr (mem u) buf name" using nz arg(3) by (simp add: u_def) (intro cstr_store_same; simp)
  have f: "cur_files (in_kernel u) = ?fs" "fs_ptr u = fs_ptr s" by (simp_all add: u_def)
  have e: "entry_of (in_kernel u) name = Some d"
    using entry_of_same [of "in_kernel s" "in_kernel u"] u(4) f(2) d(1) by simp
  have op: "ece391_open buf u = Some (of_nat idx, after_call u buf [] (?fs[idx := opened_as FileOps (dentry_inode d)]))"
    (is "_ = Some (_, ?v)")
    using open_call [OF c bnz arg(2,3) e _ _ idx(2), of buf] d(2) f(1) idx_def by simp
  have "img_inodes (mem u) (fs_ptr u) = img_inodes (mem s) (fs_ptr s)"
    using img_same(1) [OF u(4)] f(2) by simp
  then have ino: "unat (dentry_inode d) < img_inodes (mem u) (fs_ptr u)" using d(3) by simp
  have bu: "buf_ok buf 1024 u" using u(2) buf(1) by simp
  note v = file_after_open [OF u(1) bu ino idx, of buf, unfolded f(1)]
  have "file_content (mem u) (fs_ptr s) (unat (dentry_inode d)) = file_content (mem s) (fs_ptr s) (unat (dentry_inode d))"
    using img_slice_same [OF u(4) _ d(3)] img_same(3) [OF u(4) d(3)] ok by (simp add: file_content_def prog_ok_def)
  then have rest: "fd_rest (of_nat idx) ?v = file_content (mem s) (fs_ptr s) (unat (dentry_inode d))" using v(2) f(2) by simp
  have "shown ?v = shown s" using after_call_out(1) [of buf "[]" u] u(3) by simp
  with cat_loop_shows [OF v(1), of lits] obtain t where t: "cat_loop lits (of_nat idx) buf ?v = Some (0, t)"
    "shown t = fold tty_putc (cat_text (file_content (mem s) (fs_ptr s) (unat (dentry_inode d)))) (shown s)"
    unfolding rest by auto
  have "(of_nat idx :: u32) \<noteq> minus_one"
  proof
    assume "(of_nat idx :: u32) = minus_one"
    then have "unat (of_nat idx :: u32) = 2 ^ 32 - 1" by (simp add: unat_minus_one_word)
    with idx(2) show False by (simp add: unat_of_nat)
  qed
  then have "cat_main lits buf s = Some (0, t)" by (simp add: cat_main_def ga op t(1))
  with t(2) show ?thesis by blast
qed


text \<open>What \<open>cat\<close> leaves when its argument names no file.\<close>

lemma cat_no_file:
  assumes ok: "prog_ok s" and buf: "buf_ok buf 1024 s" "rng buf 128 \<inter> rng (pcb_addr p + PCB_ARG) 128 = {}"
    and arg: "has_args s p name" "name \<noteq> []" "length name < 32" and d: "entry_of (in_kernel s) name = None"
    and lits: "literals {line ''file not found''} lits (rng buf 1024) s"
  shows "\<exists>t. cat_main lits buf s = Some (2, t) \<and> shown t = fold tty_putc (lit (line ''file not found'')) (shown s)"
proof -
  let ?fs = "cur_files (in_kernel s)"
  define u where "u = after_call s buf (name @ [0]) ?fs"
  define v where "v = after_call u buf [] ?fs"
  have bnz: "buf \<noteq> 0" using buf(1) by (simp add: buf_ok_def)
  have l8: "length ?fs = 8" using ok by (simp add: prog_ok_def out_ok_def std_out_def)
  have ga: "ece391_getargs buf 1024 s = Some (0, u)"
    unfolding u_def using getargs_call [OF arg(1,2) bnz, of 1024] buf(2) by simp
  have le: "length (name @ [0]) \<le> 1024" using arg(3) by simp
  note u = prog_ok_after_call [OF ok buf(1) le l8 refl, folded u_def]
  have nz: "0 \<notin> set name" using arg(1) cstr_nonzero by (auto simp: has_args_def)
  have c: "cstr (mem u) buf name" using nz arg(3) by (simp add: u_def) (intro cstr_store_same; simp)
  have f: "cur_files (in_kernel u) = ?fs" "fs_ptr u = fs_ptr s" by (simp_all add: u_def)
  have e: "entry_of (in_kernel u) name = None"
    using entry_of_same [of "in_kernel s" "in_kernel u"] u(4) f(2) d by simp
  have op: "ece391_open buf u = Some (minus_one, v)"
    using open_missing [OF c bnz arg(2,3) e, of buf] f(1) by (simp add: v_def)
  have "buf_ok buf 1024 u" using u(2) buf(1) by simp
  note v = prog_ok_after_call [OF u(1) this, of "[]" ?fs, folded v_def, simplified f(1) l8, simplified]
  have "literals {line ''file not found''} lits (rng buf 1024) u"
    unfolding u_def using lits rng_mono [OF le] by (rule literals_after_call)
  then have "literals {line ''file not found''} lits (rng buf 1024) v"
    unfolding v_def by (rule literals_after_call) simp
  from say_literal [OF v(1) this]
  have "cat_main lits buf s = Some (2, put_text (lit (line ''file not found'')) v)"
    by (simp add: cat_main_def ga op quit_def say_to_def)
  with prog_ok_put_text(3) [OF v(1)] v(3) u(3) show ?thesis by simp
qed

section \<open>ls\<close>

text \<open>A directory descriptor at entry \<open>i\<close>.\<close>

definition dir_on :: "u32 \<Rightarrow> nat \<Rightarrow> 'a kernel_scheme \<Rightarrow> bool" where
  "dir_on fd i s \<longleftrightarrow> 2 \<le> unat fd \<and> unat fd < 8 \<and> flags (cur_files (in_kernel s) ! unat fd) \<noteq> FILE_AVAIL \<and>
     file_ops_table_ptr (cur_files (in_kernel s) ! unat fd) = DirectoryOps \<and>
     unat (file_position (cur_files (in_kernel s) ! unat fd)) = i"

lemma read_dir:
  assumes ok: "prog_ok s" and on: "dir_on fd i s" and buf: "buf_ok buf 33 s" and i: "i < 63"
  defines "name \<equiv> dir_name (in_kernel s) i"
  shows "\<exists>t. ece391_read fd buf n s = Some (of_nat (length name), t) \<and> prog_ok t \<and> dir_on fd (Suc i) t \<and>
    mem t = store_bytes (mem s) buf (name @ [0]) \<and> shown t = shown s \<and> fs_ptr t = fs_ptr s"
proof -
  let ?f = "cur_files (in_kernel s) ! unat fd"
  let ?fs = "(cur_files (in_kernel s))[unat fd := ?f\<lparr>file_position := file_position ?f + 1\<rparr>]"
  let ?t = "after_call s buf (name @ [0]) ?fs"
  have fd: "2 \<le> unat fd" "unat fd < 8" using on by (simp_all add: dir_on_def)
  have l8: "length (cur_files (in_kernel s)) = 8" using ok by (simp add: prog_ok_def out_ok_def std_out_def)
  have "sys_read fd buf n (in_kernel s) = directory_read fd buf n (in_kernel s)"
    using on fd by (simp add: sys_read_def fd_valid_small dir_on_def)
  also have "\<dots> = Some (of_nat (length name), (set_files ?fs (in_kernel s))\<lparr>mem := store_bytes (mem s) buf (name @ [0])\<rparr>)"
    using on i by (simp add: directory_read_eq fd dir_on_def name_def Let_def)
  also have "(set_files ?fs (in_kernel s))\<lparr>mem := store_bytes (mem s) buf (name @ [0])\<rparr> =
      set_files ?fs ((in_kernel s)\<lparr>mem := store_bytes (mem s) buf (name @ [0])\<rparr>)"
    by (simp add: set_files_def cur_pcb_def getCurrentProcessPCB_def)
  finally have "ece391_read fd buf n s = Some (of_nat (length name), ?t)"
    by (simp add: ece391_calls resumed_def after_call_def)
  moreover have "length (name @ [0]) \<le> 33" using dir_name_length [of "in_kernel s" i] by (simp add: name_def)
  note prog_ok_after_call [OF ok buf this, of ?fs]
  moreover have "unat (file_position ?f + 1) = Suc i"
    using on i by (simp add: dir_on_def unat_add1)
  then have "dir_on fd (Suc i) ?t" using on fd l8 by (simp add: dir_on_def)
  ultimately show ?thesis using fd l8 by (intro exI [of _ ?t]) simp
qed

lemma read_dir_end:
  assumes "dir_on fd i s" "63 \<le> i"
  shows "ece391_read fd buf n s = Some (minus_one, after_call s a [] (cur_files (in_kernel s)))"
proof -
  have fd: "2 \<le> unat fd" "unat fd < 8" using assms(1) by (simp_all add: dir_on_def)
  then have "sys_read fd buf n (in_kernel s) = Some (minus_one, in_kernel s)"
    using assms by (simp add: sys_read_def fd_valid_small dir_on_def directory_read_eq Let_def)
  then show ?thesis by (simp add: ece391_calls resumed_def after_call_def)
qed


lemma dir_on_same: "cur_files (in_kernel t) = cur_files (in_kernel s) \<Longrightarrow> dir_on fd i t = dir_on fd i s"
  by (simp add: dir_on_def)

text \<open>What \<open>ls\<close> shows, and its exit status: the names up to the first empty entry; when no entry
  is empty the read behind the last one fails.\<close>

definition ls_text :: "u8 list list \<Rightarrow> u8 list" where
  "ls_text names = concat (map (\<lambda>n. n @ [0x0A]) (takeWhile (\<lambda>n. n \<noteq> []) names)) @
     (if [] \<in> set names then [] else lit (line ''directory entry read failed''))"

definition ls_status :: "u8 list list \<Rightarrow> u32" where
  "ls_status names = (if [] \<in> set names then 0 else 3)"

text \<open>One turn: the entry is shown as a line.\<close>

lemma ls_turn:
  assumes ok: "prog_ok s" and on: "dir_on fd i s" and buf: "buf_ok buf 33 s" and i: "i < 63"
    and name: "name = dir_name (in_kernel s) i" "name \<noteq> []"
  obtains v where "ls_loop lits fd buf s = ls_loop lits fd buf v" "prog_ok v" "dir_on fd (Suc i) v"
    "shown v = fold tty_putc (name @ [0x0A]) (shown s)" "fs_ptr v = fs_ptr s"
    "\<And>b. b \<notin> rng buf 33 \<Longrightarrow> b \<notin> screen_rng \<Longrightarrow> mem v b = mem s b"
proof -
  let ?row = "name @ [0x0A]" and ?cnt = "of_nat (length name) :: u32"
  have len: "length name \<le> 32" using dir_name_length [of "in_kernel s" i] by (simp add: name)
  obtain t where rd: "ece391_read fd buf (SBUFSIZE - 1) s = Some (?cnt, t)"
    and t: "prog_ok t" "dir_on fd (Suc i) t" "mem t = store_bytes (mem s) buf (name @ [0])" "shown t = shown s" "fs_ptr t = fs_ptr s"
    using read_dir [OF ok on buf i] unfolding name(1) by metis
  have bufr: "rng buf 33 \<inter> (screen_rng \<union> img_rng (mem s) (fs_ptr s)) = {}" "buf \<noteq> 0"
    using buf by (simp_all add: buf_ok_def)
  have sub: "rng buf (length name + 1) \<subseteq> rng buf 33" using len by (intro rng_mono) simp
  have agree: "img_agree (mem s) (fs_ptr s) (mem t)"
    unfolding t(3) img_agree_def using bufr(1) sub by (auto intro!: store_bytes_other)
  then have "img_rng (mem t) (fs_ptr t) = img_rng (mem s) (fs_ptr s)"
    using img_same [OF agree] t(5) by (simp add: img_rng_def img_size_def)
  then have apart: "rng buf 33 \<inter> (screen_rng \<union> img_rng (mem t) (fs_ptr t)) = {}" using bufr(1) by simp
  define u where "u = t\<lparr>mem := store_bytes (mem s) buf ?row\<rparr>"
  have m: "(mem t)(buf + ?cnt := 0x0A) = store_bytes (mem s) buf ?row"
    unfolding t(3) store_bytes_snoc [symmetric] by simp
  have out: "store_bytes (mem s) buf (name @ [c]) b = mem s b" if "b \<notin> rng buf 33" for b c
    using that sub by (intro store_bytes_other) auto
  note u = prog_ok_store [where m = "store_bytes (mem s) buf ?row", OF t(1) _ apart, folded u_def]
  have pu: "prog_ok u" "shown u = shown t" by (rule u; simp add: out t(3))+
  have ou: "out_ok u" using pu(1) by (simp add: prog_ok_def)
  have memu: "mem u = store_bytes (mem s) buf ?row" by (simp add: u_def)
  have cnt1: "unat (?cnt + 1) = length ?row" using len by (simp add: unat_of_nat unat_add1)
  have "rng buf (unat (?cnt + 1)) \<inter> screen_rng = {}" unfolding cnt1 using sub bufr(1) by auto
  note wr = write_out [OF ou bufr(2) this, unfolded cnt1]
  have "bytes_at (mem u) buf (length ?row) = ?row"
    unfolding memu by (rule bytes_at_store_same) (use len in simp_all)
  moreover have "upto_nul ?row = ?row"
    using dir_name_nonzero [of "in_kernel s" i] by (auto simp: name upto_nul_def takeWhile_eq_all_conv)
  ultimately have "ece391_write 1 buf (?cnt + 1) u = Some (of_nat (length ?row), put_text ?row u)"
    using wr by (simp add: Let_def)
  moreover have "?cnt \<noteq> 0" "?cnt \<noteq> minus_one" "(of_nat (length ?row) :: u32) \<noteq> minus_one"
    using len name(2) small_word [of "length name"] small_word(1) [of "length ?row"] by simp_all
  ultimately have step: "ls_loop lits fd buf s = ls_loop lits fd buf (put_text ?row u)"
    by (subst ls_loop.simps) (simp add: rd m u_def Let_def)
  show thesis
  proof (rule that [OF step])
    show "prog_ok (put_text ?row u)" "shown (put_text ?row u) = fold tty_putc ?row (shown s)"
      using prog_ok_put_text(1,3) [OF pu(1)] pu(2) t(4) by simp_all
    show "dir_on fd (Suc i) (put_text ?row u)" using t(2) dir_on_same [of "put_text ?row u" t] by (simp add: u_def)
    show "fs_ptr (put_text ?row u) = fs_ptr s" using t(5) by (simp add: u_def)
    show "mem (put_text ?row u) b = mem s b" if "b \<notin> rng buf 33" "b \<notin> screen_rng" for b
      using put_text_out(3) [OF ou that(2)] that(1) by (simp add: memu out)
  qed
qed

lemma ls_loop_lists:
  "prog_ok s \<Longrightarrow> dir_on fd i s \<Longrightarrow> i \<le> 63 \<Longrightarrow> buf_ok buf 33 s \<Longrightarrow>
   literals {line ''directory entry read failed''} lits (rng buf 33) s \<Longrightarrow>
   names = map (dir_name (in_kernel s)) [i..<63] \<Longrightarrow>
   \<exists>t. ls_loop lits fd buf s = Some (ls_status names, t) \<and> shown t = fold tty_putc (ls_text names) (shown s)"
proof (induction "63 - i" arbitrary: i s names)
  case 0
  let ?v = "after_call s buf [] (cur_files (in_kernel s))"
  have l8: "length (cur_files (in_kernel s)) = 8" using "0.prems"(1) by (simp add: prog_ok_def out_ok_def std_out_def)
  have i: "63 \<le> i" using "0.hyps" by simp
  note v = prog_ok_after_call [OF "0.prems"(1,4) _ l8 refl, of "[]"]
  have l: "literals {line ''directory entry read failed''} lits (rng buf 33) ?v"
    using "0.prems"(5) by (rule literals_after_call) simp
  have pv: "prog_ok ?v" "shown ?v = shown s" using v(1,3) by simp_all
  have "names = []" using "0.prems"(3,6) i by simp
  moreover have "ls_loop lits fd buf s = Some (3, put_text (lit (line ''directory entry read failed'')) ?v)"
    using read_dir_end [OF "0.prems"(2) i, of buf "SBUFSIZE - 1" buf] say_literal [OF pv(1) l]
    by (subst ls_loop.simps) (simp add: quit_def say_to_def)
  ultimately show ?case using prog_ok_put_text(3) [OF pv(1)] pv(2) by (simp add: ls_text_def ls_status_def)
next
  case (Suc k)
  let ?name = "dir_name (in_kernel s) i"
  have i: "i < 63" using Suc.hyps(2) by simp
  have names: "names = ?name # map (dir_name (in_kernel s)) [Suc i..<63]"
    using Suc.prems(6) i by (simp add: upt_conv_Cons)
  show ?case
  proof (cases "?name = []")
    case True
    obtain t where "ece391_read fd buf (SBUFSIZE - 1) s = Some (of_nat (length ?name), t)" "shown t = shown s"
      using read_dir [OF Suc.prems(1,2,4) i] by metis
    with True show ?thesis by (subst ls_loop.simps) (simp add: names ls_text_def ls_status_def)
  next
    case False
    obtain v where step: "ls_loop lits fd buf s = ls_loop lits fd buf v" and v: "prog_ok v" "dir_on fd (Suc i) v"
      "shown v = fold tty_putc (?name @ [0x0A]) (shown s)" "fs_ptr v = fs_ptr s"
      "\<And>b. b \<notin> rng buf 33 \<Longrightarrow> b \<notin> screen_rng \<Longrightarrow> mem v b = mem s b"
      using ls_turn [where lits = lits, OF Suc.prems(1,2,4) i refl False] by blast
    have agv: "img_agree (mem s) (fs_ptr s) (mem v)"
      unfolding img_agree_def using v(5) Suc.prems(1,4) by (simp add: prog_ok_def buf_ok_def) blast
    have "map (dir_name (in_kernel v)) [Suc i..<63] = map (dir_name (in_kernel s)) [Suc i..<63]"
      using dentry_of_same(2) [of "in_kernel s" "in_kernel v"] agv v(4) by simp
    note ns = this [symmetric]
    have bv: "buf_ok buf 33 v"
      using Suc.prems(4) img_same [OF agv] v(4) by (simp add: buf_ok_def img_rng_def img_size_def)
    have lv: "literals {line ''directory entry read failed''} lits (rng buf 33) v"
      using Suc.prems(5) v(5) by (rule literals_same)
    have "k = 63 - Suc i" "Suc i \<le> 63" using Suc.hyps(2) by simp_all
    from Suc.hyps(1) [OF this(1) v(1,2) this(2) bv lv ns]
    obtain w where w: "ls_loop lits fd buf v = Some (ls_status (tl names), w)"
      "shown w = fold tty_putc (ls_text (tl names)) (shown v)" by (auto simp: names)
    have "ls_status names = ls_status (tl names)" "ls_text names = (?name @ [0x0A]) @ ls_text (tl names)"
      using False by (simp_all add: names ls_status_def ls_text_def)
    with w step v(3) show ?thesis by simp
  qed
qed

text \<open>\<open>ls\<close> from its start.\<close>

lemma ls_lists:
  assumes ok: "prog_ok s" and buf: "buf_ok buf 33 s"
    and dot: "entry_of (in_kernel s) (lit ''.'') = Some d" "filetype d = 1"
    and free: "free_slot (cur_files (in_kernel s)) 2 < 8"
    and lits: "literals {''.'', line ''directory entry read failed''} lits (rng buf 33) s"
    and names: "names = map (dir_name (in_kernel s)) [0..<63]"
  shows "\<exists>t. ls_main lits buf s = Some (ls_status names, t) \<and> shown t = fold tty_putc (ls_text names) (shown s)"
proof -
  let ?fs = "cur_files (in_kernel s)"
  define idx where "idx = free_slot ?fs 2"
  have idx: "2 \<le> idx" "idx < 8" using free free_slot_spec [of 2 ?fs] by (simp_all add: idx_def)
  have l8: "length ?fs = 8" using ok by (simp add: prog_ok_def out_ok_def std_out_def)
  have l: "cstr (mem s) (lits ''.'') (lit ''.'')" "lits ''.'' \<noteq> 0"
    using lits by (simp_all add: literals_def text_at_def del: cstr.simps)
  let ?gs = "?fs[idx := opened_as DirectoryOps (dentry_inode d)]" and ?i = "of_nat idx :: u32"
  have op: "ece391_open (lits ''.'') s = Some (?i, after_call s buf [] ?gs)" (is "_ = Some (_, ?v)")
    using open_call [OF l _ _ dot(1) _ _ idx(2), of buf] dot(2) idx_def by simp
  note v = prog_ok_after_call [OF ok buf, of "[]" ?gs]
  have g8: "length ?gs = 8" "?gs ! 1 = ?fs ! 1" using l8 idx by simp_all
  have pv: "prog_ok ?v" "buf_ok buf 33 ?v" "shown ?v = shown s" using v(1-3) g8 buf by simp_all
  have "literals {''.'', line ''directory entry read failed''} lits (rng buf 33) ?v"
    using lits by (rule literals_after_call) simp
  then have lv: "literals {line ''directory entry read failed''} lits (rng buf 33) ?v" by (simp add: literals_def)
  have i: "unat ?i = idx" using idx(2) by (simp add: unat_of_nat)
  have dv: "dir_on ?i 0 ?v" using idx l8 by (simp add: dir_on_def i opened_as_def FILE_OCCUP_def FILE_AVAIL_def)
  have nv: "names = map (dir_name (in_kernel ?v)) [0..<63]"
    unfolding names by (simp add: dir_name_def dentry_addr_def)
  obtain t where "ls_loop lits ?i buf ?v = Some (ls_status names, t)" "shown t = fold tty_putc (ls_text names) (shown s)"
    using ls_loop_lists [OF pv(1) dv _ pv(2) lv nv] pv(3) by auto
  moreover have "?i \<noteq> minus_one" using small_word(1) [of idx] idx(2) by simp
  ultimately show ?thesis by (simp add: ls_main_def op)
qed

end
