(* ===== verification/Interactive.thy ===== *)
theory Interactive
  imports Programs
begin

text \<open>
  The programs that ask for a line (src/syscalls/ece391hello.c, ece391shell.c and ece391counter.c): what a run
  shows and does with the line, for every line of keys typed.
\<close>

section \<open>A question and its answer\<close>

lemma put_text_keyboard [simp]:
  "pushed_key (put_text cs s) = pushed_key s" "kbd_of (put_text cs s) = kbd_of s" "inq (put_text cs s) = inq s"
proof -
  have "console.more (fold putc cs (in_kernel s)) = console.more (in_kernel s)" by simp
  then have "pushed_key (fold putc cs (in_kernel s)) = pushed_key (in_kernel s)"
    "kbd_of (fold putc cs (in_kernel s)) = kbd_of (in_kernel s)"
    by (cases "fold putc cs (in_kernel s)"; cases "in_kernel s"; simp add: kbd_of_def)+
  then show "pushed_key (put_text cs s) = pushed_key s" "kbd_of (put_text cs s) = kbd_of s"
    by (simp_all add: put_text_def in_program_def kbd_of_def in_kernel_def)
  show "inq (put_text cs s) = inq s" by (simp add: put_text_def in_program_def)
qed

text \<open>A prompt, and the line typed in answer.\<close>

definition answer :: "'a kernel_scheme \<Rightarrow> string \<Rightarrow> (u8 list \<times> tty \<times> u8 list) option" where
  "answer s q = edit_line 128 (chars (kbd_of s) (inq s KEYBOARD_DATA_PORT)) [] (fold tty_putc (lit q) (shown s))"

lemma ask_line:
  assumes ok: "prog_ok s" and in0: "std_in s" and room: "line_room buf 128 s"
    and lits: "literals msgs lits (rng buf 1024) s" "q \<in> msgs" and line: "answer s q = Some (ys, view, rest)"
  obtains v where "ece391_fdputs 1 (lits q) s = Some (put_text (lit q) s)"
    "ece391_read 0 buf (BUFSIZE - 1) (put_text (lit q) s) = Some (of_nat (length ys), v)"
    "prog_ok v" "std_in v" "shown v = view" "literals msgs lits (rng buf 1024) v" "text_at (mem v) buf ys"
    "(mem v)(buf + of_nat (length ys) := 0) = mem v" "length ys \<le> 128" "list_all printable ys" "cstr (mem v) buf ys"
    "\<And>c n. buf_ok c n v = buf_ok c n s" "keyboard.more (in_kernel v) = keyboard.more (in_kernel s)"
    "\<And>b. b \<notin> screen_rng \<Longrightarrow> b \<notin> rng buf 1024 \<Longrightarrow> mem v b = mem s b" "conv_buf_at v = conv_buf_at s"
proof -
  define u where "u = put_text (lit q) s"
  have q: "ece391_fdputs 1 (lits q) s = Some u" unfolding u_def by (rule say_literal [OF ok lits])
  have pu: "prog_ok u" "std_in u" "line_room buf 128 u"
    using prog_ok_put_text(1,2) [OF ok] in0 room by (simp_all add: u_def std_in_def line_room_def)
  have lu: "literals msgs lits (rng buf 1024) u" unfolding u_def using ok lits(1) by (rule literals_put_text)
  have m: "min (unat (BUFSIZE - 1)) 128 = 128" by (simp add: BUFSIZE_def)
  have ty: "typed u 128 = Some (ys, view, rest)"
    using line prog_ok_put_text(3) [OF ok, of "lit q"] by (simp add: typed_def answer_def u_def)
  obtain v where v: "ece391_read 0 buf (BUFSIZE - 1) u = Some (of_nat (length ys), v)" "prog_ok v" "shown v = view"
    "cstr (mem v) buf ys" "\<And>b. b \<notin> screen_rng \<Longrightarrow> b \<notin> rng buf (Suc 128) \<Longrightarrow> mem v b = mem u b"
    "cur_files (in_kernel v) = cur_files (in_kernel u)" "pushed_key v = 0"
    "\<And>c n. buf_ok c n v = buf_ok c n u" "keyboard.more (in_kernel v) = keyboard.more (in_kernel u)"
    "conv_buf_at v = conv_buf_at u"
    using read_line [of u buf "BUFSIZE - 1" ys view rest] pu ty unfolding m by blast
  have len: "length ys \<le> 128" "list_all printable ys" using edit_line_printable ty unfolding typed_def by blast+
  have lv: "literals msgs lits (rng buf 1024) v"
    using v(5) rng_mono [of "Suc 128" 1024 buf] by (intro literals_same [OF lu]) auto
  have tv: "text_at (mem v) buf ys"
    using v(4) len pu(3) rng_mono [of "Suc (length ys)" "Suc 128" buf] by (auto simp: text_at_def line_room_def buf_ok_def)
  have "std_in v" using pu(2) v(6,7) by (simp add: std_in_def)
  moreover have "(mem v)(buf + of_nat (length ys) := 0) = mem v" using cstr_end [OF v(4)] by (auto simp: fun_eq_iff)
  moreover have "buf_ok c n v = buf_ok c n s" for c n
    using v(8) prog_ok_put_text(2) [OF ok] by (simp add: u_def)
  moreover have "keyboard.more (in_kernel u) = keyboard.more (in_kernel s)"
    unfolding u_def put_text_in_kernel by (rule console_more_kernel(1)) simp
  then have "keyboard.more (in_kernel v) = keyboard.more (in_kernel s)" using v(9) by simp
  moreover have "mem v b = mem s b" if "b \<notin> screen_rng" "b \<notin> rng buf 1024" for b
    using v(5) that rng_mono [of "Suc 128" 1024 buf] ok by (simp add: u_def put_text_out prog_ok_def) blast
  moreover have "conv_buf_at v = conv_buf_at s"
    using v(10) by (simp add: u_def put_text_def in_program_def in_kernel_def)
  ultimately show thesis using that q v(1-4) lv tv len unfolding u_def by blast
qed

section \<open>hello\<close>

lemma hello_greets_line:
  assumes "prog_ok s" "std_in s" "line_room buf 128 s"
    and "literals {''Hi, what's your name? '', ''Hello, ''} lits (rng buf 1024) s"
    and "answer s ''Hi, what's your name? '' = Some (ys, view, rest)"
  shows "\<exists>t. hello_main lits buf s = Some (0, t) \<and> shown t = fold tty_putc (lit ''Hello, '' @ ys) view"
proof -
  let ?q = "''Hi, what's your name? ''" and ?h = "''Hello, ''"
  obtain v where q: "ece391_fdputs 1 (lits ?q) s = Some (put_text (lit ?q) s)"
    "ece391_read 0 buf (BUFSIZE - 1) (put_text (lit ?q) s) = Some (of_nat (length ys), v)"
    and v: "prog_ok v" "shown v = view" "literals {?q, ?h} lits (rng buf 1024) v" "text_at (mem v) buf ys"
    "(mem v)(buf + of_nat (length ys) := 0) = mem v" "length ys \<le> 128"
    by (rule ask_line [OF assms(1-4) insertI1 assms(5)])
  have h: "ece391_fdputs 1 (lits ?h) v = Some (put_text (lit ?h) v)" by (rule say_literal [OF v(1,3)]) simp
  have pv: "prog_ok (put_text (lit ?h) v)" using prog_ok_put_text(1) [OF v(1)] .
  moreover have "text_at (mem (put_text (lit ?h) v)) buf ys" using v(1,4) by (simp add: text_at_put_text prog_ok_def)
  ultimately have n: "ece391_fdputs 1 buf (put_text (lit ?h) v) = Some (put_text ys (put_text (lit ?h) v))"
    by (intro fdputs_out) (simp_all add: prog_ok_def)
  have w: "v\<lparr>mem := (mem v)(buf + of_nat (length ys) := 0)\<rparr> = v" unfolding v(5) by simp
  have "(of_nat (length ys) :: u32) \<noteq> minus_one" using v(6) by (intro small_word(1)) simp
  then have "hello_main lits buf s = Some (0, put_text ys (put_text (lit ?h) v))"
    by (simp only: hello_main_def say_to_def q h n w bind.bind_lunit prod.case Let_def if_False simp_thms)
  then show ?thesis using prog_ok_put_text(3) [OF pv] prog_ok_put_text(3) [OF v(1)] v(2) by simp
qed

section \<open>shell\<close>

text \<open>A turn up to the \<open>execute\<close>: the line typed is left in the buffer; \<^verbatim>\<open>exit\<close> leaves the shell, an empty
  line starts the next turn, and every other line is run.\<close>

lemma shell_turn_reads:
  assumes "prog_ok s" "std_in s" "line_room buf 128 s"
    and "literals {''391OS> '', ''exit''} lits (rng buf 1024) s"
    and "answer s ''391OS> '' = Some (ys, view, rest)"
  shows "\<exists>t. shell_turn lits buf s =
      Some (if ys = lit ''exit'' then Leave 0 else if ys = [] then Again else Run buf, t) \<and>
    shown t = view \<and> cstr (mem t) buf ys \<and> length ys \<le> 128 \<and>
    keyboard.more (in_kernel t) = keyboard.more (in_kernel s) \<and>
    (\<forall>b. b \<notin> screen_rng \<longrightarrow> b \<notin> rng buf 1024 \<longrightarrow> mem t b = mem s b)"
proof -
  let ?q = "''391OS> ''"
  obtain v where q: "ece391_fdputs 1 (lits ?q) s = Some (put_text (lit ?q) s)"
    "ece391_read 0 buf (BUFSIZE - 1) (put_text (lit ?q) s) = Some (of_nat (length ys), v)"
    and v: "prog_ok v" "shown v = view" "literals {?q, ''exit''} lits (rng buf 1024) v" "text_at (mem v) buf ys"
    "(mem v)(buf + of_nat (length ys) := 0) = mem v" "length ys \<le> 128" "list_all printable ys" "cstr (mem v) buf ys"
    "keyboard.more (in_kernel v) = keyboard.more (in_kernel s)"
    "\<And>b. b \<notin> screen_rng \<Longrightarrow> b \<notin> rng buf 1024 \<Longrightarrow> mem v b = mem s b"
    by (rule ask_line [OF assms(1-4) insertI1 assms(5)]) blast
  let ?n = "of_nat (length ys) :: u32"
  have nl: "\<not> (0 <s ?n \<and> mem v (buf + ?n - 1) = 0x0A)"
  proof (cases ys rule: rev_cases)
    case (snoc zs z)
    then have "bytes_at (mem v) buf (length zs + 1) = zs @ [z]" using cstr_bytes [OF v(8)] by (simp del: bytes_at.simps)
    then have "mem v (buf + of_nat (length zs)) = z" unfolding bytes_at_add by simp
    moreover have "z \<noteq> 0x0A" using v(7) snoc by (auto simp: printable_def ASCII_MIN_def)
    ultimately show ?thesis using snoc by simp
  qed simp
  have w: "v\<lparr>mem := (mem v)(buf + ?n := 0)\<rparr> = v" unfolding v(5) by simp
  have ex: "cstr (mem v) (lits ''exit'') (lit ''exit'')" using v(3) by (simp add: literals_def text_at_def)
  obtain c where c: "ece391_strcmp (mem v) buf (lits ''exit'') = Some c" "c = 0 \<longleftrightarrow> ys = lit ''exit''"
    using ece391_strcmp_cstr [OF v(8) ex] by blast
  have e: "mem v buf = 0 \<longleftrightarrow> ys = []" using v(8) by (cases ys) auto
  have "?n \<noteq> minus_one" using v(6) by (intro small_word(1)) simp
  then have "shell_turn lits buf s =
      Some (if ys = lit ''exit'' then Leave 0 else if ys = [] then Again else Run buf, v)"
    using c(1) by (simp only: shell_turn_def say_to_def q nl w bind.bind_lunit prod.case Let_def if_False simp_thms c(2) e
      split: if_split) blast
  with v(2,6,8,9,10) show ?thesis by blast
qed

lemma cstr_stored:
  assumes "cstr m a xs" "b \<in> rng a (Suc (length xs))" "length xs < 2 ^ 31"
  shows "store_bytes m0 a (xs @ [0]) b = m b"
proof -
  obtain j where j: "b = a + of_nat j" "j < Suc (length xs)" using assms(2) by (auto simp: rng_def)
  have "bytes_at m a (Suc (length xs)) = xs @ [0]"
    using cstr_bytes [OF assms(1)] cstr_end [OF assms(1)] bytes_at_add [of m a "length xs" 1] by (simp del: bytes_at.simps(2)) simp
  then have "m b = (xs @ [0]) ! j" using j bytes_at_nth [of j "Suc (length xs)" m a] by simp
  then show ?thesis using j assms(3) by (simp add: store_bytes_nth)
qed

text \<open>A line that names a program: the \<open>execute\<close> behind the turn starts it above the shell.\<close>

lemma shell_line_runs:
  fixes s :: "'a kernel_scheme"
  assumes "prog_ok s" "std_in s" "line_room buf 128 s"
    and "literals {''391OS> '', ''exit''} lits (rng buf 1024) s" "buf_ok buf 1024 s"
    and "answer s ''391OS> '' = Some (ys, view, rest)" "ys \<noteq> lit ''exit''"
    and runs: "runs (in_kernel s) ps"
    and ready: "exec_ready (in_kernel (s\<lparr>mem := store_bytes (mem s) buf (ys @ [0])\<rparr>)) buf ys i args n"
    and content: "content = file_content (mem s) (fs_ptr s) (unat (dentry_inode (dentry_of s i)))"
  shows "\<exists>t stk u. shell_turn lits buf s = Some (Run buf, t) \<and> shown t = view \<and>
    system_call_handler (call_regs SYS_EXECUTE buf 0 0) (trap t) =
      Some (Enter (load32 (mem u) (PROGRAM_IMAGE + 24)) 0x83FFFFC, stk, u) \<and>
    runs (u\<lparr>esp := kernel_stack (of_nat n)\<rparr>) (of_nat n # ps) \<and>
    bytes_at (mem u) PROGRAM_IMAGE (length content) = content \<and>
    cstr (mem u) (pcb_addr (of_nat n) + PCB_ARG) (glue [] args)"
proof -
  let ?s = "in_kernel (s\<lparr>mem := store_bytes (mem s) buf (ys @ [0])\<rparr>)" and ?I = "img_rng (mem s) (fs_ptr s)"
  obtain t where t: "shell_turn lits buf s = Some (if ys = lit ''exit'' then Leave 0 else if ys = [] then Again else Run buf, t)"
    "shown t = view" "cstr (mem t) buf ys" "length ys \<le> 128" "keyboard.more (in_kernel t) = keyboard.more (in_kernel s)"
    "\<And>b. b \<notin> screen_rng \<Longrightarrow> b \<notin> rng buf 1024 \<Longrightarrow> mem t b = mem s b"
    using shell_turn_reads [OF assms(1-4,6)] by blast
  have prog: "names_program ?s ys i args" "img_ok (mem ?s) (fs_ptr ?s)" using ready unfolding exec_ready_def by blast+
  have ne: "ys \<noteq> []" using prog(1) by (auto simp: names_program_def arg_words.simps [of "[]"] strtok_word_def)
  have sub: "rng buf (length (ys @ [0])) \<subseteq> rng buf 1024" using t(4) by (intro rng_mono) simp
  have apart: "?I \<inter> (screen_rng \<union> rng buf 1024) = {}" using assms(1,5) by (auto simp: prog_ok_def buf_ok_def)
  have agree: "img_agree (mem s) (fs_ptr s) (mem ?s)"
    using apart sub by (auto simp: img_agree_def in_kernel_def intro!: store_bytes_other)
  have rng: "img_rng (mem ?s) (fs_ptr s) = ?I" using img_same [OF agree] by (simp add: img_rng_def img_size_def)
  have fp: "fs_ptr ?s = fs_ptr s" by simp
  have "mem (in_kernel t) b = mem ?s b" if "b \<in> ?I" for b
    using that apart t(6) agree by (simp add: img_agree_def in_kernel_def) blast
  then have a2: "img_agree (mem ?s) (fs_ptr ?s) (mem (in_kernel t))" unfolding img_agree_def fp rng by blast
  note k = keyboard_more_kernel [OF t(5)]
  have cmd: "mem (in_kernel t) b = mem ?s b" if "b \<in> rng buf (Suc (length ys))" for b
    using cstr_stored [OF t(3) that] t(4) by (simp add: in_kernel_def)
  have at: "fs_ptr (in_kernel t) = fs_ptr ?s" "exec_filename_at (in_kernel t) = exec_filename_at ?s"
    "exec_buffer_at (in_kernel t) = exec_buffer_at ?s" "pid_array (in_kernel t) = pid_array ?s"
    using k by (simp_all add: in_kernel_def)
  note e = exec_ready_same [OF ready a2 at(1) cmd at(2-4)]
  have r: "runs (in_kernel t) ps" using runs runs_cong [OF t(5)] by blast
  have "img_agree (mem ?s) (fs_ptr ?s) (mem s)" using agree unfolding img_agree_def fp rng by simp
  from program_file_same(3) [OF prog this] e(2)
  have c: "content = file_content (mem (in_kernel t)) (fs_ptr (in_kernel t)) (unat (dentry_inode (dentry_of (in_kernel t) i)))"
    unfolding content by simp
  obtain u where u: "execute buf (in_kernel t) = Some (Enter (load32 (mem u) (PROGRAM_IMAGE + 24)) 0x83FFFFC, u)"
    "bytes_at (mem u) PROGRAM_IMAGE (length content) = content"
    "cstr (mem u) (pcb_addr (of_nat n) + PCB_ARG) (glue [] args)"
    unfolding c by (rule execute_ready [OF e(1)])
  have "n = Min (free_pids (in_kernel t))" using e(1) unfolding exec_ready_def by blast
  then have p: "runs (u\<lparr>esp := kernel_stack (of_nat n)\<rparr>) (of_nat n # ps)" using execute_pushes [OF r u(1)] by blast
  have j: "(trap t)\<lparr>esp := esp (trap t) - 72\<rparr> = in_kernel t" by (simp add: trap_def in_kernel_def)
  have "system_call_handler (call_regs SYS_EXECUTE buf 0 0) (trap t) =
      Some (Enter (load32 (mem u) (PROGRAM_IMAGE + 24)) 0x83FFFFC, save_frame (eflags (trap t)) (call_regs SYS_EXECUTE buf 0 0), u)"
    unfolding handler_eq j by (simp add: call_regs_def SYS_EXECUTE_def system_call_jump_table_def u(1))
  then show ?thesis using t(1,2) assms(7) ne p u(2,3) by auto
qed

section \<open>counter\<close>

definition count_text :: "nat \<Rightarrow> nat \<Rightarrow> u8 list" where
  "count_text i n = concat (map (\<lambda>j. num_text 10 (of_nat (Suc j)) @ [0x0A]) [i..<n])"

lemma itoa_ten: "itoa m v buf 10 = Some (store_bytes m buf (num_text 10 v @ [0]))"
proof -
  have "unat (10 :: u32) = 10" by simp
  with itoa_digits [of 10 m v buf] show ?thesis by (simp only: num_text_def)
qed

lemma counter_loop_counts:
  "prog_ok s \<Longrightarrow> buf_ok buf 1024 s \<Longrightarrow> literals msgs lits (rng buf 1024) s \<Longrightarrow> line [] \<in> msgs \<Longrightarrow> i \<le> n \<Longrightarrow> n < 2 ^ 31 \<Longrightarrow>
   \<exists>t. counter_loop lits buf (of_nat n) (of_nat i) s = Some t \<and> shown t = fold tty_putc (count_text i n) (shown s)"
proof (induction "n - i" arbitrary: i s)
  case 0
  then show ?case by (subst counter_loop.simps) (simp add: count_text_def)
next
  case (Suc k)
  have i: "i < n" using Suc.hyps(2) by simp
  let ?x = "num_text 10 (of_nat (Suc i))" and ?nl = "line []"
  define u where "u = s\<lparr>mem := store_bytes (mem s) buf (?x @ [0])\<rparr>"
  define v where "v = put_text ?x u"
  define w where "w = put_text [0x0A] v"
  have len: "length ?x \<le> 32" and nz: "0 \<notin> set ?x" by (rule num_text_facts; simp)+
  have out: "store_bytes (mem s) buf (?x @ [0]) b = mem s b" if "b \<notin> rng buf 1024" for b
    using that rng_mono [of "length (?x @ [0])" 1024 buf] len by (intro store_bytes_other) auto
  have apart: "rng buf 1024 \<inter> (screen_rng \<union> img_rng (mem s) (fs_ptr s)) = {}" using Suc.prems(2) by (simp add: buf_ok_def)
  note u = prog_ok_store [OF Suc.prems(1) out apart, folded u_def]
  have lu: "literals msgs lits (rng buf 1024) u" unfolding u_def using Suc.prems(3) out by (rule literals_store)
  have bu: "buf_ok buf 1024 u" using u(2) Suc.prems(2) by simp
  have "cstr (mem u) buf ?x" unfolding u_def using nz len by (simp) (rule cstr_store_same; simp)
  then have "text_at (mem u) buf ?x"
    using bu len rng_mono [of "Suc (length ?x)" 1024 buf] by (auto simp: text_at_def buf_ok_def)
  then have pv: "ece391_fdputs 1 buf u = Some v" unfolding v_def using u(1) by (intro fdputs_out) (simp_all add: prog_ok_def)
  note v = prog_ok_put_text [where cs = ?x, OF u(1), folded v_def]
  have lv: "literals msgs lits (rng buf 1024) v" unfolding v_def using u(1) lu by (rule literals_put_text)
  have pw: "ece391_fdputs 1 (lits ?nl) v = Some w"
    using say_literal [OF v(1) lv Suc.prems(4)] by (simp add: w_def line_def)
  note w = prog_ok_put_text [where cs = "[0x0A]", OF v(1), folded w_def]
  have lw: "literals msgs lits (rng buf 1024) w" unfolding w_def using v(1) lv by (rule literals_put_text)
  have bw: "buf_ok buf 1024 w" using bu v(2) w(2) by simp
  have less: "(of_nat i :: u32) < of_nat n" using i Suc.prems(6) by (simp add: word_less_nat_alt unat_of_nat)
  have "ece391_itoa (mem s) (of_nat i + 1) buf 10 = Some (store_bytes (mem s) buf (?x @ [0]))"
    using itoa_ten [of "mem s" "of_nat i + 1" buf] by (simp add: ece391_itoa_eq add.commute)
  then have step: "counter_loop lits buf (of_nat n) (of_nat i) s = counter_loop lits buf (of_nat n) (of_nat (Suc i)) w"
    using pv pw less by (subst counter_loop.simps) (simp add: u_def say_to_def add.commute)
  have "k = n - Suc i" "Suc i \<le> n" using Suc.hyps(2) i by simp_all
  from Suc.hyps(1) [OF this(1) w(1) bw lw Suc.prems(4) this(2) Suc.prems(6)]
  obtain t where t: "counter_loop lits buf (of_nat n) (of_nat (Suc i)) w = Some t"
    "shown t = fold tty_putc (count_text (Suc i) n) (shown w)" by blast
  have "count_text i n = ?x @ [0x0A] @ count_text (Suc i) n" using i by (simp add: count_text_def upt_conv_Cons)
  then have "shown t = fold tty_putc (count_text i n) (shown s)"
    using t(2) w(3) v(3) u(3) by simp
  with step t(1) show ?case by auto
qed

text \<open>How far the choice makes it count, in the end the first character of the line.\<close>

definition count_limit :: "u8 list \<Rightarrow> nat" where
  "count_limit ys = (case ys of [] \<Rightarrow> 0 | c # _ \<Rightarrow>
     if c = of_char CHR ''0'' then 100 else if c = of_char CHR ''1'' then 10000 else if c = of_char CHR ''2'' then 100000 else 0)"

lemma counter_max_limit: "counter_max (case ys of [] \<Rightarrow> 0 | c # _ \<Rightarrow> c) = of_nat (count_limit ys)"
  by (cases ys) (simp_all add: counter_max_def count_limit_def)

lemma count_limit_small: "count_limit ys < 2 ^ 31"
  by (cases ys) (simp_all add: count_limit_def)

lemma counter_counts_line:
  assumes ok: "prog_ok s" "std_in s" and room: "line_room buf 128 s" "buf_ok buf 1024 s"
    and lits: "literals {line ''Enter the Test Number: (0): 100, (1): 10000, (2): 100000'', line ''Wrong Choice!'', line []} lits (rng buf 1024) s"
    and line: "answer s (line ''Enter the Test Number: (0): 100, (1): 10000, (2): 100000'') = Some (ys, view, rest)"
  shows "\<exists>t. counter_main lits buf s = Some (0, t) \<and> shown t = fold tty_putc
    (if 2 < length ys \<or> length ys = 2 \<and> hd ys \<notin> set (lit ''012'') then lit (line ''Wrong Choice!'') else count_text 0 (count_limit ys)) view"
proof -
  let ?q = "line ''Enter the Test Number: (0): 100, (1): 10000, (2): 100000''" and ?w = "line ''Wrong Choice!''"
  let ?msgs = "{?q, ?w, line []}" and ?n = "of_nat (length ys) :: u32"
  obtain v where q: "ece391_fdputs 1 (lits ?q) s = Some (put_text (lit ?q) s)"
    "ece391_read 0 buf (BUFSIZE - 1) (put_text (lit ?q) s) = Some (?n, v)"
    and v: "prog_ok v" "shown v = view" "literals ?msgs lits (rng buf 1024) v" "text_at (mem v) buf ys"
    "(mem v)(buf + ?n := 0) = mem v" "length ys \<le> 128" "list_all printable ys" "cstr (mem v) buf ys" "buf_ok buf 1024 v"
    by (rule ask_line [OF ok room(1) lits insertI1 line]) (use room(2) in blast)
  have w: "v\<lparr>mem := (mem v)(buf + ?n := 0)\<rparr> = v" unfolding v(5) by simp
  have nz: "?n \<noteq> minus_one" using v(6) by (intro small_word(1)) simp
  have sl: "ece391_strlen (mem v) buf = Some ?n" using strlen_cstr [OF v(8)] by (simp add: ece391_strlen_eq)
  have un: "unat ?n = length ys" using v(6) by (simp add: unat_of_nat)
  have hd: "ys \<noteq> [] \<Longrightarrow> mem v buf = hd ys" using v(8) by (cases ys) auto
  have bad: "?n > 2 \<or> ?n = 2 \<and> (mem v buf < of_char CHR ''0'' \<or> mem v buf > of_char CHR ''2'') \<longleftrightarrow>
      2 < length ys \<or> length ys = 2 \<and> hd ys \<notin> set (lit ''012'')"
  proof -
    have "?n > 2 \<longleftrightarrow> 2 < length ys" "?n = 2 \<longleftrightarrow> length ys = 2" using un by (simp_all add: word_less_nat_alt word_unat_eq_iff)
    moreover have "(c < of_char CHR ''0'' \<or> c > of_char CHR ''2'') \<longleftrightarrow> c \<notin> set (lit ''012'')" for c :: u8
    proof -
      have "(unat c < 48 \<or> 50 < unat c) \<longleftrightarrow> unat c \<noteq> 48 \<and> unat c \<noteq> 49 \<and> unat c \<noteq> 50" by arith
      then show ?thesis by (simp add: word_less_nat_alt word_unat_eq_iff)
    qed
    moreover have "mem v buf = hd ys" if "length ys = 2" using hd that by (cases ys) simp_all
    ultimately show ?thesis by metis
  qed
  have "mem v buf = (case ys of [] \<Rightarrow> 0 | c # _ \<Rightarrow> c)" using v(8) by (cases ys) auto
  then have n: "counter_max (mem v buf) = of_nat (count_limit ys)" by (simp only: counter_max_limit)
  obtain t where t: "counter_loop lits buf (counter_max (mem v buf)) 0 v = Some t"
    "shown t = fold tty_putc (count_text 0 (count_limit ys)) view"
    using counter_loop_counts [OF v(1,9,3) _ le0 count_limit_small] unfolding n v(2) by auto
  have "say_to lits ?w v = Some (put_text (lit ?w) v)" unfolding say_to_def by (rule say_literal [OF v(1,3)]) simp
  then have qu: "quit lits ?w 0 v = Some (0, put_text (lit ?w) v)" by (simp add: quit_def)
  have main: "counter_main lits buf s =
      (if 2 < length ys \<or> length ys = 2 \<and> hd ys \<notin> set (lit ''012'') then Some (0, put_text (lit ?w) v) else Some (0, t))"
    using nz by (simp only: counter_main_def say_to_def q w sl bad qu t(1) bind.bind_lunit prod.case Let_def if_False simp_thms)
  show ?thesis using t(2) prog_ok_put_text(3) [OF v(1), of "lit ?w"] v(2) unfolding main by auto
qed

end
