(* ===== verification/Sigtest.thy ===== *)
theory Sigtest
  imports Interactive Idt
begin

text \<open>
  The signal test, \<^verbatim>\<open>syscalls/ece391sigtest.c\<close>: it asks for handlers, reads a name and then writes
  through a null pointer on purpose. The kernel has no signals, so what happens is the page fault.
\<close>

section \<open>The code\<close>

definition SEGFAULT :: u32 where "SEGFAULT = 1"
definition ALARM :: u32 where "ALARM = 3"

text \<open>A store of the program goes through the page tables; one to a page it may not use is a fault.\<close>

definition user_store :: "u32 \<Rightarrow> u8 \<Rightarrow> 'a kernel_scheme \<Rightarrow> 'a kernel_scheme option" where
  "user_store a v s =
     (case translate s a of Some (_, True) \<Rightarrow> Some (s\<lparr>mem := (mem s)(a := v)\<rparr>) | _ \<Rightarrow> None)"

datatype run_end = Exits u32 | Faults

definition install_handlers :: "(string \<Rightarrow> u32) \<Rightarrow> u32 \<Rightarrow> u32 \<Rightarrow> u32 \<Rightarrow> 'a kernel_scheme \<Rightarrow> 'a kernel_scheme option" where
  "install_handlers lits buf segv alrm s =
     (if mem s buf = of_char CHR ''1'' then do {
        s \<leftarrow> say_to lits (line ''Installing signal handlers'') s;
        (_, s) \<leftarrow> ece391_set_handler SEGFAULT segv s;
        (_, s) \<leftarrow> ece391_set_handler ALARM alrm s;
        Some s }
      else Some s)"

definition quit_with :: "(string \<Rightarrow> u32) \<Rightarrow> string \<Rightarrow> u32 \<Rightarrow> 'a kernel_scheme \<Rightarrow> (run_end \<times> 'a kernel_scheme) option" where
  "quit_with lits msg v s = do { (v, s) \<leftarrow> quit lits msg v s; Some (Exits v, s) }"

text \<open>\<open>badbuf\<close> and \<open>charbuf\<close> are the addresses of the two variables, \<open>segv\<close> and \<open>alrm\<close> those of the handlers.\<close>

definition sigtest_main ::
  "(string \<Rightarrow> u32) \<Rightarrow> u32 \<Rightarrow> u32 \<Rightarrow> u32 \<Rightarrow> u32 \<Rightarrow> u32 \<Rightarrow> 'a kernel_scheme \<Rightarrow> (run_end \<times> 'a kernel_scheme) option" where
  "sigtest_main lits buf badbuf charbuf segv alrm s = do {
     (r, s) \<leftarrow> ece391_getargs buf BUFSIZE s;
     if r \<noteq> 0 then quit_with lits (line ''could not read argument'') 3 s
     else do {
       s \<leftarrow> install_handlers lits buf segv alrm s;
       s \<leftarrow> say_to lits ''Hi, what's your name? '' s;
       (cnt, s) \<leftarrow> ece391_read 0 buf (BUFSIZE - 1) s;
       if cnt = minus_one then quit_with lits (line ''Can't read name from keyboard.'') 3 s
       else case user_store (load32 (mem s) badbuf) 1 s of
         None \<Rightarrow> Some (Faults, s)
       | Some s \<Rightarrow> do {
           let s = s\<lparr>mem := (mem s)(buf + cnt := 0)\<rparr>;
           s \<leftarrow> say_to lits ''Hello, '' s;
           s \<leftarrow> ece391_fdputs 1 buf s;
           quit_with lits (line (if mem s charbuf = 1 then ''success'' else ''failure'')) 0 s } } }"

text \<open>The handlers, for a kernel that would call them; \<open>signum_at\<close> is the address of their parameter.\<close>

definition say_signum :: "(string \<Rightarrow> u32) \<Rightarrow> u32 \<Rightarrow> 'a kernel_scheme \<Rightarrow> 'a kernel_scheme option" where
  "say_signum lits signum s =
     say_to lits (line (if signum = 0 then ''0'' else if signum = 1 then ''1'' else if signum = 2 then ''2''
       else if signum = 3 then ''3'' else ''invalid'')) s"

definition segfault_sighandler ::
  "(string \<Rightarrow> u32) \<Rightarrow> u32 \<Rightarrow> u32 \<Rightarrow> u32 \<Rightarrow> u32 \<Rightarrow> u32 \<Rightarrow> 'a kernel_scheme \<Rightarrow> 'a kernel_scheme option" where
  "segfault_sighandler lits buf badbuf charbuf signum_at signum s = do {
     s \<leftarrow> say_to lits ''Segfault signal handler called, signum: '' s;
     s \<leftarrow> say_signum lits signum s;
     s \<leftarrow> say_to lits (line ''Press enter to continue...'') s;
     (_, s) \<leftarrow> ece391_read 0 buf 1 s;
     let m = store32 (mem s) badbuf charbuf;
     let eax = signum_at + 4 * 7;
     say_to lits (line ''Signal handler returning'') (s\<lparr>mem := store32 m eax charbuf\<rparr>) }"

definition alarm_sighandler :: "(string \<Rightarrow> u32) \<Rightarrow> u32 \<Rightarrow> 'a kernel_scheme \<Rightarrow> 'a kernel_scheme option" where
  "alarm_sighandler lits signum s = do {
     s \<leftarrow> say_to lits ''Alarm signal handler called, signum: '' s;
     say_signum lits signum s }"

section \<open>It stops the machine\<close>

lemma after_call_kept [simp]:
  "inq (after_call s a xs fs) = inq s" "kbd_of (after_call s a xs fs) = kbd_of s" "pushed_key (after_call s a xs fs) = pushed_key s"
  "conv_buf_at (after_call s a xs fs) = conv_buf_at s" "page_directory (after_call s a xs fs) = page_directory s"
  by (simp_all add: after_call_def in_program_def set_files_def in_kernel_def kbd_of_def)

lemma translate_cong:
  assumes "keyboard.more (s :: 'a kernel_scheme) = keyboard.more t"
  shows "translate s a = translate t a"
  using assms by (cases s; cases t) (simp add: translate_def table_for_def Let_def)

lemma translate_call [simp]:
  "translate (in_kernel s) b = translate s b" "translate (after_call s a xs fs) b = translate s b"
  by (simp_all add: translate_def table_for_def Let_def in_kernel_def after_call_def in_program_def set_files_def cong: if_cong)

lemma sigtest_faults:
  assumes ok: "prog_ok s" "std_in s" and room: "line_room buf 128 s" "buf_ok buf 1024 s"
    and args: "has_args s p as" "as \<noteq> []" "hd as \<noteq> of_char CHR ''1''" "rng buf 128 \<inter> rng (pcb_addr p + PCB_ARG) 128 = {}"
    and lits: "literals {''Hi, what's your name? ''} lits (rng buf 1024) s"
    and answer: "answer s ''Hi, what's your name? '' = Some (ys, view, rest)"
    and null: "load32 (mem s) badbuf = 0" "rng badbuf 4 \<inter> (rng buf 1024 \<union> screen_rng) = {}" "translate s 0 = None"
    and lay: "con_layout s"
  shows "\<exists>t u. sigtest_main lits buf badbuf charbuf segv alrm s = Some (Faults, t) \<and> shown t = view \<and>
    page_fault (in_kernel t) = Some u \<and> \<not> interrupts_on u \<and> con_view u =
      fold tty_putc (lit ''Page Fault'') \<lparr>cells = replicate 2000 (SPACE, BLUE_SCREEN_BACKGROUND_ATTRIB), pos = 0\<rparr>"
proof -
  let ?q = "''Hi, what's your name? ''"
  define a where "a = after_call s buf (as @ [0]) (cur_files (in_kernel s))"
  have short: "length (as @ [0]) \<le> 1024" using args(1) by (simp add: has_args_def)
  have l8: "length (cur_files (in_kernel s)) = 8" using ok(1) by (simp add: prog_ok_def out_ok_def std_out_def)
  have ga: "ece391_getargs buf BUFSIZE s = Some (0, a)"
    unfolding a_def using room by (intro getargs_call [OF args(1,2) _ _ args(4)]) (simp_all add: buf_ok_def BUFSIZE_def)
  note pa = prog_ok_after_call [OF ok(1) room(2) short l8 refl, folded a_def]
  have si: "std_in a" using ok(2) by (simp add: std_in_def a_def)
  have lr: "line_room buf 128 a" using room(1) pa(2) by (simp add: line_room_def)
  have la: "literals {?q} lits (rng buf 1024) a"
    unfolding a_def using lits rng_mono [OF short] by (rule literals_after_call)
  have an: "answer a ?q = Some (ys, view, rest)" using answer pa(3) by (simp add: answer_def a_def)
  obtain v where q: "ece391_fdputs 1 (lits ?q) a = Some (put_text (lit ?q) a)"
    "ece391_read 0 buf (BUFSIZE - 1) (put_text (lit ?q) a) = Some (of_nat (length ys), v)"
    and v: "shown v = view" "length ys \<le> 128" "keyboard.more (in_kernel v) = keyboard.more (in_kernel a)"
    "\<And>b. b \<notin> screen_rng \<Longrightarrow> b \<notin> rng buf 1024 \<Longrightarrow> mem v b = mem a b" "conv_buf_at v = conv_buf_at a"
    by (rule ask_line [OF pa(1) si lr la singletonI an]) blast
  have c: "cstr (mem a) buf as" unfolding a_def
    using args(1) cstr_nonzero by (simp add: has_args_def) (rule cstr_store_same; auto dest: cstr_nonzero)
  then have "mem a buf = hd as" using args(2) by (cases as) auto
  then have inst: "install_handlers lits buf segv alrm a = Some a" using args(3) by (simp add: install_handlers_def)
  have "load32 (mem v) badbuf = load32 (mem a) badbuf" using null(2) by (intro load32_cong v(4)) auto
  also have "\<dots> = load32 (mem s) badbuf"
    unfolding a_def using null(2) rng_mono [OF short, of buf] by (simp, intro load32_store_other) auto
  finally have "load32 (mem v) badbuf = 0" using null(1) by simp
  moreover have "translate v 0 = None"
  proof -
    have "translate (in_kernel v) 0 = translate (in_kernel a) 0" by (rule translate_cong [OF v(3)])
    then show ?thesis using null(3) by (simp add: a_def)
  qed
  ultimately have f: "user_store (load32 (mem v) badbuf) 1 v = None" by (simp add: user_store_def)
  have "(of_nat (length ys) :: u32) \<noteq> minus_one" using v(2) by (intro small_word(1)) simp
  then have main: "sigtest_main lits buf badbuf charbuf segv alrm s = Some (Faults, v)"
    by (simp only: sigtest_main_def ga inst say_to_def q f bind.bind_lunit prod.case if_False simp_thms option.case)
  have "con_layout (in_kernel v)" using lay v(5) by (simp add: con_layout_def conv_rng_def in_kernel_def a_def)
  moreover have "0x25 \<notin> set (lit ''Page Fault'')" by simp
  ultimately obtain u where "panic ''Page Fault'' (in_kernel v) = Some u" "\<not> interrupts_on u" "con_view u =
    fold tty_putc (lit ''Page Fault'') \<lparr>cells = replicate 2000 (SPACE, BLUE_SCREEN_BACKGROUND_ATTRIB), pos = 0\<rparr>"
    using panic_shows by blast
  with main v(1) show ?thesis unfolding page_fault_def by blast
qed

end
