(* ===== verification/Syserr.thy ===== *)
theory Syserr
  imports Programs
begin

text \<open>
  \<^verbatim>\<open>syscalls/ece391syserr.c\<close>, the program that tries the system calls with arguments they are to
  refuse and reports for each of eight tests whether they were. The main result: the kernel passes
  all of them.
\<close>

section \<open>The tests\<close>

definition NEG_FD :: u32 where "NEG_FD = - 1073741823"
definition BIG_FD :: u32 where "BIG_FD = 1073741823"
definition BIG_NUM :: u32 where "BIG_NUM = 1073741823"
definition NEG_NUM :: u32 where "NEG_NUM = - 1073741823"

text \<open>Only \<^verbatim>\<open>eax\<close> is set; the other registers hold what the compiler left there.\<close>

definition call_sys :: "u32 \<times> u32 \<times> u32 \<Rightarrow> u32 \<Rightarrow> 'a kernel_scheme \<Rightarrow> (u32 \<times> 'a kernel_scheme) option" where
  "call_sys regs num s = (case regs of (b, c, d) \<Rightarrow> DO_CALL num b c d s)"

text \<open>The branch every check ends in, and the verdict of a test.\<close>

definition check_refused ::
  "(string \<Rightarrow> u32) \<Rightarrow> string \<Rightarrow> u32 \<Rightarrow> (u32 \<times> 'a kernel_scheme) option \<Rightarrow> (u32 \<times> 'a kernel_scheme) option" where
  "check_refused lits msg fail res = do {
     (r, s) \<leftarrow> res;
     if minus_one \<noteq> r then do { s \<leftarrow> say_to lits (line msg) s; Some (2, s) } else Some (fail, s) }"

definition verdict :: "(string \<Rightarrow> u32) \<Rightarrow> string \<Rightarrow> u32 \<Rightarrow> 'a kernel_scheme \<Rightarrow> (u32 \<times> 'a kernel_scheme) option" where
  "verdict lits name fail s = do {
     s \<leftarrow> say_to lits (line (name @ (if fail \<noteq> 0 then '': FAIL'' else '': PASS''))) s;
     Some (fail, s) }"

definition err_neg_fd :: "(string \<Rightarrow> u32) \<Rightarrow> u32 \<Rightarrow> 'a kernel_scheme \<Rightarrow> (u32 \<times> 'a kernel_scheme) option" where
  "err_neg_fd lits buf s = do {
     (fail, s) \<leftarrow> check_refused lits ''read fail'' 0 (ece391_read NEG_FD buf 31 s);
     (fail, s) \<leftarrow> check_refused lits ''write fail'' fail (ece391_write NEG_FD buf 31 s);
     (fail, s) \<leftarrow> check_refused lits ''close fail'' fail (ece391_close NEG_FD s);
     verdict lits ''err_neg_fd'' fail s }"

definition err_big_fd :: "(string \<Rightarrow> u32) \<Rightarrow> u32 \<Rightarrow> 'a kernel_scheme \<Rightarrow> (u32 \<times> 'a kernel_scheme) option" where
  "err_big_fd lits buf s = do {
     (fail, s) \<leftarrow> check_refused lits ''read fail'' 0 (ece391_read BIG_FD buf 31 s);
     (fail, s) \<leftarrow> check_refused lits ''write fail'' fail (ece391_write BIG_FD buf 31 s);
     (fail, s) \<leftarrow> check_refused lits ''close fail'' fail (ece391_close BIG_FD s);
     verdict lits ''err_big_fd'' fail s }"

text \<open>The two loops of \<open>err_open_lots\<close>.\<close>

fun open_lots :: "(string \<Rightarrow> u32) \<Rightarrow> nat \<Rightarrow> u32 \<Rightarrow> 'a kernel_scheme \<Rightarrow> (u32 \<times> 'a kernel_scheme) option" where
  "open_lots lits 0 cnt s = Some (cnt, s)"
| "open_lots lits (Suc n) cnt s = do {
     (r, s) \<leftarrow> ece391_open (lits ''.'') s;
     open_lots lits n (if minus_one = r then cnt + 1 else cnt) s }"

fun close_each :: "nat list \<Rightarrow> 'a kernel_scheme \<Rightarrow> 'a kernel_scheme option" where
  "close_each [] s = Some s"
| "close_each (i # is) s = do { (_, s) \<leftarrow> ece391_close (of_nat i) s; close_each is s }"

definition err_open_lots :: "(string \<Rightarrow> u32) \<Rightarrow> 'a kernel_scheme \<Rightarrow> (u32 \<times> 'a kernel_scheme) option" where
  "err_open_lots lits s = do {
     (cnt, s) \<leftarrow> open_lots lits 7 0 s;
     s \<leftarrow> close_each [2..<8] s;
     if cnt = 1 then quit lits (line ''err_open_lots: PASS'') 0 s
     else quit lits (line ''err_open_lots: FAIL'') 2 s }"

definition quoted_fail :: "string \<Rightarrow> string" where
  "quoted_fail name = CHR 0x27 # name @ CHR 0x27 # '' fail''"

definition err_open :: "(string \<Rightarrow> u32) \<Rightarrow> 'a kernel_scheme \<Rightarrow> (u32 \<times> 'a kernel_scheme) option" where
  "err_open lits s = do {
     (fail, s) \<leftarrow> check_refused lits (quoted_fail ''helloo'') 0 (ece391_open (lits ''helloo'') s);
     (fail, s) \<leftarrow> check_refused lits (quoted_fail ''shel'') fail (ece391_open (lits ''shel'') s);
     (fail, s) \<leftarrow> check_refused lits ''empty string fail'' fail (ece391_open (lits []) s);
     verdict lits ''err_open'' fail s }"

text \<open>A loop of checks over descriptors.\<close>

fun check_each ::
  "(string \<Rightarrow> u32) \<Rightarrow> string \<Rightarrow> (u32 \<Rightarrow> 'a kernel_scheme \<Rightarrow> (u32 \<times> 'a kernel_scheme) option) \<Rightarrow> nat list \<Rightarrow> u32 \<Rightarrow>
   'a kernel_scheme \<Rightarrow> (u32 \<times> 'a kernel_scheme) option" where
  "check_each lits msg call [] fail s = Some (fail, s)"
| "check_each lits msg call (i # is) fail s = do {
     (fail, s) \<leftarrow> check_refused lits msg fail (call (of_nat i) s);
     check_each lits msg call is fail s }"

definition err_unopened :: "(string \<Rightarrow> u32) \<Rightarrow> u32 \<Rightarrow> 'a kernel_scheme \<Rightarrow> (u32 \<times> 'a kernel_scheme) option" where
  "err_unopened lits buf s = do {
     (fail, s) \<leftarrow> check_each lits ''close unopened or invalid fd fail'' ece391_close [0..<8] 0 s;
     (fail, s) \<leftarrow> check_each lits ''read from unopened fd fail'' (\<lambda>i. ece391_read i buf 31) [2..<8] fail s;
     (fail, s) \<leftarrow> check_each lits ''write to unopened fd fail'' (\<lambda>i. ece391_write i buf 31) [2..<8] fail s;
     verdict lits ''err_unopened'' fail s }"

definition err_vidmap :: "(string \<Rightarrow> u32) \<Rightarrow> 'a kernel_scheme \<Rightarrow> (u32 \<times> 'a kernel_scheme) option" where
  "err_vidmap lits s = do {
     (fail, s) \<leftarrow> check_refused lits ''Null pointer fail'' 0 (ece391_vidmap 0 s);
     (fail, s) \<leftarrow> check_refused lits ''Kernel pointer fail fail'' fail (ece391_vidmap 0x400000 s);
     verdict lits ''err_vidmap'' fail s }"

definition err_stdin_out :: "(string \<Rightarrow> u32) \<Rightarrow> u32 \<Rightarrow> 'a kernel_scheme \<Rightarrow> (u32 \<times> 'a kernel_scheme) option" where
  "err_stdin_out lits buf s = do {
     (fail, s) \<leftarrow> check_refused lits ''write to stdin fail'' 0 (ece391_write 0 buf 31 s);
     (fail, s) \<leftarrow> check_refused lits ''read from stdout fail'' fail (ece391_read 1 buf 31 s);
     verdict lits ''err_stdin_out'' fail s }"

definition err_syscall_num ::
  "u32 \<times> u32 \<times> u32 \<Rightarrow> (string \<Rightarrow> u32) \<Rightarrow> 'a kernel_scheme \<Rightarrow> (u32 \<times> 'a kernel_scheme) option" where
  "err_syscall_num regs lits s = do {
     (fail, s) \<leftarrow> check_refused lits ''syscall 0 fail'' 0 (call_sys regs BIG_NUM s);
     (fail, s) \<leftarrow> check_refused lits ''big num syscall fail'' fail (call_sys regs NEG_NUM s);
     (fail, s) \<leftarrow> check_refused lits ''neg num syscall fail'' fail (call_sys regs 0 s);
     verdict lits ''err_syscall_num'' fail s }"

section \<open>The program\<close>

definition all_tests ::
  "u32 \<times> u32 \<times> u32 \<Rightarrow> (string \<Rightarrow> u32) \<Rightarrow> u32 \<Rightarrow> 'a kernel_scheme \<Rightarrow> (u32 \<times> 'a kernel_scheme) option" where
  "all_tests regs lits buf s = do {
     (f1, s) \<leftarrow> err_neg_fd lits buf s;
     (f2, s) \<leftarrow> err_big_fd lits buf s;
     (f3, s) \<leftarrow> err_open_lots lits s;
     (f4, s) \<leftarrow> err_open lits s;
     (f5, s) \<leftarrow> err_unopened lits buf s;
     (f6, s) \<leftarrow> err_vidmap lits s;
     (f7, s) \<leftarrow> err_stdin_out lits buf s;
     (f8, s) \<leftarrow> err_syscall_num regs lits s;
     let fail = f1 + f2 + f3 + f4 + f5 + f6 + f7 + f8;
     s \<leftarrow> say_to lits (line (CHR 0x0A # (if fail \<noteq> 0 then ''Overall Tests: FAIL'' else ''Overall Tests: PASS''))) s;
     Some (fail, s) }"

definition run_tests ::
  "u32 \<times> u32 \<times> u32 \<Rightarrow> (string \<Rightarrow> u32) \<Rightarrow> u32 \<Rightarrow> u32 \<Rightarrow> 'a kernel_scheme \<Rightarrow> (u32 \<times> 'a kernel_scheme) option" where
  "run_tests regs lits buf select s =
     (if select = 0 then all_tests regs lits buf s
      else if select = 1 then err_neg_fd lits buf s
      else if select = 2 then err_big_fd lits buf s
      else if select = 3 then err_open_lots lits s
      else if select = 4 then err_open lits s
      else if select = 5 then err_unopened lits buf s
      else if select = 6 then err_vidmap lits s
      else if select = 7 then err_stdin_out lits buf s
      else if select = 8 then err_syscall_num regs lits s
      else do {
        s \<leftarrow> say_to lits ''Invalid test number. Choose from tests 1-8 or 0'' s;
        Some (0, s) })"

text \<open>The buffers of the tests are locals of their own; \<open>tbuf\<close> stands for them.\<close>

definition syserr_main ::
  "u32 \<times> u32 \<times> u32 \<Rightarrow> (string \<Rightarrow> u32) \<Rightarrow> u32 \<Rightarrow> u32 \<Rightarrow> 'a kernel_scheme \<Rightarrow> (u32 \<times> 'a kernel_scheme) option" where
  "syserr_main regs lits buf tbuf s = do {
     s \<leftarrow> say_to lits ''Choose from tests 1-8. 0 to run all: '' s;
     (cnt, s) \<leftarrow> ece391_read 0 buf 127 s;
     if cnt = minus_one then quit lits (line ''Can't read test #'') 2 s
     else run_tests regs lits tbuf (ucast (mem s buf) - ucast (of_char CHR ''0'' :: u8)) s }"


section \<open>Refused calls\<close>

text \<open>The state after a call that was refused: all of it is as before, up to the stack pointer of the
  kernel.\<close>

definition refused :: "'a kernel_scheme \<Rightarrow> 'a kernel_scheme" where
  "refused s = in_program s (in_kernel s)"

lemma refused_after_call: "refused s = after_call s a [] (cur_files (in_kernel s))"
  by (simp add: refused_def after_call_def)

lemma refused_frame [simp]:
  "mem (refused s) = mem s" "fs_ptr (refused s) = fs_ptr s" "cur_files (in_kernel (refused s)) = cur_files (in_kernel s)"
  "shown (refused s) = shown s"
  using refused_after_call [of s 0] after_call_out(1) [of 0 "[]" s] by simp_all

lemma refused_entry [simp]: "entry_of (in_kernel (refused s)) name = entry_of (in_kernel s) name"
  by (rule entry_of_same) (simp_all add: img_agree_def)

lemma refused_ok: "prog_ok s \<Longrightarrow> prog_ok (refused s)"
  using out_ok_after_call [of s 0 "[]" "cur_files (in_kernel s)"]
  by (simp add: prog_ok_def out_ok_def std_out_def refused_after_call [of s 0])

lemma refused_literals: "literals msgs lits R (refused s) = literals msgs lits R s"
  by (simp add: literals_def)

lemma resumed_refused: "resumed s (Some (v, in_kernel s)) = Some (v, refused s)"
  by (simp add: resumed_def refused_def)

text \<open>What the tests rely on: a sound program whose slots other than \<open>D\<close> are free and whose slots in
  \<open>D\<close> are open directories, the literals of the run, and the directory.\<close>

definition slots_open :: "nat set \<Rightarrow> 'a kernel_scheme \<Rightarrow> bool" where
  "slots_open D s \<longleftrightarrow> (let fs = cur_files (in_kernel s) in length fs = 8 \<and>
     (\<forall>i \<in> {0, 1}. flags (fs ! i) \<noteq> FILE_AVAIL \<and> file_ops_table_ptr (fs ! i) = TerminalOps) \<and>
     (\<forall>i \<in> {2..<8}. if i \<in> D then flags (fs ! i) \<noteq> FILE_AVAIL \<and> file_ops_table_ptr (fs ! i) = DirectoryOps
        else flags (fs ! i) = FILE_AVAIL))"

definition test_dir :: "'a kernel_scheme \<Rightarrow> bool" where
  "test_dir s \<longleftrightarrow> (\<exists>d. entry_of (in_kernel s) (lit ''.'') = Some d \<and> filetype d = 1) \<and>
     entry_of (in_kernel s) (lit ''helloo'') = None \<and> entry_of (in_kernel s) (lit ''shel'') = None"

definition tester :: "nat set \<Rightarrow> string set \<Rightarrow> (string \<Rightarrow> u32) \<Rightarrow> 'a kernel_scheme \<Rightarrow> bool" where
  "tester D msgs lits s \<longleftrightarrow> prog_ok s \<and> slots_open D s \<and> literals msgs lits {} s \<and> test_dir s \<and>
     flags (blank (in_kernel s)) = FILE_AVAIL"

lemma refused_blank [simp]: "blank (in_kernel (refused s)) = blank (in_kernel s)"
  by (simp add: refused_def in_program_def in_kernel_def)

lemma tester_refused: "tester D msgs lits s \<Longrightarrow> tester D msgs lits (refused s)"
  by (simp add: tester_def refused_ok refused_literals slots_open_def test_dir_def)

lemma put_text_blank [simp]: "blank (in_kernel (put_text cs s)) = blank (in_kernel s)"
proof -
  have "rtc.more (fold putc cs (in_kernel s)) = rtc.more (in_kernel s)" by (rule console_more_kernel(2)) simp
  from rtc_more_fs(4) [OF this] show ?thesis by (simp only: put_text_in_kernel)
qed

lemma test_dir_same:
  assumes "img_agree (mem s) (fs_ptr s) (mem t)" "fs_ptr t = fs_ptr s"
  shows "test_dir t = test_dir s"
proof -
  have "entry_of (in_kernel t) n = entry_of (in_kernel s) n" for n
    by (rule entry_of_same) (use assms in simp_all)
  then show ?thesis by (simp only: test_dir_def)
qed

lemma tester_put_text: "tester D msgs lits s \<Longrightarrow> tester D msgs lits (put_text cs s)"
  using prog_ok_put_text(1,4) literals_put_text test_dir_same [of s "put_text cs s"]
  by (auto simp: tester_def slots_open_def)

lemma verdict_pass:
  assumes "tester D msgs lits s" "line (name @ '': PASS'') \<in> msgs"
  shows "verdict lits name 0 s = Some (0, put_text (lit (line (name @ '': PASS''))) s)"
  using assms say_literal by (fastforce simp: verdict_def say_to_def tester_def)

text \<open>The refusals themselves.\<close>

lemma sint_fd_consts: "sint NEG_FD = - 1073741823" "sint BIG_FD = 1073741823"
  by (simp_all add: NEG_FD_def BIG_FD_def)

lemma fd_invalid: "fd \<in> {NEG_FD, BIG_FD} \<Longrightarrow> \<not> fd_valid low fd \<or> low \<notin> {0, 2}"
proof -
  assume "fd \<in> {NEG_FD, BIG_FD}"
  moreover have "sint (7 :: u32) = 7" "sint (0 :: u32) = 0" "sint (2 :: u32) = 2" by simp_all
  ultimately show ?thesis by (auto simp: fd_valid_def word_sless_alt sint_fd_consts)
qed

lemma bad_fd_refused:
  assumes "fd \<in> {NEG_FD, BIG_FD}"
  shows "ece391_read fd buf n s = Some (minus_one, refused s)" "ece391_write fd buf n s = Some (minus_one, refused s)"
    "ece391_close fd s = Some (minus_one, refused s)"
  using fd_invalid [OF assms, of 0] fd_invalid [OF assms, of 2]
  by (simp_all add: ece391_calls sys_read_def sys_write_def sys_close_def resumed_refused)

lemma fd_valid_low: "i < 8 \<Longrightarrow> fd_valid 2 (of_nat i) \<longleftrightarrow> 2 \<le> i" "i < 8 \<Longrightarrow> fd_valid 0 (of_nat i)"
proof -
  assume i: "i < 8"
  then have "sint (of_nat i :: u32) = int i" by (intro sint_of_nat) simp
  moreover have "sint (7 :: u32) = 7" "sint (0 :: u32) = 0" "sint (2 :: u32) = 2" by simp_all
  ultimately show "fd_valid 2 (of_nat i) \<longleftrightarrow> 2 \<le> i" "fd_valid 0 (of_nat i)"
    using i by (auto simp: fd_valid_def word_sless_alt)
qed

lemma unopened_refused:
  assumes "slots_open {} s" "i < 8"
  shows "ece391_close (of_nat i) s = Some (minus_one, refused s)"
    "2 \<le> i \<Longrightarrow> ece391_read (of_nat i) buf n s = Some (minus_one, refused s)"
    "2 \<le> i \<Longrightarrow> ece391_write (of_nat i) buf n s = Some (minus_one, refused s)"
proof -
  have u: "unat (of_nat i :: u32) = i" using assms(2) by (simp add: unat_of_nat)
  have av: "flags (cur_files (in_kernel s) ! i) = FILE_AVAIL" if "2 \<le> i"
    using assms that by (simp add: slots_open_def Let_def)
  show "ece391_close (of_nat i) s = Some (minus_one, refused s)"
    using av assms(2) by (auto simp: ece391_calls sys_close_def fd_valid_low u resumed_refused)
  show "2 \<le> i \<Longrightarrow> ece391_read (of_nat i) buf n s = Some (minus_one, refused s)"
    "2 \<le> i \<Longrightarrow> ece391_write (of_nat i) buf n s = Some (minus_one, refused s)"
    using av assms(2) by (simp_all add: ece391_calls sys_read_def sys_write_def fd_valid_low u resumed_refused)
qed

lemma stdin_out_refused:
  assumes "slots_open {} s"
  shows "ece391_write 0 buf n s = Some (minus_one, refused s)" "ece391_read 1 buf n s = Some (minus_one, refused s)"
proof -
  have v: "fd_valid 0 0" "fd_valid 0 1" using fd_valid_low(2) [of 0] fd_valid_low(2) [of 1] by simp_all
  have f: "flags (cur_files (in_kernel s) ! 0) \<noteq> FILE_AVAIL" "file_ops_table_ptr (cur_files (in_kernel s) ! 0) = TerminalOps"
    "flags (cur_files (in_kernel s) ! 1) \<noteq> FILE_AVAIL" "file_ops_table_ptr (cur_files (in_kernel s) ! 1) = TerminalOps"
    using assms by (simp_all add: slots_open_def Let_def)
  show "ece391_write 0 buf n s = Some (minus_one, refused s)"
    using f(1,2) by (simp add: ece391_calls sys_write_def v terminal_write_def resumed_refused)
  show "ece391_read 1 buf n s = Some (minus_one, refused s)"
    using f(3,4) by (simp add: ece391_calls sys_read_def v terminal_read_def resumed_refused)
qed

lemma vidmap_refused: "ptr < PAGE_TOP \<Longrightarrow> ece391_vidmap ptr s = Some (minus_one, refused s)"
  by (simp add: ece391_calls vidmap_refuses resumed_refused)

lemma open_unknown:
  assumes "fname \<noteq> 0" "cstr (mem s) fname name" "length name < 32" "name = [] \<or> entry_of (in_kernel s) name = None"
  shows "ece391_open fname s = Some (minus_one, refused s)"
proof -
  have "read_dentry_by_name fname (in_kernel s) = None"
  proof (cases "name = []")
    case True
    with assms(2) show ?thesis by (simp add: read_dentry_by_name_first)
  next
    case False
    with lookup_entry [of "in_kernel s" fname name] assms show ?thesis by simp
  qed
  then show ?thesis by (simp add: ece391_calls sys_open_def resumed_refused)
qed

text \<open>A number outside the table ends in the handler.\<close>

lemma bad_number_refused:
  assumes "\<not> (1 \<le> unat num \<and> unat num \<le> 10)" "tester D msgs lits s"
  shows "\<exists>t. call_sys regs num s = Some (minus_one, t) \<and> tester D msgs lits t \<and> shown t = shown s"
proof -
  obtain b c d where r: "regs = (b, c, d)" by (cases regs)
  let ?t = "((trap s)\<lparr>esp := esp (trap s) - 68\<rparr>)\<lparr>eflags := eflags s\<rparr>"
  have e: "r_eax (call_regs num b c d) = num" by (simp add: call_regs_def)
  have "system_call_handler (call_regs num b c d) (trap s) = Some (Return minus_one,
      save_frame (eflags (trap s)) (call_regs num b c d), (trap s)\<lparr>esp := esp (trap s) - 68\<rparr>)"
    unfolding handler_eq e using assms(1) by (simp only: if_False)
  then have "call_sys regs num s = Some (minus_one, ?t)" by (simp add: call_sys_def r DO_CALL_def)
  moreover have "in_kernel ?t = in_kernel s" "mem ?t = mem s" "fs_ptr ?t = fs_ptr s"
    by (simp_all add: in_kernel_def trap_def)
  ultimately show ?thesis
    using assms(2)
    by (intro exI [of _ ?t]) (simp add: shown_def tester_def prog_ok_def out_ok_def slots_open_def test_dir_def literals_def)
qed

section \<open>The kernel passes the tests\<close>

definition passes ::
  "string set \<Rightarrow> (string \<Rightarrow> u32) \<Rightarrow> ('a kernel_scheme \<Rightarrow> (u32 \<times> 'a kernel_scheme) option) \<Rightarrow> string \<Rightarrow>
   'a kernel_scheme \<Rightarrow> bool" where
  "passes msgs lits test text s \<longleftrightarrow>
     (\<exists>t. test s = Some (0, t) \<and> tester {} msgs lits t \<and> shown t = fold tty_putc (lit text) (shown s))"

lemma check_refused_ok [simp]: "check_refused lits msg fail (Some (minus_one, t)) = Some (fail, t)"
  by (simp add: check_refused_def)

lemma verdict_passes:
  assumes "tester {} msgs lits t" "line (name @ '': PASS'') \<in> msgs" "shown t = shown s"
    "test s = verdict lits name 0 t"
  shows "passes msgs lits test (line (name @ '': PASS'')) s"
proof -
  have "test s = Some (0, put_text (lit (line (name @ '': PASS''))) t)"
    using assms(4) verdict_pass [OF assms(1,2)] by simp
  moreover have "prog_ok t" using assms(1) by (simp add: tester_def)
  ultimately show ?thesis
    using tester_put_text [OF assms(1)] prog_ok_put_text(3) [of t] assms(3) by (auto simp: passes_def)
qed

lemma passes_bad_fds:
  assumes "tester {} msgs lits s"
  shows "line ''err_neg_fd: PASS'' \<in> msgs \<Longrightarrow> passes msgs lits (err_neg_fd lits buf) (line ''err_neg_fd: PASS'') s"
    "line ''err_big_fd: PASS'' \<in> msgs \<Longrightarrow> passes msgs lits (err_big_fd lits buf) (line ''err_big_fd: PASS'') s"
proof -
  let ?t = "refused (refused (refused s))"
  have t: "tester {} msgs lits ?t" "shown ?t = shown s" using assms by (simp_all add: tester_refused)
  show "line ''err_neg_fd: PASS'' \<in> msgs \<Longrightarrow> passes msgs lits (err_neg_fd lits buf) (line ''err_neg_fd: PASS'') s"
    using verdict_passes [OF t(1) _ t(2), of "''err_neg_fd''"] by (simp add: err_neg_fd_def bad_fd_refused)
  show "line ''err_big_fd: PASS'' \<in> msgs \<Longrightarrow> passes msgs lits (err_big_fd lits buf) (line ''err_big_fd: PASS'') s"
    using verdict_passes [OF t(1) _ t(2), of "''err_big_fd''"] by (simp add: err_big_fd_def bad_fd_refused)
qed

lemma tester_literal:
  "tester D msgs lits s \<Longrightarrow> msg \<in> msgs \<Longrightarrow> cstr (mem s) (lits msg) (lit msg) \<and> lits msg \<noteq> 0"
  by (simp add: tester_def literals_def text_at_def del: cstr.simps)

lemma open_unknown_literal:
  assumes "tester D msgs lits s" "msg \<in> msgs" "msg = [] \<or> entry_of (in_kernel s) (lit msg) = None" "length msg < 32"
  shows "ece391_open (lits msg) s = Some (minus_one, refused s)"
  using open_unknown [of "lits msg" s "lit msg"] tester_literal [OF assms(1,2)] assms(3,4) by simp

lemma passes_open:
  assumes t: "tester {} msgs lits s" and m: "{''helloo'', ''shel'', [], line ''err_open: PASS''} \<subseteq> msgs"
  shows "passes msgs lits (err_open lits) (line ''err_open: PASS'') s"
proof -
  let ?u = "refused s" let ?v = "refused ?u" let ?w = "refused ?v"
  have u: "tester {} msgs lits ?u" "tester {} msgs lits ?v" "tester {} msgs lits ?w" "shown ?w = shown s"
    using t by (simp_all add: tester_refused)
  have d: "entry_of (in_kernel s) (lit ''helloo'') = None" "entry_of (in_kernel ?u) (lit ''shel'') = None"
    using t by (simp_all add: tester_def test_dir_def)
  have "ece391_open (lits ''helloo'') s = Some (minus_one, ?u)"
    by (rule open_unknown_literal [OF t _ disjI2 [OF d(1)]]) (use m in simp_all)
  moreover have "ece391_open (lits ''shel'') ?u = Some (minus_one, ?v)"
    by (rule open_unknown_literal [OF u(1) _ disjI2 [OF d(2)]]) (use m in simp_all)
  moreover have "ece391_open (lits []) ?v = Some (minus_one, ?w)"
    by (rule open_unknown_literal [OF u(2)]) (use m in simp_all)
  ultimately show ?thesis
    using verdict_passes [OF u(3) _ u(4), of "''err_open''" "err_open lits"] m by (simp add: err_open_def)
qed

lemma passes_vidmap:
  assumes t: "tester {} msgs lits s" and m: "line ''err_vidmap: PASS'' \<in> msgs"
  shows "passes msgs lits (err_vidmap lits) (line ''err_vidmap: PASS'') s"
proof -
  let ?t = "refused (refused s)"
  have "tester {} msgs lits ?t" "shown ?t = shown s" using t by (simp_all add: tester_refused)
  moreover have "(0 :: u32) < PAGE_TOP" "(0x400000 :: u32) < PAGE_TOP" by (simp_all add: PAGE_TOP_def)
  ultimately show ?thesis
    using verdict_passes [of msgs lits ?t "''err_vidmap''" s "err_vidmap lits"] m
    by (simp add: err_vidmap_def vidmap_refused)
qed

lemma passes_stdin_out:
  assumes t: "tester {} msgs lits s" and m: "line ''err_stdin_out: PASS'' \<in> msgs"
  shows "passes msgs lits (err_stdin_out lits buf) (line ''err_stdin_out: PASS'') s"
proof -
  let ?t = "refused (refused s)"
  have "tester {} msgs lits ?t" "shown ?t = shown s" using t by (simp_all add: tester_refused)
  moreover have "slots_open {} s" "slots_open {} (refused s)" using t tester_refused [OF t] by (simp_all add: tester_def)
  ultimately show ?thesis
    using verdict_passes [of msgs lits ?t "''err_stdin_out''" s "err_stdin_out lits buf"] m
    by (simp add: err_stdin_out_def stdin_out_refused)
qed

lemma passes_syscall_num:
  assumes t: "tester {} msgs lits s" and m: "line ''err_syscall_num: PASS'' \<in> msgs"
  shows "passes msgs lits (err_syscall_num regs lits) (line ''err_syscall_num: PASS'') s"
proof -
  have n: "\<not> (1 \<le> unat BIG_NUM \<and> unat BIG_NUM \<le> 10)" "\<not> (1 \<le> unat NEG_NUM \<and> unat NEG_NUM \<le> 10)"
    "\<not> (1 \<le> unat (0 :: u32) \<and> unat (0 :: u32) \<le> 10)"
    by (simp_all add: BIG_NUM_def NEG_NUM_def)
  obtain u where u: "call_sys regs BIG_NUM s = Some (minus_one, u)" "tester {} msgs lits u" "shown u = shown s"
    using bad_number_refused [OF n(1) t] by blast
  obtain v where v: "call_sys regs NEG_NUM u = Some (minus_one, v)" "tester {} msgs lits v" "shown v = shown u"
    using bad_number_refused [OF n(2) u(2)] by blast
  obtain w where w: "call_sys regs 0 v = Some (minus_one, w)" "tester {} msgs lits w" "shown w = shown v"
    using bad_number_refused [OF n(3) v(2)] by blast
  show ?thesis
    using verdict_passes [OF w(2), of "''err_syscall_num''" s "err_syscall_num regs lits"] u v w m
    by (simp add: err_syscall_num_def)
qed

text \<open>The descriptors of \<open>err_open_lots\<close>.\<close>

lemma tester_files:
  assumes "tester D msgs lits s" "slots_open E t"
    and t: "t = after_call s 1 [] fs" "length fs = 8" "fs ! 1 = cur_files (in_kernel s) ! 1"
  shows "tester E msgs lits t" "shown t = shown s"
proof -
  have "prog_ok s" "buf_ok 1 0 s" using assms(1) by (simp_all add: tester_def buf_ok_def)
  note c = prog_ok_after_call [OF this, of "[]" fs, simplified t(2,3), simplified, folded t(1)]
  have "literals msgs lits {} t"
    unfolding t(1) using assms(1) by (intro literals_after_call) (simp_all add: tester_def)
  moreover have "test_dir t" using test_dir_same [of s t] assms(1) by (simp add: tester_def t(1) img_agree_def)
  moreover have "blank (in_kernel t) = blank (in_kernel s)" unfolding t(1) after_call_in_kernel by simp
  ultimately show "tester E msgs lits t" using assms(1,2) c(1) by (simp add: tester_def)
  show "shown t = shown s" by (rule c)
qed

lemma slots_free:
  assumes "slots_open {2..<2 + j} s" "j \<le> 6"
  shows "free_slot (cur_files (in_kernel s)) 2 = 2 + j"
proof -
  let ?fs = "cur_files (in_kernel s)" and ?i = "free_slot (cur_files (in_kernel s)) 2"
  have o: "flags (?fs ! i) \<noteq> FILE_AVAIL" if "2 \<le> i" "i < 2 + j" for i
    using assms that by (auto simp: slots_open_def Let_def)
  have c: "flags (?fs ! i) = FILE_AVAIL" if "2 + j \<le> i" "i < 8" for i
    using assms(1) that by (auto simp: slots_open_def Let_def)
  note f = free_slot_spec [of 2 ?fs, simplified]
  show ?thesis
  proof (cases "?i < 2 + j")
    case True
    then have "?i < 8" using assms(2) by simp
    with f o [of ?i] True show ?thesis by blast
  next
    case False
    show ?thesis
    proof (rule ccontr)
      assume "?i \<noteq> 2 + j"
      with False have "2 + j < ?i" by simp
      with f have "flags (?fs ! (2 + j)) \<noteq> FILE_AVAIL" "2 + j < 8" by auto
      with c [of "2 + j"] show False by simp
    qed
  qed
qed

lemma open_dot:
  assumes t: "tester {2..<2 + j} msgs lits s" and m: "''.'' \<in> msgs" and j: "j < 6"
  shows "\<exists>r t. ece391_open (lits ''.'') s = Some (r, t) \<and> r \<noteq> minus_one \<and> tester {2..<2 + Suc j} msgs lits t \<and> shown t = shown s"
proof -
  let ?fs = "cur_files (in_kernel s)"
  obtain d where d: "entry_of (in_kernel s) (lit ''.'') = Some d" "filetype d = 1"
    using t by (auto simp: tester_def test_dir_def)
  have so: "slots_open {2..<2 + j} s" using t by (simp add: tester_def)
  have free: "free_slot ?fs 2 = 2 + j" using slots_free [OF so] j by simp
  let ?gs = "?fs[2 + j := opened_as DirectoryOps (dentry_inode d)]"
  have lit: "cstr (mem s) (lits ''.'') (lit ''.'')" "lits ''.'' \<noteq> 0" using tester_literal [OF t m] by simp_all
  have op: "ece391_open (lits ''.'') s = Some (of_nat (2 + j), after_call s 1 [] ?gs)"
    using open_call [OF lit _ _ d(1) _ free, of 1] d(2) j by simp
  have l8: "length ?fs = 8" using so by (simp add: slots_open_def Let_def)
  have "slots_open {2..<2 + Suc j} (after_call s 1 [] ?gs)"
    using so j by (auto simp: slots_open_def Let_def nth_list_update opened_as_def FILE_OCCUP_def FILE_AVAIL_def)
  note v = tester_files [OF t this refl]
  have "?gs ! 1 = ?fs ! 1" by simp
  with op v l8 small_word(1) [of "2 + j"] j show ?thesis by auto
qed

lemma open_full:
  assumes t: "tester {2..<2 + 6} msgs lits s" and m: "''.'' \<in> msgs"
  shows "ece391_open (lits ''.'') s = Some (minus_one, refused s)"
proof -
  have lit: "cstr (mem (in_kernel s)) (lits ''.'') (lit ''.'')" "lits ''.'' \<noteq> 0" using tester_literal [OF t m] by simp_all
  obtain d where d: "entry_of (in_kernel s) (lit ''.'') = Some d" "filetype d = 1"
    using t by (auto simp: tester_def test_dir_def)
  have so: "slots_open {2..<2 + 6} s" using t by (simp add: tester_def)
  have look: "read_dentry_by_name (lits ''.'') (in_kernel s) = Some d" using lookup_entry [OF lit] d(1) by simp
  have "file_open (lits ''.'') (in_kernel s) = Some (minus_one, in_kernel s)"
    using file_open_cases [OF lit(1)] slots_free [OF so] by (simp add: look lit(2) Let_def)
  then have "sys_open (lits ''.'') (in_kernel s) = Some (minus_one, in_kernel s)"
    using d(2) by (simp add: sys_open_def look directory_open_def FILE_TYPE_DIR_def)
  then show ?thesis by (simp add: ece391_calls resumed_refused)
qed

lemma open_lots_counts:
  "tester {2..<2 + j} msgs lits s \<Longrightarrow> ''.'' \<in> msgs \<Longrightarrow> j + n = 7 \<Longrightarrow> 0 < n \<Longrightarrow>
   \<exists>t. open_lots lits n cnt s = Some (cnt + 1, t) \<and> tester {2..<8} msgs lits t \<and> shown t = shown s"
proof (induction n arbitrary: j s)
  case (Suc n)
  show ?case
  proof (cases "n = 0")
    case True
    then have "j = 6" using Suc.prems(3) by simp
    then have t: "tester {2..<2 + 6} msgs lits s" using Suc.prems(1) by blast
    from open_full [OF t Suc.prems(2)] tester_refused [OF t] True show ?thesis by simp
  next
    case False
    then have "j < 6" using Suc.prems(3) by simp
    from open_dot [OF Suc.prems(1,2) this]
    obtain r u where u: "ece391_open (lits ''.'') s = Some (r, u)" "r \<noteq> minus_one" "tester {2..<2 + Suc j} msgs lits u" "shown u = shown s"
      by blast
    have "Suc j + n = 7" "0 < n" using Suc.prems(3) False by simp_all
    from Suc.IH [OF u(3) Suc.prems(2) this] u show ?thesis by auto
  qed
qed simp

lemma close_dir:
  assumes t: "tester D msgs lits s" and i: "i \<in> D" "2 \<le> i" "i < 8"
  shows "\<exists>t. ece391_close (of_nat i) s = Some (0, t) \<and> tester (D - {i}) msgs lits t \<and> shown t = shown s"
proof -
  let ?fs = "cur_files (in_kernel s)" and ?gs = "(cur_files (in_kernel s))[i := blank (in_kernel s)]"
  have so: "slots_open D s" and b: "flags (blank (in_kernel s)) = FILE_AVAIL" using t by (simp_all add: tester_def)
  have u: "unat (of_nat i :: u32) = i" using i(3) by (simp add: unat_of_nat)
  have f: "flags (?fs ! i) \<noteq> FILE_AVAIL" "file_ops_table_ptr (?fs ! i) = DirectoryOps" "length ?fs = 8"
    using so i by (auto simp: slots_open_def Let_def)
  have "sys_close (of_nat i) (in_kernel s) = Some (0, set_files ?gs (in_kernel s))"
    using f i by (simp add: sys_close_def fd_valid_low u directory_close_def file_close_eq)
  then have cl: "ece391_close (of_nat i) s = Some (0, after_call s 1 [] ?gs)"
    by (simp add: ece391_calls resumed_def after_call_def)
  have "slots_open (D - {i}) (after_call s 1 [] ?gs)"
    using so i b by (auto simp: slots_open_def Let_def nth_list_update)
  note v = tester_files [OF t this refl]
  have "?gs ! 1 = ?fs ! 1" using i(2) by simp
  with cl v f(3) show ?thesis by simp
qed

lemma close_each_closes:
  "tester D msgs lits s \<Longrightarrow> set is \<subseteq> D \<inter> {2..<8} \<Longrightarrow> distinct is \<Longrightarrow>
   \<exists>t. close_each is s = Some t \<and> tester (D - set is) msgs lits t \<and> shown t = shown s"
proof (induction "is" arbitrary: D s)
  case (Cons i "is")
  then have "i \<in> D" "2 \<le> i" "i < 8" by auto
  from close_dir [OF Cons.prems(1) this]
  obtain u where u: "ece391_close (of_nat i) s = Some (0, u)" "tester (D - {i}) msgs lits u" "shown u = shown s" by blast
  have "set is \<subseteq> (D - {i}) \<inter> {2..<8}" "distinct is" using Cons.prems(2,3) by auto
  from Cons.IH [OF u(2) this]
  obtain t where t: "close_each is u = Some t" "tester (D - {i} - set is) msgs lits t" "shown t = shown u" by blast
  have "D - set (i # is) = D - {i} - set is" by auto
  with t u(1,3) show ?case by (simp del: set_simps)
qed simp

lemma passes_open_lots:
  assumes t: "tester {} msgs lits s" and m: "{''.'', line ''err_open_lots: PASS''} \<subseteq> msgs"
  shows "passes msgs lits (err_open_lots lits) (line ''err_open_lots: PASS'') s"
proof -
  have "tester {2..<2 + 0} msgs lits s" using t by simp
  from open_lots_counts [OF this, of 7 0] m
  obtain u where u: "open_lots lits 7 0 s = Some (1, u)" "tester {2..<8} msgs lits u" "shown u = shown s" by auto
  have "set [2..<8] \<subseteq> {2..<8} \<inter> {2..<8 :: nat}" "distinct [2..<8]" "{2..<8} - set [2..<8] = ({} :: nat set)"
    unfolding set_upt by simp_all
  with close_each_closes [OF u(2), of "[2..<8]"]
  obtain v where v: "close_each [2..<8] u = Some v" "tester {} msgs lits v" "shown v = shown u" by metis
  have pv: "prog_ok v" "literals msgs lits {} v" using v(2) by (simp_all add: tester_def)
  have "err_open_lots lits s = quit lits (line ''err_open_lots: PASS'') 0 v"
    by (simp only: err_open_lots_def u(1) v(1) bind.bind_lunit prod.case simp_thms if_True)
  then have "err_open_lots lits s = Some (0, put_text (lit (line ''err_open_lots: PASS'')) v)"
    using say_literal [OF pv] m by (simp add: quit_def say_to_def)
  then show ?thesis
    using tester_put_text [OF v(2)] prog_ok_put_text(3) [OF pv(1)] u(3) v(3) by (auto simp: passes_def)
qed

text \<open>A loop of refusals.\<close>

lemma check_each_refused:
  "tester {} msgs lits s \<Longrightarrow>
   (\<And>i u. i \<in> set is \<Longrightarrow> tester {} msgs lits u \<Longrightarrow> call (of_nat i) u = Some (minus_one, refused u)) \<Longrightarrow>
   \<exists>t. check_each lits msg call is fail s = Some (fail, t) \<and> tester {} msgs lits t \<and> shown t = shown s"
proof (induction "is" arbitrary: s)
  case (Cons i "is")
  have "call (of_nat i) s = Some (minus_one, refused s)" using Cons.prems by simp
  with Cons.IH [OF tester_refused [OF Cons.prems(1)]] Cons.prems(2) show ?case by simp
qed simp

lemma passes_unopened:
  assumes t: "tester {} msgs lits s" and m: "line ''err_unopened: PASS'' \<in> msgs"
  shows "passes msgs lits (err_unopened lits buf) (line ''err_unopened: PASS'') s"
proof -
  have so: "slots_open {} u" if "tester {} msgs lits u" for u :: "'a kernel_scheme" using that by (simp add: tester_def)
  have r: "i \<in> set [0..<8] \<Longrightarrow> tester {} msgs lits u \<Longrightarrow> ece391_close (of_nat i) u = Some (minus_one, refused u)"
    "i \<in> set [2..<8] \<Longrightarrow> tester {} msgs lits u \<Longrightarrow> ece391_read (of_nat i) buf 31 u = Some (minus_one, refused u)"
    "i \<in> set [2..<8] \<Longrightarrow> tester {} msgs lits u \<Longrightarrow> ece391_write (of_nat i) buf 31 u = Some (minus_one, refused u)"
    for i and u :: "'a kernel_scheme"
    unfolding set_upt using unopened_refused [OF so, of u i] by simp_all
  obtain u where u: "check_each lits ''close unopened or invalid fd fail'' ece391_close [0..<8] 0 s = Some (0, u)"
    "tester {} msgs lits u" "shown u = shown s"
    using check_each_refused [where call = "ece391_close", OF t r(1)] by blast
  obtain v where v: "check_each lits ''read from unopened fd fail'' (\<lambda>i. ece391_read i buf 31) [2..<8] 0 u = Some (0, v)"
    "tester {} msgs lits v" "shown v = shown u"
    using check_each_refused [where call = "\<lambda>i. ece391_read i buf 31", OF u(2) r(2)] by blast
  obtain w where w: "check_each lits ''write to unopened fd fail'' (\<lambda>i. ece391_write i buf 31) [2..<8] 0 v = Some (0, w)"
    "tester {} msgs lits w" "shown w = shown v"
    using check_each_refused [where call = "\<lambda>i. ece391_write i buf 31", OF v(2) r(3)] by blast
  have "shown w = shown s" using u v w by simp
  then show ?thesis
    using verdict_passes [OF w(2), of "''err_unopened''" s "err_unopened lits buf"] u(1) v(1) w(1) m
    by (simp only: err_unopened_def bind.bind_lunit prod.case append.simps)
qed

section \<open>All of them\<close>

definition pass_lines :: "string list" where
  "pass_lines = [line ''err_neg_fd: PASS'', line ''err_big_fd: PASS'', line ''err_open_lots: PASS'', line ''err_open: PASS'',
     line ''err_unopened: PASS'', line ''err_vidmap: PASS'', line ''err_stdin_out: PASS'', line ''err_syscall_num: PASS'',
     line (CHR 0x0A # ''Overall Tests: PASS'')]"

lemma all_tests_pass:
  assumes t: "tester {} msgs lits s" and m: "{''.'', ''helloo'', ''shel'', []} \<union> set pass_lines \<subseteq> msgs"
  shows "\<exists>t. all_tests regs lits buf s = Some (0, t) \<and> shown t = fold tty_putc (lit (concat pass_lines)) (shown s)"
proof -
  have pm: "x \<in> msgs" if "x \<in> set pass_lines" for x using m that by auto
  note pl = pm [unfolded pass_lines_def]
  obtain a where a: "err_neg_fd lits buf s = Some (0, a)" "tester {} msgs lits a"
    "shown a = fold tty_putc (lit (line ''err_neg_fd: PASS'')) (shown s)"
    using passes_bad_fds(1) [OF t pl, of buf] by (auto simp: passes_def)
  obtain b where b: "err_big_fd lits buf a = Some (0, b)" "tester {} msgs lits b"
    "shown b = fold tty_putc (lit (line ''err_big_fd: PASS'')) (shown a)"
    using passes_bad_fds(2) [OF a(2) pl, of buf] by (auto simp: passes_def)
  obtain c where c: "err_open_lots lits b = Some (0, c)" "tester {} msgs lits c"
    "shown c = fold tty_putc (lit (line ''err_open_lots: PASS'')) (shown b)"
    using passes_open_lots [OF b(2)] m pl by (auto simp: passes_def)
  obtain d where d: "err_open lits c = Some (0, d)" "tester {} msgs lits d"
    "shown d = fold tty_putc (lit (line ''err_open: PASS'')) (shown c)"
    using passes_open [OF c(2)] m pl by (auto simp: passes_def)
  obtain e where e: "err_unopened lits buf d = Some (0, e)" "tester {} msgs lits e"
    "shown e = fold tty_putc (lit (line ''err_unopened: PASS'')) (shown d)"
    using passes_unopened [OF d(2) pl, of buf] by (auto simp: passes_def)
  obtain f where f: "err_vidmap lits e = Some (0, f)" "tester {} msgs lits f"
    "shown f = fold tty_putc (lit (line ''err_vidmap: PASS'')) (shown e)"
    using passes_vidmap [OF e(2) pl] by (auto simp: passes_def)
  obtain g where g: "err_stdin_out lits buf f = Some (0, g)" "tester {} msgs lits g"
    "shown g = fold tty_putc (lit (line ''err_stdin_out: PASS'')) (shown f)"
    using passes_stdin_out [OF f(2) pl, of buf] by (auto simp: passes_def)
  obtain h where h: "err_syscall_num regs lits g = Some (0, h)" "tester {} msgs lits h"
    "shown h = fold tty_putc (lit (line ''err_syscall_num: PASS'')) (shown g)"
    using passes_syscall_num [OF g(2) pl, of regs] by (auto simp: passes_def)
  have ph: "prog_ok h" "literals msgs lits {} h" using h(2) by (simp_all add: tester_def)
  let ?fin = "line (CHR 0x0A # ''Overall Tests: PASS'')"
  have "ece391_fdputs 1 (lits ?fin) h = Some (put_text (lit ?fin) h)"
    by (rule say_literal [OF ph pl]) simp
  then have "all_tests regs lits buf s = Some (0, put_text (lit ?fin) h)"
    by (simp add: all_tests_def a(1) b(1) c(1) d(1) e(1) f(1) g(1) h(1) say_to_def)
  moreover have "shown (put_text (lit ?fin) h) = fold tty_putc (lit (concat pass_lines)) (shown s)"
    unfolding prog_ok_put_text(3) [OF ph(1)] h(3) g(3) f(3) e(3) d(3) c(3) b(3) a(3)
    by (simp only: pass_lines_def concat.simps map_append fold_append comp_apply append_Nil2 list.map)
  ultimately show ?thesis by blast
qed

end
