(* ===== verification/Blink.thy ===== *)
theory Blink
  imports Usercalls
begin

text \<open>
  The blinking characters of \<open>fish\<close>: \<^verbatim>\<open>fish/blink.S\<close> with the allocator and the copies of
  \<^verbatim>\<open>fish/fish.c\<close> it calls. They live in an array of 2000 structures, linked into a list from
  \<open>mp1_list_head\<close>; the list in memory is shown to implement a list of records.
\<close>

section \<open>The code\<close>

text \<open>The addresses the linker chooses, and the offsets of \<open>struct mp1_blink_struct\<close>.\<close>

record fish_syms =
  blink_array :: u32
  mp1_list_head :: u32
  vmem_base_addr :: u32

definition LOCATION :: u32 where "LOCATION = 0"
definition ON_CHAR :: u32 where "ON_CHAR = 2"
definition OFF_CHAR :: u32 where "OFF_CHAR = 3"
definition ON_LENGTH :: u32 where "ON_LENGTH = 4"
definition OFF_LENGTH :: u32 where "OFF_LENGTH = 6"
definition COUNTDOWN :: u32 where "COUNTDOWN = 8"
definition STATUS :: u32 where "STATUS = 10"
definition NEXT :: u32 where "NEXT = 12"
definition STRUCT_SIZE :: u32 where "STRUCT_SIZE = 16"

lemmas blink_offsets = LOCATION_def ON_CHAR_def OFF_CHAR_def ON_LENGTH_def OFF_LENGTH_def COUNTDOWN_def STATUS_def
  NEXT_def STRUCT_SIZE_def

definition RTC_ADD :: u32 where "RTC_ADD = 0"
definition RTC_REMOVE :: u32 where "RTC_REMOVE = 1"
definition RTC_FIND :: u32 where "RTC_FIND = 2"
definition RTC_SYNC :: u32 where "RTC_SYNC = 3"

lemmas blink_commands = RTC_ADD_def RTC_REMOVE_def RTC_FIND_def RTC_SYNC_def

definition load16 :: "(u32 \<Rightarrow> u8) \<Rightarrow> u32 \<Rightarrow> u16" where
  "load16 m a = ucast (m a) OR push_bit 8 (ucast (m (a + 1)))"

definition store16 :: "(u32 \<Rightarrow> u8) \<Rightarrow> u32 \<Rightarrow> u16 \<Rightarrow> (u32 \<Rightarrow> u8)" where
  "store16 m a v = m(a := ucast v, a + 1 := ucast (drop_bit 8 v))"

subsection \<open>fish.c\<close>

text \<open>The indices are signed.\<close>

function ece391_memset_loop :: "(u32 \<Rightarrow> u8) \<Rightarrow> u32 \<Rightarrow> u8 \<Rightarrow> u32 \<Rightarrow> u32 \<Rightarrow> (u32 \<Rightarrow> u8)" where
  "ece391_memset_loop m memory c n i =
     (if i <s n then ece391_memset_loop (m(memory + i := c)) memory c n (i + 1) else m)"
  by pat_completeness auto
termination
  by (relation "measure (\<lambda>(m, memory, c, n, i). nat (sint n - sint i))") (use less_measure in auto)

function ece391_memcpy_loop :: "(u32 \<Rightarrow> u8) \<Rightarrow> u32 \<Rightarrow> u32 \<Rightarrow> u32 \<Rightarrow> u32 \<Rightarrow> (u32 \<Rightarrow> u8)" where
  "ece391_memcpy_loop m d s n i =
     (if i <s n then ece391_memcpy_loop (m(d + i := m (s + i))) d s n (i + 1) else m)"
  by pat_completeness auto
termination
  by (relation "measure (\<lambda>(m, d, s, n, i). nat (sint n - sint i))") (use less_measure in auto)

declare ece391_memset_loop.simps [simp del] ece391_memcpy_loop.simps [simp del]

definition ece391_memset :: "(u32 \<Rightarrow> u8) \<Rightarrow> u32 \<Rightarrow> u8 \<Rightarrow> u32 \<Rightarrow> (u32 \<Rightarrow> u8)" where
  "ece391_memset m memory c n = ece391_memset_loop m memory c n 0"

definition ece391_memcpy :: "(u32 \<Rightarrow> u8) \<Rightarrow> u32 \<Rightarrow> u32 \<Rightarrow> u32 \<Rightarrow> u32 \<times> (u32 \<Rightarrow> u8)" where
  "ece391_memcpy m dest src n = (0, ece391_memcpy_loop m dest src n 0)"

text \<open>An element of the array is free when its location is 0.\<close>

definition blink_slot :: "fish_syms \<Rightarrow> nat \<Rightarrow> u32" where
  "blink_slot sy i = blink_array sy + of_nat (16 * i)"

definition mp1_malloc :: "fish_syms \<Rightarrow> (u32 \<Rightarrow> u8) \<Rightarrow> u32" where
  "mp1_malloc sy m =
     (case find (\<lambda>i. load16 m (blink_slot sy i + LOCATION) = 0) [0..<80 * 25] of
       Some i \<Rightarrow> blink_slot sy i | None \<Rightarrow> 0)"

definition mp1_free :: "(u32 \<Rightarrow> u8) \<Rightarrow> u32 \<Rightarrow> (u32 \<Rightarrow> u8)" where
  "mp1_free m memory = ece391_memset m memory 0 STRUCT_SIZE"

subsection \<open>blink.S\<close>

text \<open>An address of the page \<open>vidmap\<close> maps is one of the screen.\<close>

definition user_addr :: "u32 \<Rightarrow> u32" where
  "user_addr a = (if PAGE_VIDMEM \<le> a \<and> a < PAGE_VIDMEM + 0x1000 then VIDEO + (a - PAGE_VIDMEM) else a)"

definition mp1_poke :: "fish_syms \<Rightarrow> (u32 \<Rightarrow> u8) \<Rightarrow> u32 \<Rightarrow> u8 \<Rightarrow> (u32 \<Rightarrow> u8)" where
  "mp1_poke sy m eax cl = m(user_addr (load32 m (vmem_base_addr sy) + eax) := cl)"

text \<open>The body of the loop, and the loop.\<close>

definition tasklet_one :: "fish_syms \<Rightarrow> (u32 \<Rightarrow> u8) \<Rightarrow> u32 \<Rightarrow> (u32 \<Rightarrow> u8)" where
  "tasklet_one sy m ebx =
     (let m = store16 m (ebx + COUNTDOWN) (load16 m (ebx + COUNTDOWN) - 1) in
      if 0 <s load16 m (ebx + COUNTDOWN) then m
      else
        let eax = push_bit 1 (ucast (load16 m (ebx + LOCATION)));
            (m, dx) =
              (if load16 m (ebx + STATUS) AND 1 \<noteq> 0
               then let m = mp1_poke sy m eax (m (ebx + OFF_CHAR)) in (m, load16 m (ebx + OFF_LENGTH))
               else let m = mp1_poke sy m eax (m (ebx + ON_CHAR)) in (m, load16 m (ebx + ON_LENGTH)));
            m = store16 m (ebx + COUNTDOWN) dx
        in store16 m (ebx + STATUS) (load16 m (ebx + STATUS) XOR 1))"

partial_function (option) tasklet_loop :: "fish_syms \<Rightarrow> (u32 \<Rightarrow> u8) \<Rightarrow> u32 \<Rightarrow> (u32 \<Rightarrow> u8) option" where
  "tasklet_loop sy m ebx =
     (if ebx = 0 then Some m
      else let m = tasklet_one sy m ebx in tasklet_loop sy m (load32 m (ebx + NEXT)))"

definition mp1_rtc_tasklet :: "fish_syms \<Rightarrow> (u32 \<Rightarrow> u8) \<Rightarrow> (u32 \<Rightarrow> u8) option" where
  "mp1_rtc_tasklet sy m = tasklet_loop sy m (load32 m (mp1_list_head sy))"

text \<open>\<open>tmp\<close> is the structure on the stack.\<close>

definition mp1_ioctl_add :: "fish_syms \<Rightarrow> u32 \<Rightarrow> (u32 \<Rightarrow> u8) \<Rightarrow> u32 \<Rightarrow> u32 \<times> (u32 \<Rightarrow> u8)" where
  "mp1_ioctl_add sy tmp m arg =
     (let (r, m) = ece391_memcpy m tmp arg STRUCT_SIZE in
      if r \<noteq> 0 then (minus_one, m)
      else if load16 m (tmp + LOCATION) \<ge> 80 * 25 then (minus_one, m)
      else
        let m = store16 m (tmp + STATUS) 1;
            m = store16 m (tmp + COUNTDOWN) (load16 m (tmp + ON_LENGTH));
            edx = mp1_malloc sy m
        in if edx = 0 then (minus_one, m)
        else
          let (_, m) = ece391_memcpy m edx tmp STRUCT_SIZE;
              m = store32 m (edx + NEXT) (load32 m (mp1_list_head sy));
              m = store32 m (mp1_list_head sy) edx;
              eax = push_bit 1 (ucast (load16 m (edx + LOCATION)))
          in (0, mp1_poke sy m eax (m (edx + ON_CHAR))))"

partial_function (option) find_helper_loop :: "(u32 \<Rightarrow> u8) \<Rightarrow> u16 \<Rightarrow> u32 \<Rightarrow> u32 option" where
  "find_helper_loop m ax ebx =
     (if ebx = 0 then Some 0
      else if load16 m (ebx + LOCATION) = ax then Some ebx
      else find_helper_loop m ax (load32 m (ebx + NEXT)))"

definition mp1_find_helper :: "fish_syms \<Rightarrow> (u32 \<Rightarrow> u8) \<Rightarrow> u32 \<Rightarrow> u32 option" where
  "mp1_find_helper sy m arg = find_helper_loop m (ucast arg) (load32 m (mp1_list_head sy))"

partial_function (option) remove_find_prev :: "(u32 \<Rightarrow> u8) \<Rightarrow> u32 \<Rightarrow> u32 \<Rightarrow> u32 option" where
  "remove_find_prev m eax edx =
     (if eax = load32 m edx then Some edx else remove_find_prev m eax (load32 m edx + NEXT))"

definition mp1_ioctl_remove :: "fish_syms \<Rightarrow> (u32 \<Rightarrow> u8) \<Rightarrow> u32 \<Rightarrow> (u32 \<times> (u32 \<Rightarrow> u8)) option" where
  "mp1_ioctl_remove sy m arg = do {
     eax \<leftarrow> mp1_find_helper sy m arg;
     if eax = 0 then Some (minus_one, m)
     else do {
       edx \<leftarrow> remove_find_prev m eax (mp1_list_head sy);
       let m = store32 m edx (load32 m (eax + NEXT));
       Some (0, mp1_free m eax) } }"

text \<open>\<^verbatim>\<open>cmovl\<close> moves when the result of the \<^verbatim>\<open>testb\<close> before it is negative.\<close>

definition mp1_ioctl_sync :: "fish_syms \<Rightarrow> (u32 \<Rightarrow> u8) \<Rightarrow> u32 \<Rightarrow> (u32 \<times> (u32 \<Rightarrow> u8)) option" where
  "mp1_ioctl_sync sy m arg = do {
     esi \<leftarrow> mp1_find_helper sy m (drop_bit 16 arg);
     if esi = 0 then Some (minus_one, m)
     else do {
       edi \<leftarrow> mp1_find_helper sy m (arg AND 0xFFFF);
       if edi = 0 then Some (minus_one, m)
       else do {
         let m = store16 m (edi + ON_LENGTH) (load16 m (esi + ON_LENGTH));
         let m = store16 m (edi + OFF_LENGTH) (load16 m (esi + OFF_LENGTH));
         let m = store16 m (edi + COUNTDOWN) (load16 m (esi + COUNTDOWN));
         let m = store16 m (edi + STATUS) (load16 m (esi + STATUS));
         let eax = push_bit 1 (ucast (load16 m (edi + LOCATION)));
         let cl = (if m (edi + STATUS) AND 1 <s 0 then m (edi + ON_CHAR) else m (edi + OFF_CHAR));
         Some (0, mp1_poke sy m eax cl) } } }"

text \<open>\<open>tmp\<close> is the word below the frame; \<open>mp1_find_helper\<close> is called with it zero-extended.\<close>

definition mp1_ioctl_find :: "fish_syms \<Rightarrow> u32 \<Rightarrow> (u32 \<Rightarrow> u8) \<Rightarrow> u32 \<Rightarrow> (u32 \<times> (u32 \<Rightarrow> u8)) option" where
  "mp1_ioctl_find sy tmp m arg =
     (let (r, m) = ece391_memcpy m tmp arg 2 in
      if r \<noteq> 0 then Some (minus_one, m)
      else do {
        eax \<leftarrow> mp1_find_helper sy m (ucast (load16 m tmp));
        if eax = 0 then Some (minus_one, m)
        else
          let (r, m) = ece391_memcpy m arg eax STRUCT_SIZE in
          Some (if r = 0 then 0 else minus_one, m) })"

text \<open>The jump through \<open>call_table\<close>; a command outside it jumps wherever the bytes behind the table say.\<close>

definition mp1_ioctl :: "fish_syms \<Rightarrow> u32 \<Rightarrow> (u32 \<Rightarrow> u8) \<Rightarrow> u32 \<Rightarrow> u32 \<Rightarrow> (u32 \<times> (u32 \<Rightarrow> u8)) option" where
  "mp1_ioctl sy tmp m arg cmd =
     (if cmd = RTC_ADD then Some (mp1_ioctl_add sy tmp m arg)
      else if cmd = RTC_REMOVE then mp1_ioctl_remove sy m arg
      else if cmd = RTC_FIND then mp1_ioctl_find sy tmp m arg
      else if cmd = RTC_SYNC then mp1_ioctl_sync sy m arg
      else None)"

section \<open>A structure in memory\<close>

record blink =
  location :: u16
  on_char :: u8
  off_char :: u8
  on_length :: u16
  off_length :: u16
  countdown :: u16
  status :: u16

definition blink_at :: "(u32 \<Rightarrow> u8) \<Rightarrow> u32 \<Rightarrow> blink" where
  "blink_at m p = \<lparr>location = load16 m (p + LOCATION), on_char = m (p + ON_CHAR), off_char = m (p + OFF_CHAR),
     on_length = load16 m (p + ON_LENGTH), off_length = load16 m (p + OFF_LENGTH),
     countdown = load16 m (p + COUNTDOWN), status = load16 m (p + STATUS)\<rparr>"

lemma blink_reads:
  "load16 m (p + LOCATION) = location (blink_at m p)" "m (p + ON_CHAR) = on_char (blink_at m p)"
  "m (p + OFF_CHAR) = off_char (blink_at m p)" "load16 m (p + ON_LENGTH) = on_length (blink_at m p)"
  "load16 m (p + OFF_LENGTH) = off_length (blink_at m p)" "load16 m (p + COUNTDOWN) = countdown (blink_at m p)"
  "load16 m (p + STATUS) = status (blink_at m p)"
  by (simp_all add: blink_at_def)

lemma load16_store16 [simp]: "load16 (store16 m a v) a = v"
proof (rule bit_word_eqI)
  fix n assume "n < LENGTH(16)"
  then consider "n < 8" | "8 \<le> n" "n < 16" by fastforce
  then show "bit (load16 (store16 m a v) a) n = bit v n"
    by cases (auto simp: load16_def store16_def bit_simps)
qed

lemma store16_other: "b \<notin> rng a 2 \<Longrightarrow> store16 m a v b = m b"
  by (auto simp: store16_def numeral_eq_Suc rng_Suc)

lemma blink_at_cong:
  assumes "\<And>b. b \<in> rng p 12 \<Longrightarrow> m b = m' b"
  shows "blink_at m p = blink_at m' p"
proof -
  have "m (p + of_nat i) = m' (p + of_nat i)" if "i < 12" for i using assms that by (auto simp: rng_def)
  from this [of 0] this [of 1] this [of 2] this [of 3] this [of 4] this [of 5] this [of 6] this [of 7]
    this [of 8] this [of 9] this [of 10] this [of 11]
  show ?thesis by (simp add: blink_at_def load16_def blink_offsets add.assoc)
qed

lemma blink_at_store:
  "blink_at (store16 m (p + ON_LENGTH) v) p = (blink_at m p)\<lparr>on_length := v\<rparr>"
  "blink_at (store16 m (p + OFF_LENGTH) v) p = (blink_at m p)\<lparr>off_length := v\<rparr>"
  "blink_at (store16 m (p + COUNTDOWN) v) p = (blink_at m p)\<lparr>countdown := v\<rparr>"
  "blink_at (store16 m (p + STATUS) v) p = (blink_at m p)\<lparr>status := v\<rparr>"
proof -
  have "load16 (store16 m (p + k) v) (p + k) = v" for k by simp
  from this [of ON_LENGTH] this [of OFF_LENGTH] this [of COUNTDOWN] this [of STATUS]
  show "blink_at (store16 m (p + ON_LENGTH) v) p = (blink_at m p)\<lparr>on_length := v\<rparr>"
    "blink_at (store16 m (p + OFF_LENGTH) v) p = (blink_at m p)\<lparr>off_length := v\<rparr>"
    "blink_at (store16 m (p + COUNTDOWN) v) p = (blink_at m p)\<lparr>countdown := v\<rparr>"
    "blink_at (store16 m (p + STATUS) v) p = (blink_at m p)\<lparr>status := v\<rparr>"
    by (simp_all add: blink_at_def load16_def store16_def blink_offsets add.assoc)
qed

lemma memcpy_loop_bcopy:
  "k < 2 ^ 31 \<Longrightarrow> i \<le> k \<Longrightarrow> ece391_memcpy_loop m d s (of_nat k) (of_nat i) = bcopy m (d + of_nat i) (s + of_nat i) (k - i)"
proof (induction "k - i" arbitrary: m i)
  case 0
  then show ?case by (subst ece391_memcpy_loop.simps) (simp add: word_sless_alt sint_of_nat)
next
  case (Suc n)
  then have i: "i < k" by simp
  then have "(of_nat i :: u32) <s of_nat k" using Suc.prems by (simp add: word_sless_alt sint_of_nat)
  then have "ece391_memcpy_loop m d s (of_nat k) (of_nat i) =
      ece391_memcpy_loop (m(d + of_nat i := m (s + of_nat i))) d s (of_nat k) (of_nat (Suc i))"
    by (subst ece391_memcpy_loop.simps) (simp add: add.commute)
  also have "\<dots> = bcopy (m(d + of_nat i := m (s + of_nat i))) (d + of_nat (Suc i)) (s + of_nat (Suc i)) (k - Suc i)"
    using Suc.hyps(1) [of "Suc i"] Suc.hyps(2) Suc.prems i by simp
  also have "\<dots> = bcopy m (d + of_nat i) (s + of_nat i) (k - i)"
    using i by (simp add: Suc_diff_Suc [symmetric] ac_simps del: Suc_diff_Suc)
  finally show ?case .
qed

lemma memset_loop_store:
  "k < 2 ^ 31 \<Longrightarrow> i \<le> k \<Longrightarrow>
   ece391_memset_loop m a c (of_nat k) (of_nat i) = store_bytes m (a + of_nat i) (replicate (k - i) c)"
proof (induction "k - i" arbitrary: m i)
  case 0
  then show ?case by (subst ece391_memset_loop.simps) (simp add: word_sless_alt sint_of_nat)
next
  case (Suc n)
  then have i: "i < k" by simp
  then have "(of_nat i :: u32) <s of_nat k" using Suc.prems by (simp add: word_sless_alt sint_of_nat)
  then have "ece391_memset_loop m a c (of_nat k) (of_nat i) =
      ece391_memset_loop (m(a + of_nat i := c)) a c (of_nat k) (of_nat (Suc i))"
    by (subst ece391_memset_loop.simps) (simp add: add.commute)
  also have "\<dots> = store_bytes (m(a + of_nat i := c)) (a + of_nat (Suc i)) (replicate (k - Suc i) c)"
    using Suc.hyps(1) [of "Suc i"] Suc.hyps(2) Suc.prems i by simp
  also have "\<dots> = store_bytes m (a + of_nat i) (replicate (k - i) c)"
    using i by (simp add: Suc_diff_Suc [symmetric] ac_simps del: Suc_diff_Suc)
  finally show ?case .
qed

lemma memcpy_struct:
  assumes "rng d 16 \<inter> rng s 16 = {}"
  shows "ece391_memcpy m d s STRUCT_SIZE = (0, store_bytes m d (bytes_at m s 16))"
  using memcpy_loop_bcopy [of 16 0 m d s] bcopy_disjoint [OF assms] by (simp add: ece391_memcpy_def STRUCT_SIZE_def)

lemma memcpy_short:
  assumes "rng d 2 \<inter> rng s 2 = {}"
  shows "ece391_memcpy m d s 2 = (0, store_bytes m d (bytes_at m s 2))"
  using memcpy_loop_bcopy [of 2 0 m d s] bcopy_disjoint [OF assms] by (simp add: ece391_memcpy_def)

lemma mp1_free_zeros: "mp1_free m p = store_bytes m p (replicate 16 0)"
  using memset_loop_store [of 16 0 m p 0] by (simp add: mp1_free_def ece391_memset_def STRUCT_SIZE_def)

lemma copied_struct:
  assumes "bytes_at m' p 16 = bytes_at m q 16"
  shows "blink_at m' p = blink_at m q"
proof -
  have "m' (p + of_nat i) = m (q + of_nat i)" if "i < 16" for i
    using that bytes_at_nth [of i 16 m' p] bytes_at_nth [of i 16 m q] assms by simp
  from this [of 0] this [of 1] this [of 2] this [of 3] this [of 4] this [of 5] this [of 6] this [of 7]
    this [of 8] this [of 9] this [of 10] this [of 11]
  show ?thesis by (simp add: blink_at_def load16_def blink_offsets add.assoc)
qed

section \<open>The list in memory\<close>

text \<open>The list from \<open>p\<close> on goes through the elements \<open>is\<close> of the array.\<close>

fun chain :: "fish_syms \<Rightarrow> (u32 \<Rightarrow> u8) \<Rightarrow> u32 \<Rightarrow> nat list \<Rightarrow> bool" where
  "chain sy m p [] \<longleftrightarrow> p = 0"
| "chain sy m p (i # is) \<longleftrightarrow> p = blink_slot sy i \<and> chain sy m (load32 m (p + NEXT)) is"

text \<open>The variables of the program, apart from one another and from the screen.\<close>

definition fish_own :: "fish_syms \<Rightarrow> u32 set" where
  "fish_own sy = rng (blink_array sy) 32000 \<union> rng (mp1_list_head sy) 4 \<union> rng (vmem_base_addr sy) 4"

definition fish_layout :: "fish_syms \<Rightarrow> bool" where
  "fish_layout sy \<longleftrightarrow> blink_array sy \<noteq> 0 \<and> unat (blink_array sy) + 32000 \<le> 2 ^ 32 \<and>
     rng (blink_array sy) 32000 \<inter> rng (mp1_list_head sy) 4 = {} \<and>
     rng (blink_array sy) 32000 \<inter> rng (vmem_base_addr sy) 4 = {} \<and>
     rng (mp1_list_head sy) 4 \<inter> rng (vmem_base_addr sy) 4 = {} \<and> fish_own sy \<inter> rng VIDEO 4000 = {}"

text \<open>The elements in the list are those with a location, and show on the screen.\<close>

definition blink_heap :: "fish_syms \<Rightarrow> (u32 \<Rightarrow> u8) \<Rightarrow> nat list \<Rightarrow> bool" where
  "blink_heap sy m is \<longleftrightarrow> chain sy m (load32 m (mp1_list_head sy)) is \<and> distinct is \<and> set is \<subseteq> {..<2000} \<and>
     (\<forall>i < 2000. location (blink_at m (blink_slot sy i)) = 0 \<longleftrightarrow> i \<notin> set is) \<and>
     (\<forall>i \<in> set is. location (blink_at m (blink_slot sy i)) < 2000) \<and> load32 m (vmem_base_addr sy) = PAGE_VIDMEM"

definition blinks :: "fish_syms \<Rightarrow> (u32 \<Rightarrow> u8) \<Rightarrow> nat list \<Rightarrow> blink list" where
  "blinks sy m is = map (\<lambda>i. blink_at m (blink_slot sy i)) is"

lemma slot_unat:
  assumes "fish_layout sy" "i < 2000"
  shows "unat (blink_slot sy i) = unat (blink_array sy) + 16 * i" "unat (blink_slot sy i) + 16 \<le> 2 ^ 32"
proof -
  have "unat (blink_array sy) + 16 * i < 2 ^ 32" using assms by (auto simp: fish_layout_def)
  then show "unat (blink_slot sy i) = unat (blink_array sy) + 16 * i"
    unfolding blink_slot_def by (rule unat_add_nat)
  then show "unat (blink_slot sy i) + 16 \<le> 2 ^ 32" using assms by (auto simp: fish_layout_def)
qed

lemma slot_nonzero: "fish_layout sy \<Longrightarrow> i < 2000 \<Longrightarrow> blink_slot sy i \<noteq> 0"
  using slot_unat(1) [of sy i] by (auto simp: fish_layout_def unat_eq_zero)

lemma slot_in_array: "i < 2000 \<Longrightarrow> rng (blink_slot sy i) 16 \<subseteq> rng (blink_array sy) 32000"
  unfolding blink_slot_def by (rule rng_shift) simp

lemma slots_disjoint:
  assumes "fish_layout sy" "i < 2000" "j < 2000" "i \<noteq> j"
  shows "rng (blink_slot sy i) 16 \<inter> rng (blink_slot sy j) 16 = {}"
proof (cases "i < j")
  case True
  then show ?thesis using slot_unat [OF assms(1,2)] slot_unat [OF assms(1,3)] by (intro rng_disjointI) auto
next
  case False
  then have "j < i" using assms(4) by simp
  then show ?thesis using slot_unat [OF assms(1,2)] slot_unat [OF assms(1,3)] by (intro rng_disjointI(2)) auto
qed

lemma slot_inj: "fish_layout sy \<Longrightarrow> i < 2000 \<Longrightarrow> j < 2000 \<Longrightarrow> blink_slot sy i = blink_slot sy j \<longleftrightarrow> i = j"
proof -
  assume l: "fish_layout sy" "i < 2000" "j < 2000"
  have "i = j" if "blink_slot sy i = blink_slot sy j"
  proof -
    have "unat (blink_array sy) + 16 * i = unat (blink_array sy) + 16 * j"
      by (rule trans [OF slot_unat(1) [OF l(1,2), symmetric] trans [OF arg_cong [OF that, of unat] slot_unat(1) [OF l(1,3)]]])
    then show ?thesis by simp
  qed
  then show ?thesis by blast
qed

text \<open>Parts of an element.\<close>

lemma struct_parts: "rng (p + COUNTDOWN) 4 \<subseteq> rng p 16" "rng (p + NEXT) 4 \<subseteq> rng p 16" "rng p 12 \<subseteq> rng p 16"
  "rng (p + COUNTDOWN) 4 \<inter> rng (p + NEXT) 4 = {}" "rng p 12 \<inter> rng (p + NEXT) 4 = {}"
proof -
  show "rng (p + COUNTDOWN) 4 \<subseteq> rng p 16" "rng (p + NEXT) 4 \<subseteq> rng p 16"
    using rng_shift [of 8 4 16 p] rng_shift [of 12 4 16 p] by (simp_all add: COUNTDOWN_def NEXT_def)
  show "rng p 12 \<subseteq> rng p 16" by (rule rng_mono) simp
  have "p + of_nat i \<noteq> p + 12 + of_nat j" if "i < 12" "j < 4" for i j
  proof -
    have "unat (of_nat i :: u32) = i" "unat (of_nat (12 + j) :: u32) = 12 + j"
      using that by (simp_all only: unat_of_nat) (simp_all add: take_bit_nat_eq_self)
    then have "(of_nat i :: u32) \<noteq> of_nat (12 + j)" using that by (metis not_add_less1)
    then show ?thesis by (auto simp: add.assoc)
  qed
  then show "rng p 12 \<inter> rng (p + NEXT) 4 = {}" by (auto simp: rng_def NEXT_def)
  moreover have "rng (p + COUNTDOWN) 4 \<subseteq> rng p 12" using rng_shift [of 8 4 12 p] by (simp add: COUNTDOWN_def)
  ultimately show "rng (p + COUNTDOWN) 4 \<inter> rng (p + NEXT) 4 = {}" by auto
qed

lemma chain_cong:
  "chain sy m p is \<Longrightarrow> (\<And>i b. i \<in> set is \<Longrightarrow> b \<in> rng (blink_slot sy i + NEXT) 4 \<Longrightarrow> m' b = m b) \<Longrightarrow> chain sy m' p is"
proof (induction "is" arbitrary: p)
  case (Cons i "is")
  have "load32 m' (blink_slot sy i + NEXT) = load32 m (blink_slot sy i + NEXT)"
    by (rule load32_cong) (rule Cons.prems(2), simp_all)
  moreover have "chain sy m' (load32 m (blink_slot sy i + NEXT)) is"
    using Cons.prems by (intro Cons.IH) auto
  ultimately show ?case using Cons.prems(1) by simp
qed simp

lemma blink_heap_same:
  assumes "\<And>b. b \<in> fish_own sy \<Longrightarrow> m' b = m b" "fish_layout sy" "blink_heap sy m is"
  shows "blink_heap sy m' is" "blinks sy m' is = blinks sy m is"
proof -
  have b: "blink_at m' (blink_slot sy i) = blink_at m (blink_slot sy i)" if "i < 2000" for i
    using slot_in_array [OF that, of sy] struct_parts(3) [of "blink_slot sy i"]
    by (intro blink_at_cong assms(1)) (auto simp: fish_own_def)
  have sub: "set is \<subseteq> {..<2000}" using assms(3) by (simp add: blink_heap_def)
  then show "blinks sy m' is = blinks sy m is" by (auto simp: blinks_def b)
  have w: "load32 m' (mp1_list_head sy) = load32 m (mp1_list_head sy)" "load32 m' (vmem_base_addr sy) = load32 m (vmem_base_addr sy)"
    by (rule load32_cong, rule assms(1), simp add: fish_own_def)+
  have "chain sy m' (load32 m (mp1_list_head sy)) is"
  proof (rule chain_cong [of _ m])
    show "m' b = m b" if "i \<in> set is" "b \<in> rng (blink_slot sy i + NEXT) 4" for i b
      using that sub slot_in_array [of i sy] struct_parts(2) [of "blink_slot sy i"]
      by (intro assms(1)) (auto simp: fish_own_def)
  qed (use assms(3) in \<open>simp add: blink_heap_def\<close>)
  then show "blink_heap sy m' is" using assms(3) sub unfolding blink_heap_def w by (auto simp: b subset_iff)
qed

section \<open>Looking for a location\<close>

lemma find_helper_chain:
  assumes "fish_layout sy"
  shows "chain sy m p is \<Longrightarrow> set is \<subseteq> {..<2000} \<Longrightarrow> find_helper_loop m ax p =
    Some (case find (\<lambda>i. location (blink_at m (blink_slot sy i)) = ax) is of Some i \<Rightarrow> blink_slot sy i | None \<Rightarrow> 0)"
proof (induction "is" arbitrary: p)
  case Nil
  then show ?case by (subst find_helper_loop.simps) simp
next
  case (Cons i "is")
  then have "p \<noteq> 0" using slot_nonzero [OF assms] by auto
  moreover have "load16 m (p + LOCATION) = location (blink_at m p)" by (simp add: blink_at_def)
  ultimately show ?case using Cons.prems Cons.IH by (subst find_helper_loop.simps) auto
qed

lemma find_helper_finds:
  assumes "fish_layout sy" "blink_heap sy m is"
  shows "mp1_find_helper sy m arg =
    Some (case find (\<lambda>i. location (blink_at m (blink_slot sy i)) = ucast arg) is of Some i \<Rightarrow> blink_slot sy i | None \<Rightarrow> 0)"
  unfolding mp1_find_helper_def using assms(2) by (intro find_helper_chain [OF assms(1)]) (simp_all add: blink_heap_def)

section \<open>A tick\<close>

definition blink_show :: "u16 \<Rightarrow> u8 \<Rightarrow> (u32 \<Rightarrow> u8) \<Rightarrow> (u32 \<Rightarrow> u8)" where
  "blink_show l c m = m(VIDEO + push_bit 1 (ucast l) := c)"

text \<open>What a tick makes of one blinking character, and what it puts on the screen.\<close>

definition tick :: "blink \<Rightarrow> blink" where
  "tick b = (let b = b\<lparr>countdown := countdown b - 1\<rparr> in
     if 0 <s countdown b then b
     else b\<lparr>countdown := (if status b AND 1 \<noteq> 0 then off_length b else on_length b), status := status b XOR 1\<rparr>)"

definition tick_show :: "blink \<Rightarrow> (u32 \<Rightarrow> u8) \<Rightarrow> (u32 \<Rightarrow> u8)" where
  "tick_show b m =
     (if 0 <s countdown b - 1 then m
      else blink_show (location b) (if status b AND 1 \<noteq> 0 then off_char b else on_char b) m)"

lemma low_byte_off:
  assumes "l < 2000"
  shows "unat (push_bit 1 (ucast (l :: u16)) :: u32) < 4000"
    "VIDEO + push_bit 1 (ucast l) \<in> rng VIDEO 4000"
proof -
  have "unat l < 2000" using assms by (simp add: word_less_nat_alt)
  moreover have "unat (push_bit 1 (ucast l) :: u32) = 2 * unat l"
  proof -
    have "unat l < 2 ^ 32" using \<open>unat l < 2000\<close> by simp
    then have "unat (ucast l :: u32) = unat l" by (simp add: unsigned_ucast_eq take_bit_nat_eq_self)
    with calculation show ?thesis by (simp add: unat_word_ariths)
  qed
  ultimately show u: "unat (push_bit 1 (ucast l) :: u32) < 4000" by simp
  then show "VIDEO + push_bit 1 (ucast l) \<in> rng VIDEO 4000" by (simp add: mem_rng_iff)
qed

lemma poke_shows:
  assumes "load32 m (vmem_base_addr sy) = PAGE_VIDMEM" "l < 2000"
  shows "mp1_poke sy m (push_bit 1 (ucast l)) c = blink_show l c m"
proof -
  let ?x = "push_bit 1 (ucast l) :: u32"
  have x: "unat ?x < 4000" by (rule low_byte_off(1) [OF assms(2)])
  then have "unat (PAGE_VIDMEM + ?x) = unat PAGE_VIDMEM + unat ?x"
    by (simp add: unat_word_ariths PAGE_VIDMEM_def)
  then have "PAGE_VIDMEM \<le> PAGE_VIDMEM + ?x \<and> PAGE_VIDMEM + ?x < PAGE_VIDMEM + 0x1000"
    using x by (simp add: word_le_nat_alt word_less_nat_alt PAGE_VIDMEM_def)
  then have "user_addr (PAGE_VIDMEM + ?x) = VIDEO + ?x" by (simp add: user_addr_def)
  then show ?thesis by (simp only: mp1_poke_def assms(1) blink_show_def)
qed

lemma own_not_screen:
  assumes "fish_layout sy" "b \<in> fish_own sy" "l < 2000"
  shows "blink_show l c m b = m b"
  using assms low_byte_off(2) [of l] by (auto simp: blink_show_def fish_layout_def)

lemma store16_at: "rng (p + COUNTDOWN) 2 \<subseteq> rng (p + COUNTDOWN) 4" "rng (p + STATUS) 2 \<subseteq> rng (p + COUNTDOWN) 4"
  using rng_mono [of 2 4 "p + COUNTDOWN"] rng_shift [of 2 2 4 "p + COUNTDOWN"]
  by (simp_all add: COUNTDOWN_def STATUS_def add.assoc)

lemma slot_own:
  assumes "i < 2000"
  shows "rng (blink_slot sy i) 16 \<subseteq> fish_own sy"
  using slot_in_array [OF assms, of sy] by (auto simp: fish_own_def)

text \<open>One element of the list.\<close>

lemma tasklet_step:
  assumes lay: "fish_layout sy" and i: "i < 2000" and p: "p = blink_slot sy i"
    and v: "load32 m (vmem_base_addr sy) = PAGE_VIDMEM" and loc: "location (blink_at m p) < 2000"
  obtains m1 where "tasklet_one sy m p = m1" "load32 m1 (p + NEXT) = load32 m (p + NEXT)"
    "tasklet_loop sy m p = tasklet_loop sy m1 (load32 m (p + NEXT))" "blink_at m1 p = tick (blink_at m p)"
    "\<And>b. b \<in> fish_own sy \<Longrightarrow> b \<notin> rng (p + COUNTDOWN) 4 \<Longrightarrow> m1 b = m b"
    "\<And>b. b \<notin> fish_own sy \<Longrightarrow> m1 b = tick_show (blink_at m p) m b"
proof -
  define b where "b = blink_at m p"
  define ma where "ma = store16 m (p + COUNTDOWN) (load16 m (p + COUNTDOWN) - 1)"
  have p0: "p \<noteq> 0" using slot_nonzero [OF lay i] p by simp
  have own: "rng p 16 \<subseteq> fish_own sy" using slot_own [OF i] p by simp
  have cd: "rng (p + COUNTDOWN) 4 \<subseteq> fish_own sy" using own struct_parts(1) [of p] by blast
  have ma_other: "ma x = m x" if "x \<notin> rng (p + COUNTDOWN) 4" for x
    unfolding ma_def using that store16_at(1) [of p] by (intro store16_other) auto
  have ba: "blink_at ma p = b\<lparr>countdown := countdown b - 1\<rparr>"
    unfolding ma_def b_def blink_at_store by (simp add: blink_at_def)
  have nxt: "load32 m' (p + NEXT) = load32 m (p + NEXT)"
    if "\<And>x. x \<in> rng (p + NEXT) 4 \<Longrightarrow> m' x = m x" for m' using that by (rule load32_cong)
  have na: "load32 ma (p + NEXT) = load32 m (p + NEXT)" using ma_other struct_parts(4) [of p] by (intro nxt) auto
  have la: "load16 ma (p + COUNTDOWN) = countdown b - 1" by (simp add: ma_def b_def blink_at_def)
  show thesis
  proof (cases "0 <s countdown b - 1")
    case True
    have one: "tasklet_one sy m p = ma" using True la by (simp add: tasklet_one_def Let_def ma_def [symmetric])
    then have "tasklet_loop sy m p = tasklet_loop sy ma (load32 m (p + NEXT))"
      using p0 na by (subst tasklet_loop.simps) (simp add: Let_def)
    moreover have "blink_at ma p = tick b" using True ba by (simp add: tick_def)
    ultimately show thesis using that [of ma] one na ma_other cd True by (auto simp: b_def tick_show_def)
  next
    case False
    define on where "on \<longleftrightarrow> status b AND 1 \<noteq> 0"
    define c where "c = (if on then off_char b else on_char b)"
    define mb where "mb = blink_show (location b) c ma"
    define mc where "mc = store16 mb (p + COUNTDOWN) (if on then off_length b else on_length b)"
    define md where "md = store16 mc (p + STATUS) (status b XOR 1)"
    have va: "load32 ma (vmem_base_addr sy) = PAGE_VIDMEM"
    proof -
      have "rng (vmem_base_addr sy) 4 \<inter> rng p 16 = {}"
        using lay slot_in_array [OF i, of sy] p by (auto simp: fish_layout_def)
      then show ?thesis
        unfolding v [symmetric] using struct_parts(1) [of p] by (intro load32_cong ma_other) auto
    qed
    have l: "location b < 2000" using loc by (simp add: b_def)
    have mb_own: "mb x = ma x" if "x \<in> fish_own sy" for x unfolding mb_def by (rule own_not_screen [OF lay that l])
    have bb: "blink_at mb p = blink_at ma p" using own struct_parts(3) [of p] by (intro blink_at_cong mb_own) auto
    have fields: "load16 ma (p + LOCATION) = location b" "load16 ma (p + STATUS) = status b"
      "ma (p + ON_CHAR) = on_char b" "ma (p + OFF_CHAR) = off_char b"
      by (simp_all add: blink_reads ba)
    have fieldb: "load16 mb (p + ON_LENGTH) = on_length b" "load16 mb (p + OFF_LENGTH) = off_length b"
      by (simp_all add: blink_reads bb ba)
    have poke: "mp1_poke sy ma (push_bit 1 (ucast (location b))) c' = blink_show (location b) c' ma" for c'
      by (rule poke_shows [OF va l])
    then have poke2: "mp1_poke sy ma (ucast (location b) * 2) c' = blink_show (location b) c' ma" for c' by simp
    have bc: "blink_at mc p = b\<lparr>countdown := if on then off_length b else on_length b\<rparr>"
      unfolding mc_def blink_at_store bb ba by simp
    then have "load16 mc (p + STATUS) = status b" by (simp add: blink_reads)
    then have md: "md = store16 mc (p + STATUS) (load16 mc (p + STATUS) XOR 1)" by (simp add: md_def)
    have bd: "blink_at md p = tick b"
      unfolding md_def blink_at_store bc using False by (simp add: tick_def Let_def on_def)
    have out: "md x = mb x" if "x \<notin> rng (p + COUNTDOWN) 4" for x
    proof -
      have "x \<notin> rng (p + COUNTDOWN) 2" "x \<notin> rng (p + STATUS) 2" using that store16_at [of p] by auto
      then show ?thesis by (simp add: md_def mc_def store16_other)
    qed
    have nd: "load32 md (p + NEXT) = load32 m (p + NEXT)"
    proof (rule nxt)
      fix x assume x: "x \<in> rng (p + NEXT) 4"
      then have "x \<notin> rng (p + COUNTDOWN) 4" "x \<in> fish_own sy" using struct_parts(2,4) [of p] own by auto
      then show "md x = m x" using out mb_own ma_other by simp
    qed
    have one: "tasklet_one sy m p = md"
    proof (cases on)
      case True
      then have o: "status b AND 1 \<noteq> 0" by (simp add: on_def)
      have ms: "blink_show (location b) (off_char b) ma = mb" "store16 mb (p + COUNTDOWN) (off_length b) = mc"
        using True by (simp_all add: mb_def c_def mc_def)
      show ?thesis
        using False o by (simp add: tasklet_one_def Let_def ma_def [symmetric] la fields poke poke2 ms fieldb md [symmetric])
    next
      case off: False
      then have o: "status b AND 1 = 0" by (simp add: on_def)
      have ms: "blink_show (location b) (on_char b) ma = mb" "store16 mb (p + COUNTDOWN) (on_length b) = mc"
        using off by (simp_all add: mb_def c_def mc_def)
      show ?thesis
        using False o by (simp add: tasklet_one_def Let_def ma_def [symmetric] la fields poke poke2 ms fieldb md [symmetric])
    qed
    then have "tasklet_loop sy m p = tasklet_loop sy md (load32 md (p + NEXT))"
      using p0 by (subst tasklet_loop.simps) (simp add: Let_def)
    moreover have "md x = m x" if "x \<in> fish_own sy" "x \<notin> rng (p + COUNTDOWN) 4" for x
      using out [OF that(2)] mb_own [OF that(1)] ma_other [OF that(2)] by simp
    moreover have "md x = tick_show b m x" if "x \<notin> fish_own sy" for x
    proof -
      have "x \<notin> rng (p + COUNTDOWN) 4" using that cd by auto
      then show ?thesis
        using out ma_other False by (simp add: mb_def tick_show_def c_def on_def blink_show_def)
    qed
    ultimately show thesis using that [of md] one bd nd by (simp add: b_def)
  qed
qed

lemma tick_show_at: "m b = m' b \<Longrightarrow> tick_show x m b = tick_show x m' b"
  by (simp add: tick_show_def blink_show_def)

lemma fold_show_at: "m b = m' b \<Longrightarrow> fold tick_show xs m b = fold tick_show xs m' b"
proof (induction xs arbitrary: m m')
  case (Cons x xs)
  from Cons.prems have "tick_show x m b = tick_show x m' b" by (rule tick_show_at)
  then have "fold tick_show xs (tick_show x m) b = fold tick_show xs (tick_show x m') b" by (rule Cons.IH)
  then show ?case by simp
qed simp

lemma location_tick [simp]: "location (tick b) = location b"
  by (simp add: tick_def Let_def)

lemma tasklet_chain:
  assumes lay: "fish_layout sy"
  shows "chain sy m p is \<Longrightarrow> distinct is \<Longrightarrow> set is \<subseteq> {..<2000} \<Longrightarrow> load32 m (vmem_base_addr sy) = PAGE_VIDMEM \<Longrightarrow>
    \<forall>i \<in> set is. location (blink_at m (blink_slot sy i)) < 2000 \<Longrightarrow>
    \<exists>m'. tasklet_loop sy m p = Some m' \<and> blinks sy m' is = map tick (blinks sy m is) \<and>
      (\<forall>b \<in> fish_own sy. (\<forall>i \<in> set is. b \<notin> rng (blink_slot sy i + COUNTDOWN) 4) \<longrightarrow> m' b = m b) \<and>
      (\<forall>b. b \<notin> fish_own sy \<longrightarrow> m' b = fold tick_show (blinks sy m is) m b)"
proof (induction "is" arbitrary: m p)
  case Nil
  then show ?case by (subst tasklet_loop.simps) (simp add: blinks_def)
next
  case (Cons i "is")
  have i: "i < 2000" "p = blink_slot sy i" "location (blink_at m p) < 2000" "i \<notin> set is"
    and rest: "distinct is" "set is \<subseteq> {..<2000}" using Cons.prems by auto
  obtain m1 where m1: "tasklet_loop sy m p = tasklet_loop sy m1 (load32 m (p + NEXT))" "blink_at m1 p = tick (blink_at m p)"
    and own: "\<And>b. b \<in> fish_own sy \<Longrightarrow> b \<notin> rng (p + COUNTDOWN) 4 \<Longrightarrow> m1 b = m b"
    and out: "\<And>b. b \<notin> fish_own sy \<Longrightarrow> m1 b = tick_show (blink_at m p) m b"
    using tasklet_step [OF lay i(1,2) Cons.prems(4) i(3)] by metis
  have other: "m1 b = m b" if "j \<in> set is" "b \<in> rng (blink_slot sy j) 16" for j b
  proof -
    have j: "j < 2000" "j \<noteq> i" using that(1) rest(2) i(4) by auto
    then have "b \<notin> rng p 16" using slots_disjoint [OF lay j(1) i(1)] that(2) i(2) by auto
    moreover have "b \<in> fish_own sy" using slot_own [OF j(1), of sy] that(2) by auto
    ultimately show ?thesis using own struct_parts(1) [of p] by auto
  qed
  have ch: "chain sy m1 (load32 m (p + NEXT)) is"
  proof (rule chain_cong [of _ m])
    show "chain sy m (load32 m (p + NEXT)) is" using Cons.prems(1) by auto
    show "m1 b = m b" if "j \<in> set is" "b \<in> rng (blink_slot sy j + NEXT) 4" for j b
      using other [OF that(1)] struct_parts(2) that(2) by blast
  qed
  have bs: "blink_at m1 (blink_slot sy j) = blink_at m (blink_slot sy j)" if "j \<in> set is" for j
    using other [OF that] struct_parts(3) by (intro blink_at_cong) auto
  have v: "load32 m1 (vmem_base_addr sy) = PAGE_VIDMEM"
  proof -
    have "rng (vmem_base_addr sy) 4 \<inter> rng p 16 = {}"
      using lay slot_in_array [OF i(1), of sy] i(2) by (auto simp: fish_layout_def)
    then show ?thesis unfolding Cons.prems(4) [symmetric] using struct_parts(1) [of p]
      by (intro load32_cong own) (auto simp: fish_own_def)
  qed
  have loc: "\<forall>j \<in> set is. location (blink_at m1 (blink_slot sy j)) < 2000" using Cons.prems(5) bs by simp
  have same: "blinks sy m1 is = blinks sy m is" by (simp add: blinks_def bs)
  obtain m' where m': "tasklet_loop sy m1 (load32 m (p + NEXT)) = Some m'" "blinks sy m' is = map tick (blinks sy m is)"
    "\<forall>b \<in> fish_own sy. (\<forall>i \<in> set is. b \<notin> rng (blink_slot sy i + COUNTDOWN) 4) \<longrightarrow> m' b = m1 b"
    "\<forall>b. b \<notin> fish_own sy \<longrightarrow> m' b = fold tick_show (blinks sy m is) m1 b"
    using Cons.IH [OF ch rest v loc] unfolding same by blast
  have "blink_at m' p = blink_at m1 p"
  proof (rule blink_at_cong)
    fix b assume "b \<in> rng p 12"
    then have b: "b \<in> rng p 16" using struct_parts(3) [of p] by blast
    have "b \<notin> rng (blink_slot sy j + COUNTDOWN) 4" if "j \<in> set is" for j
    proof -
      have "j < 2000" "i \<noteq> j" using that rest(2) i(4) by auto
      then show ?thesis using slots_disjoint [OF lay i(1)] b i(2) struct_parts(1) [of "blink_slot sy j"] by blast
    qed
    then show "m' b = m1 b" using m'(3) b slot_own [OF i(1), of sy] i(2) by auto
  qed
  then have "blinks sy m' (i # is) = map tick (blinks sy m (i # is))" using m'(2) m1(2) i(2) by (simp add: blinks_def)
  moreover have "m' b = fold tick_show (blinks sy m (i # is)) m b" if "b \<notin> fish_own sy" for b
    using m'(4) that fold_show_at [where m = m1 and m' = "tick_show (blink_at m p) m" and b = b, OF out [OF that]] i(2) by (simp add: blinks_def)
  moreover have "m' b = m b" if "b \<in> fish_own sy" "\<forall>j \<in> set (i # is). b \<notin> rng (blink_slot sy j + COUNTDOWN) 4" for b
    using m'(3) own that i(2) by simp
  ultimately show ?case using m1(1) m'(1) by (intro exI [of _ m']) simp
qed

lemma tasklet_ticks:
  assumes lay: "fish_layout sy" and heap: "blink_heap sy m is"
  shows "\<exists>m'. mp1_rtc_tasklet sy m = Some m' \<and> blink_heap sy m' is \<and> blinks sy m' is = map tick (blinks sy m is) \<and>
    (\<forall>b. b \<notin> fish_own sy \<longrightarrow> m' b = fold tick_show (blinks sy m is) m b)"
proof -
  have sub: "set is \<subseteq> {..<2000}" using heap by (simp add: blink_heap_def)
  obtain m' where m': "mp1_rtc_tasklet sy m = Some m'" "blinks sy m' is = map tick (blinks sy m is)"
    "\<And>b. b \<in> fish_own sy \<Longrightarrow> (\<forall>i \<in> set is. b \<notin> rng (blink_slot sy i + COUNTDOWN) 4) \<Longrightarrow> m' b = m b"
    "\<forall>b. b \<notin> fish_own sy \<longrightarrow> m' b = fold tick_show (blinks sy m is) m b"
    using tasklet_chain [OF lay, of m _ "is"] heap unfolding blink_heap_def mp1_rtc_tasklet_def by blast
  have part: "rng (blink_slot sy i + COUNTDOWN) 4 \<subseteq> rng (blink_array sy) 32000" if "i \<in> set is" for i
    using that sub struct_parts(1) [of "blink_slot sy i"] slot_in_array [of i sy] by blast
  have words: "load32 m' (mp1_list_head sy) = load32 m (mp1_list_head sy)" "load32 m' (vmem_base_addr sy) = load32 m (vmem_base_addr sy)"
    using lay part by (intro load32_cong m'(3); fastforce simp: fish_own_def fish_layout_def)+
  have apart: "b \<notin> rng (blink_slot sy j + COUNTDOWN) 4" if "i < 2000" "j \<in> set is" "i \<noteq> j" "b \<in> rng (blink_slot sy i) 16" for i j b
    using slots_disjoint [OF lay that(1) _ that(3)] that(2,4) sub struct_parts(1) [of "blink_slot sy j"] by blast
  have ch: "chain sy m' (load32 m' (mp1_list_head sy)) is"
  proof (rule chain_cong [of _ m])
    show "chain sy m (load32 m' (mp1_list_head sy)) is" using heap words by (simp add: blink_heap_def)
    fix i b assume i: "i \<in> set is" "b \<in> rng (blink_slot sy i + NEXT) 4"
    then have b: "b \<in> rng (blink_slot sy i) 16" "i < 2000" using struct_parts(2) sub by auto
    have "b \<notin> rng (blink_slot sy j + COUNTDOWN) 4" if "j \<in> set is" for j
      using apart [OF b(2) that _ b(1)] struct_parts(4) [of "blink_slot sy i"] i(2) by (cases "i = j") auto
    then show "m' b = m b" using m'(3) slot_own [OF b(2), of sy] b(1) by blast
  qed
  have inside: "blink_at m' (blink_slot sy i) = tick (blink_at m (blink_slot sy i))" if "i \<in> set is" for i
    using m'(2) that by (simp add: blinks_def)
  have outside: "blink_at m' (blink_slot sy i) = blink_at m (blink_slot sy i)" if "i < 2000" "i \<notin> set is" for i
  proof (rule blink_at_cong)
    fix b assume "b \<in> rng (blink_slot sy i) 12"
    then have b: "b \<in> rng (blink_slot sy i) 16" using struct_parts(3) by blast
    have "b \<notin> rng (blink_slot sy j + COUNTDOWN) 4" if "j \<in> set is" for j
      using apart [OF \<open>i < 2000\<close> that _ b] \<open>i \<notin> set is\<close> that by auto
    then show "m' b = m b" using m'(3) slot_own [OF that(1), of sy] b by blast
  qed
  have "location (blink_at m' (blink_slot sy i)) = location (blink_at m (blink_slot sy i))" if "i < 2000" for i
    using inside outside that by (cases "i \<in> set is") auto
  then have "blink_heap sy m' is" using heap ch words sub by (auto simp: blink_heap_def subset_iff)
  with m' show ?thesis by blast
qed

end
