(* ===== verification/Blinklist.thy ===== *)
theory Blinklist
  imports Blink
begin

text \<open>
  The commands of \<^verbatim>\<open>fish/blink.S\<close> on the list in memory, and the list of records they implement.
\<close>

section \<open>Adding\<close>

definition started :: "blink \<Rightarrow> blink" where
  "started b = b\<lparr>status := 1, countdown := on_length b\<rparr>"

lemma load32_store32_other: "rng a 4 \<inter> rng b 4 = {} \<Longrightarrow> load32 (store32 m b v) a = load32 m a"
  unfolding store32_bytes by (rule load32_store_other) simp

lemma store32_else: "x \<notin> rng a 4 \<Longrightarrow> store32 m a v x = m x"
  unfolding store32_bytes by simp

text \<open>A new element at the front.\<close>

lemma heap_push:
  assumes lay: "fish_layout sy" and heap: "blink_heap sy m is" and i: "i < 2000" "i \<notin> set is"
    and head: "load32 m' (mp1_list_head sy) = blink_slot sy i"
      "load32 m' (blink_slot sy i + NEXT) = load32 m (mp1_list_head sy)"
    and at: "blink_at m' (blink_slot sy i) = b" and loc: "location b \<noteq> 0" "location b < 2000"
    and same: "\<And>x. x \<in> fish_own sy \<Longrightarrow> x \<notin> rng (blink_slot sy i) 16 \<Longrightarrow> x \<notin> rng (mp1_list_head sy) 4 \<Longrightarrow> m' x = m x"
  shows "blink_heap sy m' (i # is)" "blinks sy m' (i # is) = b # blinks sy m is"
proof -
  let ?A = "rng (blink_array sy) 32000" and ?H = "rng (mp1_list_head sy) 4" and ?V = "rng (vmem_base_addr sy) 4"
  have sub: "set is \<subseteq> {..<2000}" using heap by (simp add: blink_heap_def)
  have P: "rng (blink_slot sy i) 16 \<subseteq> ?A" by (rule slot_in_array [OF i(1)])
  have apart: "?A \<inter> ?H = {}" "?A \<inter> ?V = {}" "?H \<inter> ?V = {}" using lay by (simp_all add: fish_layout_def)
  have inA: "m' x = m x" if "x \<in> ?A" "x \<notin> rng (blink_slot sy i) 16" for x
    using that apart by (intro same) (auto simp: fish_own_def)
  have other: "blink_at m' (blink_slot sy j) = blink_at m (blink_slot sy j)" if "j < 2000" "j \<noteq> i" for j
    using slots_disjoint [OF lay that(1) i(1) that(2)] struct_parts(3) [of "blink_slot sy j"] slot_in_array [OF that(1), of sy]
    by (intro blink_at_cong inA) blast+
  have "map (\<lambda>j. blink_at m' (blink_slot sy j)) is = blinks sy m is"
    unfolding blinks_def using sub i(2) by (intro map_cong refl other) auto
  then show "blinks sy m' (i # is) = b # blinks sy m is" by (simp add: blinks_def at)
  have "chain sy m' (load32 m (mp1_list_head sy)) is"
  proof (rule chain_cong [of _ m])
    show "chain sy m (load32 m (mp1_list_head sy)) is" using heap by (simp add: blink_heap_def)
    fix j x assume j: "j \<in> set is" "x \<in> rng (blink_slot sy j + NEXT) 4"
    then have "j < 2000" "j \<noteq> i" "x \<in> rng (blink_slot sy j) 16" using sub i(2) struct_parts(2) by blast+
    then show "m' x = m x" using slots_disjoint [OF lay _ i(1), of j] slot_in_array [of j sy] by (intro inA) blast+
  qed
  then have "chain sy m' (load32 m' (mp1_list_head sy)) (i # is)" unfolding head(1) by (simp add: head(2))
  moreover have "load32 m' (vmem_base_addr sy) = load32 m (vmem_base_addr sy)"
    using P apart by (intro load32_cong same) (auto simp: fish_own_def)
  moreover have "location (blink_at m' (blink_slot sy j)) = 0 \<longleftrightarrow> j \<notin> set (i # is)" if "j < 2000" for j
    using heap that other [OF that] at loc(1) by (cases "j = i") (auto simp: blink_heap_def)
  moreover have "location (blink_at m' (blink_slot sy j)) < 2000" if "j \<in> set (i # is)" for j
    using heap that other [of j] sub at loc(2) by (cases "j = i") (auto simp: blink_heap_def)
  ultimately show "blink_heap sy m' (i # is)" using heap i sub by (simp add: blink_heap_def del: chain.simps)
qed

text \<open>The caller's structure and that on the stack, beside what the program owns.\<close>

definition blink_args :: "fish_syms \<Rightarrow> u32 \<Rightarrow> u32 \<Rightarrow> bool" where
  "blink_args sy tmp arg \<longleftrightarrow> rng tmp 16 \<inter> (fish_own sy \<union> rng VIDEO 4000 \<union> rng arg 16) = {} \<and>
     rng arg 16 \<inter> (fish_own sy \<union> rng VIDEO 4000) = {}"

text \<open>What \<open>mp1_ioctl_add\<close> does to the memory; no list is needed for it.\<close>

lemma add_effect:
  assumes lay: "fish_layout sy" and args: "blink_args sy tmp arg" and v: "load32 m (vmem_base_addr sy) = PAGE_VIDMEM"
  defines "b \<equiv> blink_at m arg"
  obtains (refused) m' where "mp1_ioctl_add sy tmp m arg = (minus_one, m')" "\<And>x. x \<notin> rng tmp 16 \<Longrightarrow> m' x = m x"
      "\<not> location b < 2000 \<or> (\<forall>j < 2000. location (blink_at m (blink_slot sy j)) \<noteq> 0)"
  | (added) m' i where "mp1_ioctl_add sy tmp m arg = (0, m')" "location b < 2000" "i < 2000"
      "find (\<lambda>j. location (blink_at m (blink_slot sy j)) = 0) [0..<2000] = Some i"
      "load32 m' (mp1_list_head sy) = blink_slot sy i"
      "load32 m' (blink_slot sy i + NEXT) = load32 m (mp1_list_head sy)" "blink_at m' (blink_slot sy i) = started b"
      "\<And>x. x \<in> fish_own sy \<Longrightarrow> x \<notin> rng (blink_slot sy i) 16 \<Longrightarrow> x \<notin> rng (mp1_list_head sy) 4 \<Longrightarrow> m' x = m x"
      "\<And>x. x \<notin> fish_own sy \<Longrightarrow> x \<notin> rng tmp 16 \<Longrightarrow> m' x = blink_show (location b) (on_char b) m x"
proof -
  have T: "rng tmp 16 \<inter> fish_own sy = {}" "rng tmp 16 \<inter> rng arg 16 = {}"
    using args by (auto simp: blink_args_def)
  define m1 where "m1 = store_bytes m tmp (bytes_at m arg 16)"
  have c1: "ece391_memcpy m tmp arg STRUCT_SIZE = (0, m1)" unfolding m1_def by (rule memcpy_struct [OF T(2)])
  have o1: "m1 x = m x" if "x \<notin> rng tmp 16" for x unfolding m1_def using that by simp
  have b1: "blink_at m1 tmp = b"
    unfolding b_def m1_def by (rule copied_struct, rule bytes_at_store_same) simp_all
  then have l1: "load16 m1 (tmp + LOCATION) = location b" by (simp add: blink_reads)
  define m2 where "m2 = store16 (store16 m1 (tmp + STATUS) 1) (tmp + COUNTDOWN) (on_length b)"
  have b2: "blink_at m2 tmp = started b" unfolding m2_def blink_at_store b1 by (simp add: started_def)
  have len: "load16 (store16 m1 (tmp + STATUS) 1) (tmp + ON_LENGTH) = on_length b"
    by (simp add: blink_reads blink_at_store b1)
  have parts: "rng (tmp + STATUS) 2 \<subseteq> rng tmp 16" "rng (tmp + COUNTDOWN) 2 \<subseteq> rng tmp 16"
    using store16_at [of tmp] struct_parts(1) [of tmp] by auto
  have o2: "m2 x = m x" if "x \<notin> rng tmp 16" for x
  proof -
    have "x \<notin> rng (tmp + STATUS) 2" "x \<notin> rng (tmp + COUNTDOWN) 2" using that parts by auto
    then show ?thesis using o1 [OF that] by (simp add: m2_def store16_other)
  qed
  have own2: "m2 x = m x" if "x \<in> fish_own sy" for x using o2 T(1) that by blast
  have big: "(80 * 25 :: u16) = 2000" by simp
  have slot2: "blink_at m2 (blink_slot sy j) = blink_at m (blink_slot sy j)" if "j < 2000" for j
    using slot_own [OF that, of sy] struct_parts(3) by (intro blink_at_cong own2) blast
  have find2: "find (\<lambda>j. load16 m2 (blink_slot sy j + LOCATION) = 0) [0..<80 * 25] =
      find (\<lambda>j. location (blink_at m (blink_slot sy j)) = 0) [0..<2000]"
  proof -
    have "find (\<lambda>j. load16 m2 (blink_slot sy j + LOCATION) = 0) [0..<2000] =
        find (\<lambda>j. location (blink_at m (blink_slot sy j)) = 0) [0..<2000]"
      by (rule find_same) (simp add: blink_reads slot2)
    then show ?thesis by simp
  qed
  show thesis
  proof (cases "location b < 2000")
    case False
    then have "mp1_ioctl_add sy tmp m arg = (minus_one, m1)" by (simp add: mp1_ioctl_add_def c1 l1 big not_less)
    then show thesis using refused [of m1] False o1 by blast
  next
    case small: True
    then have ns: "\<not> 2000 \<le> location b" by simp
    have add: "mp1_ioctl_add sy tmp m arg = (if mp1_malloc sy m2 = 0 then (minus_one, m2)
        else let (_, m) = ece391_memcpy m2 (mp1_malloc sy m2) tmp STRUCT_SIZE;
               m = store32 m (mp1_malloc sy m2 + NEXT) (load32 m (mp1_list_head sy));
               m = store32 m (mp1_list_head sy) (mp1_malloc sy m2);
               eax = push_bit 1 (ucast (load16 m (mp1_malloc sy m2 + LOCATION)))
             in (0, mp1_poke sy m eax (m (mp1_malloc sy m2 + ON_CHAR))))"
      using ns unfolding mp1_ioctl_add_def c1 by (simp add: l1 big len m2_def [symmetric] Let_def)
    show thesis
    proof (cases "find (\<lambda>j. location (blink_at m (blink_slot sy j)) = 0) [0..<2000]")
      case None
      then have "mp1_malloc sy m2 = 0" by (simp only: mp1_malloc_def find2 option.case)
      moreover have "\<forall>j < 2000. location (blink_at m (blink_slot sy j)) \<noteq> 0" using None by (auto simp: find_None_iff)
      ultimately show thesis using refused [of m2] add o2 by simp
    next
      case (Some i)
      then have i: "i < 2000" "mp1_malloc sy m2 = blink_slot sy i"
        by (auto simp: find_Some_iff) (simp only: mp1_malloc_def find2 Some option.case)
      let ?p = "blink_slot sy i" and ?H = "rng (mp1_list_head sy) 4"
      have P: "rng ?p 16 \<inter> rng tmp 16 = {}" "rng ?p 16 \<subseteq> fish_own sy" using slot_own [OF i(1), of sy] T(1) by auto
      have N: "rng (?p + NEXT) 4 \<subseteq> rng ?p 16" by (rule struct_parts)
      have H: "?H \<subseteq> fish_own sy" "rng ?p 16 \<inter> ?H = {}" "rng ?p 16 \<inter> rng (vmem_base_addr sy) 4 = {}"
        "?H \<inter> rng (vmem_base_addr sy) 4 = {}"
        using lay slot_in_array [OF i(1), of sy] by (auto simp: fish_own_def fish_layout_def)
      define m3 where "m3 = store_bytes m2 ?p (bytes_at m2 tmp 16)"
      define m4 where "m4 = store32 m3 (?p + NEXT) (load32 m3 (mp1_list_head sy))"
      define m5 where "m5 = store32 m4 (mp1_list_head sy) ?p"
      have c3: "ece391_memcpy m2 ?p tmp STRUCT_SIZE = (0, m3)" unfolding m3_def by (rule memcpy_struct [OF P(1)])
      have b3: "blink_at m3 ?p = started b"
        unfolding b2 [symmetric] m3_def by (rule copied_struct, rule bytes_at_store_same) simp_all
      have m3: "m3 x = m2 x" if "x \<notin> rng ?p 16" for x unfolding m3_def using that by simp
      have m5: "m5 x = m2 x" if "x \<notin> rng ?p 16" "x \<notin> ?H" for x
      proof -
        have "x \<notin> rng (?p + NEXT) 4" using that(1) N by auto
        with that m3 show ?thesis by (simp add: m5_def m4_def store32_else)
      qed
      have m53: "m5 x = m3 x" if "x \<notin> rng (?p + NEXT) 4" "x \<notin> ?H" for x
        using that by (simp add: m5_def m4_def store32_else)
      have b5: "blink_at m5 ?p = started b"
        unfolding b3 [symmetric] using struct_parts(3,5) [of ?p] H(2) by (intro blink_at_cong m53) blast+
      have h: "load32 m5 (mp1_list_head sy) = ?p" by (simp add: m5_def load32_store32)
      have "load32 m3 (mp1_list_head sy) = load32 m (mp1_list_head sy)"
        using H m3 own2 by (intro load32_cong) (metis disjoint_iff subset_iff)
      moreover have "load32 m5 (?p + NEXT) = load32 m3 (mp1_list_head sy)"
        unfolding m5_def using N H(2) by (subst load32_store32_other) (auto simp: m4_def load32_store32)
      ultimately have n: "load32 m5 (?p + NEXT) = load32 m (mp1_list_head sy)" by simp
      have "load32 m5 (vmem_base_addr sy) = load32 m (vmem_base_addr sy)"
      proof (rule load32_cong)
        fix x assume x: "x \<in> rng (vmem_base_addr sy) 4"
        then have "x \<notin> rng ?p 16" "x \<notin> ?H" using H(3,4) by auto
        moreover have "x \<in> fish_own sy" using x by (simp add: fish_own_def)
        ultimately show "m5 x = m x" using m5 own2 by simp
      qed
      then have v5: "load32 m5 (vmem_base_addr sy) = PAGE_VIDMEM" using v by simp
      have f: "load16 m5 (?p + LOCATION) = location b" "m5 (?p + ON_CHAR) = on_char b"
        by (simp_all add: blink_reads b5 started_def)
      define m6 where "m6 = blink_show (location b) (on_char b) m5"
      have "mp1_ioctl_add sy tmp m arg = (0, mp1_poke sy m5 (push_bit 1 (ucast (load16 m5 (?p + LOCATION)))) (m5 (?p + ON_CHAR)))"
        using slot_nonzero [OF lay i(1)] unfolding add i(2) c3 Let_def prod.case m4_def [symmetric] m5_def [symmetric] by simp
      then have r: "mp1_ioctl_add sy tmp m arg = (0, m6)" unfolding f poke_shows [OF v5 small] m6_def .
      have own: "m6 x = m5 x" if "x \<in> fish_own sy" for x unfolding m6_def by (rule own_not_screen [OF lay that small])
      show thesis
      proof (rule added [OF r small i(1) Some])
        show "load32 m6 (mp1_list_head sy) = ?p" unfolding h [symmetric] using H(1) own by (intro load32_cong) blast
        show "load32 m6 (?p + NEXT) = load32 m (mp1_list_head sy)"
          unfolding n [symmetric] using N P(2) own by (intro load32_cong) blast
        show "blink_at m6 ?p = started b"
          unfolding b5 [symmetric] using P(2) struct_parts(3) [of ?p] own by (intro blink_at_cong) blast
        show "m6 x = m x" if "x \<in> fish_own sy" "x \<notin> rng ?p 16" "x \<notin> ?H" for x
          using that own m5 own2 by simp
        show "m6 x = blink_show (location b) (on_char b) m x" if "x \<notin> fish_own sy" "x \<notin> rng tmp 16" for x
        proof -
          have "x \<notin> rng ?p 16" "x \<notin> ?H" using that(1) P(2) H(1) by auto
          then show ?thesis using m5 o2 [OF that(2)] by (simp add: m6_def blink_show_def)
        qed
      qed
    qed
  qed
qed

lemma full_array:
  assumes "blink_heap sy m is"
  shows "(\<forall>j < 2000. location (blink_at m (blink_slot sy j)) \<noteq> 0) \<longleftrightarrow> \<not> length is < 2000"
proof -
  have d: "distinct is" "set is \<subseteq> {..<2000}" using assms by (simp_all add: blink_heap_def)
  have "(\<forall>j < 2000. location (blink_at m (blink_slot sy j)) \<noteq> 0) \<longleftrightarrow> {..<2000} \<subseteq> set is"
    using assms by (auto simp: blink_heap_def)
  also have "\<dots> \<longleftrightarrow> \<not> length is < 2000"
  proof
    assume "{..<2000} \<subseteq> set is"
    then have "card {..<2000 :: nat} \<le> card (set is)" by (intro card_mono) simp_all
    then show "\<not> length is < 2000" using distinct_card [OF d(1)] by simp
  next
    assume "\<not> length is < 2000"
    then have "card {..<2000 :: nat} \<le> card (set is)" using distinct_card [OF d(1)] by simp
    then show "{..<2000} \<subseteq> set is" using card_seteq [OF _ d(2)] by blast
  qed
  finally show ?thesis .
qed

lemma ioctl_add_refines:
  assumes lay: "fish_layout sy" and heap: "blink_heap sy m is" and args: "blink_args sy tmp arg"
  defines "b \<equiv> blink_at m arg" and "res \<equiv> mp1_ioctl_add sy tmp m arg"
  shows "if location b < 2000 \<and> length is < 2000 then
      location b \<noteq> 0 \<longrightarrow> fst res = 0 \<and>
        (\<exists>i. blink_heap sy (snd res) (i # is) \<and> blinks sy (snd res) (i # is) = started b # blinks sy m is) \<and>
        (\<forall>x. x \<notin> fish_own sy \<union> rng tmp 16 \<longrightarrow> snd res x = blink_show (location b) (on_char b) m x)
    else fst res = minus_one \<and> blink_heap sy (snd res) is \<and> blinks sy (snd res) is = blinks sy m is \<and>
      (\<forall>x. x \<notin> rng tmp 16 \<longrightarrow> snd res x = m x)"
proof -
  have v: "load32 m (vmem_base_addr sy) = PAGE_VIDMEM" using heap by (simp add: blink_heap_def)
  have T: "rng tmp 16 \<inter> fish_own sy = {}" using args by (auto simp: blink_args_def)
  note full = full_array [OF heap]
  show ?thesis
  proof (rule add_effect [OF lay args v])
    fix m' assume r: "mp1_ioctl_add sy tmp m arg = (minus_one, m')" "\<And>x. x \<notin> rng tmp 16 \<Longrightarrow> m' x = m x"
      and no: "\<not> location (blink_at m arg) < 2000 \<or> (\<forall>j < 2000. location (blink_at m (blink_slot sy j)) \<noteq> 0)"
    have "m' x = m x" if "x \<in> fish_own sy" for x using r(2) T that by blast
    note same = blink_heap_same [OF this lay heap]
    have nn: "\<not> (location b < 2000 \<and> length is < 2000)" using no full unfolding b_def by blast
    show ?thesis unfolding if_not_P [OF nn] using r same unfolding res_def by simp
  next
    fix m' i
    assume r: "mp1_ioctl_add sy tmp m arg = (0, m')" "location (blink_at m arg) < 2000" "i < 2000"
      and fnd: "find (\<lambda>j. location (blink_at m (blink_slot sy j)) = 0) [0..<2000] = Some i"
      and e: "load32 m' (mp1_list_head sy) = blink_slot sy i" "load32 m' (blink_slot sy i + NEXT) = load32 m (mp1_list_head sy)"
        "blink_at m' (blink_slot sy i) = started (blink_at m arg)"
        "\<And>x. x \<in> fish_own sy \<Longrightarrow> x \<notin> rng (blink_slot sy i) 16 \<Longrightarrow> x \<notin> rng (mp1_list_head sy) 4 \<Longrightarrow> m' x = m x"
        "\<And>x. x \<notin> fish_own sy \<Longrightarrow> x \<notin> rng tmp 16 \<Longrightarrow> m' x = blink_show (location (blink_at m arg)) (on_char (blink_at m arg)) m x"
    have z: "location (blink_at m (blink_slot sy i)) = 0" using fnd by (auto simp: find_Some_iff)
    then have i: "i \<notin> set is" using heap r(3) by (auto simp: blink_heap_def)
    have "length is < 2000" using z r(3) full by blast
    moreover have "blink_heap sy m' (i # is) \<and> blinks sy m' (i # is) = started b # blinks sy m is" if "location b \<noteq> 0"
    proof -
      have "location (started (blink_at m arg)) \<noteq> 0" "location (started (blink_at m arg)) < 2000"
        using that r(2) by (simp_all add: started_def b_def)
      from heap_push [OF lay heap r(3) i e(1-3) this e(4)] show ?thesis by (simp add: b_def)
    qed
    ultimately show ?thesis using r e(5) unfolding res_def b_def by auto
  qed
qed

section \<open>Removing, finding and synchronising\<close>

text \<open>On lists of records; the first element with the location counts.\<close>

definition find_loc :: "u16 \<Rightarrow> blink list \<Rightarrow> blink option" where
  "find_loc l bs = find (\<lambda>b. location b = l) bs"

fun remove_first :: "u16 \<Rightarrow> blink list \<Rightarrow> blink list" where
  "remove_first l [] = []"
| "remove_first l (b # bs) = (if location b = l then bs else b # remove_first l bs)"

fun update_first :: "u16 \<Rightarrow> (blink \<Rightarrow> blink) \<Rightarrow> blink list \<Rightarrow> blink list" where
  "update_first l f [] = []"
| "update_first l f (b # bs) = (if location b = l then f b # bs else b # update_first l f bs)"

definition synced :: "blink \<Rightarrow> blink \<Rightarrow> blink" where
  "synced a b = b\<lparr>on_length := on_length a, off_length := off_length a, countdown := countdown a, status := status a\<rparr>"

lemma find_split: "find P is = Some i \<Longrightarrow> \<exists>xs ys. is = xs @ i # ys \<and> P i \<and> (\<forall>j \<in> set xs. \<not> P j)"
proof (induction "is")
  case (Cons x xs)
  show ?case
  proof (cases "P x")
    case True
    with Cons.prems show ?thesis by (intro exI [of _ "[]"] exI [of _ xs]) simp
  next
    case False
    then obtain us vs where "xs = us @ i # vs" "P i" "\<forall>j \<in> set us. \<not> P j" using Cons by auto
    with False show ?thesis by (intro exI [of _ "x # us"] exI [of _ vs]) simp
  qed
qed simp

lemma find_loc_blinks:
  "find_loc l (blinks sy m is) =
   map_option (\<lambda>i. blink_at m (blink_slot sy i)) (find (\<lambda>i. location (blink_at m (blink_slot sy i)) = l) is)"
  by (induction "is") (simp_all add: find_loc_def blinks_def)

lemma remove_first_at:
  "\<forall>b \<in> set xs. location b \<noteq> location c \<Longrightarrow> remove_first (location c) (xs @ c # ys) = xs @ ys"
  by (induction xs) simp_all

lemma update_first_at:
  "\<forall>b \<in> set xs. location b \<noteq> location c \<Longrightarrow> update_first (location c) f (xs @ c # ys) = xs @ f c # ys"
  by (induction xs) simp_all

lemma helper_result:
  assumes "fish_layout sy" "blink_heap sy m is"
  shows "case find_loc (ucast arg) (blinks sy m is) of
      None \<Rightarrow> mp1_find_helper sy m arg = Some 0
    | Some b \<Rightarrow> \<exists>xs i ys. is = xs @ i # ys \<and> i < 2000 \<and> b = blink_at m (blink_slot sy i) \<and> location b = ucast arg \<and>
        (\<forall>c \<in> set (blinks sy m xs). location c \<noteq> location b) \<and> mp1_find_helper sy m arg = Some (blink_slot sy i)"
proof (cases "find (\<lambda>i. location (blink_at m (blink_slot sy i)) = ucast arg) is")
  case None
  then show ?thesis by (simp add: find_loc_blinks find_helper_finds [OF assms])
next
  case (Some i)
  then obtain xs ys where i: "is = xs @ i # ys" "location (blink_at m (blink_slot sy i)) = ucast arg"
    "\<forall>j \<in> set xs. location (blink_at m (blink_slot sy j)) \<noteq> ucast arg" using find_split by fast
  have f: "find_loc (ucast arg) (blinks sy m is) = Some (blink_at m (blink_slot sy i))" by (simp add: find_loc_blinks Some)
  have h: "mp1_find_helper sy m arg = Some (blink_slot sy i)" by (simp add: find_helper_finds [OF assms] Some)
  have "i < 2000" using assms(2) i(1) by (simp add: blink_heap_def)
  then show ?thesis
    unfolding f option.case using i h by (intro exI [of _ xs] exI [of _ i] exI [of _ ys]) (simp add: blinks_def)
qed

lemma chain_links:
  "chain sy m p is \<Longrightarrow> (\<And>i. i \<in> set is \<Longrightarrow> load32 m' (blink_slot sy i + NEXT) = load32 m (blink_slot sy i + NEXT)) \<Longrightarrow>
   chain sy m' p is"
  by (induction "is" arbitrary: p) auto

lemma unlink:
  assumes lay: "fish_layout sy"
  shows "chain sy m (load32 m e) (xs @ i # ys) \<Longrightarrow> distinct (xs @ i # ys) \<Longrightarrow> set (xs @ i # ys) \<subseteq> {..<2000} \<Longrightarrow>
    e \<notin> (\<lambda>j. blink_slot sy j + NEXT) ` set (xs @ ys) \<Longrightarrow> prev = (if xs = [] then e else blink_slot sy (last xs) + NEXT) \<Longrightarrow>
    remove_find_prev m (blink_slot sy i) e = Some prev \<and>
    (\<forall>m'. load32 m' prev = load32 m (blink_slot sy i + NEXT) \<longrightarrow>
       (\<forall>a \<in> insert e ((\<lambda>j. blink_slot sy j + NEXT) ` set (xs @ ys)). a \<noteq> prev \<longrightarrow> load32 m' a = load32 m a) \<longrightarrow>
       chain sy m' (load32 m' e) (xs @ ys))"
proof (induction xs arbitrary: e)
  case Nil
  have "remove_find_prev m (blink_slot sy i) e = Some e" using Nil.prems(1) by (subst remove_find_prev.simps) simp
  moreover have "chain sy m' (load32 m' e) ys"
    if "load32 m' e = load32 m (blink_slot sy i + NEXT)"
      "\<forall>a \<in> insert e ((\<lambda>j. blink_slot sy j + NEXT) ` set ys). a \<noteq> e \<longrightarrow> load32 m' a = load32 m a" for m'
  proof (rule chain_links [of _ m])
    show "chain sy m (load32 m' e) ys" using Nil.prems(1) that(1) by auto
    show "load32 m' (blink_slot sy j + NEXT) = load32 m (blink_slot sy j + NEXT)" if "j \<in> set ys" for j
      using Nil.prems(4) that \<open>\<forall>a \<in> _. _\<close> by auto
  qed
  ultimately show ?case using Nil.prems(5) by simp
next
  case (Cons k xs)
  let ?k = "blink_slot sy k + NEXT"
  have k: "load32 m e = blink_slot sy k" and ch: "chain sy m (load32 m ?k) (xs @ i # ys)"
    and d: "distinct (xs @ i # ys)" "set (xs @ i # ys) \<subseteq> {..<2000}" "k < 2000" "k \<noteq> i" "k \<notin> set (xs @ ys)" "i < 2000"
    using Cons.prems(1-3) by auto
  have "?k \<notin> (\<lambda>j. blink_slot sy j + NEXT) ` set (xs @ ys)"
  proof
    assume "?k \<in> (\<lambda>j. blink_slot sy j + NEXT) ` set (xs @ ys)"
    then obtain j where "?k = blink_slot sy j + NEXT" and j: "j \<in> set (xs @ ys)" by (rule imageE)
    then have eq: "blink_slot sy k = blink_slot sy j" by simp
    have "j < 2000" using d(2) j by auto
    from slot_inj [OF lay d(3) this] eq j d(5) show False by simp
  qed
  moreover have "prev = (if xs = [] then ?k else blink_slot sy (last xs) + NEXT)" using Cons.prems(5) by (cases xs) simp_all
  ultimately have ih: "remove_find_prev m (blink_slot sy i) ?k = Some prev"
    "\<And>m'. load32 m' prev = load32 m (blink_slot sy i + NEXT) \<Longrightarrow>
       (\<forall>a \<in> insert ?k ((\<lambda>j. blink_slot sy j + NEXT) ` set (xs @ ys)). a \<noteq> prev \<longrightarrow> load32 m' a = load32 m a) \<Longrightarrow>
       chain sy m' (load32 m' ?k) (xs @ ys)"
    using Cons.IH [OF ch d(1,2)] by blast+
  have "blink_slot sy i \<noteq> load32 m e" using slot_inj [OF lay d(6) d(3)] d(4) k by auto
  then have "remove_find_prev m (blink_slot sy i) e = Some prev"
    using ih(1) by (subst remove_find_prev.simps) (simp add: k)
  moreover have "chain sy m' (load32 m' e) ((k # xs) @ ys)"
    if "load32 m' prev = load32 m (blink_slot sy i + NEXT)"
      "\<forall>a \<in> insert e ((\<lambda>j. blink_slot sy j + NEXT) ` set ((k # xs) @ ys)). a \<noteq> prev \<longrightarrow> load32 m' a = load32 m a" for m'
  proof -
    have "prev \<in> (\<lambda>j. blink_slot sy j + NEXT) ` set (k # xs)" using Cons.prems(5) by (auto split: if_splits)
    then have "e \<noteq> prev" using Cons.prems(4) by auto
    then have "load32 m' e = blink_slot sy k" using that(2) k by simp
    moreover have "chain sy m' (load32 m' ?k) (xs @ ys)" by (rule ih(2) [OF that(1)]) (use that(2) in auto)
    ultimately show ?thesis by simp
  qed
  ultimately show ?case by blast
qed

lemma links_apart:
  assumes "fish_layout sy" "i < 2000" "j < 2000" "i \<noteq> j"
  shows "rng (blink_slot sy i + NEXT) 4 \<inter> rng (blink_slot sy j + NEXT) 4 = {}"
    "rng (blink_slot sy i + NEXT) 4 \<inter> rng (blink_slot sy j) 16 = {}"
  using slots_disjoint [OF assms] struct_parts(2) by blast+

lemma link_own:
  assumes "fish_layout sy" "i < 2000"
  shows "rng (blink_slot sy i + NEXT) 4 \<inter> rng (mp1_list_head sy) 4 = {}"
    "rng (blink_slot sy i + NEXT) 4 \<inter> rng (vmem_base_addr sy) 4 = {}"
    "rng (blink_slot sy i) 16 \<inter> rng (mp1_list_head sy) 4 = {}" "rng (blink_slot sy i) 16 \<inter> rng (vmem_base_addr sy) 4 = {}"
    "mp1_list_head sy \<noteq> blink_slot sy i + NEXT"
proof -
  have s: "rng (blink_slot sy i + NEXT) 4 \<subseteq> rng (blink_array sy) 32000" "rng (blink_slot sy i) 16 \<subseteq> rng (blink_array sy) 32000"
    using slot_in_array [OF assms(2), of sy] struct_parts(2) [of "blink_slot sy i"] by blast+
  then show "rng (blink_slot sy i + NEXT) 4 \<inter> rng (mp1_list_head sy) 4 = {}"
    "rng (blink_slot sy i + NEXT) 4 \<inter> rng (vmem_base_addr sy) 4 = {}"
    "rng (blink_slot sy i) 16 \<inter> rng (mp1_list_head sy) 4 = {}" "rng (blink_slot sy i) 16 \<inter> rng (vmem_base_addr sy) 4 = {}"
    using assms(1) unfolding fish_layout_def by blast+
  from this(1) show "mp1_list_head sy \<noteq> blink_slot sy i + NEXT"
    using self_in_rng [of 4 "mp1_list_head sy"] by (metis disjoint_iff zero_less_numeral)
qed

lemma heap_unlink:
  assumes lay: "fish_layout sy" and heap: "blink_heap sy m (xs @ i # ys)"
  obtains prev where "remove_find_prev m (blink_slot sy i) (mp1_list_head sy) = Some prev"
    "\<And>m'. m' = mp1_free (store32 m prev (load32 m (blink_slot sy i + NEXT))) (blink_slot sy i) \<Longrightarrow>
       blink_heap sy m' (xs @ ys) \<and> blinks sy m' (xs @ ys) = blinks sy m (xs @ ys) \<and>
       (\<forall>b. b \<notin> fish_own sy \<longrightarrow> m' b = m b)"
proof -
  let ?p = "blink_slot sy i" and ?h = "mp1_list_head sy"
  define prev where "prev = (if xs = [] then ?h else blink_slot sy (last xs) + NEXT)"
  have heap': "chain sy m (load32 m ?h) (xs @ i # ys)" "distinct (xs @ i # ys)" "set (xs @ i # ys) \<subseteq> {..<2000}"
    using heap by (simp_all add: blink_heap_def)
  then have i: "i < 2000" "i \<notin> set xs" "i \<notin> set ys" "set (xs @ ys) \<subseteq> {..<2000}" "distinct (xs @ ys)" by auto
  have "?h \<notin> (\<lambda>j. blink_slot sy j + NEXT) ` set (xs @ ys)" using link_own(5) [OF lay] i(4) by auto
  note un = unlink [OF lay heap' this prev_def]
  have prevs: "prev = ?h \<or> (\<exists>k \<in> set xs. prev = blink_slot sy k + NEXT)"
    unfolding prev_def using last_in_set [of xs] by auto
  have prev_own: "rng prev 4 \<inter> rng ?p 16 = {}" "rng prev 4 \<inter> rng (vmem_base_addr sy) 4 = {}" "rng prev 4 \<subseteq> fish_own sy"
    "\<And>j. j < 2000 \<Longrightarrow> rng prev 4 \<inter> rng (blink_slot sy j) 12 = {}"
  proof -
    show "rng prev 4 \<inter> rng ?p 16 = {}" "rng prev 4 \<inter> rng (vmem_base_addr sy) 4 = {}" "rng prev 4 \<subseteq> fish_own sy"
    proof -
      have "rng ?h 4 \<inter> rng ?p 16 = {}" "rng ?h 4 \<inter> rng (vmem_base_addr sy) 4 = {}" "rng ?h 4 \<subseteq> fish_own sy"
        using link_own(3) [OF lay i(1)] lay by (auto simp: fish_own_def fish_layout_def)
      moreover have "rng (blink_slot sy k + NEXT) 4 \<inter> rng ?p 16 = {}"
        "rng (blink_slot sy k + NEXT) 4 \<inter> rng (vmem_base_addr sy) 4 = {}" "rng (blink_slot sy k + NEXT) 4 \<subseteq> fish_own sy"
        if "k \<in> set xs" for k
      proof -
        have k: "k < 2000" "k \<noteq> i" using that i by auto
        show "rng (blink_slot sy k + NEXT) 4 \<inter> rng ?p 16 = {}" by (rule links_apart(2) [OF lay k(1) i(1) k(2)])
        show "rng (blink_slot sy k + NEXT) 4 \<inter> rng (vmem_base_addr sy) 4 = {}" by (rule link_own(2) [OF lay k(1)])
        show "rng (blink_slot sy k + NEXT) 4 \<subseteq> fish_own sy"
          using slot_own [OF k(1), of sy] struct_parts(2) by blast
      qed
      ultimately show "rng prev 4 \<inter> rng ?p 16 = {}" "rng prev 4 \<inter> rng (vmem_base_addr sy) 4 = {}" "rng prev 4 \<subseteq> fish_own sy"
        using prevs by metis+
    qed
    show "rng prev 4 \<inter> rng (blink_slot sy j) 12 = {}" if j: "j < 2000" for j
    proof (cases "prev = ?h")
      case True
      then show ?thesis using link_own(3) [OF lay j] struct_parts(3) [of "blink_slot sy j"] by auto
    next
      case False
      then obtain k where k: "k < 2000" "prev = blink_slot sy k + NEXT" using prevs i(4) by auto
      show ?thesis
      proof (cases "k = j")
        case True
        then show ?thesis using k struct_parts(5) [of "blink_slot sy j"] by auto
      next
        case ne: False
        show ?thesis using links_apart(2) [OF lay k(1) j ne] k(2) struct_parts(3) [of "blink_slot sy j"] by auto
      qed
    qed
  qed
  have goal: "blink_heap sy m' (xs @ ys) \<and> blinks sy m' (xs @ ys) = blinks sy m (xs @ ys) \<and> (\<forall>b. b \<notin> fish_own sy \<longrightarrow> m' b = m b)"
    if m': "m' = mp1_free (store32 m prev (load32 m (?p + NEXT))) ?p" for m'
  proof -
    have out: "m' b = m b" if "b \<notin> rng ?p 16" "b \<notin> rng prev 4" for b
      using that by (simp add: m' mp1_free_zeros store32_else)
    have new: "load32 m' prev = load32 m (?p + NEXT)"
      unfolding m' mp1_free_zeros using prev_own(1) by (subst load32_store_other) (simp_all add: load32_store32)
    have links: "load32 m' a = load32 m a" if la: "a \<in> insert ?h ((\<lambda>j. blink_slot sy j + NEXT) ` set (xs @ ys))" "a \<noteq> prev" for a
    proof (rule load32_cong, rule out)
      fix b assume b: "b \<in> rng a 4"
      consider "a = ?h" | j where "j \<in> set (xs @ ys)" "a = blink_slot sy j + NEXT"
        using la(1) unfolding insert_iff image_iff by blast
      then have "rng a 4 \<inter> rng ?p 16 = {} \<and> rng a 4 \<inter> rng prev 4 = {}"
      proof cases
        case 1
        then obtain k where "k \<in> set xs" "prev = blink_slot sy k + NEXT" using la(2) prevs by auto
        moreover from this have "k < 2000" using i(4) by auto
        ultimately show ?thesis using 1 link_own(1) [OF lay] link_own(3) [OF lay i(1)] by blast
      next
        case 2
        then have j: "j < 2000" "j \<noteq> i" using i by auto
        have "rng a 4 \<inter> rng prev 4 = {}"
        proof (cases "prev = ?h")
          case True
          then show ?thesis using 2 link_own(1) [OF lay j(1)] by simp
        next
          case False
          then obtain k where k: "k \<in> set xs" "prev = blink_slot sy k + NEXT" using prevs by auto
          then have "k \<noteq> j" "k < 2000" using la(2) 2 i(4) by auto
          then show ?thesis using links_apart(1) [OF lay j(1)] k 2 by auto
        qed
        then show ?thesis using 2 links_apart(2) [OF lay j(1) i(1) j(2)] by simp
      qed
      then show "b \<notin> rng ?p 16" "b \<notin> rng prev 4" using b by auto
    qed
    have ch: "chain sy m' (load32 m' ?h) (xs @ ys)" using un new links by blast
    have other: "blink_at m' (blink_slot sy j) = blink_at m (blink_slot sy j)" if "j < 2000" "j \<noteq> i" for j
      using slots_disjoint [OF lay that(1) i(1) that(2)] struct_parts(3) [of "blink_slot sy j"] prev_own(4) [OF that(1)]
      by (intro blink_at_cong out) blast+
    have zero: "location (blink_at m' ?p) = 0"
    proof -
      have "m' (?p + of_nat n) = 0" if "n < 16" for n
        using that store_bytes_nth [of "replicate 16 0" n _ ?p] by (simp add: m' mp1_free_zeros)
      from this [of 0] this [of 1] show ?thesis by (simp add: blink_at_def load16_def LOCATION_def)
    qed
    have "load32 m' (vmem_base_addr sy) = load32 m (vmem_base_addr sy)"
      using link_own(4) [OF lay i(1)] prev_own(2) by (intro load32_cong out) blast+
    moreover have "location (blink_at m' (blink_slot sy j)) = 0 \<longleftrightarrow> j \<notin> set (xs @ ys)" if "j < 2000" for j
      using heap that other [OF that] zero i by (cases "j = i") (auto simp: blink_heap_def)
    moreover have "location (blink_at m' (blink_slot sy j)) < 2000" if "j \<in> set (xs @ ys)" for j
    proof -
      have "j < 2000" "j \<noteq> i" using that i by auto
      then show ?thesis using heap that other by (auto simp: blink_heap_def)
    qed
    ultimately have "blink_heap sy m' (xs @ ys)" using heap ch i(4,5) unfolding blink_heap_def by auto
    moreover have "blinks sy m' (xs @ ys) = blinks sy m (xs @ ys)"
      unfolding blinks_def using i by (intro map_cong refl other) auto
    moreover have "m' b = m b" if "b \<notin> fish_own sy" for b
      using that slot_own [OF i(1), of sy] prev_own(3) by (intro out) blast+
    ultimately show ?thesis by blast
  qed
  show thesis using that [OF _ goal] un by blast
qed

lemma ioctl_remove_refines:
  assumes lay: "fish_layout sy" and heap: "blink_heap sy m is"
  shows "case find_loc (ucast arg) (blinks sy m is) of
      None \<Rightarrow> mp1_ioctl_remove sy m arg = Some (minus_one, m)
    | Some b \<Rightarrow> \<exists>m' js. mp1_ioctl_remove sy m arg = Some (0, m') \<and> blink_heap sy m' js \<and>
        blinks sy m' js = remove_first (ucast arg) (blinks sy m is) \<and> (\<forall>x. x \<notin> fish_own sy \<longrightarrow> m' x = m x)"
proof (cases "find_loc (ucast arg) (blinks sy m is)")
  case None
  then show ?thesis using helper_result [OF lay heap, of arg] by (simp add: mp1_ioctl_remove_def)
next
  case (Some b)
  then obtain xs i ys where i: "is = xs @ i # ys" "i < 2000" "b = blink_at m (blink_slot sy i)" "location b = ucast arg"
    "\<forall>c \<in> set (blinks sy m xs). location c \<noteq> location b" "mp1_find_helper sy m arg = Some (blink_slot sy i)"
    using helper_result [OF lay heap, of arg] by auto
  obtain prev where p: "remove_find_prev m (blink_slot sy i) (mp1_list_head sy) = Some prev"
    "\<And>m'. m' = mp1_free (store32 m prev (load32 m (blink_slot sy i + NEXT))) (blink_slot sy i) \<Longrightarrow>
       blink_heap sy m' (xs @ ys) \<and> blinks sy m' (xs @ ys) = blinks sy m (xs @ ys) \<and>
       (\<forall>b. b \<notin> fish_own sy \<longrightarrow> m' b = m b)"
    using heap_unlink [OF lay heap [unfolded i(1)]] by blast
  have "remove_first (ucast arg) (blinks sy m is) = blinks sy m (xs @ ys)"
    using remove_first_at [OF i(5)] i(3,4) unfolding i(1) by (simp add: blinks_def)
  then show ?thesis
    using p(2) [OF refl] slot_nonzero [OF lay i(2)] unfolding Some option.case
    by (simp only: mp1_ioctl_remove_def i(6) p(1) bind.bind_lunit if_False Let_def) blast
qed

text \<open>A change to the record of one element.\<close>

lemma heap_update:
  assumes lay: "fish_layout sy" and heap: "blink_heap sy m is" and k: "k < 2000"
    and same: "\<And>x. x \<in> fish_own sy \<Longrightarrow> x \<notin> rng (blink_slot sy k) 12 \<Longrightarrow> m' x = m x"
    and loc: "location (blink_at m' (blink_slot sy k)) = location (blink_at m (blink_slot sy k))"
  shows "blink_heap sy m' is" "j < 2000 \<Longrightarrow> j \<noteq> k \<Longrightarrow> blink_at m' (blink_slot sy j) = blink_at m (blink_slot sy j)"
proof -
  let ?p = "blink_slot sy k"
  have sub: "set is \<subseteq> {..<2000}" using heap by (simp add: blink_heap_def)
  show other: "blink_at m' (blink_slot sy j) = blink_at m (blink_slot sy j)" if "j < 2000" "j \<noteq> k" for j
    using slots_disjoint [OF lay that(1) k that(2)] slot_own [OF that(1), of sy] struct_parts(3)
    by (intro blink_at_cong same) blast+
  have w: "load32 m' (mp1_list_head sy) = load32 m (mp1_list_head sy)" "load32 m' (vmem_base_addr sy) = load32 m (vmem_base_addr sy)"
    using link_own(3,4) [OF lay k] struct_parts(3) [of ?p] by (intro load32_cong same; auto simp: fish_own_def)+
  have "chain sy m' (load32 m (mp1_list_head sy)) is"
  proof (rule chain_cong [of _ m])
    show "chain sy m (load32 m (mp1_list_head sy)) is" using heap by (simp add: blink_heap_def)
    fix i b assume i: "i \<in> set is" "b \<in> rng (blink_slot sy i + NEXT) 4"
    then have "i < 2000" using sub by auto
    then have "b \<in> fish_own sy" "b \<notin> rng ?p 12"
      using i(2) slot_own [of i sy] struct_parts(2) [of "blink_slot sy i"] links_apart(2) [OF lay _ k, of i] struct_parts(3,5) [of ?p]
      by (cases "i = k"; blast)+
    then show "m' b = m b" by (rule same)
  qed
  moreover have "location (blink_at m' (blink_slot sy i)) = location (blink_at m (blink_slot sy i))" if "i < 2000" for i
    using loc other [OF that] by (cases "i = k") auto
  ultimately show "blink_heap sy m' is" using heap sub by (auto simp: blink_heap_def w subset_iff)
qed

lemma low_bit_positive: "\<not> (x :: u8) AND 1 <s 0"
proof -
  have "x AND 1 = of_bool (odd x)" by (simp add: and_one_eq mod_2_eq_odd)
  then show ?thesis by (cases "odd x") (simp_all add: word_sless_alt)
qed

lemma ucast_low: "(ucast (a AND 0xFFFF :: u32) :: u16) = ucast a"
proof (rule bit_word_eqI)
  fix n assume n: "n < LENGTH(16)"
  have "a AND 0xFFFF = take_bit 16 a" using take_bit_eq_mask [of 16 a] by (simp add: mask_eq_exp_minus_1)
  then show "bit (ucast (a AND 0xFFFF) :: u16) n = bit (ucast a :: u16) n" using n by (simp add: bit_simps)
qed

lemma struct_words: "rng (p + ON_LENGTH) 2 \<subseteq> rng p 12" "rng (p + OFF_LENGTH) 2 \<subseteq> rng p 12"
  "rng (p + COUNTDOWN) 2 \<subseteq> rng p 12" "rng (p + STATUS) 2 \<subseteq> rng p 12"
  using rng_shift [of 4 2 12 p] rng_shift [of 6 2 12 p] rng_shift [of 8 2 12 p] rng_shift [of 10 2 12 p]
  by (simp_all add: blink_offsets)

text \<open>The four copies, from an element to another or to itself.\<close>

lemma sync_copies:
  fixes m :: "u32 \<Rightarrow> u8"
  assumes apart: "q = p \<or> rng q 12 \<inter> rng p 12 = {}"
  defines "m1 \<equiv> store16 m (p + ON_LENGTH) (load16 m (q + ON_LENGTH))"
  defines "m2 \<equiv> store16 m1 (p + OFF_LENGTH) (load16 m1 (q + OFF_LENGTH))"
  defines "m3 \<equiv> store16 m2 (p + COUNTDOWN) (load16 m2 (q + COUNTDOWN))"
  defines "m4 \<equiv> store16 m3 (p + STATUS) (load16 m3 (q + STATUS))"
  shows "blink_at m4 p = synced (blink_at m q) (blink_at m p)" "x \<notin> rng p 12 \<Longrightarrow> m4 x = m x"
proof -
  have outs: "m1 x = m x" "m2 x = m x" "m3 x = m x" "m4 x = m x" if "x \<notin> rng p 12" for x
  proof -
    have "x \<notin> rng (p + ON_LENGTH) 2" "x \<notin> rng (p + OFF_LENGTH) 2" "x \<notin> rng (p + COUNTDOWN) 2" "x \<notin> rng (p + STATUS) 2"
      using that struct_words [of p] by auto
    then show "m1 x = m x" "m2 x = m x" "m3 x = m x" "m4 x = m x"
      by (simp_all add: m1_def m2_def m3_def m4_def store16_other)
  qed
  then show "m4 x = m x" if "x \<notin> rng p 12" using that by blast
  have p: "blink_at m1 p = (blink_at m p)\<lparr>on_length := load16 m (q + ON_LENGTH)\<rparr>"
    "blink_at m2 p = (blink_at m1 p)\<lparr>off_length := load16 m1 (q + OFF_LENGTH)\<rparr>"
    "blink_at m3 p = (blink_at m2 p)\<lparr>countdown := load16 m2 (q + COUNTDOWN)\<rparr>"
    "blink_at m4 p = (blink_at m3 p)\<lparr>status := load16 m3 (q + STATUS)\<rparr>"
    by (simp_all add: m1_def m2_def m3_def m4_def blink_at_store)
  have q: "off_length (blink_at m1 q) = off_length (blink_at m q) \<and> countdown (blink_at m2 q) = countdown (blink_at m q) \<and>
      status (blink_at m3 q) = status (blink_at m q)"
  proof (cases "q = p")
    case True
    then show ?thesis using p by simp
  next
    case False
    then have "x \<notin> rng p 12" if "x \<in> rng q 12" for x using apart that by auto
    then have "blink_at m1 q = blink_at m q" "blink_at m2 q = blink_at m q" "blink_at m3 q = blink_at m q"
      using outs by (auto intro!: blink_at_cong)
    then show ?thesis by simp
  qed
  then show "blink_at m4 p = synced (blink_at m q) (blink_at m p)"
    by (simp add: p blink_reads synced_def)
qed

lemma ioctl_sync_refines:
  assumes lay: "fish_layout sy" and heap: "blink_heap sy m is"
  shows "case (find_loc (ucast (drop_bit 16 arg)) (blinks sy m is), find_loc (ucast arg) (blinks sy m is)) of
      (Some a, Some b) \<Rightarrow> \<exists>m'. mp1_ioctl_sync sy m arg = Some (0, m') \<and> blink_heap sy m' is \<and>
        blinks sy m' is = update_first (ucast arg) (synced a) (blinks sy m is) \<and>
        (\<forall>x. x \<notin> fish_own sy \<longrightarrow> m' x = blink_show (location b) (off_char b) m x)
    | _ \<Rightarrow> mp1_ioctl_sync sy m arg = Some (minus_one, m)"
proof (cases "find_loc (ucast (drop_bit 16 arg)) (blinks sy m is)")
  case None
  then show ?thesis using helper_result [OF lay heap, of "drop_bit 16 arg"] by (simp add: mp1_ioctl_sync_def)
next
  case src: (Some a)
  then obtain q where q: "q < 2000" "a = blink_at m (blink_slot sy q)" "mp1_find_helper sy m (drop_bit 16 arg) = Some (blink_slot sy q)"
    using helper_result [OF lay heap, of "drop_bit 16 arg"] by auto
  show ?thesis
  proof (cases "find_loc (ucast arg) (blinks sy m is)")
    case None
    then show ?thesis using helper_result [OF lay heap, of "arg AND 0xFFFF"] q(3) slot_nonzero [OF lay q(1)] src
      by (simp add: mp1_ioctl_sync_def ucast_low)
  next
    case dst: (Some b)
    then obtain xs k ys where k: "is = xs @ k # ys" "k < 2000" "b = blink_at m (blink_slot sy k)" "location b = ucast arg"
      "\<forall>c \<in> set (blinks sy m xs). location c \<noteq> location b" "mp1_find_helper sy m (arg AND 0xFFFF) = Some (blink_slot sy k)"
      using helper_result [OF lay heap, of "arg AND 0xFFFF"] by (auto simp: ucast_low)
    let ?p = "blink_slot sy k" and ?q = "blink_slot sy q"
    define m1 where "m1 = store16 m (?p + ON_LENGTH) (load16 m (?q + ON_LENGTH))"
    define m2 where "m2 = store16 m1 (?p + OFF_LENGTH) (load16 m1 (?q + OFF_LENGTH))"
    define m3 where "m3 = store16 m2 (?p + COUNTDOWN) (load16 m2 (?q + COUNTDOWN))"
    define m4 where "m4 = store16 m3 (?p + STATUS) (load16 m3 (?q + STATUS))"
    have ap: "?q = ?p \<or> rng ?q 12 \<inter> rng ?p 12 = {}"
    proof (cases "q = k")
      case False
      from slots_disjoint [OF lay q(1) k(2) False] show ?thesis using struct_parts(3) by blast
    qed simp
    note cp = sync_copies [where m = m, OF ap, folded m1_def, folded m2_def, folded m3_def, folded m4_def, folded q(2) k(3)]
    have loc: "location (blink_at m4 ?p) = location (blink_at m ?p)" by (simp add: cp(1) synced_def k(3))
    note up = heap_update [OF lay heap k(2) cp(2) loc]
    have lt: "location b < 2000" using heap k(1,3) by (simp add: blink_heap_def)
    have v: "load32 m4 (vmem_base_addr sy) = PAGE_VIDMEM" using up(1) by (simp add: blink_heap_def)
    define m5 where "m5 = blink_show (location b) (off_char b) m4"
    have f: "load16 m4 (?p + LOCATION) = location b" "m4 (?p + OFF_CHAR) = off_char b"
      by (simp_all add: blink_reads cp(1) synced_def)
    have run: "mp1_ioctl_sync sy m arg = Some (0, m5)"
      using q(3) k(6) slot_nonzero [OF lay q(1)] slot_nonzero [OF lay k(2)]
      by (simp add: mp1_ioctl_sync_def m1_def [symmetric] m2_def [symmetric] m3_def [symmetric] m4_def [symmetric]
          low_bit_positive f poke_shows [OF v lt, simplified] m5_def)
    have own: "m5 x = m4 x" if "x \<in> fish_own sy" for x unfolding m5_def by (rule own_not_screen [OF lay that lt])
    note h5 = blink_heap_same [OF own lay up(1)]
    have d: "distinct is" "set is \<subseteq> {..<2000}" using heap by (simp_all add: blink_heap_def)
    have rest: "map (\<lambda>j. blink_at m4 (blink_slot sy j)) js = blinks sy m js" if "k \<notin> set js" "set js \<subseteq> {..<2000}" for js
      unfolding blinks_def using that by (intro map_cong refl up(2)) auto
    have "blinks sy m4 is = blinks sy m xs @ synced a b # blinks sy m ys"
      using d rest [of xs] rest [of ys] by (simp add: k(1) blinks_def cp(1))
    moreover have "update_first (ucast arg) (synced a) (blinks sy m is) = blinks sy m xs @ synced a b # blinks sy m ys"
      using update_first_at [OF k(5)] k(4) by (simp add: k(1) blinks_def k(3))
    moreover have "m5 x = blink_show (location b) (off_char b) m x" if "x \<notin> fish_own sy" for x
    proof -
      have "x \<notin> rng ?p 12" using that slot_own [OF k(2), of sy] struct_parts(3) [of ?p] by auto
      then show ?thesis using cp(2) by (simp add: m5_def blink_show_def)
    qed
    ultimately show ?thesis using run h5 by (simp add: src dst)
  qed
qed

lemma ioctl_find_refines:
  assumes lay: "fish_layout sy" and heap: "blink_heap sy m is" and args: "blink_args sy tmp arg"
  defines "l \<equiv> location (blink_at m arg)"
  shows "\<exists>m'. mp1_ioctl_find sy tmp m arg = Some (if find_loc l (blinks sy m is) = None then minus_one else 0, m') \<and>
    blink_heap sy m' is \<and> blinks sy m' is = blinks sy m is \<and>
    blink_at m' arg = (case find_loc l (blinks sy m is) of None \<Rightarrow> blink_at m arg | Some b \<Rightarrow> b) \<and>
    (\<forall>x. x \<notin> rng tmp 16 \<union> (if find_loc l (blinks sy m is) = None then {} else rng arg 16) \<longrightarrow> m' x = m x)"
proof -
  have t2: "rng tmp 2 \<subseteq> rng tmp 16" "rng arg 2 \<subseteq> rng arg 16" by (rule rng_mono; simp)+
  have T: "rng tmp 16 \<inter> fish_own sy = {}" "rng tmp 16 \<inter> rng arg 16 = {}" "rng arg 16 \<inter> fish_own sy = {}"
    using args by (auto simp: blink_args_def)
  define m1 where "m1 = store_bytes m tmp (bytes_at m arg 2)"
  have c1: "ece391_memcpy m tmp arg 2 = (0, m1)" unfolding m1_def using t2 T(2) by (intro memcpy_short) blast
  have o1: "m1 x = m x" if "x \<notin> rng tmp 16" for x unfolding m1_def using that t2(1) by (intro store_bytes_other) auto
  have h1: "blink_heap sy m1 is" "blinks sy m1 is = blinks sy m is"
    using o1 T(1) by (auto intro!: blink_heap_same [OF _ lay heap])
  have "bytes_at m1 tmp 2 = bytes_at m arg 2" unfolding m1_def by (rule bytes_at_store_same) simp_all
  then have "load16 m1 tmp = load16 m arg" by (simp add: load16_def numeral_2_eq_2)
  then have l1: "load16 m1 tmp = l" by (simp add: l_def blink_at_def LOCATION_def)
  have l2: "(ucast (ucast l :: u32) :: u16) = l" by (rule bit_word_eqI) (simp add: bit_simps)
  note hr = helper_result [OF lay h1(1), of "ucast l", unfolded l2 h1(2)]
  have a1: "blink_at m1 arg = blink_at m arg"
    using T(2) struct_parts(3) [of arg] by (intro blink_at_cong o1) blast
  show ?thesis
  proof (cases "find_loc l (blinks sy m is)")
    case None
    then have "mp1_ioctl_find sy tmp m arg = Some (minus_one, m1)"
      using hr by (simp add: mp1_ioctl_find_def c1 l1)
    with None h1 o1 a1 show ?thesis by auto
  next
    case (Some b)
    then obtain i where i: "i < 2000" "b = blink_at m1 (blink_slot sy i)" "mp1_find_helper sy m1 (ucast l) = Some (blink_slot sy i)"
      using hr by auto
    define m2 where "m2 = store_bytes m1 arg (bytes_at m1 (blink_slot sy i) 16)"
    have ap: "rng arg 16 \<inter> rng (blink_slot sy i) 16 = {}" using T(3) slot_own [OF i(1), of sy] by blast
    have c2: "ece391_memcpy m1 arg (blink_slot sy i) STRUCT_SIZE = (0, m2)" unfolding m2_def by (rule memcpy_struct [OF ap])
    have o2: "m2 x = m1 x" if "x \<notin> rng arg 16" for x unfolding m2_def using that by simp
    have "blink_at m2 arg = b"
      unfolding i(2) m2_def by (rule copied_struct, rule bytes_at_store_same) simp_all
    moreover have "mp1_ioctl_find sy tmp m arg = Some (0, m2)"
      using slot_nonzero [OF lay i(1)] by (simp add: mp1_ioctl_find_def c1 l1 i(3) c2)
    moreover have "blink_heap sy m2 is" "blinks sy m2 is = blinks sy m1 is"
      using o2 T(3) by (auto intro!: blink_heap_same [OF _ lay h1(1)])
    ultimately show ?thesis using Some h1(2) o1 o2 by auto
  qed
qed

section \<open>A blink in the corner of the screen\<close>

text \<open>An element at location 0 counts as free and is handed out again, which links it to itself.\<close>

lemma self_linked_never_ends:
  assumes lay: "fish_layout sy" and i: "i < 2000"
  shows "load32 m (blink_slot sy i + NEXT) = blink_slot sy i \<Longrightarrow> load32 m (vmem_base_addr sy) = PAGE_VIDMEM \<Longrightarrow>
    location (blink_at m (blink_slot sy i)) < 2000 \<Longrightarrow> tasklet_loop sy m (blink_slot sy i) = None"
proof -
  let ?p = "blink_slot sy i"
  let ?bad = "\<lambda>m p. p = ?p \<and> load32 m (?p + NEXT) = ?p \<and> load32 m (vmem_base_addr sy) = PAGE_VIDMEM \<and> location (blink_at m ?p) < 2000"
  have p0: "?p \<noteq> 0" by (rule slot_nonzero [OF lay i])
  have keep: "?bad (tasklet_one sy m ?p) (load32 (tasklet_one sy m ?p) (?p + NEXT))" if "?bad m ?p" for m
  proof -
    have v: "load32 m (vmem_base_addr sy) = PAGE_VIDMEM" and l: "location (blink_at m ?p) < 2000" using that by blast+
    obtain m1 where m1: "tasklet_one sy m ?p = m1" "load32 m1 (?p + NEXT) = load32 m (?p + NEXT)" "blink_at m1 ?p = tick (blink_at m ?p)"
      "\<And>b. b \<in> fish_own sy \<Longrightarrow> b \<notin> rng (?p + COUNTDOWN) 4 \<Longrightarrow> m1 b = m b"
      by (rule tasklet_step [OF lay i refl v l]) blast
    have "load32 m1 (vmem_base_addr sy) = load32 m (vmem_base_addr sy)"
      using link_own(4) [OF lay i] struct_parts(1) [of ?p] by (intro load32_cong m1(4)) (auto simp: fish_own_def)
    with m1 that show ?thesis by simp
  qed
  have never: "tasklet_loop sy' m p = Some r \<Longrightarrow> sy' = sy \<longrightarrow> \<not> ?bad m p" for sy' m p r
  proof (erule tasklet_loop.raw_induct [where P = "\<lambda>sy' m p r. sy' = sy \<longrightarrow> \<not> ?bad m p", rotated])
    fix f sy' m p r
    assume ih: "\<And>sy' m p r. f sy' m p = Some r \<Longrightarrow> sy' = sy \<longrightarrow> \<not> ?bad m p"
      and eq: "(if p = 0 then Some m else let m = tasklet_one sy' m p in f sy' m (load32 m (p + NEXT))) = Some r"
    show "sy' = sy \<longrightarrow> \<not> ?bad m p"
    proof (intro impI notI)
      assume s: "sy' = sy" and bad: "?bad m p"
      then have "f sy (tasklet_one sy m ?p) (load32 (tasklet_one sy m ?p) (?p + NEXT)) = Some r"
        using eq p0 by (simp add: Let_def)
      from ih [OF this] keep [of m] bad show False by blast
    qed
  qed
  assume "load32 m (?p + NEXT) = ?p" "load32 m (vmem_base_addr sy) = PAGE_VIDMEM" "location (blink_at m ?p) < 2000"
  then show "tasklet_loop sy m ?p = None" using never [of sy m ?p] by (cases "tasklet_loop sy m ?p") auto
qed


lemma corner_twice:
  assumes lay: "fish_layout sy" and heap: "blink_heap sy m is" and args: "blink_args sy tmp arg"
    and room: "length is < 2000" and zero: "location (blink_at m arg) = 0"
  shows "\<exists>m1 m2. mp1_ioctl_add sy tmp m arg = (0, m1) \<and> mp1_ioctl_add sy tmp m1 arg = (0, m2) \<and>
    mp1_rtc_tasklet sy m2 = None"
proof -
  have v: "load32 m (vmem_base_addr sy) = PAGE_VIDMEM" using heap by (simp add: blink_heap_def)
  have free: "\<not> (\<forall>j < 2000. location (blink_at m (blink_slot sy j)) \<noteq> 0)" using full_array [OF heap] room by blast
  obtain m1 i where m1: "mp1_ioctl_add sy tmp m arg = (0, m1)" "i < 2000"
    "find (\<lambda>j. location (blink_at m (blink_slot sy j)) = 0) [0..<2000] = Some i"
    "load32 m1 (mp1_list_head sy) = blink_slot sy i" "blink_at m1 (blink_slot sy i) = started (blink_at m arg)"
    "\<And>x. x \<in> fish_own sy \<Longrightarrow> x \<notin> rng (blink_slot sy i) 16 \<Longrightarrow> x \<notin> rng (mp1_list_head sy) 4 \<Longrightarrow> m1 x = m x"
    "\<And>x. x \<notin> fish_own sy \<Longrightarrow> x \<notin> rng tmp 16 \<Longrightarrow> m1 x = blink_show (location (blink_at m arg)) (on_char (blink_at m arg)) m x"
    by (rule add_effect [OF lay args v]) (use free zero in auto)
  have A: "rng (blink_array sy) 32000 \<inter> rng (mp1_list_head sy) 4 = {}" "rng (mp1_list_head sy) 4 \<inter> rng (vmem_base_addr sy) 4 = {}"
    using lay by (simp_all add: fish_layout_def)
  have v1: "load32 m1 (vmem_base_addr sy) = PAGE_VIDMEM"
    unfolding v [symmetric] using link_own(4) [OF lay m1(2)] A(2) by (intro load32_cong m1(6)) (auto simp: fish_own_def)
  have arg: "blink_at m1 arg = blink_at m arg"
  proof (rule blink_at_cong)
    fix x assume "x \<in> rng arg 12"
    then have "x \<in> rng arg 16" using struct_parts(3) [of arg] by blast
    then have x: "x \<notin> fish_own sy" "x \<notin> rng tmp 16" "x \<notin> rng VIDEO 4000" using args by (auto simp: blink_args_def)
    then show "m1 x = m x"
      using m1(7) low_byte_off(2) [of "location (blink_at m arg)"] zero by (auto simp: blink_show_def)
  qed
  have slots: "location (blink_at m1 (blink_slot sy j)) = location (blink_at m (blink_slot sy j))" if "j < 2000" for j
  proof (cases "j = i")
    case True
    have "location (blink_at m (blink_slot sy i)) = 0" using m1(3) by (auto simp: find_Some_iff)
    then show ?thesis using True m1(5) zero by (simp add: started_def)
  next
    case False
    have "blink_at m1 (blink_slot sy j) = blink_at m (blink_slot sy j)"
      using slots_disjoint [OF lay that m1(2) False] struct_parts(3) [of "blink_slot sy j"] slot_in_array [OF that, of sy] A(1)
      by (intro blink_at_cong m1(6)) (auto simp: fish_own_def)
    then show ?thesis by simp
  qed
  have find1: "find (\<lambda>j. location (blink_at m1 (blink_slot sy j)) = 0) [0..<2000] = Some i"
    unfolding m1(3) [symmetric] by (rule find_same) (simp add: slots)
  then have free1: "\<not> (\<forall>j < 2000. location (blink_at m1 (blink_slot sy j)) \<noteq> 0)" by (auto simp: find_Some_iff)
  obtain m2 k where m2: "mp1_ioctl_add sy tmp m1 arg = (0, m2)"
    "find (\<lambda>j. location (blink_at m1 (blink_slot sy j)) = 0) [0..<2000] = Some k"
    "load32 m2 (mp1_list_head sy) = blink_slot sy k" "load32 m2 (blink_slot sy k + NEXT) = load32 m1 (mp1_list_head sy)"
    "blink_at m2 (blink_slot sy k) = started (blink_at m1 arg)"
    "\<And>x. x \<in> fish_own sy \<Longrightarrow> x \<notin> rng (blink_slot sy k) 16 \<Longrightarrow> x \<notin> rng (mp1_list_head sy) 4 \<Longrightarrow> m2 x = m1 x"
    by (rule add_effect [OF lay args v1]) (use free1 zero arg in auto)
  have k: "k = i" using m2(2) find1 by simp
  have "load32 m2 (vmem_base_addr sy) = PAGE_VIDMEM"
    unfolding v1 [symmetric] using link_own(4) [OF lay m1(2)] A(2) k by (intro load32_cong m2(6)) (auto simp: fish_own_def)
  moreover have "load32 m2 (blink_slot sy i + NEXT) = blink_slot sy i" using m2(4) m1(4) k by simp
  moreover have "location (blink_at m2 (blink_slot sy i)) < 2000" using m2(5) k arg zero by (simp add: started_def)
  ultimately have "tasklet_loop sy m2 (blink_slot sy i) = None" by (intro self_linked_never_ends [OF lay m1(2)])
  then have "mp1_rtc_tasklet sy m2 = None" using m2(3) k by (simp add: mp1_rtc_tasklet_def)
  with m1(1) m2(1) show ?thesis by blast
qed

section \<open>What the list promises\<close>

text \<open>A command on a list of records: the result, the list after it, what goes back to the caller and
  what is put on the screen. \<open>b\<close> is the record the argument points to.\<close>

definition ioctl_spec ::
  "u32 \<Rightarrow> u32 \<Rightarrow> blink \<Rightarrow> blink list \<Rightarrow> u32 \<times> blink list \<times> blink option \<times> (u16 \<times> u8) option" where
  "ioctl_spec cmd arg b bs =
     (if cmd = RTC_ADD then
        if location b < 2000 \<and> length bs < 2000 then (0, started b # bs, None, Some (location b, on_char b))
        else (minus_one, bs, None, None)
      else if cmd = RTC_REMOVE then
        if find_loc (ucast arg) bs = None then (minus_one, bs, None, None) else (0, remove_first (ucast arg) bs, None, None)
      else if cmd = RTC_FIND then
        case find_loc (location b) bs of None \<Rightarrow> (minus_one, bs, None, None) | Some c \<Rightarrow> (0, bs, Some c, None)
      else
        case (find_loc (ucast (drop_bit 16 arg)) bs, find_loc (ucast arg) bs) of
          (Some a, Some c) \<Rightarrow> (0, update_first (ucast arg) (synced a) bs, None, Some (location c, off_char c))
        | _ \<Rightarrow> (minus_one, bs, None, None))"

definition put_shown :: "(u16 \<times> u8) option \<Rightarrow> (u32 \<Rightarrow> u8) \<Rightarrow> (u32 \<Rightarrow> u8)" where
  "put_shown p m = (case p of None \<Rightarrow> m | Some (l, c) \<Rightarrow> blink_show l c m)"

lemma length_blinks [simp]: "length (blinks sy m is) = length is"
  by (simp add: blinks_def)

text \<open>C10. The linked list of \<^verbatim>\<open>blink.S\<close> implements a list of records: every command of \<open>mp1_ioctl\<close> returns, with the
  result, the new list, the record handed back and the character shown that \<open>ioctl_spec\<close> gives, and
  writes nothing else but its structure on the stack. Adding takes the front and fails outside the screen and when
  all 2000 elements are in use; the others act on the first element with the location.\<close>

theorem ioctl_implements_spec:
  assumes "fish_layout sy" "blink_heap sy m is"
    and "cmd \<in> {RTC_ADD, RTC_REMOVE, RTC_FIND, RTC_SYNC}"
    and "cmd \<in> {RTC_ADD, RTC_FIND} \<longrightarrow> blink_args sy tmp arg" "cmd = RTC_ADD \<longrightarrow> location (blink_at m arg) \<noteq> 0"
    and "ioctl_spec cmd arg (blink_at m arg) (blinks sy m is) = (r, bs, out, pixel)"
  shows "\<exists>m' js. mp1_ioctl sy tmp m arg cmd = Some (r, m') \<and> blink_heap sy m' js \<and> blinks sy m' js = bs \<and>
    (\<forall>c. out = Some c \<longrightarrow> blink_at m' arg = c) \<and>
    (\<forall>x. x \<notin> fish_own sy \<union> rng tmp 16 \<union> (if out = None then {} else rng arg 16) \<longrightarrow> m' x = put_shown pixel m x)"
proof -
  have distinct_cmds: "RTC_REMOVE \<noteq> RTC_ADD" "RTC_FIND \<noteq> RTC_ADD" "RTC_FIND \<noteq> RTC_REMOVE" "RTC_SYNC \<noteq> RTC_ADD"
    "RTC_SYNC \<noteq> RTC_REMOVE" "RTC_SYNC \<noteq> RTC_FIND" by (simp_all add: blink_commands)
  consider "cmd = RTC_ADD" | "cmd = RTC_REMOVE" | "cmd = RTC_FIND" | "cmd = RTC_SYNC" using assms(3) by blast
  then show ?thesis
  proof cases
    case 1
    then have args: "blink_args sy tmp arg" and nz: "location (blink_at m arg) \<noteq> 0" using assms(4,5) by simp_all
    obtain r' m' where res: "mp1_ioctl_add sy tmp m arg = (r', m')" by (cases "mp1_ioctl_add sy tmp m arg")
    show ?thesis
      using ioctl_add_refines [OF assms(1,2) args] nz assms(6) unfolding res 1
      by (cases "location (blink_at m arg) < 2000 \<and> length is < 2000")
        (auto simp: ioctl_spec_def mp1_ioctl_def res put_shown_def)
  next
    case 2
    then show ?thesis
      using ioctl_remove_refines [OF assms(1,2), of arg] assms(2,6) distinct_cmds
      by (cases "find_loc (ucast arg) (blinks sy m is)") (auto simp: ioctl_spec_def mp1_ioctl_def put_shown_def)
  next
    case 3
    then have "blink_args sy tmp arg" using assms(4) by simp
    from ioctl_find_refines [OF assms(1,2) this] 3 assms(6) distinct_cmds show ?thesis
      by (cases "find_loc (location (blink_at m arg)) (blinks sy m is)") (auto simp: ioctl_spec_def mp1_ioctl_def put_shown_def)
  next
    case 4
    then show ?thesis
      using ioctl_sync_refines [OF assms(1,2), of arg] assms(2,6) distinct_cmds
      by (cases "find_loc (ucast (drop_bit 16 arg)) (blinks sy m is)"; cases "find_loc (ucast arg) (blinks sy m is)")
        (auto simp: ioctl_spec_def mp1_ioctl_def put_shown_def)
  qed
qed

text \<open>An empty list, and the structure of \<^verbatim>\<open>main\<close> for an \<^verbatim>\<open>I\<close> in row 6.\<close>

definition fish1 :: fish_syms where
  "fish1 = \<lparr>blink_array = 0x8050000, mp1_list_head = 0x8060000, vmem_base_addr = 0x8060010\<rparr>"

definition blink1 :: "u8 list" where
  "blink1 = [0x1C, 0x02, 0x49, 0x4D, 7, 0, 6, 0, 0, 0, 0, 0, 0, 0, 0, 0]"

definition fish1_mem :: "u8 list \<Rightarrow> (u32 \<Rightarrow> u8)" where
  "fish1_mem xs = store_bytes (store32 (\<lambda>_. 0) 0x8060010 PAGE_VIDMEM) 0x83FFE00 xs"

lemma fish1_layout: "fish_layout fish1"
proof -
  have "rng 0x8050000 32000 \<inter> rng 0x8060000 4 = {}" "rng 0x8050000 32000 \<inter> rng 0x8060010 4 = {}"
    "rng 0x8060000 4 \<inter> rng 0x8060010 4 = {}" "rng 0x8050000 32000 \<inter> rng VIDEO 4000 = {}"
    "rng 0x8060000 4 \<inter> rng VIDEO 4000 = {}" "rng 0x8060010 4 \<inter> rng VIDEO 4000 = {}"
    unfolding VIDEO_def by (rule rng_disjointI; simp)+
  then show ?thesis by (auto simp: fish_layout_def fish_own_def fish1_def)
qed

lemma fish1_args: "blink_args fish1 0x83FFF00 0x83FFE00"
proof -
  have "rng 0x83FFF00 16 \<inter> rng 0x8050000 32000 = {}" "rng 0x83FFF00 16 \<inter> rng 0x8060000 4 = {}"
    "rng 0x83FFF00 16 \<inter> rng 0x8060010 4 = {}" "rng 0x83FFF00 16 \<inter> rng VIDEO 4000 = {}" "rng 0x83FFF00 16 \<inter> rng 0x83FFE00 16 = {}"
    "rng 0x83FFE00 16 \<inter> rng 0x8050000 32000 = {}" "rng 0x83FFE00 16 \<inter> rng 0x8060000 4 = {}"
    "rng 0x83FFE00 16 \<inter> rng 0x8060010 4 = {}" "rng 0x83FFE00 16 \<inter> rng VIDEO 4000 = {}"
    unfolding VIDEO_def by (rule rng_disjointI; simp)+
  then show ?thesis by (auto simp: blink_args_def fish_own_def fish1_def)
qed

lemma fish1_heap:
  assumes "length xs = 16"
  shows "blink_heap fish1 (fish1_mem xs) []"
proof -
  have ap: "rng 0x83FFE00 16 \<inter> fish_own fish1 = {}" using fish1_args by (auto simp: blink_args_def)
  have own: "fish1_mem xs b = store32 (\<lambda>_. 0) 0x8060010 PAGE_VIDMEM b" if "b \<in> fish_own fish1" for b
    unfolding fish1_mem_def using that ap assms by (intro store_bytes_other) auto
  have zero: "store32 (\<lambda>_. 0) 0x8060010 PAGE_VIDMEM b = 0" if "b \<notin> rng 0x8060010 4" for b
    using that by (simp add: store32_else)
  have V: "vmem_base_addr fish1 = 0x8060010" by (simp add: fish1_def)
  have l: "load32 m a = 0" if "\<And>b. b \<in> rng a 4 \<Longrightarrow> m b = 0" for m a
    using load32_cong [of a m "\<lambda>_. 0"] that by (simp add: load32_def)
  have h: "load32 (fish1_mem xs) (mp1_list_head fish1) = 0"
    using fish1_layout by (intro l) (auto simp: own zero fish_own_def fish_layout_def V disjoint_iff)
  have v: "load32 (fish1_mem xs) (vmem_base_addr fish1) = PAGE_VIDMEM"
  proof -
    have "load32 (fish1_mem xs) 0x8060010 = load32 (store32 (\<lambda>_. 0) 0x8060010 PAGE_VIDMEM) 0x8060010"
      by (intro load32_cong own) (simp add: fish_own_def V)
    then show ?thesis by (simp add: V load32_store32)
  qed
  have s: "location (blink_at (fish1_mem xs) (blink_slot fish1 i)) = 0" if "i < 2000" for i
  proof -
    have "fish1_mem xs b = (\<lambda>_. 0) b" if "b \<in> rng (blink_slot fish1 i) 12" for b
    proof -
      have b: "b \<in> rng (blink_slot fish1 i) 16" using that struct_parts(3) by blast
      then have "b \<notin> rng 0x8060010 4" using link_own(4) [OF fish1_layout \<open>i < 2000\<close>] V by auto
      then show ?thesis using own slot_own [OF \<open>i < 2000\<close>, of fish1] b zero by auto
    qed
    then have "blink_at (fish1_mem xs) (blink_slot fish1 i) = blink_at (\<lambda>_. 0) (blink_slot fish1 i)" by (rule blink_at_cong)
    then show ?thesis by (simp add: blink_at_def load16_def)
  qed
  show ?thesis using h v s by (simp add: blink_heap_def)
qed

lemma fish1_blink:
  "blink_at (fish1_mem blink1) 0x83FFE00 =
   \<lparr>location = 540, on_char = 0x49, off_char = 0x4D, on_length = 7, off_length = 6, countdown = 0, status = 0\<rparr>"
  by (simp add: blink_at_def blink_offsets load16_def fish1_mem_def blink1_def)

theorem ioctl_implements_spec_witness:
  "\<exists>m' i. mp1_ioctl fish1 0x83FFF00 (fish1_mem blink1) 0x83FFE00 RTC_ADD = Some (0, m') \<and> blink_heap fish1 m' [i] \<and>
     countdown (blink_at m' (blink_slot fish1 i)) = 7 \<and> m' 0xB8438 = 0x49"
proof -
  have h: "blink_heap fish1 (fish1_mem blink1) []" by (rule fish1_heap) (simp add: blink1_def)
  have s: "ioctl_spec RTC_ADD 0x83FFE00 (blink_at (fish1_mem blink1) 0x83FFE00) (blinks fish1 (fish1_mem blink1) []) =
      (0, [started (blink_at (fish1_mem blink1) 0x83FFE00)], None, Some (540, 0x49))"
    by (simp add: ioctl_spec_def fish1_blink blinks_def)
  have nz: "location (blink_at (fish1_mem blink1) 0x83FFE00) \<noteq> 0" by (simp add: fish1_blink)
  obtain m' js where m': "mp1_ioctl fish1 0x83FFF00 (fish1_mem blink1) 0x83FFE00 RTC_ADD = Some (0, m')" "blink_heap fish1 m' js"
    "blinks fish1 m' js = [started (blink_at (fish1_mem blink1) 0x83FFE00)]"
    "\<forall>x. x \<notin> fish_own fish1 \<union> rng 0x83FFF00 16 \<longrightarrow> m' x = put_shown (Some (540, 0x49)) (fish1_mem blink1) x"
    using ioctl_implements_spec [OF fish1_layout h _ _ _ s, of "0x83FFF00"] fish1_args nz by auto
  then obtain i where i: "js = [i]" by (cases js; cases "tl js") (auto simp: blinks_def)
  have "0xB8438 \<in> rng VIDEO 4000" by (simp add: VIDEO_def mem_rng_iff)
  then have "0xB8438 \<notin> fish_own fish1 \<union> rng 0x83FFF00 16"
    using fish1_layout fish1_args by (auto simp: fish_layout_def blink_args_def)
  then have "m' 0xB8438 = 0x49" using m'(4) by (simp add: put_shown_def blink_show_def VIDEO_def)
  moreover have "countdown (blink_at m' (blink_slot fish1 i)) = 7" using m'(3) i by (simp add: blinks_def started_def fish1_blink)
  ultimately show ?thesis using m'(1,2) i by auto
qed

text \<open>C11. \<open>mp1_rtc_tasklet\<close> ends on every such list and advances each record by one tick, in the order of
  the list: it counts down, and a record that reaches 0 changes between its two characters, shows the other one and
  starts the length of that one. Beside the program's own variables only the screen is written.\<close>

theorem tasklet_ticks_all:
  assumes "fish_layout sy" "blink_heap sy m is"
  shows "\<exists>m'. mp1_rtc_tasklet sy m = Some m' \<and> blink_heap sy m' is \<and> blinks sy m' is = map tick (blinks sy m is) \<and>
    (\<forall>x. x \<notin> fish_own sy \<longrightarrow> m' x = fold tick_show (blinks sy m is) m x)"
  using tasklet_ticks [OF assms] .

theorem tasklet_ticks_all_witness:
  "\<exists>m m' i. mp1_rtc_tasklet fish1 m = Some m' \<and> blink_heap fish1 m [i] \<and> countdown (blink_at m' (blink_slot fish1 i)) = 6"
proof -
  have h: "blink_heap fish1 (fish1_mem blink1) []" by (rule fish1_heap) (simp add: blink1_def)
  obtain m i where m: "blink_heap fish1 m [i]" "blinks fish1 m [i] = [started (blink_at (fish1_mem blink1) 0x83FFE00)]"
    using ioctl_add_refines [OF fish1_layout h fish1_args] by (auto simp: fish1_blink blinks_def)
  from tasklet_ticks_all [OF fish1_layout m(1)] obtain m' where
    "mp1_rtc_tasklet fish1 m = Some m'" "blinks fish1 m' [i] = map tick (blinks fish1 m [i])" by blast
  moreover have "countdown (tick (started (blink_at (fish1_mem blink1) 0x83FFE00))) = 6"
    by (simp add: tick_def started_def fish1_blink word_sless_alt)
  ultimately have "mp1_rtc_tasklet fish1 m = Some m' \<and> blink_heap fish1 m [i] \<and> countdown (blink_at m' (blink_slot fish1 i)) = 6"
    using m by (simp add: blinks_def)
  then show ?thesis by blast
qed

text \<open>C31. A blinking character in the corner of the screen breaks the list: location 0 marks an element as
  free, so adding it a second time hands out the same element, links it to itself, and
  the next tick never ends.\<close>

theorem corner_blink_hangs:
  assumes "fish_layout sy" "blink_heap sy m is" "blink_args sy tmp arg" "length is < 2000" "location (blink_at m arg) = 0"
  shows "\<exists>m1 m2. mp1_ioctl sy tmp m arg RTC_ADD = Some (0, m1) \<and> mp1_ioctl sy tmp m1 arg RTC_ADD = Some (0, m2) \<and>
    mp1_rtc_tasklet sy m2 = None"
  using corner_twice [OF assms] by (auto simp: mp1_ioctl_def)

theorem corner_blink_hangs_witness:
  "\<exists>m2. mp1_rtc_tasklet fish1 m2 = None"
proof -
  let ?m = "fish1_mem (replicate 16 0)"
  have "blink_heap fish1 ?m []" by (rule fish1_heap) simp
  moreover have "location (blink_at ?m 0x83FFE00) = 0"
    by (simp add: blink_at_def blink_offsets load16_def fish1_mem_def numeral_eq_Suc)
  ultimately show ?thesis using corner_blink_hangs [OF fish1_layout _ fish1_args] by fastforce
qed

end
