(* ===== verification/Fish.thy ===== *)
theory Fish
  imports Blinklist
begin

text \<open>
  The animation of \<^verbatim>\<open>fish/fish.c\<close>: two text files laid over each other as blinking characters, and
  a few commands to the blink list between waits for the clock.
\<close>

section \<open>The code\<close>

text \<open>The addresses of the names and of the local variables of \<open>main\<close> and \<open>add_frames\<close>; \<open>frame_tmp\<close> and \<open>main_tmp\<close>
  are where the structure on the stack of \<open>mp1_ioctl_add\<close> is when the one or the other calls it.\<close>

record fish_vars =
  rtc_name :: u32
  file0 :: u32
  file1 :: u32
  c0_at :: u32
  c1_at :: u32
  frame_struct :: u32
  frame_tmp :: u32
  main_struct :: u32
  main_tmp :: u32
  ret_val_at :: u32
  garbage_at :: u32

definition WAIT :: nat where "WAIT = 100"

text \<open>A call of \<^verbatim>\<open>blink.S\<close>, which changes the memory alone.\<close>

definition blink_call :: "(u32 \<times> (u32 \<Rightarrow> u8)) option \<Rightarrow> 'a kernel_scheme \<Rightarrow> (u32 \<times> 'a kernel_scheme) option" where
  "blink_call res s = map_option (\<lambda>(r, m). (r, s\<lparr>mem := m\<rparr>)) res"

definition mp1_set_video_mode :: "fish_syms \<Rightarrow> 'a kernel_scheme \<Rightarrow> (u32 \<times> 'a kernel_scheme) option" where
  "mp1_set_video_mode sy s = do {
     (r, s) \<leftarrow> ece391_vidmap (vmem_base_addr sy) s;
     Some (if r = minus_one then 0 else load32 (mem s) (vmem_base_addr sy), s) }"

text \<open>The next character of one of the files, unless its line is over.\<close>

definition frame_char :: "u32 \<Rightarrow> u32 \<Rightarrow> bool \<Rightarrow> 'a kernel_scheme \<Rightarrow> (bool \<times> 'a kernel_scheme) option" where
  "frame_char fd c eof s =
     (if mem s c \<noteq> 0x0A then do {
        (num_bytes, s) \<leftarrow> ece391_read fd c 1 s;
        Some (if num_bytes = 0 then (True, s\<lparr>mem := (mem s)(c := 0x0A)\<rparr>) else (eof, s)) }
      else Some (eof, s))"

definition frame_cell :: "fish_syms \<Rightarrow> fish_vars \<Rightarrow> u32 \<Rightarrow> u32 \<Rightarrow> 'a kernel_scheme \<Rightarrow> 'a kernel_scheme option" where
  "frame_cell sy v row col s =
     (let c0 = mem s (c0_at v); c1 = mem s (c1_at v); b = frame_struct v in
      if c0 \<noteq> 0x20 \<and> c0 \<noteq> 0x0A \<or> c1 \<noteq> 0x20 \<and> c1 \<noteq> 0x0A then do {
        let m = (mem s)(b + ON_CHAR := if c0 = 0x0A then 0x20 else c0);
        let m = m(b + OFF_CHAR := if c1 = 0x0A then 0x20 else c1);
        let m = store16 m (b + LOCATION) (ucast (row * 80 + col + 40));
        (_, s) \<leftarrow> blink_call (mp1_ioctl sy (frame_tmp v) m b RTC_ADD) s;
        Some s }
      else Some s)"

partial_function (option) frame_cols ::
  "fish_syms \<Rightarrow> fish_vars \<Rightarrow> u32 \<Rightarrow> u32 \<Rightarrow> u32 \<Rightarrow> u32 \<Rightarrow> bool \<Rightarrow> bool \<Rightarrow> 'a kernel_scheme \<Rightarrow> ((bool \<times> bool) \<times> 'a kernel_scheme) option" where
  "frame_cols sy v fd0 fd1 row col eof0 eof1 s = do {
     (eof0, s) \<leftarrow> frame_char fd0 (c0_at v) eof0 s;
     (eof1, s) \<leftarrow> frame_char fd1 (c1_at v) eof1 s;
     if mem s (c0_at v) = 0x0A \<and> mem s (c1_at v) = 0x0A then Some ((eof0, eof1), s)
     else do {
       s \<leftarrow> frame_cell sy v row col s;
       frame_cols sy v fd0 fd1 row (col + 1) eof0 eof1 s } }"

text \<open>Behind a row; a file at its end is closed, again at the end of every row that follows.\<close>

definition frame_end :: "u32 \<Rightarrow> u32 \<Rightarrow> bool \<Rightarrow> 'a kernel_scheme \<Rightarrow> 'a kernel_scheme option" where
  "frame_end fd c eof s =
     (if eof then do {
        (_, s) \<leftarrow> ece391_close fd (s\<lparr>mem := (mem s)(c := 0x0A)\<rparr>);
        Some s }
      else Some (s\<lparr>mem := (mem s)(c := 0x30)\<rparr>))"

partial_function (option) frame_rows ::
  "fish_syms \<Rightarrow> fish_vars \<Rightarrow> u32 \<Rightarrow> u32 \<Rightarrow> u32 \<Rightarrow> bool \<Rightarrow> bool \<Rightarrow> 'a kernel_scheme \<Rightarrow> 'a kernel_scheme option" where
  "frame_rows sy v fd0 fd1 row eof0 eof1 s =
     (if \<not> eof0 \<or> \<not> eof1 then do {
        ((eof0, eof1), s) \<leftarrow> frame_cols sy v fd0 fd1 row 0 eof0 eof1 s;
        s \<leftarrow> frame_end fd0 (c0_at v) eof0 s;
        s \<leftarrow> frame_end fd1 (c1_at v) eof1 s;
        frame_rows sy v fd0 fd1 (row + 1) eof0 eof1 s }
      else Some s)"

text \<open>\<^const>\<open>Some\<close> status: the program ended by \<open>ece391_halt\<close>.\<close>

definition add_frames ::
  "fish_syms \<Rightarrow> fish_vars \<Rightarrow> 'a kernel_scheme \<Rightarrow> (u32 option \<times> 'a kernel_scheme) option" where
  "add_frames sy v s = do {
     let m = (mem s)(c0_at v := 0x30, c1_at v := 0x30);
     let m = store16 m (frame_struct v + ON_LENGTH) 15;
     let m = store16 m (frame_struct v + OFF_LENGTH) 15;
     (fd0, s) \<leftarrow> ece391_open (file0 v) (s\<lparr>mem := m\<rparr>);
     if fd0 <s 0 then Some (Some minus_one, s)
     else do {
       (fd1, s) \<leftarrow> ece391_open (file1 v) s;
       if fd1 <s 0 then Some (Some minus_one, s)
       else do {
         s \<leftarrow> frame_rows sy v fd0 fd1 0 False False s;
         Some (None, s) } } }"

text \<open>A wait for the clock before every tick.\<close>

fun wait_ticks :: "fish_syms \<Rightarrow> fish_vars \<Rightarrow> u32 \<Rightarrow> nat \<Rightarrow> 'a kernel_scheme \<Rightarrow> 'a kernel_scheme option" where
  "wait_ticks sy v rtc_fd 0 s = Some s"
| "wait_ticks sy v rtc_fd (Suc n) s = do {
     (_, s) \<leftarrow> ece391_read rtc_fd (garbage_at v) 4 s;
     m \<leftarrow> mp1_rtc_tasklet sy (mem s);
     wait_ticks sy v rtc_fd n (s\<lparr>mem := m\<rparr>) }"

definition main_blink :: "u32 \<Rightarrow> (u32 \<Rightarrow> u8) \<Rightarrow> (u32 \<Rightarrow> u8)" where
  "main_blink b m =
     (let m = m(b + ON_CHAR := of_char CHR ''I'');
          m = m(b + OFF_CHAR := of_char CHR ''M'');
          m = store16 m (b + ON_LENGTH) 7;
          m = store16 m (b + OFF_LENGTH) 6
      in store16 m (b + LOCATION) (6 * 80 + 60))"

definition fish_main :: "fish_syms \<Rightarrow> fish_vars \<Rightarrow> 'a kernel_scheme \<Rightarrow> (u32 \<times> 'a kernel_scheme) option" where
  "fish_main sy v s = do {
     let s = s\<lparr>mem := ece391_memset (mem s) (blink_array sy) 0 (STRUCT_SIZE * 80 * 25)\<rparr>;
     (p, s) \<leftarrow> mp1_set_video_mode sy s;
     if p = 0 then Some (minus_one, s)
     else do {
       (rtc_fd, s) \<leftarrow> ece391_open (rtc_name v) s;
       (halted, s) \<leftarrow> add_frames sy v s;
       case halted of Some code \<Rightarrow> Some (code, s)
       | None \<Rightarrow> do {
           let s = s\<lparr>mem := store32 (mem s) (ret_val_at v) 32\<rparr>;
           (ret_val, s) \<leftarrow> ece391_write rtc_fd (ret_val_at v) 4 s;
           let s = s\<lparr>mem := store32 (mem s) (ret_val_at v) ret_val\<rparr>;
           s \<leftarrow> wait_ticks sy v rtc_fd WAIT s;
           let m = main_blink (main_struct v) (mem s);
           (_, s) \<leftarrow> blink_call (mp1_ioctl sy (main_tmp v) m (main_struct v) RTC_ADD) s;
           s \<leftarrow> wait_ticks sy v rtc_fd WAIT s;
           (_, s) \<leftarrow> blink_call (mp1_ioctl sy (main_tmp v) (mem s) (push_bit 16 40 OR (6 * 80 + 60)) RTC_SYNC) s;
           s \<leftarrow> wait_ticks sy v rtc_fd WAIT s;
           (_, s) \<leftarrow> blink_call (mp1_ioctl sy (main_tmp v) (mem s) (6 * 80 + 60) RTC_REMOVE) s;
           s \<leftarrow> wait_ticks sy v rtc_fd WAIT s;
           (_, s) \<leftarrow> ece391_close rtc_fd s;
           Some (0, s) } } }"

section \<open>What it shows\<close>

text \<open>The state the user sees: the blinking characters, and the screen.\<close>

type_synonym stage = "blink list \<times> (u32 \<Rightarrow> u8)"

definition stage_add :: "blink \<Rightarrow> stage \<Rightarrow> stage" where
  "stage_add b st =
     (if location b < 2000 \<and> length (fst st) < 2000
      then (started b # fst st, blink_show (location b) (on_char b) (snd st)) else st)"

definition stage_tick :: "stage \<Rightarrow> stage" where
  "stage_tick st = (map tick (fst st), fold tick_show (fst st) (snd st))"

definition stage_sync :: "u16 \<Rightarrow> u16 \<Rightarrow> stage \<Rightarrow> stage" where
  "stage_sync l l' st =
     (case (find_loc l (fst st), find_loc l' (fst st)) of
        (Some a, Some c) \<Rightarrow> (update_first l' (synced a) (fst st), blink_show (location c) (off_char c) (snd st))
      | _ \<Rightarrow> st)"

definition stage_remove :: "u16 \<Rightarrow> stage \<Rightarrow> stage" where
  "stage_remove l st = (remove_first l (fst st), snd st)"

text \<open>The characters of a row, from the rest of the two lines; a line that is over counts as spaces.\<close>

definition frame_blink :: "u32 \<Rightarrow> u32 \<Rightarrow> u8 list \<Rightarrow> u8 list \<Rightarrow> blink" where
  "frame_blink row col xs ys =
     \<lparr>location = ucast (row * 80 + col + 40), on_char = (if xs = [] then 0x20 else hd xs),
      off_char = (if ys = [] then 0x20 else hd ys), on_length = 15, off_length = 15, countdown = 15, status = 1\<rparr>"

function row_blinks :: "u32 \<Rightarrow> u32 \<Rightarrow> u8 list \<Rightarrow> u8 list \<Rightarrow> blink list" where
  "row_blinks row col xs ys =
     (if xs = [] \<and> ys = [] then []
      else (let b = frame_blink row col xs ys in if on_char b = 0x20 \<and> off_char b = 0x20 then [] else [b]) @
        row_blinks row (col + 1) (tl xs) (tl ys))"
  by pat_completeness auto
termination
  by (relation "measure (\<lambda>(row, col, xs, ys). length xs + length ys)") (auto simp: neq_Nil_conv)

declare row_blinks.simps [simp del]

text \<open>A file is \<^const>\<open>None\<close> behind its last line.\<close>

definition first_line :: "u8 list option \<Rightarrow> u8 list" where
  "first_line f = (case f of None \<Rightarrow> [] | Some xs \<Rightarrow> takeWhile (\<lambda>c. c \<noteq> 0x0A) xs)"

definition next_lines :: "u8 list option \<Rightarrow> u8 list option" where
  "next_lines f = (case f of None \<Rightarrow> None | Some xs \<Rightarrow>
     case dropWhile (\<lambda>c. c \<noteq> 0x0A) xs of [] \<Rightarrow> None | _ # ys \<Rightarrow> Some ys)"

definition text_size :: "u8 list option \<Rightarrow> nat" where
  "text_size f = (case f of None \<Rightarrow> 0 | Some xs \<Rightarrow> Suc (length xs))"

lemma next_lines_smaller: "f \<noteq> None \<Longrightarrow> text_size (next_lines f) < text_size f"
proof -
  have "length (dropWhile P xs) \<le> length xs" for P and xs :: "u8 list" by (rule length_dropWhile_le)
  then show "f \<noteq> None \<Longrightarrow> text_size (next_lines f) < text_size f"
    by (auto simp: next_lines_def text_size_def split: option.splits list.splits) (metis Suc_le_eq length_Cons)+
qed

lemma next_lines_le: "text_size (next_lines f) \<le> text_size f"
  using next_lines_smaller [of f] by (cases f) (auto simp: next_lines_def)

function frame_blinks :: "u32 \<Rightarrow> u8 list option \<Rightarrow> u8 list option \<Rightarrow> blink list" where
  "frame_blinks row f g =
     (if f = None \<and> g = None then []
      else row_blinks row 0 (first_line f) (first_line g) @ frame_blinks (row + 1) (next_lines f) (next_lines g))"
  by pat_completeness auto
termination
proof (relation "measure (\<lambda>(row, f, g). text_size f + text_size g)")
  show "((row + 1, next_lines f, next_lines g), row, f, g) \<in> measure (\<lambda>(row, f, g). text_size f + text_size g)"
    if "\<not> (f = None \<and> g = None)" for row :: u32 and f g
    using that next_lines_smaller [of f] next_lines_smaller [of g] next_lines_le [of f] next_lines_le [of g] by auto
qed simp

declare frame_blinks.simps [simp del]

definition fish_stage :: "u8 list \<Rightarrow> u8 list \<Rightarrow> stage \<Rightarrow> stage" where
  "fish_stage xs ys st =
     (let ticks = stage_tick ^^ WAIT in
      ticks (stage_remove 540 (ticks (stage_sync 40 540 (ticks (stage_add
        \<lparr>location = 540, on_char = of_char CHR ''I'', off_char = of_char CHR ''M'', on_length = 7, off_length = 6, countdown = 7, status = 1\<rparr>
        (ticks (fold stage_add (frame_blinks 0 (Some xs) (Some ys)) st))))))))"

section \<open>The surroundings of the program\<close>

text \<open>What the program writes: its variables, its stack and the screen.\<close>

definition fish_area :: "fish_syms \<Rightarrow> fish_vars \<Rightarrow> u32 set" where
  "fish_area sy v = fish_own sy \<union> screen_rng \<union> rng (frame_tmp v) 16 \<union> rng (frame_struct v) 16 \<union>
     rng (main_tmp v) 16 \<union> rng (main_struct v) 16 \<union> rng (ret_val_at v) 4 \<union> {c0_at v, c1_at v}"

definition fish_apart :: "fish_syms \<Rightarrow> fish_vars \<Rightarrow> bool" where
  "fish_apart sy v \<longleftrightarrow> fish_layout sy \<and> blink_args sy (frame_tmp v) (frame_struct v) \<and>
     blink_args sy (main_tmp v) (main_struct v) \<and> c0_at v \<noteq> c1_at v \<and>
     {c0_at v, c1_at v} \<inter> (fish_own sy \<union> screen_rng \<union> rng (frame_tmp v) 16 \<union> rng (frame_struct v) 16) = {} \<and>
     rng (ret_val_at v) 4 \<inter> (fish_own sy \<union> screen_rng) = {}"

text \<open>The kernel around it, seen from the program.\<close>

definition fish_kernel :: "fish_syms \<Rightarrow> fish_vars \<Rightarrow> 'a kernel_scheme \<Rightarrow> bool" where
  "fish_kernel sy v s \<longleftrightarrow> img_ok (mem s) (fs_ptr s) \<and> img_rng (mem s) (fs_ptr s) \<inter> fish_area sy v = {} \<and>
     length (cur_files (in_kernel s)) = 8 \<and> flags (blank s) = FILE_AVAIL"

definition fish_step :: "fish_syms \<Rightarrow> fish_vars \<Rightarrow> 'a kernel_scheme \<Rightarrow> 'a kernel_scheme \<Rightarrow> bool" where
  "fish_step sy v s t \<longleftrightarrow> (\<forall>x. x \<notin> fish_area sy v \<longrightarrow> mem t x = mem s x) \<and> fs_ptr t = fs_ptr s \<and> blank t = blank s \<and>
     length (cur_files (in_kernel t)) = length (cur_files (in_kernel s))"

lemma fish_step_refl [simp]: "fish_step sy v s s"
  by (simp add: fish_step_def)

lemma fish_step_trans: "fish_step sy v s t \<Longrightarrow> fish_step sy v t u \<Longrightarrow> fish_step sy v s u"
  by (simp add: fish_step_def)

lemma fish_step_mem: "(\<And>x. x \<notin> fish_area sy v \<Longrightarrow> m x = mem s x) \<Longrightarrow> fish_step sy v s (s\<lparr>mem := m\<rparr>)"
  by (simp add: fish_step_def)

lemma fish_agree: "fish_kernel sy v s \<Longrightarrow> fish_step sy v s t \<Longrightarrow> img_agree (mem s) (fs_ptr s) (mem t)"
  by (auto simp: fish_kernel_def fish_step_def img_agree_def disjoint_iff)

lemma fish_kernel_step:
  assumes "fish_kernel sy v s" "fish_step sy v s t"
  shows "fish_kernel sy v t"
proof -
  note agree = fish_agree [OF assms]
  have "img_rng (mem t) (fs_ptr s) = img_rng (mem s) (fs_ptr s)"
    using img_same [OF agree] by (simp add: img_rng_def img_size_def)
  then show ?thesis using assms img_ok_same [OF agree] by (simp add: fish_kernel_def fish_step_def)
qed

text \<open>A descriptor of the program that reads a file, with what is still to come, or is free.\<close>

definition reads :: "u32 \<Rightarrow> u32 \<Rightarrow> u8 list option \<Rightarrow> 'a kernel_scheme \<Rightarrow> bool" where
  "reads fd c f s \<longleftrightarrow> 2 \<le> unat fd \<and> unat fd < 8 \<and>
     (case f of
        None \<Rightarrow> flags (cur_files (in_kernel s) ! unat fd) = FILE_AVAIL
      | Some xs \<Rightarrow> fd_ok fd c 1 (in_kernel s) \<and> flags (cur_files (in_kernel s) ! unat fd) = FILE_OCCUP \<and>
          file_ops_table_ptr (cur_files (in_kernel s) ! unat fd) = FileOps \<and> fd_rest fd s = xs)"

lemma reads_step:
  assumes "reads fd c f s" "fish_kernel sy v s" "fish_step sy v s t"
    and slot: "cur_files (in_kernel t) ! unat fd = cur_files (in_kernel s) ! unat fd"
  shows "reads fd c f t"
proof (cases f)
  case None
  with assms show ?thesis by (simp add: reads_def)
next
  case (Some xs)
  let ?k = "in_kernel s" and ?l = "in_kernel t"
  have ok: "fd_ok fd c 1 ?k" and same: "fs_ptr t = fs_ptr s" using assms(1,3) Some by (simp_all add: reads_def fish_step_def)
  have agree: "img_agree (mem ?k) (fs_ptr ?k) (mem ?l)" using fish_agree [OF assms(2,3)] by simp
  have img: "img_ok (mem ?k) (fs_ptr ?k)" and ino: "unat (inode_num (cur_files ?k ! unat fd)) < img_inodes (mem ?k) (fs_ptr ?k)"
    using ok by (simp_all add: fd_ok_def)
  have f: "fd_file fd ?l = fd_file fd ?k" "fd_pos fd ?l = fd_pos fd ?k"
    using img_slice_same [OF agree img ino] img_same(3) [OF agree ino] same
    by (simp_all add: fd_file_def fd_pos_def file_content_def slot)
  have r: "img_rng (mem ?l) (fs_ptr ?l) = img_rng (mem ?k) (fs_ptr ?k)"
    using same by (simp add: img_rng_def img_size_def img_same [OF agree, simplified])
  have "length (cur_files ?l) = 8" using assms(2,3) by (simp add: fish_kernel_def fish_step_def)
  then have "fd_ok fd c 1 ?l"
    using ok f r slot same img_ok_same [OF agree img] img_same(1) [OF agree] by (simp add: fd_ok_def)
  with assms(1) Some f show ?thesis by (simp add: reads_def slot fd_rest_def)
qed

text \<open>One call that changes one descriptor.\<close>

lemma after_call_step:
  assumes "fish_kernel sy v s" "rng a (length xs) \<subseteq> fish_area sy v" "length fs = 8"
  shows "fish_step sy v s (after_call s a xs fs)"
proof -
  have "blank (after_call s a xs fs) = blank s" by (simp add: after_call_def in_program_def set_files_def in_kernel_def)
  moreover have "mem (after_call s a xs fs) x = mem s x" if "x \<notin> fish_area sy v" for x
    using that assms(2) by (auto intro!: store_bytes_other)
  ultimately show ?thesis using assms by (simp add: fish_step_def fish_kernel_def)
qed

lemma read_byte:
  assumes r: "reads fd c (Some xs) s" and k: "fish_kernel sy v s" and c: "c \<in> fish_area sy v"
  shows "\<exists>t. ece391_read fd c 1 s = Some (if xs = [] then 0 else 1, t) \<and> fish_step sy v s t \<and>
    mem t = (if xs = [] then mem s else (mem s)(c := hd xs)) \<and> reads fd c (Some (tl xs)) t \<and>
    (\<forall>i. i \<noteq> unat fd \<longrightarrow> cur_files (in_kernel t) ! i = cur_files (in_kernel s) ! i)"
proof -
  let ?k = "in_kernel s" and ?f = "cur_files (in_kernel s) ! unat fd" and ?d = "take 1 xs"
  let ?fs = "(cur_files ?k)[unat fd := ?f\<lparr>file_position := file_position ?f + of_nat (length ?d)\<rparr>]"
  let ?t = "after_call s c ?d ?fs"
  have ok: "fd_ok fd c 1 ?k" "flags ?f = FILE_OCCUP" "file_ops_table_ptr ?f = FileOps" and fd: "2 \<le> unat fd" "unat fd < 8"
    and xs: "drop (fd_pos fd ?k) (fd_file fd ?k) = xs" using r by (auto simp: reads_def fd_rest_def)
  have l8: "length (cur_files ?k) = 8" using k by (simp add: fish_kernel_def)
  have rd: "file_read fd c (of_nat 1) ?k = Some (of_nat (length ?d), set_files ?fs (?k\<lparr>mem := store_bytes (mem ?k) c ?d\<rparr>))"
    by (rule file_read_eq [OF ok(1)]) (simp_all add: xs)
  have call: "ece391_read fd c 1 s = Some (of_nat (length ?d), ?t)"
    using rd ok fd by (simp add: ece391_calls resumed_def after_call_def sys_read_def fd_valid_small FILE_OCCUP_def FILE_AVAIL_def)
  have rk: "fd_read fd c 1 ?k = (bytes_at (mem (in_kernel ?t)) c (length ?d), in_kernel ?t)"
  proof -
    have "file_read fd c (of_nat 1) ?k = Some (of_nat (length ?d), in_kernel ?t)" using rd by (simp only: after_call_in_kernel in_kernel_frame)
    moreover have "unat (of_nat (length ?d) :: u32) = length ?d" by (cases xs) simp_all
    ultimately show ?thesis by (simp add: fd_read_def)
  qed
  note f = fd_read_ok [OF ok(1) order.refl, unfolded rk fst_conv snd_conv]
  have "fd_pos fd (in_kernel ?t) = fd_pos fd ?k + length ?d" using f by simp
  then have rest: "fd_rest fd ?t = tl xs"
    using f xs by (cases xs) (auto simp: fd_rest_def drop_Suc tl_drop [symmetric])
  have "reads fd c (Some (tl xs)) ?t" using f fd ok l8 rest by (simp add: reads_def)
  moreover have "rng c (length ?d) \<subseteq> fish_area sy v" using c by (cases xs) (auto simp: rng_def)
  then have "fish_step sy v s ?t" by (rule after_call_step [OF k]) (simp add: l8)
  moreover have "mem ?t = (if xs = [] then mem s else (mem s)(c := hd xs))" by (cases xs) simp_all
  ultimately show ?thesis using call by (intro exI [of _ ?t]) (cases xs; simp)
qed

section \<open>The blinking characters and the screen\<close>

definition stages :: "fish_syms \<Rightarrow> 'a kernel_scheme \<Rightarrow> stage \<Rightarrow> bool" where
  "stages sy s st \<longleftrightarrow> (\<exists>js. blink_heap sy (mem s) js \<and> blinks sy (mem s) js = fst st \<and> (\<forall>x \<in> screen_rng. mem s x = snd st x))"

lemma stages_same:
  assumes "fish_layout sy" "stages sy s st" "\<And>x. x \<in> fish_own sy \<union> screen_rng \<Longrightarrow> mem t x = mem s x"
  shows "stages sy t st"
proof -
  obtain js where js: "blink_heap sy (mem s) js" "blinks sy (mem s) js = fst st" "\<forall>x \<in> screen_rng. mem s x = snd st x"
    using assms(2) by (auto simp: stages_def)
  have "blink_heap sy (mem t) js" "blinks sy (mem t) js = blinks sy (mem s) js"
    using blink_heap_same [OF _ assms(1) js(1), of "mem t"] assms(3) by simp_all
  with js assms(3) show ?thesis unfolding stages_def by (intro exI [of _ js]) simp
qed

lemma show_at: "m b = m' b \<Longrightarrow> blink_show l c m b = blink_show l c m' b"
  by (simp add: blink_show_def)

lemma show_else: "l < 2000 \<Longrightarrow> b \<notin> screen_rng \<Longrightarrow> blink_show l c m b = m b"
  using low_byte_off(2) [of l] by (auto simp: blink_show_def screen_rng_def)

lemma screen_not_own: "fish_layout sy \<Longrightarrow> x \<in> screen_rng \<Longrightarrow> x \<notin> fish_own sy"
  by (auto simp: fish_layout_def screen_rng_def)

lemma stage_add_started: "stage_add (started b) st = stage_add b st"
  by (simp add: stage_add_def started_def)

lemma blink_call_mem [simp]: "blink_call res (s\<lparr>mem := m\<rparr>) = blink_call res s"
  by (cases res) (simp_all add: blink_call_def split: prod.splits)

lemma add_stages:
  assumes lay: "fish_layout sy" and args: "blink_args sy tmp arg" and st: "stages sy s st"
    and b: "b = blink_at (mem s) arg" "location b \<noteq> 0"
  shows "\<exists>r m. blink_call (mp1_ioctl sy tmp (mem s) arg RTC_ADD) s = Some (r, s\<lparr>mem := m\<rparr>) \<and>
    stages sy (s\<lparr>mem := m\<rparr>) (stage_add b st) \<and> (\<forall>x. x \<notin> fish_own sy \<union> rng tmp 16 \<union> screen_rng \<longrightarrow> m x = mem s x)"
proof -
  obtain js where js: "blink_heap sy (mem s) js" "blinks sy (mem s) js = fst st" "\<forall>x \<in> screen_rng. mem s x = snd st x"
    using st by (auto simp: stages_def)
  obtain r m where res: "mp1_ioctl_add sy tmp (mem s) arg = (r, m)" by (cases "mp1_ioctl_add sy tmp (mem s) arg")
  have len: "length (fst st) = length js" using js(2) length_blinks by metis
  note add = ioctl_add_refines [OF lay js(1) args, unfolded res fst_conv snd_conv, folded b(1)]
  have out: "x \<notin> rng tmp 16" if "x \<in> screen_rng" for x using args that by (auto simp: blink_args_def screen_rng_def)
  have "stages sy (s\<lparr>mem := m\<rparr>) (stage_add b st) \<and> (\<forall>x. x \<notin> fish_own sy \<union> rng tmp 16 \<union> screen_rng \<longrightarrow> m x = mem s x)"
  proof (cases "location b < 2000 \<and> length js < 2000")
    case True
    then obtain i where i: "blink_heap sy m (i # js)" "blinks sy m (i # js) = started b # blinks sy (mem s) js"
      "\<forall>x. x \<notin> fish_own sy \<union> rng tmp 16 \<longrightarrow> m x = blink_show (location b) (on_char b) (mem s) x" using add b(2) by auto
    have "m x = blink_show (location b) (on_char b) (snd st) x" if "x \<in> screen_rng" for x
      using i(3) that out screen_not_own [OF lay that] js(3) show_at [of "mem s" x "snd st"] by simp
    moreover have "m x = mem s x" if "x \<notin> fish_own sy \<union> rng tmp 16 \<union> screen_rng" for x
      using i(3) that show_else [of "location b" x] True by simp
    ultimately show ?thesis using i(1,2) js(2) len True by (auto simp: stages_def stage_add_def)
  next
    case False
    then have f: "blink_heap sy m js" "blinks sy m js = blinks sy (mem s) js" "\<forall>x. x \<notin> rng tmp 16 \<longrightarrow> m x = mem s x"
      using add by auto
    with out js show ?thesis using False len by (auto simp: stages_def stage_add_def)
  qed
  then show ?thesis by (intro exI [of _ r] exI [of _ m]) (simp add: blink_call_def mp1_ioctl_def res)
qed

section \<open>A row of the frames\<close>

definition frame_lengths :: "fish_vars \<Rightarrow> 'a kernel_scheme \<Rightarrow> bool" where
  "frame_lengths v s \<longleftrightarrow> load16 (mem s) (frame_struct v + ON_LENGTH) = 15 \<and> load16 (mem s) (frame_struct v + OFF_LENGTH) = 15"

lemma frame_lengths_same:
  assumes "frame_lengths v s" "\<And>x. x \<in> rng (frame_struct v) 16 \<Longrightarrow> mem t x = mem s x"
  shows "frame_lengths v t"
proof -
  have "blink_at (mem t) (frame_struct v) = blink_at (mem s) (frame_struct v)"
    using assms(2) struct_parts(3) [of "frame_struct v"] by (intro blink_at_cong) blast
  then show ?thesis using assms(1) by (simp add: frame_lengths_def blink_reads)
qed

lemma frame_struct_filled:
  assumes "load16 m0 (b + ON_LENGTH) = 15" "load16 m0 (b + OFF_LENGTH) = 15"
    and m: "m = store16 (m0(b + ON_CHAR := x, b + OFF_CHAR := y)) (b + LOCATION) l"
  shows "started (blink_at m b) =
      \<lparr>location = l, on_char = x, off_char = y, on_length = 15, off_length = 15, countdown = 15, status = 1\<rparr>"
    "frame_struct v = b \<Longrightarrow> frame_lengths v (s\<lparr>mem := m\<rparr>)"
proof -
  have l: "load16 m (b + LOCATION) = l" unfolding m by simp
  have o: "load16 m (b + ON_LENGTH) = 15" "load16 m (b + OFF_LENGTH) = 15" "m (b + ON_CHAR) = x" "m (b + OFF_CHAR) = y"
    using assms(1,2) by (simp_all add: m load16_def store16_def blink_offsets add.assoc)
  show "started (blink_at m b) =
      \<lparr>location = l, on_char = x, off_char = y, on_length = 15, off_length = 15, countdown = 15, status = 1\<rparr>"
    unfolding blink_at_def l o by (simp add: started_def)
  show "frame_lengths v (s\<lparr>mem := m\<rparr>)" if "frame_struct v = b" using o that by (simp add: frame_lengths_def)
qed

lemma struct_bytes: "{b + ON_CHAR, b + OFF_CHAR, b + LOCATION, b + LOCATION + 1} \<subseteq> rng b 16"
proof -
  have "b + of_nat i \<in> rng b 16" if "i < 16" for i using that by (auto simp: rng_def)
  from this [of 0] this [of 1] this [of 2] this [of 3] show ?thesis by (simp add: blink_offsets)
qed

lemma frame_cell_adds:
  assumes ap: "fish_apart sy v" and st: "stages sy s st" and len: "frame_lengths v s"
    and c: "mem s (c0_at v) = (if xs = [] then 0x0A else hd xs)" "mem s (c1_at v) = (if ys = [] then 0x0A else hd ys)"
    and nl: "0x0A \<notin> set xs" "0x0A \<notin> set ys" and ne: "xs \<noteq> [] \<or> ys \<noteq> []"
    and cell: "cell = (let b = frame_blink row col xs ys in if on_char b = 0x20 \<and> off_char b = 0x20 then [] else [b])"
    and loc: "\<forall>b \<in> set cell. location b \<noteq> 0"
  shows "\<exists>m. frame_cell sy v row col s = Some (s\<lparr>mem := m\<rparr>) \<and> stages sy (s\<lparr>mem := m\<rparr>) (fold stage_add cell st) \<and>
    frame_lengths v (s\<lparr>mem := m\<rparr>) \<and> fish_step sy v s (s\<lparr>mem := m\<rparr>) \<and> m (c0_at v) = mem s (c0_at v) \<and> m (c1_at v) = mem s (c1_at v)"
proof -
  let ?b = "frame_struct v" and ?B = "frame_blink row col xs ys"
  have "xs \<noteq> [] \<Longrightarrow> hd xs \<noteq> 0x0A" "ys \<noteq> [] \<Longrightarrow> hd ys \<noteq> 0x0A" using nl by (metis hd_in_set)+
  then have chars: "on_char ?B = (if mem s (c0_at v) = 0x0A then 0x20 else mem s (c0_at v))"
    "off_char ?B = (if mem s (c1_at v) = 0x0A then 0x20 else mem s (c1_at v))"
    using c by (auto simp: frame_blink_def)
  show ?thesis
  proof (cases "on_char ?B = 0x20 \<and> off_char ?B = 0x20")
    case True
    then have "\<not> (mem s (c0_at v) \<noteq> 0x20 \<and> mem s (c0_at v) \<noteq> 0x0A \<or> mem s (c1_at v) \<noteq> 0x20 \<and> mem s (c1_at v) \<noteq> 0x0A)"
      unfolding chars by (auto split: if_splits)
    then have "frame_cell sy v row col s = Some s" by (auto simp: frame_cell_def)
    with True st len show ?thesis by (intro exI [of _ "mem s"]) (simp add: cell Let_def)
  next
    case False
    then have cond: "mem s (c0_at v) \<noteq> 0x20 \<and> mem s (c0_at v) \<noteq> 0x0A \<or> mem s (c1_at v) \<noteq> 0x20 \<and> mem s (c1_at v) \<noteq> 0x0A"
      unfolding chars by (auto split: if_splits)
    have lay: "fish_layout sy" and args: "blink_args sy (frame_tmp v) ?b" using ap by (simp_all add: fish_apart_def)
    define m where "m = store16 ((mem s)(?b + ON_CHAR := on_char ?B, ?b + OFF_CHAR := off_char ?B)) (?b + LOCATION) (location ?B)"
    let ?s = "s\<lparr>mem := m\<rparr>"
    have else_m: "m x = mem s x" if "x \<notin> rng ?b 16" for x
      using struct_bytes [of ?b] that by (auto simp: m_def store16_def)
    have B: "started (blink_at m ?b) = ?B" "frame_lengths v ?s"
      using frame_struct_filled [OF _ _ m_def] len by (simp_all add: frame_lengths_def frame_blink_def)
    have st': "stages sy ?s st"
      by (rule stages_same [OF lay st]) (use args else_m in \<open>auto simp: blink_args_def screen_rng_def\<close>)
    have "location (blink_at m ?b) = location ?B" using arg_cong [OF B(1), of location] by (simp add: started_def)
    then have nz: "location (blink_at m ?b) \<noteq> 0" using loc False by (simp add: cell Let_def)
    obtain r m' where m': "blink_call (mp1_ioctl sy (frame_tmp v) m ?b RTC_ADD) s = Some (r, s\<lparr>mem := m'\<rparr>)"
      "stages sy (s\<lparr>mem := m'\<rparr>) (stage_add (blink_at m ?b) st)"
      "\<forall>x. x \<notin> fish_own sy \<union> rng (frame_tmp v) 16 \<union> screen_rng \<longrightarrow> m' x = m x"
      using add_stages [OF lay args st' _ nz] by auto
    have "stage_add (blink_at m ?b) st = stage_add ?B st" using stage_add_started [of "blink_at m ?b" st] B(1) by simp
    then have "stages sy (s\<lparr>mem := m'\<rparr>) (fold stage_add cell st)" using m'(2) False by (auto simp: cell Let_def)
    moreover have "frame_lengths v (s\<lparr>mem := m'\<rparr>)"
      by (rule frame_lengths_same [OF B(2)]) (use m'(3) args in \<open>auto simp: blink_args_def screen_rng_def\<close>)
    moreover have "fish_step sy v s (s\<lparr>mem := m'\<rparr>)"
      by (rule fish_step_mem) (use m'(3) else_m in \<open>auto simp: fish_area_def\<close>)
    moreover have "m' x = mem s x" if "x \<in> {c0_at v, c1_at v}" for x
      using that ap m'(3) else_m by (auto simp: fish_apart_def)
    moreover have "frame_cell sy v row col s = Some (s\<lparr>mem := m'\<rparr>)"
      using cond m'(1) unfolding frame_cell_def m_def chars by (simp add: frame_blink_def)
    ultimately show ?thesis by blast
  qed
qed

text \<open>Where a file is in the row: \<open>xs\<close> is the rest of its line, \<open>n\<close> what follows the line.\<close>

definition row_at :: "u32 \<Rightarrow> u32 \<Rightarrow> bool \<Rightarrow> 'a kernel_scheme \<Rightarrow> u8 list \<Rightarrow> u8 list option \<Rightarrow> bool" where
  "row_at fd c eof s xs n \<longleftrightarrow>
     (if mem s c = 0x0A then xs = [] \<and> (n = None \<longleftrightarrow> eof) \<and> (reads fd c n s \<or> n = None \<and> reads fd c (Some []) s)
      else \<not> eof \<and> (\<exists>ys. reads fd c (Some ys) s \<and> xs = first_line (Some ys) \<and> n = next_lines (Some ys)))"

lemma row_at_step:
  assumes "row_at fd c eof s xs n" "fish_kernel sy v s" "fish_step sy v s t" "mem t c = mem s c"
    "cur_files (in_kernel t) ! unat fd = cur_files (in_kernel s) ! unat fd"
  shows "row_at fd c eof t xs n"
  using assms(1,4) reads_step [OF _ assms(2,3,5)] unfolding row_at_def by (auto split: if_splits)

lemma row_at_no_newline: "row_at fd c eof s xs n \<Longrightarrow> 0x0A \<notin> set xs"
  by (auto simp: row_at_def first_line_def split: if_splits dest: set_takeWhileD)

lemma frame_char_pulls:
  assumes l: "row_at fd c eof s xs n" and k: "fish_kernel sy v s" and c: "c \<in> fish_area sy v"
  shows "\<exists>eof' t. frame_char fd c eof s = Some (eof', t) \<and> fish_step sy v s t \<and>
    mem t = (mem s)(c := if xs = [] then 0x0A else hd xs) \<and> row_at fd c eof' t (tl xs) n \<and>
    (\<forall>i. i \<noteq> unat fd \<longrightarrow> cur_files (in_kernel t) ! i = cur_files (in_kernel s) ! i)"
proof (cases "mem s c = 0x0A")
  case True
  with l have "xs = []" by (simp add: row_at_def)
  with True l show ?thesis by (intro exI [of _ eof] exI [of _ s]) (simp add: frame_char_def fun_upd_idem)
next
  case False
  with l obtain ys where ys: "reads fd c (Some ys) s" "xs = first_line (Some ys)" "n = next_lines (Some ys)" "\<not> eof"
    by (auto simp: row_at_def)
  obtain t where t: "ece391_read fd c 1 s = Some (if ys = [] then 0 else 1, t)" "fish_step sy v s t"
    "mem t = (if ys = [] then mem s else (mem s)(c := hd ys))" "reads fd c (Some (tl ys)) t"
    "\<forall>i. i \<noteq> unat fd \<longrightarrow> cur_files (in_kernel t) ! i = cur_files (in_kernel s) ! i"
    using read_byte [OF ys(1) k c] by blast
  show ?thesis
  proof (cases ys)
    case Nil
    let ?t = "t\<lparr>mem := (mem t)(c := 0x0A)\<rparr>"
    have st: "fish_step sy v t ?t" using c by (intro fish_step_mem) auto
    have "reads fd c (Some []) ?t" using reads_step [OF t(4) fish_kernel_step [OF k t(2)] st] Nil by simp
    then have "row_at fd c True ?t [] n" using Nil ys(3) by (simp add: row_at_def next_lines_def)
    moreover have "frame_char fd c eof s = Some (True, ?t)" using False t(1) Nil by (simp add: frame_char_def)
    ultimately show ?thesis
      using t Nil ys(2) fish_step_trans [OF t(2) st] by (intro exI [of _ True] exI [of _ ?t]) (simp add: first_line_def)
  next
    case (Cons y zs)
    have "row_at fd c eof t (tl xs) n"
      using t(3,4) ys Cons by (auto simp: row_at_def first_line_def next_lines_def)
    moreover have "hd ys = (if xs = [] then 0x0A else hd xs)" using Cons ys(2) by (simp add: first_line_def)
    moreover have "frame_char fd c eof s = Some (eof, t)" using False t(1) Cons by (simp add: frame_char_def)
    ultimately show ?thesis using t Cons by (intro exI [of _ eof] exI [of _ t]) simp
  qed
qed

definition both_at ::
  "fish_vars \<Rightarrow> u32 \<Rightarrow> u32 \<Rightarrow> bool \<Rightarrow> bool \<Rightarrow> 'a kernel_scheme \<Rightarrow> u8 list \<Rightarrow> u8 list \<Rightarrow> u8 list option \<Rightarrow> u8 list option \<Rightarrow> bool" where
  "both_at v fd0 fd1 eof0 eof1 s xs ys n0 n1 \<longleftrightarrow>
     unat fd0 \<noteq> unat fd1 \<and> row_at fd0 (c0_at v) eof0 s xs n0 \<and> row_at fd1 (c1_at v) eof1 s ys n1"

lemma both_at_step:
  assumes "both_at v fd0 fd1 eof0 eof1 s xs ys n0 n1" "fish_kernel sy v s" "fish_step sy v s t"
    "mem t (c0_at v) = mem s (c0_at v)" "mem t (c1_at v) = mem s (c1_at v)" "cur_files (in_kernel t) = cur_files (in_kernel s)"
  shows "both_at v fd0 fd1 eof0 eof1 t xs ys n0 n1"
  using assms row_at_step [OF _ assms(2,3)] by (simp add: both_at_def)

lemma both_pull:
  assumes ap: "fish_apart sy v" and k: "fish_kernel sy v s" and b: "both_at v fd0 fd1 eof0 eof1 s xs ys n0 n1"
    and st: "stages sy s st" and len: "frame_lengths v s"
  shows "\<exists>e0 e1 u t. frame_char fd0 (c0_at v) eof0 s = Some (e0, u) \<and> frame_char fd1 (c1_at v) eof1 u = Some (e1, t) \<and>
    fish_step sy v s t \<and> both_at v fd0 fd1 e0 e1 t (tl xs) (tl ys) n0 n1 \<and> stages sy t st \<and> frame_lengths v t \<and>
    mem t (c0_at v) = (if xs = [] then 0x0A else hd xs) \<and> mem t (c1_at v) = (if ys = [] then 0x0A else hd ys)"
proof -
  have lay: "fish_layout sy" and ne: "c0_at v \<noteq> c1_at v" and area: "c0_at v \<in> fish_area sy v" "c1_at v \<in> fish_area sy v"
    using ap by (auto simp: fish_apart_def fish_area_def)
  have l: "unat fd0 \<noteq> unat fd1" "row_at fd0 (c0_at v) eof0 s xs n0" "row_at fd1 (c1_at v) eof1 s ys n1"
    using b by (simp_all add: both_at_def)
  obtain e0 u where u: "frame_char fd0 (c0_at v) eof0 s = Some (e0, u)" "fish_step sy v s u"
    "mem u = (mem s)(c0_at v := if xs = [] then 0x0A else hd xs)" "row_at fd0 (c0_at v) e0 u (tl xs) n0"
    "\<forall>i. i \<noteq> unat fd0 \<longrightarrow> cur_files (in_kernel u) ! i = cur_files (in_kernel s) ! i"
    using frame_char_pulls [OF l(2) k area(1)] by blast
  note ku = fish_kernel_step [OF k u(2)]
  have "row_at fd1 (c1_at v) eof1 u ys n1"
    by (rule row_at_step [OF l(3) k u(2)]) (use u(3,5) ne l(1) in auto)
  from frame_char_pulls [OF this ku area(2)] obtain e1 t where t: "frame_char fd1 (c1_at v) eof1 u = Some (e1, t)" "fish_step sy v u t"
    "mem t = (mem u)(c1_at v := if ys = [] then 0x0A else hd ys)" "row_at fd1 (c1_at v) e1 t (tl ys) n1"
    "\<forall>i. i \<noteq> unat fd1 \<longrightarrow> cur_files (in_kernel t) ! i = cur_files (in_kernel u) ! i" by blast
  have "row_at fd0 (c0_at v) e0 t (tl xs) n0"
    by (rule row_at_step [OF u(4) ku t(2)]) (use t(3,5) ne l(1) in auto)
  then have "both_at v fd0 fd1 e0 e1 t (tl xs) (tl ys) n0 n1" using t(4) l(1) by (simp add: both_at_def)
  moreover
  have same: "mem t x = mem s x" if "x \<noteq> c0_at v" "x \<noteq> c1_at v" for x using that u(3) t(3) by simp
  have out: "mem t x = mem s x" if "x \<in> fish_own sy \<union> screen_rng \<union> rng (frame_struct v) 16" for x
    by (rule same) (use ap that in \<open>auto simp: fish_apart_def\<close>)
  have "stages sy t st" by (rule stages_same [OF lay st out]) simp
  moreover have "frame_lengths v t" by (rule frame_lengths_same [OF len out]) simp
  ultimately show ?thesis using u(1) t(1) fish_step_trans [OF u(2) t(2)] u(3) t(3) ne
    by (intro exI [of _ e0] exI [of _ e1] exI [of _ u] exI [of _ t]) simp
qed

lemma frame_cols_row:
  assumes ap: "fish_apart sy v"
  shows "fish_kernel sy v s \<Longrightarrow> both_at v fd0 fd1 eof0 eof1 s xs ys n0 n1 \<Longrightarrow> stages sy s st \<Longrightarrow> frame_lengths v s \<Longrightarrow>
    \<forall>b \<in> set (row_blinks row col xs ys). location b \<noteq> 0 \<Longrightarrow>
    \<exists>e0 e1 t. frame_cols sy v fd0 fd1 row col eof0 eof1 s = Some ((e0, e1), t) \<and>
      stages sy t (fold stage_add (row_blinks row col xs ys) st) \<and> fish_step sy v s t \<and> frame_lengths v t \<and>
      both_at v fd0 fd1 e0 e1 t [] [] n0 n1 \<and> mem t (c0_at v) = 0x0A \<and> mem t (c1_at v) = 0x0A"
proof (induction row col xs ys arbitrary: s eof0 eof1 st rule: row_blinks.induct)
  case (1 row col xs ys)
  obtain e0 e1 u t where t: "frame_char fd0 (c0_at v) eof0 s = Some (e0, u)" "frame_char fd1 (c1_at v) eof1 u = Some (e1, t)"
    "fish_step sy v s t" "both_at v fd0 fd1 e0 e1 t (tl xs) (tl ys) n0 n1" "stages sy t st" "frame_lengths v t"
    "mem t (c0_at v) = (if xs = [] then 0x0A else hd xs)" "mem t (c1_at v) = (if ys = [] then 0x0A else hd ys)"
    using both_pull [OF ap "1.prems"(1-4)] by blast
  note kt = fish_kernel_step [OF "1.prems"(1) t(3)]
  have nl: "0x0A \<notin> set xs" "0x0A \<notin> set ys" using "1.prems"(2) by (auto simp: both_at_def dest: row_at_no_newline)
  then have hd: "xs \<noteq> [] \<Longrightarrow> hd xs \<noteq> 0x0A" "ys \<noteq> [] \<Longrightarrow> hd ys \<noteq> 0x0A" by (metis hd_in_set)+
  show ?case
  proof (cases "xs = [] \<and> ys = []")
    case True
    then have "frame_cols sy v fd0 fd1 row col eof0 eof1 s = Some ((e0, e1), t)"
      using t by (subst frame_cols.simps) simp
    with True t show ?thesis by (intro exI [of _ e0] exI [of _ e1] exI [of _ t]) (simp add: row_blinks.simps)
  next
    case False
    define cell where "cell = (let b = frame_blink row col xs ys in if on_char b = 0x20 \<and> off_char b = 0x20 then [] else [b])"
    have row: "row_blinks row col xs ys = cell @ row_blinks row (col + 1) (tl xs) (tl ys)"
      by (subst row_blinks.simps) (simp only: cell_def False if_False)
    have loc: "\<forall>b \<in> set cell. location b \<noteq> 0" "\<forall>b \<in> set (row_blinks row (col + 1) (tl xs) (tl ys)). location b \<noteq> 0"
      using "1.prems"(5) unfolding row by auto
    from False have ne: "xs \<noteq> [] \<or> ys \<noteq> []" by blast
    obtain m where m: "frame_cell sy v row col t = Some (t\<lparr>mem := m\<rparr>)" "stages sy (t\<lparr>mem := m\<rparr>) (fold stage_add cell st)"
      "frame_lengths v (t\<lparr>mem := m\<rparr>)" "fish_step sy v t (t\<lparr>mem := m\<rparr>)" "m (c0_at v) = mem t (c0_at v)" "m (c1_at v) = mem t (c1_at v)"
      using frame_cell_adds [OF ap t(5,6) t(7,8) nl ne cell_def loc(1)] by blast
    have b: "both_at v fd0 fd1 e0 e1 (t\<lparr>mem := m\<rparr>) (tl xs) (tl ys) n0 n1"
      by (rule both_at_step [OF t(4) kt m(4)]) (simp_all add: m(5,6))
    obtain e0' e1' t' where t': "frame_cols sy v fd0 fd1 row (col + 1) e0 e1 (t\<lparr>mem := m\<rparr>) = Some ((e0', e1'), t')"
      "stages sy t' (fold stage_add (row_blinks row (col + 1) (tl xs) (tl ys)) (fold stage_add cell st))" "fish_step sy v (t\<lparr>mem := m\<rparr>) t'"
      "frame_lengths v t'" "both_at v fd0 fd1 e0' e1' t' [] [] n0 n1" "mem t' (c0_at v) = 0x0A" "mem t' (c1_at v) = 0x0A"
      using "1.IH" [OF False fish_kernel_step [OF kt m(4)] b m(2,3) loc(2)] by blast
    have "\<not> (mem t (c0_at v) = 0x0A \<and> mem t (c1_at v) = 0x0A)" using ne hd unfolding t(7,8) by auto
    then have "frame_cols sy v fd0 fd1 row col eof0 eof1 s = Some ((e0', e1'), t')"
      using t(1,2) m(1) t'(1) by (subst frame_cols.simps) auto
    then show ?thesis using t' fish_step_trans [OF t(3) fish_step_trans [OF m(4) t'(3)]]
      by (intro exI [of _ e0'] exI [of _ e1'] exI [of _ t']) (simp add: row)
  qed
qed

end
