(* ===== verification/Fishrun.thy ===== *)
theory Fishrun
  imports Fish
begin

text \<open>
  \<open>fish\<close> from its frames to its end: the rows of \<open>add_frames\<close>, the waits and the commands of
  \<open>main\<close>, composed into one run over the stage the user sees.
\<close>

section \<open>The frames\<close>

lemma small_fd:
  assumes "2 \<le> unat fd" "unat fd < 8"
  shows "fd_valid 2 fd" "fd_valid 0 fd" "\<not> (8 \<le>s fd \<or> fd <s 0)" "\<not> (fd :: u32) <s 0"
proof -
  have fd: "fd = of_nat (unat fd)" by simp
  have "unat fd \<in> {2, 3, 4, 5, 6, 7}" using assms by auto
  then have "fd_valid 2 (of_nat (unat fd)) \<and> fd_valid 0 (of_nat (unat fd)) \<and>
      \<not> (8 \<le>s (of_nat (unat fd) :: u32) \<or> (of_nat (unat fd) :: u32) <s 0)"
    by (elim insertE emptyE) (simp_all add: fd_valid_def word_sless_alt word_sle_eq)
  then show "fd_valid 2 fd" "fd_valid 0 fd" "\<not> (8 \<le>s fd \<or> fd <s 0)" "\<not> fd <s 0" unfolding fd [symmetric] by simp_all
qed

lemma refused_calls:
  assumes "reads fd c None s"
  shows "ece391_read fd b n s = Some (minus_one, after_call s 0 [] (cur_files (in_kernel s)))"
    "ece391_write fd b n s = Some (minus_one, after_call s 0 [] (cur_files (in_kernel s)))"
    "ece391_close fd s = Some (minus_one, after_call s 0 [] (cur_files (in_kernel s)))"
  using assms small_fd [of fd]
  by (simp_all add: reads_def ece391_calls resumed_def sys_read_def sys_write_def sys_close_def after_call_def)

lemma refused_step:
  assumes "fish_kernel sy v s"
  shows "fish_step sy v s (after_call s 0 [] (cur_files (in_kernel s)))"
  using assms by (intro after_call_step) (simp_all add: fish_kernel_def)

lemma close_file:
  assumes k: "fish_kernel sy v s" and r: "reads fd c None s \<or> reads fd c (Some xs) s"
  shows "\<exists>r t. ece391_close fd s = Some (r, t) \<and> fish_step sy v s t \<and> mem t = mem s \<and> reads fd c None t \<and>
    (\<forall>i. i \<noteq> unat fd \<longrightarrow> cur_files (in_kernel t) ! i = cur_files (in_kernel s) ! i)"
  using r
proof
  assume n: "reads fd c None s"
  note st = refused_step [OF k]
  have "reads fd c None (after_call s 0 [] (cur_files (in_kernel s)))" by (rule reads_step [OF n k st]) simp
  with refused_calls(3) [OF n] st show ?thesis by (intro exI [of _ minus_one] exI) auto
next
  assume o: "reads fd c (Some xs) s"
  let ?k = "in_kernel s"
  let ?fs = "(cur_files ?k)[unat fd := blank ?k]"
  let ?t = "after_call s 0 [] ?fs"
  have fd: "2 \<le> unat fd" "unat fd < 8" using o by (simp_all add: reads_def)
  have occ: "flags (cur_files ?k ! unat fd) \<noteq> FILE_AVAIL" "file_ops_table_ptr (cur_files ?k ! unat fd) = FileOps"
    using o by (simp_all add: reads_def FILE_OCCUP_def FILE_AVAIL_def)
  have l8: "length (cur_files ?k) = 8" and bl: "flags (blank ?k) = FILE_AVAIL"
    using k by (simp_all add: fish_kernel_def blank_in_kernel)
  have "ece391_close fd s = Some (0, ?t)"
    using small_fd [OF fd] occ by (simp add: ece391_calls resumed_def sys_close_def file_close_def after_call_def)
  moreover have "fish_step sy v s ?t" using l8 by (intro after_call_step [OF k]) simp_all
  moreover have "reads fd c None ?t" using fd l8 bl by (simp add: reads_def)
  ultimately show ?thesis by (intro exI [of _ 0] exI [of _ ?t]) simp
qed

lemma frame_end_ends:
  assumes k: "fish_kernel sy v s" and c: "c \<in> fish_area sy v" and l: "row_at fd c e s [] n" "mem s c = 0x0A"
  shows "\<exists>t. frame_end fd c e s = Some t \<and> fish_step sy v s t \<and> (\<forall>x. x \<noteq> c \<longrightarrow> mem t x = mem s x) \<and>
    row_at fd c e t (first_line n) (next_lines n) \<and> (n = None \<longleftrightarrow> e) \<and> (n = None \<longrightarrow> reads fd c None t) \<and>
    (\<forall>i. i \<noteq> unat fd \<longrightarrow> cur_files (in_kernel t) ! i = cur_files (in_kernel s) ! i)"
proof (cases e)
  case True
  then have n: "n = None" "reads fd c None s \<or> reads fd c (Some []) s" using l by (auto simp: row_at_def)
  have same: "s\<lparr>mem := (mem s)(c := 0x0A)\<rparr> = s" using l(2) by (cases s) (simp add: fun_upd_idem)
  obtain r t where t: "ece391_close fd s = Some (r, t)" "fish_step sy v s t" "mem t = mem s" "reads fd c None t"
    "\<forall>i. i \<noteq> unat fd \<longrightarrow> cur_files (in_kernel t) ! i = cur_files (in_kernel s) ! i"
    using close_file [OF k n(2)] by blast
  moreover from this have "row_at fd c e t (first_line n) (next_lines n)"
    using True n(1) l(2) by (simp add: row_at_def first_line_def next_lines_def)
  ultimately show ?thesis using True n(1) by (intro exI [of _ t]) (simp add: frame_end_def same)
next
  case False
  then obtain ys where n: "n = Some ys" "reads fd c (Some ys) s" using l by (auto simp: row_at_def)
  let ?t = "s\<lparr>mem := (mem s)(c := 0x30)\<rparr>"
  have st: "fish_step sy v s ?t" using c by (intro fish_step_mem) auto
  have "reads fd c (Some ys) ?t" by (rule reads_step [OF n(2) k st]) simp
  then have "row_at fd c e ?t (first_line n) (next_lines n)" using False n(1) by (auto simp: row_at_def)
  with False n(1) st show ?thesis by (intro exI [of _ ?t]) (simp add: frame_end_def)
qed

lemma both_end:
  assumes ap: "fish_apart sy v" and k: "fish_kernel sy v s" and b: "both_at v fd0 fd1 e0 e1 s [] [] f g"
    and nl: "mem s (c0_at v) = 0x0A" "mem s (c1_at v) = 0x0A" and st: "stages sy s st" and len: "frame_lengths v s"
  shows "\<exists>u t. frame_end fd0 (c0_at v) e0 s = Some u \<and> frame_end fd1 (c1_at v) e1 u = Some t \<and> fish_step sy v s t \<and>
    both_at v fd0 fd1 e0 e1 t (first_line f) (first_line g) (next_lines f) (next_lines g) \<and> stages sy t st \<and> frame_lengths v t \<and>
    (f = None \<longleftrightarrow> e0) \<and> (g = None \<longleftrightarrow> e1) \<and>
    (f = None \<longrightarrow> reads fd0 (c0_at v) None t) \<and> (g = None \<longrightarrow> reads fd1 (c1_at v) None t)"
proof -
  have lay: "fish_layout sy" and ne: "c0_at v \<noteq> c1_at v" and area: "c0_at v \<in> fish_area sy v" "c1_at v \<in> fish_area sy v"
    using ap by (auto simp: fish_apart_def fish_area_def)
  have l: "unat fd0 \<noteq> unat fd1" "row_at fd0 (c0_at v) e0 s [] f" "row_at fd1 (c1_at v) e1 s [] g"
    using b by (simp_all add: both_at_def)
  obtain u where u: "frame_end fd0 (c0_at v) e0 s = Some u" "fish_step sy v s u" "\<forall>x. x \<noteq> c0_at v \<longrightarrow> mem u x = mem s x"
    "row_at fd0 (c0_at v) e0 u (first_line f) (next_lines f)" "f = None \<longleftrightarrow> e0" "f = None \<longrightarrow> reads fd0 (c0_at v) None u"
    "\<forall>i. i \<noteq> unat fd0 \<longrightarrow> cur_files (in_kernel u) ! i = cur_files (in_kernel s) ! i"
    using frame_end_ends [OF k area(1) l(2) nl(1)] by blast
  note ku = fish_kernel_step [OF k u(2)]
  have lu: "row_at fd1 (c1_at v) e1 u [] g" by (rule row_at_step [OF l(3) k u(2)]) (use u(3,7) ne l(1) in auto)
  have "mem u (c1_at v) = 0x0A" using u(3) ne nl(2) by simp
  from frame_end_ends [OF ku area(2) lu this] obtain t where t: "frame_end fd1 (c1_at v) e1 u = Some t" "fish_step sy v u t"
    "\<forall>x. x \<noteq> c1_at v \<longrightarrow> mem t x = mem u x" "row_at fd1 (c1_at v) e1 t (first_line g) (next_lines g)" "g = None \<longleftrightarrow> e1"
    "g = None \<longrightarrow> reads fd1 (c1_at v) None t" "\<forall>i. i \<noteq> unat fd1 \<longrightarrow> cur_files (in_kernel t) ! i = cur_files (in_kernel u) ! i"
    by blast
  have slot: "cur_files (in_kernel t) ! unat fd0 = cur_files (in_kernel u) ! unat fd0" using t(7) l(1) by simp
  have "row_at fd0 (c0_at v) e0 t (first_line f) (next_lines f)"
    by (rule row_at_step [OF u(4) ku t(2) _ slot]) (use t(3) ne in simp)
  then have "both_at v fd0 fd1 e0 e1 t (first_line f) (first_line g) (next_lines f) (next_lines g)"
    using t(4) l(1) by (simp add: both_at_def)
  moreover
  have out: "mem t x = mem s x" if "x \<in> fish_own sy \<union> screen_rng \<union> rng (frame_struct v) 16" for x
  proof -
    have "x \<noteq> c0_at v" "x \<noteq> c1_at v" using ap that by (auto simp: fish_apart_def)
    then show ?thesis using u(3) t(3) by simp
  qed
  have "stages sy t st" by (rule stages_same [OF lay st out]) simp
  moreover have "frame_lengths v t" by (rule frame_lengths_same [OF len out]) simp
  moreover have "f = None \<longrightarrow> reads fd0 (c0_at v) None t" using u(6) reads_step [OF _ ku t(2) slot] by blast
  ultimately show ?thesis using u(1,5) t(1,5,6) fish_step_trans [OF u(2) t(2)] by blast
qed

lemma frame_rows_all:
  assumes ap: "fish_apart sy v"
  shows "fish_kernel sy v s \<Longrightarrow> both_at v fd0 fd1 e0 e1 s (first_line f) (first_line g) (next_lines f) (next_lines g) \<Longrightarrow>
    stages sy s st \<Longrightarrow> frame_lengths v s \<Longrightarrow> (f = None \<longleftrightarrow> e0) \<Longrightarrow> (g = None \<longleftrightarrow> e1) \<Longrightarrow>
    (f = None \<longrightarrow> reads fd0 (c0_at v) None s) \<Longrightarrow> (g = None \<longrightarrow> reads fd1 (c1_at v) None s) \<Longrightarrow>
    \<forall>b \<in> set (frame_blinks row f g). location b \<noteq> 0 \<Longrightarrow>
    \<exists>t. frame_rows sy v fd0 fd1 row e0 e1 s = Some t \<and> stages sy t (fold stage_add (frame_blinks row f g) st) \<and>
      fish_step sy v s t \<and> reads fd0 (c0_at v) None t \<and> reads fd1 (c1_at v) None t"
proof (induction row f g arbitrary: s st e0 e1 rule: frame_blinks.induct)
  case (1 row f g)
  show ?case
  proof (cases "f = None \<and> g = None")
    case True
    then have "frame_rows sy v fd0 fd1 row e0 e1 s = Some s"
      using "1.prems"(5,6) by (subst frame_rows.simps) simp
    with True "1.prems"(3,7,8) show ?thesis by (intro exI [of _ s]) (simp add: frame_blinks.simps)
  next
    case False
    have rows: "frame_blinks row f g =
        row_blinks row 0 (first_line f) (first_line g) @ frame_blinks (row + 1) (next_lines f) (next_lines g)"
      by (subst frame_blinks.simps) (simp only: False if_False)
    have loc: "\<forall>b \<in> set (row_blinks row 0 (first_line f) (first_line g)). location b \<noteq> 0"
      "\<forall>b \<in> set (frame_blinks (row + 1) (next_lines f) (next_lines g)). location b \<noteq> 0"
      using "1.prems"(9) unfolding rows by auto
    obtain e0' e1' u where u: "frame_cols sy v fd0 fd1 row 0 e0 e1 s = Some ((e0', e1'), u)"
      "stages sy u (fold stage_add (row_blinks row 0 (first_line f) (first_line g)) st)" "fish_step sy v s u" "frame_lengths v u"
      "both_at v fd0 fd1 e0' e1' u [] [] (next_lines f) (next_lines g)" "mem u (c0_at v) = 0x0A" "mem u (c1_at v) = 0x0A"
      using frame_cols_row [OF ap "1.prems"(1-4) loc(1)] by blast
    obtain w t where t: "frame_end fd0 (c0_at v) e0' u = Some w" "frame_end fd1 (c1_at v) e1' w = Some t" "fish_step sy v u t"
      "both_at v fd0 fd1 e0' e1' t (first_line (next_lines f)) (first_line (next_lines g))
        (next_lines (next_lines f)) (next_lines (next_lines g))"
      "stages sy t (fold stage_add (row_blinks row 0 (first_line f) (first_line g)) st)" "frame_lengths v t"
      "next_lines f = None \<longleftrightarrow> e0'" "next_lines g = None \<longleftrightarrow> e1'"
      "next_lines f = None \<longrightarrow> reads fd0 (c0_at v) None t" "next_lines g = None \<longrightarrow> reads fd1 (c1_at v) None t"
      using both_end [OF ap fish_kernel_step [OF "1.prems"(1) u(3)] u(5,6,7,2,4)] by (elim exE conjE) (rule that)
    have kt: "fish_kernel sy v t" by (rule fish_kernel_step [OF fish_kernel_step [OF "1.prems"(1) u(3)] t(3)])
    obtain z where z: "frame_rows sy v fd0 fd1 (row + 1) e0' e1' t = Some z"
      "stages sy z (fold stage_add (frame_blinks (row + 1) (next_lines f) (next_lines g))
        (fold stage_add (row_blinks row 0 (first_line f) (first_line g)) st))" "fish_step sy v t z"
      "reads fd0 (c0_at v) None z" "reads fd1 (c1_at v) None z"
      using "1.IH" [OF False kt t(4-10) loc(2)] by blast
    have "\<not> e0 \<or> \<not> e1" using False "1.prems"(5,6) by blast
    then have "frame_rows sy v fd0 fd1 row e0 e1 s = Some z"
      using u(1) t(1,2) z(1) by (subst frame_rows.simps) auto
    with z fish_step_trans [OF u(3) fish_step_trans [OF t(3) z(3)]] show ?thesis by (intro exI [of _ z]) (simp add: rows)
  qed
qed

section \<open>Ticks and commands\<close>

lemma fold_show_else:
  "\<forall>b \<in> set bs. location b < 2000 \<Longrightarrow> x \<notin> screen_rng \<Longrightarrow> fold tick_show bs m x = m x"
proof (induction bs arbitrary: m)
  case (Cons b bs)
  then have "tick_show b m x = m x" by (simp add: tick_show_def show_else)
  with Cons fold_show_at [of "tick_show b m" x m bs] show ?case by simp
qed simp

lemma tick_stages:
  assumes lay: "fish_layout sy" and st: "stages sy s st"
  shows "\<exists>m. mp1_rtc_tasklet sy (mem s) = Some m \<and> stages sy (s\<lparr>mem := m\<rparr>) (stage_tick st) \<and>
    (\<forall>x. x \<notin> fish_own sy \<union> screen_rng \<longrightarrow> m x = mem s x)"
proof -
  obtain js where js: "blink_heap sy (mem s) js" "blinks sy (mem s) js = fst st" "\<forall>x \<in> screen_rng. mem s x = snd st x"
    using st by (auto simp: stages_def)
  obtain m where m: "mp1_rtc_tasklet sy (mem s) = Some m" "blink_heap sy m js" "blinks sy m js = map tick (fst st)"
    "\<forall>x. x \<notin> fish_own sy \<longrightarrow> m x = fold tick_show (fst st) (mem s) x"
    using tasklet_ticks [OF lay js(1)] js(2) by auto
  have "\<forall>b \<in> set (fst st). location b < 2000" using js(1) unfolding js(2) [symmetric] by (auto simp: blinks_def blink_heap_def)
  then have "m x = mem s x" if "x \<notin> fish_own sy \<union> screen_rng" for x using m(4) that fold_show_else by simp
  moreover have "m x = fold tick_show (fst st) (snd st) x" if "x \<in> screen_rng" for x
    using m(4) screen_not_own [OF lay that] fold_show_at [of "mem s" x "snd st"] js(3) that by simp
  ultimately show ?thesis using m(1-3) by (auto simp: stages_def stage_tick_def)
qed

lemma find_remove: "find_loc l bs = None \<Longrightarrow> remove_first l bs = bs"
  by (induction bs) (auto simp: find_loc_def split: if_splits)

lemma remove_stages:
  assumes lay: "fish_layout sy" and st: "stages sy s st"
  shows "\<exists>r m. blink_call (mp1_ioctl sy tmp (mem s) arg RTC_REMOVE) s = Some (r, s\<lparr>mem := m\<rparr>) \<and>
    stages sy (s\<lparr>mem := m\<rparr>) (stage_remove (ucast arg) st) \<and> (\<forall>x. x \<notin> fish_own sy \<longrightarrow> m x = mem s x)"
proof -
  obtain js where js: "blink_heap sy (mem s) js" "blinks sy (mem s) js = fst st" "\<forall>x \<in> screen_rng. mem s x = snd st x"
    using st by (auto simp: stages_def)
  have cmd: "mp1_ioctl sy tmp (mem s) arg RTC_REMOVE = mp1_ioctl_remove sy (mem s) arg"
    by (simp add: mp1_ioctl_def blink_commands)
  show ?thesis
  proof (cases "find_loc (ucast arg) (fst st)")
    case None
    with ioctl_remove_refines [OF lay js(1), of arg] have "mp1_ioctl_remove sy (mem s) arg = Some (minus_one, mem s)"
      by (simp add: js(2))
    with None st show ?thesis
      by (intro exI [of _ minus_one] exI [of _ "mem s"]) (simp add: cmd blink_call_def stage_remove_def find_remove)
  next
    case (Some b)
    with ioctl_remove_refines [OF lay js(1), of arg] obtain m ks where m: "mp1_ioctl_remove sy (mem s) arg = Some (0, m)"
      "blink_heap sy m ks" "blinks sy m ks = remove_first (ucast arg) (fst st)" "\<forall>x. x \<notin> fish_own sy \<longrightarrow> m x = mem s x"
      by (auto simp: js(2))
    moreover from this js(3) have "\<forall>x \<in> screen_rng. m x = snd st x" using screen_not_own [OF lay] by simp
    ultimately show ?thesis
      by (intro exI [of _ 0] exI [of _ m]) (auto simp: cmd blink_call_def stages_def stage_remove_def)
  qed
qed

lemma sync_stages:
  assumes lay: "fish_layout sy" and st: "stages sy s st"
  shows "\<exists>r m. blink_call (mp1_ioctl sy tmp (mem s) arg RTC_SYNC) s = Some (r, s\<lparr>mem := m\<rparr>) \<and>
    stages sy (s\<lparr>mem := m\<rparr>) (stage_sync (ucast (drop_bit 16 arg)) (ucast arg) st) \<and>
    (\<forall>x. x \<notin> fish_own sy \<union> screen_rng \<longrightarrow> m x = mem s x)"
proof -
  obtain js where js: "blink_heap sy (mem s) js" "blinks sy (mem s) js = fst st" "\<forall>x \<in> screen_rng. mem s x = snd st x"
    using st by (auto simp: stages_def)
  have cmd: "mp1_ioctl sy tmp (mem s) arg RTC_SYNC = mp1_ioctl_sync sy (mem s) arg"
    by (simp add: mp1_ioctl_def blink_commands)
  note sync = ioctl_sync_refines [OF lay js(1), of arg, unfolded js(2)]
  show ?thesis
  proof (cases "find_loc (ucast (drop_bit 16 arg)) (fst st) = None \<or> find_loc (ucast arg) (fst st) = None")
    case True
    with sync have "mp1_ioctl_sync sy (mem s) arg = Some (minus_one, mem s)" by (auto split: option.splits)
    moreover have "stage_sync (ucast (drop_bit 16 arg)) (ucast arg) st = st"
      using True by (auto simp: stage_sync_def split: option.splits)
    ultimately show ?thesis using st
      by (intro exI [of _ minus_one] exI [of _ "mem s"]) (simp add: cmd blink_call_def)
  next
    case False
    then obtain a b where ab: "find_loc (ucast (drop_bit 16 arg)) (fst st) = Some a" "find_loc (ucast arg) (fst st) = Some b" by auto
    with sync obtain m where m: "mp1_ioctl_sync sy (mem s) arg = Some (0, m)" "blink_heap sy m js"
      "blinks sy m js = update_first (ucast arg) (synced a) (fst st)"
      "\<forall>x. x \<notin> fish_own sy \<longrightarrow> m x = blink_show (location b) (off_char b) (mem s) x" by auto
    have "b \<in> set (fst st)" using ab(2) by (auto simp: find_loc_def find_Some_iff)
    then have l: "location b < 2000" using js(1) unfolding js(2) [symmetric] by (auto simp: blinks_def blink_heap_def)
    have "\<forall>x \<in> screen_rng. m x = blink_show (location b) (off_char b) (snd st) x"
      using m(4) js(3) screen_not_own [OF lay] show_at [of "mem s" _ "snd st"] by simp
    moreover have "\<forall>x. x \<notin> fish_own sy \<union> screen_rng \<longrightarrow> m x = mem s x" using m(4) show_else [OF l] by simp
    ultimately show ?thesis using m(1-3) ab
      by (intro exI [of _ 0] exI [of _ m]) (auto simp: cmd blink_call_def stages_def stage_sync_def)
  qed
qed

lemma wait_ticks_runs:
  assumes lay: "fish_layout sy"
  shows "fish_kernel sy v s \<Longrightarrow> reads fd c None s \<Longrightarrow> stages sy s st \<Longrightarrow>
    \<exists>t. wait_ticks sy v fd n s = Some t \<and> stages sy t ((stage_tick ^^ n) st) \<and> fish_step sy v s t \<and> reads fd c None t"
proof (induction n arbitrary: s st)
  case (Suc n)
  let ?u = "after_call s 0 [] (cur_files (in_kernel s))"
  note call = refused_calls(1) [OF Suc.prems(2), of "garbage_at v" 4]
  note su = refused_step [OF Suc.prems(1)]
  have stu: "stages sy ?u st" by (rule stages_same [OF lay Suc.prems(3)]) simp
  obtain m where m: "mp1_rtc_tasklet sy (mem ?u) = Some m" "stages sy (?u\<lparr>mem := m\<rparr>) (stage_tick st)"
    "\<forall>x. x \<notin> fish_own sy \<union> screen_rng \<longrightarrow> m x = mem ?u x" using tick_stages [OF lay stu] by blast
  let ?w = "?u\<lparr>mem := m\<rparr>"
  have "fish_step sy v ?u ?w" by (rule fish_step_mem) (use m(3) in \<open>auto simp: fish_area_def\<close>)
  then have sw: "fish_step sy v s ?w" by (rule fish_step_trans [OF su])
  have "reads fd c None ?w" by (rule reads_step [OF Suc.prems(2,1) sw]) simp
  from Suc.IH [OF fish_kernel_step [OF Suc.prems(1) sw] this m(2)] obtain t where t: "wait_ticks sy v fd n ?w = Some t"
    "stages sy t ((stage_tick ^^ n) (stage_tick st))" "fish_step sy v ?w t" "reads fd c None t" by blast
  then show ?case using call m(1) fish_step_trans [OF sw t(3)] by (intro exI [of _ t]) (simp add: funpow_swap1)
qed simp

section \<open>The whole program\<close>

text \<open>A name in the memory of the program, beside what it writes, that leads to an entry of the directory.\<close>

definition names_entry :: "fish_syms \<Rightarrow> fish_vars \<Rightarrow> 'a kernel_scheme \<Rightarrow> u32 \<Rightarrow> dentry_t \<Rightarrow> bool" where
  "names_entry sy v s fname d \<longleftrightarrow> (\<exists>name. cstr (mem s) fname name \<and> fname \<noteq> 0 \<and> name \<noteq> [] \<and> length name < 32 \<and>
     rng fname (Suc (length name)) \<inter> fish_area sy v = {} \<and> entry_of (in_kernel s) name = Some d)"

definition frame_file :: "fish_syms \<Rightarrow> fish_vars \<Rightarrow> 'a kernel_scheme \<Rightarrow> u32 \<Rightarrow> u8 list \<Rightarrow> bool" where
  "frame_file sy v s fname xs \<longleftrightarrow> (\<exists>d. names_entry sy v s fname d \<and> filetype d = 2 \<and>
     unat (dentry_inode d) < img_inodes (mem s) (fs_ptr s) \<and> xs = file_content (mem s) (fs_ptr s) (unat (dentry_inode d)))"

lemma names_entry_step:
  assumes "names_entry sy v s fname d" "fish_kernel sy v s" "fish_step sy v s t"
  shows "names_entry sy v t fname d"
proof -
  obtain name where n: "cstr (mem s) fname name" "fname \<noteq> 0" "name \<noteq> []" "length name < 32"
    "rng fname (Suc (length name)) \<inter> fish_area sy v = {}" "entry_of (in_kernel s) name = Some d"
    using assms(1) by (auto simp: names_entry_def)
  have "cstr (mem t) fname name = cstr (mem s) fname name"
    by (rule cstr_cong) (use n(5) assms(3) in \<open>auto simp: fish_step_def\<close>)
  moreover have "entry_of (in_kernel t) name = entry_of (in_kernel s) name"
    using fish_agree [OF assms(2,3)] assms(3) by (intro entry_of_same) (simp_all add: fish_step_def)
  ultimately show ?thesis using n unfolding names_entry_def by auto
qed

lemma frame_file_step:
  assumes "frame_file sy v s fname xs" "fish_kernel sy v s" "fish_step sy v s t"
  shows "frame_file sy v t fname xs"
proof -
  note agree = fish_agree [OF assms(2,3)]
  obtain d where d: "names_entry sy v s fname d" "filetype d = 2" "unat (dentry_inode d) < img_inodes (mem s) (fs_ptr s)"
    "xs = file_content (mem s) (fs_ptr s) (unat (dentry_inode d))" using assms(1) by (auto simp: frame_file_def)
  have "img_ok (mem s) (fs_ptr s)" using assms(2) by (simp add: fish_kernel_def)
  then have "file_content (mem t) (fs_ptr s) (unat (dentry_inode d)) = xs"
    using img_slice_same [OF agree _ d(3)] img_same(3) [OF agree d(3)] d(4) by (simp add: file_content_def)
  moreover have "fs_ptr t = fs_ptr s" using assms(3) by (simp add: fish_step_def)
  ultimately show ?thesis
    using d names_entry_step [OF d(1) assms(2,3)] img_same(1) [OF agree] unfolding frame_file_def by auto
qed

lemma open_frame:
  assumes f: "frame_file sy v s fname xs" and k: "fish_kernel sy v s" and c: "c \<in> fish_area sy v"
    and free: "free_slot (cur_files (in_kernel s)) 2 = idx" "idx < 8"
  shows "\<exists>t. ece391_open fname s = Some (of_nat idx, t) \<and> fish_step sy v s t \<and> mem t = mem s \<and>
    reads (of_nat idx) c (Some xs) t \<and> (\<forall>i. i \<noteq> idx \<longrightarrow> cur_files (in_kernel t) ! i = cur_files (in_kernel s) ! i) \<and>
    flags (cur_files (in_kernel t) ! idx) = FILE_OCCUP"
proof -
  obtain name d where n: "cstr (mem s) fname name" "fname \<noteq> 0" "name \<noteq> []" "length name < 32" "entry_of (in_kernel s) name = Some d"
    and d: "filetype d = 2" "unat (dentry_inode d) < img_inodes (mem s) (fs_ptr s)"
      "xs = file_content (mem s) (fs_ptr s) (unat (dentry_inode d))"
    using f by (auto simp: frame_file_def names_entry_def)
  let ?fs = "(cur_files (in_kernel s))[idx := opened_as FileOps (dentry_inode d)]"
  let ?t = "after_call s 0 [] ?fs"
  have l8: "length (cur_files (in_kernel s)) = 8" and img: "img_ok (mem s) (fs_ptr s)"
    and ir: "img_rng (mem s) (fs_ptr s) \<inter> fish_area sy v = {}" using k by (simp_all add: fish_kernel_def)
  have i: "2 \<le> idx" "unat (of_nat idx :: u32) = idx"
    using free_slot_spec [of 2 "cur_files (in_kernel s)"] free small_fds by auto
  have "ece391_open fname s = Some (of_nat idx, ?t)"
    using open_call [OF n _ free, of 0] d(1) by simp
  moreover have "fish_step sy v s ?t" using l8 by (intro after_call_step [OF k]) simp_all
  moreover have slot: "cur_files (in_kernel ?t) ! idx = opened_as FileOps (dentry_inode d)" using free(2) l8 by simp
  moreover have "fd_pos (of_nat idx) (in_kernel ?t) = 0" "fd_file (of_nat idx) (in_kernel ?t) = xs"
    using slot by (simp_all add: fd_pos_def fd_file_def i(2) opened_as_def d(3))
  then have "reads (of_nat idx) c (Some xs) ?t"
    using slot i free(2) l8 img d ir c by (auto simp: reads_def fd_ok_def fd_rest_def opened_as_def rng_def)
  ultimately show ?thesis by (intro exI [of _ ?t]) (simp add: opened_as_def)
qed

lemma free_slot_at:
  "i < 8 \<Longrightarrow> flags (fs ! i) = FILE_AVAIL \<Longrightarrow> free_slot fs i = i"
  "i < 8 \<Longrightarrow> flags (fs ! i) \<noteq> FILE_AVAIL \<Longrightarrow> free_slot fs i = free_slot fs (Suc i)"
  by (subst free_slot.simps, simp add: NUM_MAX_OPEN_FILES_def)+

lemma add_frames_runs:
  assumes ap: "fish_apart sy v" and k: "fish_kernel sy v s" and st: "stages sy s st"
    and f: "frame_file sy v s (file0 v) xs" "frame_file sy v s (file1 v) ys"
    and free: "flags (cur_files (in_kernel s) ! 2) = FILE_AVAIL" "flags (cur_files (in_kernel s) ! 3) = FILE_AVAIL"
    and loc: "\<forall>b \<in> set (frame_blinks 0 (Some xs) (Some ys)). location b \<noteq> 0"
  shows "\<exists>t. add_frames sy v s = Some (None, t) \<and> stages sy t (fold stage_add (frame_blinks 0 (Some xs) (Some ys)) st) \<and>
    fish_step sy v s t \<and> reads 2 (c0_at v) None t"
proof -
  let ?b = "frame_struct v"
  define m where "m = store16 (store16 ((mem s)(c0_at v := 0x30, c1_at v := 0x30)) (?b + ON_LENGTH) 15) (?b + OFF_LENGTH) 15"
  let ?s = "s\<lparr>mem := m\<rparr>"
  have lay: "fish_layout sy" and ne: "c0_at v \<noteq> c1_at v" and area: "c0_at v \<in> fish_area sy v" "c1_at v \<in> fish_area sy v"
    using ap by (auto simp: fish_apart_def fish_area_def)
  have sub: "rng (?b + ON_LENGTH) 2 \<subseteq> rng ?b 16" "rng (?b + OFF_LENGTH) 2 \<subseteq> rng ?b 16"
    using rng_shift [of 4 2 16 ?b] rng_shift [of 6 2 16 ?b] by (simp_all add: blink_offsets)
  have out: "m x = mem s x" if "x \<notin> rng ?b 16" "x \<noteq> c0_at v" "x \<noteq> c1_at v" for x
  proof -
    have "x \<notin> rng (?b + ON_LENGTH) 2" "x \<notin> rng (?b + OFF_LENGTH) 2" using that(1) sub by blast+
    then show ?thesis using that by (simp add: m_def store16_other)
  qed
  have cs: "m (c0_at v) = 0x30" "m (c1_at v) = 0x30"
  proof -
    have "c0_at v \<notin> rng ?b 16" "c1_at v \<notin> rng ?b 16" using ap by (auto simp: fish_apart_def)
    then have "c0_at v \<notin> rng (?b + ON_LENGTH) 2" "c0_at v \<notin> rng (?b + OFF_LENGTH) 2"
      "c1_at v \<notin> rng (?b + ON_LENGTH) 2" "c1_at v \<notin> rng (?b + OFF_LENGTH) 2" using sub by blast+
    then show "m (c0_at v) = 0x30" "m (c1_at v) = 0x30" using ne by (simp_all add: m_def store16_other)
  qed
  have s0: "fish_step sy v s ?s" by (rule fish_step_mem) (use out in \<open>auto simp: fish_area_def\<close>)
  have st0: "stages sy ?s st"
  proof (rule stages_same [OF lay st])
    fix x assume "x \<in> fish_own sy \<union> screen_rng"
    then have "x \<notin> rng ?b 16" "x \<noteq> c0_at v" "x \<noteq> c1_at v"
      using ap by (auto simp: fish_apart_def blink_args_def screen_rng_def)
    then show "mem ?s x = mem s x" using out by simp
  qed
  have len: "frame_lengths v ?s"
    unfolding frame_lengths_def by (simp add: m_def load16_def store16_def blink_offsets add.assoc)
  note k0 = fish_kernel_step [OF k s0]
  have "free_slot (cur_files (in_kernel ?s)) 2 = 2" using free(1) by (intro free_slot_at(1)) simp_all
  from open_frame [OF frame_file_step [OF f(1) k s0] k0 area(1) this]
  obtain a where a: "ece391_open (file0 v) ?s = Some (2, a)" "fish_step sy v ?s a" "mem a = m" "reads 2 (c0_at v) (Some xs) a"
    "\<forall>i. i \<noteq> 2 \<longrightarrow> cur_files (in_kernel a) ! i = cur_files (in_kernel s) ! i" "flags (cur_files (in_kernel a) ! 2) = FILE_OCCUP" by auto
  note sa = fish_step_trans [OF s0 a(2)] and ka = fish_kernel_step [OF k0 a(2)]
  have "free_slot (cur_files (in_kernel a)) 2 = 3"
    using a(5,6) free(2) free_slot_at(2) [of 2 "cur_files (in_kernel a)"] free_slot_at(1) [of 3 "cur_files (in_kernel a)"]
    by (simp add: FILE_OCCUP_def FILE_AVAIL_def)
  from open_frame [OF frame_file_step [OF f(2) k sa] ka area(2) this]
  obtain b where b: "ece391_open (file1 v) a = Some (3, b)" "fish_step sy v a b" "mem b = m" "reads 3 (c1_at v) (Some ys) b"
    "\<forall>i. i \<noteq> 3 \<longrightarrow> cur_files (in_kernel b) ! i = cur_files (in_kernel a) ! i" using a(3) by auto
  note sb = fish_step_trans [OF sa b(2)] and kb = fish_kernel_step [OF ka b(2)]
  have "reads 2 (c0_at v) (Some xs) b" by (rule reads_step [OF a(4) ka b(2)]) (use b(5) in simp)
  then have both: "both_at v 2 3 False False b (first_line (Some xs)) (first_line (Some ys)) (next_lines (Some xs)) (next_lines (Some ys))"
    using b(3,4) cs by (auto simp: both_at_def row_at_def)
  have stb: "stages sy b st" by (rule stages_same [OF lay st0]) (simp add: b(3))
  have lenb: "frame_lengths v b" using len by (simp add: frame_lengths_def b(3))
  obtain t where t: "frame_rows sy v 2 3 0 False False b = Some t"
    "stages sy t (fold stage_add (frame_blinks 0 (Some xs) (Some ys)) st)" "fish_step sy v b t" "reads 2 (c0_at v) None t"
    using frame_rows_all [OF ap kb both stb lenb _ _ _ _ loc] by auto
  have "\<not> (2 :: u32) <s 0" "\<not> (3 :: u32) <s 0" by (simp_all add: word_sless_alt)
  then have "add_frames sy v s = Some (None, t)"
    using a(1) b(1) t(1) by (simp add: add_frames_def m_def Let_def)
  with t fish_step_trans [OF sb t(3)] show ?thesis by blast
qed

text \<open>The page of the screen, mapped while the program runs.\<close>

lemma store32_twice: "store32 (store32 m a v) a w = store32 m a w"
  unfolding store32_bytes by (subst store_bytes_twice) simp_all

lemma vidmap_call:
  assumes ptr: "PAGE_TOP \<le> ptr" "ptr \<le> PAGE_BOTTOM" and tlb: "tlb_pde s = user_pde s"
  shows "\<exists>t. ece391_vidmap ptr s = Some (0, t) \<and> mem t = store32 (mem s) ptr PAGE_VIDMEM \<and> fs_ptr t = fs_ptr s \<and>
    blank t = blank s \<and> cur_files (in_kernel t) = cur_files (in_kernel s)"
proof -
  let ?k = "in_kernel s"
  define k where "k = snd (vidmap ptr ?k)"
  have p0: "ptr \<noteq> 0" "\<not> ptr < PAGE_TOP" "\<not> PAGE_BOTTOM < ptr" using ptr by (auto simp: PAGE_TOP_def)
  have more: "paging.more k = paging.more ?k" using p0 by (simp add: k_def vidmap_def Let_def)
  have same: "with_window (window m) m = m" for m by (rule with_window_same) simp
  have "tlb_pde ?k = user_pde ?k" using tlb by (simp add: in_kernel_def user_pde_def)
  then have m: "mem k = store32 (mem s) ptr PAGE_VIDMEM"
    using p0 same by (simp add: k_def vidmap_def Let_def flush_tlb_def user_pde_def PAGE_VIDMAP_def store32_twice
      PDE_IDX_SHIFT_def USER_BASE_def)
  have e: "eflags k = eflags ?k" using p0 by (simp add: k_def vidmap_def Let_def flush_tlb_def)
  note kf = paging_more_kernel [OF more]
  have "entered s k" using entered_in_kernel [of s] kf(4,7) e by (simp add: entered_def)
  then have j: "in_kernel (in_program s k) = k" by (rule in_kernel_in_program)
  have "vidmap ptr ?k = (0, k)" using p0 by (simp add: k_def vidmap_def Let_def)
  then have "ece391_vidmap ptr s = Some (0, in_program s k)" by (simp add: ece391_calls resumed_def)
  moreover have "blank (in_program s k) = blank s" using kf(2) by (simp add: blank_in_kernel)
  ultimately show ?thesis using m kf(1,14) j by (intro exI [of _ "in_program s k"]) simp
qed

lemma empty_heap:
  assumes lay: "fish_layout sy" and zero: "\<And>b. b \<in> rng (blink_array sy) 32000 \<Longrightarrow> m b = 0"
    and h: "load32 m (mp1_list_head sy) = 0" and v: "load32 m (vmem_base_addr sy) = PAGE_VIDMEM"
  shows "blink_heap sy m []"
proof -
  have "location (blink_at m (blink_slot sy i)) = 0" if "i < 2000" for i
  proof -
    have "blink_at m (blink_slot sy i) = blink_at (\<lambda>_. 0) (blink_slot sy i)"
      using zero slot_in_array [OF that, of sy] struct_parts(3) [of "blink_slot sy i"] by (intro blink_at_cong) blast
    then show ?thesis by (simp add: blink_at_def load16_def)
  qed
  with h v show ?thesis by (simp add: blink_heap_def)
qed

lemma video_mode_sets:
  assumes lay: "fish_layout sy" and k: "fish_kernel sy v s" and ptr: "PAGE_TOP \<le> vmem_base_addr sy" "vmem_base_addr sy \<le> PAGE_BOTTOM"
    and tlb: "tlb_pde s = user_pde s" and head: "load32 (mem s) (mp1_list_head sy) = 0"
  shows "\<exists>t. mp1_set_video_mode sy (s\<lparr>mem := ece391_memset (mem s) (blink_array sy) 0 (STRUCT_SIZE * 80 * 25)\<rparr>) = Some (PAGE_VIDMEM, t) \<and>
    fish_step sy v s t \<and> stages sy t ([], mem s) \<and> cur_files (in_kernel t) = cur_files (in_kernel s)"
proof -
  define m where "m = ece391_memset (mem s) (blink_array sy) 0 (STRUCT_SIZE * 80 * 25)"
  let ?A = "rng (blink_array sy) 32000" and ?s = "s\<lparr>mem := m\<rparr>"
  have m: "m = store_bytes (mem s) (blink_array sy) (replicate 32000 0)"
    using memset_loop_store [of 32000 0 "mem s" "blink_array sy" 0] by (simp add: m_def ece391_memset_def STRUCT_SIZE_def)
  have l: "?A \<inter> rng (mp1_list_head sy) 4 = {}" "?A \<inter> rng (vmem_base_addr sy) 4 = {}"
    "rng (mp1_list_head sy) 4 \<inter> rng (vmem_base_addr sy) 4 = {}" "fish_own sy \<inter> screen_rng = {}"
    using lay by (auto simp: fish_layout_def screen_rng_def)
  have "tlb_pde ?s = user_pde ?s" using tlb by (simp add: user_pde_def)
  from vidmap_call [OF ptr this] obtain t where t: "ece391_vidmap (vmem_base_addr sy) ?s = Some (0, t)"
    "mem t = store32 m (vmem_base_addr sy) PAGE_VIDMEM" "fs_ptr t = fs_ptr s" "blank t = blank s"
    "cur_files (in_kernel t) = cur_files (in_kernel s)" by auto
  have vm: "load32 (mem t) (vmem_base_addr sy) = PAGE_VIDMEM" by (simp add: t(2) load32_store32)
  have out: "mem t x = mem s x" if "x \<notin> ?A" "x \<notin> rng (vmem_base_addr sy) 4" for x
    using that by (simp add: t(2) store32_else m)
  have "blink_heap sy (mem t) []"
  proof (rule empty_heap [OF lay _ _ vm])
    fix b assume b: "b \<in> ?A"
    then obtain i where i: "b = blink_array sy + of_nat i" "i < 32000" by (auto simp: rng_def)
    have "b \<notin> rng (vmem_base_addr sy) 4" using b l(2) by blast
    then have "mem t b = m b" by (simp add: t(2) store32_else)
    also have "\<dots> = 0" unfolding m i(1) using i(2) by (subst store_bytes_nth) simp_all
    finally show "mem t b = 0" .
  next
    have "load32 (mem t) (mp1_list_head sy) = load32 (mem s) (mp1_list_head sy)"
      by (rule load32_cong, rule out) (use l in blast)+
    then show "load32 (mem t) (mp1_list_head sy) = 0" using head by simp
  qed
  moreover have "x \<notin> ?A" "x \<notin> rng (vmem_base_addr sy) 4" if "x \<in> screen_rng" for x
    using l(4) that by (auto simp: fish_own_def)
  ultimately have "stages sy t ([], mem s)" using out by (auto simp: stages_def blinks_def)
  moreover have "fish_step sy v s t"
    using out t(3-5) by (auto simp: fish_step_def fish_area_def fish_own_def)
  moreover have "(0 :: u32) \<noteq> minus_one" by simp
  ultimately show ?thesis
    using t(1,5) vm by (intro exI [of _ t]) (simp add: mp1_set_video_mode_def m_def)
qed

lemma main_blink_filled:
  "started (blink_at (main_blink b m) b) = \<lparr>location = 540, on_char = of_char CHR ''I'', off_char = of_char CHR ''M'',
     on_length = 7, off_length = 6, countdown = 7, status = 1\<rparr>" (is ?filled)
  "x \<notin> rng b 16 \<Longrightarrow> main_blink b m x = m x"
proof -
  have "load16 (main_blink b m) (b + LOCATION) = 540" by (simp add: main_blink_def Let_def)
  moreover have "load16 (main_blink b m) (b + ON_LENGTH) = 7" "load16 (main_blink b m) (b + OFF_LENGTH) = 6"
    "main_blink b m (b + ON_CHAR) = of_char CHR ''I''" "main_blink b m (b + OFF_CHAR) = of_char CHR ''M''"
    by (simp_all add: main_blink_def Let_def load16_def store16_def blink_offsets add.assoc)
  ultimately show ?filled by (simp add: blink_at_def started_def)
  have "b + of_nat i \<in> rng b 16" if "i < 16" for i using that by (auto simp: rng_def)
  from this [of 0] this [of 1] this [of 2] this [of 3] this [of 4] this [of 5] this [of 6] this [of 7]
  show "main_blink b m x = m x" if "x \<notin> rng b 16"
    using that by (auto simp: main_blink_def Let_def store16_def blink_offsets add.assoc)
qed

text \<open>The program between two of its calls, after the frames: the stage it shows, and the descriptor it waits with.\<close>

definition playing :: "fish_syms \<Rightarrow> fish_vars \<Rightarrow> 'a kernel_scheme \<Rightarrow> 'a kernel_scheme \<Rightarrow> stage \<Rightarrow> bool" where
  "playing sy v s0 s st \<longleftrightarrow> fish_kernel sy v s \<and> fish_step sy v s0 s \<and> stages sy s st \<and> reads 2 (c0_at v) None s"

lemma playing_mem:
  assumes "playing sy v s0 s st" "stages sy (s\<lparr>mem := m\<rparr>) st'" "\<And>x. x \<notin> fish_area sy v \<Longrightarrow> m x = mem s x"
  shows "playing sy v s0 (s\<lparr>mem := m\<rparr>) st'"
proof -
  have st: "fish_step sy v s (s\<lparr>mem := m\<rparr>)" by (rule fish_step_mem [OF assms(3)])
  have p: "fish_kernel sy v s" "fish_step sy v s0 s" "reads 2 (c0_at v) None s" using assms(1) by (simp_all add: playing_def)
  have "reads 2 (c0_at v) None (s\<lparr>mem := m\<rparr>)" by (rule reads_step [OF p(3,1) st]) simp
  then show ?thesis using assms(2) fish_kernel_step [OF p(1) st] fish_step_trans [OF p(2) st] by (simp add: playing_def)
qed

lemma playing_refused:
  assumes "fish_layout sy" "playing sy v s0 s st"
  shows "playing sy v s0 (after_call s 0 [] (cur_files (in_kernel s))) st"
proof -
  have p: "fish_kernel sy v s" "fish_step sy v s0 s" "stages sy s st" "reads 2 (c0_at v) None s"
    using assms(2) by (simp_all add: playing_def)
  note st = refused_step [OF p(1)]
  have "stages sy (after_call s 0 [] (cur_files (in_kernel s))) st" by (rule stages_same [OF assms(1) p(3)]) simp
  moreover have "reads 2 (c0_at v) None (after_call s 0 [] (cur_files (in_kernel s)))" by (rule reads_step [OF p(4,1) st]) simp
  ultimately show ?thesis using fish_kernel_step [OF p(1) st] fish_step_trans [OF p(2) st] by (simp add: playing_def)
qed

lemma playing_waits:
  assumes "fish_layout sy" "playing sy v s0 s st"
  shows "\<exists>t. wait_ticks sy v 2 n s = Some t \<and> playing sy v s0 t ((stage_tick ^^ n) st)"
proof -
  have p: "fish_kernel sy v s" "fish_step sy v s0 s" "stages sy s st" "reads 2 (c0_at v) None s"
    using assms(2) by (simp_all add: playing_def)
  from wait_ticks_runs [OF assms(1) p(1,4,3), of n] obtain t where t: "wait_ticks sy v 2 n s = Some t"
    "stages sy t ((stage_tick ^^ n) st)" "fish_step sy v s t" "reads 2 (c0_at v) None t" by blast
  then show ?thesis
    using fish_kernel_step [OF p(1) t(3)] fish_step_trans [OF p(2) t(3)] by (intro exI [of _ t]) (simp add: playing_def)
qed

lemma playing_rate:
  assumes ap: "fish_apart sy v" and p: "playing sy v s0 s st"
  shows "\<exists>r t. ece391_write 2 (ret_val_at v) 4 (s\<lparr>mem := store32 (mem s) (ret_val_at v) 32\<rparr>) = Some (r, t) \<and>
    playing sy v s0 (t\<lparr>mem := store32 (mem t) (ret_val_at v) r\<rparr>) st"
proof -
  have lay: "fish_layout sy" and ret: "rng (ret_val_at v) 4 \<inter> (fish_own sy \<union> screen_rng) = {}"
    using ap by (simp_all add: fish_apart_def)
  have put: "playing sy v s0 (u\<lparr>mem := store32 (mem u) (ret_val_at v) r\<rparr>) st" if u: "playing sy v s0 u st" for u r
  proof (rule playing_mem [OF u])
    have "stages sy u st" using u by (simp add: playing_def)
    then show "stages sy (u\<lparr>mem := store32 (mem u) (ret_val_at v) r\<rparr>) st"
    proof (rule stages_same [OF lay])
      fix x assume "x \<in> fish_own sy \<union> screen_rng"
      then have "x \<notin> rng (ret_val_at v) 4" using ret by blast
      then show "mem (u\<lparr>mem := store32 (mem u) (ret_val_at v) r\<rparr>) x = mem u x" by (simp add: store32_else)
    qed
    show "store32 (mem u) (ret_val_at v) r x = mem u x" if "x \<notin> fish_area sy v" for x
      using that by (simp add: fish_area_def store32_else)
  qed
  let ?s = "s\<lparr>mem := store32 (mem s) (ret_val_at v) 32\<rparr>"
  have pl: "playing sy v s0 ?s st" by (rule put [OF p])
  then have free: "reads 2 (c0_at v) None ?s" by (simp add: playing_def)
  note refused_calls(2) [OF free, of "ret_val_at v" 4] playing_refused [OF lay pl]
  then show ?thesis using put by blast
qed

lemma playing_blink:
  assumes ap: "fish_apart sy v" and p: "playing sy v s0 s st"
  defines "b \<equiv> \<lparr>location = 540, on_char = of_char CHR ''I'', off_char = of_char CHR ''M'', on_length = 7, off_length = 6,
    countdown = 7, status = 1\<rparr>"
  shows "\<exists>r t. blink_call (mp1_ioctl sy (main_tmp v) (main_blink (main_struct v) (mem s)) (main_struct v) RTC_ADD) s = Some (r, t) \<and>
    playing sy v s0 t (stage_add b st)"
proof -
  let ?m = "main_blink (main_struct v) (mem s)"
  let ?s = "s\<lparr>mem := ?m\<rparr>"
  have lay: "fish_layout sy" and args: "blink_args sy (main_tmp v) (main_struct v)" using ap by (simp_all add: fish_apart_def)
  have "stages sy s st" using p by (simp add: playing_def)
  then have st: "stages sy ?s st"
  proof (rule stages_same [OF lay])
    fix x assume "x \<in> fish_own sy \<union> screen_rng"
    then have "x \<notin> rng (main_struct v) 16" using args by (auto simp: blink_args_def screen_rng_def)
    then show "mem ?s x = mem s x" by (simp add: main_blink_filled(2))
  qed
  have pl: "playing sy v s0 ?s st"
    by (rule playing_mem [OF p st]) (simp add: main_blink_filled(2) fish_area_def)
  note filled = main_blink_filled(1) [of "main_struct v" "mem s", folded b_def]
  have "location (blink_at ?m (main_struct v)) = 540" using arg_cong [OF filled, of location] by (simp add: started_def b_def)
  then have nz: "location (blink_at (mem ?s) (main_struct v)) \<noteq> 0" by simp
  obtain r m where m: "blink_call (mp1_ioctl sy (main_tmp v) ?m (main_struct v) RTC_ADD) s = Some (r, s\<lparr>mem := m\<rparr>)"
    "stages sy (s\<lparr>mem := m\<rparr>) (stage_add (blink_at ?m (main_struct v)) st)"
    "\<forall>x. x \<notin> fish_own sy \<union> rng (main_tmp v) 16 \<union> screen_rng \<longrightarrow> m x = ?m x"
    using add_stages [OF lay args st refl nz] by auto
  have "stage_add (blink_at ?m (main_struct v)) st = stage_add b st"
    using stage_add_started [of "blink_at ?m (main_struct v)" st] filled by simp
  then have "playing sy v s0 (?s\<lparr>mem := m\<rparr>) (stage_add b st)"
    using m(2,3) by (intro playing_mem [OF pl]) (simp_all add: fish_area_def)
  with m(1) show ?thesis by auto
qed

lemma playing_sync:
  assumes "fish_apart sy v" "playing sy v s0 s st"
  shows "\<exists>r t. blink_call (mp1_ioctl sy tmp (mem s) (push_bit 16 40 OR (6 * 80 + 60)) RTC_SYNC) s = Some (r, t) \<and>
    playing sy v s0 t (stage_sync 40 540 st)"
proof -
  let ?a = "push_bit 16 40 OR (6 * 80 + 60) :: u32"
  have lay: "fish_layout sy" and st: "stages sy s st" using assms by (simp_all add: fish_apart_def playing_def)
  have "(ucast (drop_bit 16 ?a) :: u16) = 40" "(ucast ?a :: u16) = 540" by simp_all
  then obtain r m where "blink_call (mp1_ioctl sy tmp (mem s) ?a RTC_SYNC) s = Some (r, s\<lparr>mem := m\<rparr>)"
    "stages sy (s\<lparr>mem := m\<rparr>) (stage_sync 40 540 st)" "\<forall>x. x \<notin> fish_own sy \<union> screen_rng \<longrightarrow> m x = mem s x"
    using sync_stages [OF lay st, of tmp ?a] by metis
  moreover from this have "playing sy v s0 (s\<lparr>mem := m\<rparr>) (stage_sync 40 540 st)"
    by (intro playing_mem [OF assms(2)]) (simp_all add: fish_area_def)
  ultimately show ?thesis by blast
qed

lemma playing_remove:
  assumes "fish_apart sy v" "playing sy v s0 s st"
  shows "\<exists>r t. blink_call (mp1_ioctl sy tmp (mem s) (6 * 80 + 60) RTC_REMOVE) s = Some (r, t) \<and>
    playing sy v s0 t (stage_remove 540 st)"
proof -
  have lay: "fish_layout sy" and st: "stages sy s st" using assms by (simp_all add: fish_apart_def playing_def)
  have "(ucast (6 * 80 + 60 :: u32) :: u16) = 540" by simp
  then obtain r m where "blink_call (mp1_ioctl sy tmp (mem s) (6 * 80 + 60) RTC_REMOVE) s = Some (r, s\<lparr>mem := m\<rparr>)"
    "stages sy (s\<lparr>mem := m\<rparr>) (stage_remove 540 st)" "\<forall>x. x \<notin> fish_own sy \<longrightarrow> m x = mem s x"
    using remove_stages [OF lay st, of tmp "6 * 80 + 60"] by metis
  moreover from this have "playing sy v s0 (s\<lparr>mem := m\<rparr>) (stage_remove 540 st)"
    by (intro playing_mem [OF assms(2)]) (simp_all add: fish_area_def)
  ultimately show ?thesis by blast
qed

lemma fish_opens:
  fixes s :: "'a kernel_scheme"
  assumes ap: "fish_apart sy v" and k: "fish_kernel sy v s" and ptr: "PAGE_TOP \<le> vmem_base_addr sy" "vmem_base_addr sy \<le> PAGE_BOTTOM"
    and tlb: "tlb_pde s = user_pde s" and head: "load32 (mem s) (mp1_list_head sy) = 0"
    and rtc: "names_entry sy v s (rtc_name v) d" "filetype d = 0"
    and f: "frame_file sy v s (file0 v) xs" "frame_file sy v s (file1 v) ys"
    and free: "flags (cur_files (in_kernel s) ! 2) = FILE_AVAIL" "flags (cur_files (in_kernel s) ! 3) = FILE_AVAIL"
    and ok: "files_ok (cur_files (in_kernel s))"
    and loc: "\<forall>b \<in> set (frame_blinks 0 (Some xs) (Some ys)). location b \<noteq> 0"
  shows "\<exists>a b c. mp1_set_video_mode sy (s\<lparr>mem := ece391_memset (mem s) (blink_array sy) 0 (STRUCT_SIZE * 80 * 25)\<rparr>) = Some (PAGE_VIDMEM, a) \<and>
    ece391_open (rtc_name v) a = Some (2, b) \<and> add_frames sy v b = Some (None, c) \<and>
    playing sy v s c (fold stage_add (frame_blinks 0 (Some xs) (Some ys)) ([], mem s))"
proof -
  have lay: "fish_layout sy" using ap by (simp add: fish_apart_def)
  obtain a where a: "mp1_set_video_mode sy (s\<lparr>mem := ece391_memset (mem s) (blink_array sy) 0 (STRUCT_SIZE * 80 * 25)\<rparr>) = Some (PAGE_VIDMEM, a)"
    "fish_step sy v s a" "stages sy a ([], mem s)" "cur_files (in_kernel a) = cur_files (in_kernel s)"
    using video_mode_sets [OF lay k ptr tlb head] by blast
  note ka = fish_kernel_step [OF k a(2)]
  obtain name where n: "cstr (mem a) (rtc_name v) name" "rtc_name v \<noteq> 0" "name \<noteq> []" "length name < 32" "entry_of (in_kernel a) name = Some d"
    using names_entry_step [OF rtc(1) k a(2)] by (auto simp: names_entry_def)
  have slot: "free_slot (cur_files (in_kernel a)) 2 = 2" using free(1) by (intro free_slot_at(1)) (simp_all add: a(4))
  obtain b w where b: "ece391_open (rtc_name v) a = Some (of_nat 2, b)" "mem b = mem a" "fs_ptr b = fs_ptr a"
    "flags (cur_files (in_kernel b) ! 2) = FILE_AVAIL" "cur_files (in_kernel b) = (cur_files (in_kernel a))[2 := w]" "blank b = blank a"
    using clock_open [OF n rtc(2) slot] ok a(4) by auto
  have ab: "fish_step sy v a b" using b(2,3,5,6) by (simp add: fish_step_def)
  note sb = fish_step_trans [OF a(2) ab] and kb = fish_kernel_step [OF ka ab]
  have stb: "stages sy b ([], mem s)" by (rule stages_same [OF lay a(3)]) (simp add: b(2))
  have fb: "frame_file sy v b (file0 v) xs" "frame_file sy v b (file1 v) ys"
    using f by (auto intro: frame_file_step [OF _ k sb])
  have "flags (cur_files (in_kernel b) ! 3) = FILE_AVAIL" using free(2) by (simp add: b(5) a(4))
  then obtain c where c: "add_frames sy v b = Some (None, c)"
    "stages sy c (fold stage_add (frame_blinks 0 (Some xs) (Some ys)) ([], mem s))" "fish_step sy v b c" "reads 2 (c0_at v) None c"
    using add_frames_runs [OF ap kb stb fb b(4) _ loc] by blast
  then show ?thesis
    using a(1) b(1) fish_kernel_step [OF kb c(3)] fish_step_trans [OF sb c(3)] by (auto simp: playing_def)
qed

lemma fish_runs:
  fixes s :: "'a kernel_scheme"
  assumes ap: "fish_apart sy v" and k: "fish_kernel sy v s" and ptr: "PAGE_TOP \<le> vmem_base_addr sy" "vmem_base_addr sy \<le> PAGE_BOTTOM"
    and tlb: "tlb_pde s = user_pde s" and head: "load32 (mem s) (mp1_list_head sy) = 0"
    and rtc: "names_entry sy v s (rtc_name v) d" "filetype d = 0"
    and f: "frame_file sy v s (file0 v) xs" "frame_file sy v s (file1 v) ys"
    and free: "flags (cur_files (in_kernel s) ! 2) = FILE_AVAIL" "flags (cur_files (in_kernel s) ! 3) = FILE_AVAIL"
    and ok: "files_ok (cur_files (in_kernel s))"
    and loc: "\<forall>b \<in> set (frame_blinks 0 (Some xs) (Some ys)). location b \<noteq> 0"
  shows "\<exists>t. fish_main sy v s = Some (0, t) \<and> stages sy t (fish_stage xs ys ([], mem s)) \<and> fish_step sy v s t"
proof -
  have lay: "fish_layout sy" using ap by (simp add: fish_apart_def)
  obtain a b c where c: "mp1_set_video_mode sy (s\<lparr>mem := ece391_memset (mem s) (blink_array sy) 0 (STRUCT_SIZE * 80 * 25)\<rparr>) = Some (PAGE_VIDMEM, a)"
    "ece391_open (rtc_name v) a = Some (2, b)" "add_frames sy v b = Some (None, c)"
    "playing sy v s c (fold stage_add (frame_blinks 0 (Some xs) (Some ys)) ([], mem s))"
    using fish_opens [OF assms] by blast
  obtain r1 w1 where w1: "ece391_write 2 (ret_val_at v) 4 (c\<lparr>mem := store32 (mem c) (ret_val_at v) 32\<rparr>) = Some (r1, w1)"
    and p1: "playing sy v s (w1\<lparr>mem := store32 (mem w1) (ret_val_at v) r1\<rparr>) (fold stage_add (frame_blinks 0 (Some xs) (Some ys)) ([], mem s))"
    using playing_rate [OF ap c(4)] by blast
  obtain s2 where s2: "wait_ticks sy v 2 WAIT (w1\<lparr>mem := store32 (mem w1) (ret_val_at v) r1\<rparr>) = Some s2"
    and p2: "playing sy v s s2 ((stage_tick ^^ WAIT) (fold stage_add (frame_blinks 0 (Some xs) (Some ys)) ([], mem s)))"
    using playing_waits [OF lay p1] by blast
  from playing_blink [OF ap p2] obtain r3 s3 where s3: "blink_call (mp1_ioctl sy (main_tmp v) (main_blink (main_struct v) (mem s2))
      (main_struct v) RTC_ADD) s2 = Some (r3, s3)"
    and p3: "playing sy v s s3 (stage_add \<lparr>location = 540, on_char = of_char CHR ''I'', off_char = of_char CHR ''M'', on_length = 7,
      off_length = 6, countdown = 7, status = 1\<rparr> ((stage_tick ^^ WAIT) (fold stage_add (frame_blinks 0 (Some xs) (Some ys)) ([], mem s))))" by blast
  from playing_waits [OF lay p3] obtain s4 where s4: "wait_ticks sy v 2 WAIT s3 = Some s4" "playing sy v s s4 ((stage_tick ^^ WAIT)
    (stage_add \<lparr>location = 540, on_char = of_char CHR ''I'', off_char = of_char CHR ''M'', on_length = 7,
      off_length = 6, countdown = 7, status = 1\<rparr> ((stage_tick ^^ WAIT) (fold stage_add (frame_blinks 0 (Some xs) (Some ys)) ([], mem s)))))" by blast
  from playing_sync [OF ap s4(2), of "main_tmp v"] obtain r5 s5 where s5: "blink_call (mp1_ioctl sy (main_tmp v) (mem s4)
      (push_bit 16 40 OR (6 * 80 + 60)) RTC_SYNC) s4 = Some (r5, s5)" "playing sy v s s5 (stage_sync 40 540 ((stage_tick ^^ WAIT)
    (stage_add \<lparr>location = 540, on_char = of_char CHR ''I'', off_char = of_char CHR ''M'', on_length = 7,
      off_length = 6, countdown = 7, status = 1\<rparr> ((stage_tick ^^ WAIT) (fold stage_add (frame_blinks 0 (Some xs) (Some ys)) ([], mem s))))))" by blast
  from playing_waits [OF lay s5(2), of WAIT] obtain s6 st6 where s6: "wait_ticks sy v 2 WAIT s5 = Some s6" "playing sy v s s6 st6"
    and st6: "st6 = (stage_tick ^^ WAIT) (stage_sync 40 540 ((stage_tick ^^ WAIT)
    (stage_add \<lparr>location = 540, on_char = of_char CHR ''I'', off_char = of_char CHR ''M'', on_length = 7,
      off_length = 6, countdown = 7, status = 1\<rparr> ((stage_tick ^^ WAIT) (fold stage_add (frame_blinks 0 (Some xs) (Some ys)) ([], mem s))))))" by blast
  from playing_remove [OF ap s6(2), of "main_tmp v"] obtain r7 s7 where s7: "blink_call (mp1_ioctl sy (main_tmp v) (mem s6)
      (6 * 80 + 60) RTC_REMOVE) s6 = Some (r7, s7)" "playing sy v s s7 (stage_remove 540 st6)" by blast
  from playing_waits [OF lay s7(2), of WAIT] obtain s8 where s8: "wait_ticks sy v 2 WAIT s7 = Some s8"
    "playing sy v s s8 ((stage_tick ^^ WAIT) (stage_remove 540 st6))" by blast
  let ?t = "after_call s8 0 [] (cur_files (in_kernel s8))"
  have cl: "ece391_close 2 s8 = Some (minus_one, ?t)"
    using s8(2) by (intro refused_calls(3) [of 2 "c0_at v"]) (simp add: playing_def)
  have "playing sy v s ?t ((stage_tick ^^ WAIT) (stage_remove 540 st6))" by (rule playing_refused [OF lay s8(2)])
  then have "stages sy ?t (fish_stage xs ys ([], mem s))" "fish_step sy v s ?t"
    by (simp_all add: playing_def fish_stage_def Let_def st6)
  moreover have "fish_main sy v s = Some (0, ?t)"
    using c(1-3) w1 s2 s3 s4(1) s5(1) s6(1) s7(1) s8(1) cl
    by (simp add: fish_main_def Let_def PAGE_VIDMEM_def del: blink_call_mem)
  ultimately show ?thesis by blast
qed

end
