(* ===== verification/Emulate.thy ===== *)
theory Emulate
  imports Programs
begin

text \<open>
  The emulation of the system calls on Linux, \<^verbatim>\<open>syscalls/ece391emulate.c\<close> (the copy under
  \<^verbatim>\<open>fish\<close> is the same file). What Linux and its C library do is a parameter; what the file itself
  does with command lines, arguments and directory entries is modelled, and agrees with the kernel.
\<close>

section \<open>The code\<close>

text \<open>How a child ends, as \<open>wait\<close> reports it.\<close>

datatype wait_status = Exited u32 | Signalled u32

text \<open>The calls of the file to Linux: \<open>int80\<close> by the numbers in \<^verbatim>\<open>eax\<close>, \<^verbatim>\<open>ebx\<close>, \<^verbatim>\<open>ecx\<close>,
  \<^verbatim>\<open>edx\<close>, on the memory and whatever else there is; \<open>spawn\<close> is \<open>fork\<close>, \<open>execv\<close> in the child, and
  \<open>wait\<close>; \<open>readdir\<close> gives the name of the next entry up to its NUL.\<close>

record 'e linux =
  int80 :: "u32 \<Rightarrow> u32 \<Rightarrow> u32 \<Rightarrow> u32 \<Rightarrow> (u32 \<Rightarrow> u8) \<times> 'e \<Rightarrow> u32 \<times> (u32 \<Rightarrow> u8) \<times> 'e"
  open_path :: "string \<Rightarrow> 'e \<Rightarrow> u32 \<times> 'e"
  close_fd :: "u32 \<Rightarrow> 'e \<Rightarrow> 'e"
  opendir :: "string \<Rightarrow> 'e \<Rightarrow> u32 \<times> 'e"
  readdir :: "u32 \<Rightarrow> 'e \<Rightarrow> u8 list option \<times> 'e"
  closedir :: "u32 \<Rightarrow> 'e \<Rightarrow> 'e"
  mmap_low :: "u32 \<Rightarrow> 'e \<Rightarrow> u32 option \<times> 'e"
  spawn :: "(u32 \<Rightarrow> u8) \<Rightarrow> u32 \<Rightarrow> u32 list \<Rightarrow> 'e \<Rightarrow> wait_status \<times> 'e"

text \<open>The variables of the file.\<close>

record 'e emulation =
  emem :: "u32 \<Rightarrow> u8"
  outside :: 'e
  start_esp :: u32
  dir_fd :: u32
  dir :: u32
  mem_fd :: u32

text \<open>An error of Linux becomes -1. Registers a call does not use hold 0 here.\<close>

definition DO_CALL_emu :: "'e linux \<Rightarrow> u32 \<Rightarrow> u32 \<Rightarrow> u32 \<Rightarrow> u32 \<Rightarrow> 'e emulation \<Rightarrow> u32 \<times> 'e emulation" where
  "DO_CALL_emu lx number b c d s =
     (let (r, m, e) = int80 lx number b c d (emem s, outside s)
      in (if r \<le> 0xFFFFC000 then r else minus_one, s\<lparr>emem := m, outside := e\<rparr>))"

definition ece391_halt_emu :: "'e linux \<Rightarrow> u32 \<Rightarrow> 'e emulation \<Rightarrow> u32 \<times> 'e emulation" where
  "ece391_halt_emu lx status s = DO_CALL_emu lx SYS_HALT status 0 0 s"

text \<open>\<^verbatim>\<open>_start\<close> notes where the arguments are, runs \<open>main\<close> and halts with what it returns.\<close>

definition start_emu ::
  "'e linux \<Rightarrow> ('e emulation \<Rightarrow> (u32 \<times> 'e emulation) option) \<Rightarrow> u32 \<Rightarrow> 'e emulation \<Rightarrow> (u32 \<times> 'e emulation) option" where
  "start_emu lx main stack s = do { (v, s) \<leftarrow> main (s\<lparr>start_esp := stack\<rparr>); Some (ece391_halt_emu lx v s) }"

subsection \<open>Starting a program\<close>






subsection \<open>The arguments of a program\<close>

text \<open>The arguments wait where \<open>start_esp\<close> points: their number, then a pointer to each. The call is the loop
  from \<open>idx\<close> on.\<close>

partial_function (option) emu_join ::
  "u32 \<Rightarrow> u32 \<Rightarrow> u32 \<Rightarrow> u32 \<Rightarrow> u32 \<Rightarrow> (u32 \<Rightarrow> u8) \<Rightarrow> (u32 \<times> (u32 \<Rightarrow> u8)) option" where
  "emu_join argc argv idx buf nbytes m =
     (let finish = (\<lambda>buf nbytes m. if nbytes <s 1 then Some (minus_one, m) else Some (0, m(buf := 0))) in
      if idx <s argc then do {
        let arg = load32 m (argv + 4 * idx);
        len \<leftarrow> ece391_strlen m arg;
        if nbytes <s len then Some (minus_one, m)
        else do {
          m \<leftarrow> ece391_strcpy m buf arg;
          let buf = buf + len;
          let nbytes = nbytes - len;
          if argc \<le>s idx + 1 then finish buf nbytes m
          else if nbytes <s 1 then Some (minus_one, m)
          else emu_join argc argv (idx + 1) (buf + 1) (nbytes - 1) (m(buf := 0x20)) } }
      else finish buf nbytes m)"

definition ece391_getargs_emu :: "u32 \<Rightarrow> u32 \<Rightarrow> 'e emulation \<Rightarrow> (u32 \<times> 'e emulation) option" where
  "ece391_getargs_emu buf nbytes s = do {
     (r, m) \<leftarrow> emu_join (load32 (emem s) (start_esp s)) (start_esp s + 4) 1 buf nbytes (emem s);
     Some (r, s\<lparr>emem := m\<rparr>) }"

subsection \<open>Files and the directory\<close>

definition ece391_open_emu :: "'e linux \<Rightarrow> u32 \<Rightarrow> u32 \<Rightarrow> 'e emulation \<Rightarrow> (u32 \<times> 'e emulation) option" where
  "ece391_open_emu lx dot fname s = do {
     c \<leftarrow> ece391_strcmp (emem s) fname dot;
     if c = 0 then
       let (d, e) = opendir lx ''.'' (outside s); (fd, e) = open_path lx ''/dev/null'' e
       in Some (fd, s\<lparr>outside := e, dir := d, dir_fd := fd\<rparr>)
     else
       let (rval, m, e) = int80 lx 5 fname 0 0 (emem s, outside s)
       in Some (if 0xFFFFC000 < rval then minus_one else rval, s\<lparr>emem := m, outside := e\<rparr>) }"

definition ece391_vidmap_emu :: "'e linux \<Rightarrow> u32 \<Rightarrow> 'e emulation \<Rightarrow> u32 \<times> 'e emulation" where
  "ece391_vidmap_emu lx screen_start s =
     (let s = (if mem_fd s = minus_one
               then let (fd, e) = open_path lx ''/dev/mem'' (outside s) in s\<lparr>mem_fd := fd, outside := e\<rparr> else s);
          (p, e) = mmap_low lx (mem_fd s) (outside s);
          s = s\<lparr>outside := e\<rparr>
      in case p of None \<Rightarrow> (minus_one, s)
         | Some mem_image \<Rightarrow> (0, s\<lparr>emem := store32 (emem s) screen_start (mem_image + VIDEO)\<rparr>))"

text \<open>The name of a directory entry, cut at \<open>nbytes\<close> and at 32 bytes, then filled with NULs.\<close>

fun emu_copy_name :: "u8 list \<Rightarrow> u32 \<Rightarrow> u32 \<Rightarrow> u32 \<Rightarrow> (u32 \<Rightarrow> u8) \<Rightarrow> (u32 + u32) \<times> (u32 \<Rightarrow> u8)" where
  "emu_copy_name [] to nbytes copied m = (Inr copied, m)"
| "emu_copy_name (c # cs) to nbytes copied m =
     (let m = m(to + copied := c); copied = copied + 1 in
      if copied = nbytes then (Inl nbytes, m)
      else if copied = 32 then (Inl 32, m)
      else emu_copy_name cs to nbytes copied m)"

function emu_fill_name :: "u32 \<Rightarrow> u32 \<Rightarrow> u32 \<Rightarrow> (u32 \<Rightarrow> u8) \<Rightarrow> u32 \<times> (u32 \<Rightarrow> u8)" where
  "emu_fill_name to nbytes copied m =
     (if copied <s nbytes \<and> copied <s 32 then emu_fill_name to nbytes (copied + 1) (m(to + copied := 0)) else (copied, m))"
  by pat_completeness auto
termination
  by (relation "measure (\<lambda>(to, n, i, m). nat (sint n - sint i))") (use less_measure in auto)

declare emu_fill_name.simps [simp del]

definition ece391_read_emu :: "'e linux \<Rightarrow> u32 \<Rightarrow> u32 \<Rightarrow> u32 \<Rightarrow> 'e emulation \<Rightarrow> u32 \<times> 'e emulation" where
  "ece391_read_emu lx fd buf nbytes s =
     (if dir s = 0 \<or> dir_fd s \<noteq> fd then DO_CALL_emu lx SYS_READ fd buf nbytes s
      else
        let (de, e) = readdir lx (dir s) (outside s); s = s\<lparr>outside := e\<rparr> in
        case de of None \<Rightarrow> (0, s)
        | Some name \<Rightarrow>
            (case emu_copy_name name buf nbytes 0 (emem s) of
               (Inl r, m) \<Rightarrow> (r, s\<lparr>emem := m\<rparr>)
             | (Inr copied, m) \<Rightarrow> let (r, m) = emu_fill_name buf nbytes copied m in (r, s\<lparr>emem := m\<rparr>)))"

definition ece391_write_emu :: "'e linux \<Rightarrow> u32 \<Rightarrow> u32 \<Rightarrow> u32 \<Rightarrow> 'e emulation \<Rightarrow> u32 \<times> 'e emulation" where
  "ece391_write_emu lx fd buf nbytes s =
     (if dir s = 0 \<or> dir_fd s \<noteq> fd then DO_CALL_emu lx SYS_WRITE fd buf nbytes s else (minus_one, s))"

definition ece391_close_emu :: "'e linux \<Rightarrow> u32 \<Rightarrow> 'e emulation \<Rightarrow> u32 \<times> 'e emulation" where
  "ece391_close_emu lx fd s =
     (if dir s = 0 \<or> dir_fd s \<noteq> fd then DO_CALL_emu lx SYS_CLOSE fd 0 0 s
      else (0, s\<lparr>outside := close_fd lx (dir_fd s) (closedir lx (dir s) (outside s)), dir := 0, dir_fd := minus_one\<rparr>))"

section \<open>The arguments of a program\<close>

text \<open>The words in memory that the pointers from number \<open>k\<close> on lead to, all inside the region \<open>R\<close>.\<close>

fun args_at :: "u32 set \<Rightarrow> (u32 \<Rightarrow> u8) \<Rightarrow> u32 \<Rightarrow> nat \<Rightarrow> u8 list list \<Rightarrow> bool" where
  "args_at R m argv k [] \<longleftrightarrow> True"
| "args_at R m argv k (w # ws) \<longleftrightarrow> rng (argv + 4 * of_nat k) 4 \<subseteq> R \<and>
     cstr m (load32 m (argv + 4 * of_nat k)) w \<and> rng (load32 m (argv + 4 * of_nat k)) (Suc (length w)) \<subseteq> R \<and>
     length w < 2 ^ 31 \<and> args_at R m argv (Suc k) ws"

fun joined :: "u8 list list \<Rightarrow> u8 list" where
  "joined [] = []"
| "joined [w] = w"
| "joined (w # ws) = w @ SPACE # joined ws"

lemma joined_Cons: "joined (w # ws) = w @ (if ws = [] then [] else SPACE # joined ws)"
  by (cases ws) simp_all

lemma glue_joined: "\<forall>w \<in> set ws. w \<noteq> [] \<Longrightarrow> out \<noteq> [] \<Longrightarrow> glue out ws = out @ (if ws = [] then [] else SPACE # joined ws)"
  by (induction ws arbitrary: out) (simp_all add: joined_Cons)

lemma glue_is_joined: "\<forall>w \<in> set ws. w \<noteq> [] \<Longrightarrow> glue [] ws = joined ws"
  by (cases ws) (simp_all add: glue_joined joined_Cons)

lemma less_signed:
  assumes "i < 2 ^ 31" "k < 2 ^ 31"
  shows "(of_nat i :: u32) <s of_nat k \<longleftrightarrow> i < k" "(of_nat i :: u32) \<le>s of_nat k \<longleftrightarrow> i \<le> k"
    "(of_nat i :: u32) <s 1 \<longleftrightarrow> i = 0"
proof -
  show "(of_nat i :: u32) <s of_nat k \<longleftrightarrow> i < k" "(of_nat i :: u32) \<le>s of_nat k \<longleftrightarrow> i \<le> k"
    using assms by (simp_all add: word_sless_alt word_sle_eq sint_of_nat)
  show "(of_nat i :: u32) <s 1 \<longleftrightarrow> i = 0" using assms by (simp add: word_sless_alt sint_of_nat)
qed

lemma store_bytes_grow:
  "store_bytes (store_bytes m a xs) (a + of_nat (length xs)) ys = store_bytes m a (xs @ ys)"
  by (simp add: store_bytes_append)

lemma store_last:
  assumes "length xs < 2 ^ 32"
  shows "(store_bytes m a (xs @ [y]))(a + of_nat (length xs) := z) = store_bytes m a (xs @ [z])"
  by (simp add: store_bytes_append)

lemma emu_join_step:
  assumes "idx <s argc" "load32 m (argv + 4 * idx) = p" "ece391_strlen m p = Some len" "\<not> nbytes <s len" "ece391_strcpy m buf p = Some m'"
  shows "emu_join argc argv idx buf nbytes m =
    (if argc \<le>s idx + 1 then if nbytes - len <s 1 then Some (minus_one, m') else Some (0, m'(buf + len := 0))
     else if nbytes - len <s 1 then Some (minus_one, m')
     else emu_join argc argv (idx + 1) (buf + len + 1) (nbytes - len - 1) (m'(buf + len := 0x20)))"
  using assms by (subst emu_join.simps) (simp add: Let_def)

lemma emu_join_words:
  assumes R: "R \<inter> rng b (Suc N) = {}" and N: "N < 2 ^ 31"
  shows "args_at R m argv k ws \<Longrightarrow> length out \<le> N \<Longrightarrow> k + length ws < 2 ^ 31 \<Longrightarrow>
    \<exists>ys. length ys \<le> Suc N \<and> (length (out @ joined ws) < N \<longrightarrow> ys = out @ joined ws @ [0]) \<and>
      emu_join (of_nat (k + length ws)) argv (of_nat k) (b + of_nat (length out)) (of_nat (N - length out)) (store_bytes m b out) =
      Some (if length (out @ joined ws) < N then 0 else minus_one, store_bytes m b ys)"
proof (induction ws arbitrary: k out)
  case Nil
  have "\<not> (of_nat k :: u32) <s of_nat k" by (simp add: word_sless_alt)
  moreover have "(of_nat (N - length out) :: u32) <s 1 \<longleftrightarrow> \<not> length out < N" using N Nil.prems(2) by (subst less_signed(3)) auto
  moreover have "(store_bytes m b out)(b + of_nat (length out) := 0) = store_bytes m b (out @ [0])" by (rule store_bytes_snoc)
  ultimately show ?case
    using Nil.prems by (intro exI [of _ "if length out < N then out @ [0] else out"]) (subst emu_join.simps, simp add: Let_def)
next
  case (Cons w ws)
  let ?argc = "k + length (w # ws)" and ?p = "load32 m (argv + 4 * of_nat k)" and ?s = "store_bytes m b out"
  let ?left = "N - length out" and ?out = "out @ w"
  have w: "rng (argv + 4 * of_nat k) 4 \<subseteq> R" "cstr m ?p w" "rng ?p (Suc (length w)) \<subseteq> R" "length w < 2 ^ 31" "args_at R m argv (Suc k) ws"
    using Cons.prems(1) by simp_all
  have sub: "rng b (length out) \<subseteq> rng b (Suc N)" using Cons.prems(2) by (intro rng_mono) simp
  have ptr: "load32 ?s (argv + 4 * of_nat k) = ?p" using w(1) R sub by (intro load32_store_other) blast
  have c: "cstr ?s ?p w" using w(2,3) R sub by (subst cstr_store_other) blast+
  then have len: "ece391_strlen ?s ?p = Some (of_nat (length w))" by (simp add: ece391_strlen_eq strlen_cstr)
  have idx: "(of_nat k :: u32) <s of_nat ?argc" using Cons.prems(3) by (subst less_signed(1)) simp_all
  have more: "(of_nat ?argc :: u32) \<le>s of_nat k + 1 \<longleftrightarrow> ws = []"
  proof -
    have "(of_nat ?argc :: u32) \<le>s of_nat (Suc k) \<longleftrightarrow> ?argc \<le> Suc k" using Cons.prems(3) by (intro less_signed(2)) simp_all
    then show ?thesis by (simp add: add.commute)
  qed
  have fits: "(of_nat ?left :: u32) <s of_nat (length w) \<longleftrightarrow> ?left < length w" using N w(4) by (subst less_signed(1)) auto
  show ?case
  proof (cases "?left < length w")
    case True
    then have "emu_join (of_nat ?argc) argv (of_nat k) (b + of_nat (length out)) (of_nat ?left) ?s = Some (minus_one, ?s)"
      using idx ptr len fits by (subst emu_join.simps) (simp add: Let_def)
    moreover have "\<not> length (out @ joined (w # ws)) < N" using True by (simp add: joined_Cons)
    ultimately show ?thesis using Cons.prems(2) by (intro exI [of _ out]) simp
  next
    case False
    let ?m = "store_bytes m b (?out @ [0])" and ?b = "b + of_nat (length ?out)" and ?n = "of_nat (N - length ?out) :: u32"
    have room: "length ?out \<le> N" using False Cons.prems(2) by simp
    have "rng (b + of_nat (length out)) (Suc (length w)) \<subseteq> rng b (Suc N)" using room by (intro rng_shift) simp
    then have "rng (b + of_nat (length out)) (Suc (length w)) \<inter> rng ?p (Suc (length w)) = {}" using R w(3) by blast
    then have cpy: "ece391_strcpy ?s (b + of_nat (length out)) ?p = Some ?m"
      using c by (simp add: ece391_strcpy_eq strcpy_cstr store_bytes_grow del: store_bytes.simps)
    have buf: "b + of_nat (length out) + of_nat (length w) = ?b" "(of_nat ?left :: u32) - of_nat (length w) = ?n"
      using False Cons.prems(2) by (simp_all add: add.assoc of_nat_diff algebra_simps)
    have n1: "?n <s 1 \<longleftrightarrow> length ?out = N" using N room by (subst less_signed(3)) auto
    have step: "emu_join (of_nat ?argc) argv (of_nat k) (b + of_nat (length out)) (of_nat ?left) ?s =
      (if ws = [] then if length ?out = N then Some (minus_one, ?m) else Some (0, ?m(?b := 0))
       else if length ?out = N then Some (minus_one, ?m)
       else emu_join (of_nat ?argc) argv (of_nat k + 1) (?b + 1) (?n - 1) (?m(?b := 0x20)))"
      by (subst emu_join_step [OF idx ptr len _ cpy]) (simp_all only: fits False buf more n1 not_False_eq_True)
    have last: "?m(?b := z) = store_bytes m b (?out @ [z])" for z by (rule store_last) (use room N in simp)
    consider "length ?out = N" | "length ?out < N" "ws = []" | "length ?out < N" "ws \<noteq> []" using room by linarith
    then show ?thesis
    proof cases
      case 1
      then have "\<not> length (out @ joined (w # ws)) < N" by (simp add: joined_Cons)
      moreover have "length (?out @ [0]) \<le> Suc N" using 1 by simp
      ultimately show ?thesis unfolding step using 1 by (intro exI [of _ "?out @ [0]"]) (simp del: length_append store_bytes.simps)
    next
      case 2
      then show ?thesis unfolding step last
        by (intro exI [of _ "?out @ [0]"]) (simp del: store_bytes.simps)
    next
      case 3
      let ?out2 = "?out @ [SPACE]"
      have r: "length ?out2 \<le> N" using 3(1) by simp
      have e: "?b + 1 = b + of_nat (length ?out2)" "?n - 1 = of_nat (N - length ?out2)" "of_nat k + 1 = (of_nat (Suc k) :: u32)"
        "(of_nat ?argc :: u32) = of_nat (Suc k + length ws)"
        using 3(1) by (simp_all add: add.assoc of_nat_diff algebra_simps)
      have j: "joined (w # ws) = w @ SPACE # joined ws" using 3(2) by (simp add: joined_Cons)
      have n: "length ?out \<noteq> N" using 3(1) by simp
      have "emu_join (of_nat ?argc) argv (of_nat k) (b + of_nat (length out)) (of_nat ?left) ?s =
          emu_join (of_nat ?argc) argv (of_nat k + 1) (?b + 1) (?n - 1) (?m(?b := 0x20))"
        unfolding step if_not_P [OF n] if_not_P [OF 3(2)] by (rule refl)
      also have "\<dots> = emu_join (of_nat (Suc k + length ws)) argv (of_nat (Suc k)) (b + of_nat (length ?out2))
          (of_nat (N - length ?out2)) (store_bytes m b ?out2)"
        unfolding last e(1,2) e(3) e(4) by (rule refl)
      finally have main: "emu_join (of_nat ?argc) argv (of_nat k) (b + of_nat (length out)) (of_nat ?left) ?s = \<dots>" .
      have "Suc k + length ws < 2 ^ 31" using Cons.prems(3) by simp
      from Cons.IH [OF w(5) r this] show ?thesis unfolding main j by (simp only: append_assoc append_Cons append_Nil)
    qed
  qed
qed

lemma getargs_emu_joins:
  assumes argc: "load32 (emem u) (start_esp u) = of_nat (Suc (length ws))" "length ws < 2 ^ 30"
    and at: "args_at R (emem u) (start_esp u + 4) 1 ws"
    and room: "R \<inter> rng buf (Suc N) = {}" "N < 2 ^ 31"
  shows "\<exists>ys. length ys \<le> Suc N \<and> (length (joined ws) < N \<longrightarrow> ys = joined ws @ [0]) \<and>
    ece391_getargs_emu buf (of_nat N) u =
      Some (if length (joined ws) < N then 0 else minus_one, u\<lparr>emem := store_bytes (emem u) buf ys\<rparr>)"
proof -
  have k: "1 + length ws < 2 ^ 31" using argc(2) by simp
  from emu_join_words [OF room at _ k, of "[]"] obtain ys where ys: "length ys \<le> Suc N" "length (joined ws) < N \<longrightarrow> ys = joined ws @ [0]"
    "emu_join (1 + of_nat (length ws)) (start_esp u + 4) 1 buf (of_nat N) (emem u) =
      Some (if length (joined ws) < N then 0 else minus_one, store_bytes (emem u) buf ys)" by auto
  moreover have "ece391_getargs_emu buf (of_nat N) u = Some (if length (joined ws) < N then 0 else minus_one, u\<lparr>emem := store_bytes (emem u) buf ys\<rparr>)"
    using argc(1) ys(3) by (simp add: ece391_getargs_emu_def)
  ultimately show ?thesis by blast
qed

lemma length_joined: "\<forall>w \<in> set ws. w \<noteq> [] \<Longrightarrow> length ws \<le> length (joined ws)"
  by (induction ws rule: joined.induct) (auto simp: Suc_le_eq)

text \<open>A program that gets its words from Linux reads the string the kernel hands over.\<close>

lemma getargs_emu_glued:
  assumes "load32 (emem u) (start_esp u) = of_nat (Suc (length args))" "args_at R (emem u) (start_esp u + 4) 1 args"
    and "\<forall>w \<in> set args. w \<noteq> []" "R \<inter> rng buf (Suc N) = {}" "length (glue [] args) < 128" "N < 2 ^ 30"
  shows "\<exists>v. ece391_getargs_emu buf (of_nat N) u = Some (if length (glue [] args) < N then 0 else minus_one, v) \<and>
    (length (glue [] args) < N \<longrightarrow> bytes_at (emem v) buf (Suc (length (glue [] args))) = glue [] args @ [0])"
proof -
  note g = glue_is_joined [OF assms(3)]
  have "length args < 2 ^ 30" "N < 2 ^ 31" using length_joined [OF assms(3)] assms(5,6) unfolding g by simp_all
  from getargs_emu_joins [OF assms(1) this(1) assms(2) assms(4) this(2)] obtain ys where
    ys: "length (joined args) < N \<longrightarrow> ys = joined args @ [0]"
    "ece391_getargs_emu buf (of_nat N) u =
      Some (if length (joined args) < N then 0 else minus_one, u\<lparr>emem := store_bytes (emem u) buf ys\<rparr>)" by blast
  have "bytes_at (store_bytes (emem u) buf ys) buf (Suc (length (joined args))) = joined args @ [0]" if "length (joined args) < N"
    using ys(1) that assms(5) bytes_at_store_same [of "joined args @ [0]"] unfolding g by (simp del: store_bytes.simps bytes_at.simps)
  with ys(2) show ?thesis unfolding g by (simp del: bytes_at.simps)
qed

section \<open>The words of a command\<close>


















section \<open>The directory\<close>

lemma copy_name:
  assumes "n < 2 ^ 31"
  shows "i < min n 32 \<Longrightarrow> emu_copy_name name to (of_nat n) (of_nat i) m =
    (if i + length name < min n 32 then (Inr (of_nat (i + length name)), store_bytes m (to + of_nat i) name)
     else (Inl (of_nat (min n 32)), store_bytes m (to + of_nat i) (take (min n 32 - i) name)))"
proof (induction name arbitrary: i m)
  case (Cons c cs)
  let ?m = "m(to + of_nat i := c)"
  have i: "of_nat i + 1 = (of_nat (Suc i) :: u32)" "to + of_nat i + 1 = to + of_nat (Suc i)" by (simp_all add: add.assoc)
  have "of_nat (Suc i) = (of_nat k :: u32) \<longleftrightarrow> Suc i = k" if "k < 2 ^ 31" for k
    using Cons.prems that by (simp add: word_of_nat_eq_iff take_bit_nat_eq_self del: of_nat_Suc)
  from this [of n] this [of 32]
  have hit: "of_nat (Suc i) = (of_nat n :: u32) \<longleftrightarrow> Suc i = n" "of_nat (Suc i) = (32 :: u32) \<longleftrightarrow> Suc i = 32" using assms by simp_all
  show ?case
  proof (cases "Suc i < min n 32")
    case True
    then have "emu_copy_name (c # cs) to (of_nat n) (of_nat i) m = emu_copy_name cs to (of_nat n) (of_nat (Suc i)) ?m"
      using hit unfolding emu_copy_name.simps Let_def i by auto
    moreover have "min n 32 - i = Suc (min n 32 - Suc i)" using True by linarith
    ultimately show ?thesis unfolding Cons.IH [OF True] i(2) [symmetric] by (simp del: min_less_iff_conj)
  next
    case False
    then have "Suc i = min n 32" using Cons.prems by linarith
    then have "Suc i = n \<or> Suc i \<noteq> n \<and> Suc i = 32" "min n 32 - i = 1" by auto
    then show ?thesis using hit False \<open>Suc i = min n 32\<close> unfolding emu_copy_name.simps Let_def i by auto
  qed
qed simp

lemma fill_name:
  assumes "n < 2 ^ 31"
  shows "i \<le> min n 32 \<Longrightarrow> emu_fill_name to (of_nat n) (of_nat i) m =
    (of_nat (min n 32), store_bytes m (to + of_nat i) (replicate (min n 32 - i) 0))"
proof (induction "min n 32 - i" arbitrary: i m)
  case 0
  then have "i = min n 32" by simp
  moreover from this have "((of_nat i :: u32) <s of_nat n \<and> (of_nat i :: u32) <s of_nat 32) = False"
    using assms by (simp add: less_signed(1) del: of_nat_numeral)
  then have "((of_nat i :: u32) <s of_nat n \<and> (of_nat i :: u32) <s 32) = False" by simp
  then have "emu_fill_name to (of_nat n) (of_nat i) m = (of_nat i, m)" by (subst emu_fill_name.simps) (simp only: if_False)
  ultimately show ?case by simp
next
  case (Suc k)
  have "(of_nat i :: u32) <s of_nat n \<and> (of_nat i :: u32) <s of_nat 32" using assms Suc.hyps(2) by (subst (1 2) less_signed(1)) auto
  then have "emu_fill_name to (of_nat n) (of_nat i) m = emu_fill_name to (of_nat n) (of_nat (Suc i)) (m(to + of_nat i := 0))"
    by (subst emu_fill_name.simps) (simp add: add.commute)
  moreover have "k = min n 32 - Suc i" "Suc i \<le> min n 32" using Suc.hyps(2) by linarith+
  ultimately show ?case using Suc.hyps(1) [of "Suc i" "m(to + of_nat i := 0)"] unfolding Suc.hyps(2) [symmetric] by (simp add: ac_simps)
qed

text \<open>C38. A read of the emulated directory with room for some bytes stores the next name, cut or filled up with NULs to
  the smaller of \<open>nbytes\<close> and 32 bytes, returns that number and stores no byte more.\<close>

theorem emulated_directory_read:
  assumes "dir u \<noteq> 0" "dir_fd u = fd" "readdir lx (dir u) (outside u) = (Some name, e)" "0 < n" "n < 2 ^ 31"
  shows "ece391_read_emu lx fd buf (of_nat n) u =
    (of_nat (min n 32), u\<lparr>outside := e, emem := store_bytes (emem u) buf (take (min n 32) (name @ replicate 32 0))\<rparr>)"
proof (cases "length name < min n 32")
  case True
  have "emu_copy_name name buf (of_nat n) 0 (emem u) = (Inr (of_nat (length name)), store_bytes (emem u) buf name)"
    using copy_name [OF assms(5), of 0 name buf "emem u"] True assms(4) by simp
  moreover have "emu_fill_name buf (of_nat n) (of_nat (length name)) (store_bytes (emem u) buf name) =
      (of_nat (min n 32), store_bytes (store_bytes (emem u) buf name) (buf + of_nat (length name)) (replicate (min n 32 - length name) 0))"
    using True by (intro fill_name assms(5)) simp
  moreover have "take (min n 32) (name @ replicate 32 0) = name @ replicate (min n 32 - length name) 0"
    using True by (simp add: take_replicate)
  ultimately show ?thesis
    using assms by (simp add: ece391_read_emu_def store_bytes_grow)
next
  case False
  have "emu_copy_name name buf (of_nat n) 0 (emem u) = (Inl (of_nat (min n 32)), store_bytes (emem u) buf (take (min n 32) name))"
    using copy_name [OF assms(5), of 0 name buf "emem u"] False assms(4) by simp
  moreover have "min n 32 - length name = 0" using False by linarith
  ultimately show ?thesis using assms by (simp add: ece391_read_emu_def)
qed

definition linux1 :: "unit linux" where
  "linux1 = \<lparr>int80 = \<lambda>n b c d (m, e). (0xFFFFFFFF, m, e), open_path = \<lambda>_ e. (3, e), close_fd = \<lambda>_ e. e,
     opendir = \<lambda>_ e. (0x9000, e), readdir = \<lambda>_ e. (Some (lit ''frame0.txt''), e), closedir = \<lambda>_ e. e,
     mmap_low = \<lambda>_ e. (None, e), spawn = \<lambda>m p args e. (Exited (of_nat (length args)), e)\<rparr>"

definition emulation1 :: "unit emulation" where
  "emulation1 = \<lparr>emem = store_bytes (\<lambda>_. 0) 0x5000 (lit ''cat  frame0.txt '' @ [0]), outside = (), start_esp = 0,
     dir_fd = 3, dir = 0x9000, mem_fd = minus_one\<rparr>"

theorem emulated_directory_read_witness:
  "ece391_read_emu linux1 3 0x6000 (of_nat 12) emulation1 =
     (12, emulation1\<lparr>emem := store_bytes (emem emulation1) 0x6000 (lit ''frame0.txt'' @ [0, 0])\<rparr>)"
proof -
  have "take (min 12 32) (lit ''frame0.txt'' @ replicate 32 0) = lit ''frame0.txt'' @ [0, 0 :: u8]"
    by (simp add: numeral_eq_Suc)
  with emulated_directory_read [of emulation1 3 linux1 "lit ''frame0.txt''" "()" 12 "0x6000"]
  show ?thesis by (simp add: linux1_def emulation1_def del: store_bytes.simps)
qed

section \<open>Programs\<close>



end
