(* ===== verification/Userland.thy ===== *)
theory Userland
  imports Sigtest Syserr Fishrun Emulate
begin

text \<open>
  The properties of the user programs, from their first instruction to their exit status and what is
  on the screen then, over the kernel they run on; each applied to a small machine.
\<close>

section \<open>A machine with a program\<close>

text \<open>The directory of the small image: three entries and no more.\<close>

lemma disk_upt: "[0..<63] = 0 # 1 # 2 # [3..<63]"
proof -
  have lt: "(0 :: nat) < 63" "(1 :: nat) < 63" "(2 :: nat) < 63" by simp_all
  show ?thesis
    using upt_conv_Cons [OF lt(1)] upt_conv_Cons [OF lt(2)] upt_conv_Cons [OF lt(3)]
    unfolding One_nat_def [symmetric] Suc_1 by simp
qed

lemma disk_empty:
  assumes "3 \<le> i" "i < 63"
  shows "dir_name disk i = []"
proof -
  let ?b = "dentry_addr (of_nat i) disk"
  have "?b = 0x500040 + of_nat (64 * i)" by (simp add: dentry_addr_def)
  then have u: "unat ?b = 0x500040 + 64 * i" using assms(2) by (simp add: unat_add_nat del: of_nat_mult)
  have "disk_mem ?b = 0" using assms by (simp add: disk_at unat_sub_if' u) arith
  then have "dir_name disk i = upto_nul (0 # bytes_at disk_mem (?b + 1) 31)" by (simp add: dir_name_def eval_nat_numeral)
  then show ?thesis by (simp add: upto_nul_def)
qed

lemma disk_lookup:
  assumes "name \<noteq> []"
  shows "find (\<lambda>i. dir_name disk i = name) [0..<63] =
    (if name = lit ''.'' then Some 0 else if name = lit ''prog'' then Some 1 else if name = lit ''rtc'' then Some 2 else None)"
proof -
  obtain R where R: "[0..<63] = 0 # 1 # 2 # R" "set R = {3..<63}" using disk_upt set_upt by metis
  have "find (\<lambda>i. dir_name disk i = name) R = None"
    unfolding find_None_iff R(2) using assms by (auto simp: disk_empty)
  then show ?thesis unfolding R(1) using disk_dir(1-3) by (auto simp del: One_nat_def)
qed

lemma disk_entries: "entry_of disk (lit ''.'') = Some (dentry_of disk 0)" "entry_of disk (lit ''prog'') = Some (dentry_of disk 1)"
  by (simp_all add: entry_of_def disk_lookup)

lemma disk_no_entry: "entry_of disk (lit ''helloo'') = None" "entry_of disk (lit ''shel'') = None"
  by (simp_all add: entry_of_def disk_lookup)

lemma disk_dot: "filetype (dentry_of disk 0) = 1"
  by (simp add: dentry_of_def dentry_addr_def load32_def disk_at)

lemma disk_names: "map (dir_name disk) [0..<63] = lit ''.'' # lit ''prog'' # lit ''rtc'' # map (\<lambda>_. []) [3..<63]"
proof -
  have "map (dir_name disk) [3..<63] = map (\<lambda>_. []) [3..<63]" by (rule map_cong) (simp_all only: set_upt disk_empty atLeastLessThan_iff)
  then show ?thesis unfolding disk_upt list.map disk_dir by simp
qed

text \<open>The machine of \<^const>\<open>kernel1\<close> with a cleared screen, the argument \<^verbatim>\<open>prog\<close>, and the literals of
  the programs from 130 MB on.\<close>

definition user_msgs :: "string list" where
  "user_msgs = [''.'', ''helloo'', ''shel'', [], line ''file not found'', line ''directory entry read failed''] @ pass_lines @
     [''391OS> '', ''exit'', ''Hi, what's your name? '', ''Hello, '', line [],
      line ''Enter the Test Number: (0): 100, (1): 10000, (2): 100000'', line ''Wrong Choice!'']"

definition user_lits :: "string \<Rightarrow> u32" where
  "user_lits = place_at 0x8200000 user_msgs"

definition user_mem :: "u32 \<Rightarrow> u8" where
  "user_mem = place 0x8200000 user_msgs (store_bytes disk_mem (pcb_addr 0 + PCB_ARG) (lit ''prog'' @ [0]))"

definition user1 :: kernel where
  "user1 = clear (kernel1\<lparr>pcbs := \<lambda>_. fresh_pcb\<lparr>num_char_in_arg := 4\<rparr>, mem := user_mem\<rparr>)"

lemma user_msgs_plain: "list_all plain user_msgs" "length user_msgs = 22"
  by (simp_all add: user_msgs_def pass_lines_def plain_def line_def)

lemma user1_more: "console.more user1 = console.more (kernel1\<lparr>pcbs := \<lambda>_. fresh_pcb\<lparr>num_char_in_arg := 4\<rparr>\<rparr>)"
  by (simp add: user1_def)

lemma user1_fields [simp]:
  "fs_ptr user1 = 0x500000" "pcbs user1 = (\<lambda>_. fresh_pcb\<lparr>num_char_in_arg := 4\<rparr>)" "tss_esp0 user1 = kernel_stack 0"
  "blank user1 = blank_slot" "pid_array user1 = [1, 0, 0, 0, 0, 0]" "curr_process user1 = 0"
  "esp user1 = 0x7FDF00"
  using console_more_kernel(1) [OF user1_more] keyboard_more_kernel [of user1] by simp_all

lemma user1_mem: "b \<notin> screen_rng \<Longrightarrow> mem user1 b = user_mem b"
  by (simp add: user1_def clear_mem)

lemma user_mem_disk:
  assumes "b \<notin> rng 0x8200000 1408" "b \<notin> rng (pcb_addr 0 + PCB_ARG) 5"
  shows "user_mem b = disk_mem b"
proof -
  have "64 * length user_msgs = 1408" by (simp add: user_msgs_plain)
  moreover have "store_bytes disk_mem (pcb_addr 0 + PCB_ARG) (lit ''prog'' @ [0]) b = disk_mem b"
    by (rule store_bytes_other) (use assms(2) in \<open>simp add: eval_nat_numeral\<close>)
  ultimately show ?thesis
    unfolding user_mem_def using place_other [OF user_msgs_plain(1), of b "0x8200000"] assms(1) by simp
qed

lemma user1_disk:
  assumes "rng a n \<inter> rng 0x8200000 1408 = {}" "rng a n \<inter> screen_rng = {}" "rng a n \<inter> rng (pcb_addr 0 + PCB_ARG) 5 = {}"
    and "b \<in> rng a n"
  shows "mem user1 b = disk_mem b"
proof -
  have "b \<notin> rng 0x8200000 1408" "b \<notin> screen_rng" "b \<notin> rng (pcb_addr 0 + PCB_ARG) 5" using assms by blast+
  then show ?thesis using user1_mem user_mem_disk by simp
qed

lemma user1_agree: "img_agree disk_mem 0x500000 (mem user1)"
proof -
  have d: "rng 0x500000 12288 \<inter> rng 0x8200000 1408 = {}" "rng 0x500000 12288 \<inter> screen_rng = {}"
    unfolding screen_rng_def VIDEO_def by (rule rng_disjointI; simp)+
  have "rng 0x500000 12288 \<inter> rng (pcb_addr 0 + PCB_ARG) 5 = {}"
    by (rule rng_disjointI) (simp_all add: pcb_addr_def process_consts PCB_ARG_def)
  with d have "b \<notin> rng 0x8200000 1408" "b \<notin> screen_rng" "b \<notin> rng (pcb_addr 0 + PCB_ARG) 5" if "b \<in> rng 0x500000 12288" for b
    using that by auto
  then show ?thesis unfolding img_agree_def disk_rng using user1_mem user_mem_disk by metis
qed

lemma user1_files [simp]: "cur_files (in_kernel user1) = init_file_array blank_slot"
  by (simp add: cur_files_def cur_pcb_def fresh_pcb_def)

lemma user1_ok: "prog_ok user1"
proof -
  let ?s = "kernel1\<lparr>pcbs := \<lambda>_. fresh_pcb\<lparr>num_char_in_arg := 4\<rparr>, mem := user_mem\<rparr>"
  have "con_good (clear ?s)" by (simp add: con_good_def clear_view)
  moreover have "con_good (in_kernel user1) = con_good user1"
    by (rule con_same) (simp_all add: in_kernel_def)
  ultimately have c: "con_good (in_kernel user1)" by (simp add: user1_def)
  have "rng 0x500000 12288 \<inter> screen_rng = {}" unfolding screen_rng_def VIDEO_def by (rule rng_disjointI; simp)
  moreover have "img_rng (mem user1) 0x500000 = rng 0x500000 12288"
    using img_same [OF user1_agree] by (simp add: img_rng_def img_size_def disk_img)
  moreover have "img_ok (mem user1) 0x500000" using img_ok_same(1) [OF user1_agree disk_img_ok] .
  ultimately show ?thesis
    using c by (simp add: prog_ok_def out_ok_def std_out_def init_files_nth FILE_OCCUP_def FILE_AVAIL_def)
qed

lemma user1_literals:
  assumes "msgs \<subseteq> set user_msgs" "R \<inter> rng 0x8200000 1408 = {}"
  shows "literals msgs user_lits R user1"
proof -
  have n: "64 * length user_msgs = 1408" by (simp add: user_msgs_plain)
  note p = place_string [OF user_msgs_plain(1), unfolded n, of _ "0x8200000", folded user_lits_def user_mem_def]
  have scr: "rng 0x8200000 1408 \<inter> screen_rng = {}" unfolding screen_rng_def VIDEO_def by (rule rng_disjointI; simp)
  have "text_at (mem user1) (user_lits msg) (lit msg) \<and> rng (user_lits msg) (Suc (length msg)) \<inter> R = {}" if "msg \<in> msgs" for msg
  proof -
    have m: "msg \<in> set user_msgs" using that assms(1) by blast
    have l: "length msg < 64" using m user_msgs_plain(1) by (auto simp: list_all_iff plain_def)
    have sub: "rng (user_lits msg) (Suc (length msg)) \<subseteq> rng 0x8200000 1408" by (rule p(2)) (simp_all add: m)
    have c: "cstr user_mem (user_lits msg) (lit msg)" unfolding user_mem_def by (rule p(1)) (simp_all add: m)
    have "rng (user_lits msg) (Suc (length (lit msg))) \<inter> screen_rng = {}" using sub scr by auto
    moreover from this have "cstr (mem user1) (user_lits msg) (lit msg)"
      using c user1_mem by (subst cstr_cong [of _ _ _ user_mem]) auto
    moreover obtain i where "i < 22" "user_lits msg = 0x8200000 + of_nat (64 * i)"
      using p(3) [OF _ m] by (auto simp: user_msgs_plain)
    then have "unat (user_lits msg) = 0x8200000 + 64 * i" by (simp add: unat_add_nat del: of_nat_mult)
    then have "user_lits msg \<noteq> 0" by auto
    ultimately show ?thesis using l sub assms(2) by (auto simp: text_at_def)
  qed
  then show ?thesis by (simp add: literals_def)
qed

lemma user1_buf: "n \<le> 1024 \<Longrightarrow> buf_ok 0x8100000 n user1" "rng 0x8100000 1024 \<inter> rng 0x8200000 1408 = {}"
proof -
  assume n: "n \<le> 1024"
  have d: "rng 0x8100000 1024 \<inter> screen_rng = {}" "rng 0x8100000 1024 \<inter> rng 0x500000 12288 = {}"
    unfolding screen_rng_def VIDEO_def by (rule rng_disjointI; simp)+
  moreover have "img_rng (mem user1) 0x500000 = rng 0x500000 12288"
    using img_same [OF user1_agree] by (simp add: img_rng_def img_size_def disk_img)
  ultimately show "buf_ok 0x8100000 n user1" using rng_mono [OF n, of "0x8100000"] n by (auto simp: buf_ok_def)
qed (rule rng_disjointI; simp)

lemma esp_more: "keyboard.more (s :: 'a kernel_scheme) = keyboard.more t \<Longrightarrow> keyboard.more (s\<lparr>esp := e\<rparr>) = keyboard.more (t\<lparr>esp := e\<rparr>)"
  by (cases s; cases t) simp

lemma user1_runs: "runs (in_kernel user1) [0]"
proof -
  let ?s = "kernel1\<lparr>pcbs := \<lambda>_. fresh_pcb\<lparr>num_char_in_arg := 4\<rparr>, esp := kernel_stack 0 - 92\<rparr>"
  have k: "in_kstack [0] (kernel_stack 0 - 92)" by (rule in_own_stack) simp_all
  have p: "pid_array kernel1 ! unat 0 = PROG_ACTIVE" by (simp add: PROG_ACTIVE_def)
  have b: "in_kstack [] (parent_esp fresh_pcb)"
    by (simp add: in_kstack_def stack_page_def PCB_MASK_def BOOT_STACK_def fresh_pcb_def)
  have f: "files_ok (file_array fresh_pcb)" using disk_files_ok by (simp add: fresh_pcb_def)
  have "runs ?s [0]"
    using p k f b by (simp add: runs_def dir_ok_def blank_ok_def blank_flags user_pde_def top_pid_def fresh_pcb_def)
  moreover have "keyboard.more (user1\<lparr>esp := kernel_stack 0 - 92\<rparr>) = keyboard.more ?s"
    by (rule esp_more) (rule console_more_kernel(1) [OF user1_more])
  moreover have "keyboard.more (in_kernel user1) = keyboard.more (user1\<lparr>esp := kernel_stack 0 - 92\<rparr>)"
    unfolding in_kernel_def user1_fields by (cases user1) simp
  ultimately show ?thesis using runs_cong by metis
qed

lemma user1_args: "has_args user1 0 (lit ''prog'')"
proof -
  have a: "pcb_addr 0 + PCB_ARG = 0x7FC0A0" by (simp add: pcb_addr_def process_consts PCB_ARG_def)
  have d: "rng 0x7FC0A0 5 \<inter> rng 0x8200000 1408 = {}" "rng 0x7FC0A0 5 \<inter> screen_rng = {}"
    unfolding screen_rng_def VIDEO_def by (rule rng_disjointI; simp)+
  have n: "64 * length user_msgs = 1408" by (simp add: user_msgs_plain)
  have "mem user1 b = store_bytes disk_mem 0x7FC0A0 (lit ''prog'' @ [0]) b" if "b \<in> rng 0x7FC0A0 (Suc (length (lit ''prog'')))" for b
  proof -
    have "b \<in> rng 0x7FC0A0 5" using that by (simp add: eval_nat_numeral)
    with d have "b \<notin> rng 0x8200000 1408" "b \<notin> screen_rng" by auto
    then show ?thesis
      using user1_mem [of b] place_other [OF user_msgs_plain(1), unfolded n, of b "0x8200000"]
      by (simp only: user_mem_def a not_False_eq_True simp_thms)
  qed
  then have "cstr (mem user1) 0x7FC0A0 (lit ''prog'') = cstr (store_bytes disk_mem 0x7FC0A0 (lit ''prog'' @ [0])) 0x7FC0A0 (lit ''prog'')"
    by (rule cstr_cong)
  also have "\<dots>" by (rule cstr_store_same) simp_all
  finally show ?thesis using user1_runs by (auto simp: has_args_def a simp del: cstr.simps)
qed

lemma user1_entry: "entry_of (in_kernel user1) name = entry_of disk name"
  by (rule entry_of_same) (use user1_agree in simp_all)

lemma user1_dir: "map (dir_name (in_kernel user1)) [0..<63] = map (dir_name disk) [0..<63]"
proof -
  have "dir_name (in_kernel user1) i = dir_name disk i" if "i < 63" for i
    by (rule dentry_of_same(2)) (use user1_agree that in simp_all)
  then show ?thesis by simp
qed

section \<open>Their results\<close>

text \<open>C6. \<open>cat\<close> run with the name of a file of the image as its argument shows the file and exits with
  0: \<open>getargs\<close> hands it the name, \<open>open\<close> finds the file in the directory, the loop of \<open>read\<close> and
  \<open>write\<close> runs through it in pieces of 1024 bytes, and it ends. A NUL ends what is shown of the piece it is
  in. When no entry has the name, it says so and exits with 2.\<close>

theorem cat_prints:
  assumes "prog_ok s" "buf_ok buf 1024 s" "rng buf 128 \<inter> rng (pcb_addr p + PCB_ARG) 128 = {}"
    and "has_args s p name" "name \<noteq> []" "length name < 32"
    and "literals {line ''file not found''} lits (rng buf 1024) s"
  shows "case entry_of (in_kernel s) name of
      None \<Rightarrow> \<exists>t. cat_main lits buf s = Some (2, t) \<and> shown t = fold tty_putc (lit (line ''file not found'')) (shown s)
    | Some d \<Rightarrow> filetype d = 2 \<and> unat (dentry_inode d) < img_inodes (mem s) (fs_ptr s) \<and>
        free_slot (cur_files (in_kernel s)) 2 < 8 \<longrightarrow>
        (\<exists>t. cat_main lits buf s = Some (0, t) \<and>
          shown t = fold tty_putc (cat_text (file_content (mem s) (fs_ptr s) (unat (dentry_inode d)))) (shown s))"
proof (cases "entry_of (in_kernel s) name")
  case None
  with cat_no_file [OF assms(1-6) None assms(7)] show ?thesis by simp
next
  case (Some d)
  with cat_shows_file [OF assms(1-6) Some] show ?thesis by auto
qed

theorem cat_prints_witness:
  "\<exists>t. cat_main user_lits 0x8100000 user1 = Some (0, t) \<and> shown t = fold tty_putc (cat_text prog_bytes) (shown user1)"
proof -
  have e: "entry_of (in_kernel user1) (lit ''prog'') = Some (dentry_of disk 1)" by (simp only: user1_entry disk_entries)
  have d: "filetype (dentry_of disk 1) = 2" "unat (dentry_inode (dentry_of disk 1)) = 0" by (simp_all only: disk_dir) simp_all
  have n: "img_inodes (mem user1) (fs_ptr user1) = 1" using img_same(1) [OF user1_agree] by (simp add: disk_img)
  have f: "file_content (mem user1) (fs_ptr user1) 0 = prog_bytes"
    using img_slice_same [OF user1_agree disk_img_ok, of 0] img_same(3) [OF user1_agree, of 0] disk_file
    by (simp add: file_content_def disk_img)
  have a: "rng 0x8100000 128 \<inter> rng (pcb_addr 0 + PCB_ARG) 128 = {}"
    by (rule rng_disjointI(2)) (simp_all add: pcb_addr_def process_consts PCB_ARG_def)
  have l: "literals {line ''file not found''} user_lits (rng 0x8100000 1024) user1"
    by (rule user1_literals [OF _ user1_buf(2)]) (simp add: user_msgs_def)
  have "free_slot (cur_files (in_kernel user1)) 2 < 8" by (simp add: disk_slot)
  with cat_prints [OF user1_ok user1_buf(1) a user1_args _ _ l, unfolded e option.case d(2) n f] d(1) show ?thesis by simp
qed

text \<open>C7. \<open>ls\<close> shows the names of the directory one to a line, up to the first empty entry, and exits with 0;
  when all 63 entries are in use, the read behind the last one fails, and \<open>ls\<close> reports that and
  exits with 3 although it has listed everything.\<close>

theorem ls_prints:
  assumes "prog_ok s" "buf_ok buf 33 s"
    and "entry_of (in_kernel s) (lit ''.'') = Some d" "filetype d = 1"
    and "free_slot (cur_files (in_kernel s)) 2 < 8"
    and "literals {''.'', line ''directory entry read failed''} lits (rng buf 33) s"
    and "names = map (dir_name (in_kernel s)) [0..<63]"
  shows "\<exists>t. ls_main lits buf s = Some (if [] \<in> set names then 0 else 3, t) \<and>
    shown t = fold tty_putc (concat (map (\<lambda>n. n @ [0x0A]) (takeWhile (\<lambda>n. n \<noteq> []) names)) @
      (if [] \<in> set names then [] else lit (line ''directory entry read failed''))) (shown s)"
  using ls_lists [OF assms] unfolding ls_status_def ls_text_def .

theorem ls_prints_witness:
  "\<exists>t. ls_main user_lits 0x8100000 user1 = Some (0, t) \<and>
     shown t = fold tty_putc (lit (concat [line ''.'', line ''prog'', line ''rtc''])) (shown user1)"
proof -
  have e: "entry_of (in_kernel user1) (lit ''.'') = Some (dentry_of disk 0)" by (simp only: user1_entry disk_entries)
  have l: "literals {''.'', line ''directory entry read failed''} user_lits (rng 0x8100000 33) user1"
    using user1_buf(2) rng_mono [of 33 1024 "0x8100000"] by (intro user1_literals) (auto simp: user_msgs_def)
  have f: "free_slot (cur_files (in_kernel user1)) 2 < 8" by (simp add: disk_slot)
  have b: "buf_ok 0x8100000 33 user1" by (rule user1_buf) simp
  note t = ls_prints [OF user1_ok b e disk_dot f l user1_dir [symmetric]]
  have "takeWhile (\<lambda>n. n \<noteq> []) (map (dir_name disk) [0..<63]) = [lit ''.'', lit ''prog'', lit ''rtc'']"
    "[] \<in> set (map (dir_name disk) [0..<63])"
    unfolding disk_names by (simp_all add: takeWhile_eq_Nil_iff)
  with t show ?thesis by (simp add: line_def)
qed

text \<open>C8. The kernel passes its own error tests: \<^verbatim>\<open>syserr\<close>, run with choice 0 by a program that has
  opened nothing on a directory without the misspelled names, has every bad descriptor, name, pointer
  and call number refused, fills the six slots and has the seventh \<open>open\<close> refused, shows PASS for each of the
  eight tests and returns 0.\<close>

theorem syserr_passes:
  assumes "tester {} msgs lits s" "{''.'', ''helloo'', ''shel'', []} \<union> set pass_lines \<subseteq> msgs"
  shows "\<exists>t. run_tests regs lits buf 0 s = Some (0, t) \<and> shown t = fold tty_putc (lit (concat pass_lines)) (shown s)"
  using all_tests_pass [OF assms] by (simp add: run_tests_def)

theorem syserr_passes_witness:
  "\<exists>t. run_tests (0, 0, 0) user_lits 0x8100000 0 user1 = Some (0, t) \<and>
     shown t = fold tty_putc (lit (concat pass_lines)) (shown user1)"
proof -
  have "slots_open {} user1"
    by (auto simp: slots_open_def Let_def init_files_nth blank_slot_def FILE_OCCUP_def FILE_AVAIL_def)
  moreover have "literals (set user_msgs) user_lits {} user1" by (rule user1_literals) simp_all
  moreover have "test_dir user1"
    unfolding test_dir_def user1_entry disk_entries disk_no_entry using disk_dot by blast
  moreover have "flags (blank (in_kernel user1)) = FILE_AVAIL" by (simp add: in_kernel_def blank_slot_def)
  ultimately have "tester {} (set user_msgs) user_lits user1" using user1_ok by (simp add: tester_def)
  moreover have "{''.'', ''helloo'', ''shel'', []} \<union> set pass_lines \<subseteq> set user_msgs" by (auto simp: user_msgs_def)
  ultimately show ?thesis by (rule syserr_passes)
qed

section \<open>A machine at which somebody types\<close>

text \<open>The same machine with the scan codes to come.\<close>

definition typing :: "u8 list \<Rightarrow> kernel" where
  "typing ks = user1\<lparr>inq := (inq user1)(KEYBOARD_DATA_PORT := ks)\<rparr>"

lemma queue_only:
  fixes s :: "'a kernel_scheme"
  shows "prog_ok (s\<lparr>inq := q\<rparr>) = prog_ok s" "buf_ok b n (s\<lparr>inq := q\<rparr>) = buf_ok b n s"
    "literals msgs lits R (s\<lparr>inq := q\<rparr>) = literals msgs lits R s" "shown (s\<lparr>inq := q\<rparr>) = shown s"
    "line_room b n (s\<lparr>inq := q\<rparr>) = line_room b n s" "kbd_of (s\<lparr>inq := q\<rparr>) = kbd_of s"
    "cur_files (in_kernel (s\<lparr>inq := q\<rparr>)) = cur_files (in_kernel s)" "runs (in_kernel (s\<lparr>inq := q\<rparr>)) ps = runs (in_kernel s) ps"
proof -
  have k: "in_kernel (s\<lparr>inq := q\<rparr>) = (in_kernel s)\<lparr>inq := q\<rparr>" by (simp add: in_kernel_def)
  have c: "con_good ((in_kernel s)\<lparr>inq := q\<rparr>) = con_good (in_kernel s)" "con_view ((in_kernel s)\<lparr>inq := q\<rparr>) = con_view (in_kernel s)"
    by (simp_all add: con_same [of "(in_kernel s)\<lparr>inq := q\<rparr>" "in_kernel s"])
  show f: "cur_files (in_kernel (s\<lparr>inq := q\<rparr>)) = cur_files (in_kernel s)"
    by (simp add: k cur_files_def cur_pcb_def getCurrentProcessPCB_def)
  show "prog_ok (s\<lparr>inq := q\<rparr>) = prog_ok s" by (simp add: prog_ok_def out_ok_def std_out_def f) (simp add: k c)
  show "shown (s\<lparr>inq := q\<rparr>) = shown s" by (simp add: shown_def k c)
  show "runs (in_kernel (s\<lparr>inq := q\<rparr>)) ps = runs (in_kernel s) ps"
    unfolding k by (rule runs_cong) simp
qed (simp_all add: buf_ok_def literals_def line_room_def kbd_of_def)


lemma user1_kbd: "kbd_of user1 = (0, 0, 0, 0)" "pushed_key user1 = 0"
  by (simp_all add: user1_def clear_kbd kbd_of_def kernel1_def filesys.defs disk_def paging.defs bare_def keyboard.defs desk_def)

lemma typing_ready:
  "prog_ok (typing ks)" "std_in (typing ks)" "line_room 0x8100000 128 (typing ks)" "buf_ok 0x8100000 1024 (typing ks)"
  "msgs \<subseteq> set user_msgs \<Longrightarrow> literals msgs user_lits (rng 0x8100000 1024) (typing ks)"
  "answer (typing ks) q = edit_line 128 (chars (0, 0, 0, 0) ks) [] (fold tty_putc (lit q) (shown user1))"
proof -
  note u = user1_ok user1_buf user1_kbd
  show "prog_ok (typing ks)" "buf_ok 0x8100000 1024 (typing ks)" by (simp_all add: typing_def queue_only u)
  have "pushed_key (in_kernel (typing ks)) = 0" by (simp add: typing_def u)
  then show "std_in (typing ks)"
    by (simp add: std_in_def typing_def queue_only init_files_nth FILE_OCCUP_def FILE_AVAIL_def u)
  have "buf_ok 0x8100000 (Suc 128) user1" by (rule user1_buf) simp
  moreover have "line_buffer 0x8100000 128"
    unfolding line_buffer_def screen_rng_def by (simp, rule rng_disjointI) (simp_all add: VIDEO_def)
  ultimately show "line_room 0x8100000 128 (typing ks)" unfolding typing_def queue_only by (simp add: line_room_def)
  show "literals msgs user_lits (rng 0x8100000 1024) (typing ks)" if "msgs \<subseteq> set user_msgs"
    unfolding typing_def queue_only by (rule user1_literals [OF that user1_buf(2)])
  show "answer (typing ks) q = edit_line 128 (chars (0, 0, 0, 0) ks) [] (fold tty_putc (lit q) (shown user1))"
    unfolding answer_def typing_def queue_only u by simp
qed

text \<open>The keys of \<^verbatim>\<open>prog\<close> and of the digit 0, each with enter.\<close>

lemma typed_prog: "chars (0, 0, 0, 0) [0x19, 0x13, 0x18, 0x22, 0x1C] = lit ''prog'' @ [13]"
  and typed_zero: "chars (0, 0, 0, 0) [0x0B, 0x1C] = lit ''0'' @ [13]"
  by (simp_all add: key_codes default_key_def NUM_CHAR_HANDLE_def ascii_of_def scan2ascii_def chr_pair_def
      apply_caps_def BS_def CAP_def Let_def)

lemma edit_plain:
  "list_all printable xs \<Longrightarrow> length pre + length xs \<le> limit \<Longrightarrow>
   edit_line limit (xs @ [13]) pre view = Some (pre @ xs, tty_putc 0x0A (fold tty_putc xs view), [])"
proof (induction xs arbitrary: pre view)
  case (Cons x xs)
  from Cons.IH [of "pre @ [x]"] Cons.prems show ?case by (auto simp: printable_def ASCII_MIN_def ASCII_MAX_def CTRL_L_def)
qed simp

lemma user1_console [simp]:
  "exec_filename_at user1 = 0x610000" "exec_buffer_at user1 = 0x610100"
  using keyboard_more_kernel [OF console_more_kernel(1) [OF user1_more]] by simp_all

lemma typed_line_ready:
  defines "s ks \<equiv> typing ks"
  shows "exec_ready (in_kernel ((s ks)\<lparr>mem := store_bytes (mem (s ks)) 0x8100000 (lit ''prog'' @ [0])\<rparr>)) 0x8100000 (lit ''prog'') 1 [] 1"
    "file_content (mem (s ks)) (fs_ptr (s ks)) (unat (dentry_inode (dentry_of (s ks) 1))) = prog_bytes"
proof -
  let ?B = "rng 0x8100000 5"
  define t where "t = in_kernel ((s ks)\<lparr>mem := store_bytes (mem (s ks)) 0x8100000 (lit ''prog'' @ [0])\<rparr>)"
  have n: "Suc (length (lit ''prog'')) = 5" "length (lit ''prog'' @ [0]) = 5" by simp_all
  have d: "?B \<inter> rng 0x610000 32 = {}" "?B \<inter> rng 0x610100 128 = {}"
    "rng 0x610000 32 \<inter> rng 0x610100 128 = {}" "rng 0x500000 12288 \<inter> ?B = {}"
    "rng 0x500000 12288 \<inter> rng 0x610000 32 = {}" "rng 0x500000 12288 \<inter> rng 0x610100 128 = {}"
    by (rule rng_disjointI; simp)+
  have m: "mem (s ks) = mem user1" "fs_ptr (s ks) = 0x500000" "fs_ptr t = 0x500000"
    "mem t = store_bytes (mem user1) 0x8100000 (lit ''prog'' @ [0])"
    "exec_filename_at t = 0x610000" "exec_buffer_at t = 0x610100" "pid_array t = pid_array kernel1"
    by (simp_all add: t_def s_def typing_def in_kernel_def)
  have agree: "img_agree disk_mem 0x500000 (mem t)"
    unfolding img_agree_def disk_rng m(4)
  proof (intro ballI)
    fix b assume b: "b \<in> rng 0x500000 12288"
    with d(4) have "b \<notin> rng 0x8100000 (length (lit ''prog'' @ [0]))" unfolding n(2) by blast
    from store_bytes_other [OF this, of "mem user1"] b user1_agree
    show "store_bytes (mem user1) 0x8100000 (lit ''prog'' @ [0]) b = disk_mem b"
      unfolding img_agree_def disk_rng by (metis (no_types))
  qed
  have rng: "img_rng (mem t) 0x500000 = rng 0x500000 12288"
    using img_same [OF agree] by (simp add: img_rng_def img_size_def disk_img)
  have lay: "exec_layout t 0x8100000 (lit ''prog'')"
    unfolding exec_layout_def Let_def m(3,5,6) rng n by (simp add: d Int_Un_distrib mem_rng_iff)
  have dirs: "dentry_of t i = dentry_of disk i" "dir_name t i = dir_name disk i" "dentry_of (s ks) i = dentry_of disk i" if "i < 63" for i
    using dentry_of_same [of disk t, OF _ _ that] dentry_of_same [of disk "s ks", OF _ _ that] agree user1_agree
    by (simp_all add: m)
  have find: "find (\<lambda>i. dir_name t i = lit ''prog'') [0..<63] = Some 1"
    using find_same [of "[0..<63]" "\<lambda>i. dir_name t i = lit ''prog''" "\<lambda>i. dir_name disk i = lit ''prog''"]
    by (simp add: dirs disk_lookup)
  have d1: "dentry_of t 1 = dentry_of disk 1" "dentry_of (s ks) 1 = dentry_of disk 1" by (rule dirs; simp)+
  have ino: "unat (dentry_inode (dentry_of disk 1)) = 0" "filetype (dentry_of disk 1) = 2" by (simp_all only: disk_dir) simp_all
  have content: "file_content m' 0x500000 0 = prog_bytes" if "img_agree disk_mem 0x500000 m'" for m'
    using img_slice_same [OF that disk_img_ok, of 0] img_same(3) [OF that, of 0] disk_file
    by (simp add: file_content_def disk_img)
  show "file_content (mem (s ks)) (fs_ptr (s ks)) (unat (dentry_inode (dentry_of (s ks) 1))) = prog_bytes"
    unfolding d1 ino m by (rule content [OF user1_agree])
  have words: "arg_words (lit ''prog'') = [lit ''prog'']"
    by (simp add: arg_words.simps [of "_ # _"] arg_words.simps [of "[]"] strtok_word_def strtok_rest_def)
  have prog: "names_program t (lit ''prog'') 1 []"
    unfolding names_program_def words list.case find d1 ino m(3) content [OF agree] img_same(1) [OF agree]
    by (simp add: disk_img FILE_TYPE_FILE_def prog_bytes_def)
  have win: "\<not> in_window b" if "b \<in> rng a k" "unat a + k \<le> 0x8000000" for a b k
  proof -
    have "unat b < 0x8000000" using that by (auto simp: rng_def unat_word_ariths unat_of_nat)
    then show ?thesis by (simp add: in_window_def USER_BASE_def word_le_nat_alt)
  qed
  have out: "\<forall>b \<in> rng 0x500000 12288 \<union> rng 0x610100 128. \<not> in_window b"
    using win [where a = "0x500000" and k = 12288] win [where a = "0x610100" and k = 128] by auto
  have pcb: "rng (pcb_addr (of_nat 1) + PCB_ARG) 128 \<inter> rng 0x610100 128 = {}"
    by (rule rng_disjointI(2)) (simp_all add: pcb_addr_def process_consts PCB_ARG_def)
  have free: "free_pids t = {1, 2, 3, 4, 5}" unfolding free_pids_def m(7) using kernel1_free by (simp add: free_pids_def)
  have cs: "cstr (mem t) 0x8100000 (lit ''prog'')" unfolding m(4) by (rule cstr_store_same) simp_all
  have len: "file_len (mem t) 0x500000 0 = file_len disk_mem 0x500000 0"
    using img_same(3) [OF agree, of 0] by (simp add: disk_img)
  show "exec_ready (in_kernel ((s ks)\<lparr>mem := store_bytes (mem (s ks)) 0x8100000 (lit ''prog'' @ [0])\<rparr>)) 0x8100000 (lit ''prog'') 1 [] 1"
    unfolding t_def [symmetric] exec_ready_def m(3,6) rng free d1 ino len
    using lay prog pcb out cs img_ok_same(1) [OF agree disk_img_ok] by (simp add: disk_img)
qed

section \<open>Programs that read a line\<close>

text \<open>C9. A turn of the shell: it shows its prompt, reads the line that is typed and leaves on \<^verbatim>\<open>exit\<close>, starts
  over on an empty line, and runs every other line. When the line names a program of the image (and
  there is a free slot), the \<open>execute\<close> it makes enters the kernel through the gate and leaves it
  at the entry point of that program, which is loaded, has the words after its name as its arguments, and is on top
  of the shell.\<close>

theorem shell_starts_program:
  fixes s :: "'a kernel_scheme"
  assumes "prog_ok s" "std_in s" "line_room buf 128 s" "buf_ok buf 1024 s"
    and "literals {''391OS> '', ''exit''} lits (rng buf 1024) s"
    and "answer s ''391OS> '' = Some (ys, view, rest)"
  shows "\<exists>t. shell_turn lits buf s = Some (if ys = lit ''exit'' then Leave 0 else if ys = [] then Again else Run buf, t) \<and>
    shown t = view \<and> cstr (mem t) buf ys \<and>
    (\<forall>ps i args n. ys \<noteq> lit ''exit'' \<and> runs (in_kernel s) ps \<and>
       exec_ready (in_kernel (s\<lparr>mem := store_bytes (mem s) buf (ys @ [0])\<rparr>)) buf ys i args n \<longrightarrow>
     (let content = file_content (mem s) (fs_ptr s) (unat (dentry_inode (dentry_of s i))) in
       \<exists>stk u. system_call_handler (call_regs SYS_EXECUTE buf 0 0) (trap t) =
         Some (Enter (load32 (mem u) (PROGRAM_IMAGE + 24)) 0x83FFFFC, stk, u) \<and>
       runs (u\<lparr>esp := kernel_stack (of_nat n)\<rparr>) (of_nat n # ps) \<and>
       bytes_at (mem u) PROGRAM_IMAGE (length content) = content \<and>
       cstr (mem u) (pcb_addr (of_nat n) + PCB_ARG) (glue [] args)))"
proof -
  obtain t where t: "shell_turn lits buf s = Some (if ys = lit ''exit'' then Leave 0 else if ys = [] then Again else Run buf, t)"
    "shown t = view" "cstr (mem t) buf ys"
    using shell_turn_reads [OF assms(1-3,5,6)] by blast
  show ?thesis
  proof (intro exI [of _ t] conjI allI impI t)
    fix ps i args n
    assume "ys \<noteq> lit ''exit'' \<and> runs (in_kernel s) ps \<and>
       exec_ready (in_kernel (s\<lparr>mem := store_bytes (mem s) buf (ys @ [0])\<rparr>)) buf ys i args n"
    then have ys: "ys \<noteq> lit ''exit''" and r: "runs (in_kernel s) ps"
      and e: "exec_ready (in_kernel (s\<lparr>mem := store_bytes (mem s) buf (ys @ [0])\<rparr>)) buf ys i args n" by blast+
    from shell_line_runs [OF assms(1-3,5,4,6) ys r e refl] t(1)
    show "let content = file_content (mem s) (fs_ptr s) (unat (dentry_inode (dentry_of s i))) in
       \<exists>stk u. system_call_handler (call_regs SYS_EXECUTE buf 0 0) (trap t) =
         Some (Enter (load32 (mem u) (PROGRAM_IMAGE + 24)) 0x83FFFFC, stk, u) \<and>
       runs (u\<lparr>esp := kernel_stack (of_nat n)\<rparr>) (of_nat n # ps) \<and>
       bytes_at (mem u) PROGRAM_IMAGE (length content) = content \<and>
       cstr (mem u) (pcb_addr (of_nat n) + PCB_ARG) (glue [] args)" unfolding Let_def by auto
  qed
qed

theorem shell_starts_program_witness:
  defines "s \<equiv> typing [0x19, 0x13, 0x18, 0x22, 0x1C]"
  shows "\<exists>t stk u. shell_turn user_lits 0x8100000 s = Some (Run 0x8100000, t) \<and>
    system_call_handler (call_regs SYS_EXECUTE 0x8100000 0 0) (trap t) =
      Some (Enter (load32 (mem u) (PROGRAM_IMAGE + 24)) 0x83FFFFC, stk, u) \<and>
    runs (u\<lparr>esp := kernel_stack 1\<rparr>) [1, 0] \<and> bytes_at (mem u) PROGRAM_IMAGE 28 = prog_bytes"
proof -
  let ?ks = "[0x19, 0x13, 0x18, 0x22, 0x1C] :: u8 list" and ?q = "''391OS> ''"
  have l: "literals {?q, ''exit''} user_lits (rng 0x8100000 1024) (typing ?ks)"
    by (rule typing_ready(5)) (simp add: user_msgs_def)
  have "list_all printable (lit ''prog'')" by (simp add: printable_def ASCII_MIN_def ASCII_MAX_def)
  then have a: "answer (typing ?ks) ?q = Some (lit ''prog'', tty_putc 0x0A (fold tty_putc (lit ''prog'') (fold tty_putc (lit ?q) (shown user1))), [])"
    unfolding typing_ready(6) typed_prog using edit_plain [of "lit ''prog''" "[]" 128] by simp
  have r: "runs (in_kernel (typing ?ks)) [0]" unfolding typing_def queue_only by (rule user1_runs)
  have ne: "lit ''prog'' \<noteq> lit ''exit''" "lit ''prog'' \<noteq> []" by simp_all
  have len: "length prog_bytes = 28" by (simp add: prog_bytes_def)
  obtain t where t: "shell_turn user_lits 0x8100000 (typing ?ks) = Some (Run 0x8100000, t)"
    and all: "\<forall>ps i args n. lit ''prog'' \<noteq> lit ''exit'' \<and> runs (in_kernel (typing ?ks)) ps \<and>
       exec_ready (in_kernel ((typing ?ks)\<lparr>mem := store_bytes (mem (typing ?ks)) 0x8100000 (lit ''prog'' @ [0])\<rparr>)) 0x8100000 (lit ''prog'') i args n \<longrightarrow>
     (let content = file_content (mem (typing ?ks)) (fs_ptr (typing ?ks)) (unat (dentry_inode (dentry_of (typing ?ks) i))) in
       \<exists>stk u. system_call_handler (call_regs SYS_EXECUTE 0x8100000 0 0) (trap t) =
         Some (Enter (load32 (mem u) (PROGRAM_IMAGE + 24)) 0x83FFFFC, stk, u) \<and>
       runs (u\<lparr>esp := kernel_stack (of_nat n)\<rparr>) (of_nat n # ps) \<and>
       bytes_at (mem u) PROGRAM_IMAGE (length content) = content \<and>
       cstr (mem u) (pcb_addr (of_nat n) + PCB_ARG) (glue [] args))"
    using shell_starts_program [OF typing_ready(1-4) l a] ne by (simp only: if_False) blast
  from all [rule_format, OF conjI, OF ne(1) conjI, OF r typed_line_ready(1)]
  show ?thesis using t unfolding Let_def typed_line_ready(2) len s_def by auto
qed

text \<open>\<open>hello\<close> asks for a name, reads a line and greets with it.\<close>

theorem hello_greets:
  assumes "prog_ok s" "std_in s" "line_room buf 128 s"
    and "literals {''Hi, what's your name? '', ''Hello, ''} lits (rng buf 1024) s"
    and "answer s ''Hi, what's your name? '' = Some (ys, view, rest)"
  shows "\<exists>t. hello_main lits buf s = Some (0, t) \<and> shown t = fold tty_putc (lit ''Hello, '' @ ys) view"
  using hello_greets_line [OF assms] .

theorem hello_greets_witness:
  "\<exists>t. hello_main user_lits 0x8100000 (typing [0x19, 0x13, 0x18, 0x22, 0x1C]) = Some (0, t) \<and>
     shown t = fold tty_putc (lit ''Hello, prog'')
       (tty_putc 0x0A (fold tty_putc (lit ''Hi, what's your name? prog'') (shown user1)))"
proof -
  let ?ks = "[0x19, 0x13, 0x18, 0x22, 0x1C] :: u8 list" and ?q = "''Hi, what's your name? ''"
  have l: "literals {?q, ''Hello, ''} user_lits (rng 0x8100000 1024) (typing ?ks)"
    by (rule typing_ready(5)) (simp add: user_msgs_def)
  have "list_all printable (lit ''prog'')" by (simp add: printable_def ASCII_MIN_def ASCII_MAX_def)
  then have a: "answer (typing ?ks) ?q = Some (lit ''prog'', tty_putc 0x0A (fold tty_putc (lit ''prog'') (fold tty_putc (lit ?q) (shown user1))), [])"
    unfolding typing_ready(6) typed_prog using edit_plain [of "lit ''prog''" "[]" 128] by simp
  from hello_greets [OF typing_ready(1-3) l a] show ?thesis by simp
qed

text \<open>C14. \<open>counter\<close> counts to the 100, 10000 or 100000 that the first character of the line
  chooses, one number to a line in decimal, and exits with 0. It refuses a line of more than two characters, and one of two whose
  first is none of the choices; a single character that is none of them is accepted and counts nothing.\<close>

theorem counter_counts:
  assumes "prog_ok s" "std_in s" "line_room buf 128 s" "buf_ok buf 1024 s"
    and "q = line ''Enter the Test Number: (0): 100, (1): 10000, (2): 100000''"
    and "literals {q, line ''Wrong Choice!'', line []} lits (rng buf 1024) s"
    and "answer s q = Some (ys, view, rest)"
  shows "\<exists>t. counter_main lits buf s = Some (0, t) \<and> shown t = fold tty_putc
    (if 2 < length ys \<or> length ys = 2 \<and> hd ys \<notin> set (lit ''012'') then lit (line ''Wrong Choice!'')
     else count_text 0 (count_limit ys)) view"
  using counter_counts_line [OF assms(1-4) assms(6,7) [unfolded assms(5)]] .

theorem counter_counts_witness:
  "\<exists>t v. counter_main user_lits 0x8100000 (typing [0x0B, 0x1C]) = Some (0, t) \<and> shown t = fold tty_putc (count_text 0 100) v"
proof -
  let ?ks = "[0x0B, 0x1C] :: u8 list" and ?q = "line ''Enter the Test Number: (0): 100, (1): 10000, (2): 100000''"
  have l: "literals {?q, line ''Wrong Choice!'', line []} user_lits (rng 0x8100000 1024) (typing ?ks)"
    by (rule typing_ready(5)) (simp add: user_msgs_def)
  have "list_all printable (lit ''0'')" by (simp add: printable_def ASCII_MIN_def ASCII_MAX_def)
  then have a: "answer (typing ?ks) ?q = Some (lit ''0'', tty_putc 0x0A (fold tty_putc (lit ''0'') (fold tty_putc (lit ?q) (shown user1))), [])"
    unfolding typing_ready(6) typed_zero using edit_plain [of "lit ''0''" "[]" 128] by simp
  have "count_limit (lit ''0'') = 100" "length (lit ''0'') = 1" by (simp_all add: count_limit_def)
  with counter_counts [OF typing_ready(1-4) refl l a] show ?thesis by auto
qed

section \<open>The clock seen from a program\<close>

text \<open>C30. A program cannot wait for the clock: opening the entry of the clock hands out a descriptor whose slot stays
  free (the next \<open>open\<close> hands it out again), so reading, writing and closing it fail at once and change
  nothing.\<close>

theorem clock_unusable:
  fixes s :: "'a kernel_scheme"
  assumes "cstr (mem s) fname name" "fname \<noteq> 0" "name \<noteq> []" "length name < 32"
    and "entry_of (in_kernel s) name = Some d" "filetype d = 0"
    and "free_slot (cur_files (in_kernel s)) 2 = idx" "idx < 8" "files_ok (cur_files (in_kernel s))"
  shows "\<exists>t. ece391_open fname s = Some (of_nat idx, t) \<and> free_slot (cur_files (in_kernel t)) 2 = idx \<and>
    (let still = after_call t 0 [] (cur_files (in_kernel t)) in
     ece391_read (of_nat idx) buf n t = Some (minus_one, still) \<and> ece391_write (of_nat idx) buf n t = Some (minus_one, still) \<and>
     ece391_close (of_nat idx) t = Some (minus_one, still))"
proof -
  obtain t where t: "ece391_open fname s = Some (of_nat idx, t)" "flags (cur_files (in_kernel t) ! idx) = FILE_AVAIL"
    "free_slot (cur_files (in_kernel t)) 2 = idx"
    using clock_open [OF assms] by blast
  have i: "2 \<le> idx" using free_slot_spec(1) [of 2 "cur_files (in_kernel s)"] assms(7) by auto
  show ?thesis
    using t small_fds [OF i assms(8)]
    by (auto simp: ece391_calls resumed_def sys_read_def sys_write_def sys_close_def after_call_def)
qed

theorem clock_unusable_witness:
  "\<exists>t. ece391_open 0x600010 user1 = Some (2, t) \<and> ece391_read 2 0x8100000 4 t = Some (minus_one, after_call t 0 [] (cur_files (in_kernel t)))"
proof -
  have "rng 0x600010 4 \<inter> rng 0x8200000 1408 = {}" "rng 0x600010 4 \<inter> screen_rng = {}"
    unfolding screen_rng_def VIDEO_def by (rule rng_disjointI; simp)+
  moreover have "rng 0x600010 4 \<inter> rng (pcb_addr 0 + PCB_ARG) 5 = {}"
    by (rule rng_disjointI) (simp_all add: pcb_addr_def process_consts PCB_ARG_def)
  ultimately have "mem user1 b = disk_mem b" if "b \<in> rng 0x600010 4" for b using user1_disk that by blast
  then have "mem user1 b = disk_mem b" if "b \<in> rng 0x600010 (Suc (length (lit ''rtc'')))" for b
    using that by (simp add: eval_nat_numeral)
  then have "cstr (mem user1) 0x600010 (lit ''rtc'') = cstr disk_mem 0x600010 (lit ''rtc'')" by (rule cstr_cong)
  then have c: "cstr (mem user1) 0x600010 (lit ''rtc'')" using disk_name(2) by blast
  have e: "entry_of (in_kernel user1) (lit ''rtc'') = Some (dentry_of disk 2)"
    unfolding user1_entry by (simp add: entry_of_def disk_lookup)
  have "filetype (dentry_of disk 2) = 0" by (simp add: disk_dir)
  moreover have "free_slot (cur_files (in_kernel user1)) 2 = 2" by (simp add: disk_slot)
  moreover have "files_ok (cur_files (in_kernel user1))" using disk_files_ok by simp
  ultimately have "\<exists>t. ece391_open 0x600010 user1 = Some (of_nat 2, t) \<and> free_slot (cur_files (in_kernel t)) 2 = 2 \<and>
    (let still = after_call t 0 [] (cur_files (in_kernel t)) in
     ece391_read (of_nat 2) 0x8100000 4 t = Some (minus_one, still) \<and> ece391_write (of_nat 2) 0x8100000 4 t = Some (minus_one, still) \<and>
     ece391_close (of_nat 2) t = Some (minus_one, still))"
    by (intro clock_unusable [OF c _ _ _ e]) simp_all
  then show ?thesis by (auto simp: Let_def)
qed

text \<open>C13. A program that writes through a null pointer stops the whole machine. \<open>sigtest\<close> does so on
  purpose after its question: page 0 is not mapped, the kernel has no handler of a program to call, and the page
  fault ends in the blue screen with interrupts off instead of ending the program.\<close>

theorem sigtest_stops_machine:
  assumes "prog_ok s" "std_in s" "line_room buf 128 s" "buf_ok buf 1024 s"
    and "has_args s p as" "as \<noteq> []" "hd as \<noteq> of_char CHR ''1''" "rng buf 128 \<inter> rng (pcb_addr p + PCB_ARG) 128 = {}"
    and "literals {''Hi, what's your name? ''} lits (rng buf 1024) s"
    and "answer s ''Hi, what's your name? '' = Some (ys, view, rest)"
    and "load32 (mem s) badbuf = 0" "rng badbuf 4 \<inter> (rng buf 1024 \<union> screen_rng) = {}" "translate s 0 = None" "con_layout s"
  shows "\<exists>t u. sigtest_main lits buf badbuf charbuf segv alrm s = Some (Faults, t) \<and> shown t = view \<and>
    page_fault (in_kernel t) = Some u \<and> \<not> interrupts_on u \<and> con_view u =
      fold tty_putc (lit ''Page Fault'') \<lparr>cells = replicate 2000 (SPACE, BLUE_SCREEN_BACKGROUND_ATTRIB), pos = 0\<rparr>"
  by (rule sigtest_faults [OF assms])

theorem sigtest_stops_machine_witness:
  "\<exists>t u. sigtest_main user_lits 0x8100000 0x8300000 0x8300004 0x8048000 0x8048100 (typing [0x19, 0x13, 0x18, 0x22, 0x1C]) =
      Some (Faults, t) \<and> page_fault (in_kernel t) = Some u \<and> \<not> interrupts_on u"
proof -
  let ?ks = "[0x19, 0x13, 0x18, 0x22, 0x1C] :: u8 list" and ?q = "''Hi, what's your name? ''"
  let ?s = "typing ?ks"
  have l: "literals {?q} user_lits (rng 0x8100000 1024) ?s"
    by (rule typing_ready(5)) (simp add: user_msgs_def)
  have "list_all printable (lit ''prog'')" by (simp add: printable_def ASCII_MIN_def ASCII_MAX_def)
  then have a: "answer ?s ?q = Some (lit ''prog'', tty_putc 0x0A (fold tty_putc (lit ''prog'') (fold tty_putc (lit ?q) (shown user1))), [])"
    unfolding typing_ready(6) typed_prog using edit_plain [of "lit ''prog''" "[]" 128] by simp
  have m: "mem ?s = mem user1" "pcbs ?s = pcbs user1" by (simp_all add: typing_def)
  have args: "has_args ?s 0 (lit ''prog'')"
    using user1_args unfolding has_args_def m unfolding typing_def queue_only .
  have d: "rng 0x8100000 128 \<inter> rng (pcb_addr 0 + PCB_ARG) 128 = {}"
    by (rule rng_disjointI(2)) (simp_all add: pcb_addr_def process_consts PCB_ARG_def)
  have b: "rng 0x8300000 4 \<inter> rng 0x8100000 1024 = {}" "rng 0x8300000 4 \<inter> screen_rng = {}"
    "rng 0x8300000 4 \<inter> rng 0x8200000 1408 = {}"
    unfolding screen_rng_def VIDEO_def by (rule rng_disjointI; simp)+
  have "rng 0x8300000 4 \<inter> rng (pcb_addr 0 + PCB_ARG) 5 = {}"
    by (rule rng_disjointI(2)) (simp_all add: pcb_addr_def process_consts PCB_ARG_def)
  with b have "mem ?s x = disk_mem x" if "x \<in> rng 0x8300000 4" for x using user1_disk that unfolding m by blast
  then have "load32 (mem ?s) 0x8300000 = load32 disk_mem 0x8300000" by (rule load32_cong)
  then have z: "load32 (mem ?s) 0x8300000 = 0" by (simp add: load32_def disk_at)
  have "page_directory ?s = page_directory kernel1"
    using keyboard_more_kernel(1) [OF console_more_kernel(1) [OF user1_more]] by (simp add: typing_def)
  then have n: "translate ?s 0 = None" by (simp add: translate_def)
  have "conv_buf_at ?s = 0x700000"
    by (simp add: typing_def user1_def clear_def Let_def kernel1_def filesys.defs disk_def paging.defs bare_def keyboard.defs desk_def)
  then have "conv_rng ?s = rng 0x700000 64" by (simp add: conv_rng_def)
  moreover have "rng 0x700000 64 \<inter> screen_rng = {}" unfolding screen_rng_def VIDEO_def by (rule rng_disjointI; simp)
  ultimately have lay: "con_layout ?s" by (simp add: con_layout_def)
  have p: "lit ''prog'' \<noteq> []" "hd (lit ''prog'') \<noteq> of_char CHR ''1''" by simp_all
  have bb: "rng 0x8300000 4 \<inter> (rng 0x8100000 1024 \<union> screen_rng) = {}" using b by blast
  from sigtest_stops_machine [OF typing_ready(1-4) args p d l a z bb n lay] show ?thesis by blast
qed

section \<open>The animation\<close>

text \<open>C12. \<open>fish\<close> runs to its end and exits with 0, whatever texts the two frames hold: it lays them over each other, character by
  character and line by line, as blinking characters from column 40 on, adds its own in row 6,
  synchronises it with the first character of the frames and takes it away, with 100 ticks
  after each of the four. The list and the screen at the end are those of the same commands on records. It never waits: the
  descriptor of the clock stays free, so the files are opened on it and every wait fails at once.\<close>

theorem fish_plays:
  fixes s :: "'a kernel_scheme"
  assumes "fish_apart sy v" "fish_kernel sy v s" "PAGE_TOP \<le> vmem_base_addr sy" "vmem_base_addr sy \<le> PAGE_BOTTOM"
    and "tlb_pde s = user_pde s" "load32 (mem s) (mp1_list_head sy) = 0"
    and "names_entry sy v s (rtc_name v) d" "filetype d = 0"
    and "frame_file sy v s (file0 v) xs" "frame_file sy v s (file1 v) ys"
    and "flags (cur_files (in_kernel s) ! 2) = FILE_AVAIL" "flags (cur_files (in_kernel s) ! 3) = FILE_AVAIL"
    and "files_ok (cur_files (in_kernel s))" "\<forall>b \<in> set (frame_blinks 0 (Some xs) (Some ys)). location b \<noteq> 0"
  shows "\<exists>t js. fish_main sy v s = Some (0, t) \<and> blink_heap sy (mem t) js \<and>
    (let (bs, m) = fish_stage xs ys ([], mem s) in blinks sy (mem t) js = bs \<and> (\<forall>x \<in> screen_rng. mem t x = m x)) \<and>
    (\<forall>x. x \<notin> fish_area sy v \<longrightarrow> mem t x = mem s x)"
  using fish_runs [OF assms] by (auto simp: stages_def fish_step_def split_beta)

text \<open>The variables of \<open>fish\<close> on the small machine, with the program itself as both frames.\<close>

definition fish_vars1 :: fish_vars where
  "fish_vars1 = \<lparr>rtc_name = 0x600010, file0 = 0x600000, file1 = 0x600000, c0_at = 0x8070000, c1_at = 0x8070001,
     frame_struct = 0x83FFE00, frame_tmp = 0x83FFF00, main_struct = 0x83FFE00, main_tmp = 0x83FFF00,
     ret_val_at = 0x8070010, garbage_at = 0x8070020\<rparr>"

lemma inside_disjoint: "A \<subseteq> B \<Longrightarrow> B \<inter> C = {} \<Longrightarrow> A \<inter> C = {}"
  by blast

lemma fish1_chars: "{0x8070000, 0x8070001} \<subseteq> rng 0x8070000 2"
  by (simp add: mem_rng_iff)

lemma fish1_apart: "fish_apart fish1 fish_vars1"
proof -
  have "rng 0x8070000 2 \<inter> rng 0x8050000 32000 = {}" "rng 0x8070000 2 \<inter> rng 0x8060000 4 = {}" "rng 0x8070000 2 \<inter> rng 0x8060010 4 = {}"
    "rng 0x8070000 2 \<inter> rng VIDEO 4000 = {}" "rng 0x8070000 2 \<inter> rng 0x83FFF00 16 = {}" "rng 0x8070000 2 \<inter> rng 0x83FFE00 16 = {}"
    unfolding VIDEO_def by (rule rng_disjointI; simp)+
  then have "rng 0x8070000 2 \<inter> (fish_own fish1 \<union> screen_rng \<union> rng 0x83FFF00 16 \<union> rng 0x83FFE00 16) = {}"
    unfolding fish_own_def screen_rng_def fish1_def by (simp only: fish_syms.simps Int_Un_distrib Un_empty simp_thms)
  then have c: "{0x8070000, 0x8070001} \<inter> (fish_own fish1 \<union> screen_rng \<union> rng 0x83FFF00 16 \<union> rng 0x83FFE00 16) = {}"
    by (rule inside_disjoint [OF fish1_chars])
  have "rng 0x8070010 4 \<inter> rng 0x8050000 32000 = {}" "rng 0x8070010 4 \<inter> rng 0x8060000 4 = {}" "rng 0x8070010 4 \<inter> rng 0x8060010 4 = {}"
    "rng 0x8070010 4 \<inter> rng VIDEO 4000 = {}"
    unfolding VIDEO_def by (rule rng_disjointI; simp)+
  then have r: "rng 0x8070010 4 \<inter> (fish_own fish1 \<union> screen_rng) = {}"
    unfolding fish_own_def screen_rng_def fish1_def by (simp only: fish_syms.simps Int_Un_distrib Un_empty simp_thms)
  have "(0x8070000 :: u32) \<noteq> 0x8070001" by simp
  with c r fish1_layout fish1_args show ?thesis
    unfolding fish_apart_def fish_vars1_def by (simp only: fish_vars.simps simp_thms)
qed

lemma fish1_area:
  assumes "unat a + n \<le> 0x800000" "rng a n \<inter> screen_rng = {}"
  shows "rng a n \<inter> fish_area fish1 fish_vars1 = {}"
proof -
  have far: "rng a n \<inter> rng b k = {}" if "0x800000 \<le> unat b" "unat b + k \<le> 2 ^ 32" for b k
    using assms(1) that by (intro rng_disjointI) auto
  have "rng a n \<inter> rng 0x8050000 32000 = {}" "rng a n \<inter> rng 0x8060000 4 = {}" "rng a n \<inter> rng 0x8060010 4 = {}"
    "rng a n \<inter> rng 0x83FFE00 16 = {}" "rng a n \<inter> rng 0x83FFF00 16 = {}" "rng a n \<inter> rng 0x8070010 4 = {}"
    by (rule far; simp)+
  moreover have "rng 0x8070000 2 \<inter> rng a n = {}" unfolding Int_commute [of "rng 0x8070000 2"] by (rule far; simp)
  then have "rng a n \<inter> {0x8070000, 0x8070001} = {}"
    unfolding Int_commute [of "rng a n"] by (rule inside_disjoint [OF fish1_chars])
  ultimately show ?thesis
    using assms(2) unfolding fish_area_def fish_own_def fish1_def fish_vars1_def
    by (simp only: fish_syms.simps fish_vars.simps Int_Un_distrib Un_empty simp_thms)
qed

lemma fish1_kernel: "fish_kernel fish1 fish_vars1 user1"
proof -
  have "rng 0x500000 12288 \<inter> screen_rng = {}" unfolding screen_rng_def VIDEO_def by (rule rng_disjointI; simp)
  then have "rng 0x500000 12288 \<inter> fish_area fish1 fish_vars1 = {}" by (intro fish1_area) simp_all
  moreover have "img_rng (mem user1) 0x500000 = rng 0x500000 12288"
    using img_same [OF user1_agree] by (simp add: img_rng_def img_size_def disk_img)
  moreover have "length (init_file_array blank_slot) = 8" using disk_files_ok by (simp add: files_ok_def)
  ultimately show ?thesis using user1_ok by (simp add: fish_kernel_def prog_ok_def blank_flags)
qed

lemma user1_names:
  "cstr (mem user1) 0x600000 (lit ''prog'')" "cstr (mem user1) 0x600010 (lit ''rtc'')"
  "rng 0x600000 32 \<inter> fish_area fish1 fish_vars1 = {}" "load32 (mem user1) 0x8060000 = 0"
proof -
  have d: "rng 0x600000 32 \<inter> rng 0x8200000 1408 = {}" "rng 0x600000 32 \<inter> screen_rng = {}"
    "rng 0x8060000 4 \<inter> rng 0x8200000 1408 = {}" "rng 0x8060000 4 \<inter> screen_rng = {}"
    unfolding screen_rng_def VIDEO_def by (rule rng_disjointI; simp)+
  have p: "rng 0x600000 32 \<inter> rng (pcb_addr 0 + PCB_ARG) 5 = {}" "rng 0x8060000 4 \<inter> rng (pcb_addr 0 + PCB_ARG) 5 = {}"
    by (rule rng_disjointI rng_disjointI(2); simp add: pcb_addr_def process_consts PCB_ARG_def)+
  have m: "mem user1 b = disk_mem b" if "b \<in> rng 0x600000 32" for b using user1_disk [OF d(1,2) p(1) that] .
  have sub: "rng 0x600000 5 \<subseteq> rng 0x600000 32" "rng 0x600010 4 \<subseteq> rng 0x600000 32"
    using rng_mono [of 5 32 "0x600000"] rng_shift [of 16 4 32 "0x600000"] by simp_all
  have "cstr (mem user1) 0x600000 (lit ''prog'') = cstr disk_mem 0x600000 (lit ''prog'')"
    by (rule cstr_cong) (use m sub(1) in \<open>auto simp: eval_nat_numeral\<close>)
  then show "cstr (mem user1) 0x600000 (lit ''prog'')" using disk_name(1) by blast
  have "cstr (mem user1) 0x600010 (lit ''rtc'') = cstr disk_mem 0x600010 (lit ''rtc'')"
    by (rule cstr_cong) (use m sub(2) in \<open>auto simp: eval_nat_numeral\<close>)
  then show "cstr (mem user1) 0x600010 (lit ''rtc'')" using disk_name(2) by blast
  show "rng 0x600000 32 \<inter> fish_area fish1 fish_vars1 = {}" by (rule fish1_area [OF _ d(2)]) simp
  have "load32 (mem user1) 0x8060000 = load32 disk_mem 0x8060000" by (rule load32_cong) (rule user1_disk [OF d(3,4) p(2)])
  then show "load32 (mem user1) 0x8060000 = 0" by (simp add: load32_def disk_at)
qed

lemma fish1_frames:
  "names_entry fish1 fish_vars1 user1 0x600010 (dentry_of disk 2)" "frame_file fish1 fish_vars1 user1 0x600000 prog_bytes"
proof -
  have r: "rng 0x600000 (Suc (length (lit ''prog''))) \<subseteq> rng 0x600000 32" "rng 0x600010 (Suc (length (lit ''rtc''))) \<subseteq> rng 0x600000 32"
    using rng_mono [of 5 32 "0x600000"] rng_shift [of 16 4 32 "0x600000"] by (simp_all add: eval_nat_numeral)
  have e: "entry_of (in_kernel user1) (lit ''rtc'') = Some (dentry_of disk 2)"
    "entry_of (in_kernel user1) (lit ''prog'') = Some (dentry_of disk 1)"
    unfolding user1_entry by (simp_all add: entry_of_def disk_lookup)
  show "names_entry fish1 fish_vars1 user1 0x600010 (dentry_of disk 2)"
    unfolding names_entry_def
    by (rule exI [of _ "lit ''rtc''"]) (use user1_names(2,3) r(2) e(1) in auto)
  have p: "names_entry fish1 fish_vars1 user1 0x600000 (dentry_of disk 1)"
    unfolding names_entry_def
    by (rule exI [of _ "lit ''prog''"]) (use user1_names(1,3) r(1) e(2) in auto)
  have "img_inodes (mem user1) 0x500000 = 1" using img_same(1) [OF user1_agree] by (simp add: disk_img)
  moreover have "file_content (mem user1) 0x500000 0 = prog_bytes"
    using img_slice_same [OF user1_agree disk_img_ok, of 0 0 28] img_same(3) [OF user1_agree, of 0] disk_file
    by (simp add: file_content_def disk_img)
  ultimately show "frame_file fish1 fish_vars1 user1 0x600000 prog_bytes"
    using p unfolding frame_file_def by (intro exI [of _ "dentry_of disk 1"]) (simp add: disk_dir del: One_nat_def)
qed

lemma user1_tlb: "tlb_pde user1 = user_pde user1"
  using user1_runs by (simp add: runs_def in_kernel_def user_pde_def)

theorem fish_plays_witness:
  "\<exists>t js. fish_main fish1 fish_vars1 user1 = Some (0, t) \<and> blink_heap fish1 (mem t) js"
proof -
  have "\<forall>b \<in> set (frame_blinks 0 (Some prog_bytes) (Some prog_bytes)). location b \<noteq> 0"
    by (simp add: prog_bytes_def frame_blinks.simps row_blinks.simps first_line_def next_lines_def frame_blink_def Let_def)
  moreover have "PAGE_TOP \<le> vmem_base_addr fish1" "vmem_base_addr fish1 \<le> PAGE_BOTTOM"
    by (simp_all add: PAGE_TOP_def PAGE_BOTTOM_def fish1_def)
  moreover have "load32 (mem user1) (mp1_list_head fish1) = 0" using user1_names(4) by (simp add: fish1_def)
  moreover have "flags (cur_files (in_kernel user1) ! 2) = FILE_AVAIL" "flags (cur_files (in_kernel user1) ! 3) = FILE_AVAIL"
    by (simp_all add: init_files_nth blank_slot_def)
  moreover have "filetype (dentry_of disk 2) = 0" by (simp add: disk_dir)
  moreover have "files_ok (cur_files (in_kernel user1))" using disk_files_ok by simp
  moreover have "names_entry fish1 fish_vars1 user1 (rtc_name fish_vars1) (dentry_of disk 2)"
    "frame_file fish1 fish_vars1 user1 (file0 fish_vars1) prog_bytes" "frame_file fish1 fish_vars1 user1 (file1 fish_vars1) prog_bytes"
    using fish1_frames by (simp_all add: fish_vars1_def)
  ultimately show ?thesis
    using fish_plays [OF fish1_apart fish1_kernel _ _ user1_tlb] by meson
qed

section \<open>The arguments under Linux\<close>

text \<open>C36. \<open>getargs\<close> of the kernel and the emulated one, for a program whose words Linux handed over and the kernel
  joined: with arguments, and a buffer longer than they are, both give 0 and store the same bytes with their NUL.
  They differ in two cases: without arguments the kernel gives -1 and the emulation 0, and a buffer of exactly as
  many bytes as the arguments have characters is taken by the kernel, which writes behind it, and refused by the
  emulation.\<close>

theorem emulated_getargs_agrees:
  assumes "has_args s p (glue [] args)" "\<forall>w \<in> set args. w \<noteq> []"
    and "buf \<noteq> 0" "rng buf 128 \<inter> rng (pcb_addr p + PCB_ARG) 128 = {}" "N < 2 ^ 30"
    and "load32 (emem u) (start_esp u) = of_nat (Suc (length args))" "args_at R (emem u) (start_esp u + 4) 1 args"
    and "R \<inter> rng buf (Suc N) = {}" and "text = glue [] args"
  shows "\<exists>t v. ece391_getargs buf (of_nat N) s = Some (if args = [] \<or> N < length text then minus_one else 0, t) \<and>
    ece391_getargs_emu buf (of_nat N) u = Some (if length text < N then 0 else minus_one, v) \<and>
    (args \<noteq> [] \<and> length text \<le> N \<longrightarrow> bytes_at (mem t) buf (Suc (length text)) = text @ [0]) \<and>
    (length text < N \<longrightarrow> bytes_at (emem v) buf (Suc (length text)) = text @ [0])"
proof -
  have short: "length text < 128" using assms(1) by (simp add: has_args_def assms(9))
  have none: "text = [] \<longleftrightarrow> args = []"
    using length_joined [OF assms(2)] unfolding assms(9) glue_is_joined [OF assms(2)] by auto
  have N: "sint (of_nat N :: u32) = int N" using assms(5) by (simp add: sint_of_nat)
  from getargs_answers [OF assms(1,3,4), of "of_nat N"] obtain t where
    t: "ece391_getargs buf (of_nat N) s = Some (if args = [] \<or> N < length text then minus_one else 0, t)"
      "args \<noteq> [] \<and> length text \<le> N \<longrightarrow> bytes_at (mem t) buf (Suc (length text)) = text @ [0]"
    unfolding assms(9) [symmetric] N none of_nat_less_iff of_nat_le_iff by blast
  from getargs_emu_glued [OF assms(6,7,2,8) _ assms(5)] short obtain v where
    v: "ece391_getargs_emu buf (of_nat N) u = Some (if length text < N then 0 else minus_one, v)"
      "length text < N \<longrightarrow> bytes_at (emem v) buf (Suc (length text)) = text @ [0]"
    unfolding assms(9) by blast
  show ?thesis using t v by blast
qed

theorem emulated_getargs_agrees_witness:
  defines "u \<equiv> emulation1\<lparr>emem := store_bytes (store32 (store32 (\<lambda>_. 0) 0x4000 2) 0x4008 0x5000) 0x5000 (lit ''prog'' @ [0]), start_esp := 0x4000\<rparr>"
  shows "\<exists>t v. ece391_getargs 0x8100000 128 user1 = Some (0, t) \<and> ece391_getargs_emu 0x8100000 128 u = Some (0, v) \<and>
    bytes_at (mem t) 0x8100000 5 = lit ''prog'' @ [0] \<and> bytes_at (emem v) 0x8100000 5 = lit ''prog'' @ [0]"
proof -
  let ?R = "rng 0x4000 0x2000"
  have a: "rng 0x8100000 128 \<inter> rng (pcb_addr 0 + PCB_ARG) 128 = {}" "?R \<inter> rng 0x8100000 (Suc 128) = {}"
    unfolding pcb_addr_def process_consts PCB_ARG_def by (rule rng_disjointI; simp)+
  have "load32 (emem u) (start_esp u) = of_nat (Suc (length [lit ''prog'']))" "load32 (emem u) 0x4008 = 0x5000"
    by (simp_all add: u_def store32_def load32_def)
  moreover have "rng 0x4008 4 \<subseteq> ?R" "rng 0x5000 (Suc (length (lit ''prog''))) \<subseteq> ?R"
    using rng_shift [of 8 4 "0x2000" "0x4000"] rng_shift [of "0x1000" "Suc (length (lit ''prog''))" "0x2000" "0x4000"] by simp_all
  moreover have "cstr (store_bytes m 0x5000 (lit ''prog'' @ [0])) 0x5000 (lit ''prog'')" for m by (rule cstr_store_same) simp_all
  then have "cstr (emem u) 0x5000 (lit ''prog'')" by (simp add: u_def del: cstr.simps store_bytes.simps)
  ultimately have at: "load32 (emem u) (start_esp u) = of_nat (Suc (length [lit ''prog'']))"
      "args_at ?R (emem u) (start_esp u + 4) 1 [lit ''prog'']"
    by (simp_all add: u_def del: cstr.simps)
  have g: "lit ''prog'' = glue [] [lit ''prog'']" "length (lit ''prog'' :: u8 list) = 4" "Suc 4 = 5" by simp_all
  have "has_args user1 0 (glue [] [lit ''prog''])" using user1_args by simp
  from emulated_getargs_agrees [OF this _ _ a(1) _ at a(2) g(1), unfolded g(2,3)]
  show ?thesis by (simp del: bytes_at.simps)
qed

section \<open>The library of the programs\<close>

text \<open>C35. Of the library the programs are linked with and that of the kernel, lengths, copies, reversals and digits
  are equal, for every memory, digit tables included. The bounded comparisons find the same first pair of
  different bytes, none behind a NUL, and give 0 without one; with one the library of the programs gives the
  difference of the bytes as unsigned numbers and the kernel as signed ones, so that the signs of the results may
  differ when a byte is 128 or more.\<close>

theorem user_library_agrees:
  "ece391_strlen m a = strlen m a \<and> ece391_strcpy m a b = strcpy m a b \<and> ece391_strrev m a = strrev m a \<and>
   ece391_itoa m v a r = itoa m v a r \<and>
   (case first_diff (bytes_at m a (unat n)) (bytes_at m b (unat n)) of
      None \<Rightarrow> ece391_strncmp m a b n = Some 0 \<and> strncmp m a b n = 0
    | Some (x, y) \<Rightarrow> ece391_strncmp m a b n = Some (ucast x - ucast y) \<and> strncmp m a b n = scast x - scast y)"
  by (simp add: ece391_strlen_eq ece391_strcpy_eq ece391_strrev_eq ece391_itoa_eq ece391_strncmp_diff strncmp_diff
      split: option.split)

text \<open>A pair of bytes on which the two comparisons disagree in sign.\<close>

theorem comparisons_disagree:
  assumes "m a = 0x80" "m b = 1"
  shows "ece391_strncmp m a b 1 = Some 127 \<and> strncmp m a b 1 = - 129"
  using assms by (simp add: ece391_strncmp_diff strncmp_diff)

theorem comparisons_disagree_witness:
  "ece391_strncmp (\<lambda>x. if x = 0 then 0x80 else 1) 0 1 1 = Some 127 \<and> strncmp (\<lambda>x. if x = 0 then 0x80 else 1) 0 1 1 = - 129"
  by (rule comparisons_disagree) simp_all

text \<open>\<open>ece391_strcmp\<close> of two strings ends, with 0 exactly when they are equal and with a negative value exactly
  when the first comes before the second in the order of their unsigned bytes.\<close>

theorem strcmp_orders:
  assumes "cstr m a xs" "cstr m b ys"
  shows "\<exists>v. ece391_strcmp m a b = Some v \<and> (v = 0) = (xs = ys) \<and> (v <s 0) = ord_class.lexordp xs ys"
  using ece391_strcmp_cstr [OF assms] by blast

theorem strcmp_orders_witness:
  "\<exists>v. ece391_strcmp disk_mem 0x600000 0x600010 = Some v \<and> v <s 0 \<and> v \<noteq> 0"
proof -
  have "ord_class.lexordp (lit ''prog'') (lit ''rtc'')" by simp
  with strcmp_orders [OF disk_name(1,2)] show ?thesis by auto
qed

end
