(* ===== verification/Spec2Isabelle.thy ===== *)
theory Spec2Isabelle
  imports Boot Userland
begin

text \<open>
  A verification library for the kernel of CheetOS, a small 32-bit x86 teaching system: text console,
  keyboard, real-time clock, 8259 interrupt controllers, paging, a read-only file system, up to six
  user programs started and left through system calls. The code is under
  \<^verbatim>\<open>src/student-distrib/\<close>; files of the kernel are named relative to it.

  The parts and how they interact. \<^verbatim>\<open>kernel.c\<close> reads what the boot loader left, fills the descriptor
  tables, initialises the devices and the file system and then starts the shell with \<open>execute\<close> for
  ever. Programs enter the kernel through the system call gate (\<^verbatim>\<open>interr.S\<close>), whose jump table leads
  to \<^verbatim>\<open>syscalls.c\<close>; that keeps the process table and the process control blocks (\<^verbatim>\<open>pcb.h\<close>), moves the
  program window with \<^verbatim>\<open>paging.c\<close>, reads programs with \<^verbatim>\<open>filesys.c\<close>, and calls the terminal, clock
  and file drivers through the table of operations of a descriptor. Interrupts of the keyboard and
  the clock change the variables \<open>getchar\<close> and \<open>rtc_read\<close> wait for. All of it uses \<^verbatim>\<open>lib.c\<close>.

  The theories, and the code each models.

    \<^item> Machine: the state every part shares (memory by bytes, the trace of port accesses with the
      input queued at each port, the flags), \<open>outb\<close>, \<open>inb\<close> and the wider accesses, \<open>cli\<close>, \<open>sti\<close> and
      the saved flags of \<^verbatim>\<open>lib.h\<close>; ranges of addresses, strings in memory, 32-bit loads and stores.
    \<^item> Clib: the string and memory half of \<^verbatim>\<open>lib.c\<close>, its inline assembly included.
    \<^item> Console: the screen half of \<^verbatim>\<open>lib.c\<close>: \<open>putc\<close>, \<open>puts\<close>, \<open>printf\<close>, \<open>clear\<close>, \<open>blue_screen\<close>.
    \<^item> Pic: \<^verbatim>\<open>i8259.c\<close>, with the state of the two chips read off the trace.
    \<^item> Rtc: \<^verbatim>\<open>rtc.c\<close> and its wrapper in \<^verbatim>\<open>interr.S\<close>.
    \<^item> Keyboard: \<^verbatim>\<open>keyboard.c\<close> and its wrapper: scan codes, \<open>getchar\<close>, \<open>getline\<close>.
    \<^item> Terminal: \<^verbatim>\<open>terminal.c\<close>.
    \<^item> Paging: \<^verbatim>\<open>paging.c\<close>, with the page walk of the processor and the frames of the programs.
    \<^item> Filesys: \<^verbatim>\<open>filesys.c\<close> and the records of \<^verbatim>\<open>pcb.h\<close>; Disk: its properties, on a small image.
    \<^item> Process: \<^verbatim>\<open>syscalls.c\<close>, with \<open>context_switch\<close> and \<open>return_to_execute\<close> of \<^verbatim>\<open>interr.S\<close>;
      Commands: what \<open>execute\<close> makes of a command line, and the properties of the process layer;
      Confine: which bytes of memory each call can write when its pointers lie in the program window.
    \<^item> Idt: \<^verbatim>\<open>idt.c\<close> and the gates of \<^verbatim>\<open>x86_desc.h\<close>.
    \<^item> Dispatch: \<open>system_call_handler\<close> of \<^verbatim>\<open>interr.S\<close>, and the machine of programs and kernel as a
      step relation, with the calls it is about (\<open>pointers_ok\<close>, \<open>exec_safe\<close>).
    \<^item> Boot: \<^verbatim>\<open>kernel.c\<close>, \<^verbatim>\<open>multiboot.h\<close> and the segment descriptors of \<^verbatim>\<open>x86_desc.h\<close>.

  The programs, under \<^verbatim>\<open>src/syscalls/\<close> and \<^verbatim>\<open>src/fish/\<close>, run on the modelled kernel.

    \<^item> Ulib: \<^verbatim>\<open>ece391support.c\<close>, and the wrappers of \<^verbatim>\<open>ece391syscall.S\<close> as runs of the handler of the
      kernel that come back; Usercalls: what one call does for a program (getargs, open, read, write,
      close, a line from the keyboard, the clock).
    \<^item> Programs: \<^verbatim>\<open>ece391cat.c\<close>, \<^verbatim>\<open>ece391ls.c\<close>, \<^verbatim>\<open>ece391grep.c\<close>, \<^verbatim>\<open>ece391hello.c\<close>,
      \<^verbatim>\<open>ece391testprint.c\<close>, \<^verbatim>\<open>ece391counter.c\<close>, \<^verbatim>\<open>ece391shell.c\<close>, \<^verbatim>\<open>ece391pingpong.c\<close>;
      Interactive: what those that read the keyboard do; Sigtest: \<^verbatim>\<open>ece391sigtest.c\<close>;
      Syserr: \<^verbatim>\<open>ece391syserr.c\<close>.
    \<^item> Blink: \<^verbatim>\<open>blink.S\<close> and the allocator of \<^verbatim>\<open>fish.c\<close>; Blinklist: that they implement a list of
      records; Fish: the frames and the main function of \<^verbatim>\<open>fish.c\<close>; Fishrun: its run.
    \<^item> Emulate: \<^verbatim>\<open>ece391emulate.c\<close>, which lets the programs run under Linux; what Linux does is a
      parameter (\<open>linux\<close>), and arguments and command lines come out as in the kernel.
    \<^item> Userland: the properties of the programs, on a machine with a small disk.

  Names. A definition has the name of the C function, macro or type it translates; the system calls
  \<open>open\<close>, \<open>close\<close>, \<open>read\<close>, \<open>write\<close> are \<open>sys_open\<close> and so on. A loop of a function \<open>f\<close> is
  \<open>f_loop\<close> or named for what it does, and a long function is cut into the stages its comments name
  (\<open>exec_check\<close>, \<open>exec_args\<close>, \<open>exec_load\<close>, \<open>exec_enter\<close> for \<open>execute\<close>).

  State. The states extend one another as the includes do: \<open>machine\<close>, \<open>console\<close>, \<open>pic\<close>, \<open>rtc\<close>,
  \<open>keyboard\<close>, \<open>paging\<close>, \<open>filesys\<close>, \<open>kernel\<close>, \<open>boot\<close>. Every operation is written over the
  extensible record of its layer, so an upper layer calls it as it is. Addresses the linker or the
  compiler chooses (page tables, local buffers, handlers) are fields or parameters. Integers are
  words of their width; signed comparisons of the code are signed comparisons of words.

  Loops and errors. A loop whose end depends on memory or on devices is a \<^theory_text>\<open>partial_function\<close> into
  \<^typ>\<open>'a option\<close>, and \<^const>\<open>None\<close> is a call that never returns (or runs off a format string);
  the other loops are total, with their measures. Waiting is modelled by what is to come: \<open>inq\<close>
  holds the scan codes still to arrive, \<open>arrivals\<close> says at which turns of a waiting loop the clock
  ticks. No fuel is used. Error returns are the values the code returns.

  What the lemmas show.

    \<^item> Routines against references: memory functions copy, \<open>itoa\<close> and positional notation are inverse,
      \<open>printf\<close> renders, \<open>getline\<close> edits, \<open>read_data\<close> reads the file of the inode.
    \<^item> Abstract machines: the console implements \<open>tty\<close>; the kernel with its stacks implements a
      stack of programs with their registers (\<open>shows_progs\<close>, a forward simulation).
    \<^item> Invariants: \<open>con_good\<close> of the console, \<open>files_ok\<close> of a descriptor table, \<open>runs\<close> of the
      process layer, which every system call keeps.
    \<^item> Reach of the calls: with pointers in the program window a call writes the window, the screen and
      the kernel's own arrays only (\<open>wrote\<close>, \<open>laid_out\<close>), never the file system, the other fields of a
      block, a stack or a table.
    \<^item> Programs: what each shows on the screen and its exit status, through every call it makes, on
      the abstract screen \<open>tty\<close> and the abstract contents of the files; the linked list of \<open>fish\<close>
      against a list of records (\<open>ioctl_spec\<close>), with the list in memory as a relation (\<open>chain\<close>).
    \<^item> The whole: \<open>entry\<close> establishes what the process layer relies on, comes up with the image the
      loader left, and from there every configuration shows a stack of at most six programs, each in
      its own frame. Those two theorems close this theory.

  Interfaces. \<open>byte_sink\<close> (what a client of a character output relies on, interpreted by \<open>putc\<close>),
  \<open>frame_switch\<close> (what switching the program window promises, interpreted by \<open>map_user\<close>) and
  \<open>sequential_reader\<close> (what reading piece by piece relies on, interpreted by the reads of a file
  descriptor) are locales; the clients' lemmas are proved in them.

  Abstractions. The process control blocks (but for the argument string), the table \<open>pid_array\<close>, the page
  directory and tables, the saved frames and the return addresses on the kernel stacks are fields of the
  state, beside the byte memory \<open>mem\<close>: no pointer of the model reaches them. In the code they are memory,
  and the calls check no pointer (\<^verbatim>\<open>syscalls.c\<close>: only \<open>vidmap\<close> does), so a program that reads a file
  to the address of a block, or a command with more than 127 bytes of arguments, overwrites them. The
  theorems on the machine are therefore about calls whose pointers lie in the program window and about
  commands whose arguments and file have room (\<open>pointers_ok\<close>, \<open>exec_safe\<close>); after any other call the step
  relation allows every state (\<open>Wild\<close>). That the separation costs nothing for the rest is what Confine
  proves: no byte outside the window, the screen, the named arrays and the argument strings changes, so
  none of the memory those fields stand for. The local arrays of \<open>execute\<close> and \<open>printf\<close> have addresses of
  their own, apart from the rest (\<open>laid_out\<close>); the direction flag, which \<open>memmove\<close> leaves set, and the depth
  of the kernel stacks are not part of the state.

  The translation of an access to the program window is not applied at every memory
  access: the memory is the one the current directory shows, and reloading CR3 exchanges the window
  with the frame of the new entry; the page walk itself is \<open>translate\<close>. A program computes by
  changing its window and its registers in any way. The registers of a program wait in the words its
  system call pushed; the rest of a kernel stack is represented by the stack pointer. The interrupts
  of a program are whole runs of the handlers.

  Programs as functions. A program of \<^verbatim>\<open>src/syscalls/\<close> is a function of the state of the machine while it
  runs; the addresses of its literals and local buffers are parameters, since the compiler chooses
  them, and \<open>literals\<close> says that the literals are in memory. An \<open>execute\<close> that starts another program
  does not come back within the function: the shell takes what it comes back with as a parameter.

  Not modelled. \<^verbatim>\<open>boot.S\<close> runs before there is a kernel state; its effect is the initial state the
  theorems on \<open>entry\<close> assume. \<^verbatim>\<open>tests.c\<close> is test code that nothing calls but \<open>launch_tests\<close>, which
  is modelled. \<^verbatim>\<open>debug.h\<close> and \<^verbatim>\<open>systemcall.h\<close> are unused. \<open>trap_handler\<close> and \<open>do_execute\<close> of
  \<^verbatim>\<open>interr.S\<close> are used nowhere. The host tools (\<^verbatim>\<open>createfs\<close>, \<^verbatim>\<open>elfconvert\<close>) are binaries.
\<close>

section \<open>The system from power-on\<close>

lemma boot0_program:
  obtains t u r where "entry linked_at MULTIBOOT_BOOTLOADER_MAGIC 0x10000 boot0 = Some (True, t)"
    "step 0x600020 Start (t, \<lambda>_. [], Boot) (u, \<lambda>_. [], User r)" "laid_out t []"
    "0x501000 \<in> img_rng (mem t) (fs_ptr t)"
proof -
  obtain t u where tu: "entry linked_at MULTIBOOT_BOOTLOADER_MAGIC 0x10000 boot0 = Some (True, t)"
    "execute 0x600020 t = Some (Enter (load32 (mem u) (PROGRAM_IMAGE + 24)) 0x83FFFFC, u)"
    "exec_safe t 0x600020 (lit ''prog  hi you'')" "still boot0 t" "fs_ptr t = 0x500000"
    "exec_filename_at t = exec_filename_at boot0" "exec_buffer_at t = exec_buffer_at boot0"
    by (rule boot_starts [OF boot0_info boot0_last [symmetric] boot0_fields(2,3,6) boot0_ready(1,2)])
  let ?r = "(caller 0 0)\<lparr>r_eip := load32 (mem u) (PROGRAM_IMAGE + 24), r_esp := 0x83FFFFC\<rparr>"
  have "leave (Enter (load32 (mem u) (PROGRAM_IMAGE + 24)) 0x83FFFFC) u (\<lambda>_. []) (u, \<lambda>_. [], User ?r)"
    by (rule leave_enter) simp_all
  with tu(3,2) have "step 0x600020 Start (t, \<lambda>_. [], Boot) (u, \<lambda>_. [], User ?r)" by (rule step_boot)
  with that tu(1) boot0_laid_out [OF tu(4-7)] show thesis by blast
qed

text \<open>C5. From power-on to the first program: when the command that \<open>entry\<close> starts names a program of
  the image that the loader left as the last module, \<open>entry\<close> comes up and its first \<open>execute\<close> enters
  that program as process 0, with its file at the load address, at the entry point of the
  file and with the stack at the top of the window.\<close>

theorem boot_starts_program:
  fixes s :: "'a boot_scheme"
  assumes "info_ok a m k s" "fs = last_module a m s"
    and "pid_array s = replicate 6 PROG_NOT_ACTIVE" "curr_process s = 0" "esp s AND NOT PCB_MASK = BOOT_STACK"
    and "exec_ready (s\<lparr>fs_ptr := fs\<rparr>) shell xs i args n"
    and "safe s (img_rng (mem s) fs \<union> rng shell (Suc (length xs)))"
    and "content = file_content (mem s) fs (unat (dentry_inode (dentry_of (s\<lparr>fs_ptr := fs\<rparr>) i)))"
  shows "\<exists>t u. entry syms MULTIBOOT_BOOTLOADER_MAGIC a s = Some (True, t) \<and>
    bytes_at (mem u) PROGRAM_IMAGE (length content) = content \<and>
    (\<forall>r. r_eip r = load32 (mem u) (PROGRAM_IMAGE + 24) \<and> r_esp r = 0x83FFFFC \<longrightarrow>
      step shell Start (t, kstk, Boot) (u, kstk, User r) \<and> shows_progs (u, kstk, User r) [(0, r)])"
proof -
  obtain t u where t: "entry syms MULTIBOOT_BOOTLOADER_MAGIC a s = Some (True, t)" "runs t []" "pid_array t = pid_array s"
    and e: "execute shell t = Some (Enter (load32 (mem u) (PROGRAM_IMAGE + 24)) 0x83FFFFC, u)"
    and c: "bytes_at (mem u) PROGRAM_IMAGE (length content) = content" and safe: "exec_safe t shell xs"
    unfolding assms(8) by (rule boot_starts [OF assms(1-7)])
  have "free_pids t = {..<6}" by (auto simp: free_pids_def t(3) assms(3))
  moreover have "Min {..<6 :: nat} = 0" by (rule Min_eqI) simp_all
  ultimately have "runs (u\<lparr>esp := kernel_stack 0\<rparr>) [0]" using execute_pushes [OF t(2) e] by auto
  moreover from this have "tss_esp0 u = kernel_stack 0" by (simp add: runs_def top_pid_def)
  ultimately have "shows_progs (u, kstk, User r) [(0, r)]" for r by simp
  moreover have "step shell Start (t, kstk, Boot) (u, kstk, User r)"
    if "r_eip r = load32 (mem u) (PROGRAM_IMAGE + 24)" "r_esp r = 0x83FFFFC" for r
    by (rule step_boot [OF safe e leave_enter [OF that]])
  ultimately show ?thesis using t(1) c by blast
qed

theorem boot_starts_program_witness:
  "\<exists>t u. entry linked_at MULTIBOOT_BOOTLOADER_MAGIC 0x10000 boot0 = Some (True, t) \<and>
    bytes_at (mem u) PROGRAM_IMAGE 28 = prog_bytes \<and>
    (\<forall>r. r_eip r = load32 (mem u) (PROGRAM_IMAGE + 24) \<and> r_esp r = 0x83FFFFC \<longrightarrow>
      step 0x600020 Start (t, \<lambda>_. [], Boot) (u, \<lambda>_. [], User r) \<and> shows_progs (u, \<lambda>_. [], User r) [(0, r)])"
proof -
  have content: "prog_bytes = file_content (mem boot0) 0x500000 (unat (dentry_inode (dentry_of (boot0\<lparr>fs_ptr := 0x500000\<rparr>) 1)))"
    using boot0_ready(3) by (simp del: One_nat_def)
  have "length prog_bytes = 28" by (simp add: prog_bytes_def)
  with boot_starts_program [OF boot0_info boot0_last [symmetric] boot0_fields(2,3,6) boot0_ready(1,2) content,
      of linked_at "\<lambda>_. []"]
  show ?thesis by (simp only:)
qed

text \<open>C2. The whole machine, from power-on, as long as programs pass pointers into their window: whenever a
  program runs, the process table, the address space and the kernel stacks stand for a stack of at
  most six programs with it on top; every address of its window translates to its own frame, with
  user access, and that frame is none of the frames of the programs that wait below it. In a kernel
  whose arrays lie apart from its file system and from what programs write, they stay so, the
  arguments of every program remain a string in its block, and the file system is never changed.\<close>

theorem booted_machine:
  assumes "entry syms magic a s = Some (True, b)"
    and "pid_array s = replicate 6 PROG_NOT_ACTIVE" "curr_process s = 0" "esp s AND NOT PCB_MASK = BOOT_STACK"
    and "reachable shell (b, kstk0, Boot) (t, kstk, User r)"
  shows "\<exists>p rest. shows_progs (t, kstk, User r) ((p, r) # rest) \<and> pid_ok p \<and> curr_process t = p \<and> length rest < 6 \<and>
    (\<forall>va. in_window va \<longrightarrow> translate t va = Some (user_frame p OR (va AND 0x3FFFFF), True)) \<and>
    (\<forall>q \<in> set (map fst rest). user_frame q \<noteq> user_frame p) \<and>
    (laid_out b [] \<longrightarrow> laid_out t (p # map fst rest) \<and> fs_ptr t = fs_ptr b \<and> img_agree (mem b) (fs_ptr b) (mem t))"
proof -
  obtain st where st: "shows_progs (t, kstk, User r) st"
    and lay: "laid_out b [] \<longrightarrow> laid_out t (map fst st) \<and> fs_ptr t = fs_ptr b \<and> img_agree (mem b) (fs_ptr b) (mem t)"
    using reachable_shows [OF assms(5) entry_runs(1) [OF assms(1-4)]] by auto
  obtain p rest where p: "st = (p, r) # rest" "pid_ok p" "curr_process t = p" "length rest < 6"
    "\<forall>va. in_window va \<longrightarrow> translate t va = Some (user_frame p OR (va AND 0x3FFFFF), True)"
    "\<forall>q \<in> set (map fst rest). user_frame q \<noteq> user_frame p" by (rule running_program [OF st]) blast
  have "map fst st = p # map fst rest" by (simp add: p(1))
  with st lay p show ?thesis by (intro exI [of _ p] exI [of _ rest]) simp
qed

theorem booted_machine_witness:
  "\<exists>t u r p. entry linked_at MULTIBOOT_BOOTLOADER_MAGIC 0x10000 boot0 = Some (True, t) \<and>
    reachable 0x600020 (t, \<lambda>_. [], Boot) (u, \<lambda>_. [], User r) \<and> curr_process u = p \<and>
    translate u 0x8048000 = Some (user_frame p OR 0x48000, True) \<and> mem u 0x501000 = mem t 0x501000"
proof -
  obtain t u r where tu: "entry linked_at MULTIBOOT_BOOTLOADER_MAGIC 0x10000 boot0 = Some (True, t)"
    "step 0x600020 Start (t, \<lambda>_. [], Boot) (u, \<lambda>_. [], User r)" and lay: "laid_out t []" and img: "0x501000 \<in> img_rng (mem t) (fs_ptr t)"
    by (rule boot0_program)
  have re: "reachable 0x600020 (t, \<lambda>_. [], Boot) (u, \<lambda>_. [], User r)" by (rule reach_step [OF reach_refl tu(2)]) simp
  from booted_machine [OF tu(1) boot0_fields(2,3,6) re] obtain p where
    p: "curr_process u = p" "\<forall>va. in_window va \<longrightarrow> translate u va = Some (user_frame p OR (va AND 0x3FFFFF), True)"
    "img_agree (mem t) (fs_ptr t) (mem u)" using lay by blast
  have "mem u 0x501000 = mem t 0x501000" using p(3) img by (simp add: img_agree_def)
  moreover have "in_window 0x8048000" by (simp add: in_window_def USER_BASE_def USER_SIZE_def)
  with p have "translate u 0x8048000 = Some (user_frame p OR 0x48000, True)" by force
  ultimately show ?thesis using tu(1) re p(1) by blast
qed

end
